(* ===== verification/CE_Prelude.thy ===== *)
theory CE_Prelude
  imports Main "HOL-Library.Word"
begin

unbundle bit_operations_syntax

text \<open>
  Shared vocabulary of the content-extension development.

  \<^item> Machine types: \<open>u8\<close>, \<open>u16\<close>, \<open>u32\<close>, \<open>u64\<close> are the C++ fixed-width integers, as words.
    Indices into vectors (\<open>unsigned\<close>, \<open>size_t\<close>) are \<open>nat\<close>; where the code uses
    \<open>std::numeric_limits<unsigned>::max()\<close> as a sentinel the model uses \<open>u32_max\<close>.
  \<^item> \<open>WTF::HashSet\<close> and \<open>WTF::HashMap\<close> are duplicate-free lists and association lists in
    insertion order. The C++ containers iterate in an order that depends on their hash function.
    That order can be observed in one place: the actions of a node of the automaton are stored in it,
    and the minimiser compares them as lists, so with another order it may merge other nodes. The
    theorems about that comparison hold for automata with actions in any order, and the conditions
    of the theorems about the whole compiler are on the sets of actions.
  \<^item> The locale \<open>hash_set\<close> states what the clients of a \<open>HashSet\<close> rely on, and the locale
    \<open>simulation\<close> is the refinement argument all stages of the compiler share: two
    deterministic machines in lock step produce the same outputs.
\<close>

section \<open>Machine types\<close>

type_synonym u8 = "8 word"
type_synonym u16 = "16 word"
type_synonym u32 = "32 word"
type_synonym u64 = "64 word"

definition u32_max :: nat where
  "u32_max = 4294967295"

definition u8_max :: nat where
  "u8_max = 255"

lemma unat_of_nat_small:
  "n < 2 ^ LENGTH('a) \<Longrightarrow> unat (of_nat n :: 'a::len word) = n"
  by (simp add: unat_of_nat take_bit_nat_eq_self)

lemma unat_of_nat_sizes [simp]:
  "n < 256 \<Longrightarrow> unat (of_nat n :: u8) = n" "n < 65536 \<Longrightarrow> unat (of_nat n :: u16) = n"
  "n < 4294967296 \<Longrightarrow> unat (of_nat n :: u32) = n"
  by (simp_all add: unat_of_nat_small)

named_theorems frame \<open>facts saying which part of a state an operation leaves alone\<close>
named_theorems wf_intros \<open>well-formedness preservation rules\<close>

section \<open>Hash sets and hash maps\<close>

definition hs_add :: "'a \<Rightarrow> 'a list \<Rightarrow> 'a list" where
  "hs_add x xs = (if x \<in> set xs then xs else xs @ [x])"

definition hs_add_all :: "'a list \<Rightarrow> 'a list \<Rightarrow> 'a list" where
  "hs_add_all ys xs = fold hs_add ys xs"

text \<open>\<open>HashMap::add\<close> inserts only if the key is absent; \<open>iterator->value\<close> is then updated.\<close>

definition hm_add :: "'k \<Rightarrow> 'v \<Rightarrow> ('k \<times> 'v) list \<Rightarrow> ('k \<times> 'v) list" where
  "hm_add k v m = (if map_of m k = None then m @ [(k, v)] else m)"

definition hm_modify :: "'k \<Rightarrow> ('v \<Rightarrow> 'v) \<Rightarrow> ('k \<times> 'v) list \<Rightarrow> ('k \<times> 'v) list" where
  "hm_modify k f m = map (\<lambda>(k', v). if k' = k then (k', f v) else (k', v)) m"

definition hm_remove :: "'k \<Rightarrow> ('k \<times> 'v) list \<Rightarrow> ('k \<times> 'v) list" where
  "hm_remove k m = filter (\<lambda>(k', v). k' \<noteq> k) m"

locale hash_set =
  fixes add :: "'a \<Rightarrow> 's \<Rightarrow> 's"
    and elems :: "'s \<Rightarrow> 'a list"
  assumes add_elems: "set (elems (add x s)) = insert x (set (elems s))"
    and add_distinct: "distinct (elems s) \<Longrightarrow> distinct (elems (add x s))"
    and add_old: "x \<in> set (elems s) \<Longrightarrow> add x s = s"
begin

lemma fold_add_elems: "set (elems (fold add xs s)) = set xs \<union> set (elems s)"
  by (induction xs arbitrary: s) (auto simp: add_elems)

lemma fold_add_distinct: "distinct (elems s) \<Longrightarrow> distinct (elems (fold add xs s))"
  by (induction xs arbitrary: s) (auto simp: add_distinct)

lemma fold_add_old: "set xs \<subseteq> set (elems s) \<Longrightarrow> fold add xs s = s"
  by (induction xs arbitrary: s) (auto simp: add_old)

end

interpretation id_set: hash_set hs_add "\<lambda>xs. xs"
  by unfold_locales (auto simp: hs_add_def)

lemma set_hs_add [simp]: "set (hs_add x xs) = insert x (set xs)"
  by (rule id_set.add_elems)

lemma distinct_hs_add [simp]: "distinct xs \<Longrightarrow> distinct (hs_add x xs)"
  by (rule id_set.add_distinct)

lemma set_hs_add_all [simp]: "set (hs_add_all ys xs) = set ys \<union> set xs"
  unfolding hs_add_all_def by (rule id_set.fold_add_elems)

lemma distinct_hs_add_all [simp]: "distinct xs \<Longrightarrow> distinct (hs_add_all ys xs)"
  unfolding hs_add_all_def by (rule id_set.fold_add_distinct)

lemma hs_add_all_Nil [simp]: "hs_add_all [] xs = xs"
  by (simp add: hs_add_all_def)

lemma map_of_hm_add [simp]:
  "map_of (hm_add k v m) = (case map_of m k of None \<Rightarrow> (map_of m)(k \<mapsto> v) | Some _ \<Rightarrow> map_of m)"
  by (auto simp: hm_add_def fun_eq_iff map_add_def split: option.splits)

lemma map_of_hm_modify [simp]:
  "map_of (hm_modify k f m) j = (if j = k then map_option f (map_of m k) else map_of m j)"
  by (induction m) (auto simp: hm_modify_def)

lemma map_of_hm_remove [simp]:
  "map_of (hm_remove k m) j = (if j = k then None else map_of m j)"
  by (induction m) (auto simp: hm_remove_def)

lemma keys_hm_modify [simp]: "map fst (hm_modify k f m) = map fst m"
  by (induction m) (auto simp: hm_modify_def)

lemma distinct_hm_add:
  "distinct (map fst m) \<Longrightarrow> distinct (map fst (hm_add k v m))"
  by (auto simp: hm_add_def map_of_eq_None_iff)

lemma distinct_hm_remove:
  "distinct (map fst m) \<Longrightarrow> distinct (map fst (hm_remove k m))"
  by (induction m) (auto simp: hm_remove_def)

section \<open>Deterministic machines and their outputs\<close>

text \<open>
  A machine reads a word, produces a set of outputs each time it enters a state, and stops for
  good when it has no transition. This is what the DFA, the bytecode interpreter and the set of
  active NFA states have in common.
\<close>

fun run_out :: "('s \<Rightarrow> 'c \<Rightarrow> 's option) \<Rightarrow> ('s \<Rightarrow> 'o set) \<Rightarrow> 's \<Rightarrow> 'c list \<Rightarrow> 'o set" where
  "run_out step out s [] = {}"
| "run_out step out s (c # w) =
     (case step s c of None \<Rightarrow> {} | Some s' \<Rightarrow> out s' \<union> run_out step out s' w)"

text \<open>The state a word leads to.\<close>

fun run_to :: "('s \<Rightarrow> 'c \<Rightarrow> 's option) \<Rightarrow> 's \<Rightarrow> 'c list \<Rightarrow> 's option" where
  "run_to step s [] = Some s"
| "run_to step s (c # w) = (case step s c of None \<Rightarrow> None | Some s' \<Rightarrow> run_to step s' w)"

lemma run_out_snoc:
  "run_out step out s (w @ [c]) = run_out step out s w \<union>
     (case run_to step s w of None \<Rightarrow> {} | Some s' \<Rightarrow> case step s' c of None \<Rightarrow> {} | Some s'' \<Rightarrow> out s'')"
  by (induction w arbitrary: s) (auto split: option.splits)

locale simulation =
  fixes step1 :: "'s \<Rightarrow> 'c \<Rightarrow> 's option" and out1 :: "'s \<Rightarrow> 'o set"
    and step2 :: "'t \<Rightarrow> 'c \<Rightarrow> 't option" and out2 :: "'t \<Rightarrow> 'o set"
    and R :: "'s \<Rightarrow> 't \<Rightarrow> bool" and ok :: "'c \<Rightarrow> bool"
  assumes sim_step: "R s t \<Longrightarrow> ok c \<Longrightarrow> rel_option R (step1 s c) (step2 t c)"
    and sim_out: "R s t \<Longrightarrow> out1 s = out2 t"
begin

lemma run_out_eq:
  "R s t \<Longrightarrow> list_all ok w \<Longrightarrow> run_out step1 out1 s w = run_out step2 out2 t w"
proof (induction w arbitrary: s t)
  case Nil
  show ?case by simp
next
  case (Cons c w)
  then have "rel_option R (step1 s c) (step2 t c)" by (simp add: sim_step)
  then show ?case
  proof (cases rule: option.rel_cases)
    case None
    then show ?thesis by simp
  next
    case (Some s' t')
    with Cons show ?thesis by (simp add: sim_out)
  qed
qed

end

section \<open>Lists\<close>

lemma nth_append_left [simp]: "i < length xs \<Longrightarrow> (xs @ ys) ! i = xs ! i"
  by (simp add: nth_append)

lemma nth_snoc_length [simp]: "(xs @ [x]) ! length xs = x"
  by simp

lemma take_drop_append_left:
  "a + n \<le> length xs \<Longrightarrow> take n (drop a (xs @ ys)) = take n (drop a xs)"
  by simp

end
