(* ===== verification/CE_Nfa.thy ===== *)
theory CE_Nfa
  imports CE_Prelude
begin

text \<open>
  The nondeterministic automaton of \<open>contentextensions/NFA.cpp\<close>, \<open>NFA.h\<close> and \<open>NFANode.h\<close>,
  and its meaning as a graph of labelled edges.

  A node keeps a hash map from characters (and the pseudo character 256 for epsilon) to sets of
  targets, a set of targets taken on any character, and the actions of the rules it accepts.
  Characters are \<open>nat\<close>; node identifiers are vector indices.
\<close>

section \<open>The data structure\<close>

type_synonym action_list = "u64 list"

record nfa_node =
  transitions :: "(nat \<times> nat list) list"
  transitionsOnAnyCharacter :: "nat list"
  finalRuleIds :: action_list

record nfa =
  m_nodes :: "nfa_node list"
  m_root :: nat

definition epsilonTransitionCharacter :: nat where
  "epsilonTransitionCharacter = 256"

definition empty_node :: nfa_node where
  "empty_node = \<lparr>transitions = [], transitionsOnAnyCharacter = [], finalRuleIds = []\<rparr>"

definition createNode :: "nfa \<Rightarrow> nfa \<times> nat" where
  "createNode nfa =
     (let nextId = length (m_nodes nfa)
      in (nfa\<lparr>m_nodes := m_nodes nfa @ [empty_node]\<rparr>, nextId))"

text \<open>The constructor creates the root.\<close>

definition new_nfa :: nfa where
  "new_nfa = (let (n, root) = createNode \<lparr>m_nodes = [], m_root = 0\<rparr> in n\<lparr>m_root := root\<rparr>)"

definition graphSize :: "nfa \<Rightarrow> nat" where
  "graphSize nfa = length (m_nodes nfa)"

text \<open>All updates of a node go through this; the C++ takes a reference into the vector.\<close>

definition update_node :: "nat \<Rightarrow> (nfa_node \<Rightarrow> nfa_node) \<Rightarrow> nfa \<Rightarrow> nfa" where
  "update_node i f nfa = nfa\<lparr>m_nodes := (m_nodes nfa)[i := f (m_nodes nfa ! i)]\<rparr>"

definition add_target :: "nat \<Rightarrow> nat \<Rightarrow> nfa_node \<Rightarrow> nfa_node" where
  "add_target key to node =
     node\<lparr>transitions := hm_modify key (hs_add to) (hm_add key [] (transitions node))\<rparr>"

definition addTransition :: "nat \<Rightarrow> nat \<Rightarrow> nat \<Rightarrow> nfa \<Rightarrow> nfa" where
  "addTransition from to character nfa =
     (if to \<in> set (transitionsOnAnyCharacter (m_nodes nfa ! from)) then nfa
      else update_node from (add_target character to) nfa)"

definition addEpsilonTransition :: "nat \<Rightarrow> nat \<Rightarrow> nfa \<Rightarrow> nfa" where
  "addEpsilonTransition from to nfa =
     update_node from (add_target epsilonTransitionCharacter to) nfa"

text \<open>
  The C++ ends with \<open>for (auto transitionSlot : fromNode.transitions)
  transitionSlot.value.remove(to)\<close>. The loop variable is a copy of the slot, so the loop
  changes a temporary and leaves the node's own map as it was.
\<close>

definition addTransitionsOnAnyCharacter :: "nat \<Rightarrow> nat \<Rightarrow> nfa \<Rightarrow> nfa" where
  "addTransitionsOnAnyCharacter from to nfa =
     update_node from
       (\<lambda>node. node\<lparr>transitionsOnAnyCharacter := hs_add to (transitionsOnAnyCharacter node)\<rparr>) nfa"

text \<open>\<open>copyToVector\<close> resizes the destination first: earlier actions of the node are lost.\<close>

definition setActions :: "nat \<Rightarrow> action_list \<Rightarrow> nfa \<Rightarrow> nfa" where
  "setActions node actions nfa = update_node node (\<lambda>n. n\<lparr>finalRuleIds := actions\<rparr>) nfa"

definition restoreToGraphSize :: "nat \<Rightarrow> nfa \<Rightarrow> nfa" where
  "restoreToGraphSize newSize nfa = nfa\<lparr>m_nodes := take newSize (m_nodes nfa)\<rparr>"

section \<open>Meaning: labelled edges and paths\<close>

text \<open>
  An edge carries \<open>None\<close> for epsilon and \<open>Some c\<close> for a character. A target on any character
  is reached on every character except NUL, which the engine uses as the end of the input.
\<close>

type_synonym edge = "nat \<times> nat option \<times> nat"

definition node_targets :: "nfa_node \<Rightarrow> nat \<Rightarrow> nat list" where
  "node_targets node key = (case map_of (transitions node) key of None \<Rightarrow> [] | Some ts \<Rightarrow> ts)"

definition node_edges :: "nfa_node \<Rightarrow> nat option \<Rightarrow> nat set" where
  "node_edges node l =
     (case l of
        None \<Rightarrow> set (node_targets node epsilonTransitionCharacter)
      | Some c \<Rightarrow> (if c = epsilonTransitionCharacter then {} else set (node_targets node c)) \<union>
                  (if c = 0 then {} else set (transitionsOnAnyCharacter node)))"

definition edges :: "nfa \<Rightarrow> edge set" where
  "edges nfa = {(p, l, q). p < length (m_nodes nfa) \<and> q \<in> node_edges (m_nodes nfa ! p) l}"

inductive path :: "edge set \<Rightarrow> nat \<Rightarrow> nat list \<Rightarrow> nat \<Rightarrow> bool" for E where
  path_refl: "path E p [] p"
| path_eps: "(p, None, r) \<in> E \<Longrightarrow> path E r w q \<Longrightarrow> path E p w q"
| path_char: "(p, Some c, r) \<in> E \<Longrightarrow> path E r w q \<Longrightarrow> path E p (c # w) q"

inductive_cases path_ConsE: "path E p (c # w) q"

definition wf_nfa :: "nfa \<Rightarrow> bool" where
  "wf_nfa nfa \<longleftrightarrow> m_root nfa < length (m_nodes nfa) \<and>
     (\<forall>(p, l, q) \<in> edges nfa. p < length (m_nodes nfa) \<and> q < length (m_nodes nfa))"

definition rules_at :: "nfa \<Rightarrow> nat \<Rightarrow> u64 set" where
  "rules_at nfa q = set (finalRuleIds (m_nodes nfa ! q))"

subsection \<open>Paths\<close>

lemma path_append: "path E p u r \<Longrightarrow> path E r v q \<Longrightarrow> path E p (u @ v) q"
  by (induction rule: path.induct) (auto intro: path.intros)

lemma path_eps_single: "(p, None, q) \<in> E \<Longrightarrow> path E p [] q"
  by (blast intro: path.intros)

lemma path_char_single: "(p, Some c, q) \<in> E \<Longrightarrow> path E p [c] q"
  by (blast intro: path.intros)

lemma path_mono: "path E p w q \<Longrightarrow> E \<subseteq> E' \<Longrightarrow> path E' p w q"
  by (induction rule: path.induct) (auto intro: path.intros)

lemma path_appendE:
  assumes "path E p (u @ v) q"
  obtains r where "path E p u r" and "path E r v q"
proof -
  have "\<exists>r. path E p u r \<and> path E r v q"
    using assms
  proof (induction p "u @ v" q arbitrary: u rule: path.induct)
    case (path_refl p)
    then show ?case by (auto intro: path.intros)
  next
    case (path_eps p r q)
    then show ?case by (blast intro: path.intros)
  next
    case (path_char p c r w q)
    show ?case
    proof (cases u)
      case Nil
      with path_char show ?thesis by (auto intro: path.intros)
    next
      case (Cons c' u')
      with path_char show ?thesis by (fastforce intro: path.intros)
    qed
  qed
  then show ?thesis using that by blast
qed

lemma path_no_out: "path E p w q \<Longrightarrow> (\<And>l r. (p, l, r) \<notin> E) \<Longrightarrow> w = [] \<and> q = p"
  by (erule path.cases) auto

lemma path_no_in: "path E p w q \<Longrightarrow> (\<And>r l. (r, l, q) \<notin> E) \<Longrightarrow> w = [] \<and> q = p"
proof (induction rule: path.induct)
  case (path_eps p r w q)
  then show ?case by auto
next
  case (path_char p c r w q)
  then show ?case by auto
qed simp

text \<open>A path that ends below a bound never visits a node above it, if no edge leads back down.\<close>

lemma path_stays_above:
  "path E p w q \<Longrightarrow> n \<le> p \<Longrightarrow> (\<And>a l b. (a, l, b) \<in> E \<Longrightarrow> n \<le> a \<Longrightarrow> n \<le> b) \<Longrightarrow> n \<le> q"
  by (induction rule: path.induct) auto

lemma path_old:
  assumes "path E' p w q" "q < n"
    and new: "\<And>a l b. (a, l, b) \<in> E' \<Longrightarrow> (a, l, b) \<in> E \<or> n \<le> b"
    and up: "\<And>a l b. (a, l, b) \<in> E' \<Longrightarrow> n \<le> a \<Longrightarrow> n \<le> b"
  shows "path E p w q"
  using assms(1,2)
proof (induction rule: path.induct)
  case (path_refl p)
  show ?case by (rule path.intros)
next
  case (path_eps p r w q)
  then have "r < n" using path_stays_above[of E' r w q n] up by (meson leI le_less_trans not_less)
  with path_eps new[of p None r] show ?case by (auto intro: path.intros)
next
  case (path_char p c r w q)
  then have "r < n" using path_stays_above[of E' r w q n] up by (meson leI le_less_trans not_less)
  with path_char new[of p "Some c" r] show ?case by (auto intro: path.intros)
qed

subsection \<open>Adding one epsilon edge\<close>

text \<open>Words built from zero or more pieces of a language.\<close>

inductive_set star :: "nat list set \<Rightarrow> nat list set" for L where
  star_Nil: "[] \<in> star L"
| star_step: "u \<in> L \<Longrightarrow> v \<in> star L \<Longrightarrow> u @ v \<in> star L"

lemma star_append: "u \<in> star L \<Longrightarrow> v \<in> star L \<Longrightarrow> u @ v \<in> star L"
  by (induction rule: star.induct) (auto intro: star.intros simp: append_assoc)

lemma star_single: "u \<in> L \<Longrightarrow> u \<in> star L"
  using star_step[OF _ star_Nil] by fastforce

lemma star_mono: "u \<in> star L \<Longrightarrow> L \<subseteq> M \<Longrightarrow> u \<in> star M"
  by (induction rule: star.induct) (auto intro: star.intros)

lemma star_empty: "w \<in> star {} \<longleftrightarrow> w = []"
proof
  show "w \<in> star {} \<Longrightarrow> w = []" by (induction rule: star.induct) auto
qed (simp add: star_Nil)

lemma star_Nil_lang: "w \<in> star {[]} \<longleftrightarrow> w = []"
proof
  show "w \<in> star {[]} \<Longrightarrow> w = []" by (induction rule: star.induct) auto
qed (simp add: star_Nil)

lemma path_star: "x \<in> star {y. path E b y a} \<Longrightarrow> (a, None, b) \<in> E \<Longrightarrow> path E a v q \<Longrightarrow> path E a (x @ v) q"
proof (induction rule: star.induct)
  case star_Nil
  then show ?case by simp
next
  case (star_step u v')
  then have "path E a (u @ v' @ v) q"
    using path_append[of E b u a "v' @ v" q] path.path_eps[of a b E] by auto
  then show ?case by simp
qed

lemma path_insert_eps:
  "path (insert (a, None, b) E) p w q \<longleftrightarrow>
     path E p w q \<or>
     (\<exists>u x v. w = u @ x @ v \<and> path E p u a \<and> x \<in> star {y. path E b y a} \<and> path E b v q)"
  (is "?L \<longleftrightarrow> ?R")
proof
  assume ?L
  then show ?R
  proof (induction rule: path.induct)
    case (path_refl p)
    show ?case by (simp add: path.path_refl)
  next
    case (path_eps p r w q)
    from path_eps.hyps(1) consider "(p, None, r) \<in> E" | "p = a" "r = b" by auto
    then show ?case
    proof cases
      case 1
      then have step: "path E p y s" if "path E r y s" for y s
        using that by (rule path.path_eps)
      from path_eps.IH show ?thesis using step by metis
    next
      case 2
      from path_eps.IH show ?thesis
      proof
        assume "path E r w q"
        with 2 show ?thesis
          using path.path_refl[of E a] star.star_Nil by fastforce
      next
        assume "\<exists>u x v. w = u @ x @ v \<and> path E r u a \<and> x \<in> star {y. path E b y a} \<and> path E b v q"
        then obtain u x v where "w = u @ x @ v" "path E b u a" "x \<in> star {y. path E b y a}" "path E b v q"
          using 2 by blast
        then have "w = [] @ (u @ x) @ v \<and> path E p [] a \<and> u @ x \<in> star {y. path E b y a} \<and> path E b v q"
          using 2 by (simp add: path.path_refl star.star_step)
        then show ?thesis by blast
      qed
    qed
  next
    case (path_char p c r w q)
    then have e: "(p, Some c, r) \<in> E" by simp
    from path_char.IH show ?case
    proof
      assume "path E r w q"
      with e show ?thesis by (blast intro: path.path_char)
    next
      assume "\<exists>u x v. w = u @ x @ v \<and> path E r u a \<and> x \<in> star {y. path E b y a} \<and> path E b v q"
      then obtain u x v where "w = u @ x @ v" "path E r u a" "x \<in> star {y. path E b y a}" "path E b v q"
        by blast
      with e have "c # w = (c # u) @ x @ v \<and> path E p (c # u) a \<and> x \<in> star {y. path E b y a} \<and> path E b v q"
        by (simp add: path.path_char)
      then show ?thesis by blast
    qed
  qed
next
  let ?E = "insert (a, None, b) E"
  assume ?R
  then show ?L
  proof
    assume "path E p w q"
    then show ?L by (rule path_mono) blast
  next
    assume "\<exists>u x v. w = u @ x @ v \<and> path E p u a \<and> x \<in> star {y. path E b y a} \<and> path E b v q"
    then obtain u x v where w: "w = u @ x @ v" and u: "path E p u a"
      and x: "x \<in> star {y. path E b y a}" and v: "path E b v q" by blast
    have "path ?E b v q" using v by (rule path_mono) blast
    then have "path ?E a v q" by (blast intro: path.path_eps)
    moreover have "x \<in> star {y. path ?E b y a}"
      using x by (rule star_mono) (auto intro: path_mono)
    ultimately have "path ?E a (x @ v) q" by (simp add: path_star)
    moreover have "path ?E p u a" using u by (rule path_mono) blast
    ultimately show ?L unfolding w by (simp add: path_append)
  qed
qed

end
