(* ===== verification/CE_Bits.thy ===== *)
theory CE_Bits
  imports CE_Prelude
begin

text \<open>
  Bit counting (\<open>wtf/StdLibExtras.h\<close>) and the ASCII classification functions
  (\<open>wtf/ASCIICType.h\<close>) that the term and bytecode components use.
\<close>

section \<open>Counting set bits\<close>

definition bitCount32 :: "u32 \<Rightarrow> u32" where
  "bitCount32 bits0 =
     (let bits1 = bits0 - (drop_bit 1 bits0 AND 0x55555555);
          bits2 = (bits1 AND 0x33333333) + (drop_bit 2 bits1 AND 0x33333333)
      in drop_bit 24 (((bits2 + drop_bit 4 bits2) AND 0xF0F0F0F) * 0x1010101))"

definition bitCount64 :: "u64 \<Rightarrow> nat" where
  "bitCount64 bits = unat (bitCount32 (ucast bits)) + unat (bitCount32 (ucast (drop_bit 32 bits)))"

text \<open>The reference: the number of positions whose bit is set.\<close>

definition popcount :: "'a::len word \<Rightarrow> nat" where
  "popcount w = length (filter (bit w) [0..<LENGTH('a)])"

text \<open>
  The proof follows the bytes of the input. A number is the Horner value of its bytes, the masks
  have the same byte everywhere, and each step of the routine maps the bytes one by one. What the
  steps do to a single byte is checked for all 256 of them.
\<close>

fun bytes_val :: "nat list \<Rightarrow> nat" where
  "bytes_val [] = 0"
| "bytes_val (d # ds) = d + 256 * bytes_val ds"

lemma and_byte:
  fixes c d m n :: nat
  assumes "c < 256" "m < 256"
  shows "(c + 256 * d) AND (m + 256 * n) = (c AND m) + 256 * (d AND n)"
proof -
  have t: "take_bit 8 (x + 256 * y) = x" and d: "drop_bit 8 (x + 256 * y) = y" if "x < 256" for x y :: nat
    using that by (simp_all add: take_bit_eq_mod drop_bit_eq_div)
  have "(c + 256 * d) AND (m + 256 * n) =
    take_bit 8 ((c + 256 * d) AND (m + 256 * n)) + push_bit 8 (drop_bit 8 ((c + 256 * d) AND (m + 256 * n)))"
    by (metis add.commute bits_ident)
  then show ?thesis using assms t [of c d] t [of m n] d [of c d] d [of m n]
    by (simp only: take_bit_and drop_bit_and push_bit_eq_mult) simp
qed

lemma and_low_bits:
  fixes x m :: nat
  assumes "m < 2 ^ k"
  shows "x AND m = take_bit k x AND m"
proof -
  have m: "m = m AND mask k" using assms by (simp add: take_bit_nat_eq_self flip: take_bit_eq_mask)
  have "x AND m = x AND (m AND mask k)" using m by simp
  also have "\<dots> = (x AND mask k) AND m" by (simp add: ac_simps)
  finally show ?thesis by (simp flip: take_bit_eq_mask)
qed

lemma div_carry:
  assumes "(B :: nat) = Q * P" "0 < P"
  shows "(e + B * r) div P = (e div P + Q * (r mod P)) + B * (r div P)"
proof -
  have "(e + B * r) div P = (e + (Q * r) * P) div P" using assms(1) by (simp add: ac_simps)
  also have "\<dots> = e div P + Q * r" using assms(2) by (simp add: add.commute)
  also have "Q * r = Q * (r mod P + P * (r div P))" by simp
  also have "\<dots> = Q * (r mod P) + B * (r div P)" using assms(1) by (simp only: distrib_left ac_simps)
  finally show ?thesis by simp
qed

lemma carry_bound:
  assumes "(B :: nat) = Q * P" "0 < P" "a < Q" "s < P"
  shows "a + Q * s < B"
proof -
  have "a + Q * s < Q * (s + 1)" using assms(3) by simp
  also have "\<dots> \<le> Q * P" using assms(4) by (intro mult_le_mono2) simp
  finally show ?thesis using assms(1) by simp
qed

lemma shift_and_bytes:
  assumes two: "(256::nat) = 2 ^ k * 2 ^ j" and m: "m < 2 ^ k" "m < 256"
  shows "list_all (\<lambda>e. e < 256) es \<Longrightarrow>
    (bytes_val es div 2 ^ j) AND bytes_val (replicate (length es) m) =
    bytes_val (map (\<lambda>e. (e div 2 ^ j) AND m) es)"
proof (induction es)
  case (Cons e es)
  let ?r = "bytes_val es"
  let ?low = "e div 2 ^ j + 2 ^ k * (?r mod 2 ^ j)"
  have e: "e div 2 ^ j < 2 ^ k"
    using Cons.prems two by (simp add: less_mult_imp_div_less)
  have low: "?low < 256" using carry_bound [OF two _ e] by simp
  have "?low AND m = take_bit k ?low AND m" by (rule and_low_bits [OF m(1)])
  also have "take_bit k ?low = e div 2 ^ j" using e by (simp add: take_bit_eq_mod)
  finally have byte: "?low AND m = (e div 2 ^ j) AND m" .
  have "bytes_val (e # es) div 2 ^ j = ?low + 256 * (?r div 2 ^ j)"
    using div_carry [OF two, of e ?r] by simp
  then show ?case using Cons low m by (simp add: and_byte byte)
qed simp

lemma bytes_val_diff:
  "list_all (\<lambda>e. g e \<le> e) es \<Longrightarrow> bytes_val es - bytes_val (map g es) = bytes_val (map (\<lambda>e. e - g e) es)
     \<and> bytes_val (map g es) \<le> bytes_val es"
  by (induction es) auto

lemma bytes_val_add: "bytes_val (map f es) + bytes_val (map g es) = bytes_val (map (\<lambda>e. f e + g e) es)"
  by (induction es) auto

definition small_nibbles :: "nat \<Rightarrow> bool" where
  "small_nibbles e \<longleftrightarrow> e mod 16 \<le> 4 \<and> e div 16 \<le> 4"

lemma bytes_val_mod16: "list_all small_nibbles es \<Longrightarrow> bytes_val es mod 16 \<le> 4"
proof (cases es)
  case (Cons d ds)
  have "(d + 256 * x) mod 16 = d mod 16" for x :: nat
    using mod_mult_self2 [of d 16 "16 * x"] by simp
  then show "list_all small_nibbles es \<Longrightarrow> bytes_val es mod 16 \<le> 4"
    using Cons by (simp add: small_nibbles_def)
qed simp

lemma fold_nibbles:
  "list_all small_nibbles es \<Longrightarrow>
    (bytes_val es + bytes_val es div 16) AND bytes_val (replicate (length es) 15) =
    bytes_val (map (\<lambda>e. e mod 16 + e div 16) es)"
proof (induction es)
  case (Cons e es)
  let ?r = "bytes_val es"
  let ?low = "(e mod 16 + e div 16) + 16 * (e div 16 + ?r mod 16)"
  have r: "?r mod 16 \<le> 4" using Cons.prems by (simp add: bytes_val_mod16)
  have e: "e mod 16 \<le> 4" "e div 16 \<le> 4" using Cons.prems by (simp_all add: small_nibbles_def)
  have sum: "(e + 256 * ?r) + (e + 256 * ?r) div 16 = ?low + 256 * (?r + ?r div 16)"
    using div_carry [of 256 16 16 e ?r] mod_mult_div_eq [of e 16] by simp
  have bound: "?low < 256" using e r by simp
  have "?low AND 15 = take_bit 4 ?low" by (simp add: take_bit_eq_mask mask_eq_exp_minus_1)
  also have "\<dots> = ?low mod 16" by (simp add: take_bit_eq_mod)
  also have "\<dots> = (e mod 16 + e div 16) mod 16" by (rule mod_mult_self2)
  also have "\<dots> = e mod 16 + e div 16" using e by simp
  finally have byte: "?low AND 15 = e mod 16 + e div 16" .
  have "(bytes_val (e # es) + bytes_val (e # es) div 16) AND bytes_val (replicate (length (e # es)) 15) =
        (?low + 256 * (?r + ?r div 16)) AND (15 + 256 * bytes_val (replicate (length es) 15))"
    using sum by (simp only: bytes_val.simps list.size replicate_Suc add_Suc_right add_0_right)
  also have "\<dots> = (?low AND 15) + 256 * ((?r + ?r div 16) AND bytes_val (replicate (length es) 15))"
    using bound by (rule and_byte) simp
  also have "\<dots> = bytes_val (map (\<lambda>e. e mod 16 + e div 16) (e # es))"
    unfolding byte using Cons by simp
  finally show ?case .
qed simp

lemma bytes_of_word32:
  fixes w :: u32
  defines "es \<equiv> [unat w mod 256, unat w div 256 mod 256, unat w div 65536 mod 256, unat w div 16777216 mod 256]"
  shows "unat w = bytes_val es" "length es = 4" "list_all (\<lambda>e. e < 256) es"
proof -
  have "unat w < 4294967296" using unsigned_less [of w] by simp
  then have hi: "unat w div 16777216 < 256" by (simp add: less_mult_imp_div_less)
  have d2: "unat w div 65536 = unat w div 256 div 256" and d3: "unat w div 16777216 = unat w div 65536 div 256"
    by (simp_all flip: div_mult2_eq)
  then show "unat w = bytes_val es"
    using hi mod_mult_div_eq [of "unat w" 256] mod_mult_div_eq [of "unat w div 256" 256]
      mod_mult_div_eq [of "unat w div 65536" 256] by (simp add: es_def d2 d3)
qed (simp_all add: es_def)

text \<open>One byte through the three steps of the routine.\<close>

definition byte_step1 :: "nat \<Rightarrow> nat" where "byte_step1 e = e - ((e div 2) AND 85)"
definition byte_step2 :: "nat \<Rightarrow> nat" where "byte_step2 e = (e AND 51) + ((e div 4) AND 51)"
definition byte_step3 :: "nat \<Rightarrow> nat" where "byte_step3 e = e mod 16 + e div 16"

lemma byte_steps:
  "list_all (\<lambda>e. (e div 2) AND 85 \<le> e \<and> byte_step1 e < 256 \<and> small_nibbles (byte_step2 (byte_step1 e)) \<and>
     byte_step3 (byte_step2 (byte_step1 e)) = length (filter (bit e) [0..<8])) [0..<256]"
proof -
  have "[0..<256] = (0::nat) # 1 # [2..<256]" and "[0..<8] = [0::nat, 1, 2, 3, 4, 5, 6, 7]"
    by (simp_all add: upt_conv_Cons)
  then show ?thesis
    by (simp add: byte_step1_def byte_step2_def byte_step3_def small_nibbles_def bit_numeral_rec bit_Suc_0_iff)
qed

lemma byte_steps_at:
  assumes "e < 256"
  shows "(e div 2) AND 85 \<le> e" "byte_step1 e < 256" "small_nibbles (byte_step2 (byte_step1 e))"
    "byte_step3 (byte_step2 (byte_step1 e)) = length (filter (bit e) [0..<8])"
  using byte_steps assms by (simp_all add: list_all_iff)

lemma popcount_bytes32:
  fixes w :: u32
  defines "pc \<equiv> \<lambda>e :: nat. length (filter (bit e) [0..<8])"
  shows "popcount w = pc (unat w mod 256) + pc (unat w div 256 mod 256) +
           pc (unat w div 65536 mod 256) + pc (unat w div 16777216 mod 256)"
proof -
  have byte: "bit (unat w div 2 ^ k mod 256) i \<longleftrightarrow> i < 8 \<and> bit w (k + i)" for k i
  proof -
    have "unat w div 2 ^ k mod 256 = take_bit 8 (drop_bit k (unat w))"
      by (simp add: take_bit_eq_mod drop_bit_eq_div)
    then show ?thesis by (simp add: bit_take_bit_iff bit_drop_bit_eq bit_unsigned_iff)
  qed
  have "[0..<32::nat] = map (\<lambda>i. 0 + i) [0..<8] @ map (\<lambda>i. 8 + i) [0..<8] @
           map (\<lambda>i. 16 + i) [0..<8] @ map (\<lambda>i. 24 + i) [0..<8]"
    by (simp add: upt_conv_Cons)
  then have "popcount w = (\<Sum>k\<leftarrow>[0, 8, 16, 24]. length (filter (\<lambda>i. bit w (k + i)) [0..<8]))"
    by (simp only: popcount_def) (simp add: filter_map o_def)
  also have "\<dots> = (\<Sum>k\<leftarrow>[0, 8, 16, 24]. pc (unat w div 2 ^ k mod 256))"
  proof -
    have "filter (bit (unat w div 2 ^ k mod 256)) [0..<8] = filter (\<lambda>i. bit w (k + i)) [0..<8]" for k
      by (rule filter_cong) (auto simp: byte)
    then show ?thesis by (simp only: pc_def)
  qed
  finally show ?thesis by simp
qed

lemma bitCount32_popcount: "unat (bitCount32 w) = popcount w"
proof -
  obtain a b c d where w: "unat w = bytes_val [a, b, c, d]" and lt: "a < 256" "b < 256" "c < 256" "d < 256"
    and pc: "popcount w = length (filter (bit a) [0..<8]) + length (filter (bit b) [0..<8]) +
      length (filter (bit c) [0..<8]) + length (filter (bit d) [0..<8])"
    by (rule that [OF bytes_of_word32(1) _ _ _ _ popcount_bytes32]) simp_all
  let ?es = "[a, b, c, d]"
  define bits1 where "bits1 = w - (drop_bit 1 w AND 0x55555555)"
  define bits2 where "bits2 = (bits1 AND 0x33333333) + (drop_bit 2 bits1 AND 0x33333333)"
  note st = byte_steps_at [OF lt(1)] byte_steps_at [OF lt(2)] byte_steps_at [OF lt(3)] byte_steps_at [OF lt(4)]
  have shifted: "unat (drop_bit k v AND m) = (unat v div 2 ^ k) AND unat m" for v m :: u32 and k
  proof -
    have "unat (drop_bit k v) = unat v div 2 ^ k" by (rule trans [OF unat_drop_bit_eq drop_bit_eq_div])
    then show ?thesis by (simp only: unsigned_and_eq)
  qed
  have "unat (drop_bit 1 w AND 0x55555555) = bytes_val (map (\<lambda>e. (e div 2) AND 85) ?es)"
  proof -
    have "unat (drop_bit 1 w AND 0x55555555) = (bytes_val ?es div 2 ^ 1) AND unat (0x55555555 :: u32)"
      by (simp only: shifted w)
    also have "unat (0x55555555 :: u32) = bytes_val (replicate (length ?es) 85)" by simp
    also have "(bytes_val ?es div 2 ^ 1) AND \<dots> = bytes_val (map (\<lambda>e. (e div 2 ^ 1) AND 85) ?es)"
      using lt by (intro shift_and_bytes [of 7]) simp_all
    finally show ?thesis by (simp only: power_one_right)
  qed
  moreover have "bytes_val ?es - bytes_val (map (\<lambda>e. (e div 2) AND 85) ?es) = bytes_val (map byte_step1 ?es)
      \<and> bytes_val (map (\<lambda>e. (e div 2) AND 85) ?es) \<le> bytes_val ?es"
  proof -
    have "list_all (\<lambda>e. (e div 2) AND 85 \<le> e) ?es" using st by (simp only: list.pred_inject)
    from bytes_val_diff [OF this] show ?thesis by (simp only: byte_step1_def [abs_def])
  qed
  ultimately have b1: "unat bits1 = bytes_val (map byte_step1 ?es)"
    unfolding bits1_def using w unat_sub [of "drop_bit 1 w AND 0x55555555" w]
    by (simp only: word_le_nat_alt)
  let ?es1 = "map byte_step1 ?es"
  have and0: "unat (v AND m) = (unat v div 2 ^ 0) AND unat m" for v m :: u32
    by (simp only: unsigned_and_eq power_0 div_by_1)
  have lo: "unat (bits1 AND 0x33333333) = bytes_val (map (\<lambda>e. e AND 51) ?es1)"
  proof -
    have "unat (bits1 AND 0x33333333) = (bytes_val ?es1 div 2 ^ 0) AND unat (0x33333333 :: u32)"
      by (simp only: and0 b1)
    also have "unat (0x33333333 :: u32) = bytes_val (replicate (length ?es1) 51)" by simp
    also have "(bytes_val ?es1 div 2 ^ 0) AND \<dots> = bytes_val (map (\<lambda>e. (e div 2 ^ 0) AND 51) ?es1)"
      using st by (intro shift_and_bytes [of 8]) simp_all
    finally show ?thesis by (simp only: power_0 div_by_1)
  qed
  have hi: "unat (drop_bit 2 bits1 AND 0x33333333) = bytes_val (map (\<lambda>e. (e div 4) AND 51) ?es1)"
  proof -
    have "unat (drop_bit 2 bits1 AND 0x33333333) = (bytes_val ?es1 div 2 ^ 2) AND unat (0x33333333 :: u32)"
      by (simp only: shifted b1)
    also have "unat (0x33333333 :: u32) = bytes_val (replicate (length ?es1) 51)" by simp
    also have "(bytes_val ?es1 div 2 ^ 2) AND \<dots> = bytes_val (map (\<lambda>e. (e div 2 ^ 2) AND 51) ?es1)"
      using st by (intro shift_and_bytes [of 6]) simp_all
    also have "(2::nat) ^ 2 = 4" by simp
    finally show ?thesis .
  qed
  let ?es2 = "map byte_step2 ?es1"
  have sum2: "bytes_val (map (\<lambda>e. e AND 51) ?es1) + bytes_val (map (\<lambda>e. (e div 4) AND 51) ?es1) = bytes_val ?es2"
    unfolding bytes_val_add by (simp add: byte_step2_def)
  have small: "list_all small_nibbles ?es2" using st by simp
  then have le: "list_all (\<lambda>e. e \<le> 68) ?es2"
    by (rule list.pred_mono_strong) (simp add: small_nibbles_def, presburger)
  then have bound2: "bytes_val ?es2 \<le> 0x44444444" by simp
  have b2: "unat bits2 = bytes_val ?es2"
    unfolding bits2_def using lo hi sum2 bound2 by (simp add: unat_word_ariths)
  have b3: "unat ((bits2 + drop_bit 4 bits2) AND 0xF0F0F0F) = bytes_val (map byte_step3 ?es2)"
  proof -
    have "unat (bits2 + drop_bit 4 bits2) = bytes_val ?es2 + bytes_val ?es2 div 16"
      using bound2 by (simp add: unat_word_ariths unat_drop_bit_eq drop_bit_eq_div b2 del: bytes_val.simps list.map)
    then have "unat ((bits2 + drop_bit 4 bits2) AND 0xF0F0F0F) =
        (bytes_val ?es2 + bytes_val ?es2 div 16) AND bytes_val (replicate (length ?es2) 15)"
      by (simp only: unsigned_and_eq) simp
    also have "\<dots> = bytes_val (map byte_step3 ?es2)"
      unfolding fold_nibbles [OF small] by (simp add: byte_step3_def)
    finally show ?thesis .
  qed
  obtain f g h i where fs: "map byte_step3 ?es2 = [f, g, h, i]" by simp
  have "f \<le> 8" "g \<le> 8" "h \<le> 8" "i \<le> 8" using small fs by (auto simp: small_nibbles_def byte_step3_def)
  moreover have "popcount w = f + g + h + i" using pc st fs by simp
  moreover have "(f + 256 * (g + 256 * (h + 256 * i))) * 16843009 mod 4294967296 div 16777216 = f + g + h + i"
    if "f \<le> 8" "g \<le> 8" "h \<le> 8" "i \<le> 8"
  proof -
    let ?L = "f + 256 * (f + g) + 65536 * (f + g + h)" and ?S = "f + g + h + i"
    have "(f + 256 * (g + 256 * (h + 256 * i))) * 16843009 =
          (?L + 16777216 * ?S) + 4294967296 * (g + 257 * h + 65793 * i)" by simp
    moreover have "(?L + 16777216 * ?S) mod 4294967296 = ?L + 16777216 * ?S"
      using that by (intro mod_less) simp
    moreover have "(?L + 16777216 * ?S) div 16777216 = ?S"
    proof -
      have "?L < 16777216" using that by simp
      then show ?thesis by (simp only: div_mult_self2 div_less)
    qed
    ultimately show ?thesis by (simp only: mod_mult_self2)
  qed
  ultimately show ?thesis
    unfolding bitCount32_def Let_def bits1_def [symmetric] bits2_def [symmetric]
    using b3 fs by (simp add: unat_drop_bit_eq drop_bit_eq_div unat_word_ariths)
qed

lemma bitCount64_popcount: "bitCount64 w = popcount w"
proof -
  have "[0..<64::nat] = map (\<lambda>i. 0 + i) [0..<32] @ map (\<lambda>i. 32 + i) [0..<32]"
    by (simp add: upt_conv_Cons)
  then have "popcount w = length (filter (bit w) [0..<32]) + length (filter (\<lambda>i. bit w (32 + i)) [0..<32])"
    by (simp only: popcount_def) (simp add: filter_map o_def del: upt_rec_numeral)
  also have "length (filter (bit w) [0..<32]) = popcount (ucast w :: u32)"
    unfolding popcount_def by (auto intro!: arg_cong [where f = length] filter_cong simp: bit_ucast_iff simp del: upt_rec_numeral)
  also have "length (filter (\<lambda>i. bit w (32 + i)) [0..<32]) = popcount (ucast (drop_bit 32 w) :: u32)"
    unfolding popcount_def
    by (auto intro!: arg_cong [where f = length] filter_cong simp: bit_ucast_iff bit_drop_bit_eq simp del: upt_rec_numeral)
  finally show ?thesis by (simp add: bitCount64_def bitCount32_popcount)
qed

lemma popcount_0_iff: "popcount w = 0 \<longleftrightarrow> (\<forall>i. \<not> bit w i)"
  using bit_imp_le_length [of w] by (auto simp: popcount_def filter_empty_conv)

lemma popcount_le: "popcount (w :: 'a::len word) \<le> LENGTH('a)"
  unfolding popcount_def by (rule order_trans [OF length_filter_le]) simp

lemma popcount_full_iff: "popcount (w :: 'a::len word) = LENGTH('a) \<longleftrightarrow> (\<forall>i < LENGTH('a). bit w i)"
proof -
  have "length (filter P xs) = length xs \<longleftrightarrow> (\<forall>x \<in> set xs. P x)" for P and xs :: "nat list"
    by (metis filter_id_conv length_filter_less less_irrefl)
  from this [of "bit w" "[0..<LENGTH('a)]"] show ?thesis by (auto simp: popcount_def)
qed

lemma popcount_1_only:
  assumes "popcount w = 1" "bit w i" "bit w j"
  shows "i = j"
proof (rule ccontr)
  assume "i \<noteq> j"
  have "distinct (filter (bit w) [0..<LENGTH('a)])" by simp
  moreover have "{i, j} \<subseteq> set (filter (bit w) [0..<LENGTH('a)])"
    using assms(2,3) by (auto dest: bit_imp_le_length)
  ultimately have "card {i, j} \<le> length (filter (bit w) [0..<LENGTH('a)])"
    by (metis card_mono distinct_card finite_set)
  with \<open>i \<noteq> j\<close> assms(1) show False by (simp add: popcount_def)
qed

section \<open>ASCII characters\<close>

text \<open>
  Characters are \<open>nat\<close>. The \<open>char\<close> and \<open>LChar\<close> instances of \<open>toASCIILower\<close> read the table
  \<open>asciiCaseFoldTable\<close>, which holds the same values as the generic formula below.
\<close>

definition isASCII :: "nat \<Rightarrow> bool" where
  "isASCII c \<longleftrightarrow> c < 128"

definition isASCIIUpper :: "nat \<Rightarrow> bool" where
  "isASCIIUpper c \<longleftrightarrow> 65 \<le> c \<and> c \<le> 90"

definition isASCIIAlpha :: "nat \<Rightarrow> bool" where
  "isASCIIAlpha c \<longleftrightarrow> 97 \<le> (c OR 32) \<and> (c OR 32) \<le> 122"

definition toASCIILower :: "nat \<Rightarrow> nat" where
  "toASCIILower c = c OR push_bit 5 (of_bool (65 \<le> c \<and> c \<le> 90))"

definition toASCIIUpper :: "nat \<Rightarrow> nat" where
  "toASCIIUpper c = c AND (65535 XOR push_bit 5 (of_bool (97 \<le> c \<and> c \<le> 122)))"

lemma toASCIILower_eq: "toASCIILower c = (if isASCIIUpper c then c + 32 else c)"
proof (cases "isASCIIUpper c")
  case True
  then have "c \<in> set [65..<91]" by (simp add: isASCIIUpper_def del: upt_rec_numeral)
  moreover have "list_all (\<lambda>c. c OR 32 = c + 32) [65..<91::nat]" by simp
  ultimately have "c OR 32 = c + 32" unfolding list_all_iff by blast
  with True show ?thesis by (simp add: toASCIILower_def isASCIIUpper_def)
next
  case False
  then show ?thesis by (auto simp: toASCIILower_def isASCIIUpper_def)
qed

lemma toASCIILower_less: "c < 128 \<Longrightarrow> toASCIILower c < 128"
  by (simp add: toASCIILower_eq isASCIIUpper_def)

lemma toASCIILower_idem [simp]: "toASCIILower (toASCIILower c) = toASCIILower c"
  by (simp add: toASCIILower_eq isASCIIUpper_def)

end
