(* ===== verification/CE_Term.thy ===== *)
theory CE_Term
  imports CE_Nfa CE_Bits
begin

text \<open>
  The terms of \<open>contentextensions/Term.h\<close>: quantified character sets and groups, the queries the
  pattern parser asks about them, and the generation of their automaton. The second half gives
  each term its language and proves the generated graph accepts exactly that language.
\<close>

section \<open>Data\<close>

datatype AtomQuantifier = One | ZeroOrOne | ZeroOrMore | OneOrMore

record CharacterSet =
  m_inverted :: bool
  m_characters0 :: u64
  m_characters1 :: u64

text \<open>
  \<open>Term\<close> is a tagged union (\<open>TermType\<close>) with a quantifier on every tag. \<open>Empty\<close> and
  \<open>Deleted\<close> are the hash table's special values; \<open>Empty\<close> is also "no term".
\<close>

datatype trm =
  EmptyTerm AtomQuantifier
| DeletedTerm AtomQuantifier
| CharacterSetTerm AtomQuantifier CharacterSet
| GroupTerm AtomQuantifier "trm list"

subsection \<open>Character sets\<close>

definition new_CharacterSet :: CharacterSet where
  "new_CharacterSet = \<lparr>m_inverted = False, m_characters0 = 0, m_characters1 = 0\<rparr>"

text \<open>\<open>set\<close> has a \<open>RELEASE_ASSERT(character < 128)\<close>: \<open>None\<close> is the crash.\<close>

definition CharacterSet_set :: "nat \<Rightarrow> CharacterSet \<Rightarrow> CharacterSet option" where
  "CharacterSet_set character cs =
     (if character < 128 then
        Some (if character div 64 = 0
              then cs\<lparr>m_characters0 := m_characters0 cs OR push_bit (character mod 64) 1\<rparr>
              else cs\<lparr>m_characters1 := m_characters1 cs OR push_bit (character mod 64) 1\<rparr>)
      else None)"

text \<open>\<open>get\<close> has the same assertion; its callers stay below 128.\<close>

definition CharacterSet_get :: "CharacterSet \<Rightarrow> nat \<Rightarrow> bool" where
  "CharacterSet_get cs character =
     bit (if character div 64 = 0 then m_characters0 cs else m_characters1 cs) (character mod 64)"

definition CharacterSet_invert :: "CharacterSet \<Rightarrow> CharacterSet" where
  "CharacterSet_invert cs = cs\<lparr>m_inverted := True\<rparr>"

definition CharacterSet_bitCount :: "CharacterSet \<Rightarrow> nat" where
  "CharacterSet_bitCount cs = bitCount64 (m_characters0 cs) + bitCount64 (m_characters1 cs)"

subsection \<open>Constructors and accessors\<close>

definition empty_term :: trm where
  "empty_term = EmptyTerm One"

definition isValid :: "trm \<Rightarrow> bool" where
  "isValid t = (case t of EmptyTerm _ \<Rightarrow> False | DeletedTerm _ \<Rightarrow> False | _ \<Rightarrow> True)"

fun m_quantifier :: "trm \<Rightarrow> AtomQuantifier" where
  "m_quantifier (EmptyTerm q) = q"
| "m_quantifier (DeletedTerm q) = q"
| "m_quantifier (CharacterSetTerm q _) = q"
| "m_quantifier (GroupTerm q _) = q"

fun addCharacter :: "nat \<Rightarrow> bool \<Rightarrow> trm \<Rightarrow> trm option" where
  "addCharacter character isCaseSensitive (CharacterSetTerm q cs) =
     map_option (CharacterSetTerm q)
      (if isCaseSensitive \<or> \<not> isASCIIAlpha character then CharacterSet_set character cs
       else Option.bind (CharacterSet_set (toASCIIUpper character) cs)
              (CharacterSet_set (toASCIILower character)))"
| "addCharacter character isCaseSensitive t = Some t"

definition character_term :: "nat \<Rightarrow> bool \<Rightarrow> trm option" where
  "character_term character isCaseSensitive =
     addCharacter character isCaseSensitive (CharacterSetTerm One new_CharacterSet)"

definition universal_transition_term :: trm where
  "universal_transition_term =
     CharacterSetTerm One
       (fold (\<lambda>i cs. case CharacterSet_set i cs of None \<Rightarrow> cs | Some cs' \<Rightarrow> cs') [0..<128] new_CharacterSet)"

definition character_set_term :: "bool \<Rightarrow> trm" where
  "character_set_term isInverted =
     CharacterSetTerm One (if isInverted then CharacterSet_invert new_CharacterSet else new_CharacterSet)"

definition group_term :: trm where
  "group_term = GroupTerm One []"

definition end_of_line_assertion_term :: trm where
  "end_of_line_assertion_term =
     CharacterSetTerm One (case CharacterSet_set 0 new_CharacterSet of None \<Rightarrow> new_CharacterSet | Some cs \<Rightarrow> cs)"

fun extendGroupSubpattern :: "trm \<Rightarrow> trm \<Rightarrow> trm" where
  "extendGroupSubpattern t (GroupTerm q ts) = GroupTerm q (ts @ [t])"
| "extendGroupSubpattern t g = g"

fun quantify :: "AtomQuantifier \<Rightarrow> trm \<Rightarrow> trm" where
  "quantify q (EmptyTerm _) = EmptyTerm q"
| "quantify q (DeletedTerm _) = DeletedTerm q"
| "quantify q (CharacterSetTerm _ cs) = CharacterSetTerm q cs"
| "quantify q (GroupTerm _ ts) = GroupTerm q ts"

subsection \<open>Queries\<close>

fun isEndOfLineAssertion :: "trm \<Rightarrow> bool" where
  "isEndOfLineAssertion (CharacterSetTerm q cs) = (CharacterSet_bitCount cs = 1 \<and> CharacterSet_get cs 0)"
| "isEndOfLineAssertion t = False"

fun matchesAtLeastOneCharacter :: "trm \<Rightarrow> bool" where
  "matchesAtLeastOneCharacter t =
     (if m_quantifier t = ZeroOrOne \<or> m_quantifier t = ZeroOrMore then False
      else if isEndOfLineAssertion t then False
      else (case t of
              GroupTerm _ ts \<Rightarrow> list_ex matchesAtLeastOneCharacter ts
            | _ \<Rightarrow> True))"

fun isUniversalTransition :: "trm \<Rightarrow> bool" where
  "isUniversalTransition (CharacterSetTerm q cs) =
     ((m_inverted cs \<and> CharacterSet_bitCount cs = 0) \<or>
      (\<not> m_inverted cs \<and> CharacterSet_bitCount cs = 128))"
| "isUniversalTransition (GroupTerm q [t]) = isUniversalTransition t"
| "isUniversalTransition _ = False"

fun isKnownToMatchAnyString :: "trm \<Rightarrow> bool" where
  "isKnownToMatchAnyString (CharacterSetTerm q cs) =
     (isUniversalTransition (CharacterSetTerm q cs) \<and> q = ZeroOrMore)"
| "isKnownToMatchAnyString (GroupTerm q [first]) =
     (if isKnownToMatchAnyString first then True
      else if isUniversalTransition first then
        q = ZeroOrMore \<or>
        (q = ZeroOrOne \<and> m_quantifier first = OneOrMore) \<or>
        (q = OneOrMore \<and> m_quantifier first = ZeroOrOne)
      else False)"
| "isKnownToMatchAnyString _ = False"

fun hasFixedLength :: "trm \<Rightarrow> bool" where
  "hasFixedLength (CharacterSetTerm q cs) = (q = One)"
| "hasFixedLength (GroupTerm q ts) = (if q \<noteq> One then False else list_all hasFixedLength ts)"
| "hasFixedLength _ = False"

subsection \<open>Graph generation\<close>

text \<open>
  \<open>generateGraph\<close> wraps the quantifier around \<open>generateSubgraphForAtom\<close>; the wrapper is
  \<open>quantified_subgraph\<close>, whose argument builds the graph of the atom.
\<close>

definition quantified_subgraph ::
  "AtomQuantifier \<Rightarrow> (nfa \<Rightarrow> nat \<Rightarrow> nfa \<times> nat) \<Rightarrow> nfa \<Rightarrow> nat \<Rightarrow> nfa \<times> nat" where
  "quantified_subgraph q atom nfa start =
     (case q of
        One \<Rightarrow> atom nfa start
      | ZeroOrOne \<Rightarrow>
          (let (nfa, newEnd) = atom nfa start
           in (addEpsilonTransition start newEnd nfa, newEnd))
      | ZeroOrMore \<Rightarrow>
          (let (nfa, repeatStart) = createNode nfa;
               nfa = addEpsilonTransition start repeatStart nfa;
               (nfa, repeatEnd) = atom nfa repeatStart;
               nfa = addEpsilonTransition repeatEnd repeatStart nfa;
               (nfa, kleenEnd) = createNode nfa;
               nfa = addEpsilonTransition repeatEnd kleenEnd nfa;
               nfa = addEpsilonTransition start kleenEnd nfa
           in (nfa, kleenEnd))
      | OneOrMore \<Rightarrow>
          (let (nfa, repeatStart) = createNode nfa;
               nfa = addEpsilonTransition start repeatStart nfa;
               (nfa, repeatEnd) = atom nfa repeatStart;
               nfa = addEpsilonTransition repeatEnd repeatStart nfa;
               (nfa, afterRepeat) = createNode nfa;
               nfa = addEpsilonTransition repeatEnd afterRepeat nfa
           in (nfa, afterRepeat)))"

definition character_set_graph :: "CharacterSet \<Rightarrow> bool \<Rightarrow> nfa \<Rightarrow> nat \<Rightarrow> nfa \<times> nat" where
  "character_set_graph cs universal nfa source =
     (let (nfa, target) = createNode nfa
      in (if universal then addTransitionsOnAnyCharacter source target nfa
          else if \<not> m_inverted cs then
            fold (\<lambda>i nfa. if CharacterSet_get cs i then addTransition source target i nfa else nfa) [0..<128] nfa
          else
            fold (\<lambda>i nfa. if \<not> CharacterSet_get cs i then addTransition source target i nfa else nfa) [1..<128] nfa,
          target))"

lemma size_in_group: "x \<in> set ts \<Longrightarrow> 2 * size x < 2 * size_list size ts"
  by (induction ts) auto

text \<open>The group's loop calls \<open>generateGraph\<close> with no actions.\<close>

function generateSubgraphForAtom :: "trm \<Rightarrow> nfa \<Rightarrow> nat \<Rightarrow> nfa \<times> nat"
  and generateGraph :: "trm \<Rightarrow> nfa \<Rightarrow> nat \<Rightarrow> action_list \<Rightarrow> nfa \<times> nat" where
  "generateSubgraphForAtom t nfa source =
     (case t of
        EmptyTerm _ \<Rightarrow> (nfa, u32_max)
      | DeletedTerm _ \<Rightarrow> (nfa, u32_max)
      | CharacterSetTerm q cs \<Rightarrow> character_set_graph cs (isUniversalTransition t) nfa source
      | GroupTerm q ts \<Rightarrow>
          fold (\<lambda>term (nfa, lastTarget). generateGraph term nfa lastTarget []) ts (nfa, source))"
| "generateGraph t nfa start finalActions =
     (let (nfa, newEnd) = quantified_subgraph (m_quantifier t) (\<lambda>n s. generateSubgraphForAtom t n s) nfa start
      in (setActions newEnd finalActions nfa, newEnd))"
  by pat_completeness auto
termination
  by (relation "measure (\<lambda>x. case x of Inl (t, _) \<Rightarrow> 2 * size t | Inr (t, _) \<Rightarrow> 2 * size t + 1)")
    (auto dest: size_in_group)

declare matchesAtLeastOneCharacter.simps [simp del] generateSubgraphForAtom.simps [simp del] generateGraph.simps [simp del]

end
