(* ===== verification/CE_Term_Lang.thy ===== *)
theory CE_Term_Lang
  imports CE_Term
begin

text \<open>
  The language of a term, and the proof that \<open>generateGraph\<close> builds an automaton for it.

  A word is a list of characters; NUL (0) stands for the end of the URL. \<open>appends A s A' e L acts\<close>
  is the contract of every piece of graph generation: starting at node \<open>s\<close> of \<open>A\<close>, the new graph
  \<open>A'\<close> reaches its end node \<open>e\<close> from an old node exactly by a word that leads to \<open>s\<close> followed by
  a word of \<open>L\<close>; old nodes keep their actions and their paths, and only \<open>e\<close> gets new actions.
\<close>

section \<open>Character sets\<close>

lemma CharacterSet_get_new [simp]: "\<not> CharacterSet_get new_CharacterSet d"
  by (simp add: CharacterSet_get_def new_CharacterSet_def)

lemma CharacterSet_get_set:
  "CharacterSet_set c cs = Some cs' \<Longrightarrow> d < 128 \<Longrightarrow> CharacterSet_get cs' d \<longleftrightarrow> d = c \<or> CharacterSet_get cs d"
proof -
  assume s: "CharacterSet_set c cs = Some cs'" and d: "d < 128"
  have c: "c < 128" using s by (simp add: CharacterSet_set_def split: if_splits)
  have b: "bit (push_bit (c mod 64) 1 :: u64) (d mod 64) \<longleftrightarrow> d mod 64 = c mod 64"
    by (auto simp: bit_push_bit_iff bit_1_iff push_bit_of_1 bit_exp_iff simp del: push_bit_of_1)
  have "d div 64 = c div 64 \<and> d mod 64 = c mod 64 \<longleftrightarrow> d = c" by (metis mod_mult_div_eq)
  moreover have "d div 64 = 0 \<or> d div 64 = 1" "c div 64 = 0 \<or> c div 64 = 1" using d c by auto
  ultimately show ?thesis
    using s c b by (auto simp: CharacterSet_set_def CharacterSet_get_def bit_or_iff split: if_splits)
qed

lemma CharacterSet_set_inverted: "CharacterSet_set c cs = Some cs' \<Longrightarrow> m_inverted cs' = m_inverted cs"
  by (auto simp: CharacterSet_set_def split: if_splits)

lemma CharacterSet_set_None: "CharacterSet_set c cs = None \<longleftrightarrow> 128 \<le> c"
  by (simp add: CharacterSet_set_def)

lemma CharacterSet_get_halves:
  assumes "i < 64"
  shows "CharacterSet_get cs i = bit (m_characters0 cs) i" "CharacterSet_get cs (i + 64) = bit (m_characters1 cs) i"
proof -
  have "i div 64 = 0" "i mod 64 = i" "(i + 64) div 64 = 1" "(i + 64) mod 64 = i" using assms by auto
  then show "CharacterSet_get cs i = bit (m_characters0 cs) i" "CharacterSet_get cs (i + 64) = bit (m_characters1 cs) i"
    by (simp_all only: CharacterSet_get_def) simp_all
qed

lemma bitCount_empty: "CharacterSet_bitCount cs = 0 \<longleftrightarrow> (\<forall>c < 128. \<not> CharacterSet_get cs c)"
proof -
  have "(\<forall>c < 128. \<not> CharacterSet_get cs c) \<longleftrightarrow>
        (\<forall>i < 64. \<not> bit (m_characters0 cs) i) \<and> (\<forall>i < 64. \<not> bit (m_characters1 cs) i)"
    (is "?L \<longleftrightarrow> ?R")
  proof
    assume L: ?L
    have "\<not> bit (m_characters0 cs) i \<and> \<not> bit (m_characters1 cs) i" if "i < 64" for i
      using L [rule_format, of i] L [rule_format, of "i + 64"] that CharacterSet_get_halves [OF that, of cs] by auto
    then show ?R by blast
  next
    assume ?R
    then show ?L by (auto simp: CharacterSet_get_def)
  qed
  also have "\<dots> \<longleftrightarrow> CharacterSet_bitCount cs = 0"
    using bit_imp_le_length [of "m_characters0 cs"] bit_imp_le_length [of "m_characters1 cs"]
    by (auto simp: CharacterSet_bitCount_def bitCount64_popcount popcount_0_iff)
  finally show ?thesis by simp
qed

lemma bitCount_full: "CharacterSet_bitCount cs = 128 \<longleftrightarrow> (\<forall>c < 128. CharacterSet_get cs c)"
proof -
  have "(\<forall>c < 128. CharacterSet_get cs c) \<longleftrightarrow>
        (\<forall>i < 64. bit (m_characters0 cs) i) \<and> (\<forall>i < 64. bit (m_characters1 cs) i)"
    (is "?L \<longleftrightarrow> ?R")
  proof
    assume L: ?L
    have "bit (m_characters0 cs) i \<and> bit (m_characters1 cs) i" if "i < 64" for i
      using L [rule_format, of i] L [rule_format, of "i + 64"] that CharacterSet_get_halves [OF that, of cs] by auto
    then show ?R by blast
  next
    assume ?R
    then show ?L by (auto simp: CharacterSet_get_def)
  qed
  also have "\<dots> \<longleftrightarrow> popcount (m_characters0 cs) = 64 \<and> popcount (m_characters1 cs) = 64"
    using popcount_full_iff [of "m_characters0 cs"] popcount_full_iff [of "m_characters1 cs"] by simp
  also have "\<dots> \<longleftrightarrow> CharacterSet_bitCount cs = 128"
    using popcount_le [of "m_characters0 cs"] popcount_le [of "m_characters1 cs"]
    by (auto simp: CharacterSet_bitCount_def bitCount64_popcount)
  finally show ?thesis by simp
qed

lemma bitCount_single:
  assumes "CharacterSet_bitCount cs = 1" "CharacterSet_get cs 0" "c < 128"
  shows "CharacterSet_get cs c \<longleftrightarrow> c = 0"
proof
  assume c: "CharacterSet_get cs c"
  let ?a = "m_characters0 cs" and ?b = "m_characters1 cs"
  have "bit ?a 0" using assms(2) by (simp add: CharacterSet_get_def)
  then have "popcount ?a \<noteq> 0" by (auto simp: popcount_0_iff)
  with assms(1) have "popcount ?a = 1" "popcount ?b = 0"
    by (auto simp: CharacterSet_bitCount_def bitCount64_popcount)
  then show "c = 0"
    using c popcount_1_only [of ?a 0 c] \<open>bit ?a 0\<close> popcount_0_iff [of ?b]
    by (auto simp: CharacterSet_get_def split: if_splits)
qed (use assms in simp)

lemma isUniversal_iff:
  "isUniversalTransition (CharacterSetTerm q cs) \<longleftrightarrow> (\<forall>c < 128. CharacterSet_get cs c \<noteq> m_inverted cs)"
  by (auto simp: bitCount_empty bitCount_full)

section \<open>Languages\<close>

definition conc :: "nat list set \<Rightarrow> nat list set \<Rightarrow> nat list set" where
  "conc A B = {u @ v | u v. u \<in> A \<and> v \<in> B}"

definition charset_lang :: "CharacterSet \<Rightarrow> nat list set" where
  "charset_lang cs =
     (if isUniversalTransition (CharacterSetTerm One cs) then {[c] | c. c \<noteq> 0}
      else if \<not> m_inverted cs then {[c] | c. c < 128 \<and> CharacterSet_get cs c}
      else {[c] | c. 1 \<le> c \<and> c < 128 \<and> \<not> CharacterSet_get cs c})"

fun quant_lang :: "AtomQuantifier \<Rightarrow> nat list set \<Rightarrow> nat list set" where
  "quant_lang One L = L"
| "quant_lang ZeroOrOne L = insert [] L"
| "quant_lang ZeroOrMore L = star L"
| "quant_lang OneOrMore L = conc L (star L)"

fun term_lang :: "trm \<Rightarrow> nat list set" where
  "term_lang (EmptyTerm q) = {}"
| "term_lang (DeletedTerm q) = {}"
| "term_lang (CharacterSetTerm q cs) = quant_lang q (charset_lang cs)"
| "term_lang (GroupTerm q ts) = quant_lang q (foldr (\<lambda>t. conc (term_lang t)) ts {[]})"

definition terms_lang :: "trm list \<Rightarrow> nat list set" where
  "terms_lang ts = foldr (\<lambda>t. conc (term_lang t)) ts {[]}"

text \<open>A term the automaton is defined for: valid, and no group in it is empty.\<close>

fun proper_term :: "trm \<Rightarrow> bool" where
  "proper_term (EmptyTerm q) = False"
| "proper_term (DeletedTerm q) = False"
| "proper_term (CharacterSetTerm q cs) = True"
| "proper_term (GroupTerm q ts) = (ts \<noteq> [] \<and> list_all proper_term ts)"

lemma in_conc: "w \<in> conc A B \<longleftrightarrow> (\<exists>u v. w = u @ v \<and> u \<in> A \<and> v \<in> B)"
  by (auto simp: conc_def)

lemma conc_empty [simp]: "conc {} B = {}" "conc A {} = {}"
  by (simp_all add: conc_def)

lemma conc_Nil [simp]: "conc {[]} B = B" "conc A {[]} = A"
  by (simp_all add: conc_def)

lemma conc_assoc: "conc (conc A B) C = conc A (conc B C)"
proof (rule set_eqI)
  fix w
  show "w \<in> conc (conc A B) C \<longleftrightarrow> w \<in> conc A (conc B C)"
    unfolding in_conc by (metis append_assoc)
qed

lemma terms_lang_simps [simp]:
  "terms_lang [] = {[]}" "terms_lang (t # ts) = conc (term_lang t) (terms_lang ts)"
  by (simp_all add: terms_lang_def)

lemma terms_lang_append: "terms_lang (ts @ us) = conc (terms_lang ts) (terms_lang us)"
  by (induction ts) (simp_all add: conc_assoc)

lemma term_lang_group [simp]: "term_lang (GroupTerm q ts) = quant_lang q (terms_lang ts)"
  by (simp add: terms_lang_def)

declare term_lang.simps(4) [simp del]

lemma conc_mono: "w \<in> conc A B \<Longrightarrow> A \<subseteq> A' \<Longrightarrow> B \<subseteq> B' \<Longrightarrow> w \<in> conc A' B'"
  by (auto simp: conc_def)

lemma star_unfold: "star L = insert [] (conc L (star L))"
proof (rule set_eqI)
  fix w
  show "w \<in> star L \<longleftrightarrow> w \<in> insert [] (conc L (star L))"
    by (auto simp: in_conc elim: star.cases intro: star.intros)
qed

lemma star_rev_cases: "w \<in> star L \<Longrightarrow> w = [] \<or> w \<in> conc (star L) L"
proof (induction rule: star.induct)
  case (star_step u v)
  from star_step.IH show ?case
  proof
    assume "v = []"
    then have "u @ v = [] @ u" by simp
    then show ?case using star_step.hyps(1) star_Nil unfolding in_conc by blast
  next
    assume "v \<in> conc (star L) L"
    then obtain x y where "v = x @ y" "x \<in> star L" "y \<in> L" by (auto simp: in_conc)
    then have "u @ v = (u @ x) @ y \<and> u @ x \<in> star L \<and> y \<in> L"
      using star_step.hyps(1) by (simp add: star.star_step)
    then show ?case by (auto simp: in_conc)
  qed
qed simp

lemma star_snoc: "x \<in> star L \<Longrightarrow> y \<in> L \<Longrightarrow> x @ y \<in> star L"
  by (rule star_append [OF _ star_single])

lemma conc_star_rev: "w \<in> conc L (star L) \<longleftrightarrow> w \<in> L \<or> (\<exists>b x v. w = b @ x @ v \<and> b \<in> L \<and> x \<in> star L \<and> v \<in> L)"
proof
  assume "w \<in> conc L (star L)"
  then obtain b s where w: "w = b @ s" "b \<in> L" "s \<in> star L" by (auto simp: in_conc)
  from star_rev_cases [OF w(3)] show "w \<in> L \<or> (\<exists>b x v. w = b @ x @ v \<and> b \<in> L \<and> x \<in> star L \<and> v \<in> L)"
    using w by (auto simp: in_conc)
next
  assume "w \<in> L \<or> (\<exists>b x v. w = b @ x @ v \<and> b \<in> L \<and> x \<in> star L \<and> v \<in> L)"
  then show "w \<in> conc L (star L)"
  proof
    assume "w \<in> L"
    then have "w = w @ [] \<and> w \<in> L \<and> [] \<in> star L" by (simp add: star_Nil)
    then show ?thesis unfolding in_conc by blast
  next
    assume "\<exists>b x v. w = b @ x @ v \<and> b \<in> L \<and> x \<in> star L \<and> v \<in> L"
    then show ?thesis unfolding in_conc using star_snoc by blast
  qed
qed

end
