(* ===== verification/CE_Term_Graph.thy ===== *)
theory CE_Term_Graph
  imports CE_Term_Lang
begin

text \<open>
  Graph generation is correct: \<open>generateGraph\<close> (\<open>contentextensions/Term.h\<close>) appends to the
  automaton a segment whose language is the language of the term.

  A segment is a set of new edges that leaves the old graph at one node, never returns to it, and
  ends in a node without successors. \<open>appends A s A' e L acts\<close> is the contract all pieces of
  the generation share: sequencing, the quantifier wrappers and the character sets.
\<close>

section \<open>Edges of the operations\<close>

lemma length_update_node [simp, frame]: "length (m_nodes (update_node i f A)) = length (m_nodes A)"
  by (simp add: update_node_def)

lemma root_update_node [simp, frame]: "m_root (update_node i f A) = m_root A"
  by (simp add: update_node_def)

lemma nth_update_node:
  "q < length (m_nodes A) \<Longrightarrow> m_nodes (update_node i f A) ! q = (if q = i then f (m_nodes A ! q) else m_nodes A ! q)"
  by (auto simp: update_node_def nth_list_update)

lemma node_targets_add_target:
  "node_targets (add_target k t node) j =
     (if j = k then hs_add t (node_targets node j) else node_targets node j)"
  by (auto simp: node_targets_def add_target_def split: option.splits)

lemma any_add_target [simp]: "transitionsOnAnyCharacter (add_target k t node) = transitionsOnAnyCharacter node"
  by (simp add: add_target_def)

lemma node_edges_add_target:
  "node_edges (add_target k t node) l =
     (if (if k = epsilonTransitionCharacter then None else Some k) = l
      then insert t (node_edges node l) else node_edges node l)"
  by (auto simp: node_edges_def node_targets_add_target split: option.splits)

lemma node_edges_add_any:
  "node_edges (node\<lparr>transitionsOnAnyCharacter := hs_add t (transitionsOnAnyCharacter node)\<rparr>) l =
     (case l of Some c \<Rightarrow> if c \<noteq> 0 then insert t (node_edges node l) else node_edges node l
      | None \<Rightarrow> node_edges node l)"
  by (auto simp: node_edges_def node_targets_def split: option.splits)

lemma edges_addEpsilonTransition [simp]:
  "p < length (m_nodes A) \<Longrightarrow> edges (addEpsilonTransition p q A) = insert (p, None, q) (edges A)"
  by (auto simp: edges_def addEpsilonTransition_def nth_update_node node_edges_add_target split: if_splits)

lemma edges_addTransition:
  "p < length (m_nodes A) \<Longrightarrow> q \<notin> set (transitionsOnAnyCharacter (m_nodes A ! p)) \<Longrightarrow> c \<noteq> 256 \<Longrightarrow>
     edges (addTransition p q c A) = insert (p, Some c, q) (edges A)"
  by (auto simp: edges_def addTransition_def nth_update_node node_edges_add_target
      epsilonTransitionCharacter_def split: if_splits)

lemma edges_addTransitionsOnAnyCharacter:
  "p < length (m_nodes A) \<Longrightarrow>
     edges (addTransitionsOnAnyCharacter p q A) = edges A \<union> {(p, Some c, q) | c. c \<noteq> 0}"
  by (auto simp: edges_def addTransitionsOnAnyCharacter_def nth_update_node node_edges_add_any
      split: option.splits if_splits)

lemma node_edges_empty_node [simp]: "node_edges empty_node l = {}"
  by (auto simp: node_edges_def node_targets_def empty_node_def split: option.splits)

lemma createNode_simps [simp]:
  "m_nodes (fst (createNode A)) = m_nodes A @ [empty_node]" "m_root (fst (createNode A)) = m_root A"
  "snd (createNode A) = length (m_nodes A)"
  by (simp_all add: createNode_def Let_def)

lemma edges_createNode [simp]: "edges (fst (createNode A)) = edges A"
  by (auto simp: edges_def nth_append less_Suc_eq split: if_splits)

lemma edges_setActions [simp]: "edges (setActions q acts A) = edges A"
proof -
  have "node_edges (n\<lparr>finalRuleIds := x\<rparr>) l = node_edges n l" for n x l
    by (auto simp: node_edges_def node_targets_def split: option.splits)
  then show ?thesis by (auto simp: edges_def setActions_def nth_update_node split: if_splits)
qed

lemma length_ops [simp, frame]:
  "length (m_nodes (addEpsilonTransition p q A)) = length (m_nodes A)"
  "length (m_nodes (addTransition p q c A)) = length (m_nodes A)"
  "length (m_nodes (addTransitionsOnAnyCharacter p q A)) = length (m_nodes A)"
  "length (m_nodes (setActions q acts A)) = length (m_nodes A)"
  by (simp_all add: addEpsilonTransition_def addTransition_def addTransitionsOnAnyCharacter_def setActions_def)

lemma root_ops [simp, frame]:
  "m_root (addEpsilonTransition p q A) = m_root A"
  "m_root (addTransition p q c A) = m_root A"
  "m_root (addTransitionsOnAnyCharacter p q A) = m_root A"
  "m_root (setActions q acts A) = m_root A"
  by (simp_all add: addEpsilonTransition_def addTransition_def addTransitionsOnAnyCharacter_def setActions_def)

lemma rules_at_ops [simp, frame]:
  "r < length (m_nodes A) \<Longrightarrow> rules_at (addEpsilonTransition p q A) r = rules_at A r"
  "r < length (m_nodes A) \<Longrightarrow> rules_at (addTransition p q c A) r = rules_at A r"
  "r < length (m_nodes A) \<Longrightarrow> rules_at (addTransitionsOnAnyCharacter p q A) r = rules_at A r"
  by (simp_all add: addEpsilonTransition_def addTransition_def addTransitionsOnAnyCharacter_def
      rules_at_def nth_update_node add_target_def)

lemma rules_at_setActions [simp]:
  "r < length (m_nodes A) \<Longrightarrow> rules_at (setActions q acts A) r = (if r = q then set acts else rules_at A r)"
  by (simp add: setActions_def rules_at_def nth_update_node)

lemma rules_at_createNode [simp]:
  "r \<le> length (m_nodes A) \<Longrightarrow>
     rules_at (fst (createNode A)) r = (if r = length (m_nodes A) then {} else rules_at A r)"
  by (simp add: rules_at_def nth_append empty_node_def)

section \<open>Segments\<close>

definition segment :: "nat \<Rightarrow> nat \<Rightarrow> nat \<Rightarrow> nat \<Rightarrow> edge set \<Rightarrow> bool" where
  "segment n m s e D \<longleftrightarrow> s < n \<and> n \<le> e \<and> e < m \<and>
     (\<forall>a l b. (a, l, b) \<in> D \<longrightarrow> (a = s \<or> n \<le> a \<and> a < m \<and> a \<noteq> e) \<and> n \<le> b \<and> b < m)"

lemma segmentD:
  assumes "segment n m s e D" "(a, l, b) \<in> D"
  shows "a = s \<or> n \<le> a \<and> a < m \<and> a \<noteq> e" "n \<le> b" "b < m"
  using assms unfolding segment_def by blast+

text \<open>A path into a segment is a path of the old graph to its start, then a path of the segment.\<close>

lemma path_into_segment:
  assumes seg: "\<And>a l b. (a, l, b) \<in> D \<Longrightarrow> (a = s \<or> n \<le> a) \<and> n \<le> b"
    and old: "\<And>a l b. (a, l, b) \<in> E \<Longrightarrow> a < n \<and> b < n"
    and "s < n" "n \<le> q"
  shows "p < n \<Longrightarrow> path (E \<union> D) p w q \<longleftrightarrow> (\<exists>u v. w = u @ v \<and> path E p u s \<and> path D s v q)"
proof
  have "path (E \<union> D) p w q' \<Longrightarrow> n \<le> p \<Longrightarrow> path D p w q'" for p w q'
  proof (induction rule: path.induct)
    case (path_eps p r w q)
    then have "(p, None, r) \<in> D" using old by fastforce
    with path_eps seg show ?case by (blast intro: path.path_eps)
  next
    case (path_char p c r w q)
    then have "(p, Some c, r) \<in> D" using old by fastforce
    with path_char seg show ?case by (blast intro: path.path_char)
  qed (rule path.path_refl)
  note above = this
  assume "path (E \<union> D) p w q" "p < n"
  then show "\<exists>u v. w = u @ v \<and> path E p u s \<and> path D s v q"
    using \<open>n \<le> q\<close>
  proof (induction rule: path.induct)
    case (path_eps p r w q)
    show ?case
    proof (cases "(p, None, r) \<in> E")
      case True
      with path_eps old show ?thesis by (blast intro: path.path_eps)
    next
      case False
      then have D: "(p, None, r) \<in> D" using path_eps.hyps by blast
      then have "p = s" "n \<le> r" using seg path_eps.prems by fastforce+
      with D have "path D s w q" using above [OF path_eps.hyps(2)] path_eps.prems by (blast intro: path.path_eps)
      then show ?thesis using \<open>p = s\<close> path.path_refl [of E s] by fastforce
    qed
  next
    case (path_char p c r w q)
    show ?case
    proof (cases "(p, Some c, r) \<in> E")
      case True
      then obtain u v where "w = u @ v" "path E r u s" "path D s v q" using path_char old by blast
      with True have "c # w = (c # u) @ v \<and> path E p (c # u) s \<and> path D s v q" by (simp add: path.path_char)
      then show ?thesis by blast
    next
      case False
      then have D: "(p, Some c, r) \<in> D" using path_char.hyps by blast
      then have "p = s" "n \<le> r" using seg path_char.prems by fastforce+
      with D have "path D s (c # w) q" using above [OF path_char.hyps(2)] path_char.prems by (blast intro: path.path_char)
      then show ?thesis using \<open>p = s\<close> path.path_refl [of E s] by fastforce
    qed
  qed simp
next
  assume "\<exists>u v. w = u @ v \<and> path E p u s \<and> path D s v q"
  then show "path (E \<union> D) p w q"
    by (auto intro: path_append path_mono [where E = E] path_mono [where E = D])
qed

lemma path_insert_source:
  assumes "\<And>a l b. (a, l, b) \<in> D \<Longrightarrow> a \<noteq> s \<and> b \<noteq> s" "q \<noteq> s" "r \<noteq> s"
  shows "path (insert (s, None, r) D) s w q \<longleftrightarrow> path D r w q"
proof -
  have out: "path D s u q' \<longleftrightarrow> u = [] \<and> q' = s" for u q'
    using path_no_out [of D s u q'] assms by (auto intro: path.path_refl)
  have into: "\<not> path D r y s" for y using path_no_in [of D r y s] assms by blast
  show ?thesis
    unfolding path_insert_eps out using assms(2) into by (auto simp: star_empty)
qed

lemma path_insert_sink:
  assumes "\<And>a l b. (a, l, b) \<in> D \<Longrightarrow> a \<noteq> k \<and> b \<noteq> k" "p \<noteq> k" "e \<noteq> k"
  shows "path (insert (e, None, k) D) p w k \<longleftrightarrow> path D p w e"
proof -
  have into: "\<not> path D p u k" for u using path_no_in [of D p u k] assms by blast
  have out: "path D k u q' \<longleftrightarrow> u = [] \<and> q' = k" for u q'
    using path_no_out [of D k u q'] assms by (auto intro: path.path_refl)
  show ?thesis
    unfolding path_insert_eps out using assms(3) into by (auto simp: star_empty)
qed

lemma path_insert_bypass:
  assumes "\<And>a l b. (a, l, b) \<in> D \<Longrightarrow> b \<noteq> s \<and> a \<noteq> e" "s \<noteq> e"
  shows "path (insert (s, None, e) D) s w e \<longleftrightarrow> w = [] \<or> path D s w e"
proof -
  have into: "path D s u s \<longleftrightarrow> u = []" for u
    using path_no_in [of D s u s] assms by (auto intro: path.path_refl)
  have out: "path D e u q' \<longleftrightarrow> u = [] \<and> q' = e" for u q'
    using path_no_out [of D e u q'] assms by (auto intro: path.path_refl)
  show ?thesis
    unfolding path_insert_eps out into using assms(2) by (auto simp: star_empty)
qed

section \<open>The contract of graph generation\<close>

definition appends :: "nfa \<Rightarrow> nat \<Rightarrow> nfa \<times> nat \<Rightarrow> nat list set \<Rightarrow> u64 set \<Rightarrow> bool" where
  "appends A s res L acts \<longleftrightarrow>
     (case res of (A', e) \<Rightarrow>
        (\<exists>D. edges A' = edges A \<union> D \<and> segment (length (m_nodes A)) (length (m_nodes A')) s e D \<and>
             (\<forall>w. path D s w e \<longleftrightarrow> w \<in> L)) \<and>
        m_root A' = m_root A \<and>
        (\<forall>q < length (m_nodes A'). rules_at A' q =
           (if q < length (m_nodes A) then rules_at A q else if q = e then acts else {})))"

lemma appendsI:
  assumes "edges A' = edges A \<union> D" "segment (length (m_nodes A)) (length (m_nodes A')) s e D"
    "\<And>w. path D s w e \<longleftrightarrow> w \<in> L" "m_root A' = m_root A"
    "\<And>q. q < length (m_nodes A') \<Longrightarrow> rules_at A' q =
       (if q < length (m_nodes A) then rules_at A q else if q = e then acts else {})"
  shows "appends A s (A', e) L acts"
  using assms unfolding appends_def by auto

lemma appendsE:
  assumes "appends A s (A', e) L acts"
  obtains D where "edges A' = edges A \<union> D" "segment (length (m_nodes A)) (length (m_nodes A')) s e D"
    "\<And>w. path D s w e \<longleftrightarrow> w \<in> L" "m_root A' = m_root A"
    "\<And>q. q < length (m_nodes A') \<Longrightarrow> rules_at A' q =
       (if q < length (m_nodes A) then rules_at A q else if q = e then acts else {})"
  using assms unfolding appends_def by auto

lemma wf_nfa_edges: "wf_nfa A \<Longrightarrow> (a, l, b) \<in> edges A \<Longrightarrow> a < length (m_nodes A) \<and> b < length (m_nodes A)"
  unfolding wf_nfa_def by blast

lemma appends_wf:
  assumes "appends A s (A', e) L acts" "wf_nfa A"
  shows "wf_nfa A'" "length (m_nodes A) \<le> e" "e < length (m_nodes A')"
proof -
  from assms(1) obtain D where D: "edges A' = edges A \<union> D"
      "segment (length (m_nodes A)) (length (m_nodes A')) s e D" "m_root A' = m_root A" by (rule appendsE) blast
  then show e: "length (m_nodes A) \<le> e" "e < length (m_nodes A')" by (auto simp: segment_def)
  have s: "s < length (m_nodes A)" using D by (auto simp: segment_def)
  show "wf_nfa A'"
    unfolding wf_nfa_def
  proof (intro conjI ballI)
    show "m_root A' < length (m_nodes A')" using D e assms(2) by (simp add: wf_nfa_def)
    fix x assume "x \<in> edges A'"
    moreover obtain a l b where x: "x = (a, l, b)" by (cases x)
    ultimately consider "(a, l, b) \<in> edges A" | "(a, l, b) \<in> D" using D by auto
    then show "case x of (p, l, q) \<Rightarrow> p < length (m_nodes A') \<and> q < length (m_nodes A')"
    proof cases
      case 1
      with wf_nfa_edges [OF assms(2)] e x show ?thesis by fastforce
    next
      case 2
      with segmentD [OF D(2) 2] s e x show ?thesis by auto
    qed
  qed
qed

text \<open>What the contract says about whole paths of the new graph.\<close>

lemma appends_path_new:
  assumes "appends A s (A', e) L acts" "wf_nfa A" "p < length (m_nodes A)"
  shows "path (edges A') p w e \<longleftrightarrow> (\<exists>u v. w = u @ v \<and> path (edges A) p u s \<and> v \<in> L)"
proof -
  from assms(1) obtain D where D: "edges A' = edges A \<union> D"
      "segment (length (m_nodes A)) (length (m_nodes A')) s e D" "\<And>w. path D s w e \<longleftrightarrow> w \<in> L" by (rule appendsE) blast
  have "path (edges A \<union> D) p w e \<longleftrightarrow> (\<exists>u v. w = u @ v \<and> path (edges A) p u s \<and> path D s v e)"
    by (rule path_into_segment [where n = "length (m_nodes A)"])
      (use D(2) assms(2,3) in \<open>auto simp: segment_def dest: wf_nfa_edges\<close>)
  with D show ?thesis by simp
qed

lemma appends_path_old:
  assumes "appends A s (A', e) L acts" "wf_nfa A" "p < length (m_nodes A)" "q < length (m_nodes A)"
  shows "path (edges A') p w q \<longleftrightarrow> path (edges A) p w q"
proof
  from assms(1) obtain D where D: "edges A' = edges A \<union> D"
      "segment (length (m_nodes A)) (length (m_nodes A')) s e D" by (rule appendsE) blast
  show "path (edges A) p w q" if "path (edges A') p w q"
    by (rule path_old [OF that assms(4)])
      (use D assms(2) in \<open>auto simp: segment_def dest: wf_nfa_edges\<close>)
  show "path (edges A') p w q" if "path (edges A) p w q"
    using that by (rule path_mono) (use D in blast)
qed

section \<open>Sequencing\<close>

lemma appends_seq:
  assumes 1: "appends A s (B, e) L {}" and 2: "appends B e (C, f) M acts" and "wf_nfa A"
  shows "appends A s (C, f) (conc L M) acts"
proof -
  from 1 obtain D where D: "edges B = edges A \<union> D" "segment (length (m_nodes A)) (length (m_nodes B)) s e D"
    "\<And>w. path D s w e \<longleftrightarrow> w \<in> L" "m_root B = m_root A"
    "\<And>q. q < length (m_nodes B) \<Longrightarrow> rules_at B q = (if q < length (m_nodes A) then rules_at A q else {})"
    by (rule appendsE) force
  from 2 obtain F where F: "edges C = edges B \<union> F" "segment (length (m_nodes B)) (length (m_nodes C)) e f F"
    "\<And>w. path F e w f \<longleftrightarrow> w \<in> M" "m_root C = m_root B"
    "\<And>q. q < length (m_nodes C) \<Longrightarrow> rules_at C q =
       (if q < length (m_nodes B) then rules_at B q else if q = f then acts else {})"
    by (rule appendsE) blast
  have s': "s < length (m_nodes B)" and e': "length (m_nodes B) \<le> f" "e < length (m_nodes B)"
    using D(2) F(2) by (auto simp: segment_def)
  show ?thesis
  proof (rule appendsI)
    show "edges C = edges A \<union> (D \<union> F)" using D F by auto
    show "segment (length (m_nodes A)) (length (m_nodes C)) s f (D \<union> F)"
      using D(2) F(2) unfolding segment_def by fastforce
    have "path (D \<union> F) s w f \<longleftrightarrow> (\<exists>u v. w = u @ v \<and> path D s u e \<and> path F e v f)" for w
      by (rule path_into_segment [where n = "length (m_nodes B)"])
        (use s' e' segmentD [OF D(2)] segmentD [OF F(2)] in \<open>fastforce+\<close>)
    then show "path (D \<union> F) s w f \<longleftrightarrow> w \<in> conc L M" for w
      by (simp add: D F in_conc)
    show "m_root C = m_root A" using D F by simp
    show "rules_at C q = (if q < length (m_nodes A) then rules_at A q else if q = f then acts else {})"
      if "q < length (m_nodes C)" for q
      using that D(5) F(5) D(2) F(2) by (auto simp: segment_def)
  qed
qed

lemma appends_setActions:
  assumes "appends A s (B, e) L acts"
  shows "appends A s (setActions e acts' B, e) L (set acts')"
proof -
  from assms obtain D where D: "edges B = edges A \<union> D" "segment (length (m_nodes A)) (length (m_nodes B)) s e D"
    "\<And>w. path D s w e \<longleftrightarrow> w \<in> L" "m_root B = m_root A"
    "\<And>q. q < length (m_nodes B) \<Longrightarrow>
       rules_at B q = (if q < length (m_nodes A) then rules_at A q else if q = e then acts else {})"
    by (rule appendsE) blast
  show ?thesis
    by (rule appendsI [where D = D]) (use D in \<open>auto simp: segment_def\<close>)
qed

section \<open>The quantifier wrappers\<close>

lemma appends_option:
  assumes "appends A s (B, e) L acts"
  shows "appends A s (addEpsilonTransition s e B, e) (insert [] L) acts"
proof -
  from assms obtain D where D: "edges B = edges A \<union> D" "segment (length (m_nodes A)) (length (m_nodes B)) s e D"
    "\<And>w. path D s w e \<longleftrightarrow> w \<in> L" "m_root B = m_root A"
    "\<And>q. q < length (m_nodes B) \<Longrightarrow>
       rules_at B q = (if q < length (m_nodes A) then rules_at A q else if q = e then acts else {})"
    by (rule appendsE) blast
  have s: "s < length (m_nodes B)" using D(2) by (simp add: segment_def)
  have s': "s < length (m_nodes A)" and e': "length (m_nodes A) \<le> e" using D(2) by (auto simp: segment_def)
  have DD: "b \<noteq> s \<and> a \<noteq> e" if "(a, l, b) \<in> D" for a l b
    using segmentD [OF D(2) that] s' e' by auto
  show ?thesis
  proof (rule appendsI [where D = "insert (s, None, e) D"])
    show "path (insert (s, None, e) D) s w e \<longleftrightarrow> w \<in> insert [] L" for w
      using path_insert_bypass [of D s e w, OF DD] s' e' D(3) by auto
  qed (use D s in \<open>auto simp: segment_def\<close>)
qed

text \<open>
  \<open>OneOrMore\<close>, and the part of \<open>ZeroOrMore\<close> before its last epsilon transition: the atom runs
  between fresh nodes \<open>r\<close> and \<open>e\<close>, with a way back from \<open>e\<close> to \<open>r\<close> and out from \<open>e\<close> to \<open>k\<close>.
\<close>

definition repeat_graph :: "(nfa \<Rightarrow> nat \<Rightarrow> nfa \<times> nat) \<Rightarrow> nfa \<Rightarrow> nat \<Rightarrow> nfa \<times> nat" where
  "repeat_graph atom A s =
     (let (A, r) = createNode A;
          A = addEpsilonTransition s r A;
          (A, e) = atom A r;
          A = addEpsilonTransition e r A;
          (A, k) = createNode A
      in (addEpsilonTransition e k A, k))"

lemma appends_repeat:
  assumes atom: "\<And>A s. wf_nfa A \<Longrightarrow> s < length (m_nodes A) \<Longrightarrow> appends A s (atom A s) L {}"
    and wf: "wf_nfa A" and s: "s < length (m_nodes A)"
  shows "appends A s (repeat_graph atom A s) (conc L (star L)) {}"
proof -
  let ?r = "length (m_nodes A)"
  let ?A1 = "addEpsilonTransition s ?r (fst (createNode A))"
  obtain B e where B: "atom ?A1 ?r = (B, e)" by fastforce
  have wf1: "wf_nfa ?A1" using wf s unfolding wf_nfa_def by fastforce
  from atom [OF wf1, of ?r] B obtain D where D: "edges B = edges ?A1 \<union> D"
    "segment (Suc ?r) (length (m_nodes B)) ?r e D" "\<And>w. path D ?r w e \<longleftrightarrow> w \<in> L" "m_root B = m_root A"
    "\<And>q. q < length (m_nodes B) \<Longrightarrow> rules_at B q = (if q < Suc ?r then rules_at ?A1 q else {})"
    by (auto elim!: appendsE)
  let ?k = "length (m_nodes B)"
  let ?C = "addEpsilonTransition e ?k (fst (createNode (addEpsilonTransition e ?r B)))"
  have e: "Suc ?r \<le> e" "e < ?k" using D(2) by (auto simp: segment_def)
  have DD: "?r \<le> a \<and> a < ?k \<and> a \<noteq> e \<and> Suc ?r \<le> b \<and> b < ?k" if "(a, l, b) \<in> D" for a l b
    using segmentD [OF D(2) that] e by auto
  have res: "repeat_graph atom A s = (?C, ?k)"
    using B by (simp add: repeat_graph_def createNode_def Let_def)
  let ?L = "insert (e, None, ?r) D"
  let ?F = "insert (e, None, ?k) (insert (s, None, ?r) ?L)"
  have loop: "path ?L ?r w e \<longleftrightarrow> w \<in> conc L (star L)" for w
    unfolding path_insert_eps D(3) conc_star_rev by auto
  have F: "path ?F s w ?k \<longleftrightarrow> w \<in> conc L (star L)" for w
  proof -
    have "path ?F s w ?k \<longleftrightarrow> path (insert (s, None, ?r) ?L) s w e"
      by (rule path_insert_sink) (use DD e s in \<open>fastforce+\<close>)
    also have "\<dots> \<longleftrightarrow> path ?L ?r w e"
      by (rule path_insert_source) (use DD e s in \<open>fastforce+\<close>)
    finally show ?thesis using loop by simp
  qed
  have "appends A s (?C, ?k) (conc L (star L)) {}"
  proof (rule appendsI [OF _ _ F])
    show "edges ?C = edges A \<union> ?F" using D(1) e s by auto
    have "(a = s \<or> ?r \<le> a \<and> a < Suc ?k \<and> a \<noteq> ?k) \<and> ?r \<le> b \<and> b < Suc ?k" if "(a, l, b) \<in> ?F" for a l b
      using that DD [of a l b] e s by auto
    then show "segment ?r (length (m_nodes ?C)) s ?k ?F" using e s by (simp add: segment_def)
    show "m_root ?C = m_root A" using D(4) by simp
    show "rules_at ?C q = (if q < ?r then rules_at A q else if q = ?k then {} else {})"
      if "q < length (m_nodes ?C)" for q
      using that D(5) [of q] e s by (auto simp: less_Suc_eq split: if_splits)
  qed
  then show ?thesis by (simp add: res)
qed

lemma quantified_subgraph_repeat:
  "quantified_subgraph OneOrMore atom A s = repeat_graph atom A s"
  "quantified_subgraph ZeroOrMore atom A s =
     (let (A', k) = repeat_graph atom A s in (addEpsilonTransition s k A', k))"
  by (simp_all add: quantified_subgraph_def repeat_graph_def Let_def split: prod.splits)

lemma appends_quantified:
  assumes atom: "\<And>A s. wf_nfa A \<Longrightarrow> s < length (m_nodes A) \<Longrightarrow> appends A s (atom A s) L {}"
    and wf: "wf_nfa A" and s: "s < length (m_nodes A)"
  shows "appends A s (quantified_subgraph q atom A s) (quant_lang q L) {}"
proof (cases q)
  case One
  then show ?thesis using assms by (simp add: quantified_subgraph_def)
next
  case ZeroOrOne
  obtain B e where "atom A s = (B, e)" by fastforce
  with atom [OF wf s] ZeroOrOne show ?thesis by (simp add: quantified_subgraph_def appends_option)
next
  case ZeroOrMore
  obtain B e where r: "repeat_graph atom A s = (B, e)" by fastforce
  have "appends A s (B, e) (conc L (star L)) {}" using appends_repeat [OF assms] r by simp
  with ZeroOrMore r show ?thesis
    using appends_option [of A s B e "conc L (star L)" "{}"] star_unfold [of L]
    by (simp add: quantified_subgraph_repeat)
next
  case OneOrMore
  then show ?thesis using appends_repeat [OF assms] by (simp add: quantified_subgraph_repeat)
qed

section \<open>Character sets\<close>

lemma fold_addTransition:
  assumes "p < length (m_nodes A)" "q \<notin> set (transitionsOnAnyCharacter (m_nodes A ! p))" "\<forall>i\<in>set xs. i < 256"
  shows "let B = fold (\<lambda>i A. if P i then addTransition p q i A else A) xs A
         in edges B = edges A \<union> {(p, Some i, q) | i. i \<in> set xs \<and> P i} \<and>
            length (m_nodes B) = length (m_nodes A) \<and> m_root B = m_root A \<and>
            (\<forall>r < length (m_nodes A). rules_at B r = rules_at A r)"
  using assms
proof (induction xs arbitrary: A)
  case Nil
  then show ?case by (simp add: Let_def)
next
  case (Cons i xs)
  let ?A = "if P i then addTransition p q i A else A"
  have "q \<notin> set (transitionsOnAnyCharacter (m_nodes ?A ! p))"
    using Cons.prems by (auto simp: addTransition_def nth_update_node)
  with Cons.IH [of ?A] Cons.prems show ?case
    using edges_addTransition [of p A q i] by (auto simp: Let_def)
qed

lemma path_star_edges:
  assumes "\<And>a l b. (a, l, b) \<in> D \<Longrightarrow> a = s \<and> b = e \<and> l \<noteq> None" "s \<noteq> e"
  shows "path D s w e \<longleftrightarrow> (\<exists>c. w = [c] \<and> (s, Some c, e) \<in> D)"
proof
  assume "path D s w e"
  then show "\<exists>c. w = [c] \<and> (s, Some c, e) \<in> D"
  proof (cases rule: path.cases)
    case (path_char c r v)
    with assms have "r = e" by blast
    with path_char(3) path_no_out [of D e v e] assms path_char show ?thesis by blast
  qed (use assms in blast)+
qed (auto intro: path_char_single)

lemma fresh_any:
  assumes "wf_nfa A" "p < length (m_nodes A)"
  shows "length (m_nodes A) \<notin> set (transitionsOnAnyCharacter (m_nodes A ! p))"
proof
  assume "length (m_nodes A) \<in> set (transitionsOnAnyCharacter (m_nodes A ! p))"
  then have "(p, Some 1, length (m_nodes A)) \<in> edges A" using assms(2) by (simp add: edges_def node_edges_def)
  with wf_nfa_edges [OF assms(1)] show False by blast
qed

lemma appends_character_set:
  assumes "wf_nfa A" "s < length (m_nodes A)"
  shows "appends A s (character_set_graph cs (isUniversalTransition (CharacterSetTerm q cs)) A s) (charset_lang cs) {}"
proof -
  let ?t = "length (m_nodes A)" and ?A = "fst (createNode A)"
  let ?u = "isUniversalTransition (CharacterSetTerm q cs)"
  let ?D = "{(s, Some c, ?t) | c. [c] \<in> charset_lang cs}"
  have fresh: "?t \<notin> set (transitionsOnAnyCharacter (m_nodes ?A ! s))" "s < length (m_nodes ?A)"
    using assms fresh_any by (auto simp: nth_append)
  define B where "B = fst (character_set_graph cs ?u A s)"
  have u: "isUniversalTransition (CharacterSetTerm One cs) = ?u" by simp
  have res: "character_set_graph cs ?u A s = (B, ?t)"
    by (simp add: B_def character_set_graph_def createNode_def Let_def)
  have "edges B = edges A \<union> ?D \<and> length (m_nodes B) = Suc ?t \<and> m_root B = m_root A \<and>
        (\<forall>r < Suc ?t. rules_at B r = rules_at ?A r)"
  proof (cases ?u)
    case True
    then have "B = addTransitionsOnAnyCharacter s ?t ?A"
      by (simp add: B_def character_set_graph_def createNode_def Let_def)
    with True fresh show ?thesis
      by (simp add: edges_addTransitionsOnAnyCharacter charset_lang_def u del: isUniversalTransition.simps)
  next
    case False
    then have "B = (if \<not> m_inverted cs
       then fold (\<lambda>i A. if CharacterSet_get cs i then addTransition s ?t i A else A) [0..<128] ?A
       else fold (\<lambda>i A. if \<not> CharacterSet_get cs i then addTransition s ?t i A else A) [1..<128] ?A)"
      by (simp add: B_def character_set_graph_def createNode_def Let_def del: upt_Suc isUniversalTransition.simps)
    with False fold_addTransition [OF fresh(2,1), of "[0..<128]" "CharacterSet_get cs"]
      fold_addTransition [OF fresh(2,1), of "[1..<128]" "\<lambda>i. \<not> CharacterSet_get cs i"]
    show ?thesis
      by (auto simp: charset_lang_def u Let_def Suc_le_eq simp del: isUniversalTransition.simps)
  qed
  then have B: "edges B = edges A \<union> ?D" "length (m_nodes B) = Suc ?t" "m_root B = m_root A"
    "\<And>r. r < Suc ?t \<Longrightarrow> rules_at B r = rules_at ?A r" by auto
  have L: "w \<in> charset_lang cs \<longleftrightarrow> (\<exists>c. w = [c] \<and> [c] \<in> charset_lang cs)" for w
    by (auto simp: charset_lang_def)
  show ?thesis
    unfolding res
  proof (rule appendsI [OF B(1)])
    show "segment ?t (length (m_nodes B)) s ?t ?D" using assms B(2) by (auto simp: segment_def)
    show "path ?D s w ?t \<longleftrightarrow> w \<in> charset_lang cs" for w
      by (subst path_star_edges) (use assms L [of w] in auto)
  qed (use B in \<open>auto simp: less_Suc_eq\<close>)
qed

section \<open>Terms\<close>

lemma appends_generate:
  "proper_term t \<Longrightarrow> wf_nfa A \<Longrightarrow> s < length (m_nodes A) \<Longrightarrow>
     appends A s (generateGraph t A s acts) (term_lang t) (set acts)"
proof (induction t arbitrary: A s acts)
  case (CharacterSetTerm q cs)
  have "appends A s (quantified_subgraph q (generateSubgraphForAtom (CharacterSetTerm q cs)) A s)
     (quant_lang q (charset_lang cs)) {}"
    by (rule appends_quantified [OF _ CharacterSetTerm.prems(2,3)])
      (simp add: generateSubgraphForAtom.simps appends_character_set del: isUniversalTransition.simps)
  then show ?case
    by (auto simp: generateGraph.simps appends_setActions split: prod.splits)
next
  case (GroupTerm q ts)
  have rest: "appends A s (B, e) L {} \<Longrightarrow> wf_nfa A \<Longrightarrow> list_all proper_term us \<Longrightarrow> set us \<subseteq> set ts \<Longrightarrow>
     appends A s (fold (\<lambda>u (B, e). generateGraph u B e []) us (B, e)) (conc L (terms_lang us)) {}"
    for A s B e us L
  proof (induction us arbitrary: B e L)
    case (Cons u us)
    obtain C f where C: "generateGraph u B e [] = (C, f)" by fastforce
    have "appends B e (C, f) (term_lang u) {}"
      using GroupTerm.IH [of u B e "[]"] Cons.prems appends_wf [OF Cons.prems(1,2)] C by auto
    then have "appends A s (C, f) (conc L (term_lang u)) {}"
      using appends_seq Cons.prems by blast
    from Cons.IH [OF this] Cons.prems C show ?case by (simp add: conc_assoc)
  qed simp
  have "appends A s (generateSubgraphForAtom (GroupTerm q ts) A s) (terms_lang ts) {}"
    if A: "wf_nfa A" "s < length (m_nodes A)" for A s
  proof -
    obtain u us where ts: "ts = u # us" using GroupTerm.prems(1) by (cases ts) auto
    obtain C f where C: "generateGraph u A s [] = (C, f)" by fastforce
    have "appends A s (C, f) (term_lang u) {}"
      using GroupTerm.IH [of u A s "[]"] GroupTerm.prems A C ts by auto
    from rest [OF this A(1), of us] C ts GroupTerm.prems show ?thesis
      by (simp add: generateSubgraphForAtom.simps subset_insertI)
  qed
  then have "appends A s (quantified_subgraph q (generateSubgraphForAtom (GroupTerm q ts)) A s)
     (quant_lang q (terms_lang ts)) {}"
    by (rule appends_quantified [OF _ GroupTerm.prems(2,3)])
  then show ?case
    by (auto simp: generateGraph.simps appends_setActions split: prod.splits)
qed simp_all

end
