(* ===== verification/CE_Term_Queries.thy ===== *)
theory CE_Term_Queries
  imports CE_Term_Graph
begin

text \<open>
  What the queries of \<open>contentextensions/Term.h\<close> promise about the language of a term:
  \<open>matchesAtLeastOneCharacter\<close>, \<open>hasFixedLength\<close>, \<open>isUniversalTransition\<close>,
  \<open>isKnownToMatchAnyString\<close> and \<open>isEndOfLineAssertion\<close>, and the constructors of terms.
\<close>

section \<open>Words without NUL\<close>

definition any_word :: "nat list set" where
  "any_word = {w. 0 \<notin> set w}"

lemma any_word_append: "u @ v \<in> any_word \<longleftrightarrow> u \<in> any_word \<and> v \<in> any_word"
  by (auto simp: any_word_def)

lemma star_in_any_word: "w \<in> star L \<Longrightarrow> L \<subseteq> any_word \<Longrightarrow> w \<in> any_word"
  by (induction rule: star.induct) (auto simp: any_word_append, auto simp: any_word_def)

lemma conc_in_any_word: "L \<subseteq> any_word \<Longrightarrow> M \<subseteq> any_word \<Longrightarrow> conc L M \<subseteq> any_word"
  by (fastforce simp: in_conc any_word_append)

lemma quant_in_any_word: "L \<subseteq> any_word \<Longrightarrow> quant_lang q L \<subseteq> any_word"
proof -
  assume L: "L \<subseteq> any_word"
  have "star L \<subseteq> any_word" using L star_in_any_word by blast
  moreover have "[] \<in> any_word" by (simp add: any_word_def)
  ultimately show ?thesis using L conc_in_any_word [of L "star L"] by (cases q) auto
qed

lemma any_word_in_star:
  assumes "\<And>c. c \<noteq> 0 \<Longrightarrow> [c] \<in> L"
  shows "w \<in> any_word \<Longrightarrow> w \<in> star L"
proof (induction w)
  case (Cons c w)
  then have "[c] \<in> L" "w \<in> star L" using assms by (auto simp: any_word_def)
  then show ?case using star.star_step by fastforce
qed (simp add: star.star_Nil)

lemma any_word_in_plus:
  assumes "\<And>c. c \<noteq> 0 \<Longrightarrow> [c] \<in> L" "w \<in> any_word" "w \<noteq> []"
  shows "w \<in> conc L (star L)"
proof -
  obtain c v where w: "w = [c] @ v" using assms(3) by (cases w) auto
  with assms any_word_in_star [of L v] have "[c] \<in> L" "v \<in> star L" by (auto simp: any_word_def)
  with w show ?thesis unfolding in_conc by blast
qed

lemma quant_mono: "w \<in> L \<Longrightarrow> w \<in> quant_lang q L"
proof (cases q)
  case OneOrMore
  assume "w \<in> L"
  then have "w = w @ [] \<and> w \<in> L \<and> [] \<in> star L" by (simp add: star.star_Nil)
  with OneOrMore show ?thesis by (auto simp: in_conc)
qed (auto intro: star_single)

section \<open>Universal transitions\<close>

lemma isUniversal_charset: "isUniversalTransition (CharacterSetTerm q cs) \<Longrightarrow> charset_lang cs = {[c] | c. c \<noteq> 0}"
  unfolding charset_lang_def by simp

lemma universal_single: "isUniversalTransition t \<Longrightarrow> c \<noteq> 0 \<Longrightarrow> [c] \<in> term_lang t"
proof (induction t rule: isUniversalTransition.induct)
  case (1 q cs)
  then have "[c] \<in> charset_lang cs" using isUniversal_charset [of q cs] by auto
  then show ?case by (simp add: quant_mono)
qed (auto intro: quant_mono)

lemma universal_any_word: "isUniversalTransition t \<Longrightarrow> term_lang t \<subseteq> any_word"
proof (induction t rule: isUniversalTransition.induct)
  case (1 q cs)
  then have "charset_lang cs \<subseteq> any_word" using isUniversal_charset [of q cs] by (auto simp: any_word_def)
  then show ?case by (simp add: quant_in_any_word)
qed (auto intro: quant_in_any_word [THEN subsetD])

lemma any_string_lang: "isKnownToMatchAnyString t \<Longrightarrow> term_lang t = any_word"
proof (induction t rule: isKnownToMatchAnyString.induct)
  case (1 q cs)
  then have u: "isUniversalTransition (CharacterSetTerm q cs)" and q: "q = ZeroOrMore" by auto
  have L: "charset_lang cs = {[c] | c. c \<noteq> 0}" using isUniversal_charset [OF u] .
  then have "charset_lang cs \<subseteq> any_word" by (auto simp: any_word_def)
  then have "star (charset_lang cs) = any_word"
    using any_word_in_star [of "charset_lang cs"] star_in_any_word L by blast
  with q show ?case by simp
next
  case (2 q t)
  show ?case
  proof (cases "isKnownToMatchAnyString t")
    case True
    with 2 have L: "term_lang t = any_word" by simp
    then have "quant_lang q any_word \<subseteq> any_word" by (simp add: quant_in_any_word)
    moreover have "any_word \<subseteq> quant_lang q any_word" by (auto intro: quant_mono)
    ultimately show ?thesis using L by simp
  next
    case False
    with 2 have u: "isUniversalTransition t"
      and q: "q = ZeroOrMore \<or> (q = ZeroOrOne \<and> m_quantifier t = OneOrMore) \<or>
              (q = OneOrMore \<and> m_quantifier t = ZeroOrOne)" by (auto split: if_splits)
    have sub: "term_lang (GroupTerm q [t]) \<subseteq> any_word"
      using universal_any_word [OF u] by (simp add: quant_in_any_word)
    have single: "[c] \<in> term_lang t" if "c \<noteq> 0" for c using universal_single [OF u that] .
    have plus: "w \<in> term_lang t" if "m_quantifier t = OneOrMore" "w \<in> any_word" "w \<noteq> []" for w
      using u that
    proof (cases t rule: isUniversalTransition.cases)
      case (1 q' cs)
      then show ?thesis using any_word_in_plus [of "charset_lang cs" w] that isUniversal_charset [of q' cs] u by auto
    next
      case (2 q' t')
      then show ?thesis using any_word_in_plus [of "term_lang t'" w] that universal_single [of t'] u by auto
    qed simp_all
    have nil: "[] \<in> term_lang t" if "m_quantifier t = ZeroOrOne"
      using u that by (cases t rule: isUniversalTransition.cases) simp_all
    have "any_word \<subseteq> term_lang (GroupTerm q [t])"
      using q
    proof (elim disjE conjE)
      assume "q = ZeroOrMore"
      then show ?thesis using any_word_in_star [OF single] by auto
    next
      assume "q = ZeroOrOne" "m_quantifier t = OneOrMore"
      then show ?thesis using plus by auto
    next
      assume "q = OneOrMore" and "m_quantifier t = ZeroOrOne"
      then show ?thesis
        using any_word_in_plus [OF single] nil star.star_Nil [of "term_lang t"] by (fastforce simp: in_conc)
    qed
    with sub show ?thesis by blast
  qed
qed simp_all

section \<open>Lengths\<close>

lemma matchesAtLeastOneCharacter_unfold:
  "matchesAtLeastOneCharacter (CharacterSetTerm q cs) \<Longrightarrow> q = One \<or> q = OneOrMore"
  "matchesAtLeastOneCharacter (GroupTerm q ts) \<Longrightarrow>
     (q = One \<or> q = OneOrMore) \<and> (\<exists>t \<in> set ts. matchesAtLeastOneCharacter t)"
  by (simp add: matchesAtLeastOneCharacter.simps, cases q; simp)
    (subst (asm) matchesAtLeastOneCharacter.simps, cases q, simp_all add: list_ex_iff)

lemma at_least_one_lang: "matchesAtLeastOneCharacter t \<Longrightarrow> [] \<notin> term_lang t"
proof (induction t)
  case (CharacterSetTerm q cs)
  have "[] \<notin> charset_lang cs" by (auto simp: charset_lang_def)
  with matchesAtLeastOneCharacter_unfold(1) [OF CharacterSetTerm] show ?case by (auto simp: in_conc)
next
  case (GroupTerm q ts)
  note q = matchesAtLeastOneCharacter_unfold(2) [OF GroupTerm.prems]
  then have "\<exists>t\<in>set ts. [] \<notin> term_lang t" using GroupTerm.IH by blast
  then have "[] \<notin> terms_lang ts" by (induction ts) (auto simp: in_conc)
  with q show ?case by (auto simp: in_conc)
qed simp_all

lemma fixed_length_lang: "hasFixedLength t \<Longrightarrow> \<exists>n. \<forall>w \<in> term_lang t. length w = n"
proof (induction t)
  case (CharacterSetTerm q cs)
  then have "\<forall>w \<in> term_lang (CharacterSetTerm q cs). length w = 1" by (auto simp: charset_lang_def)
  then show ?case by blast
next
  case (GroupTerm q ts)
  then have q: "q = One" and all: "\<forall>t \<in> set ts. hasFixedLength t" by (auto simp: list_all_iff split: if_splits)
  have "\<exists>n. \<forall>w \<in> terms_lang us. length w = n" if "set us \<subseteq> set ts" for us
    using that
  proof (induction us)
    case (Cons u us)
    then obtain n m where "\<forall>w \<in> terms_lang us. length w = n" "\<forall>w \<in> term_lang u. length w = m"
      using GroupTerm.IH all by fastforce
    then have "\<forall>w \<in> terms_lang (u # us). length w = m + n" by (auto simp: in_conc)
    then show ?case by blast
  qed simp
  then show ?case using q by simp
qed simp_all

lemma end_of_line_lang:
  assumes "isEndOfLineAssertion (CharacterSetTerm q cs)" "\<not> m_inverted cs"
  shows "charset_lang cs = {[0]}"
proof -
  have b: "CharacterSet_bitCount cs = 1" "CharacterSet_get cs 0" using assms by auto
  then have "c < 128 \<Longrightarrow> CharacterSet_get cs c \<longleftrightarrow> c = 0" for c using bitCount_single by blast
  moreover have "\<not> isUniversalTransition (CharacterSetTerm One cs)" using b assms by simp
  ultimately show ?thesis using assms(2) by (auto simp: charset_lang_def)
qed

section \<open>Terms of single characters\<close>

lemma CharacterSet_set_ex: "c < 128 \<Longrightarrow> \<exists>cs'. CharacterSet_set c cs = Some cs'"
  by (simp add: CharacterSet_set_def)

text \<open>\<open>addCharacter\<close> puts both cases of a letter into the set of a case-insensitive filter.\<close>

definition same_character :: "bool \<Rightarrow> nat \<Rightarrow> nat \<Rightarrow> bool" where
  "same_character cased c d \<longleftrightarrow> (if cased then d = c else toASCIILower d = toASCIILower c)"

lemma isASCIIAlpha_eq: "c < 128 \<Longrightarrow> isASCIIAlpha c \<longleftrightarrow> isASCIIUpper c \<or> (97 \<le> c \<and> c \<le> 122)"
proof -
  have "list_all (\<lambda>c. 97 \<le> (c OR 32) \<and> (c OR 32) \<le> 122 \<longleftrightarrow> 65 \<le> c \<and> c \<le> 90 \<or> 97 \<le> c \<and> c \<le> 122) [2..<128::nat]"
    by simp
  then have "\<forall>c. 2 \<le> c \<and> c < 128 \<longrightarrow> (isASCIIAlpha c \<longleftrightarrow> isASCIIUpper c \<or> (97 \<le> c \<and> c \<le> 122))"
    unfolding isASCIIAlpha_def isASCIIUpper_def list_all_iff set_upt by auto
  moreover have "\<not> isASCIIAlpha 0" "\<not> isASCIIAlpha 1" by (simp_all add: isASCIIAlpha_def)
  moreover have "c = 0 \<or> c = 1 \<or> 2 \<le> c" by auto
  ultimately show "c < 128 \<Longrightarrow> ?thesis" by (auto simp: isASCIIUpper_def)
qed

lemma toASCIIUpper_eq: "c < 128 \<Longrightarrow> toASCIIUpper c = (if 97 \<le> c \<and> c \<le> 122 then c - 32 else c)"
proof -
  have "list_all (\<lambda>c. c AND 65503 = c - 32) [97..<123::nat]" by simp
  then have lower: "\<forall>c::nat. 97 \<le> c \<and> c < 123 \<longrightarrow> c AND 65503 = c - 32"
    unfolding list_all_iff set_upt by auto
  have "c AND 65535 = c" if "c < 128"
    using that take_bit_eq_mask [of 16 c] take_bit_nat_eq_self [of c 16] by (simp add: mask_eq_exp_minus_1)
  with lower show "c < 128 \<Longrightarrow> ?thesis" by (auto simp: toASCIIUpper_def)
qed

lemma addCharacter_get:
  assumes "c < 128"
  shows "\<exists>cs'. addCharacter c cased (CharacterSetTerm q cs) = Some (CharacterSetTerm q cs') \<and>
     m_inverted cs' = m_inverted cs \<and>
     (\<forall>d < 128. CharacterSet_get cs' d \<longleftrightarrow> same_character cased c d \<or> CharacterSet_get cs d)"
proof (cases "cased \<or> \<not> isASCIIAlpha c")
  case True
  obtain cs' where cs': "CharacterSet_set c cs = Some cs'" using CharacterSet_set_ex [OF assms] by blast
  have "same_character cased c d \<longleftrightarrow> d = c" if "d < 128" for d
    using True assms that by (auto simp: same_character_def toASCIILower_eq isASCIIAlpha_eq isASCIIUpper_def split: if_splits)
  with True cs' show ?thesis
    using CharacterSet_get_set [OF cs'] CharacterSet_set_inverted [OF cs'] by auto
next
  case False
  have lt: "toASCIIUpper c < 128" "toASCIILower c < 128"
    using assms by (auto simp: toASCIIUpper_eq toASCIILower_less)
  obtain c1 where c1: "CharacterSet_set (toASCIIUpper c) cs = Some c1" using CharacterSet_set_ex [OF lt(1)] by blast
  obtain c2 where c2: "CharacterSet_set (toASCIILower c) c1 = Some c2" using CharacterSet_set_ex [OF lt(2)] by blast
  have "same_character cased c d \<longleftrightarrow> d = toASCIIUpper c \<or> d = toASCIILower c" if "d < 128" for d
    using False assms that
    by (auto simp: same_character_def toASCIILower_eq isASCIIAlpha_eq isASCIIUpper_def toASCIIUpper_eq split: if_splits)
  with False c1 c2 show ?thesis
    using CharacterSet_get_set [OF c1] CharacterSet_set_inverted [OF c1]
      CharacterSet_get_set [OF c2] CharacterSet_set_inverted [OF c2] by auto
qed

lemma fold_CharacterSet_set:
  "\<forall>i \<in> set xs. i < 128 \<Longrightarrow>
     let cs' = fold (\<lambda>i cs. case CharacterSet_set i cs of None \<Rightarrow> cs | Some cs' \<Rightarrow> cs') xs cs
     in m_inverted cs' = m_inverted cs \<and>
        (\<forall>d < 128. CharacterSet_get cs' d \<longleftrightarrow> d \<in> set xs \<or> CharacterSet_get cs d)"
proof (induction xs arbitrary: cs)
  case (Cons i xs)
  then obtain cs1 where cs1: "CharacterSet_set i cs = Some cs1" using CharacterSet_set_ex [of i cs] by auto
  with Cons.IH [of cs1] Cons.prems CharacterSet_get_set [OF cs1] CharacterSet_set_inverted [OF cs1]
  show ?case by (auto simp: Let_def)
qed (simp add: Let_def)

lemma universal_transition_term_universal: "isUniversalTransition universal_transition_term"
  unfolding universal_transition_term_def isUniversal_iff
  using fold_CharacterSet_set [of "[0..<128]" new_CharacterSet]
  by (auto simp: Let_def new_CharacterSet_def simp del: upt_Suc)

text \<open>The universal term in closed form, for evaluation.\<close>

lemma universal_transition_term_code [code]:
  "universal_transition_term =
     CharacterSetTerm One \<lparr>m_inverted = False, m_characters0 = - 1, m_characters1 = - 1\<rparr>"
proof -
  define cs where
    "cs = fold (\<lambda>i cs. case CharacterSet_set i cs of None \<Rightarrow> cs | Some cs' \<Rightarrow> cs') [0..<128] new_CharacterSet"
  have inv: "m_inverted cs = False" and get: "\<And>d. d < 128 \<Longrightarrow> CharacterSet_get cs d"
    using fold_CharacterSet_set [of "[0..<128]" new_CharacterSet]
    by (auto simp: Let_def new_CharacterSet_def cs_def simp del: upt_Suc)
  have "m_characters0 cs = - 1"
    by (rule bit_eqI) (use get CharacterSet_get_halves(1) [of _ cs] in \<open>auto simp: bit_simps\<close>)
  moreover have "m_characters1 cs = - 1"
    by (rule bit_eqI) (use get CharacterSet_get_halves(2) [of _ cs] in \<open>auto simp: bit_simps\<close>)
  ultimately show ?thesis
    using inv by (cases cs) (simp add: universal_transition_term_def flip: cs_def)
qed

lemma end_of_line_term: "isEndOfLineAssertion end_of_line_assertion_term"
  by code_simp

end
