(* ===== verification/CE_Prefix_Tree.thy ===== *)
theory CE_Prefix_Tree
  imports CE_Term_Graph
begin

text \<open>
  The prefix tree of URL filters (\<open>contentextensions/CombinedURLFilters.cpp\<close>): adding a pattern,
  and cutting the tree into automata of bounded size.

  Vertices are owned by their parent's edge (\<open>unique_ptr\<close>), so the tree is a datatype, and the
  C++ code that follows raw pointers into it is a recursion that rebuilds the path it followed.
  \<open>processNFAs\<close> hands every automaton to a callback; here it returns their list.
\<close>

section \<open>The tree\<close>

datatype PrefixTreeVertex = PrefixTreeVertex (tree_edges: "PrefixTreeEdge list") (finalActions: action_list)
  and PrefixTreeEdge = PrefixTreeEdge (edge_term: trm) (child: PrefixTreeVertex)

definition empty_vertex :: PrefixTreeVertex where
  "empty_vertex = PrefixTreeVertex [] []"

definition isEmpty :: "PrefixTreeVertex \<Rightarrow> bool" where
  "isEmpty root \<longleftrightarrow> tree_edges root = []"

text \<open>The index of the first edge with an equal term, as the search loop of \<open>addPattern\<close> finds it.\<close>

fun find_edge :: "trm \<Rightarrow> PrefixTreeEdge list \<Rightarrow> nat option" where
  "find_edge t [] = None"
| "find_edge t (e # es) = (if edge_term e = t then Some 0 else map_option Suc (find_edge t es))"

fun extend_tree :: "u64 \<Rightarrow> trm list \<Rightarrow> PrefixTreeVertex \<Rightarrow> PrefixTreeVertex" where
  "extend_tree actionId [] (PrefixTreeVertex es acts) =
     PrefixTreeVertex es (if actionId \<in> set acts then acts else acts @ [actionId])"
| "extend_tree actionId (t # ts) (PrefixTreeVertex es acts) =
     (case find_edge t es of
        Some i \<Rightarrow>
          PrefixTreeVertex (es[i := PrefixTreeEdge (edge_term (es ! i)) (extend_tree actionId ts (child (es ! i)))]) acts
      | None \<Rightarrow> PrefixTreeVertex (es @ [PrefixTreeEdge t (extend_tree actionId ts empty_vertex)]) acts)"

definition addPattern :: "u64 \<Rightarrow> trm list \<Rightarrow> PrefixTreeVertex \<Rightarrow> PrefixTreeVertex" where
  "addPattern actionId pattern root = (if pattern = [] then root else extend_tree actionId pattern root)"

section \<open>Cutting the tree into automata\<close>

text \<open>
  The depth-first traversal of \<open>generateNFAForSubtree\<close>. Its explicit stack holds the vertex, the
  automaton node that stands for it and the index of the edge in progress; these are the
  arguments and the recursion on the edge list here. A vertex whose edges are done drops the
  edges marked as deleted; its parent marks the edge to it as deleted when it has become a leaf.
\<close>

definition isDeletedValue :: "trm \<Rightarrow> bool" where
  "isDeletedValue t = (case t of DeletedTerm _ \<Rightarrow> True | _ \<Rightarrow> False)"

fun subtree_vertex :: "nat \<Rightarrow> PrefixTreeVertex \<Rightarrow> nat \<Rightarrow> nfa \<Rightarrow> bool \<Rightarrow> PrefixTreeVertex \<times> nfa \<times> bool"
  and subtree_edges :: "nat \<Rightarrow> PrefixTreeEdge list \<Rightarrow> nat \<Rightarrow> nfa \<Rightarrow> bool \<Rightarrow> PrefixTreeEdge list \<times> nfa \<times> bool"
  and subtree_edge :: "nat \<Rightarrow> PrefixTreeEdge \<Rightarrow> nat \<Rightarrow> nfa \<Rightarrow> bool \<Rightarrow> PrefixTreeEdge \<times> nfa \<times> bool" where
  "subtree_vertex maxNFASize (PrefixTreeVertex es acts) nfaNodeId nfa nfaTooBig =
     (let nfaTooBig = nfaTooBig \<or> (es = [] \<and> maxNFASize < graphSize nfa);
          (es, nfa, nfaTooBig) = subtree_edges maxNFASize es nfaNodeId nfa nfaTooBig
      in (PrefixTreeVertex (filter (\<lambda>e. \<not> isDeletedValue (edge_term e)) es) acts, nfa, nfaTooBig))"
| "subtree_edges maxNFASize [] nfaNodeId nfa nfaTooBig = ([], nfa, nfaTooBig)"
| "subtree_edges maxNFASize (e # es) nfaNodeId nfa nfaTooBig =
     (if nfaTooBig then (e # es, nfa, nfaTooBig)
      else
        let (e, nfa, nfaTooBig) = subtree_edge maxNFASize e nfaNodeId nfa nfaTooBig;
            (es, nfa, nfaTooBig) = subtree_edges maxNFASize es nfaNodeId nfa nfaTooBig
        in (e # es, nfa, nfaTooBig))"
| "subtree_edge maxNFASize (PrefixTreeEdge t c) nfaNodeId nfa nfaTooBig =
     (if \<not> hasFixedLength t then (PrefixTreeEdge t c, nfa, nfaTooBig)
      else
        let (nfa, subtreeRootId) = generateGraph t nfa nfaNodeId (finalActions c);
            (c, nfa, nfaTooBig) = subtree_vertex maxNFASize c subtreeRootId nfa nfaTooBig
        in (PrefixTreeEdge (if tree_edges c = [] then DeletedTerm One else t) c, nfa, nfaTooBig))"

definition generateNFAForSubtree :: "nfa \<Rightarrow> nat \<Rightarrow> PrefixTreeVertex \<Rightarrow> nat \<Rightarrow> PrefixTreeVertex \<times> nfa" where
  "generateNFAForSubtree nfa nfaRootId root maxNFASize =
     (if tree_edges root = [] then (root, nfa)
      else let (root, nfa, _) = subtree_vertex maxNFASize root nfaRootId nfa False in (root, nfa))"

text \<open>
  One round of \<open>processNFAs\<close>. The stack of the C++ is the path of last edges from the root to a
  leaf, cut back to the vertex after the last edge of variable length; \<open>quantified_below\<close> tells
  whether such an edge is on the path. The prefix is put into the automaton on the way down, the
  subtree at the cut is added, and processed leaves are removed on the way up.
\<close>

function quantified_below :: "PrefixTreeVertex \<Rightarrow> bool" where
  "quantified_below (PrefixTreeVertex es acts) =
     (if es = [] then False
      else \<not> hasFixedLength (edge_term (last es)) \<or> quantified_below (child (last es)))"
  by pat_completeness auto

lemma size_last_edge: "es \<noteq> [] \<Longrightarrow> size (child (last es)) < size_list size es"
proof (induction es)
  case (Cons e es)
  then show ?case by (cases e) auto
qed simp

termination quantified_below
proof (relation "measure size")
  fix es acts assume "es \<noteq> ([] :: PrefixTreeEdge list)"
  then show "(child (last es), PrefixTreeVertex es acts) \<in> measure size"
    using size_last_edge [of es] by simp
qed simp

function process_round :: "nat \<Rightarrow> PrefixTreeVertex \<Rightarrow> nat \<Rightarrow> nfa \<Rightarrow> PrefixTreeVertex \<times> nfa" where
  "process_round maxNFASize (PrefixTreeVertex es acts) prefixEnd nfa =
     (if quantified_below (PrefixTreeVertex es acts) then
        let (nfa, prefixEnd) = generateGraph (edge_term (last es)) nfa prefixEnd (finalActions (child (last es)));
            (c, nfa) = process_round maxNFASize (child (last es)) prefixEnd nfa
        in (PrefixTreeVertex
              (if tree_edges c = [] then butlast es else butlast es @ [PrefixTreeEdge (edge_term (last es)) c])
              acts, nfa)
      else generateNFAForSubtree nfa prefixEnd (PrefixTreeVertex es acts) maxNFASize)"
  by pat_completeness auto
termination
proof (relation "measure (\<lambda>(_, v, _). size v)")
  fix maxNFASize es acts prefixEnd nfa and x :: "nfa \<times> nat" and y z
  assume "quantified_below (PrefixTreeVertex es acts)"
  then have "es \<noteq> []" by auto
  then show "((maxNFASize, child (last es), z, y), maxNFASize, PrefixTreeVertex es acts, prefixEnd, nfa)
     \<in> measure (\<lambda>(_, v, _). size v)"
    using size_last_edge [of es] by simp
qed simp

declare quantified_below.simps [simp del] process_round.simps [simp del]

subsection \<open>Every round removes an edge\<close>

primrec vertex_count :: "PrefixTreeVertex \<Rightarrow> nat" and edge_count :: "PrefixTreeEdge \<Rightarrow> nat" where
  "vertex_count (PrefixTreeVertex es acts) = sum_list (map edge_count es)"
| "edge_count (PrefixTreeEdge t c) = Suc (vertex_count c)"

definition live_count :: "PrefixTreeEdge \<Rightarrow> nat" where
  "live_count e = (if isDeletedValue (edge_term e) then 0 else edge_count e)"

lemma live_count_le: "live_count e \<le> edge_count e"
  by (simp add: live_count_def)

lemma sum_live: "sum_list (map edge_count (filter (\<lambda>e. \<not> isDeletedValue (edge_term e)) es)) = sum_list (map live_count es)"
  by (induction es) (simp_all add: live_count_def)

lemma sum_live_le: "sum_list (map live_count es) \<le> sum_list (map edge_count es)"
  by (rule sum_list_mono) (rule live_count_le)

lemma subtree_count:
  "subtree_vertex m v node A b = (v', A', b') \<Longrightarrow>
     vertex_count v' \<le> vertex_count v \<and>
     (tree_edges v = [] \<longrightarrow> tree_edges v' = []) \<and>
     (\<not> b \<longrightarrow> b' \<longrightarrow> tree_edges v = [] \<or> vertex_count v' < vertex_count v) \<and>
     (\<not> b' \<longrightarrow> \<not> quantified_below v \<longrightarrow> tree_edges v \<noteq> [] \<longrightarrow> vertex_count v' < vertex_count v)"
  "subtree_edges m es node A b = (es', A', b') \<Longrightarrow>
     sum_list (map live_count es') \<le> sum_list (map edge_count es) \<and>
     (es = [] \<longrightarrow> es' = [] \<and> b' = b) \<and>
     (\<not> b \<longrightarrow> b' \<longrightarrow> sum_list (map live_count es') < sum_list (map edge_count es)) \<and>
     (\<not> b' \<longrightarrow> es \<noteq> [] \<longrightarrow> hasFixedLength (edge_term (last es)) \<longrightarrow> \<not> quantified_below (child (last es)) \<longrightarrow>
        sum_list (map live_count es') < sum_list (map edge_count es))"
  "subtree_edge m e node A b = (e', A', b') \<Longrightarrow>
     live_count e' \<le> edge_count e \<and>
     (\<not> b \<longrightarrow> b' \<longrightarrow> live_count e' < edge_count e) \<and>
     (\<not> b' \<longrightarrow> hasFixedLength (edge_term e) \<longrightarrow> \<not> quantified_below (child e) \<longrightarrow> live_count e' < edge_count e)"
proof (induction m v node A b and m es node A b and m e node A b arbitrary: v' A' b' and es' A' b' and e' A' b'
    rule: subtree_vertex_subtree_edges_subtree_edge.induct)
  case (1 m es acts node A b)
  obtain es1 A1 b1 where r: "subtree_edges m es node A (b \<or> (es = [] \<and> m < graphSize A)) = (es1, A1, b1)"
    using prod_cases3 by blast
  with "1.prems" have v': "v' = PrefixTreeVertex (filter (\<lambda>e. \<not> isDeletedValue (edge_term e)) es1) acts" "b' = b1"
    by auto
  from "1.IH" [OF refl r] v' show ?case
    by (cases "es = []") (auto simp: sum_live quantified_below.simps)
next
  case (2 m node A b)
  then show ?case by simp
next
  case (3 m e es node A b)
  show ?case
  proof (cases b)
    case True
    with "3.prems" show ?thesis using sum_live_le [of es] live_count_le [of e] by auto
  next
    case False
    obtain e1 A1 b1 where r1: "subtree_edge m e node A b = (e1, A1, b1)" using prod_cases3 by blast
    obtain es2 A2 b2 where r2: "subtree_edges m es node A1 b1 = (es2, A2, b2)" using prod_cases3 by blast
    have res: "es' = e1 # es2" "A' = A2" "b' = b2" using "3.prems" r1 r2 False by auto
    note I1 = "3.IH"(1) [OF False r1] and I2 = "3.IH"(2) [OF False r1 [symmetric] refl refl r2]
    have "b1 \<Longrightarrow> b2" using r2 by (cases es) auto
    with I1 I2 res False show ?thesis by (cases "es = []"; cases b1) auto
  qed
next
  case (4 m t c node A b)
  show ?case
  proof (cases "hasFixedLength t")
    case False
    with "4.prems" show ?thesis by (auto simp: live_count_def)
  next
    case True
    obtain A1 i where g: "generateGraph t A node (finalActions c) = (A1, i)" by fastforce
    obtain c2 A2 b2 where r: "subtree_vertex m c i A1 b = (c2, A2, b2)" using prod_cases3 by blast
    have res: "e' = PrefixTreeEdge (if tree_edges c2 = [] then DeletedTerm One else t) c2" "b' = b2"
      using "4.prems" g r True by auto
    from "4.IH" [OF _ g [symmetric] refl r] True have I:
      "vertex_count c2 \<le> vertex_count c" "tree_edges c = [] \<longrightarrow> tree_edges c2 = []"
      "\<not> b \<longrightarrow> b2 \<longrightarrow> tree_edges c = [] \<or> vertex_count c2 < vertex_count c"
      "\<not> b2 \<longrightarrow> \<not> quantified_below c \<longrightarrow> tree_edges c \<noteq> [] \<longrightarrow> vertex_count c2 < vertex_count c" by auto
    then show ?thesis
      by (cases "tree_edges c2 = []") (auto simp: res live_count_def isDeletedValue_def)
  qed
qed

lemma process_round_count:
  "tree_edges v \<noteq> [] \<Longrightarrow> vertex_count (fst (process_round m v e A)) < vertex_count v"
proof (induction m v e A rule: process_round.induct)
  case (1 m es acts e A)
  let ?v = "PrefixTreeVertex es acts"
  have es: "es \<noteq> []" using "1.prems" by simp
  then have "vertex_count ?v = sum_list (map edge_count (butlast es @ [last es]))" by simp
  then have split: "vertex_count ?v = sum_list (map edge_count (butlast es)) + edge_count (last es)"
    by (simp only: map_append sum_list_append list.map sum_list_simps add_0_right)
  obtain t c where last: "last es = PrefixTreeEdge t c" by (cases "last es")
  show ?case
  proof (cases "quantified_below ?v")
    case True
    obtain A1 e1 where g: "generateGraph t A e (finalActions c) = (A1, e1)" by fastforce
    obtain c2 A2 where r: "process_round m c e1 A1 = (c2, A2)" by fastforce
    have res: "fst (process_round m ?v e A) =
        PrefixTreeVertex (if tree_edges c2 = [] then butlast es else butlast es @ [PrefixTreeEdge t c2]) acts"
      using True g r last by (simp add: process_round.simps [of m es])
    have leaf: "tree_edges c = [] \<Longrightarrow> tree_edges c2 = []"
      using r by (cases c) (auto simp: process_round.simps generateNFAForSubtree_def quantified_below.simps)
    have "tree_edges c \<noteq> [] \<Longrightarrow> vertex_count c2 < vertex_count c"
      using "1.IH" [OF True, of "(A1, e1)" A1 e1] g r last by simp
    with leaf have "tree_edges c2 \<noteq> [] \<Longrightarrow> vertex_count c2 < vertex_count c" by blast
    then show ?thesis unfolding res split last by auto
  next
    case False
    obtain v2 A2 b2 where r: "subtree_vertex m ?v e A False = (v2, A2, b2)" using prod_cases3 by blast
    then have "fst (process_round m ?v e A) = v2"
      using False es by (simp add: process_round.simps [of m es] generateNFAForSubtree_def del: subtree_vertex.simps)
    with subtree_count(1) [OF r] False es show ?thesis by (cases b2) auto
  qed
qed

text \<open>The NFA of a round starts with its root, and the loop ends when the root has no edge.\<close>

function processNFAs :: "nat \<Rightarrow> PrefixTreeVertex \<Rightarrow> nfa list" where
  "processNFAs maxNFASize root =
     (if tree_edges root = [] then []
      else let (root, nfa) = process_round maxNFASize root (m_root new_nfa) new_nfa
           in nfa # processNFAs maxNFASize root)"
  by pat_completeness auto
termination
  by (relation "measure (\<lambda>(_, v). vertex_count v)") (auto dest: process_round_count, metis fst_conv process_round_count)

declare processNFAs.simps [simp del]

end
