(* ===== verification/CE_Prefix_Lang.thy ===== *)
theory CE_Prefix_Lang
  imports CE_Prefix_Tree
begin

text \<open>
  What the prefix tree means, and that neither building it nor cutting it into automata changes
  the meaning: \<open>addPattern\<close> adds exactly the new pattern, and the automata of \<open>processNFAs\<close>
  together accept exactly the words of the patterns, each with the actions of its patterns.
\<close>

section \<open>Meaning\<close>

text \<open>The meaning of a tree is a set of pairs of a word and an action it triggers.\<close>

definition child_pairs :: "nat list set \<Rightarrow> u64 set \<Rightarrow> (nat list \<times> u64) set \<Rightarrow> (nat list \<times> u64) set" where
  "child_pairs L acts K = {(u @ w, a) | u w a. u \<in> L \<and> (w = [] \<and> a \<in> acts \<or> (w, a) \<in> K)}"

primrec vertex_meaning :: "PrefixTreeVertex \<Rightarrow> (nat list \<times> u64) set"
  and edge_meaning :: "PrefixTreeEdge \<Rightarrow> (nat list \<times> u64) set" where
  "vertex_meaning (PrefixTreeVertex es acts) = \<Union> (set (map edge_meaning es))"
| "edge_meaning (PrefixTreeEdge t c) = child_pairs (term_lang t) (set (finalActions c)) (vertex_meaning c)"

primrec proper_vertex :: "PrefixTreeVertex \<Rightarrow> bool" and proper_edge :: "PrefixTreeEdge \<Rightarrow> bool" where
  "proper_vertex (PrefixTreeVertex es acts) = list_all id (map proper_edge es)"
| "proper_edge (PrefixTreeEdge t c) = (proper_term t \<and> proper_vertex c)"

definition nfa_accepts :: "nfa \<Rightarrow> (nat list \<times> u64) set" where
  "nfa_accepts A = {(w, a). \<exists>q < length (m_nodes A). path (edges A) (m_root A) w q \<and> a \<in> rules_at A q}"

lemma proper_vertex_iff: "proper_vertex (PrefixTreeVertex es acts) \<longleftrightarrow> (\<forall>e \<in> set es. proper_edge e)"
  by (simp add: list_all_iff)

lemma in_child_pairs:
  "(w, a) \<in> child_pairs L acts K \<longleftrightarrow> (\<exists>u v. w = u @ v \<and> u \<in> L \<and> (v = [] \<and> a \<in> acts \<or> (v, a) \<in> K))"
  by (auto simp: child_pairs_def)

lemma child_pairs_empty [simp]: "child_pairs {} acts K = {}"
  by (simp add: child_pairs_def)

lemma child_pairs_mono: "K \<subseteq> M \<Longrightarrow> child_pairs L acts K \<subseteq> child_pairs L acts M"
  by (auto simp: child_pairs_def)

lemma child_pairs_Un: "child_pairs L acts (K \<union> M) = child_pairs L acts K \<union> child_pairs L acts M"
  by (auto simp: child_pairs_def)

section \<open>Adding a pattern\<close>

definition pattern_pairs :: "u64 \<Rightarrow> trm list \<Rightarrow> (nat list \<times> u64) set" where
  "pattern_pairs actionId ts = {(w, actionId) | w. w \<in> terms_lang ts}"

lemma pattern_pairs_Cons:
  "pattern_pairs actionId (t # ts) = child_pairs (term_lang t) {} (pattern_pairs actionId ts)"
  by (auto simp: pattern_pairs_def child_pairs_def in_conc)

lemma find_edge_Some: "find_edge t es = Some i \<Longrightarrow> i < length es \<and> edge_term (es ! i) = t"
  by (induction es arbitrary: i) (auto split: if_splits)

lemma union_list_update:
  assumes "i < length xs" "f y = f (xs ! i) \<union> N"
  shows "\<Union> (f ` set (xs[i := y])) = \<Union> (f ` set xs) \<union> N"
  using assms
proof (induction xs arbitrary: i)
  case (Cons x xs)
  then show ?case by (cases i) auto
qed simp

definition own_pairs :: "PrefixTreeVertex \<Rightarrow> (nat list \<times> u64) set" where
  "own_pairs v = {([], a) | a. a \<in> set (finalActions v)} \<union> vertex_meaning v"

lemma edge_meaning_own: "edge_meaning (PrefixTreeEdge t c) = child_pairs (term_lang t) {} (own_pairs c)"
  by (auto simp: own_pairs_def child_pairs_def)

lemma own_pairs_extend: "own_pairs (extend_tree actionId ts v) = own_pairs v \<union> pattern_pairs actionId ts"
proof (induction actionId ts v rule: extend_tree.induct)
  case (1 actionId es acts)
  then show ?case by (auto simp: own_pairs_def pattern_pairs_def)
next
  case (2 actionId t ts es acts)
  show ?case
  proof (cases "find_edge t es")
    case None
    from "2.IH"(1) [OF None] have "own_pairs (extend_tree actionId ts empty_vertex) = pattern_pairs actionId ts"
      by (simp add: own_pairs_def empty_vertex_def)
    with None show ?thesis
      by (simp add: own_pairs_def edge_meaning_own pattern_pairs_Cons Un_ac del: edge_meaning.simps)
  next
    case (Some i)
    let ?e = "PrefixTreeEdge (edge_term (es ! i)) (extend_tree actionId ts (child (es ! i)))"
    note i = find_edge_Some [OF Some]
    have "edge_meaning ?e = edge_meaning (es ! i) \<union> pattern_pairs actionId (t # ts)"
      using "2.IH"(2) [OF Some] i
      by (cases "es ! i") (simp add: edge_meaning_own pattern_pairs_Cons child_pairs_Un del: edge_meaning.simps)
    from union_list_update [of i es edge_meaning, OF _ this] i Some show ?thesis
      by (simp add: own_pairs_def Un_ac)
  qed
qed

lemma proper_extend: "list_all proper_term ts \<Longrightarrow> proper_vertex v \<Longrightarrow> proper_vertex (extend_tree actionId ts v)"
proof (induction actionId ts v rule: extend_tree.induct)
  case (2 actionId t ts es acts)
  show ?case
  proof (cases "find_edge t es")
    case None
    with 2 show ?thesis by (auto simp: list_all_iff empty_vertex_def)
  next
    case (Some i)
    note i = find_edge_Some [OF Some]
    have "proper_vertex (child (es ! i))"
      using "2.prems"(2) i nth_mem [of i es] by (cases "es ! i") (fastforce simp: list_all_iff)
    with "2.IH"(2) [OF Some] "2.prems" i
    have "proper_edge (PrefixTreeEdge (edge_term (es ! i)) (extend_tree actionId ts (child (es ! i))))" by simp
    moreover have "\<forall>e \<in> set es. proper_edge e" using "2.prems"(2) by (simp add: list_all_iff)
    ultimately show ?thesis
      using Some by (auto simp: list_all_iff dest!: set_update_subset_insert [THEN subsetD])
  qed
qed simp

lemma finalActions_extend: "ts \<noteq> [] \<Longrightarrow> finalActions (extend_tree actionId ts v) = finalActions v"
  by (cases "(actionId, ts, v)" rule: extend_tree.cases) (auto split: option.splits)


section \<open>Grafting a subtree onto an automaton\<close>

definition grafts :: "nfa \<Rightarrow> nat \<Rightarrow> nfa \<Rightarrow> (nat list \<times> u64) set \<Rightarrow> bool" where
  "grafts A s A' K \<longleftrightarrow>
     wf_nfa A' \<and> m_root A' = m_root A \<and> length (m_nodes A) \<le> length (m_nodes A') \<and>
     (\<forall>p < length (m_nodes A). \<forall>q < length (m_nodes A). \<forall>w. path (edges A') p w q \<longleftrightarrow> path (edges A) p w q) \<and>
     (\<forall>q < length (m_nodes A). rules_at A' q = rules_at A q) \<and>
     (\<forall>w a. (\<exists>q < length (m_nodes A'). length (m_nodes A) \<le> q \<and> path (edges A') (m_root A) w q \<and> a \<in> rules_at A' q) \<longleftrightarrow>
            (\<exists>u v. w = u @ v \<and> path (edges A) (m_root A) u s \<and> (v, a) \<in> K))"

lemma grafts_refl: "wf_nfa A \<Longrightarrow> grafts A s A {}"
  by (auto simp: grafts_def)

lemma graftsD:
  assumes "grafts A s A' K"
  shows "wf_nfa A'" "m_root A' = m_root A" "length (m_nodes A) \<le> length (m_nodes A')"
    "p < length (m_nodes A) \<Longrightarrow> q < length (m_nodes A) \<Longrightarrow> path (edges A') p w q \<longleftrightarrow> path (edges A) p w q"
    "q < length (m_nodes A) \<Longrightarrow> rules_at A' q = rules_at A q"
    "(\<exists>q < length (m_nodes A'). length (m_nodes A) \<le> q \<and> path (edges A') (m_root A) w q \<and> a \<in> rules_at A' q) \<longleftrightarrow>
       (\<exists>u v. w = u @ v \<and> path (edges A) (m_root A) u s \<and> (v, a) \<in> K)"
  using assms unfolding grafts_def by blast+

lemma ex_split_new: "n \<le> m \<Longrightarrow> (\<exists>q < k. n \<le> q \<and> P q) \<longleftrightarrow> (\<exists>q < k. q < m \<and> n \<le> q \<and> P q) \<or> (\<exists>q < k. m \<le> q \<and> P (q::nat))"
  by (meson le_trans not_less)

lemma grafts_trans:
  assumes 1: "grafts A s B K" and 2: "grafts B s C M" and wf: "wf_nfa A" and s: "s < length (m_nodes A)"
  shows "grafts A s C (K \<union> M)"
proof -
  note B = graftsD [OF 1] and C = graftsD [OF 2]
  have root: "m_root A < length (m_nodes A)" using wf by (simp add: wf_nfa_def)
  have old: "p < length (m_nodes A) \<Longrightarrow> p < length (m_nodes B)" for p using B(3) by simp
  have "(\<exists>q < length (m_nodes C). length (m_nodes A) \<le> q \<and> path (edges C) (m_root A) w q \<and> a \<in> rules_at C q) \<longleftrightarrow>
        (\<exists>u v. w = u @ v \<and> path (edges A) (m_root A) u s \<and> (v, a) \<in> K \<union> M)" (is "?l \<longleftrightarrow> ?r") for w a
  proof -
    have "?l \<longleftrightarrow> (\<exists>q < length (m_nodes C). q < length (m_nodes B) \<and> length (m_nodes A) \<le> q \<and> path (edges C) (m_root A) w q \<and> a \<in> rules_at C q) \<or>
         (\<exists>q < length (m_nodes C). length (m_nodes B) \<le> q \<and> path (edges C) (m_root B) w q \<and> a \<in> rules_at C q)"
      unfolding B(2) by (rule ex_split_new [OF B(3)])
    also have "(\<exists>q < length (m_nodes C). q < length (m_nodes B) \<and> length (m_nodes A) \<le> q \<and> path (edges C) (m_root A) w q \<and> a \<in> rules_at C q)
      \<longleftrightarrow> (\<exists>q < length (m_nodes B). length (m_nodes A) \<le> q \<and> path (edges B) (m_root A) w q \<and> a \<in> rules_at B q)"
      using C(3) C(4) [OF old [OF root]] C(5) by (metis (no_types, lifting) less_le_trans)
    also note B(6)
    also note C(6)
    also have "(\<exists>u v. w = u @ v \<and> path (edges B) (m_root B) u s \<and> (v, a) \<in> M) \<longleftrightarrow>
       (\<exists>u v. w = u @ v \<and> path (edges A) (m_root A) u s \<and> (v, a) \<in> M)"
      using B(2) B(4) [OF root s] by simp
    finally show ?thesis by blast
  qed
  moreover have "path (edges C) p w q \<longleftrightarrow> path (edges A) p w q"
    if "p < length (m_nodes A)" "q < length (m_nodes A)" for p q w
    using that B(4) C(4) old by simp
  moreover have "rules_at C q = rules_at A q" if "q < length (m_nodes A)" for q
    using that B(5) C(5) old by simp
  ultimately show ?thesis
    unfolding grafts_def using B(2,3) C(1,2,3) by simp
qed

lemma child_pairs_arith:
  "(\<exists>u v. w = u @ v \<and> P u \<and> v \<in> L) \<and> A \<or> (\<exists>u v. w = u @ v \<and> (\<exists>x y. u = x @ y \<and> P x \<and> y \<in> L) \<and> Q v) \<longleftrightarrow>
   (\<exists>u v. w = u @ v \<and> P u \<and> (\<exists>x y. v = x @ y \<and> x \<in> L \<and> (y = [] \<and> A \<or> Q y)))" (is "?l \<longleftrightarrow> ?r")
proof
  show "?l \<Longrightarrow> ?r" by (elim disjE conjE exE) (force, metis append_assoc)
  show "?r \<Longrightarrow> ?l" by (elim exE conjE disjE) (force, metis append_assoc)
qed

lemma grafts_child:
  assumes 1: "appends A s (B, e) L acts" and 2: "grafts B e C K" and wf: "wf_nfa A"
  shows "grafts A s C (child_pairs L acts K)"
proof -
  note C = graftsD [OF 2] and wfB = appends_wf [OF 1 wf]
  have root: "m_root A < length (m_nodes A)" using wf by (simp add: wf_nfa_def)
  from 1 have rootB: "m_root B = m_root A" and rules: "\<And>q. q < length (m_nodes B) \<Longrightarrow>
     rules_at B q = (if q < length (m_nodes A) then rules_at A q else if q = e then acts else {})"
    by (auto simp: appends_def)
  have le: "length (m_nodes A) \<le> length (m_nodes B)" using wfB by simp
  note e_path = appends_path_new [OF 1 wf root]
  have "(\<exists>q < length (m_nodes C). length (m_nodes A) \<le> q \<and> path (edges C) (m_root A) w q \<and> a \<in> rules_at C q) \<longleftrightarrow>
        (\<exists>u v. w = u @ v \<and> path (edges A) (m_root A) u s \<and> (v, a) \<in> child_pairs L acts K)" (is "?l \<longleftrightarrow> ?r") for w a
  proof -
    have "?l \<longleftrightarrow> (\<exists>q < length (m_nodes C). q < length (m_nodes B) \<and> length (m_nodes A) \<le> q \<and> path (edges C) (m_root A) w q \<and> a \<in> rules_at C q) \<or>
         (\<exists>q < length (m_nodes C). length (m_nodes B) \<le> q \<and> path (edges C) (m_root B) w q \<and> a \<in> rules_at C q)"
      unfolding rootB by (rule ex_split_new [OF le])
    also have "(\<exists>q < length (m_nodes C). q < length (m_nodes B) \<and> length (m_nodes A) \<le> q \<and> path (edges C) (m_root A) w q \<and> a \<in> rules_at C q)
      \<longleftrightarrow> path (edges B) (m_root A) w e \<and> a \<in> acts"
    proof
      assume "\<exists>q < length (m_nodes C). q < length (m_nodes B) \<and> length (m_nodes A) \<le> q \<and> path (edges C) (m_root A) w q \<and> a \<in> rules_at C q"
      then obtain q where q: "q < length (m_nodes B)" "length (m_nodes A) \<le> q" "path (edges C) (m_root A) w q" "a \<in> rules_at C q"
        by blast
      then have "a \<in> (if q = e then acts else {})" using C(5) rules by simp
      then have "q = e \<and> a \<in> acts" by (simp split: if_splits)
      with q C(4) root le show "path (edges B) (m_root A) w e \<and> a \<in> acts" by simp
    next
      assume "path (edges B) (m_root A) w e \<and> a \<in> acts"
      moreover have "rules_at C e = acts" using C(5) rules wfB by simp
      moreover have "e < length (m_nodes C)" using wfB C(3) by simp
      ultimately show "\<exists>q < length (m_nodes C). q < length (m_nodes B) \<and> length (m_nodes A) \<le> q \<and> path (edges C) (m_root A) w q \<and> a \<in> rules_at C q"
        using wfB C(4) [of "m_root A" e w] root le by auto
    qed
    also note C(6)
    also have "path (edges B) (m_root A) w e \<and> a \<in> acts \<or> (\<exists>u v. w = u @ v \<and> path (edges B) (m_root B) u e \<and> (v, a) \<in> K) \<longleftrightarrow> ?r"
      unfolding rootB e_path in_child_pairs by (rule child_pairs_arith)
    finally show ?thesis .
  qed
  moreover have "path (edges C) p w q \<longleftrightarrow> path (edges A) p w q"
    if "p < length (m_nodes A)" "q < length (m_nodes A)" for p q w
    using that C(4) le appends_path_old [OF 1 wf] by simp
  moreover have "rules_at C q = rules_at A q" if "q < length (m_nodes A)" for q
    using that rules C(5) le by simp
  ultimately show ?thesis
    unfolding grafts_def using rootB C(1,2,3) le by simp
qed

section \<open>Cutting the tree keeps its meaning\<close>

definition edges_meaning :: "PrefixTreeEdge list \<Rightarrow> (nat list \<times> u64) set" where
  "edges_meaning es = \<Union> (edge_meaning ` set es)"

lemma edges_meaning_simps [simp]:
  "edges_meaning [] = {}" "edges_meaning (e # es) = edge_meaning e \<union> edges_meaning es"
  "edges_meaning (es @ es') = edges_meaning es \<union> edges_meaning es'"
  by (auto simp: edges_meaning_def)

lemma vertex_meaning_edges: "vertex_meaning (PrefixTreeVertex es acts) = edges_meaning es"
  by (simp add: edges_meaning_def)

declare vertex_meaning.simps [simp del] vertex_meaning_edges [simp]

definition deleted_edge :: "PrefixTreeEdge \<Rightarrow> bool" where
  "deleted_edge e \<longleftrightarrow> isDeletedValue (edge_term e)"

lemma deleted_meaning: "deleted_edge e \<Longrightarrow> edge_meaning e = {}"
  by (cases e) (auto simp: deleted_edge_def isDeletedValue_def split: trm.splits)

lemma edges_meaning_filter: "edges_meaning (filter (\<lambda>e. \<not> isDeletedValue (edge_term e)) es) = edges_meaning es"
  by (induction es) (auto simp: deleted_meaning deleted_edge_def)

lemma proper_not_deleted: "proper_edge e \<Longrightarrow> \<not> deleted_edge e"
  by (cases e) (auto simp: deleted_edge_def isDeletedValue_def split: trm.splits)

text \<open>
  \<open>cuts A s A' M M'\<close>: the automaton grew at \<open>s\<close> by some pairs of the old meaning \<open>M\<close>, and
  everything of \<open>M\<close> that it did not take is in the meaning \<open>M'\<close> of what is left.
\<close>

definition cuts :: "nfa \<Rightarrow> nat \<Rightarrow> nfa \<Rightarrow> (nat list \<times> u64) set \<Rightarrow> (nat list \<times> u64) set \<Rightarrow> bool" where
  "cuts A s A' M M' \<longleftrightarrow> (\<exists>K. grafts A s A' K \<and> K \<union> M' = M)"

lemma cuts_refl: "wf_nfa A \<Longrightarrow> cuts A s A M M"
  unfolding cuts_def using grafts_refl by blast

lemma cuts_wf: "cuts A s A' M M' \<Longrightarrow> wf_nfa A' \<and> length (m_nodes A) \<le> length (m_nodes A')"
  unfolding cuts_def using graftsD by blast

lemma cuts_seq:
  assumes "cuts A s B M M'" "cuts B s C N N'" "wf_nfa A" "s < length (m_nodes A)"
  shows "cuts A s C (M \<union> N) (M' \<union> N')"
proof -
  from assms obtain K L where "grafts A s B K" "K \<union> M' = M" "grafts B s C L" "L \<union> N' = N"
    unfolding cuts_def by blast
  moreover from this assms have "grafts A s C (K \<union> L)" by (blast intro: grafts_trans)
  ultimately show ?thesis unfolding cuts_def by blast
qed

lemma cuts_child:
  assumes "appends A s (B, e) L acts" "cuts B e C M M'" "wf_nfa A"
  shows "cuts A s C (child_pairs L acts M) (child_pairs L acts M')"
    and "M' = {} \<Longrightarrow> cuts A s C (child_pairs L acts M) {}"
proof -
  from assms(2) obtain K where K: "grafts B e C K" "K \<union> M' = M" unfolding cuts_def by blast
  then have "grafts A s C (child_pairs L acts K)" using assms by (blast intro: grafts_child)
  moreover have "child_pairs L acts K \<union> child_pairs L acts M' = child_pairs L acts M"
    using K(2) child_pairs_Un by metis
  ultimately show "cuts A s C (child_pairs L acts M) (child_pairs L acts M')" unfolding cuts_def by blast
  show "cuts A s C (child_pairs L acts M) {}" if "M' = {}"
    using \<open>grafts A s C (child_pairs L acts K)\<close> K(2) that unfolding cuts_def by auto
qed

lemma subtree_cuts:
  "subtree_vertex m v s A b = (v', A', b') \<Longrightarrow> wf_nfa A \<Longrightarrow> s < length (m_nodes A) \<Longrightarrow> proper_vertex v \<Longrightarrow>
     cuts A s A' (vertex_meaning v) (vertex_meaning v') \<and> proper_vertex v' \<and> finalActions v' = finalActions v"
  "subtree_edges m es s A b = (es', A', b') \<Longrightarrow> wf_nfa A \<Longrightarrow> s < length (m_nodes A) \<Longrightarrow> list_all proper_edge es \<Longrightarrow>
     cuts A s A' (edges_meaning es) (edges_meaning es') \<and> list_all (\<lambda>e. deleted_edge e \<or> proper_edge e) es'"
  "subtree_edge m e s A b = (e', A', b') \<Longrightarrow> wf_nfa A \<Longrightarrow> s < length (m_nodes A) \<Longrightarrow> proper_edge e \<Longrightarrow>
     cuts A s A' (edge_meaning e) (edge_meaning e') \<and> (deleted_edge e' \<or> proper_edge e')"
proof (induction m v s A b and m es s A b and m e s A b arbitrary: v' A' b' and es' A' b' and e' A' b'
    rule: subtree_vertex_subtree_edges_subtree_edge.induct)
  case (1 m es acts s A b)
  obtain es1 A1 b1 where r: "subtree_edges m es s A (b \<or> (es = [] \<and> m < graphSize A)) = (es1, A1, b1)"
    using prod_cases3 by blast
  with "1.prems" have "v' = PrefixTreeVertex (filter (\<lambda>e. \<not> isDeletedValue (edge_term e)) es1) acts" "A' = A1"
    by auto
  with "1.IH" [OF refl r] "1.prems" show ?case
    by (auto simp: edges_meaning_filter list_all_iff deleted_edge_def)
next
  case (2 m s A b)
  then show ?case by (simp add: cuts_refl)
next
  case (3 m e es s A b)
  show ?case
  proof (cases b)
    case True
    with "3.prems" show ?thesis by (auto simp: cuts_refl list_all_iff)
  next
    case False
    obtain e1 A1 b1 where r1: "subtree_edge m e s A b = (e1, A1, b1)" using prod_cases3 by blast
    obtain es2 A2 b2 where r2: "subtree_edges m es s A1 b1 = (es2, A2, b2)" using prod_cases3 by blast
    have res: "es' = e1 # es2" "A' = A2" using "3.prems" r1 r2 False by auto
    from "3.IH"(1) [OF False r1] "3.prems" have I1: "cuts A s A1 (edge_meaning e) (edge_meaning e1)"
      "deleted_edge e1 \<or> proper_edge e1" by auto
    with cuts_wf have "wf_nfa A1" "s < length (m_nodes A1)" using "3.prems"(3) by (blast, fastforce)
    with "3.IH"(2) [OF False r1 [symmetric] refl refl r2] "3.prems"
    have "cuts A1 s A2 (edges_meaning es) (edges_meaning es2)" "list_all (\<lambda>e. deleted_edge e \<or> proper_edge e) es2" by auto
    with I1 res "3.prems" show ?thesis by (simp add: cuts_seq)
  qed
next
  case (4 m t c s A b)
  show ?case
  proof (cases "hasFixedLength t")
    case False
    with "4.prems" show ?thesis by (auto simp: cuts_refl)
  next
    case True
    obtain A1 i where g: "generateGraph t A s (finalActions c) = (A1, i)" by fastforce
    obtain c2 A2 b2 where r: "subtree_vertex m c i A1 b = (c2, A2, b2)" using prod_cases3 by blast
    have res: "e' = PrefixTreeEdge (if tree_edges c2 = [] then DeletedTerm One else t) c2" "A' = A2"
      using "4.prems" g r True by auto
    have app: "appends A s (A1, i) (term_lang t) (set (finalActions c))"
      using appends_generate [of t A s "finalActions c"] "4.prems" g by simp
    with appends_wf [OF app] "4.prems" have "wf_nfa A1" "i < length (m_nodes A1)" by auto
    with "4.IH" [OF _ g [symmetric] refl r] True "4.prems" have I:
      "cuts A1 i A2 (vertex_meaning c) (vertex_meaning c2)" "proper_vertex c2" "finalActions c2 = finalActions c" by auto
    note cut = cuts_child [OF app I(1) "4.prems"(2)]
    show ?thesis
    proof (cases "tree_edges c2 = []")
      case True
      then have "vertex_meaning c2 = {}" by (cases c2) simp
      with cut(2) True show ?thesis by (simp add: res deleted_edge_def isDeletedValue_def)
    next
      case False
      with cut(1) I "4.prems" show ?thesis by (simp add: res)
    qed
  qed
qed

lemma process_round_cuts:
  "process_round m v s A = (v', A') \<Longrightarrow> wf_nfa A \<Longrightarrow> s < length (m_nodes A) \<Longrightarrow> proper_vertex v \<Longrightarrow>
     cuts A s A' (vertex_meaning v) (vertex_meaning v') \<and> proper_vertex v' \<and> finalActions v' = finalActions v"
proof (induction m v s A arbitrary: v' A' rule: process_round.induct)
  case (1 m es acts s A)
  show ?case
  proof (cases "quantified_below (PrefixTreeVertex es acts)")
    case False
    with "1.prems" show ?thesis
      using subtree_cuts(1) [of m "PrefixTreeVertex es acts" s A False]
      by (auto simp: process_round.simps generateNFAForSubtree_def cuts_refl
          simp del: subtree_vertex.simps split: if_splits prod.splits)
  next
    case True
    then have "es \<noteq> []" by (auto simp: quantified_below.simps)
    then obtain fs e where es: "es = fs @ [e]" by (metis append_butlast_last_id)
    obtain t c where e: "e = PrefixTreeEdge t c" by (cases e)
    obtain A1 i where g: "generateGraph t A s (finalActions c) = (A1, i)" by fastforce
    obtain c2 A2 where r: "process_round m c i A1 = (c2, A2)" by fastforce
    have res: "v' = PrefixTreeVertex (if tree_edges c2 = [] then fs else fs @ [PrefixTreeEdge t c2]) acts" "A' = A2"
      using "1.prems" True g r es e by (auto simp: process_round.simps [of m "fs @ [PrefixTreeEdge t c]"] split: if_splits)
    have proper: "proper_term t" "proper_vertex c" "list_all proper_edge fs"
      using "1.prems" es e by (auto simp: list_all_iff)
    have app: "appends A s (A1, i) (term_lang t) (set (finalActions c))"
      using appends_generate [of t A s "finalActions c"] "1.prems" proper g by simp
    with appends_wf [OF app] "1.prems" have "wf_nfa A1" "i < length (m_nodes A1)" by auto
    with "1.IH" [OF True, of "(A1, i)" A1 i] g r es e proper have I:
      "cuts A1 i A2 (vertex_meaning c) (vertex_meaning c2)" "proper_vertex c2" "finalActions c2 = finalActions c" by auto
    note cut = cuts_child [OF app I(1) "1.prems"(2)]
    have fs: "cuts A2 s A2 (edges_meaning fs) (edges_meaning fs)"
      using cuts_wf [OF cut(1)] by (simp add: cuts_refl)
    show ?thesis
    proof (cases "tree_edges c2 = []")
      case True
      then have "vertex_meaning c2 = {}" by (cases c2) simp
      from cuts_seq [OF cut(2) [OF this] fs] "1.prems" True proper show ?thesis
        by (simp add: res es e Un_commute list_all_iff)
    next
      case False
      from cuts_seq [OF cut(1) fs] "1.prems" False proper I show ?thesis
        by (simp add: res es e Un_commute list_all_iff)
    qed
  qed
qed

lemma new_nfa_simps [simp]:
  "m_nodes new_nfa = [empty_node]" "m_root new_nfa = 0" "edges new_nfa = {}" "wf_nfa new_nfa" "rules_at new_nfa 0 = {}"
  by (auto simp: new_nfa_def createNode_def Let_def edges_def wf_nfa_def rules_at_def)
    (simp add: empty_node_def)

lemma grafts_new_nfa: "grafts new_nfa 0 A K \<Longrightarrow> nfa_accepts A = K"
proof -
  assume g: "grafts new_nfa 0 A K"
  note G = graftsD [OF g]
  have nil: "path {} 0 u q \<longleftrightarrow> u = [] \<and> q = 0" for u q
    using path_no_out [of "{}" 0 u q] by (auto intro: path.path_refl)
  have "(w, a) \<in> nfa_accepts A \<longleftrightarrow> (w, a) \<in> K" for w a
  proof -
    have "(w, a) \<in> nfa_accepts A \<longleftrightarrow> (\<exists>q < length (m_nodes A). 1 \<le> q \<and> path (edges A) 0 w q \<and> a \<in> rules_at A q)"
    proof -
      have "1 \<le> q" if "a \<in> rules_at A q" for q using that G(5) [of 0] by (cases q) auto
      then show ?thesis unfolding nfa_accepts_def using G(2) by auto
    qed
    also have "\<dots> \<longleftrightarrow> (w, a) \<in> K" using G(6) [of w a] by (simp add: nil)
    finally show ?thesis .
  qed
  then show ?thesis by auto
qed

lemma processNFAs_accepts:
  "proper_vertex v \<Longrightarrow> \<Union> (nfa_accepts ` set (processNFAs m v)) = vertex_meaning v"
proof (induction m v rule: processNFAs.induct)
  case (1 m v)
  show ?case
  proof (cases "tree_edges v = []")
    case True
    then show ?thesis by (cases v) (simp add: processNFAs.simps)
  next
    case False
    obtain v' A where r: "process_round m v (m_root new_nfa) new_nfa = (v', A)" by fastforce
    from process_round_cuts [OF r] 1 have c: "cuts new_nfa 0 A (vertex_meaning v) (vertex_meaning v')" "proper_vertex v'" by auto
    then obtain K where "grafts new_nfa 0 A K" "K \<union> vertex_meaning v' = vertex_meaning v" unfolding cuts_def by blast
    moreover have "\<Union> (nfa_accepts ` set (processNFAs m v')) = vertex_meaning v'"
      using 1(1) [OF False r [symmetric] refl] c by simp
    moreover have "processNFAs m v = A # processNFAs m v'"
      using False r by (simp add: processNFAs.simps [of m v])
    ultimately show ?thesis using grafts_new_nfa by auto
  qed
qed

lemma processNFAs_wf: "proper_vertex v \<Longrightarrow> A \<in> set (processNFAs m v) \<Longrightarrow> wf_nfa A"
proof (induction m v rule: processNFAs.induct)
  case (1 m v)
  show ?case
  proof (cases "tree_edges v = []")
    case False
    obtain v' B where r: "process_round m v (m_root new_nfa) new_nfa = (v', B)" by fastforce
    from process_round_cuts [OF r] 1 cuts_wf have "wf_nfa B" "proper_vertex v'" by auto
    with 1 False r show ?thesis by (auto simp: processNFAs.simps [of m v])
  qed (use 1 in \<open>simp add: processNFAs.simps\<close>)
qed

end
