(* ===== verification/CE_Filter_Parser.thy ===== *)
theory CE_Filter_Parser
  imports CE_Term_Queries CE_Prefix_Lang
begin

text \<open>
  The URL filter parser (\<open>contentextensions/URLFilterParser.cpp\<close>): \<open>PatternParser\<close>, the delegate
  that turns the tokens of the Yarr regular expression parser into terms.

  A call of the delegate by Yarr is a \<open>yarr_event\<close>; the delegate never answers, so a parse is the
  list of its events. \<open>None\<close> as a result is the crash of a \<open>RELEASE_ASSERT\<close> (a character above
  127 put into a character set) or the use of a group that is not there.
\<close>

section \<open>Events and the state of the parser\<close>

datatype BuiltInCharacterClassID = DigitClassID | SpaceClassID | WordClassID | NewlineClassID

datatype yarr_event =
  AtomPatternCharacter nat
| AtomBuiltInCharacterClass BuiltInCharacterClassID bool
| QuantifyAtom u32 u32 bool
| AtomBackReference nat
| AssertionBOL
| AssertionEOL
| AssertionWordBoundary bool
| AtomCharacterClassBegin bool
| AtomCharacterClassAtom nat
| AtomCharacterClassRange nat nat
| AtomCharacterClassEnd
| AtomCharacterClassBuiltIn BuiltInCharacterClassID bool
| AtomParenthesesSubpatternBegin bool
| AtomParentheticalAssertionBegin bool
| AtomParenthesesEnd
| Disjunction

definition quantifyInfinite :: u32 where
  "quantifyInfinite = - 1"

datatype ParseStatus =
  Ok | MatchesEverything | NonASCII | UnsupportedCharacterClass | BackReference | MisplacedStartOfLine
| WordBoundary | AtomCharacter | Group | DisjunctionStatus | MisplacedEndOfLine | EmptyPattern | YarrError
| InvalidQuantifier

record PatternParser =
  m_patternIsCaseSensitive :: bool
  m_openGroups :: "trm list"
  m_sunkTerms :: "trm list"
  m_floatingTerm :: trm
  m_hasBeginningOfLineAssertion :: bool
  m_hasProcessedEndOfLineAssertion :: bool
  m_parseStatus :: ParseStatus

definition new_PatternParser :: "bool \<Rightarrow> PatternParser" where
  "new_PatternParser patternIsCaseSensitive =
     \<lparr>m_patternIsCaseSensitive = patternIsCaseSensitive, m_openGroups = [], m_sunkTerms = [],
      m_floatingTerm = empty_term, m_hasBeginningOfLineAssertion = False,
      m_hasProcessedEndOfLineAssertion = False, m_parseStatus = Ok\<rparr>"

definition hasError :: "PatternParser \<Rightarrow> bool" where
  "hasError p \<longleftrightarrow> m_parseStatus p \<noteq> Ok"

definition fail :: "ParseStatus \<Rightarrow> PatternParser \<Rightarrow> PatternParser" where
  "fail reason p = (if hasError p then p else p\<lparr>m_parseStatus := reason\<rparr>)"

definition sinkFloatingTermIfNecessary :: "PatternParser \<Rightarrow> PatternParser" where
  "sinkFloatingTermIfNecessary p =
     (if \<not> isValid (m_floatingTerm p) then p
      else if m_hasProcessedEndOfLineAssertion p then
        (fail MisplacedEndOfLine p)\<lparr>m_floatingTerm := empty_term\<rparr>
      else
        let p = (if isEndOfLineAssertion (m_floatingTerm p) then p\<lparr>m_hasProcessedEndOfLineAssertion := True\<rparr> else p)
        in if m_openGroups p \<noteq> [] then
             p\<lparr>m_openGroups := butlast (m_openGroups p) @ [extendGroupSubpattern (m_floatingTerm p) (last (m_openGroups p))],
               m_floatingTerm := empty_term\<rparr>
           else p\<lparr>m_sunkTerms := m_sunkTerms p @ [m_floatingTerm p], m_floatingTerm := empty_term\<rparr>)"

section \<open>The events\<close>

definition atomPatternCharacter :: "nat \<Rightarrow> PatternParser \<Rightarrow> PatternParser option" where
  "atomPatternCharacter character p =
     (if hasError p then Some p
      else if \<not> isASCII character then Some (fail NonASCII p)
      else let p = sinkFloatingTermIfNecessary p
           in map_option (\<lambda>t. p\<lparr>m_floatingTerm := t\<rparr>) (character_term character (m_patternIsCaseSensitive p)))"

definition atomBuiltInCharacterClass :: "BuiltInCharacterClassID \<Rightarrow> bool \<Rightarrow> PatternParser \<Rightarrow> PatternParser" where
  "atomBuiltInCharacterClass classID inverted p =
     (if hasError p then p
      else let p = sinkFloatingTermIfNecessary p
           in if classID = NewlineClassID \<and> inverted then p\<lparr>m_floatingTerm := universal_transition_term\<rparr>
              else fail UnsupportedCharacterClass p)"

definition quantifyAtom :: "u32 \<Rightarrow> u32 \<Rightarrow> PatternParser \<Rightarrow> PatternParser" where
  "quantifyAtom minimum maximum p =
     (if hasError p then p
      else if minimum = 0 \<and> maximum = 1 then p\<lparr>m_floatingTerm := quantify ZeroOrOne (m_floatingTerm p)\<rparr>
      else if minimum = 0 \<and> maximum = quantifyInfinite then
        p\<lparr>m_floatingTerm := quantify ZeroOrMore (m_floatingTerm p)\<rparr>
      else if minimum = 1 \<and> maximum = quantifyInfinite then
        p\<lparr>m_floatingTerm := quantify OneOrMore (m_floatingTerm p)\<rparr>
      else fail InvalidQuantifier p)"

definition assertionBOL :: "PatternParser \<Rightarrow> PatternParser" where
  "assertionBOL p =
     (if hasError p then p
      else if isValid (m_floatingTerm p) \<or> m_sunkTerms p \<noteq> [] \<or> m_openGroups p \<noteq> [] then fail MisplacedStartOfLine p
      else p\<lparr>m_hasBeginningOfLineAssertion := True\<rparr>)"

definition assertionEOL :: "PatternParser \<Rightarrow> PatternParser" where
  "assertionEOL p =
     (if hasError p then p
      else (sinkFloatingTermIfNecessary p)\<lparr>m_floatingTerm := end_of_line_assertion_term\<rparr>)"

definition atomCharacterClassBegin :: "bool \<Rightarrow> PatternParser \<Rightarrow> PatternParser" where
  "atomCharacterClassBegin inverted p =
     (if hasError p then p
      else (sinkFloatingTermIfNecessary p)\<lparr>m_floatingTerm := character_set_term inverted\<rparr>)"

definition atomCharacterClassAtom :: "nat \<Rightarrow> PatternParser \<Rightarrow> PatternParser option" where
  "atomCharacterClassAtom character p =
     (if hasError p then Some p
      else map_option (\<lambda>t. p\<lparr>m_floatingTerm := t\<rparr>)
             (addCharacter character (m_patternIsCaseSensitive p) (m_floatingTerm p)))"

text \<open>The loop counts from \<open>a\<close> to \<open>b\<close> inclusive and stops at the first crash.\<close>

definition add_characters :: "nat list \<Rightarrow> bool \<Rightarrow> trm \<Rightarrow> trm option" where
  "add_characters cs cased t = fold (\<lambda>c r. Option.bind r (addCharacter c cased)) cs (Some t)"

definition atomCharacterClassRange :: "nat \<Rightarrow> nat \<Rightarrow> PatternParser \<Rightarrow> PatternParser option" where
  "atomCharacterClassRange a b p =
     (if hasError p then Some p
      else map_option (\<lambda>t. p\<lparr>m_floatingTerm := t\<rparr>)
             (add_characters [a..<Suc b] (m_patternIsCaseSensitive p) (m_floatingTerm p)))"

definition atomParenthesesSubpatternBegin :: "PatternParser \<Rightarrow> PatternParser" where
  "atomParenthesesSubpatternBegin p =
     (if hasError p then p
      else let p = sinkFloatingTermIfNecessary p in p\<lparr>m_openGroups := m_openGroups p @ [group_term]\<rparr>)"

definition atomParenthesesEnd :: "PatternParser \<Rightarrow> PatternParser option" where
  "atomParenthesesEnd p =
     (if hasError p then Some p
      else let p = sinkFloatingTermIfNecessary p
           in if m_openGroups p = [] then None
              else Some (p\<lparr>m_floatingTerm := last (m_openGroups p), m_openGroups := butlast (m_openGroups p)\<rparr>))"

fun on_event :: "yarr_event \<Rightarrow> PatternParser \<Rightarrow> PatternParser option" where
  "on_event (AtomPatternCharacter c) p = atomPatternCharacter c p"
| "on_event (AtomBuiltInCharacterClass classID inverted) p = Some (atomBuiltInCharacterClass classID inverted p)"
| "on_event (QuantifyAtom minimum maximum greedy) p = Some (quantifyAtom minimum maximum p)"
| "on_event (AtomBackReference n) p = Some (fail BackReference p)"
| "on_event AssertionBOL p = Some (assertionBOL p)"
| "on_event AssertionEOL p = Some (assertionEOL p)"
| "on_event (AssertionWordBoundary invert) p = Some (fail WordBoundary p)"
| "on_event (AtomCharacterClassBegin inverted) p = Some (atomCharacterClassBegin inverted p)"
| "on_event (AtomCharacterClassAtom c) p = atomCharacterClassAtom c p"
| "on_event (AtomCharacterClassRange a b) p = atomCharacterClassRange a b p"
| "on_event AtomCharacterClassEnd p = Some p"
| "on_event (AtomCharacterClassBuiltIn classID inverted) p = Some (fail AtomCharacter p)"
| "on_event (AtomParenthesesSubpatternBegin capture) p = Some (atomParenthesesSubpatternBegin p)"
| "on_event (AtomParentheticalAssertionBegin invert) p = Some (fail Group p)"
| "on_event AtomParenthesesEnd p = atomParenthesesEnd p"
| "on_event Disjunction p = Some (fail DisjunctionStatus p)"

definition run_events :: "yarr_event list \<Rightarrow> PatternParser \<Rightarrow> PatternParser option" where
  "run_events es p = fold (\<lambda>e r. Option.bind r (on_event e)) es (Some p)"

section \<open>The end of a pattern\<close>

definition canonicalDotStar :: trm where
  "canonicalDotStar = quantify ZeroOrMore universal_transition_term"

text \<open>The loop that replaces every \<open>.*\<close>-like term and removes repetitions.\<close>

fun canonicalize :: "bool \<Rightarrow> trm list \<Rightarrow> trm list" where
  "canonicalize isAfterDotStar [] = []"
| "canonicalize isAfterDotStar (t # ts) =
     (if isAfterDotStar \<and> isKnownToMatchAnyString t then canonicalize isAfterDotStar ts
      else if isKnownToMatchAnyString t then canonicalDotStar # canonicalize True ts
      else t # canonicalize False ts)"

definition remove_trailing :: "trm list \<Rightarrow> trm list" where
  "remove_trailing ts = rev (dropWhile (\<lambda>t. \<not> matchesAtLeastOneCharacter t) (rev ts))"

definition simplify_terms :: "bool \<Rightarrow> trm list \<Rightarrow> trm list" where
  "simplify_terms hasBeginningOfLineAssertion ts =
     (if ts = [] then []
      else
        let ts = canonicalize False ts;
            ts = (if \<not> hasBeginningOfLineAssertion \<and> \<not> isKnownToMatchAnyString (hd ts) then canonicalDotStar # ts else ts);
            ts = (if 2 < length ts \<and> isEndOfLineAssertion (last ts) \<and> isKnownToMatchAnyString (ts ! (length ts - 2))
                  then take (length ts - 2) ts else ts)
        in if isEndOfLineAssertion (last ts) then ts else remove_trailing ts)"

definition simplifySunkTerms :: "PatternParser \<Rightarrow> PatternParser" where
  "simplifySunkTerms p = p\<lparr>m_sunkTerms := simplify_terms (m_hasBeginningOfLineAssertion p) (m_sunkTerms p)\<rparr>"

definition finalize :: "u64 \<Rightarrow> PatternParser \<Rightarrow> PrefixTreeVertex \<Rightarrow> PatternParser \<times> PrefixTreeVertex" where
  "finalize patternId p combinedURLFilters =
     (if hasError p then (p, combinedURLFilters)
      else
        let p = simplifySunkTerms (sinkFloatingTermIfNecessary p)
        in if \<not> list_ex matchesAtLeastOneCharacter (m_sunkTerms p) then (fail MatchesEverything p, combinedURLFilters)
           else (p, addPattern patternId (m_sunkTerms p) combinedURLFilters))"

text \<open>
  \<open>URLFilterParser::addPattern\<close>. The argument \<open>yarr\<close> is \<open>JSC::Yarr::parse\<close> with back reference
  limit 0: the events it sends to the delegate and whether it ends in an error. The result is
  \<open>None\<close> if the delegate crashed.
\<close>

definition addURLFilter ::
  "(nat list \<Rightarrow> yarr_event list \<times> bool) \<Rightarrow> nat list \<Rightarrow> bool \<Rightarrow> u64 \<Rightarrow> PrefixTreeVertex \<Rightarrow>
     (ParseStatus \<times> PrefixTreeVertex) option" where
  "addURLFilter yarr pattern patternIsCaseSensitive patternId combinedURLFilters =
     (if \<not> list_all isASCII pattern then Some (NonASCII, combinedURLFilters)
      else if pattern = [] then Some (EmptyPattern, combinedURLFilters)
      else
        let (events, error) = yarr pattern
        in case run_events events (new_PatternParser patternIsCaseSensitive) of
             None \<Rightarrow> None
           | Some p \<Rightarrow>
               Some (if error then (YarrError, combinedURLFilters)
                     else let (p, combinedURLFilters) = finalize patternId p combinedURLFilters
                          in (m_parseStatus p, combinedURLFilters)))"

fun statusString :: "ParseStatus \<Rightarrow> string" where
  "statusString Ok = ''Ok''"
| "statusString MatchesEverything = ''Matches everything.''"
| "statusString NonASCII = ''Only ASCII characters are supported in pattern.''"
| "statusString UnsupportedCharacterClass = ''Character class is not supported.''"
| "statusString BackReference = ''Patterns cannot contain backreferences.''"
| "statusString MisplacedStartOfLine = ''Start of line assertion can only appear as the first term in a filter.''"
| "statusString WordBoundary = ''Word boundaries assertions are not supported yet.''"
| "statusString AtomCharacter = ''Builtins character class atoms are not supported yet.''"
| "statusString Group = ''Groups are not supported yet.''"
| "statusString DisjunctionStatus = ''Disjunctions are not supported yet.''"
| "statusString MisplacedEndOfLine = ''The end of line assertion must be the last term in an expression.''"
| "statusString EmptyPattern = ''Empty pattern.''"
| "statusString YarrError = ''Internal error in YARR.''"
| "statusString InvalidQuantifier = ''Arbitrary atom repetitions are not supported.''"

end
