(* ===== verification/CE_Filter_Lang.thy ===== *)
theory CE_Filter_Lang
  imports CE_Filter_Parser
begin

text \<open>
  What URL filters match. A URL is a list of characters without NUL; the matcher reads the URL and
  then NUL, and a filter applies as soon as a prefix of that input is in the language of its terms.
  The section on simplification shows that \<open>simplifySunkTerms\<close> keeps this set of URLs, including
  the implicit \<open>.*\<close> in front of an unanchored filter.
\<close>

section \<open>Hits\<close>

definition hits :: "nat list set \<Rightarrow> nat list \<Rightarrow> bool" where
  "hits L url \<longleftrightarrow> (\<exists>n. take n (url @ [0]) \<in> L)"

text \<open>The meaning of a filter: anchored at the start of the URL, or found anywhere in it.\<close>

definition filter_hits :: "bool \<Rightarrow> nat list set \<Rightarrow> nat list \<Rightarrow> bool" where
  "filter_hits anchored L url \<longleftrightarrow>
     (if anchored then hits L url else \<exists>i \<le> length url. \<exists>n. take n (drop i (url @ [0])) \<in> L)"

lemma hits_prefix: "hits L url \<longleftrightarrow> (\<exists>u v. url @ [0] = u @ v \<and> u \<in> L)"
  unfolding hits_def by (metis append_take_drop_id append_eq_conv_conj)

lemma any_prefix:
  assumes "0 \<notin> set url"
  shows "(\<exists>v. url @ [0] = u @ v) \<and> u \<in> any_word \<longleftrightarrow> (\<exists>i \<le> length url. u = take i url)"
proof
  assume "(\<exists>v. url @ [0] = u @ v) \<and> u \<in> any_word"
  then obtain v where v: "url @ [0] = u @ v" and u: "u \<in> any_word" by blast
  then show "\<exists>i \<le> length url. u = take i url"
  proof (cases v rule: rev_cases)
    case Nil
    with v u show ?thesis by (auto simp: any_word_def)
  next
    case (snoc v' x)
    with v have "url = u @ v'" by simp
    then have "u = take (length u) url \<and> length u \<le> length url" by simp
    then show ?thesis by blast
  qed
next
  assume "\<exists>i \<le> length url. u = take i url"
  then obtain i where "u = take i url" by blast
  then have "url @ [0] = u @ (drop i url @ [0]) \<and> u \<in> any_word"
    using assms set_take_subset [of i url] by (auto simp: any_word_def)
  then show "(\<exists>v. url @ [0] = u @ v) \<and> u \<in> any_word" by blast
qed

lemma hits_any_word:
  assumes "0 \<notin> set url"
  shows "hits (conc any_word L) url \<longleftrightarrow> filter_hits False L url"
proof
  assume "hits (conc any_word L) url"
  then obtain x y v where xy: "url @ [0] = x @ y @ v" "x \<in> any_word" "y \<in> L"
    unfolding hits_prefix in_conc by auto
  then obtain i where i: "i \<le> length url" "x = take i url" using any_prefix [OF assms, of x] by blast
  then have "drop i (url @ [0]) = y @ v" using xy(1) by (metis append_eq_conv_conj length_take min.absorb2)
  then have "take (length y) (drop i (url @ [0])) = y" by simp
  with xy(3) have "\<exists>n. take n (drop i (url @ [0])) \<in> L" by metis
  with i(1) show "filter_hits False L url" unfolding filter_hits_def if_False by blast
next
  assume "filter_hits False L url"
  then obtain i n where i: "i \<le> length url" "take n (drop i (url @ [0])) \<in> L" by (auto simp: filter_hits_def)
  have "url @ [0] = take i url @ take n (drop i (url @ [0])) @ drop n (drop i (url @ [0]))"
    using i(1) by (metis append_take_drop_id take_append diff_is_0_eq take_0 append_Nil2)
  moreover have "take i url \<in> any_word" using assms set_take_subset [of i url] by (auto simp: any_word_def)
  ultimately show "hits (conc any_word L) url"
    unfolding hits_prefix in_conc using i(2) by (metis append_assoc)
qed

lemma filter_hits_any: "0 \<notin> set url \<Longrightarrow> filter_hits bol L url \<longleftrightarrow> hits (if bol then L else conc any_word L) url"
  by (auto simp: hits_any_word) (auto simp: filter_hits_def)

lemma hits_optional_tail: "[] \<in> T \<Longrightarrow> hits (conc L T) url \<longleftrightarrow> hits L url"
  unfolding hits_prefix in_conc by (metis append_Nil2 append_assoc)

section \<open>Terms without end-of-line assertions\<close>

text \<open>Character sets that cannot match NUL, and are not taken for an end-of-line assertion.\<close>

fun plain_term :: "trm \<Rightarrow> bool" where
  "plain_term (EmptyTerm q) = False"
| "plain_term (DeletedTerm q) = False"
| "plain_term (CharacterSetTerm q cs) =
     (\<not> isEndOfLineAssertion (CharacterSetTerm q cs) \<and>
      (isUniversalTransition (CharacterSetTerm q cs) \<or> m_inverted cs \<or> \<not> CharacterSet_get cs 0))"
| "plain_term (GroupTerm q ts) = list_all plain_term ts"

text \<open>The end-of-line assertion, possibly quantified.\<close>

fun eol_term :: "trm \<Rightarrow> bool" where
  "eol_term (CharacterSetTerm q cs) = (isEndOfLineAssertion (CharacterSetTerm q cs) \<and> \<not> m_inverted cs)"
| "eol_term _ = False"

lemma plain_any_word: "plain_term t \<Longrightarrow> term_lang t \<subseteq> any_word"
proof (induction t)
  case (CharacterSetTerm q cs)
  have "charset_lang cs \<subseteq> any_word"
  proof (cases "isUniversalTransition (CharacterSetTerm q cs)")
    case True
    with isUniversal_charset show ?thesis by (auto simp: any_word_def)
  next
    case False
    with CharacterSetTerm show ?thesis
      by (cases "m_inverted cs") (auto simp: charset_lang_def any_word_def intro!: gr0I)
  qed
  then show ?case by (simp add: quant_in_any_word)
next
  case (GroupTerm q ts)
  then have "terms_lang ts \<subseteq> any_word"
  proof (induction ts)
    case (Cons t ts)
    then show ?case using conc_in_any_word by simp
  qed (simp add: any_word_def)
  then show ?case by (simp add: quant_in_any_word)
qed simp_all

lemma plain_terms_any_word: "list_all plain_term ts \<Longrightarrow> terms_lang ts \<subseteq> any_word"
proof (induction ts)
  case (Cons t ts)
  then show ?case using conc_in_any_word plain_any_word by simp
qed (simp add: any_word_def)

lemma quant_Nil: "[] \<in> L \<or> q = ZeroOrOne \<or> q = ZeroOrMore \<Longrightarrow> [] \<in> quant_lang q L"
  by (cases q) (auto simp: in_conc star.star_Nil)

lemma plain_optional: "plain_term t \<Longrightarrow> \<not> matchesAtLeastOneCharacter t \<Longrightarrow> [] \<in> term_lang t"
proof (induction t)
  case (CharacterSetTerm q cs)
  then have "q = ZeroOrOne \<or> q = ZeroOrMore"
    by (auto simp: matchesAtLeastOneCharacter.simps split: if_splits)
  then show ?case by (simp add: quant_Nil)
next
  case (GroupTerm q ts)
  show ?case
  proof (cases "q = ZeroOrOne \<or> q = ZeroOrMore")
    case False
    then have "\<forall>t \<in> set ts. \<not> matchesAtLeastOneCharacter t"
      using GroupTerm.prems(2) by (simp add: matchesAtLeastOneCharacter.simps [of "GroupTerm q ts"] list_ex_iff)
    with GroupTerm have "\<forall>t \<in> set ts. [] \<in> term_lang t" by (auto simp: list_all_iff)
    then have "[] \<in> terms_lang ts" by (induction ts) (auto simp: in_conc)
    then show ?thesis by (simp add: quant_Nil)
  qed (simp add: quant_Nil)
qed simp_all

lemma eol_lang: "eol_term t \<Longrightarrow> [0] \<in> term_lang t"
proof (cases t)
  case (CharacterSetTerm q cs)
  assume "eol_term t"
  with CharacterSetTerm have "charset_lang cs = {[0]}" using end_of_line_lang [of q cs] by simp
  with CharacterSetTerm show ?thesis by (simp add: quant_mono)
qed simp_all

lemma plain_not_eol: "plain_term t \<Longrightarrow> \<not> isEndOfLineAssertion t"
  by (cases t) simp_all

section \<open>Simplification keeps the set of matched URLs\<close>

lemma canonicalDotStar_lang: "term_lang canonicalDotStar = any_word"
proof -
  have "isKnownToMatchAnyString canonicalDotStar"
    using universal_transition_term_universal
    by (simp add: canonicalDotStar_def universal_transition_term_def del: isUniversalTransition.simps)
      (simp only: isUniversalTransition.simps)
  then show ?thesis by (rule any_string_lang)
qed

lemma canonicalDotStar_plain: "plain_term canonicalDotStar"
proof -
  have u: "isUniversalTransition canonicalDotStar"
    using universal_transition_term_universal by (simp add: canonicalDotStar_def universal_transition_term_def)
  then obtain q cs where t: "canonicalDotStar = CharacterSetTerm q cs"
    by (simp add: canonicalDotStar_def universal_transition_term_def)
  have "\<not> isEndOfLineAssertion (CharacterSetTerm q cs)" using u unfolding t by auto
  with u show ?thesis unfolding t by (simp del: isEndOfLineAssertion.simps isUniversalTransition.simps)
qed

lemma any_any: "conc any_word (conc any_word L) = conc any_word L"
proof -
  have "conc any_word any_word = any_word"
  proof (rule set_eqI)
    fix w show "w \<in> conc any_word any_word \<longleftrightarrow> w \<in> any_word"
      unfolding in_conc by (metis any_word_append append_Nil)
  qed
  then show ?thesis by (metis conc_assoc)
qed

lemma canonicalize_lang:
  "conc (if after then any_word else {[]}) (terms_lang (canonicalize after ts)) =
   conc (if after then any_word else {[]}) (terms_lang ts)"
proof (induction after ts rule: canonicalize.induct)
  case (2 after t ts)
  show ?case
  proof (cases "isKnownToMatchAnyString t")
    case True
    then have t: "term_lang t = any_word" by (rule any_string_lang)
    show ?thesis
    proof (cases after)
      case True
      with "2.IH"(1) \<open>isKnownToMatchAnyString t\<close> t show ?thesis by (simp add: any_any)
    next
      case False
      with "2.IH"(2) \<open>isKnownToMatchAnyString t\<close> t show ?thesis by (simp add: canonicalDotStar_lang)
    qed
  next
    case False
    with "2.IH"(3) show ?thesis by simp
  qed
qed simp

lemma canonicalize_not_Nil: "ts \<noteq> [] \<Longrightarrow> canonicalize False ts \<noteq> []"
  by (cases ts) auto

lemma canonicalize_set: "t \<in> set (canonicalize after ts) \<Longrightarrow> t = canonicalDotStar \<or> t \<in> set ts"
  by (induction after ts rule: canonicalize.induct) (auto split: if_splits)

lemma canonicalize_snoc:
  "\<not> isKnownToMatchAnyString t \<Longrightarrow> canonicalize after (ts @ [t]) = canonicalize after ts @ [t]"
  by (induction after ts rule: canonicalize.induct) auto

text \<open>A list of terms the parser can produce: plain terms, and an end-of-line assertion at the end.\<close>

definition good_terms :: "trm list \<Rightarrow> bool" where
  "good_terms ts \<longleftrightarrow> ts \<noteq> [] \<and> list_all plain_term (butlast ts) \<and> (plain_term (last ts) \<or> eol_term (last ts))"

lemma good_terms_iff:
  "good_terms ts \<longleftrightarrow> (\<exists>us t. ts = us @ [t] \<and> list_all plain_term us \<and> (plain_term t \<or> eol_term t))"
  unfolding good_terms_def by (cases ts rule: rev_cases) auto

lemma eol_not_known: "eol_term t \<Longrightarrow> \<not> isKnownToMatchAnyString t"
  by (cases t) auto

lemma good_canonicalize:
  assumes "good_terms ts"
  shows "good_terms (canonicalize False ts)"
proof -
  obtain us t where ts: "ts = us @ [t]" "list_all plain_term us" "plain_term t \<or> eol_term t"
    using assms good_terms_iff by blast
  show ?thesis
  proof (cases "plain_term t")
    case True
    with ts have "\<forall>x \<in> set (canonicalize False ts). plain_term x"
      using canonicalize_set canonicalDotStar_plain by (fastforce simp: list_all_iff)
    moreover have "canonicalize False ts \<noteq> []" using ts canonicalize_not_Nil by blast
    ultimately show ?thesis
      unfolding good_terms_def by (auto simp: list_all_iff dest: in_set_butlastD)
  next
    case False
    with ts have e: "eol_term t" by blast
    have "\<forall>x \<in> set (canonicalize False us). plain_term x"
      using canonicalize_set [of _ False us] canonicalDotStar_plain ts(2) by (fastforce simp: list_all_iff)
    with e show ?thesis
      unfolding good_terms_iff ts(1) canonicalize_snoc [OF eol_not_known [OF e]] by (auto simp: list_all_iff)
  qed
qed

lemma hits_remove_trailing:
  assumes "list_all plain_term ts"
  shows "hits (terms_lang (remove_trailing ts)) url \<longleftrightarrow> hits (terms_lang ts) url"
  using assms
proof (induction ts rule: rev_induct)
  case (snoc t ts)
  show ?case
  proof (cases "matchesAtLeastOneCharacter t")
    case True
    then show ?thesis by (simp add: remove_trailing_def)
  next
    case False
    with snoc have "[] \<in> term_lang t" by (simp add: plain_optional)
    with False snoc show ?thesis
      by (simp add: remove_trailing_def terms_lang_append hits_optional_tail)
  qed
qed (simp add: remove_trailing_def)

lemma hits_dot_star_eol:
  assumes url: "0 \<notin> set url" and plain: "list_all plain_term us" and d: "isKnownToMatchAnyString d" and e: "eol_term e"
  shows "hits (terms_lang (us @ [d, e])) url \<longleftrightarrow> hits (terms_lang us) url"
proof
  assume "hits (terms_lang (us @ [d, e])) url"
  then show "hits (terms_lang us) url"
    unfolding hits_prefix by (auto simp: terms_lang_append in_conc) blast
next
  assume "hits (terms_lang us) url"
  then obtain u v where u: "url @ [0] = u @ v" "u \<in> terms_lang us" unfolding hits_prefix by blast
  then have "u \<in> any_word" using plain_terms_any_word [OF plain] by blast
  with u(1) any_prefix [OF url, of u] obtain i where i: "i \<le> length url" "u = take i url" by blast
  have "drop i url \<in> any_word" using url set_drop_subset [of i url] by (auto simp: any_word_def)
  then have "drop i url @ [0] \<in> terms_lang [d, e]"
    using any_string_lang [OF d] eol_lang [OF e] by (auto simp: in_conc)
  then have "u @ drop i url @ [0] \<in> terms_lang (us @ [d, e])"
    using u(2) unfolding terms_lang_append in_conc by blast
  moreover have "url @ [0] = (u @ drop i url @ [0]) @ []" using i by simp
  ultimately show "hits (terms_lang (us @ [d, e])) url" unfolding hits_prefix by blast
qed

text \<open>The step of \<open>simplify_terms\<close> that removes a trailing \<open>.*$\<close>.\<close>

definition drop_dot_star_eol :: "trm list \<Rightarrow> trm list" where
  "drop_dot_star_eol ts =
     (if 2 < length ts \<and> isEndOfLineAssertion (last ts) \<and> isKnownToMatchAnyString (ts ! (length ts - 2))
      then take (length ts - 2) ts else ts)"

lemma drop_dot_star_eol_hits:
  assumes good: "good_terms ts" and url: "0 \<notin> set url"
  shows "hits (terms_lang (drop_dot_star_eol ts)) url \<longleftrightarrow> hits (terms_lang ts) url" and "good_terms (drop_dot_star_eol ts)"
proof -
  obtain us t where t2: "ts = us @ [t]" "list_all plain_term us" "plain_term t \<or> eol_term t"
    using good good_terms_iff by blast
  have "(hits (terms_lang (drop_dot_star_eol ts)) url \<longleftrightarrow> hits (terms_lang ts) url) \<and> good_terms (drop_dot_star_eol ts)"
  proof (cases "2 < length ts \<and> isEndOfLineAssertion (last ts) \<and> isKnownToMatchAnyString (ts ! (length ts - 2))")
    case True
    then have c: "2 < length (us @ [t])" "isEndOfLineAssertion t" "isKnownToMatchAnyString ((us @ [t]) ! (length (us @ [t]) - 2))"
      unfolding t2(1) by simp_all
    then obtain vs d where us: "us = vs @ [d]" by (cases us rule: rev_cases) auto
    with c have vs: "vs \<noteq> []" "isKnownToMatchAnyString d" "eol_term t"
      using t2(3) plain_not_eol by (auto simp: nth_append)
    have "drop_dot_star_eol ts = vs" using True unfolding drop_dot_star_eol_def t2(1) us by simp
    moreover have "hits (terms_lang (vs @ [d, t])) url \<longleftrightarrow> hits (terms_lang vs) url"
      by (rule hits_dot_star_eol) (use url t2 us vs in auto)
    moreover have "good_terms vs"
      using vs(1) t2(2) us by (cases vs rule: rev_cases) (auto simp: good_terms_def)
    ultimately show ?thesis unfolding t2(1) us by simp
  next
    case False
    then have "drop_dot_star_eol ts = ts" unfolding drop_dot_star_eol_def by (rule if_not_P)
    with good show ?thesis by simp
  qed
  then show "hits (terms_lang (drop_dot_star_eol ts)) url \<longleftrightarrow> hits (terms_lang ts) url" "good_terms (drop_dot_star_eol ts)"
    by blast+
qed

lemma simplify_hits:
  assumes good: "good_terms ts" and url: "0 \<notin> set url"
  shows "hits (terms_lang (simplify_terms bol ts)) url \<longleftrightarrow> filter_hits bol (terms_lang ts) url"
proof -
  have ne: "ts \<noteq> []" using good by (simp add: good_terms_def)
  define t1 where "t1 = canonicalize False ts"
  define t2 where "t2 = (if \<not> bol \<and> \<not> isKnownToMatchAnyString (hd t1) then canonicalDotStar # t1 else t1)"
  define t3 where "t3 = drop_dot_star_eol t2"
  have L1: "terms_lang t1 = terms_lang ts" using canonicalize_lang [of False ts] by (simp add: t1_def)
  have g1: "good_terms t1" unfolding t1_def by (rule good_canonicalize [OF good])
  then have ne1: "t1 \<noteq> []" by (simp add: good_terms_def)
  have L2: "hits (terms_lang t2) url \<longleftrightarrow> filter_hits bol (terms_lang ts) url"
  proof (cases "bol \<or> \<not> isKnownToMatchAnyString (hd t1)")
    case True
    then show ?thesis by (auto simp: filter_hits_any [OF url] L1 canonicalDotStar_lang t2_def)
  next
    case False
    obtain d us where t1: "t1 = d # us" using ne1 by (cases t1) auto
    with False have "term_lang d = any_word" by (simp add: any_string_lang)
    then have "conc any_word (terms_lang t1) = terms_lang t1" by (simp add: t1 any_any)
    with False show ?thesis by (simp add: filter_hits_any [OF url] L1 t2_def)
  qed
  have g2: "good_terms t2" using g1 ne1 canonicalDotStar_plain by (simp add: good_terms_def t2_def)
  note L3 = drop_dot_star_eol_hits [OF g2 url, folded t3_def]
  have res: "simplify_terms bol ts = (if isEndOfLineAssertion (last t3) then t3 else remove_trailing t3)"
    using ne by (simp only: simplify_terms_def Let_def if_False t1_def t2_def t3_def drop_dot_star_eol_def)
  show ?thesis
  proof (cases "isEndOfLineAssertion (last t3)")
    case True
    with res L3 L2 show ?thesis by simp
  next
    case False
    then have "list_all plain_term t3"
      using L3(2) unfolding good_terms_iff by (auto elim: eol_term.elims)
    with res L3 L2 False show ?thesis by (simp add: hits_remove_trailing)
  qed
qed

end
