(* ===== verification/CE_Filter_Sem.thy ===== *)
theory CE_Filter_Sem
  imports CE_Filter_Lang
begin

text \<open>
  The supported regular expressions and their meaning, and the proof that \<open>PatternParser\<close> gives
  the tokens of such an expression the terms of the same language.

  \<open>rx\<close> is the syntax the URL filter language supports; \<open>rx_events\<close> are the calls Yarr makes for
  it, \<open>rx_lang\<close> is what it matches.
\<close>

section \<open>Regular expressions of URL filters\<close>

datatype class_item = ItemAtom nat | ItemRange nat nat

datatype rx = RxChar nat | RxAny | RxClass bool "class_item list" | RxGroup "rxq list"
  and rxq = RxQ rx AtomQuantifier

record url_filter =
  rx_anchored :: bool
  rx_pieces :: "rxq list"
  rx_eol :: bool

fun item_event :: "class_item \<Rightarrow> yarr_event" where
  "item_event (ItemAtom a) = AtomCharacterClassAtom a"
| "item_event (ItemRange a b) = AtomCharacterClassRange a b"

fun quant_events :: "AtomQuantifier \<Rightarrow> yarr_event list" where
  "quant_events One = []"
| "quant_events ZeroOrOne = [QuantifyAtom 0 1 True]"
| "quant_events ZeroOrMore = [QuantifyAtom 0 quantifyInfinite True]"
| "quant_events OneOrMore = [QuantifyAtom 1 quantifyInfinite True]"

primrec rx_events :: "rx \<Rightarrow> yarr_event list" and rxq_events :: "rxq \<Rightarrow> yarr_event list" where
  "rx_events (RxChar c) = [AtomPatternCharacter c]"
| "rx_events RxAny = [AtomBuiltInCharacterClass NewlineClassID True]"
| "rx_events (RxClass inverted items) =
     AtomCharacterClassBegin inverted # map item_event items @ [AtomCharacterClassEnd]"
| "rx_events (RxGroup ps) =
     AtomParenthesesSubpatternBegin True # concat (map rxq_events ps) @ [AtomParenthesesEnd]"
| "rxq_events (RxQ r q) = rx_events r @ quant_events q"

definition filter_events :: "url_filter \<Rightarrow> yarr_event list" where
  "filter_events f = (if rx_anchored f then [AssertionBOL] else []) @ concat (map rxq_events (rx_pieces f)) @
     (if rx_eol f then [AssertionEOL] else [])"

fun valid_item :: "class_item \<Rightarrow> bool" where
  "valid_item (ItemAtom a) = (0 < a \<and> a < 128)"
| "valid_item (ItemRange a b) = (0 < a \<and> a \<le> b \<and> b < 128)"

primrec valid_rx :: "rx \<Rightarrow> bool" and valid_rxq :: "rxq \<Rightarrow> bool" where
  "valid_rx (RxChar c) = (0 < c \<and> c < 128)"
| "valid_rx RxAny = True"
| "valid_rx (RxClass inverted items) = list_all valid_item items"
| "valid_rx (RxGroup ps) = (ps \<noteq> [] \<and> list_all id (map valid_rxq ps))"
| "valid_rxq (RxQ r q) = valid_rx r"

definition valid_filter :: "url_filter \<Rightarrow> bool" where
  "valid_filter f \<longleftrightarrow> list_all valid_rxq (rx_pieces f) \<and> (rx_pieces f \<noteq> [] \<or> rx_eol f)"

fun item_matches :: "bool \<Rightarrow> nat \<Rightarrow> class_item \<Rightarrow> bool" where
  "item_matches cased d (ItemAtom a) = same_character cased a d"
| "item_matches cased d (ItemRange a b) = (\<exists>c \<in> {a..b}. same_character cased c d)"

text \<open>An inverted class with no items is any character; other classes are about ASCII.\<close>

definition class_lang :: "bool \<Rightarrow> bool \<Rightarrow> class_item list \<Rightarrow> nat list set" where
  "class_lang cased inverted items =
     {[d] | d. d \<noteq> 0 \<and> (if inverted \<and> items = [] then True
                    else d < 128 \<and> (inverted \<longleftrightarrow> \<not> list_ex (item_matches cased d) items))}"

primrec rx_lang :: "bool \<Rightarrow> rx \<Rightarrow> nat list set" and rxq_lang :: "bool \<Rightarrow> rxq \<Rightarrow> nat list set" where
  "rx_lang cased (RxChar c) = {[d] | d. same_character cased c d}"
| "rx_lang cased RxAny = {[d] | d. d \<noteq> 0}"
| "rx_lang cased (RxClass inverted items) = class_lang cased inverted items"
| "rx_lang cased (RxGroup ps) = foldr conc (map (rxq_lang cased) ps) {[]}"
| "rxq_lang cased (RxQ r q) = quant_lang q (rx_lang cased r)"

definition rxs_lang :: "bool \<Rightarrow> rxq list \<Rightarrow> nat list set" where
  "rxs_lang cased ps = foldr conc (map (rxq_lang cased) ps) {[]}"

definition filter_lang :: "bool \<Rightarrow> url_filter \<Rightarrow> nat list set" where
  "filter_lang cased f = conc (rxs_lang cased (rx_pieces f)) (if rx_eol f then {[0]} else {[]})"

lemma rxs_lang_simps [simp]:
  "rxs_lang cased [] = {[]}" "rxs_lang cased (p # ps) = conc (rxq_lang cased p) (rxs_lang cased ps)"
  "rx_lang cased (RxGroup ps) = rxs_lang cased ps"
  by (simp_all add: rxs_lang_def)

section \<open>Character classes\<close>

lemma add_characters_Cons [simp]:
  "add_characters [] cased t = Some t"
  "add_characters (c # cs) cased t = Option.bind (addCharacter c cased t) (add_characters cs cased)"
proof -
  have "fold (\<lambda>c r. Option.bind r (addCharacter c cased)) cs None = None" for cs
    by (induction cs) auto
  then show "add_characters (c # cs) cased t = Option.bind (addCharacter c cased t) (add_characters cs cased)"
    by (cases "addCharacter c cased t") (auto simp: add_characters_def)
qed (simp add: add_characters_def)

lemma add_characters_get:
  "\<forall>c \<in> set cs. c < 128 \<Longrightarrow>
     \<exists>k'. add_characters cs cased (CharacterSetTerm q k) = Some (CharacterSetTerm q k') \<and>
     m_inverted k' = m_inverted k \<and>
     (\<forall>d < 128. CharacterSet_get k' d \<longleftrightarrow> (\<exists>c \<in> set cs. same_character cased c d) \<or> CharacterSet_get k d)"
proof (induction cs arbitrary: k)
  case (Cons c cs)
  then obtain k1 where k1: "addCharacter c cased (CharacterSetTerm q k) = Some (CharacterSetTerm q k1)"
    "m_inverted k1 = m_inverted k"
    "\<forall>d < 128. CharacterSet_get k1 d \<longleftrightarrow> same_character cased c d \<or> CharacterSet_get k d"
    using addCharacter_get [of c cased q k] by auto
  from Cons.IH [of k1] Cons.prems obtain k2 where
    "add_characters cs cased (CharacterSetTerm q k1) = Some (CharacterSetTerm q k2)" "m_inverted k2 = m_inverted k1"
    "\<forall>d < 128. CharacterSet_get k2 d \<longleftrightarrow> (\<exists>c \<in> set cs. same_character cased c d) \<or> CharacterSet_get k1 d" by auto
  with k1 show ?case by (auto simp del: addCharacter.simps)
qed simp

fun item_chars :: "class_item \<Rightarrow> nat list" where
  "item_chars (ItemAtom a) = [a]"
| "item_chars (ItemRange a b) = [a..<Suc b]"

lemma item_matches_chars: "item_matches cased d i \<longleftrightarrow> (\<exists>c \<in> set (item_chars i). same_character cased c d)"
  by (cases i) (auto simp del: upt_Suc)

lemma run_events_simps [simp]:
  "run_events [] p = Some p"
  "run_events (e # es) p = Option.bind (on_event e p) (run_events es)"
proof -
  have "fold (\<lambda>e r. Option.bind r (on_event e)) es None = None" for es by (induction es) auto
  then show "run_events (e # es) p = Option.bind (on_event e p) (run_events es)"
    by (cases "on_event e p") (auto simp: run_events_def)
qed (simp add: run_events_def)

lemma run_events_append [simp]: "run_events (es @ fs) p = Option.bind (run_events es p) (run_events fs)"
  by (induction es arbitrary: p) (auto split: Option.bind_split)

lemma item_event_run:
  assumes "valid_item i" "\<not> hasError p"
  shows "on_event (item_event i) p =
     map_option (\<lambda>t. p\<lparr>m_floatingTerm := t\<rparr>) (add_characters (item_chars i) (m_patternIsCaseSensitive p) (m_floatingTerm p))"
  using assms by (cases i) (auto simp: atomCharacterClassAtom_def atomCharacterClassRange_def simp del: upt_Suc
      split: Option.bind_split)

lemma items_run:
  assumes "list_all valid_item items" "\<not> hasError p" "m_floatingTerm p = CharacterSetTerm q k"
    "cased = m_patternIsCaseSensitive p"
  shows "\<exists>k'. run_events (map item_event items) p = Some (p\<lparr>m_floatingTerm := CharacterSetTerm q k'\<rparr>) \<and>
     m_inverted k' = m_inverted k \<and>
     (\<forall>d < 128. CharacterSet_get k' d \<longleftrightarrow> list_ex (item_matches cased d) items \<or> CharacterSet_get k d)"
  using assms
proof (induction items arbitrary: p k)
  case Nil
  then show ?case by (cases p) auto
next
  case (Cons i items)
  have "\<forall>c \<in> set (item_chars i). c < 128" using Cons.prems(1) by (cases i) (auto simp del: upt_Suc)
  from add_characters_get [OF this, of cased q k] obtain k1 where k1:
    "add_characters (item_chars i) cased (CharacterSetTerm q k) = Some (CharacterSetTerm q k1)" "m_inverted k1 = m_inverted k"
    "\<forall>d < 128. CharacterSet_get k1 d \<longleftrightarrow> item_matches cased d i \<or> CharacterSet_get k d"
    by (auto simp: item_matches_chars)
  let ?p = "p\<lparr>m_floatingTerm := CharacterSetTerm q k1\<rparr>"
  have e: "on_event (item_event i) p = Some ?p" using item_event_run [of i p] Cons.prems k1 by simp
  have "\<exists>k'. run_events (map item_event items) ?p = Some (?p\<lparr>m_floatingTerm := CharacterSetTerm q k'\<rparr>) \<and>
     m_inverted k' = m_inverted k1 \<and>
     (\<forall>d < 128. CharacterSet_get k' d \<longleftrightarrow> list_ex (item_matches cased d) items \<or> CharacterSet_get k1 d)"
    by (rule Cons.IH) (use Cons.prems in \<open>auto simp: hasError_def\<close>)
  with e k1 show ?case by auto
qed

lemma same_character_0: "0 < c \<Longrightarrow> c < 128 \<Longrightarrow> \<not> same_character cased c 0"
  by (auto simp: same_character_def toASCIILower_eq isASCIIUpper_def)

lemma item_matches_0: "valid_item i \<Longrightarrow> \<not> item_matches cased 0 i"
  by (cases i) (auto simp: same_character_0)

lemma same_character_refl: "same_character cased c c"
  by (simp add: same_character_def)

lemma item_matches_some: "valid_item i \<Longrightarrow> \<exists>d < 128. item_matches cased d i"
proof (cases i)
  case (ItemRange a b)
  assume "valid_item i"
  with ItemRange have "a < 128 \<and> item_matches cased a i" using same_character_refl [of cased a] by fastforce
  then show ?thesis by blast
qed (use same_character_refl in auto)

lemma class_term:
  assumes "list_all valid_item items" "m_inverted k = inverted"
    and get: "\<forall>d < 128. CharacterSet_get k d \<longleftrightarrow> list_ex (item_matches cased d) items"
  shows "charset_lang k = class_lang cased inverted items" "plain_term (CharacterSetTerm q k)"
proof -
  have zero: "\<not> CharacterSet_get k 0" using get assms(1) item_matches_0 by (auto simp: list_ex_iff list_all_iff)
  have some: "items \<noteq> [] \<Longrightarrow> \<exists>d < 128. CharacterSet_get k d"
  proof (cases items)
    case (Cons i js)
    then obtain d where "d < 128" "item_matches cased d i" using assms(1) item_matches_some by auto
    with Cons get show ?thesis by auto
  qed simp
  have univ: "isUniversalTransition (CharacterSetTerm One k) \<longleftrightarrow> inverted \<and> items = []"
  proof (cases inverted)
    case True
    then show ?thesis unfolding isUniversal_iff using some get assms(2) by (cases "items = []") auto
  next
    case False
    have "(0::nat) < 128" by simp
    with False zero show ?thesis unfolding isUniversal_iff assms(2) by blast
  qed
  show "charset_lang k = class_lang cased inverted items"
  proof (cases "inverted \<and> items = []")
    case True
    with univ show ?thesis by (simp add: charset_lang_def class_lang_def)
  next
    case False
    then have nu: "\<not> isUniversalTransition (CharacterSetTerm One k)" using univ by blast
    show ?thesis
    proof (cases inverted)
      case True
      with nu False get assms(2) show ?thesis
        by (auto simp: charset_lang_def class_lang_def simp del: isUniversalTransition.simps)
    next
      case False
      have "d \<noteq> 0" if "d < 128" "CharacterSet_get k d" for d using that zero by (cases d) auto
      with nu False get assms(2) show ?thesis
        by (auto simp: charset_lang_def class_lang_def simp del: isUniversalTransition.simps)
    qed
  qed
  show "plain_term (CharacterSetTerm q k)" using zero by simp
qed

section \<open>The parser gives every expression its terms\<close>

text \<open>The parser has no error, has seen no end-of-line assertion, and its floating term is plain.\<close>

definition ready :: "PatternParser \<Rightarrow> bool" where
  "ready p \<longleftrightarrow> \<not> hasError p \<and> \<not> m_hasProcessedEndOfLineAssertion p \<and>
     (m_floatingTerm p = empty_term \<or> isValid (m_floatingTerm p) \<and> plain_term (m_floatingTerm p)) \<and>
     list_all (\<lambda>g. \<exists>q ts. g = GroupTerm q ts) (m_openGroups p)"

abbreviation flush :: "PatternParser \<Rightarrow> PatternParser" where
  "flush \<equiv> sinkFloatingTermIfNecessary"

text \<open>Where sunk terms go: to the innermost open group, or to the top level.\<close>

definition push :: "trm list \<Rightarrow> PatternParser \<Rightarrow> PatternParser" where
  "push ts p =
     (if m_openGroups p \<noteq> []
      then p\<lparr>m_openGroups := butlast (m_openGroups p) @ [fold extendGroupSubpattern ts (last (m_openGroups p))]\<rparr>
      else p\<lparr>m_sunkTerms := m_sunkTerms p @ ts\<rparr>)"

lemma push_append: "push (ts @ us) p = push us (push ts p)"
  by (simp add: push_def)

lemma push_Nil [simp]: "push [] p = p"
  by (cases p) (auto simp: push_def)

lemma extend_group: "fold extendGroupSubpattern ts (GroupTerm q us) = GroupTerm q (us @ ts)"
  by (induction ts arbitrary: us) auto

lemma isValid_simps [simp]: "\<not> isValid empty_term" "isValid (CharacterSetTerm q k)" "isValid (GroupTerm q ts)"
  by (auto simp: isValid_def empty_term_def)

lemma flush_flushed: "\<not> isValid (m_floatingTerm p) \<Longrightarrow> flush p = p"
  by (simp add: sinkFloatingTermIfNecessary_def)

lemma flush_valid:
  assumes "ready p" "isValid (m_floatingTerm p)"
  shows "flush p = (push [m_floatingTerm p] p)\<lparr>m_floatingTerm := empty_term\<rparr>"
  using assms by (auto simp: sinkFloatingTermIfNecessary_def ready_def push_def plain_not_eol)

lemma extend_is_group: "\<exists>q ts. g = GroupTerm q ts \<Longrightarrow> \<exists>q ts. extendGroupSubpattern t g = GroupTerm q ts"
  by auto

lemma flush_ready:
  assumes "ready p"
  shows "ready (flush p)" "m_floatingTerm (flush p) = empty_term"
    "m_patternIsCaseSensitive (flush p) = m_patternIsCaseSensitive p"
    "m_hasBeginningOfLineAssertion (flush p) = m_hasBeginningOfLineAssertion p"
    "\<not> hasError (flush p)"
proof -
  have "ready (flush p) \<and> m_floatingTerm (flush p) = empty_term \<and>
    m_patternIsCaseSensitive (flush p) = m_patternIsCaseSensitive p \<and>
    m_hasBeginningOfLineAssertion (flush p) = m_hasBeginningOfLineAssertion p"
  proof (cases "isValid (m_floatingTerm p)")
    case True
    with assms show ?thesis
      unfolding flush_valid [OF assms True]
      by (cases "m_openGroups p" rule: rev_cases) (auto simp: push_def ready_def hasError_def)
  next
    case False
    with assms show ?thesis by (auto simp: flush_flushed ready_def)
  qed
  then show "ready (flush p)" "m_floatingTerm (flush p) = empty_term"
    "m_patternIsCaseSensitive (flush p) = m_patternIsCaseSensitive p"
    "m_hasBeginningOfLineAssertion (flush p) = m_hasBeginningOfLineAssertion p"
    "\<not> hasError (flush p)" by (auto simp: ready_def)
qed

text \<open>After one piece, the parser is where it was with the piece's term floating.\<close>

definition floats :: "PatternParser \<Rightarrow> PatternParser \<Rightarrow> trm \<Rightarrow> bool" where
  "floats p p' t \<longleftrightarrow> p' = (flush p)\<lparr>m_floatingTerm := t\<rparr>"

definition term_of :: "bool \<Rightarrow> nat list set \<Rightarrow> trm \<Rightarrow> bool" where
  "term_of cased L t \<longleftrightarrow> isValid t \<and> term_lang t = L \<and> plain_term t \<and> proper_term t"

lemma floats_ready: "ready p \<Longrightarrow> floats p p' t \<Longrightarrow> term_of cased L t \<Longrightarrow> ready p'"
  using flush_ready [of p] by (auto simp: floats_def term_of_def ready_def hasError_def)

lemma quantified_term_lang: "m_quantifier t = One \<Longrightarrow> isValid t \<Longrightarrow> term_lang (quantify q t) = quant_lang q (term_lang t)"
  by (cases t) (auto simp: isValid_def)

lemma quantified_term:
  assumes "m_quantifier t = One" "term_of cased L t"
  shows "term_of cased (quant_lang q L) (quantify q t)"
  using assms quantified_term_lang [of t q]
  by (cases t) (auto simp: term_of_def)

lemma quant_events_run:
  assumes "\<not> hasError p" "isValid (m_floatingTerm p)" "m_quantifier (m_floatingTerm p) = One"
  shows "run_events (quant_events q) p = Some (p\<lparr>m_floatingTerm := quantify q (m_floatingTerm p)\<rparr>)"
proof -
  have "quantify One (m_floatingTerm p) = m_floatingTerm p" using assms(3) by (cases "m_floatingTerm p") auto
  then show ?thesis
    using assms by (cases q) (auto simp: quantifyAtom_def quantifyInfinite_def)
qed

lemma list_all_id_map: "list_all id (map f xs) \<longleftrightarrow> list_all f xs"
  by (simp add: list_all_iff)

text \<open>Groups and sequences: the terms of a sequence are sunk in order.\<close>

definition sinks :: "PatternParser \<Rightarrow> PatternParser \<Rightarrow> trm list \<Rightarrow> bool" where
  "sinks p p' ts \<longleftrightarrow> ready p' \<and> flush p' = push ts (flush p)"

lemma floats_sinks:
  assumes "ready p" "floats p p' t" "term_of cased L t"
  shows "sinks p p' [t]"
proof -
  note r = floats_ready [OF assms]
  have t: "isValid t" using assms(3) by (simp add: term_of_def)
  then have "flush p' = (push [t] p')\<lparr>m_floatingTerm := empty_term\<rparr>"
    using flush_valid [OF r] assms(2) by (simp add: floats_def)
  also have "\<dots> = push [t] (flush p)"
    using flush_ready(2) [OF assms(1)] assms(2) by (cases "flush p") (auto simp: floats_def push_def)
  finally show ?thesis using r by (simp add: sinks_def)
qed

lemma sinks_trans: "sinks p p1 ts \<Longrightarrow> sinks p1 p2 us \<Longrightarrow> sinks p p2 (ts @ us)"
  by (simp add: sinks_def push_append)

lemma sinks_refl: "ready p \<Longrightarrow> sinks p p []"
  by (simp add: sinks_def)

lemma push_keeps [simp]:
  "m_floatingTerm (push ts p) = m_floatingTerm p" "m_parseStatus (push ts p) = m_parseStatus p"
  "m_hasProcessedEndOfLineAssertion (push ts p) = m_hasProcessedEndOfLineAssertion p"
  "m_patternIsCaseSensitive (push ts p) = m_patternIsCaseSensitive p"
  "m_hasBeginningOfLineAssertion (push ts p) = m_hasBeginningOfLineAssertion p"
  by (simp_all add: push_def)

lemma sinks_flags:
  assumes "ready p" "sinks p p' ts"
  shows "m_patternIsCaseSensitive p' = m_patternIsCaseSensitive p"
    "m_hasBeginningOfLineAssertion p' = m_hasBeginningOfLineAssertion p"
  using flush_ready [OF assms(1)] flush_ready [of p'] assms(2) by (auto simp: sinks_def)

text \<open>Single characters, the dot and classes.\<close>

lemma new_CharacterSet_inverted: "\<not> m_inverted new_CharacterSet"
  by (simp add: new_CharacterSet_def)

lemma run_char:
  assumes "ready p" "0 < c" "c < 128" "cased = m_patternIsCaseSensitive p"
  shows "\<exists>p' t. on_event (AtomPatternCharacter c) p = Some p' \<and> floats p p' t \<and>
     term_of cased {[d] | d. same_character cased c d} t \<and> m_quantifier t = One"
proof -
  obtain k where k: "addCharacter c cased (CharacterSetTerm One new_CharacterSet) = Some (CharacterSetTerm One k)"
    "m_inverted k = False" "\<forall>d < 128. CharacterSet_get k d \<longleftrightarrow> same_character cased c d"
    using addCharacter_get [OF assms(3), of cased One new_CharacterSet] by (auto simp: new_CharacterSet_inverted simp del: addCharacter.simps)
  have lt: "d < 128" if "same_character cased c d" for d
    using that assms by (auto simp: same_character_def toASCIILower_eq isASCIIUpper_def split: if_splits)
  have nz: "d \<noteq> 0" if "same_character cased c d" for d
    using that same_character_0 [OF assms(2,3), of cased] by metis
  have "class_lang cased False [ItemAtom c] = {[d] | d. same_character cased c d}"
    using lt nz by (auto simp: class_lang_def)
  moreover have "list_all valid_item [ItemAtom c]" using assms by simp
  ultimately have "term_of cased {[d] | d. same_character cased c d} (CharacterSetTerm One k)"
    using class_term(1) [of "[ItemAtom c]" k False cased] class_term(2) [of "[ItemAtom c]" k False cased One] k by (simp add: term_of_def)
  moreover have "on_event (AtomPatternCharacter c) p = Some ((flush p)\<lparr>m_floatingTerm := CharacterSetTerm One k\<rparr>)"
    using assms k flush_ready [OF assms(1)]
    by (simp add: atomPatternCharacter_def isASCII_def character_term_def ready_def Let_def del: addCharacter.simps)
  ultimately show ?thesis by (auto simp: floats_def)
qed

lemma run_any:
  assumes "ready p"
  shows "\<exists>p' t. on_event (AtomBuiltInCharacterClass NewlineClassID True) p = Some p' \<and> floats p p' t \<and>
     term_of cased {[d] | d. d \<noteq> 0} t \<and> m_quantifier t = One"
proof -
  obtain k where k: "universal_transition_term = CharacterSetTerm One k" by (simp add: universal_transition_term_def)
  have u: "isUniversalTransition (CharacterSetTerm One k)" using universal_transition_term_universal k by simp
  have "plain_term (CharacterSetTerm One k)" using u by auto
  with isUniversal_charset [OF u] have "term_of cased {[d] | d. d \<noteq> 0} (CharacterSetTerm One k)"
    by (simp add: term_of_def del: plain_term.simps)
  moreover have "on_event (AtomBuiltInCharacterClass NewlineClassID True) p =
      Some ((flush p)\<lparr>m_floatingTerm := CharacterSetTerm One k\<rparr>)"
    using assms flush_ready [OF assms(1)]
    by (simp add: atomBuiltInCharacterClass_def ready_def Let_def k)
  ultimately show ?thesis by (auto simp: floats_def)
qed

lemma run_class:
  assumes "ready p" "list_all valid_item items" "cased = m_patternIsCaseSensitive p"
  shows "\<exists>p' t. run_events (rx_events (RxClass inverted items)) p = Some p' \<and> floats p p' t \<and>
     term_of cased (class_lang cased inverted items) t \<and> m_quantifier t = One"
proof -
  let ?k = "if inverted then CharacterSet_invert new_CharacterSet else new_CharacterSet"
  let ?p = "(flush p)\<lparr>m_floatingTerm := CharacterSetTerm One ?k\<rparr>"
  have start: "on_event (AtomCharacterClassBegin inverted) p = Some ?p"
    using assms(1) by (simp add: atomCharacterClassBegin_def character_set_term_def ready_def)
  have k: "m_inverted ?k = inverted" "\<And>d. \<not> CharacterSet_get ?k d"
    by (simp_all add: CharacterSet_invert_def new_CharacterSet_def CharacterSet_get_def)
  obtain k' where k': "run_events (map item_event items) ?p = Some (?p\<lparr>m_floatingTerm := CharacterSetTerm One k'\<rparr>)"
    "m_inverted k' = inverted" "\<forall>d < 128. CharacterSet_get k' d \<longleftrightarrow> list_ex (item_matches cased d) items"
    using items_run [OF assms(2), of ?p One ?k cased] flush_ready [OF assms(1)] assms(3) k
    by (auto simp: hasError_def)
  have "term_of cased (class_lang cased inverted items) (CharacterSetTerm One k')"
    using class_term(1) [OF assms(2) k'(2,3)] class_term(2) [OF assms(2) k'(2,3), of One] by (simp add: term_of_def)
  with start k'(1) show ?thesis by (auto simp: floats_def)
qed

lemma group_end:
  assumes "ready p" and s: "sinks ((flush p)\<lparr>m_openGroups := m_openGroups (flush p) @ [group_term]\<rparr>) p2 ts"
  shows "on_event AtomParenthesesEnd p2 = Some ((flush p)\<lparr>m_floatingTerm := GroupTerm One ts\<rparr>)"
proof -
  let ?p1 = "(flush p)\<lparr>m_openGroups := m_openGroups (flush p) @ [group_term]\<rparr>"
  have "flush ?p1 = ?p1" using flush_ready(2) [OF assms(1)] by (simp add: flush_flushed)
  with s have f: "flush p2 = push ts ?p1" and e: "\<not> hasError p2" by (auto simp: sinks_def ready_def)
  have "push ts ?p1 = (flush p)\<lparr>m_openGroups := m_openGroups (flush p) @ [GroupTerm One ts]\<rparr>"
    by (simp add: push_def group_term_def extend_group)
  with f e show ?thesis
    using flush_ready(2) [OF assms(1)] by (cases "flush p") (simp add: atomParenthesesEnd_def)
qed

lemma rx_run:
  "valid_rx r \<Longrightarrow> ready p \<Longrightarrow> m_patternIsCaseSensitive p = cased \<Longrightarrow>
     \<exists>p' t. run_events (rx_events r) p = Some p' \<and> floats p p' t \<and> term_of cased (rx_lang cased r) t \<and> m_quantifier t = One"
  "valid_rxq rq \<Longrightarrow> ready p \<Longrightarrow> m_patternIsCaseSensitive p = cased \<Longrightarrow>
     \<exists>p' t. run_events (rxq_events rq) p = Some p' \<and> floats p p' t \<and> term_of cased (rxq_lang cased rq) t"
proof (induction r and rq arbitrary: p and p)
  case (RxChar c)
  then show ?case using run_char [of p c cased] by auto
next
  case RxAny
  then show ?case using run_any [of p cased] by auto
next
  case (RxClass inverted items)
  then show ?case using run_class [of p items cased inverted] by simp
next
  case (RxGroup ps)
  have seq: "\<exists>p' ts. run_events (concat (map rxq_events qs)) p = Some p' \<and> sinks p p' ts \<and> length ts = length qs \<and>
      terms_lang ts = rxs_lang cased qs \<and> list_all plain_term ts \<and> list_all proper_term ts"
    if "set qs \<subseteq> set ps" "ready p" "m_patternIsCaseSensitive p = cased" for qs p
    using that
  proof (induction qs arbitrary: p)
    case Nil
    then show ?case using sinks_refl by auto
  next
    case (Cons q qs)
    obtain p1 t where p1: "run_events (rxq_events q) p = Some p1" "floats p p1 t" "term_of cased (rxq_lang cased q) t"
      using RxGroup.IH [of q p] RxGroup.prems(1) Cons.prems by (auto simp: list_all_iff)
    have s1: "sinks p p1 [t]" by (rule floats_sinks [OF Cons.prems(2) p1(2,3)])
    then have r1: "ready p1" "m_patternIsCaseSensitive p1 = cased"
      using sinks_flags [OF Cons.prems(2) s1] Cons.prems by (auto simp: sinks_def)
    obtain p2 ts where p2: "run_events (concat (map rxq_events qs)) p1 = Some p2" "sinks p1 p2 ts" "length ts = length qs"
      "terms_lang ts = rxs_lang cased qs" "list_all plain_term ts" "list_all proper_term ts"
      using Cons.IH [OF _ r1] Cons.prems by auto
    have "sinks p p2 (t # ts)" using sinks_trans [OF s1 p2(2)] by simp
    moreover have "run_events (concat (map rxq_events (q # qs))) p = Some p2" using p1(1) p2(1) by simp
    ultimately show ?case
      using p1(3) p2(3-) by (intro exI [of _ p2] exI [of _ "t # ts"]) (simp add: term_of_def)
  qed
  let ?p1 = "(flush p)\<lparr>m_openGroups := m_openGroups (flush p) @ [group_term]\<rparr>"
  have "on_event (AtomParenthesesSubpatternBegin True) p = Some ?p1"
    using RxGroup.prems(2) by (simp add: atomParenthesesSubpatternBegin_def ready_def Let_def)
  moreover have "ready ?p1" "m_patternIsCaseSensitive ?p1 = cased"
    using flush_ready [OF RxGroup.prems(2)] RxGroup.prems(3) by (auto simp: ready_def hasError_def group_term_def)
  then obtain p2 ts where p2: "run_events (concat (map rxq_events ps)) ?p1 = Some p2" "sinks ?p1 p2 ts" "length ts = length ps"
      "terms_lang ts = rxs_lang cased ps" "list_all plain_term ts" "list_all proper_term ts"
    using seq [of ps ?p1] by auto
  moreover have "term_of cased (rx_lang cased (RxGroup ps)) (GroupTerm One ts)"
    using p2 RxGroup.prems(1) by (auto simp: term_of_def simp del: rx_lang.simps)
  moreover note group_end [OF RxGroup.prems(2) p2(2)]
  ultimately show ?case by (auto simp: floats_def)
next
  case (RxQ r q)
  have "valid_rx r" using RxQ.prems(1) by simp
  from RxQ.IH [OF this RxQ.prems(2,3)]
  obtain p1 t where p1: "run_events (rx_events r) p = Some p1" "floats p p1 t"
    "term_of cased (rx_lang cased r) t" "m_quantifier t = One" by blast
  have "run_events (quant_events q) p1 = Some (p1\<lparr>m_floatingTerm := quantify q t\<rparr>)"
    using quant_events_run [of p1 q] p1 floats_ready [OF RxQ.prems(2) p1(2,3)]
    by (simp add: floats_def ready_def term_of_def)
  then show ?case using p1 quantified_term [OF p1(4,3)] by (auto simp: floats_def)
qed

lemma rxs_run:
  assumes "list_all valid_rxq ps" "ready p" "m_patternIsCaseSensitive p = cased"
  shows "\<exists>p' ts. run_events (concat (map rxq_events ps)) p = Some p' \<and> sinks p p' ts \<and> length ts = length ps \<and>
      terms_lang ts = rxs_lang cased ps \<and> list_all plain_term ts \<and> list_all proper_term ts"
  using assms
proof (induction ps arbitrary: p)
  case Nil
  then show ?case using sinks_refl by auto
next
  case (Cons q qs)
  obtain p1 t where p1: "run_events (rxq_events q) p = Some p1" "floats p p1 t" "term_of cased (rxq_lang cased q) t"
    using rx_run(2) [of q p cased] Cons.prems by auto
  have s1: "sinks p p1 [t]" by (rule floats_sinks [OF Cons.prems(2) p1(2,3)])
  then have r1: "ready p1" "m_patternIsCaseSensitive p1 = cased"
    using sinks_flags [OF Cons.prems(2) s1] Cons.prems by (auto simp: sinks_def)
  obtain p2 ts where p2: "run_events (concat (map rxq_events qs)) p1 = Some p2" "sinks p1 p2 ts" "length ts = length qs"
    "terms_lang ts = rxs_lang cased qs" "list_all plain_term ts" "list_all proper_term ts"
    using Cons.IH [OF _ r1] Cons.prems by auto
  have "sinks p p2 (t # ts)" using sinks_trans [OF s1 p2(2)] by simp
  moreover have "run_events (concat (map rxq_events (q # qs))) p = Some p2" using p1(1) p2(1) by simp
  ultimately show ?case
    using p1(3) p2(3-) by (intro exI [of _ p2] exI [of _ "t # ts"]) (simp add: term_of_def)
qed

section \<open>Whole filters\<close>

lemma ready_new: "ready (new_PatternParser cased)" "flush (new_PatternParser cased) = new_PatternParser cased"
  by (simp_all add: ready_def new_PatternParser_def hasError_def flush_flushed)

lemma eol_term_facts:
  "eol_term end_of_line_assertion_term" "term_lang end_of_line_assertion_term = {[0]}" "proper_term end_of_line_assertion_term"
  "isValid end_of_line_assertion_term"
proof -
  obtain k where k: "end_of_line_assertion_term = CharacterSetTerm One k" by (simp add: end_of_line_assertion_term_def)
  have inv: "\<not> m_inverted k"
    using k CharacterSet_set_inverted [of 0 new_CharacterSet] new_CharacterSet_inverted
    by (auto simp: end_of_line_assertion_term_def split: option.splits)
  have e: "isEndOfLineAssertion (CharacterSetTerm One k)" using end_of_line_term k by simp
  with inv show "eol_term end_of_line_assertion_term" unfolding k by simp
  show "term_lang end_of_line_assertion_term = {[0]}" using end_of_line_lang [OF e inv] unfolding k by simp
  show "proper_term end_of_line_assertion_term" "isValid end_of_line_assertion_term" unfolding k by simp_all
qed

lemma filter_run:
  assumes "valid_filter f"
  shows "\<exists>p ts. run_events (filter_events f) (new_PatternParser cased) = Some p \<and> \<not> hasError p \<and> \<not> hasError (flush p) \<and>
     m_sunkTerms (flush p) = ts \<and> m_hasBeginningOfLineAssertion (flush p) = rx_anchored f \<and>
     good_terms ts \<and> list_all proper_term ts \<and> terms_lang ts = filter_lang cased f \<and>
     (\<not> rx_eol f \<longrightarrow> list_all plain_term ts)"
proof -
  let ?n = "new_PatternParser cased"
  let ?p0 = "?n\<lparr>m_hasBeginningOfLineAssertion := rx_anchored f\<rparr>"
  have p0: "run_events (if rx_anchored f then [AssertionBOL] else []) ?n = Some ?p0"
    by (simp add: assertionBOL_def hasError_def new_PatternParser_def)
  have r0: "ready ?p0" "flush ?p0 = ?p0" "m_patternIsCaseSensitive ?p0 = cased"
    "m_openGroups ?p0 = []" "m_sunkTerms ?p0 = []"
    by (simp_all add: ready_def new_PatternParser_def hasError_def flush_flushed)
  obtain p1 ts where p1: "run_events (concat (map rxq_events (rx_pieces f))) ?p0 = Some p1" "sinks ?p0 p1 ts"
    "length ts = length (rx_pieces f)" "terms_lang ts = rxs_lang cased (rx_pieces f)"
    "list_all plain_term ts" "list_all proper_term ts"
    using rxs_run [OF _ r0(1,3)] assms unfolding valid_filter_def by blast
  have f1: "flush p1 = ?p0\<lparr>m_sunkTerms := ts\<rparr>" and r1: "ready p1"
    using p1(2) r0 by (auto simp: sinks_def push_def)
  show ?thesis
  proof (cases "rx_eol f")
    case False
    then have ts: "ts \<noteq> []" using p1(3) assms by (auto simp: valid_filter_def)
    have "run_events (filter_events f) ?n = Some p1" using p0 p1(1) False by (simp add: filter_events_def)
    moreover have "good_terms ts"
      using ts p1(5) by (cases ts rule: rev_cases) (auto simp: good_terms_def)
    moreover have "terms_lang ts = filter_lang cased f" using p1(4) False by (simp add: filter_lang_def)
    moreover have "\<not> hasError p1" "\<not> hasError (flush p1)" "m_hasBeginningOfLineAssertion (flush p1) = rx_anchored f"
      "m_sunkTerms (flush p1) = ts"
      using r1 flush_ready(5) [OF r1] by (simp_all add: ready_def f1)
    ultimately show ?thesis using p1(5,6) by blast
  next
    case True
    let ?e = end_of_line_assertion_term
    let ?p2 = "(flush p1)\<lparr>m_floatingTerm := ?e\<rparr>"
    have "on_event AssertionEOL p1 = Some ?p2" using r1 by (simp add: assertionEOL_def ready_def)
    then have "run_events (filter_events f) ?n = Some ?p2"
      using p0 p1(1) True by (simp add: filter_events_def)
    moreover have "flush ?p2 = ?p0\<lparr>m_sunkTerms := ts @ [?e], m_floatingTerm := empty_term,
        m_hasProcessedEndOfLineAssertion := True\<rparr>"
      unfolding f1 by (simp add: sinkFloatingTermIfNecessary_def eol_term_facts end_of_line_term Let_def new_PatternParser_def)
    moreover have "good_terms (ts @ [?e])" using p1(5) eol_term_facts(1) by (simp add: good_terms_def)
    moreover have "list_all proper_term (ts @ [?e])" using p1(6) eol_term_facts(3) by simp
    moreover have "terms_lang (ts @ [?e]) = filter_lang cased f"
      using p1(4) True eol_term_facts(2) by (simp add: filter_lang_def terms_lang_append)
    moreover have "\<not> hasError ?p2" using flush_ready(5) [OF r1] by (simp add: hasError_def)
    moreover have "\<not> hasError (?p0\<lparr>m_sunkTerms := ts @ [?e], m_floatingTerm := empty_term,
        m_hasProcessedEndOfLineAssertion := True\<rparr>)" by (simp add: hasError_def new_PatternParser_def)
    ultimately show ?thesis using True by auto
  qed
qed

lemma proper_dot_star: "proper_term canonicalDotStar"
  by (simp add: canonicalDotStar_def universal_transition_term_def)

lemma set_remove_trailing: "set (remove_trailing ts) \<subseteq> set ts"
  by (auto simp: remove_trailing_def dest: set_dropWhileD)

lemma set_simplify_terms: "set (simplify_terms bol ts) \<subseteq> insert canonicalDotStar (set (canonicalize False ts))"
proof (cases "ts = []")
  case False
  define t1 where "t1 = canonicalize False ts"
  define t2 where "t2 = (if \<not> bol \<and> \<not> isKnownToMatchAnyString (hd t1) then canonicalDotStar # t1 else t1)"
  define t3 where "t3 = drop_dot_star_eol t2"
  have "simplify_terms bol ts = (if isEndOfLineAssertion (last t3) then t3 else remove_trailing t3)"
    using False by (simp only: simplify_terms_def Let_def if_False t1_def t2_def t3_def drop_dot_star_eol_def)
  then have "set (simplify_terms bol ts) \<subseteq> set t3" using set_remove_trailing by auto
  also have "set t3 \<subseteq> set t2" by (auto simp: t3_def drop_dot_star_eol_def dest: in_set_takeD)
  also have "set t2 \<subseteq> insert canonicalDotStar (set t1)" by (auto simp: t2_def)
  finally show ?thesis by (simp add: t1_def)
qed (simp add: simplify_terms_def)

lemma proper_simplify:
  assumes "list_all proper_term ts"
  shows "list_all proper_term (simplify_terms bol ts)"
  using assms set_simplify_terms [of bol ts] canonicalize_set [of _ False ts] proper_dot_star
  by (fastforce simp: list_all_iff)

text \<open>The result of a valid filter: added with simplified terms, or refused as matching everything.\<close>

lemma addURLFilter_run:
  assumes "valid_filter f" "yarr pattern = (filter_events f, False)" "list_all isASCII pattern" "pattern \<noteq> []"
  shows "\<exists>ts. addURLFilter yarr pattern cased a tree =
       Some (if list_ex matchesAtLeastOneCharacter ts then (Ok, addPattern a ts tree) else (MatchesEverything, tree)) \<and>
     list_all proper_term ts \<and>
     (\<forall>url. 0 \<notin> set url \<longrightarrow> hits (terms_lang ts) url = filter_hits (rx_anchored f) (filter_lang cased f) url) \<and>
     (\<not> rx_eol f \<longrightarrow> list_all plain_term ts)"
proof -
  obtain p ts where p: "run_events (filter_events f) (new_PatternParser cased) = Some p" "\<not> hasError p" "\<not> hasError (flush p)"
    "m_sunkTerms (flush p) = ts" "m_hasBeginningOfLineAssertion (flush p) = rx_anchored f"
    "good_terms ts" "list_all proper_term ts" "terms_lang ts = filter_lang cased f" "\<not> rx_eol f \<longrightarrow> list_all plain_term ts"
    using filter_run [OF assms(1)] by blast
  let ?ts = "simplify_terms (rx_anchored f) ts"
  have fin: "finalize a p tree =
      (if list_ex matchesAtLeastOneCharacter ?ts then ((flush p)\<lparr>m_sunkTerms := ?ts\<rparr>, addPattern a ?ts tree)
       else ((flush p)\<lparr>m_sunkTerms := ?ts, m_parseStatus := MatchesEverything\<rparr>, tree))"
    using p(2-5) by (simp add: finalize_def simplifySunkTerms_def fail_def hasError_def Let_def)
  have "addURLFilter yarr pattern cased a tree =
       Some (if list_ex matchesAtLeastOneCharacter ?ts then (Ok, addPattern a ?ts tree) else (MatchesEverything, tree))"
    using assms p(1,3) fin by (simp add: addURLFilter_def hasError_def)
  moreover have "list_all plain_term ?ts" if "\<not> rx_eol f"
    using p(9) that set_simplify_terms [of "rx_anchored f" ts] canonicalize_set [of _ False ts] canonicalDotStar_plain
    by (fastforce simp: list_all_iff)
  ultimately show ?thesis
    using proper_simplify [OF p(7)] simplify_hits [OF p(6)] p(8) by auto
qed

section \<open>From filters to automata\<close>

text \<open>The actions a meaning triggers on a URL.\<close>

definition triggers :: "(nat list \<times> u64) set \<Rightarrow> nat list \<Rightarrow> u64 set" where
  "triggers K url = {a. hits {w. (w, a) \<in> K} url}"

lemma triggers_Un: "triggers (K \<union> M) url = triggers K url \<union> triggers M url"
  by (auto simp: triggers_def hits_def)

lemma triggers_pattern: "triggers (pattern_pairs a ts) url = (if hits (terms_lang ts) url then {a} else {})"
  by (auto simp: triggers_def pattern_pairs_def hits_def)

lemma triggers_processNFAs:
  "proper_vertex tree \<Longrightarrow> (\<Union>A \<in> set (processNFAs m tree). triggers (nfa_accepts A) url) = triggers (vertex_meaning tree) url"
proof -
  assume "proper_vertex tree"
  then have "vertex_meaning tree = \<Union> (nfa_accepts ` set (processNFAs m tree))" by (simp add: processNFAs_accepts)
  then show ?thesis by (auto simp: triggers_def hits_def)
qed

text \<open>A tree under construction: proper terms, no action at the root.\<close>

definition good_tree :: "PrefixTreeVertex \<Rightarrow> bool" where
  "good_tree tree \<longleftrightarrow> proper_vertex tree \<and> finalActions tree = []"

lemma good_empty: "good_tree empty_vertex" "vertex_meaning empty_vertex = {}"
  by (simp_all add: good_tree_def empty_vertex_def)

lemma addPattern_good:
  assumes "good_tree tree" "ts \<noteq> []" "list_all proper_term ts"
  shows "good_tree (addPattern a ts tree)" "vertex_meaning (addPattern a ts tree) = vertex_meaning tree \<union> pattern_pairs a ts"
proof -
  show "good_tree (addPattern a ts tree)"
    using assms by (simp add: good_tree_def addPattern_def proper_extend finalActions_extend)
  then show "vertex_meaning (addPattern a ts tree) = vertex_meaning tree \<union> pattern_pairs a ts"
    using own_pairs_extend [of a ts tree] assms by (simp add: good_tree_def addPattern_def own_pairs_def)
qed

lemma list_ex_not_Nil: "list_ex P xs \<Longrightarrow> xs \<noteq> []"
  by auto

lemma addURLFilter_good:
  assumes "valid_filter f" "yarr pattern = (filter_events f, False)" "list_all isASCII pattern" "pattern \<noteq> []" "good_tree tree"
  shows "\<exists>status tree'. addURLFilter yarr pattern cased a tree = Some (status, tree') \<and> good_tree tree' \<and>
     (status = MatchesEverything \<and> tree' = tree \<or>
      status = Ok \<and> (\<forall>url. 0 \<notin> set url \<longrightarrow>
        triggers (vertex_meaning tree') url =
          triggers (vertex_meaning tree) url \<union> (if filter_hits (rx_anchored f) (filter_lang cased f) url then {a} else {})))"
proof -
  obtain ts where ts: "addURLFilter yarr pattern cased a tree =
       Some (if list_ex matchesAtLeastOneCharacter ts then (Ok, addPattern a ts tree) else (MatchesEverything, tree))"
     "list_all proper_term ts"
     "\<forall>url. 0 \<notin> set url \<longrightarrow> hits (terms_lang ts) url = filter_hits (rx_anchored f) (filter_lang cased f) url"
    using addURLFilter_run [where yarr = yarr and pattern = pattern and cased = cased and a = a and tree = tree, OF assms(1-4)] by blast
  show ?thesis
  proof (cases "list_ex matchesAtLeastOneCharacter ts")
    case True
    note g = addPattern_good [OF assms(5) list_ex_not_Nil [OF True] ts(2), of a]
    have "triggers (vertex_meaning (addPattern a ts tree)) url =
        triggers (vertex_meaning tree) url \<union> (if filter_hits (rx_anchored f) (filter_lang cased f) url then {a} else {})"
      if "0 \<notin> set url" for url
      using ts(3) that by (simp add: g(2) triggers_Un triggers_pattern)
    with True g(1) ts(1) show ?thesis by auto
  next
    case False
    with ts(1) assms(5) show ?thesis by auto
  qed
qed

text \<open>Without an end-of-line assertion, a filter is refused exactly if it matches every URL.\<close>

lemma plain_hits_Nil: "list_all plain_term ts \<Longrightarrow> hits (terms_lang ts) [] \<longleftrightarrow> [] \<in> terms_lang ts"
proof -
  assume "list_all plain_term ts"
  then have "terms_lang ts \<subseteq> any_word" by (rule plain_terms_any_word)
  moreover have "[0] \<notin> any_word" by (simp add: any_word_def)
  ultimately have "[0] \<notin> terms_lang ts" by blast
  then show ?thesis
    unfolding hits_prefix by (auto simp: Cons_eq_append_conv)
qed

lemma Nil_terms_lang: "[] \<in> terms_lang ts \<Longrightarrow> t \<in> set ts \<Longrightarrow> [] \<in> term_lang t"
  by (induction ts) (auto simp: in_conc)

lemma optional_terms_Nil:
  assumes "list_all plain_term ts"
  shows "list_ex matchesAtLeastOneCharacter ts \<longleftrightarrow> [] \<notin> terms_lang ts"
proof
  assume "list_ex matchesAtLeastOneCharacter ts"
  then show "[] \<notin> terms_lang ts" using at_least_one_lang Nil_terms_lang by (auto simp: list_ex_iff)
next
  assume n: "[] \<notin> terms_lang ts"
  show "list_ex matchesAtLeastOneCharacter ts"
  proof (rule ccontr)
    assume "\<not> list_ex matchesAtLeastOneCharacter ts"
    with assms have "\<forall>t \<in> set ts. [] \<in> term_lang t"
      using plain_optional by (auto simp: list_ex_iff list_all_iff)
    then have "[] \<in> terms_lang ts" by (induction ts) (auto simp: in_conc)
    with n show False by blast
  qed
qed

lemma matches_everything_exact:
  assumes "valid_filter f" "yarr pattern = (filter_events f, False)" "list_all isASCII pattern" "pattern \<noteq> []" "\<not> rx_eol f"
  shows "addURLFilter yarr pattern cased a tree = Some (MatchesEverything, tree) \<longleftrightarrow>
     (\<forall>url. 0 \<notin> set url \<longrightarrow> filter_hits (rx_anchored f) (filter_lang cased f) url)"
proof -
  obtain ts where ts: "addURLFilter yarr pattern cased a tree =
       Some (if list_ex matchesAtLeastOneCharacter ts then (Ok, addPattern a ts tree) else (MatchesEverything, tree))"
     "\<forall>url. 0 \<notin> set url \<longrightarrow> hits (terms_lang ts) url = filter_hits (rx_anchored f) (filter_lang cased f) url"
     "list_all plain_term ts"
    using addURLFilter_run [where yarr = yarr and pattern = pattern and cased = cased and a = a and tree = tree, OF assms(1-4)] assms(5) by blast
  have "addURLFilter yarr pattern cased a tree = Some (MatchesEverything, tree) \<longleftrightarrow> [] \<in> terms_lang ts"
    using ts(1) optional_terms_Nil [OF ts(3)] by auto
  also have "\<dots> \<longleftrightarrow> hits (terms_lang ts) []" using plain_hits_Nil [OF ts(3)] by simp
  also have "\<dots> \<longleftrightarrow> (\<forall>url. 0 \<notin> set url \<longrightarrow> hits (terms_lang ts) url)"
  proof
    assume "hits (terms_lang ts) []"
    then have "[] \<in> terms_lang ts" using plain_hits_Nil [OF ts(3)] by simp
    then show "\<forall>url. 0 \<notin> set url \<longrightarrow> hits (terms_lang ts) url" unfolding hits_prefix by force
  qed simp
  finally show ?thesis using ts(2) by auto
qed

end
