(* ===== verification/CE_Filter_Props.thy ===== *)
theory CE_Filter_Props
  imports CE_Filter_Sem
begin

text \<open>
  The properties of the front half of the compiler: terms and their automata, the prefix tree, and
  the URL filter parser. Each rests on the lemmas of the theory of its component.
\<close>

section \<open>Inputs of the witnesses\<close>

definition ex_set :: CharacterSet where
  "ex_set = \<lparr>m_inverted = False, m_characters0 = 0, m_characters1 = 0x0000000200000000\<rparr>"

definition ex_a :: trm where "ex_a = CharacterSetTerm One ex_set"

definition ex_filter :: url_filter where
  "ex_filter = \<lparr>rx_anchored = False, rx_pieces = [RxQ (RxChar 97) One, RxQ RxAny ZeroOrMore, RxQ (RxChar 98) ZeroOrOne], rx_eol = False\<rparr>"

lemma ex_proper: "proper_term (GroupTerm ZeroOrMore [ex_a])"
  by (simp add: ex_a_def)

section \<open>Terms\<close>

text \<open>
  The population count of a character set, computed with the bit tricks of
  \<open>wtf/StdLibExtras.h\<close>, is the number of characters below 128 in the set.
\<close>

theorem bitCount_counts_members:
  "CharacterSet_bitCount cs = card {c. c < 128 \<and> CharacterSet_get cs c}"
proof -
  have c: "popcount w = card {i. i < 64 \<and> bit w i}" for w :: u64
  proof -
    have "card {i. i < 64 \<and> bit w i} = card (set (filter (bit w) [0..<64]))"
      by (rule arg_cong [where f = card]) auto
    then show ?thesis by (simp add: popcount_def distinct_card del: set_filter)
  qed
  have split: "{c. c < 128 \<and> CharacterSet_get cs c} =
      {i. i < 64 \<and> bit (m_characters0 cs) i} \<union> (\<lambda>i. i + 64) ` {i. i < 64 \<and> bit (m_characters1 cs) i}"
  proof (rule set_eqI)
    fix c
    show "c \<in> {c. c < 128 \<and> CharacterSet_get cs c} \<longleftrightarrow>
      c \<in> {i. i < 64 \<and> bit (m_characters0 cs) i} \<union> (\<lambda>i. i + 64) ` {i. i < 64 \<and> bit (m_characters1 cs) i}"
    proof (cases "c < 64")
      case True
      then show ?thesis using CharacterSet_get_halves(1) [of c cs] by auto
    next
      case False
      then obtain i where "c = i + 64" by (metis add.commute le_add_diff_inverse not_less)
      then show ?thesis using CharacterSet_get_halves(2) [of i cs] by auto
    qed
  qed
  have "card {c. c < 128 \<and> CharacterSet_get cs c} =
      card {i. i < 64 \<and> bit (m_characters0 cs) i} + card ((\<lambda>i. i + 64) ` {i. i < 64 \<and> bit (m_characters1 cs) i})"
    unfolding split by (rule card_Un_disjoint) auto
  also have "card ((\<lambda>i. i + 64) ` {i. i < 64 \<and> bit (m_characters1 cs) i}) = card {i. i < 64 \<and> bit (m_characters1 cs) i}"
    by (rule card_image) simp
  finally show ?thesis by (simp add: CharacterSet_bitCount_def bitCount64_popcount c)
qed

text \<open>
  C4. For a term without empty groups in it, \<open>Term::generateGraph\<close> extends a well-formed automaton by
  exactly the language of the term: an old node reaches the new end node by the words that lead to
  the start node followed by a word of the term; paths and actions of old nodes do not change, and
  the end node gets the given actions. (The end node of an empty group \<open>()\<close> is its start node, whose
  actions are lost.)
\<close>

theorem generateGraph_builds_language:
  assumes "proper_term t" "wf_nfa A" "s < length (m_nodes A)" "generateGraph t A s acts = (A', e)"
  shows "wf_nfa A' \<and> rules_at A' e = set acts \<and>
     (\<forall>p < length (m_nodes A). \<forall>w. path (edges A') p w e \<longleftrightarrow>
        (\<exists>u v. w = u @ v \<and> path (edges A) p u s \<and> v \<in> term_lang t)) \<and>
     (\<forall>p < length (m_nodes A). \<forall>q < length (m_nodes A). \<forall>w. path (edges A') p w q \<longleftrightarrow> path (edges A) p w q) \<and>
     (\<forall>q < length (m_nodes A). rules_at A' q = rules_at A q)"
proof -
  have app: "appends A s (A', e) (term_lang t) (set acts)"
    using appends_generate [OF assms(1-3), of acts] assms(4) by simp
  from app have rules: "\<And>q. q < length (m_nodes A') \<Longrightarrow>
     rules_at A' q = (if q < length (m_nodes A) then rules_at A q else if q = e then set acts else {})"
    by (auto simp: appends_def)
  note wf = appends_wf [OF app assms(2)]
  show ?thesis
    using wf rules appends_path_new [OF app assms(2)] appends_path_old [OF app assms(2)] by auto
qed

theorem generateGraph_builds_language_witness:
  "wf_nfa (fst (generateGraph (GroupTerm ZeroOrMore [ex_a]) new_nfa 0 [7])) \<and>
   rules_at (fst (generateGraph (GroupTerm ZeroOrMore [ex_a]) new_nfa 0 [7]))
     (snd (generateGraph (GroupTerm ZeroOrMore [ex_a]) new_nfa 0 [7])) = {7}"
proof -
  obtain A' e where g: "generateGraph (GroupTerm ZeroOrMore [ex_a]) new_nfa 0 [7] = (A', e)" by fastforce
  have "0 < length (m_nodes new_nfa)" by (simp add: new_nfa_simps)
  from generateGraph_builds_language [OF ex_proper new_nfa_simps(4) this g] show ?thesis by (simp add: g)
qed

text \<open>
  A term that claims to match any string does: its language is all words without NUL.
\<close>

theorem known_any_string_matches_all:
  assumes "isKnownToMatchAnyString t"
  shows "term_lang t = {w. 0 \<notin> set w}"
  using any_string_lang [OF assms] by (simp add: any_word_def)

theorem known_any_string_matches_all_witness:
  "term_lang canonicalDotStar = {w. 0 \<notin> set w}"
proof (rule known_any_string_matches_all)
  show "isKnownToMatchAnyString canonicalDotStar"
    using universal_transition_term_universal
    by (simp add: canonicalDotStar_def universal_transition_term_def del: isUniversalTransition.simps)
      (simp only: isUniversalTransition.simps)
qed

text \<open>
  The two length queries are sound: a term that must match at least one character does not
  match the empty word, and all words of a term of fixed length have the same length.
\<close>

theorem length_queries_sound:
  "(matchesAtLeastOneCharacter t \<longrightarrow> [] \<notin> term_lang t) \<and>
   (hasFixedLength t \<longrightarrow> (\<exists>n. \<forall>w \<in> term_lang t. length w = n))"
  using at_least_one_lang fixed_length_lang by blast

theorem length_queries_sound_witness:
  "matchesAtLeastOneCharacter ex_a \<and> hasFixedLength ex_a \<and>
   [] \<notin> term_lang ex_a \<and> (\<exists>n. \<forall>w \<in> term_lang ex_a. length w = n)"
proof -
  have "matchesAtLeastOneCharacter ex_a" "hasFixedLength ex_a" by code_simp+
  with length_queries_sound [of ex_a] show ?thesis by blast
qed

section \<open>The prefix tree\<close>

text \<open>
  Adding a pattern to the prefix tree adds exactly the words of the pattern with its action.
\<close>

theorem addPattern_adds_pattern:
  assumes "good_tree tree" "ts \<noteq> []" "list_all proper_term ts"
  shows "vertex_meaning (addPattern a ts tree) = vertex_meaning tree \<union> {(w, a) | w. w \<in> terms_lang ts}"
  using addPattern_good(2) [OF assms] by (simp add: pattern_pairs_def)

theorem addPattern_adds_pattern_witness:
  "vertex_meaning (addPattern 5 [ex_a] empty_vertex) = {(w, 5) | w. w \<in> terms_lang [ex_a]}"
  using addPattern_adds_pattern [OF good_empty(1), of "[ex_a]" 5] by (simp add: ex_a_def good_empty(2))

text \<open>
  C13. Cutting a tree whose terms have no empty groups into automata keeps its meaning, whatever the size
  limit: the automata of \<open>CombinedURLFilters::processNFAs\<close> together accept exactly the words of the
  patterns with their actions.
\<close>

theorem processNFAs_keeps_meaning:
  assumes "proper_vertex tree"
  shows "(\<Union>A \<in> set (processNFAs maxNFASize tree). nfa_accepts A) = vertex_meaning tree"
  using processNFAs_accepts [OF assms] by simp

theorem processNFAs_keeps_meaning_witness:
  "(\<Union>A \<in> set (processNFAs 3 (addPattern 5 [ex_a] empty_vertex)). nfa_accepts A) =
   vertex_meaning (addPattern 5 [ex_a] empty_vertex)"
proof (rule processNFAs_keeps_meaning)
  show "proper_vertex (addPattern 5 [ex_a] empty_vertex)" by code_simp
qed

text \<open>
  Every round of \<open>processNFAs\<close> on a tree with edges removes at least one edge, so its
  \<open>while (true)\<close> ends after at most as many rounds as there are edges.
\<close>

theorem processNFAs_round_removes_edge:
  assumes "tree_edges v \<noteq> []"
  shows "vertex_count (fst (process_round maxNFASize v prefixEnd A)) < vertex_count v \<and>
     length (processNFAs maxNFASize v) \<le> vertex_count v"
proof -
  have "length (processNFAs maxNFASize u) \<le> vertex_count u" for u
  proof (induction maxNFASize u rule: processNFAs.induct)
    case (1 m u)
    show ?case
    proof (cases "tree_edges u = []")
      case False
      obtain u' B where r: "process_round m u (m_root new_nfa) new_nfa = (u', B)" by fastforce
      have "vertex_count u' < vertex_count u"
        using process_round_count [OF False, of m "m_root new_nfa" new_nfa] r by simp
      moreover have "length (processNFAs m u') \<le> vertex_count u'"
        by (rule "1.IH" [OF False r [symmetric] refl])
      ultimately show ?thesis using False r by (simp add: processNFAs.simps [of m u])
    qed (simp add: processNFAs.simps)
  qed
  then show ?thesis using process_round_count [OF assms] by blast
qed

theorem processNFAs_round_removes_edge_witness:
  "length (processNFAs 3 (addPattern 5 [ex_a] empty_vertex)) \<le> 1"
proof -
  have "tree_edges (addPattern 5 [ex_a] empty_vertex) \<noteq> []" "vertex_count (addPattern 5 [ex_a] empty_vertex) = 1"
    by code_simp+
  then show ?thesis using processNFAs_round_removes_edge [of "addPattern 5 [ex_a] empty_vertex" 3 0 new_nfa] by simp
qed

text \<open>
  An empty group loses actions: with the filter \<open>^a\<close> of action 1 and \<open>^a()b\<close> of action 2 in
  the tree, generating the graph of \<open>()\<close> overwrites the actions of the node it starts from, and
  no automaton has action 1 any more.
\<close>

theorem empty_group_loses_actions:
  "let tree = addPattern 2 [ex_a, GroupTerm One [], ex_a] (addPattern 1 [ex_a] empty_vertex)
   in ([97], 1) \<in> vertex_meaning tree \<and>
      list_all (\<lambda>A. list_all (\<lambda>node. 1 \<notin> set (finalRuleIds node)) (m_nodes A)) (processNFAs 1000 tree)"
proof -
  let ?tree = "addPattern 2 [ex_a, GroupTerm One [], ex_a] (addPattern 1 [ex_a] empty_vertex)"
  have set: "[97] \<in> charset_lang ex_set"
  proof -
    have "\<not> isUniversalTransition (CharacterSetTerm One ex_set)" "CharacterSet_get ex_set 97" by code_simp+
    then show ?thesis by (simp add: charset_lang_def ex_set_def del: isUniversalTransition.simps)
  qed
  have "vertex_meaning ?tree = pattern_pairs 1 [ex_a] \<union> pattern_pairs 2 [ex_a, GroupTerm One [], ex_a]"
  proof -
    have "own_pairs ?tree = pattern_pairs 1 [ex_a] \<union> pattern_pairs 2 [ex_a, GroupTerm One [], ex_a]"
      by (simp add: addPattern_def own_pairs_extend) (simp add: own_pairs_def empty_vertex_def)
    moreover have "finalActions ?tree = []" by code_simp
    ultimately show ?thesis by (simp add: own_pairs_def)
  qed
  moreover have "([97], 1) \<in> pattern_pairs 1 [ex_a]"
    using set by (simp add: pattern_pairs_def ex_a_def)
  moreover have "list_all (\<lambda>A. list_all (\<lambda>node. 1 \<notin> set (finalRuleIds node)) (m_nodes A)) (processNFAs 1000 ?tree)"
    by code_simp
  ultimately show ?thesis by (simp add: Let_def)
qed

section \<open>The filter parser\<close>

lemma ex_filter_valid: "valid_filter ex_filter"
  by (simp add: valid_filter_def ex_filter_def)

definition ex_pattern :: "nat list" where
  "ex_pattern = [97, 46, 42, 98, 63]"

lemma ex_pattern_ok: "list_all isASCII ex_pattern" "ex_pattern \<noteq> []"
  by (simp_all add: ex_pattern_def isASCII_def)

lemma ex_hits: "filter_hits False (filter_lang True ex_filter) [98, 97, 99]"
proof -
  have "[97] \<in> filter_lang True ex_filter"
    by (auto simp: filter_lang_def ex_filter_def in_conc same_character_def intro: star.intros)
  moreover have "take 1 (drop 1 ([98, 97, 99] @ [0])) = [97::nat]" by simp
  ultimately show ?thesis unfolding filter_hits_def
    by (metis One_nat_def length_Cons less_Suc_eq_le zero_less_Suc Suc_leI)
qed

text \<open>
  The simplification of the terms of a filter (canonical \<open>.*\<close>, the added leading \<open>.*\<close>, the removal
  of a redundant \<open>.*$\<close> and of optional terms at the end) is an equivalence: the simplified terms
  match a prefix of a URL exactly if the original ones match where the filter is anchored.
\<close>

theorem simplify_keeps_hits:
  assumes "good_terms ts" "0 \<notin> set url"
  shows "hits (terms_lang (simplify_terms anchored ts)) url \<longleftrightarrow> filter_hits anchored (terms_lang ts) url"
  using simplify_hits [OF assms] .

theorem simplify_keeps_hits_witness:
  "hits (terms_lang (simplify_terms False [ex_a])) [98, 97] \<longleftrightarrow> filter_hits False (terms_lang [ex_a]) [98, 97]"
proof (rule simplify_keeps_hits)
  show "good_terms [ex_a]" by code_simp
qed simp

text \<open>
  \<open>PatternParser\<close> gives every supported expression terms of the same language: on the tokens of
  the expression it reports no error, keeps whether the expression is anchored, and the sunk terms
  denote what the expression matches.
\<close>

theorem PatternParser_denotes:
  assumes "valid_filter f"
  shows "\<exists>p. run_events (filter_events f) (new_PatternParser cased) = Some p \<and>
     m_parseStatus (sinkFloatingTermIfNecessary p) = Ok \<and>
     m_hasBeginningOfLineAssertion (sinkFloatingTermIfNecessary p) = rx_anchored f \<and>
     terms_lang (m_sunkTerms (sinkFloatingTermIfNecessary p)) = filter_lang cased f"
  using filter_run [OF assms, of cased] by (auto simp: hasError_def)

theorem PatternParser_denotes_witness:
  "\<exists>p. run_events (filter_events ex_filter) (new_PatternParser True) = Some p \<and>
     terms_lang (m_sunkTerms (sinkFloatingTermIfNecessary p)) = filter_lang True ex_filter"
  using PatternParser_denotes [OF ex_filter_valid, of True] by blast

text \<open>
  C2. A filter added to the tree triggers its action exactly on the URLs it matches, and changes no
  other action; or it is refused as matching everything and the tree stays as it was.
\<close>

theorem addURLFilter_triggers:
  assumes "valid_filter f" "yarr pattern = (filter_events f, False)" "list_all isASCII pattern" "pattern \<noteq> []"
    "good_tree tree"
  shows "\<exists>status tree'. addURLFilter yarr pattern cased a tree = Some (status, tree') \<and> good_tree tree' \<and>
     (status = MatchesEverything \<and> tree' = tree \<or>
      status = Ok \<and> (\<forall>url. 0 \<notin> set url \<longrightarrow>
        triggers (vertex_meaning tree') url =
          triggers (vertex_meaning tree) url \<union> (if filter_hits (rx_anchored f) (filter_lang cased f) url then {a} else {})))"
  using addURLFilter_good [where yarr = yarr and pattern = pattern, OF assms] .

theorem addURLFilter_triggers_witness:
  "\<exists>tree'. addURLFilter (\<lambda>_. (filter_events ex_filter, False)) ex_pattern True 7 empty_vertex = Some (Ok, tree') \<and>
     triggers (vertex_meaning tree') [98, 97, 99] = {7}"
proof -
  let ?r = "addURLFilter (\<lambda>_. (filter_events ex_filter, False)) ex_pattern True 7 empty_vertex"
  have status: "map_option fst ?r = Some Ok" by code_simp
  from addURLFilter_triggers [where yarr = "\<lambda>_. (filter_events ex_filter, False)" and cased = True and a = 7,
      OF ex_filter_valid refl ex_pattern_ok good_empty(1)]
  obtain st tree' where t: "?r = Some (st, tree')" and cases: "st = MatchesEverything \<and> tree' = empty_vertex \<or>
      st = Ok \<and> (\<forall>url. 0 \<notin> set url \<longrightarrow> triggers (vertex_meaning tree') url =
        triggers (vertex_meaning empty_vertex) url \<union>
          (if filter_hits (rx_anchored ex_filter) (filter_lang True ex_filter) url then {7} else {}))" by blast
  from status t have st: "st = Ok" by simp
  with cases have "triggers (vertex_meaning tree') [98, 97, 99] = triggers (vertex_meaning empty_vertex) [98, 97, 99] \<union>
          (if filter_hits (rx_anchored ex_filter) (filter_lang True ex_filter) [98, 97, 99] then {7} else {})" by simp
  moreover have "rx_anchored ex_filter = False" by (simp add: ex_filter_def)
  ultimately have "triggers (vertex_meaning tree') [98, 97, 99] = {7}"
    using ex_hits by (simp add: good_empty(2) triggers_def hits_def)
  with t st show ?thesis by blast
qed

text \<open>
  C39. The status \<open>MatchesEverything\<close> is exact for filters without an end-of-line assertion: they are
  refused with it if and only if they match every URL.
\<close>

theorem matches_everything_is_exact:
  assumes "valid_filter f" "yarr pattern = (filter_events f, False)" "list_all isASCII pattern" "pattern \<noteq> []"
    "\<not> rx_eol f"
  shows "addURLFilter yarr pattern cased a tree = Some (MatchesEverything, tree) \<longleftrightarrow>
     (\<forall>url. 0 \<notin> set url \<longrightarrow> filter_hits (rx_anchored f) (filter_lang cased f) url)"
  using matches_everything_exact [where yarr = yarr and pattern = pattern, OF assms] .

theorem matches_everything_is_exact_witness:
  "\<exists>url. 0 \<notin> set url \<and> \<not> filter_hits False (filter_lang True ex_filter) url"
proof -
  let ?r = "addURLFilter (\<lambda>_. (filter_events ex_filter, False)) ex_pattern True 7 empty_vertex"
  have "map_option fst ?r = Some Ok" by code_simp
  then have "?r \<noteq> Some (MatchesEverything, empty_vertex)" by auto
  moreover have "\<not> rx_eol ex_filter" "rx_anchored ex_filter = False" by (simp_all add: ex_filter_def)
  ultimately show ?thesis
    using matches_everything_is_exact [where yarr = "\<lambda>_. (filter_events ex_filter, False)" and cased = True
        and a = 7 and tree = empty_vertex, OF ex_filter_valid refl ex_pattern_ok] by auto
qed

text \<open>
  A misplaced end-of-line assertion is reported, but the pattern is added all the same: for the
  tokens of \<open>a$b\<close> the status is \<open>MisplacedEndOfLine\<close> and the tree has changed, because \<open>finalize\<close>
  checks for an error only before it sinks the last term.
\<close>

theorem misplaced_eol_still_added:
  "addURLFilter (\<lambda>_. ([AtomPatternCharacter 97, AssertionEOL, AtomPatternCharacter 98], False)) [97, 36, 98] True 7 empty_vertex
     = Some (MisplacedEndOfLine, addPattern 7 (canonicalDotStar # map (the \<circ> (\<lambda>c. character_term c True)) [97] @ [end_of_line_assertion_term]) empty_vertex)"
  by code_simp

end
