(* ===== verification/CE_Dfa.thy ===== *)
theory CE_Dfa
  imports CE_Prelude
begin

text \<open>
  The deterministic automaton of \<open>contentextensions/DFA.h\<close>, \<open>DFANode.h\<close> and \<open>DFA.cpp\<close>.

  All nodes share one vector of transitions and one of actions; a node owns a slice of each. The
  fallback transition of a node sits right behind its slice and carries the key 255. The members
  \<open>m_actionsLength\<close> (16 bits), \<open>m_transitionsLength\<close> (8 bits) and \<open>m_flags\<close> keep their width.
  Slices are in range in every automaton the construction makes, so reading one is \<open>take\<close> of \<open>drop\<close>.
  \<open>None\<close> is the crash of a \<open>RELEASE_ASSERT\<close>.
\<close>

section \<open>The data structure\<close>

record DFANode =
  m_actionsStart :: nat
  m_transitionsStart :: nat
  m_actionsLength :: u16
  m_transitionsLength :: u8
  m_flags :: u8

record DFA =
  actions :: "u64 list"
  dfa_transitions :: "(nat \<times> nat) list"
  nodes :: "DFANode list"
  root :: nat

definition new_DFANode :: DFANode where
  "new_DFANode = \<lparr>m_actionsStart = 0, m_transitionsStart = 0, m_actionsLength = 0, m_transitionsLength = 0, m_flags = 0\<rparr>"

definition new_DFA :: DFA where
  "new_DFA = \<lparr>actions = [], dfa_transitions = [], nodes = [], root = 0\<rparr>"

definition HasFallbackTransition :: u8 where "HasFallbackTransition = 1"
definition IsKilled :: u8 where "IsKilled = 2"

definition isKilled :: "DFANode \<Rightarrow> bool" where
  "isKilled node \<longleftrightarrow> m_flags node AND IsKilled \<noteq> 0"

definition hasFallbackTransition :: "DFANode \<Rightarrow> bool" where
  "hasFallbackTransition node \<longleftrightarrow> m_flags node AND HasFallbackTransition \<noteq> 0"

definition transitionsLength :: "DFANode \<Rightarrow> nat" where
  "transitionsLength node = unat (m_transitionsLength node)"

definition actionsLength :: "DFANode \<Rightarrow> nat" where
  "actionsLength node = unat (m_actionsLength node)"

definition hasActions :: "DFANode \<Rightarrow> bool" where
  "hasActions node \<longleftrightarrow> m_actionsLength node \<noteq> 0"

definition set_actions :: "nat \<Rightarrow> nat \<Rightarrow> DFANode \<Rightarrow> DFANode" where
  "set_actions start len node = node\<lparr>m_actionsStart := start, m_actionsLength := of_nat len\<rparr>"

definition setTransitions :: "nat \<Rightarrow> nat \<Rightarrow> DFANode \<Rightarrow> DFANode" where
  "setTransitions start len node = node\<lparr>m_transitionsStart := start, m_transitionsLength := of_nat len\<rparr>"

definition resetTransitions :: "nat \<Rightarrow> nat \<Rightarrow> DFANode \<Rightarrow> DFANode" where
  "resetTransitions start len node = node\<lparr>m_transitionsStart := start, m_transitionsLength := of_nat len\<rparr>"

definition setHasFallbackTransitionWithoutChangingDFA :: "bool \<Rightarrow> DFANode \<Rightarrow> DFANode" where
  "setHasFallbackTransitionWithoutChangingDFA b node =
     node\<lparr>m_flags := (if b then m_flags node OR HasFallbackTransition else m_flags node AND NOT HasFallbackTransition)\<rparr>"

definition node_actions :: "DFA \<Rightarrow> DFANode \<Rightarrow> u64 list" where
  "node_actions dfa node = take (actionsLength node) (drop (m_actionsStart node) (actions dfa))"

definition node_transitions :: "DFA \<Rightarrow> DFANode \<Rightarrow> (nat \<times> nat) list" where
  "node_transitions dfa node = take (transitionsLength node) (drop (m_transitionsStart node) (dfa_transitions dfa))"

definition fallbackTransitionDestination :: "DFA \<Rightarrow> DFANode \<Rightarrow> nat option" where
  "fallbackTransitionDestination dfa node =
     (let i = m_transitionsStart node + transitionsLength node
      in if hasFallbackTransition node \<and> i < length (dfa_transitions dfa) then Some (snd (dfa_transitions dfa ! i)) else None)"

definition changeFallbackTransition :: "nat \<Rightarrow> DFANode \<Rightarrow> DFA \<Rightarrow> DFA option" where
  "changeFallbackTransition newDestination node dfa =
     (let i = m_transitionsStart node + transitionsLength node
      in if hasFallbackTransition node \<and> i < length (dfa_transitions dfa)
         then Some (dfa\<lparr>dfa_transitions := (dfa_transitions dfa)[i := (u8_max, newDestination)]\<rparr>) else None)"

text \<open>\<open>addFallbackTransition\<close> changes the vector of transitions and the node itself.\<close>

definition addFallbackTransition :: "nat \<Rightarrow> nat \<Rightarrow> DFA \<Rightarrow> DFA option" where
  "addFallbackTransition i destination dfa =
     (let node = nodes dfa ! i
      in if length (dfa_transitions dfa) = m_transitionsStart node + transitionsLength node
         then Some (dfa\<lparr>dfa_transitions := dfa_transitions dfa @ [(u8_max, destination)],
                        nodes := (nodes dfa)[i := node\<lparr>m_flags := m_flags node OR HasFallbackTransition\<rparr>]\<rparr>)
         else None)"

definition containsTransition :: "nat \<Rightarrow> DFA \<Rightarrow> DFANode \<Rightarrow> bool" where
  "containsTransition transition dfa node \<longleftrightarrow> list_ex (\<lambda>t. fst t = transition) (node_transitions dfa node)"

text \<open>Overwrites the elements of a slice.\<close>

definition fill :: "nat \<Rightarrow> nat \<Rightarrow> 'a \<Rightarrow> 'a list \<Rightarrow> 'a list" where
  "fill start n x xs = fold (\<lambda>i xs. xs[i := x]) [start..<start + n] xs"

definition kill :: "nat \<Rightarrow> DFA \<Rightarrow> DFA" where
  "kill i dfa =
     (let node = nodes dfa ! i
      in dfa\<lparr>dfa_transitions := fill (m_transitionsStart node) (transitionsLength node) (u8_max, u32_max) (dfa_transitions dfa),
             actions := fill (m_actionsStart node) (actionsLength node) (- 1) (actions dfa),
             nodes := (nodes dfa)[i := node\<lparr>m_flags := IsKilled, m_actionsStart := 0, m_actionsLength := 0,
                                         m_transitionsStart := 0, m_transitionsLength := 0\<rparr>]\<rparr>)"

section \<open>The automaton as a machine\<close>

text \<open>
  A transition of the node on the character if there is one, else the fallback transition, which
  is not taken on NUL. Entering a node triggers its actions.
\<close>

definition dfa_step :: "DFA \<Rightarrow> nat \<Rightarrow> nat \<Rightarrow> nat option" where
  "dfa_step dfa q c =
     (let node = nodes dfa ! q
      in case map_of (node_transitions dfa node) c of
           Some t \<Rightarrow> Some t
         | None \<Rightarrow> if c = 0 then None else fallbackTransitionDestination dfa node)"

definition dfa_out :: "DFA \<Rightarrow> nat \<Rightarrow> u64 set" where
  "dfa_out dfa q = set (node_actions dfa (nodes dfa ! q))"

section \<open>Facts about nodes\<close>

lemma hasFallback_new [simp]: "\<not> hasFallbackTransition new_DFANode" "\<not> isKilled new_DFANode"
  by (simp_all add: hasFallbackTransition_def isKilled_def new_DFANode_def)

lemma bit_flags:
  "hasFallbackTransition node \<longleftrightarrow> bit (m_flags node) 0" "isKilled node \<longleftrightarrow> bit (m_flags node) 1"
proof -
  have "x AND 1 \<noteq> 0 \<longleftrightarrow> bit x 0" for x :: u8
    by (simp add: and_one_eq odd_iff_mod_2_eq_one bit_0)
  then show "hasFallbackTransition node \<longleftrightarrow> bit (m_flags node) 0"
    by (simp add: hasFallbackTransition_def HasFallbackTransition_def)
  have "x AND 2 \<noteq> 0 \<longleftrightarrow> bit x 1" for x :: u8
  proof -
    have "x AND 2 = x AND push_bit 1 1" by simp
    also have "\<dots> \<noteq> 0 \<longleftrightarrow> bit x 1"
      by (simp only: bit_eq_iff) (auto simp: bit_simps)
    finally show ?thesis .
  qed
  then show "isKilled node \<longleftrightarrow> bit (m_flags node) 1"
    by (simp add: isKilled_def IsKilled_def)
qed

end
