(* ===== verification/CE_Subset.thy ===== *)
theory CE_Subset
  imports CE_Nfa CE_Dfa
begin

text \<open>
  The subset construction of \<open>contentextensions/NFAToDFA.cpp\<close>.

  A set of NFA nodes is a duplicate-free list. The hash table of unique node sets compares sets by
  their elements; here it is the list of its entries, each with the index of its DFA node.
  \<open>None\<close> is a crash: an index out of range, or a \<open>RELEASE_ASSERT\<close>.
\<close>

section \<open>Epsilon closures\<close>

text \<open>One pass of the inner loop: new targets go to the closure, the stack and the output.\<close>

definition push_new :: "nat list \<Rightarrow> nat list \<times> nat list \<times> nat list \<Rightarrow> nat list \<times> nat list \<times> nat list" where
  "push_new targets st =
     fold (\<lambda>t (closure, unprocessed, output).
             if t \<in> set closure then (closure, unprocessed, output)
             else (closure @ [t], unprocessed @ [t], output @ [t])) targets st"

definition epsilon_targets :: "nfa_node list \<Rightarrow> nat set" where
  "epsilon_targets graph = (\<Union>node \<in> set graph. set (node_targets node epsilonTransitionCharacter))"

lemma finite_epsilon_targets [simp]: "finite (epsilon_targets graph)"
  by (simp add: epsilon_targets_def)

lemma push_new_shape:
  "push_new ts (c, u, out) = (c', u', out') \<Longrightarrow>
     \<exists>new. c' = c @ new \<and> u' = u @ new \<and> out' = out @ new \<and> distinct new \<and> set new = set ts - set c"
proof (induction ts arbitrary: c u out)
  case (Cons t ts)
  show ?case
  proof (cases "t \<in> set c")
    case True
    with Cons show ?thesis by (fastforce simp: push_new_def)
  next
    case False
    then have "push_new ts (c @ [t], u @ [t], out @ [t]) = (c', u', out')" using Cons.prems by (simp add: push_new_def)
    from Cons.IH [OF this] obtain new where "c' = (c @ [t]) @ new" "u' = (u @ [t]) @ new" "out' = (out @ [t]) @ new"
      "distinct new" "set new = set ts - set (c @ [t])" by blast
    with False show ?thesis by (intro exI [of _ "t # new"]) auto
  qed
qed (simp add: push_new_def)

lemma measure_subset:
  assumes "finite T" "distinct new" "new \<noteq> []" "set new \<subseteq> T - C"
  shows "card (T - (C \<union> set new)) < card (T - C)"
proof (rule psubset_card_mono)
  show "finite (T - C)" using assms by simp
  show "T - (C \<union> set new) \<subset> T - C" using assms by (cases new) auto
qed

function closure_loop :: "nfa_node list \<Rightarrow> nat list \<Rightarrow> nat list \<Rightarrow> nat list \<Rightarrow> nat list option" where
  "closure_loop graph closure unprocessedNodes output =
     (if unprocessedNodes = [] then Some output
      else
        let unprocessedNodeId = last unprocessedNodes
        in if length graph \<le> unprocessedNodeId then None
           else
             let (closure, unprocessedNodes, output) =
                   push_new (node_targets (graph ! unprocessedNodeId) epsilonTransitionCharacter)
                     (closure, butlast unprocessedNodes, output)
             in closure_loop graph closure unprocessedNodes output)"
  by pat_completeness auto
termination
proof (relation "measures [\<lambda>(graph, closure, _, _). card (epsilon_targets graph - set closure), \<lambda>(_, _, u, _). length u]")
  fix graph :: "nfa_node list" and closure u out0 :: "nat list" and id st c x u' out'
  assume u: "u \<noteq> []" and id: "id = last u" and lt: "\<not> length graph \<le> id"
    and st: "st = push_new (node_targets (graph ! id) epsilonTransitionCharacter) (closure, butlast u, out0)"
    and parts: "(c, x) = st" "(u', out') = x"
  then have "push_new (node_targets (graph ! id) epsilonTransitionCharacter) (closure, butlast u, out0) = (c, u', out')"
    by simp
  from push_new_shape [OF this] obtain new where new: "c = closure @ new" "u' = butlast u @ new" "distinct new"
    "set new = set (node_targets (graph ! id) epsilonTransitionCharacter) - set closure" by blast
  have "set (node_targets (graph ! id) epsilonTransitionCharacter) \<subseteq> epsilon_targets graph"
    using lt nth_mem [of id graph] by (fastforce simp: epsilon_targets_def simp del: nth_mem)
  then have sub: "set new \<subseteq> epsilon_targets graph - set closure" using new(4) by blast
  show "((graph, c, u', out'), graph, closure, u, out0)
    \<in> measures [\<lambda>(graph, closure, _, _). card (epsilon_targets graph - set closure), \<lambda>(_, _, u, _). length u]"
  proof (cases "new = []")
    case True
    with new u show ?thesis by simp
  next
    case False
    with measure_subset [OF finite_epsilon_targets new(3) False sub] new(1) show ?thesis by simp
  qed
qed simp

declare closure_loop.simps [simp del]

definition epsilonClosureExcludingSelf :: "nfa_node list \<Rightarrow> nat \<Rightarrow> nat list option" where
  "epsilonClosureExcludingSelf graph nodeId =
     (case map_of (transitions (graph ! nodeId)) epsilonTransitionCharacter of
        None \<Rightarrow> Some []
      | Some slot \<Rightarrow> if slot = [] then None else closure_loop graph (hs_add_all slot [nodeId]) slot slot)"

fun sequence_option :: "'a option list \<Rightarrow> 'a list option" where
  "sequence_option [] = Some []"
| "sequence_option (x # xs) = (case x of None \<Rightarrow> None | Some a \<Rightarrow> map_option (Cons a) (sequence_option xs))"

definition remove_epsilon :: "nfa_node \<Rightarrow> nfa_node" where
  "remove_epsilon node = node\<lparr>transitions := hm_remove epsilonTransitionCharacter (transitions node)\<rparr>"

definition resolveEpsilonClosures :: "nfa_node list \<Rightarrow> (nfa_node list \<times> nat list list) option" where
  "resolveEpsilonClosures graph =
     map_option
       (\<lambda>closures. (map2 (\<lambda>node closure. if closure \<noteq> [] then remove_epsilon node else node) graph closures, closures))
       (sequence_option (map (epsilonClosureExcludingSelf graph) [0..<length graph]))"

definition extendSetWithClosure :: "nat list list \<Rightarrow> nat \<Rightarrow> nat list \<Rightarrow> nat list" where
  "extendSetWithClosure closures nodeId s = hs_add_all (closures ! nodeId) s"

section \<open>Unique sets of nodes\<close>

type_synonym unique_set = "nat list \<times> nat"

record subset_state =
  sub_dfa :: DFA
  uniqueNodeIdSetTable :: "unique_set list"
  unprocessedNodes :: "unique_set list"

text \<open>\<open>UniqueNodeIdSet::operator==\<close>: equal sizes, and every element contained.\<close>

definition equal_sets :: "nat list \<Rightarrow> nat list \<Rightarrow> bool" where
  "equal_sets a b \<longleftrightarrow> length a = length b \<and> list_all (\<lambda>x. x \<in> set b) a"

definition find_set :: "nat list \<Rightarrow> unique_set list \<Rightarrow> nat option" where
  "find_set s table = map_option snd (find (\<lambda>(s', id). equal_sets s' s) table)"

text \<open>\<open>NodeIdSetToUniqueNodeIdSetTranslator::translate\<close>: a new DFA node with the actions of the set.\<close>

definition translate :: "nfa_node list \<Rightarrow> nat list \<Rightarrow> DFA \<Rightarrow> (DFA \<times> nat) option" where
  "translate graph nodeIdSet dfa =
     (let acts = fold (\<lambda>n acts. hs_add_all (finalRuleIds (graph ! n)) acts) nodeIdSet [];
          actionsStart = length (actions dfa);
          dfa = dfa\<lparr>actions := actions dfa @ acts\<rparr>
      in if length acts \<le> 65535
         then Some (dfa\<lparr>nodes := nodes dfa @ [set_actions actionsStart (length acts) new_DFANode]\<rparr>, length (nodes dfa))
         else None)"

lemma translate_code [code]:
  "translate graph nodeIdSet dfa =
     (let acts = fold (\<lambda>n acts. hs_add_all (finalRuleIds (graph ! n)) acts) nodeIdSet [];
          actionsStart = length (actions dfa);
          dfa = dfa\<lparr>actions := actions dfa @ acts\<rparr>
      in if int (length acts) \<le> 65535
         then Some (dfa\<lparr>nodes := nodes dfa @ [set_actions actionsStart (length acts) new_DFANode]\<rparr>, length (nodes dfa))
         else None)"
  by (simp add: translate_def)

definition getOrCreateDFANode :: "nfa_node list \<Rightarrow> nat list \<Rightarrow> subset_state \<Rightarrow> (subset_state \<times> nat) option" where
  "getOrCreateDFANode graph nodeSet st =
     (case find_set nodeSet (uniqueNodeIdSetTable st) of
        Some dfaNodeId \<Rightarrow> Some (st, dfaNodeId)
      | None \<Rightarrow>
          map_option
            (\<lambda>(dfa, dfaNodeId).
               (st\<lparr>sub_dfa := dfa, uniqueNodeIdSetTable := uniqueNodeIdSetTable st @ [(nodeSet, dfaNodeId)],
                   unprocessedNodes := unprocessedNodes st @ [(nodeSet, dfaNodeId)]\<rparr>, dfaNodeId))
            (translate graph nodeSet (sub_dfa st)))"

section \<open>The transitions of a set\<close>

definition fallback_set :: "nfa_node list \<Rightarrow> nat list list \<Rightarrow> nat list \<Rightarrow> nat list" where
  "fallback_set graph closures source =
     fold (\<lambda>t s. if t \<in> set s then s else extendSetWithClosure closures t (hs_add t s))
       (concat (map (\<lambda>n. transitionsOnAnyCharacter (graph ! n)) source)) []"

definition add_slot :: "nat list list \<Rightarrow> nat list \<Rightarrow> nat \<times> nat list \<Rightarrow> nat list list option \<Rightarrow> nat list list option" where
  "add_slot closures fallback slot acc =
     (case acc of
        None \<Rightarrow> None
      | Some sts \<Rightarrow>
          (let (key, targets) = slot
           in if 128 \<le> key then None
              else
                let targetSet = fold (\<lambda>t s. extendSetWithClosure closures t (hs_add t s)) targets (sts ! key);
                    targetSet = (if key \<noteq> 0 then hs_add_all fallback targetSet else targetSet)
                in Some (sts[key := targetSet])))"

definition populateTransitions ::
  "nfa_node list \<Rightarrow> nat list list \<Rightarrow> nat list \<Rightarrow> (nat list list \<times> nat list) option" where
  "populateTransitions graph closures source =
     (let fallback = fallback_set graph closures source
      in map_option (\<lambda>sts. (sts, fallback))
           (fold (add_slot closures fallback) (concat (map (\<lambda>n. transitions (graph ! n)) source))
              (Some (replicate 128 []))))"

section \<open>The construction\<close>

text \<open>The loop over the keys: a transition for every set that is not empty.\<close>

fun add_key_transitions :: "nfa_node list \<Rightarrow> nat \<Rightarrow> nat list list \<Rightarrow> subset_state \<Rightarrow> subset_state option" where
  "add_key_transitions graph key [] st = Some st"
| "add_key_transitions graph key (targetNodeSet # sts) st =
     (if targetNodeSet = [] then add_key_transitions graph (Suc key) sts st
      else
        case getOrCreateDFANode graph targetNodeSet st of
          None \<Rightarrow> None
        | Some (st, targetNodeId) \<Rightarrow>
            add_key_transitions graph (Suc key) sts
              (st\<lparr>sub_dfa := sub_dfa st\<lparr>dfa_transitions := dfa_transitions (sub_dfa st) @ [(key, targetNodeId)]\<rparr>\<rparr>))"

definition set_node_transitions :: "nat \<Rightarrow> nat \<Rightarrow> nat \<Rightarrow> subset_state \<Rightarrow> subset_state" where
  "set_node_transitions dfaNodeId start len st =
     st\<lparr>sub_dfa := (sub_dfa st)\<lparr>nodes :=
       (nodes (sub_dfa st))[dfaNodeId := setTransitions start len (nodes (sub_dfa st) ! dfaNodeId)]\<rparr>\<rparr>"

definition process_set :: "nfa_node list \<Rightarrow> nat list list \<Rightarrow> subset_state \<Rightarrow> subset_state option" where
  "process_set graph closures st =
     (let (source, dfaNodeId) = last (unprocessedNodes st);
          st = st\<lparr>unprocessedNodes := butlast (unprocessedNodes st)\<rparr>
      in case populateTransitions graph closures source of
           None \<Rightarrow> None
         | Some (sts, fallback) \<Rightarrow>
             let transitionsStart = length (dfa_transitions (sub_dfa st))
             in case add_key_transitions graph 0 sts st of
                  None \<Rightarrow> None
                | Some st \<Rightarrow>
                    let transitionsLength = length (dfa_transitions (sub_dfa st)) - transitionsStart
                    in if 127 < transitionsLength then None
                       else
                         let st = set_node_transitions dfaNodeId transitionsStart transitionsLength st
                         in if fallback = [] then Some st
                            else case getOrCreateDFANode graph fallback st of
                                   None \<Rightarrow> None
                                 | Some (st, targetNodeId) \<Rightarrow>
                                     map_option (\<lambda>dfa. st\<lparr>sub_dfa := dfa\<rparr>)
                                       (addFallbackTransition dfaNodeId targetNodeId (sub_dfa st)))"

text \<open>The outer loop runs until no set is left, with fuel; running out is a result of its own.\<close>

datatype 'a outcome = Returned 'a | Crashed | OutOfFuel

fun convert_loop :: "nat \<Rightarrow> nfa_node list \<Rightarrow> nat list list \<Rightarrow> subset_state \<Rightarrow> DFA outcome" where
  "convert_loop fuel graph closures st =
     (if unprocessedNodes st = [] then Returned (sub_dfa st)
      else case fuel of
             0 \<Rightarrow> OutOfFuel
           | Suc fuel \<Rightarrow>
               (case process_set graph closures st of
                  None \<Rightarrow> Crashed
                | Some st \<Rightarrow> convert_loop fuel graph closures st))"

declare convert_loop.simps [simp del]

definition NFAToDFA_convert :: "nat \<Rightarrow> nfa \<Rightarrow> DFA outcome" where
  "NFAToDFA_convert fuel nfa =
     (case resolveEpsilonClosures (m_nodes nfa) of
        None \<Rightarrow> Crashed
      | Some (graph, closures) \<Rightarrow>
          (let initialSet = extendSetWithClosure closures (m_root nfa) [m_root nfa]
           in case getOrCreateDFANode graph initialSet
                     \<lparr>sub_dfa = new_DFA, uniqueNodeIdSetTable = [], unprocessedNodes = []\<rparr> of
                None \<Rightarrow> Crashed
              | Some (st, _) \<Rightarrow> convert_loop fuel graph closures st))"

end
