(* ===== verification/CE_Subset_Closure.thy ===== *)
theory CE_Subset_Closure
  imports CE_Subset
begin

text \<open>
  Epsilon closures and the target sets of the subset construction are what they should be: the
  closure loop computes reachability by epsilon edges, and \<open>populateTransitions\<close> computes, for
  every character, the closed set of successors.
\<close>

section \<open>Well-formed graphs\<close>

definition node_ok :: "nfa_node \<Rightarrow> bool" where
  "node_ok node \<longleftrightarrow> distinct (map fst (transitions node)) \<and>
     (\<forall>(k, ts) \<in> set (transitions node). (k < 128 \<or> k = epsilonTransitionCharacter) \<and> ts \<noteq> [])"

definition graph_ok :: "nfa \<Rightarrow> bool" where
  "graph_ok A \<longleftrightarrow> wf_nfa A \<and> (\<forall>node \<in> set (m_nodes A). node_ok node)"

abbreviation size_of :: "nfa \<Rightarrow> nat" where
  "size_of A \<equiv> length (m_nodes A)"

definition eclose :: "nfa \<Rightarrow> nat set \<Rightarrow> nat set" where
  "eclose A S = {m. \<exists>n \<in> S. path (edges A) n [] m}"

lemma graph_okD:
  assumes "graph_ok A" "n < size_of A"
  shows "node_ok (m_nodes A ! n)" "m_root A < size_of A"
  using assms nth_mem by (auto simp: graph_ok_def wf_nfa_def)

lemma edge_bounds: "graph_ok A \<Longrightarrow> (p, l, q) \<in> edges A \<Longrightarrow> p < size_of A \<and> q < size_of A"
  unfolding graph_ok_def wf_nfa_def by blast

lemma eps_edge: "(p, None, q) \<in> edges A \<longleftrightarrow> p < size_of A \<and> q \<in> set (node_targets (m_nodes A ! p) epsilonTransitionCharacter)"
  by (auto simp: edges_def node_edges_def)

lemma path_Nil_closed:
  assumes "path E p w q" "w = []" "p \<in> S" "\<And>a b. (a, None, b) \<in> E \<Longrightarrow> a \<in> S \<Longrightarrow> b \<in> S"
  shows "q \<in> S"
  using assms(1-3)
proof (induction rule: path.induct)
  case (path_eps p r w q)
  then show ?case using assms(4) by blast
qed auto

lemma path_bounds: "path (edges A) p w q \<Longrightarrow> graph_ok A \<Longrightarrow> p < size_of A \<Longrightarrow> q < size_of A"
  by (induction rule: path.induct) (auto dest: edge_bounds)

lemma eclose_idem: "eclose A (eclose A S) = eclose A S"
  unfolding eclose_def by (auto intro: path.path_refl) (metis append_Nil path_append)

lemma eclose_Un: "eclose A (S \<union> T) = eclose A S \<union> eclose A T"
  by (auto simp: eclose_def)

lemma eclose_UN: "eclose A (\<Union>i \<in> I. S i) = (\<Union>i \<in> I. eclose A (S i))"
  by (auto simp: eclose_def)

lemma eclose_empty [simp]: "eclose A {} = {}"
  by (simp add: eclose_def)

lemma eclose_ext: "S \<subseteq> eclose A S"
  unfolding eclose_def using path.path_refl by blast

lemma eclose_bounds: "graph_ok A \<Longrightarrow> S \<subseteq> {..<size_of A} \<Longrightarrow> eclose A S \<subseteq> {..<size_of A}"
  unfolding eclose_def using path_bounds by blast

section \<open>The closure loop\<close>

lemma closure_loop_correct:
  assumes ok: "graph_ok A"
  shows "set closure = insert n (set out) \<Longrightarrow> set u \<subseteq> set out \<Longrightarrow> set u \<subseteq> {..<size_of A} \<Longrightarrow>
     set closure \<subseteq> eclose A {n} \<Longrightarrow>
     (\<forall>x \<in> set closure - set u. set (node_targets (m_nodes A ! x) epsilonTransitionCharacter) \<subseteq> set closure) \<Longrightarrow>
     \<exists>out'. closure_loop (m_nodes A) closure u out = Some (out @ out') \<and> insert n (set (out @ out')) = eclose A {n}"
proof (induction "m_nodes A" closure u out rule: closure_loop.induct)
  case (1 closure u out)
  show ?case
  proof (cases "u = []")
    case True
    have "eclose A {n} \<subseteq> set closure"
    proof
      fix m assume "m \<in> eclose A {n}"
      then have "path (edges A) n [] m" by (simp add: eclose_def)
      then show "m \<in> set closure"
        using 1(2,6) True by (elim path_Nil_closed) (auto simp: eps_edge)
    qed
    with 1(5) have "eclose A {n} = set closure" by blast
    with 1(2) True show ?thesis by (simp add: closure_loop.simps)
  next
    case False
    let ?x = "last u" and ?ts = "node_targets (m_nodes A ! last u) epsilonTransitionCharacter"
    have "?x \<in> set u" using False by simp
    then have x: "?x < size_of A" "?x \<in> set u" using 1(4) by auto
    obtain c' u' o' where p: "push_new ?ts (closure, butlast u, out) = (c', u', o')" using prod_cases3 by blast
    from push_new_shape [OF p] obtain new where new: "c' = closure @ new" "u' = butlast u @ new" "o' = out @ new"
      "set new = set ?ts - set closure" by blast
    have ts: "t < size_of A \<and> t \<in> eclose A {n}" if "t \<in> set ?ts" for t
    proof -
      have e: "(?x, None, t) \<in> edges A" using that x by (simp add: eps_edge)
      moreover have "path (edges A) n [] ?x" using x(2) 1(3,2,5) by (auto simp: eclose_def)
      ultimately have "path (edges A) n ([] @ []) t" by (blast intro: path_append path_eps_single)
      then show ?thesis using edge_bounds [OF ok e] by (simp add: eclose_def)
    qed
    have u: "set u = insert ?x (set (butlast u))"
      using False by (metis append_butlast_last_id list.simps(15) rotate1.simps(2) set_rotate1)
    have rec: "closure_loop (m_nodes A) closure u out = closure_loop (m_nodes A) c' u' o'"
      using False x p by (simp add: closure_loop.simps [of _ _ u])
    have "\<exists>out'. closure_loop (m_nodes A) c' u' o' = Some (o' @ out') \<and> insert n (set (o' @ out')) = eclose A {n}"
    proof (rule "1.hyps" [OF False refl _ p [symmetric] refl refl])
      show "\<not> size_of A \<le> ?x" using x by simp
      show "set c' = insert n (set o')" using 1(2) new by auto
      show "set u' \<subseteq> set o'" using 1(3) new u by auto
      show "set u' \<subseteq> {..<size_of A}" using 1(4) new u ts by auto
      show "set c' \<subseteq> eclose A {n}" using 1(5) new ts by auto
      show "\<forall>y \<in> set c' - set u'. set (node_targets (m_nodes A ! y) epsilonTransitionCharacter) \<subseteq> set c'"
      proof
        fix y assume y: "y \<in> set c' - set u'"
        show "set (node_targets (m_nodes A ! y) epsilonTransitionCharacter) \<subseteq> set c'"
        proof (cases "y = ?x")
          case True
          then show ?thesis using new by auto
        next
          case False
          then have "y \<in> set closure - set u" using y new u by auto
          then show ?thesis using 1(6) new by auto
        qed
      qed
    qed
    then show ?thesis using rec new by auto
  qed
qed

lemma epsilonClosureExcludingSelf_correct:
  assumes ok: "graph_ok A" and n: "n < size_of A"
  shows "\<exists>c. epsilonClosureExcludingSelf (m_nodes A) n = Some c \<and> insert n (set c) = eclose A {n} \<and>
     (c = [] \<longleftrightarrow> map_of (transitions (m_nodes A ! n)) epsilonTransitionCharacter = None)"
proof (cases "map_of (transitions (m_nodes A ! n)) epsilonTransitionCharacter")
  case None
  have "eclose A {n} \<subseteq> {n}"
  proof
    fix m assume "m \<in> eclose A {n}"
    then have "path (edges A) n [] m" by (simp add: eclose_def)
    then show "m \<in> {n}" by (rule path_Nil_closed) (use None in \<open>auto simp: eps_edge node_targets_def\<close>)
  qed
  with None eclose_ext [of "{n}" A] show ?thesis by (auto simp: epsilonClosureExcludingSelf_def)
next
  case (Some slot)
  have ts: "node_targets (m_nodes A ! n) epsilonTransitionCharacter = slot" using Some by (simp add: node_targets_def)
  have "slot \<noteq> []" using graph_okD(1) [OF ok n] map_of_SomeD [OF Some] unfolding node_ok_def by blast
  have sub: "t < size_of A \<and> t \<in> eclose A {n}" if "t \<in> set slot" for t
  proof -
    have e: "(n, None, t) \<in> edges A" using that n ts by (simp add: eps_edge)
    then show ?thesis using edge_bounds [OF ok e] path_eps_single [OF e] by (simp add: eclose_def)
  qed
  have "\<exists>out'. closure_loop (m_nodes A) (hs_add_all slot [n]) slot slot = Some (slot @ out') \<and>
      insert n (set (slot @ out')) = eclose A {n}"
    by (rule closure_loop_correct [OF ok]) (use sub ts eclose_ext [of "{n}" A] in auto)
  with Some \<open>slot \<noteq> []\<close> show ?thesis by (auto simp: epsilonClosureExcludingSelf_def)
qed

section \<open>Resolving all closures\<close>

lemma sequence_option_Some:
  "(\<And>x. x \<in> set xs \<Longrightarrow> f x \<noteq> None) \<Longrightarrow> sequence_option (map f xs) = Some (map (\<lambda>x. the (f x)) xs)"
proof (induction xs)
  case (Cons a xs)
  then obtain y where "f a = Some y" by fastforce
  with Cons show ?case by simp
qed simp

definition closures_ok :: "nfa \<Rightarrow> nfa_node list \<Rightarrow> nat list list \<Rightarrow> bool" where
  "closures_ok A graph closures \<longleftrightarrow> length graph = size_of A \<and> length closures = size_of A \<and>
     (\<forall>n < size_of A. insert n (set (closures ! n)) = eclose A {n} \<and>
        transitionsOnAnyCharacter (graph ! n) = transitionsOnAnyCharacter (m_nodes A ! n) \<and>
        finalRuleIds (graph ! n) = finalRuleIds (m_nodes A ! n) \<and>
        distinct (map fst (transitions (graph ! n))) \<and>
        (\<forall>(k, ts) \<in> set (transitions (graph ! n)). k < 128 \<and> ts \<noteq> []) \<and>
        (\<forall>k. k \<noteq> epsilonTransitionCharacter \<longrightarrow> map_of (transitions (graph ! n)) k = map_of (transitions (m_nodes A ! n)) k))"

lemma resolveEpsilonClosures_correct:
  assumes ok: "graph_ok A"
  shows "\<exists>graph closures. resolveEpsilonClosures (m_nodes A) = Some (graph, closures) \<and> closures_ok A graph closures"
proof -
  let ?f = "epsilonClosureExcludingSelf (m_nodes A)"
  define closures where "closures = map (\<lambda>n. the (?f n)) [0..<size_of A]"
  define graph where "graph = map2 (\<lambda>node closure. if closure \<noteq> [] then remove_epsilon node else node) (m_nodes A) closures"
  have c: "?f n = Some (closures ! n) \<and> insert n (set (closures ! n)) = eclose A {n} \<and>
     (closures ! n = [] \<longleftrightarrow> map_of (transitions (m_nodes A ! n)) epsilonTransitionCharacter = None)" if n: "n < size_of A" for n
  proof -
    obtain x where x: "?f n = Some x" "insert n (set x) = eclose A {n}"
      "x = [] \<longleftrightarrow> map_of (transitions (m_nodes A ! n)) epsilonTransitionCharacter = None"
      using epsilonClosureExcludingSelf_correct [OF ok n] by metis
    then have "closures ! n = x" using n by (simp add: closures_def)
    with x show ?thesis by simp
  qed
  have "sequence_option (map ?f [0..<size_of A]) = Some closures"
    unfolding closures_def by (rule sequence_option_Some) (use c in force)
  then have res: "resolveEpsilonClosures (m_nodes A) = Some (graph, closures)"
    by (simp add: resolveEpsilonClosures_def graph_def)
  have g: "graph ! n = (if closures ! n \<noteq> [] then remove_epsilon (m_nodes A ! n) else m_nodes A ! n)" if "n < size_of A" for n
    using that by (simp add: graph_def closures_def)
  have "closures_ok A graph closures"
    unfolding closures_ok_def
  proof (intro conjI allI impI)
    show "length graph = size_of A" "length closures = size_of A" by (simp_all add: graph_def closures_def)
  next
    fix n assume n: "n < size_of A"
    note node = graph_okD(1) [OF ok n]
    show "insert n (set (closures ! n)) = eclose A {n}" using c [OF n] by blast
    show "transitionsOnAnyCharacter (graph ! n) = transitionsOnAnyCharacter (m_nodes A ! n)"
      "finalRuleIds (graph ! n) = finalRuleIds (m_nodes A ! n)" using g [OF n] by (simp_all add: remove_epsilon_def)
    show "distinct (map fst (transitions (graph ! n)))"
      using g [OF n] node by (simp add: remove_epsilon_def node_ok_def distinct_hm_remove)
    show "\<forall>(k, ts) \<in> set (transitions (graph ! n)). k < 128 \<and> ts \<noteq> []"
    proof (cases "closures ! n = []")
      case True
      then have "epsilonTransitionCharacter \<notin> fst ` set (transitions (m_nodes A ! n))"
        using c [OF n] by (simp add: map_of_eq_None_iff)
      with True g [OF n] node show ?thesis by (force simp: node_ok_def)
    next
      case False
      with g [OF n] node show ?thesis by (auto simp: remove_epsilon_def node_ok_def hm_remove_def)
    qed
    show "map_of (transitions (graph ! n)) k = map_of (transitions (m_nodes A ! n)) k" if "k \<noteq> epsilonTransitionCharacter" for k
      using g [OF n] that by (simp add: remove_epsilon_def)
  qed
  with res show ?thesis by blast
qed

section \<open>Successor sets\<close>

definition char_targets :: "nfa \<Rightarrow> nat set \<Rightarrow> nat \<Rightarrow> nat set" where
  "char_targets A S c = {m. \<exists>n \<in> S. (n, Some c, m) \<in> edges A}"

definition nfa_step :: "nfa \<Rightarrow> nat set \<Rightarrow> nat \<Rightarrow> nat set option" where
  "nfa_step A S c = (let T = eclose A (char_targets A S c) in if T = {} then None else Some T)"

text \<open>The successors by explicit transitions and by transitions on any character.\<close>

definition key_targets :: "nfa \<Rightarrow> nat set \<Rightarrow> nat \<Rightarrow> nat set" where
  "key_targets A S k = (\<Union>n \<in> S. set (node_targets (m_nodes A ! n) k))"

definition any_targets :: "nfa \<Rightarrow> nat set \<Rightarrow> nat set" where
  "any_targets A S = (\<Union>n \<in> S. set (transitionsOnAnyCharacter (m_nodes A ! n)))"

lemma char_targets_split:
  "S \<subseteq> {..<size_of A} \<Longrightarrow>
     char_targets A S c = (if c = epsilonTransitionCharacter then {} else key_targets A S c) \<union> (if c = 0 then {} else any_targets A S)"
  by (auto simp: char_targets_def key_targets_def any_targets_def edges_def node_edges_def subset_iff)

lemma closure_set:
  "closures_ok A graph closures \<Longrightarrow> n < size_of A \<Longrightarrow> set (extendSetWithClosure closures n (hs_add n s)) = eclose A {n} \<union> set s"
  by (auto simp: extendSetWithClosure_def closures_ok_def)

lemma fold_closures:
  assumes "closures_ok A graph closures"
  shows "\<forall>t \<in> set ts. t < size_of A \<Longrightarrow>
     set (fold (\<lambda>t s. extendSetWithClosure closures t (hs_add t s)) ts s) = eclose A (set ts) \<union> set s"
proof (induction ts arbitrary: s)
  case (Cons t ts)
  have "eclose A (set (t # ts)) = eclose A {t} \<union> eclose A (set ts)" using eclose_Un [of A "{t}" "set ts"] by simp
  with Cons closure_set [OF assms, of t] show ?case by auto
qed simp

lemma fold_closures_distinct:
  "distinct s \<Longrightarrow> distinct (fold (\<lambda>t s. extendSetWithClosure closures t (hs_add t s)) ts s)"
  by (induction ts arbitrary: s) (auto simp: extendSetWithClosure_def)

lemma fold_fallback:
  assumes ok: "closures_ok A graph closures"
  shows "\<forall>t \<in> set ts. t < size_of A \<Longrightarrow> eclose A (set s) = set s \<Longrightarrow> distinct s \<Longrightarrow>
     set (fold (\<lambda>t s. if t \<in> set s then s else extendSetWithClosure closures t (hs_add t s)) ts s) = eclose A (set ts) \<union> set s \<and>
     distinct (fold (\<lambda>t s. if t \<in> set s then s else extendSetWithClosure closures t (hs_add t s)) ts s)"
proof (induction ts arbitrary: s)
  case (Cons t ts)
  have split: "eclose A (set (t # ts)) = eclose A {t} \<union> eclose A (set ts)" using eclose_Un [of A "{t}" "set ts"] by simp
  show ?case
  proof (cases "t \<in> set s")
    case True
    then have "eclose A {t} \<subseteq> set s" using Cons.prems(2) by (auto simp: eclose_def)
    with Cons True split show ?thesis by auto
  next
    case False
    let ?s = "extendSetWithClosure closures t (hs_add t s)"
    have s: "set ?s = eclose A {t} \<union> set s" using closure_set [OF ok] Cons.prems by simp
    then have "eclose A (set ?s) = set ?s" using Cons.prems(2) by (simp add: eclose_Un eclose_idem)
    moreover have "distinct ?s" using Cons.prems(3) by (simp add: extendSetWithClosure_def)
    ultimately show ?thesis using Cons.IH [of ?s] Cons.prems(1) False split s by auto
  qed
qed simp

lemma any_targets_bound: "graph_ok A \<Longrightarrow> n < size_of A \<Longrightarrow> t \<in> set (transitionsOnAnyCharacter (m_nodes A ! n)) \<Longrightarrow> t < size_of A"
proof -
  assume ok: "graph_ok A" and "n < size_of A" "t \<in> set (transitionsOnAnyCharacter (m_nodes A ! n))"
  then have "(n, Some 1, t) \<in> edges A" by (simp add: edges_def node_edges_def)
  then show ?thesis using edge_bounds [OF ok] by blast
qed

lemma key_targets_bound:
  "graph_ok A \<Longrightarrow> n < size_of A \<Longrightarrow> k \<noteq> epsilonTransitionCharacter \<Longrightarrow> t \<in> set (node_targets (m_nodes A ! n) k) \<Longrightarrow> t < size_of A"
proof -
  assume ok: "graph_ok A" and "n < size_of A" "k \<noteq> epsilonTransitionCharacter" "t \<in> set (node_targets (m_nodes A ! n) k)"
  then have "(n, Some k, t) \<in> edges A" by (simp add: edges_def node_edges_def)
  then show ?thesis using edge_bounds [OF ok] by blast
qed

lemma fallback_set_correct:
  assumes ok: "graph_ok A" and cl: "closures_ok A graph closures" and src: "set source \<subseteq> {..<size_of A}"
  shows "set (fallback_set graph closures source) = eclose A (any_targets A (set source))"
    and "distinct (fallback_set graph closures source)"
proof -
  let ?ts = "concat (map (\<lambda>n. transitionsOnAnyCharacter (graph ! n)) source)"
  have ts: "set ?ts = any_targets A (set source)"
  proof -
    have "transitionsOnAnyCharacter (graph ! n) = transitionsOnAnyCharacter (m_nodes A ! n)" if "n \<in> set source" for n
      using cl src that by (auto simp: closures_ok_def)
    then show ?thesis by (simp add: any_targets_def)
  qed
  have "\<forall>t \<in> set ?ts. t < size_of A"
    unfolding ts using src any_targets_bound [OF ok] by (auto simp: any_targets_def subset_iff)
  from fold_fallback [OF cl this, of "[]"] ts
  show "set (fallback_set graph closures source) = eclose A (any_targets A (set source))"
    "distinct (fallback_set graph closures source)" by (auto simp: fallback_set_def)
qed

text \<open>The slots of a node, one by one.\<close>

lemma fold_add_slot:
  assumes cl: "closures_ok A graph closures"
  shows "\<forall>(k, ts) \<in> set slots. k < 128 \<and> ts \<noteq> [] \<and> (\<forall>t \<in> set ts. t < size_of A) \<Longrightarrow> length sts = 128 \<Longrightarrow>
     list_all distinct sts \<Longrightarrow>
     \<exists>sts'. fold (add_slot closures fallback) slots (Some sts) = Some sts' \<and> length sts' = 128 \<and> list_all distinct sts' \<and>
       (\<forall>k < 128. set (sts' ! k) = set (sts ! k) \<union> eclose A (\<Union>(k', ts) \<in> set slots. if k' = k then set ts else {}) \<union>
          (if k \<noteq> 0 \<and> k \<in> fst ` set slots then set fallback else {}))"
proof (induction slots arbitrary: sts)
  case (Cons slot slots)
  obtain k0 ts where slot: "slot = (k0, ts)" by (cases slot)
  with Cons.prems have k0: "k0 < 128" "\<forall>t \<in> set ts. t < size_of A" by auto
  let ?t1 = "fold (\<lambda>t s. extendSetWithClosure closures t (hs_add t s)) ts (sts ! k0)"
  let ?t = "if k0 \<noteq> 0 then hs_add_all fallback ?t1 else ?t1"
  let ?sts = "sts[k0 := ?t]"
  have step: "add_slot closures fallback slot (Some sts) = Some ?sts" using slot k0 by (simp add: add_slot_def Let_def)
  have "distinct (sts ! k0)" using Cons.prems(2,3) k0 by (simp add: list_all_length)
  then have "distinct ?t1" by (rule fold_closures_distinct)
  then have "distinct ?t" by (cases "k0 = 0") simp_all
  then have d: "list_all distinct ?sts" using Cons.prems(3)
    by (auto simp: list_all_iff dest!: set_update_subset_insert [THEN subsetD])
  have t: "set ?t = set (sts ! k0) \<union> eclose A (set ts) \<union> (if k0 \<noteq> 0 then set fallback else {})"
    using fold_closures [OF cl k0(2), of "sts ! k0"] by auto
  obtain sts' where sts': "fold (add_slot closures fallback) slots (Some ?sts) = Some sts'" "length sts' = 128" "list_all distinct sts'"
    "\<forall>k < 128. set (sts' ! k) = set (?sts ! k) \<union> eclose A (\<Union>(k', ts) \<in> set slots. if k' = k then set ts else {}) \<union>
          (if k \<noteq> 0 \<and> k \<in> fst ` set slots then set fallback else {})"
    using Cons.IH [OF _ _ d] Cons.prems by auto
  have "set (sts' ! k) = set (sts ! k) \<union> eclose A (\<Union>(k', ts) \<in> set (slot # slots). if k' = k then set ts else {}) \<union>
          (if k \<noteq> 0 \<and> k \<in> fst ` set (slot # slots) then set fallback else {})" if "k < 128" for k
  proof -
    have "(\<Union>(k', ts) \<in> set (slot # slots). if k' = k then set ts else {}) =
        (if k0 = k then set ts else {}) \<union> (\<Union>(k', ts) \<in> set slots. if k' = k then set ts else {})"
      by (simp add: slot)
    then show ?thesis
      using sts'(4) that t k0 Cons.prems(2) by (auto simp: slot eclose_Un nth_list_update)
  qed
  with step sts' show ?case by auto
qed simp

text \<open>A list that represents a closed set of nodes.\<close>

definition set_ok :: "nfa \<Rightarrow> nat list \<Rightarrow> bool" where
  "set_ok A s \<longleftrightarrow> distinct s \<and> set s \<subseteq> {..<size_of A} \<and> eclose A (set s) = set s"

lemma populateTransitions_correct:
  assumes ok: "graph_ok A" and cl: "closures_ok A graph closures" and src: "set source \<subseteq> {..<size_of A}"
  shows "\<exists>sts fallback. populateTransitions graph closures source = Some (sts, fallback) \<and> length sts = 128 \<and>
     set_ok A fallback \<and> set fallback = eclose A (any_targets A (set source)) \<and>
     (\<forall>k < 128. set_ok A (sts ! k) \<and>
        (if key_targets A (set source) k = {} then sts ! k = []
         else sts ! k \<noteq> [] \<and> set (sts ! k) = eclose A (char_targets A (set source) k)))"
proof -
  let ?slots = "concat (map (\<lambda>n. transitions (graph ! n)) source)"
  let ?f = "fallback_set graph closures source"
  note f = fallback_set_correct [OF assms]
  have bound: "any_targets A (set source) \<subseteq> {..<size_of A}"
    using src any_targets_bound [OF ok] by (auto simp: any_targets_def subset_iff)
  have f_ok: "set_ok A ?f"
    using f eclose_bounds [OF ok bound] by (simp add: set_ok_def eclose_idem)
  have slots: "k < 128 \<and> ts \<noteq> [] \<and> (\<forall>t \<in> set ts. t < size_of A) \<and>
      (\<exists>n \<in> set source. map_of (transitions (m_nodes A ! n)) k = Some ts)" if slot: "(k, ts) \<in> set ?slots" for k ts
  proof -
    from slot obtain n where n: "n \<in> set source" "(k, ts) \<in> set (transitions (graph ! n))" by auto
    then have "n < size_of A" using src by auto
    with cl n have k: "k < 128" "ts \<noteq> []" "distinct (map fst (transitions (graph ! n)))"
      "\<forall>k. k \<noteq> epsilonTransitionCharacter \<longrightarrow> map_of (transitions (graph ! n)) k = map_of (transitions (m_nodes A ! n)) k"
      by (auto simp: closures_ok_def)
    have "k \<noteq> epsilonTransitionCharacter" using k(1) by (simp add: epsilonTransitionCharacter_def)
    with k(4) have "map_of (transitions (m_nodes A ! n)) k = map_of (transitions (graph ! n)) k" by metis
    then have "map_of (transitions (m_nodes A ! n)) k = Some ts"
      using map_of_is_SomeI [OF k(3) n(2)] by simp
    then show ?thesis
      using k key_targets_bound [OF ok \<open>n < size_of A\<close>, of k] n(1)
      by (auto simp: node_targets_def epsilonTransitionCharacter_def)
  qed
  have key: "(\<Union>(k', ts) \<in> set ?slots. if k' = k then set ts else {}) = key_targets A (set source) k"
    "k \<in> fst ` set ?slots \<longleftrightarrow> key_targets A (set source) k \<noteq> {}" if "k < 128" for k
  proof -
    have to_slot: "(k, ts) \<in> set ?slots" if n: "n \<in> set source" "map_of (transitions (m_nodes A ! n)) k = Some ts" for n ts
    proof -
      have "n < size_of A" using src n(1) by auto
      with cl have "map_of (transitions (graph ! n)) k = map_of (transitions (m_nodes A ! n)) k"
        using \<open>k < 128\<close> by (simp add: closures_ok_def epsilonTransitionCharacter_def)
      with n show ?thesis by (auto dest: map_of_SomeD)
    qed
    show "(\<Union>(k', ts) \<in> set ?slots. if k' = k then set ts else {}) = key_targets A (set source) k" (is "?l = ?r")
    proof
      show "?l \<subseteq> ?r"
      proof
        fix x assume "x \<in> ?l"
        then obtain slot where slot: "slot \<in> set ?slots" "x \<in> (case slot of (k', ts) \<Rightarrow> if k' = k then set ts else {})"
          by (rule UN_E)
        from slot(2) obtain ts where ts: "slot = (k, ts)" "x \<in> set ts" by (cases slot) (simp split: if_splits)
        with slot slots obtain n where "n \<in> set source" "map_of (transitions (m_nodes A ! n)) k = Some ts" by blast
        with ts(2) show "x \<in> ?r" unfolding key_targets_def node_targets_def by (intro UN_I [of n]) simp_all
      qed
      show "?r \<subseteq> ?l"
      proof
        fix x assume "x \<in> ?r"
        then obtain n ts where n: "n \<in> set source" "map_of (transitions (m_nodes A ! n)) k = Some ts" "x \<in> set ts"
          by (auto simp: key_targets_def node_targets_def split: option.splits) (metis that)
        have "(k, ts) \<in> set ?slots" by (rule to_slot [OF n(1,2)])
        with n(3) show "x \<in> ?l" by (intro UN_I [of "(k, ts)"]) simp_all
      qed
    qed
    show "k \<in> fst ` set ?slots \<longleftrightarrow> key_targets A (set source) k \<noteq> {}"
    proof
      assume "k \<in> fst ` set ?slots"
      then obtain ts where "(k, ts) \<in> set ?slots" by (metis (no_types) fst_conv imageE prod.collapse)
      from slots [OF this] obtain n where "n \<in> set source" "map_of (transitions (m_nodes A ! n)) k = Some ts" "ts \<noteq> []" by blast
      then have "hd ts \<in> key_targets A (set source) k" by (force simp: key_targets_def node_targets_def)
      then show "key_targets A (set source) k \<noteq> {}" by blast
    next
      assume "key_targets A (set source) k \<noteq> {}"
      then obtain n ts where "n \<in> set source" "map_of (transitions (m_nodes A ! n)) k = Some ts"
        by (auto simp: key_targets_def node_targets_def split: option.splits) (metis that)
      from to_slot [OF this] show "k \<in> fst ` set ?slots" by force
    qed
  qed
  have "\<forall>(k, ts) \<in> set ?slots. k < 128 \<and> ts \<noteq> [] \<and> (\<forall>t \<in> set ts. t < size_of A)" using slots by blast
  from fold_add_slot [OF cl this, of "replicate 128 []" ?f]
  obtain sts where sts: "fold (add_slot closures ?f) ?slots (Some (replicate 128 [])) = Some sts" "length sts = 128" "list_all distinct sts"
    "\<And>k. k < 128 \<Longrightarrow> set (sts ! k) = eclose A (key_targets A (set source) k) \<union>
       (if k \<noteq> 0 \<and> key_targets A (set source) k \<noteq> {} then set ?f else {})"
    using key by (auto simp: list_all_iff)
  have "set_ok A (sts ! k) \<and> (if key_targets A (set source) k = {} then sts ! k = []
         else sts ! k \<noteq> [] \<and> set (sts ! k) = eclose A (char_targets A (set source) k))" if k: "k < 128" for k
  proof (cases "key_targets A (set source) k = {}")
    case True
    then have "sts ! k = []" using sts(4) [OF k] by simp
    with True show ?thesis by (simp add: set_ok_def)
  next
    case False
    then have s: "set (sts ! k) = eclose A (char_targets A (set source) k)"
      using sts(4) [OF k] k char_targets_split [OF src, of k] f(1) by (auto simp: eclose_Un epsilonTransitionCharacter_def)
    have "char_targets A (set source) k \<subseteq> {..<size_of A}" using edge_bounds [OF ok] by (auto simp: char_targets_def)
    then have "set (sts ! k) \<subseteq> {..<size_of A}" unfolding s by (rule eclose_bounds [OF ok])
    moreover have "set (sts ! k) \<noteq> {}" using sts(4) [OF k] False eclose_ext [of "key_targets A (set source) k" A] by auto
    moreover have "distinct (sts ! k)" using sts(2,3) k by (simp add: list_all_length)
    ultimately show ?thesis using False s by (auto simp: set_ok_def eclose_idem)
  qed
  moreover have "populateTransitions graph closures source = Some (sts, ?f)"
    using sts(1) by (simp add: populateTransitions_def Let_def)
  ultimately show ?thesis using sts(2) f_ok f(1) by blast
qed

end
