(* ===== verification/CE_Subset_Correct.thy ===== *)
theory CE_Subset_Correct
  imports CE_Subset_Closure
begin

text \<open>
  The subset construction is correct, and ends. The invariant \<open>sinv\<close> says that the table lists
  distinct closed sets in the order of their DFA nodes, that every node has the actions of its
  set, and that every node that is no longer waiting has the transitions of its set.
\<close>

section \<open>The invariant\<close>

definition nfa_out :: "nfa \<Rightarrow> nat set \<Rightarrow> u64 set" where
  "nfa_out A S = (\<Union>n \<in> S. rules_at A n)"

abbreviation tab :: "subset_state \<Rightarrow> nat \<Rightarrow> nat set" where
  "tab st i \<equiv> set (fst (uniqueNodeIdSetTable st ! i))"

abbreviation tab_size :: "subset_state \<Rightarrow> nat" where
  "tab_size st \<equiv> length (uniqueNodeIdSetTable st)"

definition entry_ok :: "nfa \<Rightarrow> subset_state \<Rightarrow> nat \<Rightarrow> bool" where
  "entry_ok A st i \<longleftrightarrow>
     snd (uniqueNodeIdSetTable st ! i) = i \<and> set_ok A (fst (uniqueNodeIdSetTable st ! i)) \<and> tab st i \<noteq> {} \<and>
     m_actionsStart (nodes (sub_dfa st) ! i) + actionsLength (nodes (sub_dfa st) ! i) \<le> length (actions (sub_dfa st)) \<and>
     dfa_out (sub_dfa st) i = nfa_out A (tab st i)"

definition fresh_node :: "DFANode \<Rightarrow> bool" where
  "fresh_node node \<longleftrightarrow> m_flags node = 0 \<and> m_transitionsStart node = 0 \<and> m_transitionsLength node = 0"

text \<open>A finished node: its slice is in range, and each step leads to the entry of the next set.\<close>

definition slice_ok :: "DFA \<Rightarrow> nat \<Rightarrow> bool" where
  "slice_ok dfa i \<longleftrightarrow>
     (let node = nodes dfa ! i
      in m_transitionsStart node + transitionsLength node + (if hasFallbackTransition node then 1 else 0)
           \<le> length (dfa_transitions dfa))"

definition leads_to :: "subset_state \<Rightarrow> nat set \<Rightarrow> nat \<Rightarrow> bool" where
  "leads_to st T t \<longleftrightarrow> t < tab_size st \<and> tab st t = T"

definition node_done :: "nfa \<Rightarrow> subset_state \<Rightarrow> nat \<Rightarrow> bool" where
  "node_done A st i \<longleftrightarrow> slice_ok (sub_dfa st) i \<and>
     (\<forall>c. rel_option (leads_to st) (nfa_step A (tab st i) c) (dfa_step (sub_dfa st) i c))"

definition sinv :: "nfa \<Rightarrow> nat set \<Rightarrow> subset_state \<Rightarrow> bool" where
  "sinv A busy st \<longleftrightarrow>
     length (nodes (sub_dfa st)) = tab_size st \<and>
     (\<forall>i < tab_size st. entry_ok A st i) \<and>
     (\<forall>i < tab_size st. \<forall>j < tab_size st. tab st i = tab st j \<longrightarrow> i = j) \<and>
     set (unprocessedNodes st) \<subseteq> set (uniqueNodeIdSetTable st) \<and> distinct (unprocessedNodes st) \<and>
     (\<forall>i < tab_size st. uniqueNodeIdSetTable st ! i \<in> set (unprocessedNodes st) \<longrightarrow> fresh_node (nodes (sub_dfa st) ! i)) \<and>
     (\<forall>i < tab_size st. uniqueNodeIdSetTable st ! i \<in> set (unprocessedNodes st) \<or> i \<in> busy \<or> node_done A st i)"

text \<open>What every step of the construction keeps.\<close>

definition grows :: "subset_state \<Rightarrow> subset_state \<Rightarrow> bool" where
  "grows st st' \<longleftrightarrow>
     (\<exists>xs. uniqueNodeIdSetTable st' = uniqueNodeIdSetTable st @ xs) \<and>
     (\<exists>xs. dfa_transitions (sub_dfa st') = dfa_transitions (sub_dfa st) @ xs) \<and>
     (\<exists>xs. actions (sub_dfa st') = actions (sub_dfa st) @ xs) \<and>
     length (nodes (sub_dfa st)) \<le> length (nodes (sub_dfa st'))"

lemma grows_refl: "grows st st"
  by (simp add: grows_def)

lemma grows_trans: "grows a b \<Longrightarrow> grows b c \<Longrightarrow> grows a c"
  by (auto simp: grows_def)

lemma grows_tab: "grows st st' \<Longrightarrow> i < tab_size st \<Longrightarrow> uniqueNodeIdSetTable st' ! i = uniqueNodeIdSetTable st ! i \<and> i < tab_size st'"
  by (auto simp: grows_def)

lemma grows_leads: "grows st st' \<Longrightarrow> leads_to st T t \<Longrightarrow> leads_to st' T t"
  using grows_tab [of st st' t] by (simp add: leads_to_def)

lemma step_stable:
  assumes "slice_ok d i" "nodes d' ! i = nodes d ! i" "dfa_transitions d' = dfa_transitions d @ xs"
  shows "slice_ok d' i" "dfa_step d' i c = dfa_step d i c"
proof -
  let ?n = "nodes d ! i"
  show "slice_ok d' i" using assms by (auto simp: slice_ok_def Let_def)
  have "node_transitions d' ?n = node_transitions d ?n"
    using assms by (simp add: node_transitions_def slice_ok_def Let_def)
  moreover have "fallbackTransitionDestination d' ?n = fallbackTransitionDestination d ?n"
    using assms by (auto simp: fallbackTransitionDestination_def slice_ok_def Let_def nth_append split: if_splits)
  ultimately show "dfa_step d' i c = dfa_step d i c" using assms(2) by (simp add: dfa_step_def Let_def split: option.split)
qed

lemma done_grows:
  assumes "node_done A st i" "grows st st'" "i < tab_size st" "nodes (sub_dfa st') ! i = nodes (sub_dfa st) ! i"
  shows "node_done A st' i"
proof -
  from assms(2) obtain xs where xs: "dfa_transitions (sub_dfa st') = dfa_transitions (sub_dfa st) @ xs"
    by (auto simp: grows_def)
  have s: "slice_ok (sub_dfa st) i" using assms(1) by (simp add: node_done_def)
  have "rel_option (leads_to st') (nfa_step A (tab st' i) c) (dfa_step (sub_dfa st') i c)" for c
  proof -
    have "rel_option (leads_to st) (nfa_step A (tab st i) c) (dfa_step (sub_dfa st) i c)"
      using assms(1) by (simp add: node_done_def)
    then have "rel_option (leads_to st') (nfa_step A (tab st i) c) (dfa_step (sub_dfa st) i c)"
      by (rule option.rel_mono_strong) (use assms(2) grows_leads in blast)
    then show ?thesis
      using step_stable(2) [OF s assms(4) xs] grows_tab [OF assms(2,3)] by simp
  qed
  then show ?thesis using step_stable(1) [OF s assms(4) xs] by (simp add: node_done_def)
qed

lemma entry_grows:
  assumes "entry_ok A st i" "grows st st'" "i < tab_size st"
    "m_actionsStart (nodes (sub_dfa st') ! i) = m_actionsStart (nodes (sub_dfa st) ! i)"
    "m_actionsLength (nodes (sub_dfa st') ! i) = m_actionsLength (nodes (sub_dfa st) ! i)"
  shows "entry_ok A st' i"
proof -
  from assms(2) obtain xs where xs: "actions (sub_dfa st') = actions (sub_dfa st) @ xs" by (auto simp: grows_def)
  note t = grows_tab [OF assms(2,3)]
  have "dfa_out (sub_dfa st') i = dfa_out (sub_dfa st) i"
    using assms(1,4,5) xs by (simp add: dfa_out_def node_actions_def entry_ok_def actionsLength_def)
  then show ?thesis
    using assms(1,4,5) t xs by (simp add: entry_ok_def actionsLength_def)
qed

section \<open>Looking up and creating nodes\<close>

lemma equal_sets_iff: "distinct a \<Longrightarrow> distinct b \<Longrightarrow> equal_sets a b \<longleftrightarrow> set a = set b"
  unfolding equal_sets_def list_all_iff
  by (metis card_subset_eq distinct_card finite_set subsetI)

lemma sinvD:
  assumes "sinv A busy st"
  shows "length (nodes (sub_dfa st)) = tab_size st" "i < tab_size st \<Longrightarrow> entry_ok A st i"
    "i < tab_size st \<Longrightarrow> j < tab_size st \<Longrightarrow> tab st i = tab st j \<Longrightarrow> i = j"
    "set (unprocessedNodes st) \<subseteq> set (uniqueNodeIdSetTable st)" "distinct (unprocessedNodes st)"
    "i < tab_size st \<Longrightarrow> uniqueNodeIdSetTable st ! i \<in> set (unprocessedNodes st) \<Longrightarrow> fresh_node (nodes (sub_dfa st) ! i)"
    "i < tab_size st \<Longrightarrow> uniqueNodeIdSetTable st ! i \<in> set (unprocessedNodes st) \<or> i \<in> busy \<or> node_done A st i"
  using assms unfolding sinv_def by blast+

lemma find_set_Some:
  assumes "sinv A busy st" "distinct s" "find_set s (uniqueNodeIdSetTable st) = Some u0"
  shows "leads_to st (set s) u0"
proof -
  from assms(3) obtain e where e: "find (\<lambda>(s', i). equal_sets s' s) (uniqueNodeIdSetTable st) = Some e" "snd e = u0"
    by (auto simp: find_set_def)
  then obtain i where i: "i < tab_size st" "uniqueNodeIdSetTable st ! i = e" "equal_sets (fst e) s"
    unfolding find_Some_iff by (auto simp: case_prod_beta)
  with sinvD(2) [OF assms(1) i(1)] assms(2) have "snd e = i" "set (fst e) = set s"
    by (auto simp: entry_ok_def set_ok_def equal_sets_iff)
  with i e(2) show ?thesis by (auto simp: leads_to_def)
qed

lemma find_set_None:
  assumes "sinv A busy st" "distinct s" "find_set s (uniqueNodeIdSetTable st) = None" "i < tab_size st"
  shows "tab st i \<noteq> set s"
proof
  assume "tab st i = set s"
  moreover have "distinct (fst (uniqueNodeIdSetTable st ! i))"
    using sinvD(2) [OF assms(1,4)] by (simp add: entry_ok_def set_ok_def)
  ultimately have "equal_sets (fst (uniqueNodeIdSetTable st ! i)) s" using assms(2) by (simp add: equal_sets_iff)
  moreover have "find (\<lambda>(s', i). equal_sets s' s) (uniqueNodeIdSetTable st) = None"
    using assms(3) by (simp add: find_set_def)
  ultimately show False unfolding find_None_iff case_prod_beta using assms(4) nth_mem by blast
qed

definition rules_of :: "nfa_node list \<Rightarrow> nat list \<Rightarrow> u64 list" where
  "rules_of graph s = fold (\<lambda>n acts. hs_add_all (finalRuleIds (graph ! n)) acts) s []"

lemma fold_rules: "set (fold (\<lambda>n acts. hs_add_all (finalRuleIds (graph ! n)) acts) s acc) =
    (\<Union>n \<in> set s. set (finalRuleIds (graph ! n))) \<union> set acc"
  by (induction s arbitrary: acc) auto

lemma distinct_fold_rules: "distinct acc \<Longrightarrow> distinct (fold (\<lambda>n acts. hs_add_all (finalRuleIds (graph ! n)) acts) s acc)"
  by (induction s arbitrary: acc) auto

lemma rules_of_facts:
  assumes "closures_ok A graph closures" "set s \<subseteq> {..<size_of A}"
  shows "set (rules_of graph s) = nfa_out A (set s)" "distinct (rules_of graph s)"
proof -
  have "set (finalRuleIds (graph ! n)) = rules_at A n" if "n \<in> set s" for n
    using assms that by (auto simp: closures_ok_def rules_at_def)
  then show "set (rules_of graph s) = nfa_out A (set s)"
    unfolding rules_of_def fold_rules nfa_out_def by simp
  show "distinct (rules_of graph s)" unfolding rules_of_def by (rule distinct_fold_rules) simp
qed

lemma getOrCreate_Some:
  assumes inv: "sinv A busy st" and cl: "closures_ok A graph closures" and s: "set_ok A s" "s \<noteq> []"
    and r: "getOrCreateDFANode graph s st = Some (st', u0)" and busy: "\<forall>b \<in> busy. b < tab_size st"
  shows "sinv A busy st'" "grows st st'" "leads_to st' (set s) u0"
    "dfa_transitions (sub_dfa st') = dfa_transitions (sub_dfa st)"
    "i < tab_size st \<Longrightarrow> nodes (sub_dfa st') ! i = nodes (sub_dfa st) ! i"
    "\<exists>new. uniqueNodeIdSetTable st' = uniqueNodeIdSetTable st @ new \<and> unprocessedNodes st' = unprocessedNodes st @ new"
proof -
  have dist: "distinct s" using s by (simp add: set_ok_def)
  have "sinv A busy st' \<and> grows st st' \<and> leads_to st' (set s) u0 \<and>
    dfa_transitions (sub_dfa st') = dfa_transitions (sub_dfa st) \<and>
    (\<forall>i < tab_size st. nodes (sub_dfa st') ! i = nodes (sub_dfa st) ! i) \<and>
    (\<exists>new. uniqueNodeIdSetTable st' = uniqueNodeIdSetTable st @ new \<and> unprocessedNodes st' = unprocessedNodes st @ new)"
  proof (cases "find_set s (uniqueNodeIdSetTable st)")
    case (Some u1)
    with r have "st' = st" "u0 = u1" by (simp_all add: getOrCreateDFANode_def)
    with inv find_set_Some [OF inv dist Some] show ?thesis by (simp add: grows_refl)
  next
    case None
    let ?n = "tab_size st" and ?rs = "rules_of graph s" and ?d = "sub_dfa st"
    let ?node = "set_actions (length (actions ?d)) (length ?rs) new_DFANode"
    let ?d' = "?d\<lparr>actions := actions ?d @ ?rs, nodes := nodes ?d @ [?node]\<rparr>"
    have len: "length (nodes ?d) = ?n" using sinvD(1) [OF inv] .
    from r None have rs: "length ?rs \<le> 65535" and id: "u0 = ?n"
      and st': "st' = st\<lparr>sub_dfa := ?d', uniqueNodeIdSetTable := uniqueNodeIdSetTable st @ [(s, ?n)],
                   unprocessedNodes := unprocessedNodes st @ [(s, ?n)]\<rparr>"
      using len by (auto simp: getOrCreateDFANode_def translate_def rules_of_def Let_def split: if_splits)
    have g: "grows st st'" by (simp add: grows_def st')
    have old: "nodes ?d' ! i = nodes ?d ! i" if "i < ?n" for i using that len by (simp add: nth_append)
    have new: "nodes ?d' ! ?n = ?node" by (simp add: nth_append len)
    have al: "actionsLength ?node = length ?rs"
      using rs by (simp add: actionsLength_def set_actions_def)
    have "dfa_out ?d' ?n = set ?rs"
      unfolding dfa_out_def new by (simp add: node_actions_def al) (simp add: set_actions_def)
    moreover have "set s \<subseteq> {..<size_of A}" using s by (simp add: set_ok_def)
    ultimately have new_entry: "entry_ok A st' ?n"
      using s al rules_of_facts(1) [OF cl] new by (simp add: entry_ok_def st') (simp add: set_actions_def)
    have fresh: "fresh_node ?node" by (simp add: fresh_node_def set_actions_def new_DFANode_def)
    have notin: "(s, ?n) \<notin> set (uniqueNodeIdSetTable st)"
    proof
      assume "(s, ?n) \<in> set (uniqueNodeIdSetTable st)"
      then obtain i where "i < ?n" "uniqueNodeIdSetTable st ! i = (s, ?n)" by (auto simp: in_set_conv_nth)
      with sinvD(2) [OF inv] show False by (fastforce simp: entry_ok_def)
    qed
    have tab': "tab_size st' = Suc ?n" "\<And>i. i < ?n \<Longrightarrow> uniqueNodeIdSetTable st' ! i = uniqueNodeIdSetTable st ! i"
      "uniqueNodeIdSetTable st' ! ?n = (s, ?n)" by (simp_all add: st' nth_append)
    have "sinv A busy st'"
      unfolding sinv_def
    proof (intro conjI allI impI)
      show "length (nodes (sub_dfa st')) = tab_size st'" using len by (simp add: st')
      show "entry_ok A st' i" if "i < tab_size st'" for i
      proof (cases "i = ?n")
        case False
        then have "i < ?n" using that tab' by simp
        with entry_grows [OF sinvD(2) [OF inv this] g this] old show ?thesis by (simp add: st')
      qed (use new_entry in simp)
      show "i = j" if "i < tab_size st'" "j < tab_size st'" "tab st' i = tab st' j" for i j
        using that tab' sinvD(3) [OF inv] find_set_None [OF inv dist None] by (auto simp: less_Suc_eq) blast
      show "set (unprocessedNodes st') \<subseteq> set (uniqueNodeIdSetTable st')" using sinvD(4) [OF inv] by (auto simp: st')
      show "distinct (unprocessedNodes st')" using sinvD(4,5) [OF inv] notin by (auto simp: st')
      show "fresh_node (nodes (sub_dfa st') ! i)"
        if "i < tab_size st'" "uniqueNodeIdSetTable st' ! i \<in> set (unprocessedNodes st')" for i
      proof (cases "i = ?n")
        case False
        then have i: "i < ?n" using that tab' by simp
        then have "uniqueNodeIdSetTable st ! i \<noteq> (s, ?n)" using notin by (metis nth_mem)
        then have "uniqueNodeIdSetTable st ! i \<in> set (unprocessedNodes st)" using that(2) tab'(2) [OF i] by (simp add: st')
        with sinvD(6) [OF inv i] old [OF i] show ?thesis by (simp add: st')
      qed (use fresh new in \<open>simp add: st'\<close>)
      show "uniqueNodeIdSetTable st' ! i \<in> set (unprocessedNodes st') \<or> i \<in> busy \<or> node_done A st' i" if "i < tab_size st'" for i
      proof (cases "i = ?n")
        case False
        then have i: "i < ?n" using that tab' by simp
        with sinvD(7) [OF inv i] done_grows [OF _ g i] old [OF i] tab' show ?thesis by (auto simp: st')
      qed (simp add: tab' st')
    qed
    moreover have "leads_to st' (set s) u0" by (simp add: leads_to_def id tab')
    ultimately show ?thesis using g old by (simp add: st')
  qed
  then show "sinv A busy st'" "grows st st'" "leads_to st' (set s) u0"
    "dfa_transitions (sub_dfa st') = dfa_transitions (sub_dfa st)"
    "i < tab_size st \<Longrightarrow> nodes (sub_dfa st') ! i = nodes (sub_dfa st) ! i"
    "\<exists>new. uniqueNodeIdSetTable st' = uniqueNodeIdSetTable st @ new \<and> unprocessedNodes st' = unprocessedNodes st @ new"
    by blast+
qed

section \<open>One round of the construction\<close>

lemma sinv_append_transition:
  assumes "sinv A busy st"
  shows "sinv A busy (st\<lparr>sub_dfa := sub_dfa st\<lparr>dfa_transitions := dfa_transitions (sub_dfa st) @ xs\<rparr>\<rparr>)"
    and "grows st (st\<lparr>sub_dfa := sub_dfa st\<lparr>dfa_transitions := dfa_transitions (sub_dfa st) @ xs\<rparr>\<rparr>)"
proof -
  let ?st = "st\<lparr>sub_dfa := sub_dfa st\<lparr>dfa_transitions := dfa_transitions (sub_dfa st) @ xs\<rparr>\<rparr>"
  show g: "grows st ?st" by (simp add: grows_def)
  show "sinv A busy ?st"
    unfolding sinv_def
  proof (intro conjI allI impI)
    show "entry_ok A ?st i" if "i < tab_size ?st" for i
      by (rule entry_grows [OF sinvD(2) [OF assms] g]) (use that in simp_all)
    show "uniqueNodeIdSetTable ?st ! i \<in> set (unprocessedNodes ?st) \<or> i \<in> busy \<or> node_done A ?st i" if "i < tab_size ?st" for i
      using that sinvD(7) [OF assms, of i] done_grows [OF _ g, of A i] by auto
  qed (use sinvD [OF assms] in auto)
qed

lemma map_of_append_snoc: "map_of (xs @ [(k, v)]) j = (case map_of xs j of Some w \<Rightarrow> Some w | None \<Rightarrow> if j = k then Some v else None)"
  by (simp add: map_add_def split: option.splits)

lemma add_key_transitions_correct:
  "add_key_transitions graph key sts st = Some st' \<Longrightarrow> closures_ok A graph closures \<Longrightarrow> sinv A busy st \<Longrightarrow> \<forall>b \<in> busy. b < tab_size st \<Longrightarrow>
     \<forall>s \<in> set sts. set_ok A s \<Longrightarrow>
     sinv A busy st' \<and> grows st st' \<and> (\<forall>i < tab_size st. nodes (sub_dfa st') ! i = nodes (sub_dfa st) ! i) \<and>
     (\<exists>new. uniqueNodeIdSetTable st' = uniqueNodeIdSetTable st @ new \<and> unprocessedNodes st' = unprocessedNodes st @ new) \<and>
     (\<exists>trs. dfa_transitions (sub_dfa st') = dfa_transitions (sub_dfa st) @ trs \<and>
        length trs = length (filter (\<lambda>s. s \<noteq> []) sts) \<and> (\<forall>(k, t) \<in> set trs. key \<le> k) \<and>
        (\<forall>j < length sts. case map_of trs (key + j) of
            None \<Rightarrow> sts ! j = [] | Some t \<Rightarrow> sts ! j \<noteq> [] \<and> leads_to st' (set (sts ! j)) t) \<and>
        (\<forall>c. key + length sts \<le> c \<longrightarrow> map_of trs c = None))"
proof (induction graph key sts st arbitrary: st' rule: add_key_transitions.induct)
  case (1 graph key st)
  then show ?case by (simp add: grows_refl)
next
  case (2 graph key s sts st)
  show ?case
  proof (cases "s = []")
    case True
    from 2(1) [OF True] 2(3-) True obtain trs where IH: "sinv A busy st'" "grows st st'"
      "\<forall>i < tab_size st. nodes (sub_dfa st') ! i = nodes (sub_dfa st) ! i"
      "\<exists>new. uniqueNodeIdSetTable st' = uniqueNodeIdSetTable st @ new \<and> unprocessedNodes st' = unprocessedNodes st @ new"
      "dfa_transitions (sub_dfa st') = dfa_transitions (sub_dfa st) @ trs"
      "length trs = length (filter (\<lambda>s. s \<noteq> []) sts)" "\<forall>(k, t) \<in> set trs. Suc key \<le> k"
      "\<forall>j < length sts. case map_of trs (Suc key + j) of
            None \<Rightarrow> sts ! j = [] | Some t \<Rightarrow> sts ! j \<noteq> [] \<and> leads_to st' (set (sts ! j)) t"
      "\<forall>c. Suc key + length sts \<le> c \<longrightarrow> map_of trs c = None" by auto
    have "map_of trs key = None" using IH(7) by (fastforce simp: map_of_eq_None_iff)
    then have "\<forall>j < length (s # sts). case map_of trs (key + j) of
        None \<Rightarrow> (s # sts) ! j = [] | Some t \<Rightarrow> (s # sts) ! j \<noteq> [] \<and> leads_to st' (set ((s # sts) ! j)) t"
      using IH(8) True by (simp add: All_less_Suc2 cong: option.case_cong)
    moreover have "\<forall>(k, t) \<in> set trs. key \<le> k" using IH(7) by fastforce
    ultimately show ?thesis using IH(1-6,9) True by auto
  next
    case False
    from 2(3) False obtain st1 t where g: "getOrCreateDFANode graph s st = Some (st1, t)"
      by (auto split: option.splits)
    let ?st2 = "st1\<lparr>sub_dfa := sub_dfa st1\<lparr>dfa_transitions := dfa_transitions (sub_dfa st1) @ [(key, t)]\<rparr>\<rparr>"
    have rec: "add_key_transitions graph (Suc key) sts ?st2 = Some st'" using 2(3) False g by simp
    have s: "set_ok A s" using 2(7) by simp
    note G = getOrCreate_Some [OF 2(5) 2(4) s False g 2(6)]
    note E = sinv_append_transition [OF G(1), of "[(key, t)]"]
    have le: "tab_size st \<le> tab_size st1" using G(2) by (auto simp: grows_def)
    have "\<forall>b \<in> busy. b < tab_size ?st2" using 2(6) le by auto
    from 2(2) [OF False g refl rec 2(4) E(1) this] 2(7) obtain trs new' where IH: "sinv A busy st'" "grows ?st2 st'"
      "\<forall>i < tab_size ?st2. nodes (sub_dfa st') ! i = nodes (sub_dfa ?st2) ! i"
      "uniqueNodeIdSetTable st' = uniqueNodeIdSetTable ?st2 @ new'" "unprocessedNodes st' = unprocessedNodes ?st2 @ new'"
      "dfa_transitions (sub_dfa st') = dfa_transitions (sub_dfa ?st2) @ trs"
      "length trs = length (filter (\<lambda>s. s \<noteq> []) sts)" "\<forall>(k, t) \<in> set trs. Suc key \<le> k"
      "\<forall>j < length sts. case map_of trs (Suc key + j) of
            None \<Rightarrow> sts ! j = [] | Some t \<Rightarrow> sts ! j \<noteq> [] \<and> leads_to st' (set (sts ! j)) t"
      "\<forall>c. Suc key + length sts \<le> c \<longrightarrow> map_of trs c = None" by auto
    obtain new where new: "uniqueNodeIdSetTable st1 = uniqueNodeIdSetTable st @ new" "unprocessedNodes st1 = unprocessedNodes st @ new"
      using G(6) by blast
    have gr: "grows st st'" using G(2) E(2) IH(2) grows_trans by blast
    have "leads_to st' (set s) t" using grows_leads [OF grows_trans [OF E(2) IH(2)] G(3)] .
    then have "\<forall>j < length (s # sts). case map_of ((key, t) # trs) (key + j) of
        None \<Rightarrow> (s # sts) ! j = [] | Some t \<Rightarrow> (s # sts) ! j \<noteq> [] \<and> leads_to st' (set ((s # sts) ! j)) t"
      using IH(9) False by (simp add: All_less_Suc2 cong: option.case_cong)
    moreover have "dfa_transitions (sub_dfa st') = dfa_transitions (sub_dfa st) @ (key, t) # trs"
      using IH(6) G(4) by simp
    moreover have "\<forall>(k, t) \<in> set ((key, t) # trs). key \<le> k" using IH(8) by fastforce
    moreover have "\<forall>i < tab_size st. nodes (sub_dfa st') ! i = nodes (sub_dfa st) ! i"
      using IH(3) G(5) le by simp
    moreover have "uniqueNodeIdSetTable st' = uniqueNodeIdSetTable st @ (new @ new') \<and> unprocessedNodes st' = unprocessedNodes st @ (new @ new')"
      using IH(4,5) new by simp
    moreover have "length ((key, t) # trs) = length (filter (\<lambda>s. s \<noteq> []) (s # sts))" using IH(7) False by simp
    moreover have "\<forall>c. key + length (s # sts) \<le> c \<longrightarrow> map_of ((key, t) # trs) c = None" using IH(10) by simp
    ultimately show ?thesis using IH(1) gr by blast
  qed
qed

text \<open>The node in progress may change: it keeps its actions, and is not waiting.\<close>

definition waiting :: "subset_state \<Rightarrow> nat \<Rightarrow> bool" where
  "waiting st i \<longleftrightarrow> uniqueNodeIdSetTable st ! i \<in> set (unprocessedNodes st)"

lemma not_waiting_grows:
  assumes "sinv A busy st" "sinv A busy st'" "d < tab_size st" "\<not> waiting st d"
    "uniqueNodeIdSetTable st' = uniqueNodeIdSetTable st @ new" "unprocessedNodes st' = unprocessedNodes st @ new"
  shows "\<not> waiting st' d"
proof
  assume "waiting st' d"
  then have "uniqueNodeIdSetTable st ! d \<in> set new" using assms(3-6) by (simp add: waiting_def nth_append)
  then obtain j where j: "j < length new" "new ! j = uniqueNodeIdSetTable st ! d" by (auto simp: in_set_conv_nth)
  then have "uniqueNodeIdSetTable st' ! (tab_size st + j) = uniqueNodeIdSetTable st ! d" "tab_size st + j < tab_size st'"
    using assms(5) by simp_all
  moreover have "snd (uniqueNodeIdSetTable st ! d) = d" using sinvD(2) [OF assms(1,3)] by (simp add: entry_ok_def)
  ultimately have "d = tab_size st + j" using sinvD(2) [OF assms(2)] by (metis entry_ok_def)
  with assms(3) show False by simp
qed

definition change_busy :: "nat \<Rightarrow> DFANode \<Rightarrow> (nat \<times> nat) list \<Rightarrow> subset_state \<Rightarrow> subset_state" where
  "change_busy d n xs st =
     st\<lparr>sub_dfa := (sub_dfa st)\<lparr>dfa_transitions := dfa_transitions (sub_dfa st) @ xs, nodes := (nodes (sub_dfa st))[d := n]\<rparr>\<rparr>"

lemma change_busy_simps [simp]:
  "uniqueNodeIdSetTable (change_busy d n xs st) = uniqueNodeIdSetTable st"
  "unprocessedNodes (change_busy d n xs st) = unprocessedNodes st"
  "nodes (sub_dfa (change_busy d n xs st)) = (nodes (sub_dfa st))[d := n]"
  "dfa_transitions (sub_dfa (change_busy d n xs st)) = dfa_transitions (sub_dfa st) @ xs"
  "actions (sub_dfa (change_busy d n xs st)) = actions (sub_dfa st)"
  by (simp_all add: change_busy_def)

lemma sinv_change_busy:
  assumes "sinv A {d} st" "d < tab_size st" "\<not> waiting st d"
    "m_actionsStart n = m_actionsStart (nodes (sub_dfa st) ! d)" "m_actionsLength n = m_actionsLength (nodes (sub_dfa st) ! d)"
  shows "sinv A {d} (change_busy d n xs st)" "grows st (change_busy d n xs st)" "\<not> waiting (change_busy d n xs st) d"
proof -
  let ?st = "change_busy d n xs st"
  show g: "grows st ?st" by (simp add: grows_def)
  show "\<not> waiting ?st d" using assms(3) by (simp add: waiting_def)
  have len: "length (nodes (sub_dfa st)) = tab_size st" using sinvD(1) [OF assms(1)] .
  have nd: "nodes (sub_dfa ?st) ! d = n" using assms(2) len by simp
  have ni: "nodes (sub_dfa ?st) ! i = nodes (sub_dfa st) ! i" if "i \<noteq> d" for i using that by simp
  show "sinv A {d} ?st"
    unfolding sinv_def
  proof (intro conjI allI impI)
    show "entry_ok A ?st i" if "i < tab_size ?st" for i
    proof (rule entry_grows [OF sinvD(2) [OF assms(1)] g])
      show "m_actionsStart (nodes (sub_dfa ?st) ! i) = m_actionsStart (nodes (sub_dfa st) ! i)"
        "m_actionsLength (nodes (sub_dfa ?st) ! i) = m_actionsLength (nodes (sub_dfa st) ! i)"
        using nd ni [of i] assms(4,5) by (cases "i = d"; simp)+
    qed (use that in simp_all)
    show "fresh_node (nodes (sub_dfa ?st) ! i)"
      if "i < tab_size ?st" "uniqueNodeIdSetTable ?st ! i \<in> set (unprocessedNodes ?st)" for i
      using that sinvD(6) [OF assms(1), of i] assms(3) ni [of i] by (cases "i = d") (auto simp: waiting_def)
    show "uniqueNodeIdSetTable ?st ! i \<in> set (unprocessedNodes ?st) \<or> i \<in> {d} \<or> node_done A ?st i" if "i < tab_size ?st" for i
    proof (cases "i = d")
      case False
      have i: "i < tab_size st" using that by simp
      from sinvD(7) [OF assms(1) i] False done_grows [OF _ g i ni [OF False]] show ?thesis by auto
    qed simp
  qed (use sinvD [OF assms(1)] in auto)
qed

lemma sinv_finish: "sinv A {d} st \<Longrightarrow> node_done A st d \<Longrightarrow> sinv A {} st"
  unfolding sinv_def by auto

lemma sinv_start:
  assumes inv: "sinv A {} st" and ne: "unprocessedNodes st \<noteq> []" and last: "last (unprocessedNodes st) = (source, d)"
  defines "st0 \<equiv> st\<lparr>unprocessedNodes := butlast (unprocessedNodes st)\<rparr>"
  shows "sinv A {d} st0" "d < tab_size st" "uniqueNodeIdSetTable st ! d = (source, d)" "\<not> waiting st0 d"
    "fresh_node (nodes (sub_dfa st) ! d)"
proof -
  have mem: "(source, d) \<in> set (unprocessedNodes st)" using ne last by (metis last_in_set)
  then obtain i where i: "i < tab_size st" "uniqueNodeIdSetTable st ! i = (source, d)"
    using sinvD(4) [OF inv] by (metis in_set_conv_nth subsetD)
  then have "i = d" using sinvD(2) [OF inv i(1)] by (simp add: entry_ok_def)
  with i show d: "d < tab_size st" "uniqueNodeIdSetTable st ! d = (source, d)" by simp_all
  show "fresh_node (nodes (sub_dfa st) ! d)" using sinvD(6) [OF inv d(1)] d(2) mem by simp
  have split: "unprocessedNodes st = butlast (unprocessedNodes st) @ [(source, d)]"
    using ne last by (metis append_butlast_last_id)
  then have notin: "(source, d) \<notin> set (butlast (unprocessedNodes st))"
    using sinvD(5) [OF inv] by (metis distinct_append disjoint_insert(1) list.simps(15))
  then show nw: "\<not> waiting st0 d" using d by (simp add: waiting_def st0_def)
  show "sinv A {d} st0"
    unfolding sinv_def
  proof (intro conjI allI impI)
    show "entry_ok A st0 i" if "i < tab_size st0" for i
      using sinvD(2) [OF inv, of i] that by (simp add: st0_def entry_ok_def)
    show "distinct (unprocessedNodes st0)" using sinvD(5) [OF inv] by (simp add: st0_def distinct_butlast)
    show "set (unprocessedNodes st0) \<subseteq> set (uniqueNodeIdSetTable st0)"
      using sinvD(4) [OF inv] by (auto simp: st0_def dest: in_set_butlastD)
    show "fresh_node (nodes (sub_dfa st0) ! i)"
      if "i < tab_size st0" "uniqueNodeIdSetTable st0 ! i \<in> set (unprocessedNodes st0)" for i
      using that sinvD(6) [OF inv, of i] by (auto simp: st0_def dest: in_set_butlastD)
    show "uniqueNodeIdSetTable st0 ! i \<in> set (unprocessedNodes st0) \<or> i \<in> {d} \<or> node_done A st0 i" if "i < tab_size st0" for i
    proof (cases "uniqueNodeIdSetTable st ! i = (source, d)")
      case True
      then have "i = d" using sinvD(2) [OF inv, of i] that by (simp add: st0_def entry_ok_def)
      then show ?thesis by simp
    next
      case False
      have "node_done A st0 i" if "node_done A st i"
      proof -
        have "leads_to st0 = leads_to st" by (simp add: fun_eq_iff leads_to_def st0_def)
        with that show ?thesis by (simp add: node_done_def st0_def)
      qed
      moreover have "uniqueNodeIdSetTable st ! i \<in> set (butlast (unprocessedNodes st))" if "uniqueNodeIdSetTable st ! i \<in> set (unprocessedNodes st)"
        using that False split by (metis UnE empty_iff list.set(1) set_ConsD set_append)
      ultimately show ?thesis using sinvD(7) [OF inv, of i] that by (auto simp: st0_def)
    qed
  qed (use sinvD [OF inv] in \<open>auto simp: st0_def\<close>)
qed

lemma node_keys:
  assumes "graph_ok A" "S \<subseteq> {..<size_of A}" "128 \<le> c" "c \<noteq> epsilonTransitionCharacter"
  shows "key_targets A S c = {}"
proof -
  have "node_targets (m_nodes A ! n) c = []" if "n \<in> S" for n
  proof -
    have "node_ok (m_nodes A ! n)" using assms(1,2) that by (auto intro: graph_okD)
    then have "map_of (transitions (m_nodes A ! n)) c = None"
      using assms(3,4) unfolding node_ok_def map_of_eq_None_iff by force
    then show ?thesis by (simp add: node_targets_def)
  qed
  then show ?thesis by (simp add: key_targets_def)
qed

text \<open>The steps of the finished node, given its transitions and fallback.\<close>

lemma steps_done:
  assumes ok: "graph_ok A" and S: "S \<subseteq> {..<size_of A}"
    and fb: "set fallback = eclose A (any_targets A S)"
    and sts: "\<forall>k < 128. if key_targets A S k = {} then sts ! k = [] else sts ! k \<noteq> [] \<and> set (sts ! k) = eclose A (char_targets A S k)"
    and trs: "\<forall>j < 128. case map_of trs j of None \<Rightarrow> sts ! j = [] | Some t \<Rightarrow> sts ! j \<noteq> [] \<and> leads_to st (set (sts ! j)) t"
      "\<forall>c. 128 \<le> c \<longrightarrow> map_of trs c = None"
    and node: "node_transitions d n = trs"
    and dest: "if fallback = [] then fallbackTransitionDestination d n = None
       else \<exists>t. fallbackTransitionDestination d n = Some t \<and> leads_to st (set fallback) t"
    and n: "nodes d ! i = n"
  shows "rel_option (leads_to st) (nfa_step A S c) (dfa_step d i c)"
proof (cases "c < 128 \<and> map_of trs c \<noteq> None")
  case True
  then obtain t where t: "map_of trs c = Some t" by auto
  with True trs(1) have "sts ! c \<noteq> [] \<and> leads_to st (set (sts ! c)) t" by fastforce
  moreover from this sts True have "set (sts ! c) = eclose A (char_targets A S c)" by (metis)
  ultimately show ?thesis using t node n by (auto simp: nfa_step_def Let_def dfa_step_def)
next
  case False
  have none: "map_of trs c = None" using False trs(2) by (cases "c < 128") auto
  have key: "key_targets A S c = {}" if "c \<noteq> epsilonTransitionCharacter"
  proof (cases "c < 128")
    case True
    with trs(1) none have "sts ! c = []" by (auto split: option.splits)
    with sts True show ?thesis by metis
  qed (use node_keys [OF ok S _ that] in auto)
  have "char_targets A S c = (if c = 0 then {} else any_targets A S)"
    using char_targets_split [OF S, of c] key by auto
  then have step: "nfa_step A S c = (if c = 0 \<or> fallback = [] then None else Some (set fallback))"
    using fb by (auto simp: nfa_step_def Let_def)
  show ?thesis
    using none node n dest by (auto simp: step dfa_step_def Let_def)
qed

lemma setTransitions_facts:
  assumes "fresh_node n" "len \<le> 127"
  shows "m_transitionsStart (setTransitions start len n) = start" "transitionsLength (setTransitions start len n) = len"
    "\<not> hasFallbackTransition (setTransitions start len n)" "m_actionsStart (setTransitions start len n) = m_actionsStart n"
    "m_actionsLength (setTransitions start len n) = m_actionsLength n" "m_flags (setTransitions start len n) = 0"
  using assms by (simp_all add: setTransitions_def transitionsLength_def fresh_node_def hasFallbackTransition_def)

text \<open>One round: the set on top of the stack is processed, and new sets are put on the stack.\<close>

lemma process_set_correct:
  assumes ok: "graph_ok A" and cl: "closures_ok A graph closures" and inv: "sinv A {} st"
    and ne: "unprocessedNodes st \<noteq> []" and r: "process_set graph closures st = Some st'"
  shows "sinv A {} st'" "grows st st'"
    "\<exists>new. uniqueNodeIdSetTable st' = uniqueNodeIdSetTable st @ new \<and> unprocessedNodes st' = butlast (unprocessedNodes st) @ new"
proof -
  obtain source d where last: "last (unprocessedNodes st) = (source, d)" by fastforce
  define st0 where "st0 = st\<lparr>unprocessedNodes := butlast (unprocessedNodes st)\<rparr>"
  note S = sinv_start [OF inv ne last, folded st0_def]
  have src: "set_ok A source" "tab st d = set source" using sinvD(2) [OF inv S(2)] S(3) by (simp_all add: entry_ok_def)
  then have bound: "set source \<subseteq> {..<size_of A}" by (simp add: set_ok_def)
  obtain sts fallback where pop: "populateTransitions graph closures source = Some (sts, fallback)" "length sts = 128"
    "set_ok A fallback" "set fallback = eclose A (any_targets A (set source))"
    "\<forall>k < 128. set_ok A (sts ! k) \<and> (if key_targets A (set source) k = {} then sts ! k = []
         else sts ! k \<noteq> [] \<and> set (sts ! k) = eclose A (char_targets A (set source) k))"
    using populateTransitions_correct [OF ok cl bound] by blast
  have d0: "d < tab_size st0" "\<forall>b \<in> {d}. b < tab_size st0" using S(2) by (simp_all add: st0_def)
  let ?start = "length (dfa_transitions (sub_dfa st))"
  obtain st1 where k: "add_key_transitions graph 0 sts st0 = Some st1"
    using r last pop(1) by (auto simp: process_set_def st0_def Let_def split: option.splits)
  have "\<forall>s \<in> set sts. set_ok A s" using pop(2,5) by (auto simp: in_set_conv_nth)
  from add_key_transitions_correct [OF k cl S(1) d0(2) this] obtain trs new1 where K: "sinv A {d} st1" "grows st0 st1"
    "\<forall>i < tab_size st0. nodes (sub_dfa st1) ! i = nodes (sub_dfa st0) ! i"
    "uniqueNodeIdSetTable st1 = uniqueNodeIdSetTable st0 @ new1" "unprocessedNodes st1 = unprocessedNodes st0 @ new1"
    "dfa_transitions (sub_dfa st1) = dfa_transitions (sub_dfa st0) @ trs"
    "\<forall>j < 128. case map_of trs j of None \<Rightarrow> sts ! j = [] | Some t \<Rightarrow> sts ! j \<noteq> [] \<and> leads_to st1 (set (sts ! j)) t"
    "\<forall>c. 128 \<le> c \<longrightarrow> map_of trs c = None"
    using pop(2) by auto
  have d1: "d < tab_size st1" "tab st1 d = set source" using grows_tab [OF K(2) d0(1)] src(2) by (simp_all add: st0_def)
  have w1: "\<not> waiting st1 d" by (rule not_waiting_grows [OF S(1) K(1) d0(1) S(4) K(4,5)])
  let ?len = "length trs"
  let ?n = "nodes (sub_dfa st) ! d"
  let ?n2 = "setTransitions ?start ?len ?n"
  define st2 where "st2 = change_busy d ?n2 [] st1"
  have n1: "nodes (sub_dfa st1) ! d = ?n" using K(3) d0(1) by (simp add: st0_def)
  have len1: "length (dfa_transitions (sub_dfa st1)) - ?start = ?len" using K(6) by (simp add: st0_def)
  have set2: "set_node_transitions d ?start ?len st1 = st2"
    by (simp add: set_node_transitions_def st2_def change_busy_def n1)
  have le: "?len \<le> 127" using r last pop(1) k len1 by (auto simp: process_set_def st0_def Let_def split: if_splits option.splits)
  note N = setTransitions_facts [OF S(5) le, of ?start]
  note C2 = sinv_change_busy [OF K(1) d1(1) w1, of ?n2 "[]", folded st2_def]
  have C2': "sinv A {d} st2" "grows st1 st2" "\<not> waiting st2 d" using C2 N(4,5) n1 by simp_all
  have g02: "grows st0 st2" using K(2) C2'(2) grows_trans by blast
  have r2: "process_set graph closures st =
     (if fallback = [] then Some st2
      else case getOrCreateDFANode graph fallback st2 of None \<Rightarrow> None
           | Some (st, t) \<Rightarrow> map_option (\<lambda>dfa. st\<lparr>sub_dfa := dfa\<rparr>) (addFallbackTransition d t (sub_dfa st)))"
    using last pop(1) k len1 le set2 by (simp add: process_set_def st0_def Let_def)
  have len_nodes: "length (nodes (sub_dfa st1)) = tab_size st1" using sinvD(1) [OF K(1)] .
  have n2: "nodes (sub_dfa st2) ! d = ?n2" using d1(1) len_nodes by (simp add: st2_def)
  have tr2: "dfa_transitions (sub_dfa st2) = dfa_transitions (sub_dfa st) @ trs" using K(6) by (simp add: st2_def st0_def)
  have nt: "node_transitions dd n = trs"
    if "m_transitionsStart n = ?start" "transitionsLength n = ?len" "dfa_transitions dd = dfa_transitions (sub_dfa st) @ trs @ xs" for dd n xs
    using that by (simp add: node_transitions_def)
  have leads: "\<forall>j < 128. case map_of trs j of None \<Rightarrow> sts ! j = [] | Some t \<Rightarrow> sts ! j \<noteq> [] \<and> leads_to stx (set (sts ! j)) t"
    if "grows st1 stx" for stx
    using K(7) grows_leads [OF that] by (fastforce split: option.splits)
  have sts: "\<forall>k < 128. if key_targets A (set source) k = {} then sts ! k = []
         else sts ! k \<noteq> [] \<and> set (sts ! k) = eclose A (char_targets A (set source) k)" using pop(5) by blast
  have g0: "grows st stx" if "grows st0 stx" for stx using that by (simp add: grows_def st0_def)
  have "sinv A {} st' \<and> grows st st' \<and>
    (\<exists>new. uniqueNodeIdSetTable st' = uniqueNodeIdSetTable st @ new \<and> unprocessedNodes st' = butlast (unprocessedNodes st) @ new)"
  proof (cases "fallback = []")
    case True
    with r r2 have st': "st' = st2" by simp
    have dest: "fallbackTransitionDestination (sub_dfa st2) ?n2 = None"
      using N(3) by (simp add: fallbackTransitionDestination_def)
    have "rel_option (leads_to st2) (nfa_step A (set source) c) (dfa_step (sub_dfa st2) d c)" for c
      by (rule steps_done [OF ok bound pop(4) sts leads [OF C2'(2)] K(8) nt [of ?n2 "sub_dfa st2" "[]"] _ n2])
        (use N(1,2) tr2 True dest in simp_all)
    moreover have "slice_ok (sub_dfa st2) d" using n2 N tr2 by (simp add: slice_ok_def Let_def)
    moreover have "tab st2 d = set source" using d1(2) by (simp add: st2_def)
    ultimately have "node_done A st2 d" by (simp add: node_done_def)
    with sinv_finish [OF C2'(1)] have "sinv A {} st2" by blast
    moreover have "uniqueNodeIdSetTable st2 = uniqueNodeIdSetTable st @ new1 \<and> unprocessedNodes st2 = butlast (unprocessedNodes st) @ new1"
      using K(4,5) by (simp add: st2_def st0_def)
    ultimately show ?thesis using st' g0 [OF g02] by blast
  next
    case False
    obtain st3 t where g: "getOrCreateDFANode graph fallback st2 = Some (st3, t)"
      using r r2 False by (auto split: option.splits)
    have d2: "d < tab_size st2" "\<forall>b \<in> {d}. b < tab_size st2" using d1(1) by (simp_all add: st2_def)
    note G = getOrCreate_Some [OF C2'(1) cl pop(3) False g d2(2)]
    obtain new3 where new3: "uniqueNodeIdSetTable st3 = uniqueNodeIdSetTable st2 @ new3" "unprocessedNodes st3 = unprocessedNodes st2 @ new3"
      using G(6) by blast
    have w3: "\<not> waiting st3 d" by (rule not_waiting_grows [OF C2'(1) G(1) d2(1) C2'(3) new3])
    have d3: "d < tab_size st3" "tab st3 d = set source"
      using grows_tab [OF G(2) d2(1)] d1(2) by (simp_all add: st2_def)
    have n3: "nodes (sub_dfa st3) ! d = ?n2" using G(5) [OF d2(1)] n2 by simp
    have tr3: "dfa_transitions (sub_dfa st3) = dfa_transitions (sub_dfa st) @ trs" using G(4) tr2 by simp
    let ?n4 = "?n2\<lparr>m_flags := m_flags ?n2 OR HasFallbackTransition\<rparr>"
    have add: "addFallbackTransition d t (sub_dfa st3) =
        Some ((sub_dfa st3)\<lparr>dfa_transitions := dfa_transitions (sub_dfa st3) @ [(u8_max, t)], nodes := (nodes (sub_dfa st3))[d := ?n4]\<rparr>)"
      using n3 tr3 N(1,2) by (simp add: addFallbackTransition_def Let_def)
    define st4 where "st4 = change_busy d ?n4 [(u8_max, t)] st3"
    have st': "st' = st4" using r r2 False g add by (simp add: st4_def change_busy_def)
    have A4: "m_actionsStart ?n4 = m_actionsStart (nodes (sub_dfa st3) ! d)" "m_actionsLength ?n4 = m_actionsLength (nodes (sub_dfa st3) ! d)"
      using n3 by simp_all
    note C4 = sinv_change_busy [OF G(1) d3(1) w3 A4, of "[(u8_max, t)]", folded st4_def]
    have len3: "length (nodes (sub_dfa st3)) = tab_size st3" using sinvD(1) [OF G(1)] .
    have n4: "nodes (sub_dfa st4) ! d = ?n4" using d3(1) len3 by (simp add: st4_def)
    have f4: "hasFallbackTransition ?n4" using N(6) by (simp add: hasFallbackTransition_def HasFallbackTransition_def)
    have N4: "m_transitionsStart ?n4 = ?start" "transitionsLength ?n4 = ?len" using N(1,2) by (simp_all add: transitionsLength_def)
    have tr4: "dfa_transitions (sub_dfa st4) = dfa_transitions (sub_dfa st) @ trs @ [(u8_max, t)]" using tr3 by (simp add: st4_def)
    have dest: "fallbackTransitionDestination (sub_dfa st4) ?n4 = Some t"
      using f4 N4 tr4 by (simp add: fallbackTransitionDestination_def Let_def nth_append)
    have g14: "grows st1 st4" using C2'(2) G(2) C4(2) grows_trans by blast
    have lt: "leads_to st4 (set fallback) t" using grows_leads [OF C4(2) G(3)] .
    have "rel_option (leads_to st4) (nfa_step A (set source) c) (dfa_step (sub_dfa st4) d c)" for c
      by (rule steps_done [OF ok bound pop(4) sts leads [OF g14] K(8) nt [OF N4 tr4] _ n4]) (use dest lt False in simp)
    moreover have "slice_ok (sub_dfa st4) d" using n4 N4 tr4 f4 by (simp add: slice_ok_def Let_def)
    moreover have "tab st4 d = set source" using d3(2) by (simp add: st4_def)
    ultimately have "node_done A st4 d" by (simp add: node_done_def)
    with sinv_finish [OF C4(1)] have "sinv A {} st4" by blast
    moreover have "uniqueNodeIdSetTable st4 = uniqueNodeIdSetTable st @ (new1 @ new3) \<and>
        unprocessedNodes st4 = butlast (unprocessedNodes st) @ (new1 @ new3)"
      using K(4,5) new3 by (simp add: st4_def st2_def st0_def)
    moreover have "grows st st4" using g0 grows_trans [OF K(2) g14] by blast
    ultimately show ?thesis using st' by blast
  qed
  then show "sinv A {} st'" "grows st st'"
    "\<exists>new. uniqueNodeIdSetTable st' = uniqueNodeIdSetTable st @ new \<and> unprocessedNodes st' = butlast (unprocessedNodes st) @ new"
    by blast+
qed

end
