(* ===== verification/CE_Subset_Theorems.thy ===== *)
theory CE_Subset_Theorems
  imports CE_Subset_Correct CE_Prefix_Lang
begin

text \<open>
  The theorems about \<open>NFAToDFA::convert\<close>: it ends within the number of subsets of the nodes, it
  does not crash without end-of-line assertions, and its automaton produces the same actions as
  the NFA on every input.
\<close>

section \<open>Termination\<close>

lemma table_bound:
  assumes "sinv A busy st"
  shows "tab_size st \<le> 2 ^ size_of A"
proof -
  have "inj_on (tab st) {..<tab_size st}" using sinvD(3) [OF assms] by (auto intro: inj_onI)
  then have "tab_size st = card (tab st ` {..<tab_size st})" by (simp add: card_image)
  also have "tab st ` {..<tab_size st} \<subseteq> Pow {..<size_of A}"
    using sinvD(2) [OF assms] by (auto simp: entry_ok_def set_ok_def)
  then have "card (tab st ` {..<tab_size st}) \<le> card (Pow {..<size_of A})" by (intro card_mono) auto
  finally show ?thesis by (simp add: card_Pow)
qed

definition finished :: "nfa \<Rightarrow> subset_state \<Rightarrow> bool" where
  "finished A st \<longleftrightarrow> sinv A {} st \<and> unprocessedNodes st = []"

lemma fuel_step: "t + m \<le> (N::nat) \<Longrightarrow> N - t + Suc b \<le> Suc f \<Longrightarrow> N - (t + m) + (b + m) \<le> f"
  by simp

lemma convert_loop_correct:
  assumes ok: "graph_ok A" and cl: "closures_ok A graph closures"
  shows "sinv A {} st \<Longrightarrow> 2 ^ size_of A - tab_size st + length (unprocessedNodes st) \<le> fuel \<Longrightarrow>
     convert_loop fuel graph closures st \<noteq> OutOfFuel \<and>
     (\<forall>dfa. convert_loop fuel graph closures st = Returned dfa \<longrightarrow>
        (\<exists>st'. finished A st' \<and> grows st st' \<and> sub_dfa st' = dfa))"
proof (induction fuel arbitrary: st)
  case 0
  then show ?case by (auto simp: convert_loop.simps finished_def grows_refl)
next
  case (Suc fuel)
  show ?case
  proof (cases "unprocessedNodes st = []")
    case True
    with Suc.prems show ?thesis by (auto simp: convert_loop.simps finished_def grows_refl)
  next
    case False
    show ?thesis
    proof (cases "process_set graph closures st")
      case None
      with False show ?thesis by (simp add: convert_loop.simps)
    next
      case (Some st')
      note P = process_set_correct [OF ok cl Suc.prems(1) False Some]
      obtain new where new: "uniqueNodeIdSetTable st' = uniqueNodeIdSetTable st @ new"
        "unprocessedNodes st' = butlast (unprocessedNodes st) @ new" using P(3) by blast
      have l: "length (unprocessedNodes st) = Suc (length (butlast (unprocessedNodes st)))" using False by simp
      have "2 ^ size_of A - tab_size st' + length (unprocessedNodes st') \<le> fuel"
        unfolding new length_append
      proof (rule fuel_step)
        show "tab_size st + length new \<le> 2 ^ size_of A" using table_bound [OF P(1)] new(1) by simp
        show "2 ^ size_of A - tab_size st + Suc (length (butlast (unprocessedNodes st))) \<le> Suc fuel"
          using Suc.prems(2) unfolding l .
      qed
      note I = Suc.IH [OF P(1) this]
      have rec: "convert_loop (Suc fuel) graph closures st = convert_loop fuel graph closures st'"
        using False Some by (simp add: convert_loop.simps [of "Suc fuel"])
      show ?thesis unfolding rec
      proof (intro conjI allI impI)
        show "convert_loop fuel graph closures st' \<noteq> OutOfFuel" using I by blast
        fix dfa assume "convert_loop fuel graph closures st' = Returned dfa"
        with I obtain st'' where "finished A st''" "grows st' st''" "sub_dfa st'' = dfa" by blast
        with grows_trans [OF P(2)] show "\<exists>st''. finished A st'' \<and> grows st st'' \<and> sub_dfa st'' = dfa" by blast
      qed
    qed
  qed
qed

lemma sinv_initial: "sinv A {} \<lparr>sub_dfa = new_DFA, uniqueNodeIdSetTable = [], unprocessedNodes = []\<rparr>"
  by (simp add: sinv_def new_DFA_def)

lemma convert_correct:
  assumes ok: "graph_ok A" and fuel: "2 ^ size_of A \<le> fuel"
  shows "NFAToDFA_convert fuel A \<noteq> OutOfFuel"
    and "NFAToDFA_convert fuel A = Returned dfa \<Longrightarrow>
       \<exists>st. finished A st \<and> sub_dfa st = dfa \<and> leads_to st (eclose A {m_root A}) 0"
proof -
  obtain graph closures where res: "resolveEpsilonClosures (m_nodes A) = Some (graph, closures)" "closures_ok A graph closures"
    using resolveEpsilonClosures_correct [OF ok] by blast
  have root: "m_root A < size_of A" using ok by (simp add: graph_ok_def wf_nfa_def)
  let ?s = "extendSetWithClosure closures (m_root A) [m_root A]"
  let ?st0 = "\<lparr>sub_dfa = new_DFA, uniqueNodeIdSetTable = [], unprocessedNodes = []\<rparr>"
  have set: "set ?s = eclose A {m_root A}"
    using closure_set [OF res(2) root, of "[]"] by (simp add: hs_add_def)
  have "distinct ?s" by (simp add: extendSetWithClosure_def)
  then have s: "set_ok A ?s" "?s \<noteq> []"
    using set eclose_bounds [OF ok, of "{m_root A}"] root eclose_ext [of "{m_root A}" A]
    by (auto simp: set_ok_def eclose_idem)
  have "NFAToDFA_convert fuel A \<noteq> OutOfFuel \<and>
     (NFAToDFA_convert fuel A = Returned dfa \<longrightarrow>
       (\<exists>st. finished A st \<and> sub_dfa st = dfa \<and> leads_to st (eclose A {m_root A}) 0))"
  proof (cases "getOrCreateDFANode graph ?s ?st0")
    case None
    with res(1) show ?thesis by (simp add: NFAToDFA_convert_def)
  next
    case (Some r)
    obtain st t where r: "r = (st, t)" by (cases r)
    note G = getOrCreate_Some [OF sinv_initial res(2) s Some [unfolded r]]
    have inv: "sinv A {} st" and lead: "leads_to st (eclose A {m_root A}) t" using G(1,3) set by simp_all
    obtain new where "uniqueNodeIdSetTable st = new" "unprocessedNodes st = new" using G(6) by auto
    moreover have t: "t = 0" using Some r by (auto simp: getOrCreateDFANode_def find_set_def translate_def new_DFA_def Let_def split: if_splits)
    moreover have "0 < tab_size st" using lead t by (simp add: leads_to_def)
    ultimately have "2 ^ size_of A - tab_size st + length (unprocessedNodes st) \<le> fuel"
      using fuel table_bound [OF inv] by simp
    note L = convert_loop_correct [OF ok res(2) inv this]
    have "NFAToDFA_convert fuel A = convert_loop fuel graph closures st"
      using res(1) Some r by (simp add: NFAToDFA_convert_def)
    with L lead t show ?thesis using grows_leads by metis
  qed
  then show "NFAToDFA_convert fuel A \<noteq> OutOfFuel" "NFAToDFA_convert fuel A = Returned dfa \<Longrightarrow>
       \<exists>st. finished A st \<and> sub_dfa st = dfa \<and> leads_to st (eclose A {m_root A}) 0" by blast+
qed

section \<open>The DFA simulates the sets of NFA nodes\<close>

definition subset_rel :: "nfa \<times> nat set \<Rightarrow> DFA \<times> nat \<Rightarrow> bool" where
  "subset_rel = (\<lambda>(A, S) (d, q). \<exists>st. finished A st \<and> sub_dfa st = d \<and> leads_to st S q)"

definition on_first :: "('a \<Rightarrow> 's \<Rightarrow> 'c \<Rightarrow> 's option) \<Rightarrow> 'a \<times> 's \<Rightarrow> 'c \<Rightarrow> ('a \<times> 's) option" where
  "on_first step = (\<lambda>(a, s) c. map_option (Pair a) (step a s c))"

lemma run_out_on_first: "run_out (on_first step) (\<lambda>(a, s). out a s) (a, s) w = run_out (step a) (out a) s w"
  by (induction w arbitrary: s) (auto simp: on_first_def split: option.splits)

interpretation subset_sim: simulation "on_first nfa_step" "\<lambda>(A, S). nfa_out A S" "on_first dfa_step" "\<lambda>(d, q). dfa_out d q"
  subset_rel "\<lambda>c. True"
proof
  fix s t c assume "subset_rel s t"
  then obtain A S d q st where s: "s = (A, S)" "t = (d, q)" "finished A st" "sub_dfa st = d" "leads_to st S q"
    by (auto simp: subset_rel_def)
  then have q: "q < tab_size st" "tab st q = S" by (simp_all add: leads_to_def)
  have "node_done A st q" using s(3) sinvD(7) [OF _ q(1), of A "{}"] by (simp add: finished_def)
  then have r: "rel_option (leads_to st) (nfa_step A S c) (dfa_step d q c)" using q s by (simp add: node_done_def)
  show "rel_option subset_rel (on_first nfa_step s c) (on_first dfa_step t c)"
    unfolding s on_first_def prod.case option.rel_map
    by (rule option.rel_mono_strong [OF r]) (use s(3,4) in \<open>auto simp: subset_rel_def\<close>)
next
  fix s t assume "subset_rel s t"
  then obtain A S d q st where s: "s = (A, S)" "t = (d, q)" "finished A st" "sub_dfa st = d" "leads_to st S q"
    by (auto simp: subset_rel_def)
  then have "entry_ok A st q" using sinvD(2) [of A "{}" st q] by (simp add: finished_def leads_to_def)
  then show "(\<lambda>(A, S). nfa_out A S) s = (\<lambda>(d, q). dfa_out d q) t"
    using s by (simp add: entry_ok_def leads_to_def)
qed

section \<open>Sets of nodes and words\<close>

lemma path_Cons_closed:
  assumes "eclose A S = S"
  shows "(\<exists>p \<in> S. path (edges A) p (c # v) q) \<longleftrightarrow> (\<exists>r \<in> char_targets A S c. path (edges A) r v q)"
proof
  have "path (edges A) p w q \<Longrightarrow> w = c # v \<Longrightarrow> p \<in> S \<Longrightarrow> \<exists>r \<in> char_targets A S c. path (edges A) r v q" for p w
  proof (induction rule: path.induct)
    case (path_eps p r w q)
    have "r \<in> S" using path_eps.prems(2) path_eps.hyps(1) assms path_eps_single unfolding eclose_def by blast
    with path_eps show ?case by blast
  qed (auto simp: char_targets_def)
  then show "\<exists>p \<in> S. path (edges A) p (c # v) q \<Longrightarrow> \<exists>r \<in> char_targets A S c. path (edges A) r v q" by blast
next
  assume "\<exists>r \<in> char_targets A S c. path (edges A) r v q"
  then show "\<exists>p \<in> S. path (edges A) p (c # v) q" by (auto simp: char_targets_def intro: path.path_char)
qed

lemma path_from_closure: "(\<exists>r \<in> eclose A T. path (edges A) r v q) \<longleftrightarrow> (\<exists>r \<in> T. path (edges A) r v q)"
proof -
  have "path (edges A) n v q" if "path (edges A) n [] r" "path (edges A) r v q" for n r
    using path_append [OF that] by simp
  then show ?thesis unfolding eclose_def by (auto intro: path.path_refl)
qed

lemma path_Nil_from: "eclose A S = S \<Longrightarrow> (\<exists>p \<in> S. path (edges A) p [] q) \<longleftrightarrow> q \<in> S"
  unfolding eclose_def by blast

lemma ex_positive: "(\<exists>m. 0 < m \<and> m \<le> Suc l \<and> Q m) \<longleftrightarrow> (\<exists>n \<le> l. Q (Suc n))"
  by (metis Suc_le_mono gr0_implies_Suc zero_less_Suc)

lemma ex_zero: "(\<exists>n \<le> l. Q n) \<longleftrightarrow> Q 0 \<or> (\<exists>n::nat. 0 < n \<and> n \<le> l \<and> Q n)"
  by (metis gr0I le0)

lemma nfa_run_out:
  "eclose A S = S \<Longrightarrow> run_out (nfa_step A) (nfa_out A) S w =
     {a. \<exists>n. 0 < n \<and> n \<le> length w \<and> (\<exists>p \<in> S. \<exists>q. path (edges A) p (take n w) q \<and> a \<in> rules_at A q)}"
proof (induction w arbitrary: S)
  case (Cons c w)
  let ?T = "eclose A (char_targets A S c)"
  have closed: "eclose A ?T = ?T" by (rule eclose_idem)
  have "(\<exists>p \<in> S. path (edges A) p (c # v) q) \<longleftrightarrow> (\<exists>p \<in> ?T. path (edges A) p v q)" for v q
    unfolding path_Cons_closed [OF Cons.prems] path_from_closure ..
  then have swap: "(\<exists>p \<in> S. \<exists>q. path (edges A) p (c # v) q \<and> a \<in> rules_at A q) \<longleftrightarrow>
      (\<exists>p \<in> ?T. \<exists>q. path (edges A) p v q \<and> a \<in> rules_at A q)" for v a by blast
  have out: "(\<exists>p \<in> ?T. \<exists>q. path (edges A) p (take 0 w) q \<and> a \<in> rules_at A q) \<longleftrightarrow> a \<in> nfa_out A ?T" for a
    using path_Nil_from [OF closed] unfolding nfa_out_def take_0 by blast
  have "{a. \<exists>n. 0 < n \<and> n \<le> length (c # w) \<and> (\<exists>p \<in> S. \<exists>q. path (edges A) p (take n (c # w)) q \<and> a \<in> rules_at A q)}
    = {a. \<exists>n \<le> length w. \<exists>p \<in> ?T. \<exists>q. path (edges A) p (take n w) q \<and> a \<in> rules_at A q}"
    by (simp only: list.size ex_positive add_Suc_right add_0_right take_Suc_Cons swap)
  also have "\<dots> = nfa_out A ?T \<union>
     {a. \<exists>n. 0 < n \<and> n \<le> length w \<and> (\<exists>p \<in> ?T. \<exists>q. path (edges A) p (take n w) q \<and> a \<in> rules_at A q)}"
    by (rule set_eqI, simp only: mem_Collect_eq Un_iff) (unfold out [symmetric], rule ex_zero)
  also have "\<dots> = run_out (nfa_step A) (nfa_out A) S (c # w)"
  proof (cases "?T = {}")
    case True
    then show ?thesis by (simp add: nfa_step_def nfa_out_def)
  next
    case False
    then have "nfa_step A S c = Some ?T" by (simp add: nfa_step_def Let_def)
    with Cons.IH [OF closed] show ?thesis by simp
  qed
  finally show ?case by simp
qed simp

definition nonempty_accepts :: "nfa \<Rightarrow> (nat list \<times> u64) set" where
  "nonempty_accepts A = {(w, a) \<in> nfa_accepts A. w \<noteq> []}"

lemma nfa_machine_accepts:
  assumes "graph_ok A"
  shows "run_out (nfa_step A) (nfa_out A) (eclose A {m_root A}) w = {a. \<exists>n. (take n w, a) \<in> nonempty_accepts A}"
proof -
  have root: "m_root A < size_of A" using assms by (simp add: graph_ok_def wf_nfa_def)
  have "run_out (nfa_step A) (nfa_out A) (eclose A {m_root A}) w =
     {a. \<exists>n. 0 < n \<and> n \<le> length w \<and> (\<exists>q. path (edges A) (m_root A) (take n w) q \<and> a \<in> rules_at A q)}"
    unfolding nfa_run_out [OF eclose_idem] using path_from_closure [of A "{m_root A}"] by blast
  also have "\<dots> = {a. \<exists>n. (take n w, a) \<in> nonempty_accepts A}"
  proof -
    have "(\<exists>q. path (edges A) (m_root A) u q \<and> a \<in> rules_at A q) \<longleftrightarrow> (u, a) \<in> nfa_accepts A" for u a
      using path_bounds [OF _ assms root] by (auto simp: nfa_accepts_def)
    then show ?thesis
      by (auto simp: nonempty_accepts_def) (metis gr0I linorder_le_cases list.size(3) take_all take_eq_Nil)+
  qed
  finally show ?thesis .
qed

lemma convert_run_out:
  assumes ok: "graph_ok A" and fuel: "2 ^ size_of A \<le> fuel" and r: "NFAToDFA_convert fuel A = Returned dfa"
  shows "run_out (dfa_step dfa) (dfa_out dfa) 0 w = {a. \<exists>n. (take n w, a) \<in> nonempty_accepts A}"
proof -
  obtain st where "finished A st" "sub_dfa st = dfa" "leads_to st (eclose A {m_root A}) 0"
    using convert_correct(2) [OF ok fuel r] by blast
  then have "subset_rel (A, eclose A {m_root A}) (dfa, 0)" by (auto simp: subset_rel_def)
  from subset_sim.run_out_eq [OF this, of w]
  have "run_out (nfa_step A) (nfa_out A) (eclose A {m_root A}) w = run_out (dfa_step dfa) (dfa_out dfa) 0 w"
    by (simp add: run_out_on_first list_all_iff)
  then show ?thesis using nfa_machine_accepts [OF ok] by simp
qed

end
