(* ===== verification/CE_Subset_Total.thy ===== *)
theory CE_Subset_Total
  imports CE_Subset_Theorems
begin

text \<open>
  When the subset construction cannot crash: the automata of the compiler are well formed, and on a
  well-formed automaton without transitions on NUL and with at most 65535 actions no assertion of
  \<open>NFAToDFA::convert\<close> fails.
\<close>

section \<open>The compiler makes well-formed nodes\<close>

definition nodes_ok :: "nfa \<Rightarrow> bool" where
  "nodes_ok A \<longleftrightarrow> list_all node_ok (m_nodes A)"

lemma graph_ok_iff: "graph_ok A \<longleftrightarrow> wf_nfa A \<and> nodes_ok A"
  by (auto simp: graph_ok_def nodes_ok_def list_all_iff)

lemma nodes_ok_update [wf_intros]:
  assumes "nodes_ok A" "\<And>n. node_ok n \<Longrightarrow> node_ok (f n)"
  shows "nodes_ok (update_node i f A)"
proof (cases "i < length (m_nodes A)")
  case True
  have "node_ok (f (m_nodes A ! i))" using assms True by (simp add: nodes_ok_def list_all_length)
  with assms(1) show ?thesis
    by (auto simp: nodes_ok_def update_node_def list_all_iff dest!: set_update_subset_insert [THEN subsetD])
next
  case False
  then have "update_node i f A = A" by (simp add: update_node_def list_update_beyond)
  with assms(1) show ?thesis by simp
qed

lemma hs_add_not_Nil [simp]: "hs_add t ts \<noteq> []"
  by (auto simp: hs_add_def)

lemma node_ok_add_target:
  assumes "node_ok n" "k < 128 \<or> k = epsilonTransitionCharacter"
  shows "node_ok (add_target k t n)"
proof -
  let ?m = "transitions n"
  have "(k' < 128 \<or> k' = epsilonTransitionCharacter) \<and> ts \<noteq> []"
    if mem: "(k', ts) \<in> set (hm_modify k (hs_add t) (hm_add k [] ?m))" for k' ts
  proof -
    obtain v where v: "(k', v) \<in> set (hm_add k [] ?m)" "ts = (if k' = k then hs_add t v else v)"
      using mem by (auto simp: hm_modify_def split: if_splits)
    show ?thesis
    proof (cases "k' = k")
      case False
      then have "(k', v) \<in> set ?m" using v(1) by (auto simp: hm_add_def split: if_splits)
      with False v(2) assms(1) show ?thesis by (auto simp: node_ok_def)
    qed (use v(2) assms(2) in simp)
  qed
  moreover have "distinct (map fst (hm_add k [] ?m))"
    by (rule distinct_hm_add) (use assms(1) in \<open>simp add: node_ok_def\<close>)
  ultimately show ?thesis by (auto simp: node_ok_def add_target_def)
qed

lemma nodes_ok_ops [wf_intros]:
  "nodes_ok A \<Longrightarrow> nodes_ok (fst (createNode A))"
  "nodes_ok A \<Longrightarrow> nodes_ok (addEpsilonTransition p q A)"
  "nodes_ok A \<Longrightarrow> c < 128 \<Longrightarrow> nodes_ok (addTransition p q c A)"
  "nodes_ok A \<Longrightarrow> nodes_ok (addTransitionsOnAnyCharacter p q A)"
  "nodes_ok A \<Longrightarrow> nodes_ok (setActions p acts A)"
proof -
  assume A: "nodes_ok A"
  show "nodes_ok (fst (createNode A))"
    using A by (simp add: nodes_ok_def createNode_def node_ok_def empty_node_def)
  show "nodes_ok (addEpsilonTransition p q A)"
    unfolding addEpsilonTransition_def by (rule nodes_ok_update [OF A]) (simp add: node_ok_add_target)
  show "c < 128 \<Longrightarrow> nodes_ok (addTransition p q c A)"
    unfolding addTransition_def using A by (auto intro: nodes_ok_update node_ok_add_target)
  show "nodes_ok (addTransitionsOnAnyCharacter p q A)" "nodes_ok (setActions p acts A)"
    unfolding addTransitionsOnAnyCharacter_def setActions_def
    by (intro nodes_ok_update A; simp add: node_ok_def)+
qed

lemma nodes_ok_new: "nodes_ok new_nfa"
  by (simp add: nodes_ok_def node_ok_def new_nfa_def createNode_def empty_node_def)

lemma nodes_ok_fold:
  "nodes_ok A \<Longrightarrow> \<forall>i \<in> set xs. i < 128 \<Longrightarrow>
     nodes_ok (fold (\<lambda>i nfa. if P i then addTransition p q i nfa else nfa) xs A)"
  by (induction xs arbitrary: A) (auto intro: wf_intros)

lemma nodes_ok_character_set: "nodes_ok A \<Longrightarrow> nodes_ok (fst (character_set_graph cs u A s))"
  by (auto simp: character_set_graph_def Let_def case_prod_beta simp del: upt_Suc intro!: nodes_ok_fold wf_intros)

lemma nodes_ok_quantified:
  assumes atom: "\<And>A s. nodes_ok A \<Longrightarrow> nodes_ok (fst (atom A s))" and A: "nodes_ok A"
  shows "nodes_ok (fst (quantified_subgraph q atom A s))"
  unfolding quantified_subgraph_def Let_def case_prod_beta
  by (cases q; simp only: AtomQuantifier.case fst_conv; intro nodes_ok_ops(1,2) atom A)

lemma nodes_ok_graph: "nodes_ok A \<Longrightarrow> nodes_ok (fst (generateGraph t A s acts))"
proof (induction t arbitrary: A s acts rule: measure_induct_rule [where f = size])
  case (less t)
  have group: "nodes_ok (fst (fold (\<lambda>term (nfa, lastTarget). generateGraph term nfa lastTarget []) ts (B, r)))"
    if "nodes_ok B" "\<forall>u \<in> set ts. size u < size t" for ts B r
    using that
  proof (induction ts arbitrary: B r)
    case (Cons u ts)
    obtain B' r' where g: "generateGraph u B r [] = (B', r')" by fastforce
    then have "nodes_ok B'" using less.IH [of u B r "[]"] Cons.prems by simp
    with Cons g show ?case by simp
  qed simp
  have atom: "nodes_ok (fst (generateSubgraphForAtom t B r))" if B: "nodes_ok B" for B r
  proof (cases t)
    case (GroupTerm q ts)
    have "\<forall>u \<in> set ts. size u < size t" using GroupTerm size_in_group by (fastforce simp: less_Suc_eq)
    with group [OF B] GroupTerm show ?thesis by (simp add: generateSubgraphForAtom.simps)
  qed (use B in \<open>simp_all add: generateSubgraphForAtom.simps nodes_ok_character_set\<close>)
  have "nodes_ok (fst (quantified_subgraph (m_quantifier t) (\<lambda>n s. generateSubgraphForAtom t n s) A s))"
    by (rule nodes_ok_quantified [OF atom less.prems])
  then show ?case by (simp add: generateGraph.simps case_prod_beta nodes_ok_ops(5))
qed

lemma nodes_ok_subtree:
  "nodes_ok A \<Longrightarrow> subtree_vertex m v s A b = (v', A', b') \<Longrightarrow> nodes_ok A'"
  "nodes_ok A \<Longrightarrow> subtree_edges m es s A b = (es', A', b') \<Longrightarrow> nodes_ok A'"
  "nodes_ok A \<Longrightarrow> subtree_edge m e s A b = (e', A', b') \<Longrightarrow> nodes_ok A'"
proof (induction m v s A b and m es s A b and m e s A b arbitrary: v' A' b' and es' A' b' and e' A' b'
    rule: subtree_vertex_subtree_edges_subtree_edge.induct)
  case (4 m t c s A b)
  obtain A1 r where g: "generateGraph t A s (finalActions c) = (A1, r)" by fastforce
  obtain c2 A2 b2 where v: "subtree_vertex m c r A1 b = (c2, A2, b2)" using prod_cases3 by blast
  have "nodes_ok A1" using nodes_ok_graph [OF 4(2), of t s "finalActions c"] g by simp
  with 4(1) [OF _ g [symmetric] refl _ v] 4(2,3) g v show ?case by (auto split: if_splits)
next
  case (1 m es acts s A b)
  obtain es1 A1 b1 where r: "subtree_edges m es s A (b \<or> es = [] \<and> m < graphSize A) = (es1, A1, b1)" using prod_cases3 by blast
  with 1(1) [OF refl 1(2) r] 1(3) show ?case by simp
next
  case (2 m s A b)
  then show ?case by simp
next
  case (3 m e es s A b)
  obtain e1 A1 b1 where r1: "subtree_edge m e s A b = (e1, A1, b1)" using prod_cases3 by blast
  obtain es2 A2 b2 where r2: "subtree_edges m es s A1 b1 = (es2, A2, b2)" using prod_cases3 by blast
  show ?case
  proof (cases b)
    case False
    have "nodes_ok A1" using 3(1) [OF False 3(3) r1] .
    with 3(2) [OF False r1 [symmetric] refl refl _ r2] 3(4) r1 r2 False show ?thesis by simp
  next
    case True
    with 3(3,4) show ?thesis by simp
  qed
qed

lemma nodes_ok_round: "nodes_ok A \<Longrightarrow> nodes_ok (snd (process_round m v e A))"
proof (induction m v e A rule: process_round.induct)
  case (1 m es acts e A)
  show ?case
  proof (cases "quantified_below (PrefixTreeVertex es acts)")
    case True
    obtain A1 e1 where g: "generateGraph (edge_term (last es)) A e (finalActions (child (last es))) = (A1, e1)" by fastforce
    then have "nodes_ok A1" using nodes_ok_graph [OF 1(2)] by (metis fst_conv)
    with 1(1) [OF True g [symmetric] refl] True g show ?thesis
      by (simp add: process_round.simps [of m es] case_prod_beta)
  next
    case False
    obtain v2 A2 b2 where r: "subtree_vertex m (PrefixTreeVertex es acts) e A False = (v2, A2, b2)" using prod_cases3 by blast
    then have "nodes_ok A2" using nodes_ok_subtree(1) [OF 1(2)] by blast
    with False r 1(2) show ?thesis
      by (simp add: process_round.simps [of m es] generateNFAForSubtree_def del: subtree_vertex.simps)
  qed
qed

lemma nodes_ok_processNFAs: "A \<in> set (processNFAs m v) \<Longrightarrow> nodes_ok A"
proof (induction m v rule: processNFAs.induct)
  case (1 m v)
  show ?case
  proof (cases "tree_edges v = []")
    case False
    obtain v' B where r: "process_round m v (m_root new_nfa) new_nfa = (v', B)" by fastforce
    have "nodes_ok B" using nodes_ok_round [OF nodes_ok_new, of m v "m_root new_nfa"] r by simp
    with 1 False r show ?thesis by (auto simp: processNFAs.simps [of m v])
  qed (use 1 in \<open>simp add: processNFAs.simps\<close>)
qed

lemma graph_ok_processNFAs:
  "proper_vertex tree \<Longrightarrow> A \<in> set (processNFAs m tree) \<Longrightarrow> graph_ok A"
  using nodes_ok_processNFAs processNFAs_wf by (auto simp: graph_ok_iff)

section \<open>No crash without NUL transitions\<close>

text \<open>No node has a transition on NUL, and there are at most 65535 actions.\<close>

definition tame :: "nfa \<Rightarrow> bool" where
  "tame A \<longleftrightarrow> (\<forall>n < size_of A. node_targets (m_nodes A ! n) 0 = []) \<and> card (nfa_out A {..<size_of A}) \<le> 65535"

lemma getOrCreate_total:
  assumes "tame A" "closures_ok A graph closures" "set_ok A s"
  shows "\<exists>st' t. getOrCreateDFANode graph s st = Some (st', t)"
proof -
  have s: "set s \<subseteq> {..<size_of A}" using assms(3) by (simp add: set_ok_def)
  note R = rules_of_facts [OF assms(2) s]
  have "finite (nfa_out A {..<size_of A})" by (simp add: nfa_out_def rules_at_def)
  moreover have "nfa_out A (set s) \<subseteq> nfa_out A {..<size_of A}" using s by (auto simp: nfa_out_def)
  ultimately have "card (nfa_out A (set s)) \<le> 65535"
    using assms(1) card_mono le_trans unfolding tame_def by blast
  then have "length (rules_of graph s) \<le> 65535" using R distinct_card by metis
  then show ?thesis
    by (auto simp: getOrCreateDFANode_def translate_def rules_of_def Let_def split: option.split)
qed

lemma add_key_transitions_total:
  "tame A \<Longrightarrow> closures_ok A graph closures \<Longrightarrow> \<forall>s \<in> set sts. set_ok A s \<Longrightarrow>
     \<exists>st'. add_key_transitions graph key sts st = Some st'"
proof (induction sts arbitrary: key st)
  case (Cons s sts)
  obtain st1 t where g: "getOrCreateDFANode graph s st = Some (st1, t)"
    using getOrCreate_total [OF Cons.prems(1,2)] Cons.prems(3) by fastforce
  show ?case
  proof (cases "s = []")
    case True
    with Cons show ?thesis by simp
  next
    case False
    let ?st = "st1\<lparr>sub_dfa := sub_dfa st1\<lparr>dfa_transitions := dfa_transitions (sub_dfa st1) @ [(key, t)]\<rparr>\<rparr>"
    have "\<forall>s \<in> set sts. set_ok A s" using Cons.prems(3) by simp
    with Cons.IH [OF Cons.prems(1,2), of "Suc key" ?st] False g show ?thesis by simp
  qed
qed simp

lemma nonempty_count: "length sts = 128 \<Longrightarrow> sts ! 0 = [] \<Longrightarrow> length (filter (\<lambda>s. s \<noteq> []) sts) \<le> 127"
  by (cases sts) (auto intro: order_trans [OF length_filter_le])

lemma process_set_total:
  assumes ok: "graph_ok A" and cl: "closures_ok A graph closures" and inv: "sinv A {} st"
    and ne: "unprocessedNodes st \<noteq> []" and tame: "tame A"
  shows "\<exists>st'. process_set graph closures st = Some st'"
proof -
  obtain source d where last: "last (unprocessedNodes st) = (source, d)" by fastforce
  define st0 where "st0 = st\<lparr>unprocessedNodes := butlast (unprocessedNodes st)\<rparr>"
  note S = sinv_start [OF inv ne last, folded st0_def]
  have bound: "set source \<subseteq> {..<size_of A}"
    using sinvD(2) [OF inv S(2)] S(3) by (simp add: entry_ok_def set_ok_def)
  obtain sts fallback where pop: "populateTransitions graph closures source = Some (sts, fallback)" "length sts = 128"
    "set_ok A fallback"
    "\<forall>k < 128. set_ok A (sts ! k) \<and> (if key_targets A (set source) k = {} then sts ! k = []
         else sts ! k \<noteq> [] \<and> set (sts ! k) = eclose A (char_targets A (set source) k))"
    using populateTransitions_correct [OF ok cl bound] by blast
  have sets: "\<forall>s \<in> set sts. set_ok A s" using pop(2,4) by (auto simp: in_set_conv_nth)
  obtain st1 where k: "add_key_transitions graph 0 sts st0 = Some st1"
    using add_key_transitions_total [OF tame cl sets] by blast
  have d0: "d < tab_size st0" "\<forall>b \<in> {d}. b < tab_size st0" using S(2) by (simp_all add: st0_def)
  from add_key_transitions_correct [OF k cl S(1) d0(2) sets] obtain trs where K: "sinv A {d} st1"
    "\<forall>i < tab_size st0. nodes (sub_dfa st1) ! i = nodes (sub_dfa st0) ! i" "tab_size st0 \<le> tab_size st1"
    "dfa_transitions (sub_dfa st1) = dfa_transitions (sub_dfa st0) @ trs" "length trs = length (filter (\<lambda>s. s \<noteq> []) sts)"
    by (auto simp: grows_def)
  have "key_targets A (set source) 0 = {}" using tame bound by (auto simp: key_targets_def tame_def)
  then have "sts ! 0 = []" using pop(4) by (metis zero_less_numeral)
  then have le: "length trs \<le> 127" using nonempty_count [OF pop(2)] K(5) by simp
  let ?n = "nodes (sub_dfa st) ! d" and ?start = "length (dfa_transitions (sub_dfa st))"
  define st2 where "st2 = set_node_transitions d ?start (length trs) st1"
  have len: "length (nodes (sub_dfa st1)) = tab_size st1" using sinvD(1) [OF K(1)] .
  have d1: "d < tab_size st1" using d0(1) K(3) by simp
  have "nodes (sub_dfa st1) ! d = ?n" using K(2) d0(1) by (simp add: st0_def)
  then have n2: "nodes (sub_dfa st2) ! d = setTransitions ?start (length trs) ?n"
    using d1 len by (simp add: st2_def set_node_transitions_def)
  note N = setTransitions_facts [OF S(5) le, of ?start]
  have tr2: "dfa_transitions (sub_dfa st2) = dfa_transitions (sub_dfa st) @ trs"
    using K(4) by (simp add: st2_def set_node_transitions_def st0_def)
  have eq: "process_set graph closures st =
     (if fallback = [] then Some st2
      else case getOrCreateDFANode graph fallback st2 of None \<Rightarrow> None
           | Some (st, t) \<Rightarrow> map_option (\<lambda>dfa. st\<lparr>sub_dfa := dfa\<rparr>) (addFallbackTransition d t (sub_dfa st)))"
    using last pop(1) k K(4) le by (simp add: process_set_def st0_def st2_def Let_def)
  show ?thesis
  proof (cases "fallback = []")
    case False
    obtain st3 t where g: "getOrCreateDFANode graph fallback st2 = Some (st3, t)"
      using getOrCreate_total [OF tame cl pop(3)] by blast
    have "length (nodes (sub_dfa st2)) = tab_size st1" using len by (simp add: st2_def set_node_transitions_def)
    with g d1 n2 tr2 have "nodes (sub_dfa st3) ! d = setTransitions ?start (length trs) ?n"
      "dfa_transitions (sub_dfa st3) = dfa_transitions (sub_dfa st) @ trs"
      by (auto simp: getOrCreateDFANode_def translate_def Let_def nth_append split: option.splits if_splits)
    with g eq False N show ?thesis by (simp add: addFallbackTransition_def Let_def)
  qed (use eq in simp)
qed

lemma convert_loop_total:
  assumes "graph_ok A" "closures_ok A graph closures" "tame A"
  shows "sinv A {} st \<Longrightarrow> convert_loop fuel graph closures st \<noteq> Crashed"
proof (induction fuel arbitrary: st)
  case (Suc fuel)
  show ?case
  proof (cases "unprocessedNodes st = []")
    case False
    obtain st' where st': "process_set graph closures st = Some st'"
      using process_set_total [OF assms(1,2) Suc.prems False assms(3)] by blast
    with Suc.IH process_set_correct(1) [OF assms(1,2) Suc.prems False st'] False
    show ?thesis by (simp add: convert_loop.simps [of "Suc fuel"])
  qed (simp add: convert_loop.simps)
qed (simp add: convert_loop.simps)

abbreviation start_state :: subset_state where
  "start_state \<equiv> \<lparr>sub_dfa = new_DFA, uniqueNodeIdSetTable = [], unprocessedNodes = []\<rparr>"

lemma convert_start:
  assumes ok: "graph_ok A"
  obtains graph closures s where "closures_ok A graph closures" "set_ok A s" "set s = eclose A {m_root A}"
    "NFAToDFA_convert fuel A =
       (case getOrCreateDFANode graph s start_state of None \<Rightarrow> Crashed | Some (st, _) \<Rightarrow> convert_loop fuel graph closures st)"
    "\<And>st t. getOrCreateDFANode graph s start_state = Some (st, t) \<Longrightarrow> sinv A {} st \<and> unprocessedNodes st = [(s, 0)]"
proof -
  obtain graph closures where res: "resolveEpsilonClosures (m_nodes A) = Some (graph, closures)" "closures_ok A graph closures"
    using resolveEpsilonClosures_correct [OF ok] by blast
  have root: "m_root A < size_of A" using ok by (simp add: graph_ok_def wf_nfa_def)
  let ?s = "extendSetWithClosure closures (m_root A) [m_root A]"
  have set: "set ?s = eclose A {m_root A}"
    using closure_set [OF res(2) root, of "[]"] by (simp add: hs_add_def)
  have "distinct ?s" by (simp add: extendSetWithClosure_def)
  then have s: "set_ok A ?s" "?s \<noteq> []"
    using set eclose_bounds [OF ok, of "{m_root A}"] root eclose_ext [of "{m_root A}" A]
    by (auto simp: set_ok_def eclose_idem)
  have st: "sinv A {} st \<and> unprocessedNodes st = [(?s, 0)]" if g: "getOrCreateDFANode graph ?s start_state = Some (st, t)" for st t
    using getOrCreate_Some(1) [OF sinv_initial res(2) s g] g
    by (auto simp: getOrCreateDFANode_def find_set_def translate_def new_DFA_def Let_def split: if_splits)
  show ?thesis by (rule that [OF res(2) s(1) set _ st]) (simp_all add: NFAToDFA_convert_def res(1))
qed

lemma convert_total:
  assumes ok: "graph_ok A" and tame: "tame A" and fuel: "2 ^ size_of A \<le> fuel"
  shows "\<exists>dfa. NFAToDFA_convert fuel A = Returned dfa"
proof -
  obtain graph closures s where start: "closures_ok A graph closures" "set_ok A s"
    "NFAToDFA_convert fuel A =
       (case getOrCreateDFANode graph s start_state of None \<Rightarrow> Crashed | Some (st, _) \<Rightarrow> convert_loop fuel graph closures st)"
    "\<And>st t. getOrCreateDFANode graph s start_state = Some (st, t) \<Longrightarrow> sinv A {} st \<and> unprocessedNodes st = [(s, 0)]"
    using convert_start [where fuel = fuel, OF ok] by metis
  obtain st t where "getOrCreateDFANode graph s start_state = Some (st, t)"
    using getOrCreate_total [OF tame start(1,2)] by blast
  with start(3,4) convert_loop_total [OF ok start(1) tame] have "NFAToDFA_convert fuel A \<noteq> Crashed" by simp
  then show ?thesis using convert_correct(1) [OF ok fuel] by (cases "NFAToDFA_convert fuel A") auto
qed

section \<open>The crash on a full set of transitions\<close>

lemma process_set_full:
  assumes ok: "graph_ok A" and cl: "closures_ok A graph closures" and inv: "sinv A {} st"
    and last: "unprocessedNodes st = [(source, d)]" and full: "\<forall>k < 128. key_targets A (set source) k \<noteq> {}"
  shows "process_set graph closures st = None"
proof -
  have ne: "unprocessedNodes st \<noteq> []" and l: "last (unprocessedNodes st) = (source, d)" using last by simp_all
  define st0 where "st0 = st\<lparr>unprocessedNodes := butlast (unprocessedNodes st)\<rparr>"
  note S = sinv_start [OF inv ne l, folded st0_def]
  have bound: "set source \<subseteq> {..<size_of A}"
    using sinvD(2) [OF inv S(2)] S(3) by (simp add: entry_ok_def set_ok_def)
  obtain sts fallback where pop: "populateTransitions graph closures source = Some (sts, fallback)" "length sts = 128"
    "\<forall>k < 128. set_ok A (sts ! k) \<and> (if key_targets A (set source) k = {} then sts ! k = []
         else sts ! k \<noteq> [] \<and> set (sts ! k) = eclose A (char_targets A (set source) k))"
    using populateTransitions_correct [OF ok cl bound] by blast
  have sets: "\<forall>s \<in> set sts. set_ok A s" using pop(2,3) by (auto simp: in_set_conv_nth)
  have "\<forall>s \<in> set sts. s \<noteq> []" using pop(2,3) full by (metis in_set_conv_nth)
  then have all: "length (filter (\<lambda>s. s \<noteq> []) sts) = 128" using pop(2) by (simp add: filter_True)
  show ?thesis
  proof (cases "add_key_transitions graph 0 sts st0")
    case None
    with l pop(1) show ?thesis by (simp add: process_set_def st0_def Let_def)
  next
    case (Some st1)
    have "\<forall>b \<in> {d}. b < tab_size st0" using S(2) by (simp add: st0_def)
    from add_key_transitions_correct [OF Some cl S(1) this sets] obtain trs where
      "dfa_transitions (sub_dfa st1) = dfa_transitions (sub_dfa st) @ trs" "length trs = 128"
      using all by (auto simp: st0_def)
    with l pop(1) Some show ?thesis by (simp add: process_set_def st0_def Let_def)
  qed
qed

lemma convert_full:
  assumes ok: "graph_ok A" and full: "\<forall>k < 128. key_targets A (eclose A {m_root A}) k \<noteq> {}"
  shows "NFAToDFA_convert (Suc fuel) A = Crashed"
proof -
  obtain graph closures s where start: "closures_ok A graph closures" "set s = eclose A {m_root A}"
    "NFAToDFA_convert (Suc fuel) A =
       (case getOrCreateDFANode graph s start_state of None \<Rightarrow> Crashed | Some (st, _) \<Rightarrow> convert_loop (Suc fuel) graph closures st)"
    "\<And>st t. getOrCreateDFANode graph s start_state = Some (st, t) \<Longrightarrow> sinv A {} st \<and> unprocessedNodes st = [(s, 0)]"
    using convert_start [where fuel = "Suc fuel", OF ok] by metis
  show ?thesis
  proof (cases "getOrCreateDFANode graph s start_state")
    case (Some r)
    obtain st t where r: "r = (st, t)" by (cases r)
    note st = start(4) [OF Some [unfolded r]]
    have "process_set graph closures st = None"
      by (rule process_set_full [OF ok start(1) conjunct1 [OF st] conjunct2 [OF st]]) (use full start(2) in simp)
    with start(3) Some r st show ?thesis by (simp add: convert_loop.simps)
  qed (use start(3) in simp)
qed

end
