(* ===== verification/CE_Built_Trees.thy ===== *)
theory CE_Built_Trees
  imports CE_Subset_Total CE_Filter_Sem
begin

text \<open>
  The trees and automata of any filters, supported or not: the URL filter parser only stores
  character sets and groups of them, among them the empty group of \<open>()\<close>, and from such terms all
  steps of the compiler make well-formed automata.
\<close>

section \<open>Automata of built terms\<close>

fun built_term :: "trm \<Rightarrow> bool" where
  "built_term (EmptyTerm q) = False"
| "built_term (DeletedTerm q) = False"
| "built_term (CharacterSetTerm q cs) = True"
| "built_term (GroupTerm q ts) = list_all built_term ts"

primrec built_vertex :: "PrefixTreeVertex \<Rightarrow> bool" and built_edge :: "PrefixTreeEdge \<Rightarrow> bool" where
  "built_vertex (PrefixTreeVertex es acts) = list_all id (map built_edge es)"
| "built_edge (PrefixTreeEdge t c) = (built_term t \<and> built_vertex c)"

text \<open>The result of a step that adds nodes and ends in one of them, or where it started.\<close>

definition grows_to :: "nfa \<Rightarrow> nfa \<times> nat \<Rightarrow> bool" where
  "grows_to A r \<longleftrightarrow> wf_nfa (fst r) \<and> length (m_nodes A) \<le> length (m_nodes (fst r)) \<and> snd r < length (m_nodes (fst r))"

lemma grows_toI: "wf_nfa B \<Longrightarrow> length (m_nodes A) \<le> length (m_nodes B) \<Longrightarrow> e < length (m_nodes B) \<Longrightarrow> grows_to A (B, e)"
  by (simp add: grows_to_def)

lemma grows_toD:
  assumes "grows_to A (B, e)"
  shows "wf_nfa B" "length (m_nodes A) \<le> length (m_nodes B)" "e < length (m_nodes B)"
  using assms by (simp_all add: grows_to_def)

lemma grows_to_trans: "grows_to A (B, e) \<Longrightarrow> grows_to B r \<Longrightarrow> grows_to A r"
  by (auto simp: grows_to_def)

lemma wf_createNode: "wf_nfa A \<Longrightarrow> wf_nfa (fst (createNode A))"
  by (fastforce simp: wf_nfa_def)

lemma wf_addEpsilonTransition:
  "wf_nfa A \<Longrightarrow> p < length (m_nodes A) \<Longrightarrow> q < length (m_nodes A) \<Longrightarrow> wf_nfa (addEpsilonTransition p q A)"
  by (auto simp: wf_nfa_def)

lemma wf_addTransitionsOnAnyCharacter:
  "wf_nfa A \<Longrightarrow> p < length (m_nodes A) \<Longrightarrow> q < length (m_nodes A) \<Longrightarrow> wf_nfa (addTransitionsOnAnyCharacter p q A)"
  by (auto simp: wf_nfa_def edges_addTransitionsOnAnyCharacter)

lemma wf_addTransition:
  assumes "wf_nfa A" "p < length (m_nodes A)" "q < length (m_nodes A)" "c \<noteq> 256"
  shows "wf_nfa (addTransition p q c A)"
proof (cases "q \<in> set (transitionsOnAnyCharacter (m_nodes A ! p))")
  case False
  then show ?thesis using assms by (auto simp: wf_nfa_def edges_addTransition)
qed (use assms in \<open>simp add: addTransition_def\<close>)

lemma wf_setActions: "wf_nfa A \<Longrightarrow> wf_nfa (setActions q acts A)"
  by (simp add: wf_nfa_def)

lemmas wf_ops = wf_createNode wf_addEpsilonTransition wf_addTransitionsOnAnyCharacter wf_addTransition wf_setActions

lemma wf_fold_addTransition:
  "wf_nfa A \<Longrightarrow> p < length (m_nodes A) \<Longrightarrow> q < length (m_nodes A) \<Longrightarrow> \<forall>i \<in> set xs. i < 128 \<Longrightarrow>
     wf_nfa (fold (\<lambda>i A. if P i then addTransition p q i A else A) xs A) \<and>
     length (m_nodes (fold (\<lambda>i A. if P i then addTransition p q i A else A) xs A)) = length (m_nodes A)"
proof (induction xs arbitrary: A)
  case (Cons i xs)
  have "wf_nfa (if P i then addTransition p q i A else A)" using Cons.prems by (auto intro: wf_addTransition)
  then show ?case using Cons.IH [of "if P i then addTransition p q i A else A"] Cons.prems by auto
qed simp

lemma grows_character_set:
  assumes "wf_nfa A" "s < length (m_nodes A)"
  shows "grows_to A (character_set_graph cs u A s)"
proof -
  let ?B = "fst (createNode A)" and ?t = "length (m_nodes A)"
  have B: "wf_nfa ?B" "s < length (m_nodes ?B)" "?t < length (m_nodes ?B)" using assms by (simp_all add: wf_createNode)
  have "character_set_graph cs u A s =
     ((if u then addTransitionsOnAnyCharacter s ?t ?B
       else if \<not> m_inverted cs then fold (\<lambda>i A. if CharacterSet_get cs i then addTransition s ?t i A else A) [0..<128] ?B
       else fold (\<lambda>i A. if \<not> CharacterSet_get cs i then addTransition s ?t i A else A) [1..<128] ?B), ?t)"
    by (simp add: character_set_graph_def Let_def case_prod_beta del: upt_Suc)
  then show ?thesis
    using wf_fold_addTransition [OF B, of "[0..<128]" "CharacterSet_get cs"]
      wf_fold_addTransition [OF B, of "[1..<128]" "\<lambda>i. \<not> CharacterSet_get cs i"] wf_addTransitionsOnAnyCharacter [OF B]
    by (simp add: grows_to_def del: upt_Suc One_nat_def)
qed

lemma grows_quantified:
  assumes atom: "\<And>A s. wf_nfa A \<Longrightarrow> s < length (m_nodes A) \<Longrightarrow> grows_to A (atom A s)"
    and A: "wf_nfa A" "s < length (m_nodes A)"
  shows "grows_to A (quantified_subgraph q atom A s)"
proof -
  obtain B e where B: "atom A s = (B, e)" by fastforce
  note g = grows_toD [OF atom [OF A, unfolded B]]
  have one: "grows_to A (atom A s)" by (rule atom [OF A])
  define A1 where "A1 = addEpsilonTransition s (length (m_nodes A)) (fst (createNode A))"
  have A1: "wf_nfa A1" "length (m_nodes A1) = Suc (length (m_nodes A))"
    using A by (auto simp: A1_def intro!: wf_ops)
  obtain C r where C: "atom A1 (length (m_nodes A)) = (C, r)" by fastforce
  have c: "wf_nfa C" "Suc (length (m_nodes A)) \<le> length (m_nodes C)" "r < length (m_nodes C)"
    using grows_toD [OF atom [OF A1(1), of "length (m_nodes A)", unfolded C]] A1(2) by auto
  define D where "D = addEpsilonTransition r (length (m_nodes C)) (fst (createNode (addEpsilonTransition r (length (m_nodes A)) C)))"
  have D: "wf_nfa D" "length (m_nodes D) = Suc (length (m_nodes C))"
    using c by (auto simp: D_def intro!: wf_ops)
  have s: "s < length (m_nodes C)" using A(2) c(2) by simp
  have last: "wf_nfa (addEpsilonTransition s (length (m_nodes C)) D)" by (rule wf_addEpsilonTransition) (use D s in auto)
  have zero_or_one: "grows_to A (addEpsilonTransition s e B, e)"
    by (rule grows_toI) (use wf_addEpsilonTransition [OF g(1) _ g(3), of s] g A(2) in auto)
  show ?thesis
  proof (cases q)
    case One
    then show ?thesis using one by (simp add: quantified_subgraph_def)
  next
    case ZeroOrOne
    then show ?thesis using zero_or_one B by (simp add: quantified_subgraph_def)
  next
    case ZeroOrMore
    have "quantified_subgraph q atom A s = (addEpsilonTransition s (length (m_nodes C)) D, length (m_nodes C))"
      using C by (simp add: quantified_subgraph_def ZeroOrMore Let_def case_prod_beta A1_def D_def)
    then show ?thesis using last D c(2) by (simp add: grows_to_def)
  next
    case OneOrMore
    have "quantified_subgraph q atom A s = (D, length (m_nodes C))"
      using C by (simp add: quantified_subgraph_def OneOrMore Let_def case_prod_beta A1_def D_def)
    then show ?thesis using D c(2) by (simp add: grows_to_def)
  qed
qed

lemma grows_generate:
  "built_term t \<Longrightarrow> wf_nfa A \<Longrightarrow> s < length (m_nodes A) \<Longrightarrow> grows_to A (generateGraph t A s acts)"
proof (induction t arbitrary: A s acts)
  case (CharacterSetTerm q cs)
  have "grows_to A (quantified_subgraph q (generateSubgraphForAtom (CharacterSetTerm q cs)) A s)"
    by (rule grows_quantified [OF _ CharacterSetTerm.prems(2,3)])
      (simp add: generateSubgraphForAtom.simps grows_character_set del: isUniversalTransition.simps)
  then show ?case by (auto simp: generateGraph.simps grows_to_def wf_setActions split: prod.splits)
next
  case (GroupTerm q ts)
  have rest: "list_all built_term us \<Longrightarrow> set us \<subseteq> set ts \<Longrightarrow> wf_nfa B \<Longrightarrow> e < length (m_nodes B) \<Longrightarrow>
     grows_to B (fold (\<lambda>u (B, e). generateGraph u B e []) us (B, e))" for B e us
  proof (induction us arbitrary: B e)
    case (Cons u us)
    obtain C f where C: "generateGraph u B e [] = (C, f)" by fastforce
    have g: "grows_to B (C, f)" using GroupTerm.IH [of u B e "[]"] Cons.prems C by auto
    then have "grows_to C (fold (\<lambda>u (B, e). generateGraph u B e []) us (C, f))"
      using Cons.IH [of C f] Cons.prems grows_toD [OF g] by auto
    then show ?case using grows_to_trans [OF g] C by simp
  qed (simp add: grows_to_def)
  have "grows_to A (quantified_subgraph q (generateSubgraphForAtom (GroupTerm q ts)) A s)"
    by (rule grows_quantified [OF _ GroupTerm.prems(2,3)]) (use rest GroupTerm.prems(1) in \<open>simp add: generateSubgraphForAtom.simps\<close>)
  then show ?case by (auto simp: generateGraph.simps grows_to_def wf_setActions split: prod.splits)
qed simp_all

section \<open>Automata of built trees\<close>

definition grows_wf :: "nfa \<Rightarrow> nfa \<Rightarrow> bool" where
  "grows_wf A B \<longleftrightarrow> wf_nfa B \<and> length (m_nodes A) \<le> length (m_nodes B)"

lemma built_vertex_iff: "built_vertex (PrefixTreeVertex es acts) \<longleftrightarrow> list_all built_edge es"
  by (simp add: list_all_iff)

definition built_or_deleted :: "PrefixTreeEdge \<Rightarrow> bool" where
  "built_or_deleted e \<longleftrightarrow> isDeletedValue (edge_term e) \<or> built_edge e"

lemma built_or_deleted_built: "list_all built_edge es \<Longrightarrow> list_all built_or_deleted es"
  by (auto simp: list_all_iff built_or_deleted_def)

lemma wf_subtree:
  "subtree_vertex m v s A b = (v', A', b') \<Longrightarrow> wf_nfa A \<Longrightarrow> s < length (m_nodes A) \<Longrightarrow> built_vertex v \<Longrightarrow>
     grows_wf A A' \<and> built_vertex v'"
  "subtree_edges m es s A b = (es', A', b') \<Longrightarrow> wf_nfa A \<Longrightarrow> s < length (m_nodes A) \<Longrightarrow> list_all built_edge es \<Longrightarrow>
     grows_wf A A' \<and> list_all built_or_deleted es'"
  "subtree_edge m e s A b = (e', A', b') \<Longrightarrow> wf_nfa A \<Longrightarrow> s < length (m_nodes A) \<Longrightarrow> built_edge e \<Longrightarrow>
     grows_wf A A' \<and> built_or_deleted e'"
proof (induction m v s A b and m es s A b and m e s A b arbitrary: v' A' b' and es' A' b' and e' A' b'
    rule: subtree_vertex_subtree_edges_subtree_edge.induct)
  case (1 m es acts s A b)
  obtain es1 A1 b1 where r: "subtree_edges m es s A (b \<or> (es = [] \<and> m < graphSize A)) = (es1, A1, b1)"
    using prod_cases3 by blast
  then have "v' = PrefixTreeVertex (filter (\<lambda>e. \<not> isDeletedValue (edge_term e)) es1) acts" "A' = A1" using "1.prems"(1) by auto
  then show ?case using "1.IH" [OF refl r] "1.prems" unfolding built_vertex_iff by (auto simp: list_all_iff built_or_deleted_def)
next
  case (2 m s A b)
  then show ?case by (simp add: grows_wf_def)
next
  case (3 m e es s A b)
  show ?case
  proof (cases b)
    case True
    then show ?thesis using "3.prems" built_or_deleted_built [of "e # es"] by (auto simp: grows_wf_def)
  next
    case False
    obtain e1 A1 b1 where r1: "subtree_edge m e s A b = (e1, A1, b1)" using prod_cases3 by blast
    obtain es2 A2 b2 where r2: "subtree_edges m es s A1 b1 = (es2, A2, b2)" using prod_cases3 by blast
    have res: "es' = e1 # es2" "A' = A2" using "3.prems"(1) r1 r2 False by auto
    have I1: "grows_wf A A1" "built_or_deleted e1" using "3.IH"(1) [OF False r1] "3.prems" by auto
    then have "grows_wf A1 A2" "list_all built_or_deleted es2"
      using "3.IH"(2) [OF False r1 [symmetric] refl refl r2] "3.prems" by (auto simp: grows_wf_def)
    then show ?thesis using I1 res by (simp add: grows_wf_def)
  qed
next
  case (4 m t c s A b)
  show ?case
  proof (cases "hasFixedLength t")
    case False
    then show ?thesis using "4.prems" by (auto simp: grows_wf_def built_or_deleted_def)
  next
    case True
    obtain A1 i where g: "generateGraph t A s (finalActions c) = (A1, i)" by fastforce
    obtain c2 A2 b2 where r: "subtree_vertex m c i A1 b = (c2, A2, b2)" using prod_cases3 by blast
    have res: "e' = PrefixTreeEdge (if tree_edges c2 = [] then DeletedTerm One else t) c2" "A' = A2"
      using "4.prems"(1) g r True by auto
    have A1: "grows_to A (A1, i)" using grows_generate [of t A s "finalActions c"] "4.prems" g by simp
    then have "grows_wf A1 A2" "built_vertex c2"
      using "4.IH" [OF _ g [symmetric] refl r] True "4.prems" grows_toD [OF A1] by auto
    then show ?thesis using res grows_toD [OF A1] "4.prems" by (auto simp: grows_wf_def built_or_deleted_def isDeletedValue_def)
  qed
qed

lemma wf_round:
  "process_round m v s A = (v', A') \<Longrightarrow> wf_nfa A \<Longrightarrow> s < length (m_nodes A) \<Longrightarrow> built_vertex v \<Longrightarrow> grows_wf A A' \<and> built_vertex v'"
proof (induction m v s A arbitrary: v' A' rule: process_round.induct)
  case (1 m es acts s A)
  show ?case
  proof (cases "quantified_below (PrefixTreeVertex es acts)")
    case False
    then show ?thesis
      using "1.prems" wf_subtree(1) [of m "PrefixTreeVertex es acts" s A False]
      by (auto simp: process_round.simps generateNFAForSubtree_def grows_wf_def simp del: subtree_vertex.simps built_vertex.simps
          split: if_splits prod.splits)
  next
    case True
    then have "es \<noteq> []" by (auto simp: quantified_below.simps)
    then obtain fs e where es: "es = fs @ [e]" by (metis append_butlast_last_id)
    obtain t c where e: "e = PrefixTreeEdge t c" by (cases e)
    obtain A1 i where g: "generateGraph t A s (finalActions c) = (A1, i)" by fastforce
    obtain c2 A2 where r: "process_round m c i A1 = (c2, A2)" by fastforce
    have res: "v' = PrefixTreeVertex (if tree_edges c2 = [] then fs else fs @ [PrefixTreeEdge t c2]) acts" "A' = A2"
      using "1.prems" True g r es e by (auto simp: process_round.simps [of m "fs @ [PrefixTreeEdge t c]"] split: if_splits)
    have built: "built_term t" "built_vertex c" "list_all built_edge fs" using "1.prems" es e unfolding built_vertex_iff by auto
    have A1: "grows_to A (A1, i)" using grows_generate [of t A s "finalActions c"] "1.prems" built g by simp
    then have "grows_wf A1 A2" "built_vertex c2"
      using "1.IH" [OF True, of "(A1, i)" A1 i] g r es e built grows_toD [OF A1] by auto
    then show ?thesis using grows_toD [OF A1] built unfolding res grows_wf_def built_vertex_iff by auto
  qed
qed

lemma graph_ok_built: "built_vertex v \<Longrightarrow> A \<in> set (processNFAs m v) \<Longrightarrow> graph_ok A"
proof -
  have "built_vertex v \<Longrightarrow> A \<in> set (processNFAs m v) \<Longrightarrow> wf_nfa A"
  proof (induction m v rule: processNFAs.induct)
    case (1 m v)
    show ?case
    proof (cases "tree_edges v = []")
      case False
      obtain v' B where r: "process_round m v (m_root new_nfa) new_nfa = (v', B)" by fastforce
      have "wf_nfa B" "built_vertex v'" using wf_round [OF r] 1 by (auto simp: grows_wf_def)
      then show ?thesis using 1 False r by (auto simp: processNFAs.simps [of m v])
    qed (use 1 in \<open>simp add: processNFAs.simps\<close>)
  qed
  then show "built_vertex v \<Longrightarrow> A \<in> set (processNFAs m v) \<Longrightarrow> graph_ok A" using nodes_ok_processNFAs by (auto simp: graph_ok_iff)
qed

section \<open>Trees of filters\<close>

definition parser_built :: "PatternParser \<Rightarrow> bool" where
  "parser_built p \<longleftrightarrow> list_all built_term (m_sunkTerms p) \<and> list_all built_term (m_openGroups p) \<and>
     (isValid (m_floatingTerm p) \<longrightarrow> built_term (m_floatingTerm p))"

lemma not_valid [simp]: "\<not> isValid empty_term" "isValid (CharacterSetTerm q cs)" "isValid (GroupTerm q ts)"
  by (simp_all add: isValid_def empty_term_def)

lemma built_fail [simp]: "parser_built (fail reason p) = parser_built p"
  by (simp add: parser_built_def fail_def)

lemma built_set [simp]: "parser_built (p\<lparr>m_hasBeginningOfLineAssertion := b\<rparr>) = parser_built p"
  "parser_built (p\<lparr>m_hasProcessedEndOfLineAssertion := b\<rparr>) = parser_built p"
  by (simp_all add: parser_built_def)

lemma built_floating: "parser_built p \<Longrightarrow> isValid t \<longrightarrow> built_term t \<Longrightarrow> parser_built (p\<lparr>m_floatingTerm := t\<rparr>)"
  by (simp add: parser_built_def)

lemma built_extend: "built_term t \<Longrightarrow> built_term g \<Longrightarrow> built_term (extendGroupSubpattern t g)"
  by (cases g) simp_all

lemma built_quantify: "isValid (quantify q t) = isValid t" "built_term (quantify q t) = built_term t"
  by (cases t; simp add: isValid_def)+

lemma built_addCharacter: "addCharacter c cased t = Some u \<Longrightarrow> isValid u = isValid t \<and> built_term u = built_term t"
  by (cases t) (auto split: if_splits)

lemma built_add_characters: "add_characters cs cased t = Some u \<Longrightarrow> isValid u = isValid t \<and> built_term u = built_term t"
proof -
  have none: "fold (\<lambda>c r. Option.bind r (addCharacter c cased)) cs None = None" for cs by (induction cs) simp_all
  show "add_characters cs cased t = Some u \<Longrightarrow> isValid u = isValid t \<and> built_term u = built_term t"
    unfolding add_characters_def
  proof (induction cs arbitrary: t)
    case (Cons c cs)
    then show ?case using built_addCharacter [of c cased t] none by (cases "addCharacter c cased t") auto
  qed simp
qed

lemma built_last: "list_all P xs \<Longrightarrow> xs \<noteq> [] \<Longrightarrow> P (last xs) \<and> list_all P (butlast xs)"
  by (auto simp: list_all_iff dest: in_set_butlastD)

lemma built_sink: "parser_built p \<Longrightarrow> parser_built (sinkFloatingTermIfNecessary p)"
  using built_last [of built_term "m_openGroups p"]
  by (auto simp: sinkFloatingTermIfNecessary_def Let_def parser_built_def fail_def intro: built_extend)

lemma built_constants [simp]: "built_term universal_transition_term" "built_term end_of_line_assertion_term"
  "built_term (character_set_term b)" "built_term group_term" "built_term canonicalDotStar"
  by (simp_all add: universal_transition_term_def end_of_line_assertion_term_def character_set_term_def group_term_def
      canonicalDotStar_def)

lemma built_event: "parser_built p \<Longrightarrow> on_event e p = Some p' \<Longrightarrow> parser_built p'"
proof -
  assume p: "parser_built p" and e: "on_event e p = Some p'"
  note s = built_sink [OF p]
  note defs = atomPatternCharacter_def atomBuiltInCharacterClass_def quantifyAtom_def assertionBOL_def assertionEOL_def
    atomCharacterClassBegin_def atomCharacterClassAtom_def atomCharacterClassRange_def
  have q: "parser_built (p\<lparr>m_floatingTerm := quantify q (m_floatingTerm p)\<rparr>)" for q
    using p by (simp add: parser_built_def built_quantify)
  have add: "parser_built (p\<lparr>m_floatingTerm := t\<rparr>)" if "isValid t = isValid (m_floatingTerm p) \<and> built_term t = built_term (m_floatingTerm p)" for t
    using p that by (simp add: parser_built_def)
  have char: "built_term t" if "character_term c cased = Some t" for c cased t
    using built_addCharacter [OF that [unfolded character_term_def]] by simp
  show "parser_built p'"
  proof (cases e)
    case (AtomPatternCharacter c)
    then show ?thesis using e p s char by (auto simp: defs Let_def intro!: built_floating split: if_splits)
  next
    case (QuantifyAtom a b c)
    then show ?thesis using e p q by (auto simp: defs split: if_splits)
  next
    case (AtomCharacterClassAtom c)
    then show ?thesis using e p add built_addCharacter by (auto simp: defs split: if_splits)
  next
    case (AtomCharacterClassRange a b)
    then show ?thesis using e p add built_add_characters by (auto simp: defs split: if_splits)
  next
    case (AtomParenthesesSubpatternBegin c)
    then show ?thesis using e p s by (auto simp: atomParenthesesSubpatternBegin_def Let_def parser_built_def split: if_splits)
  next
    case AtomParenthesesEnd
    then show ?thesis using e p s built_last [of built_term "m_openGroups (sinkFloatingTermIfNecessary p)"]
      by (auto simp: atomParenthesesEnd_def Let_def parser_built_def split: if_splits)
  qed (use e p s in \<open>auto simp: defs Let_def intro!: built_floating split: if_splits\<close>)
qed

lemma built_events: "parser_built p \<Longrightarrow> run_events es p = Some p' \<Longrightarrow> parser_built p'"
proof -
  have none: "fold (\<lambda>e r. Option.bind r (on_event e)) es None = None" for es by (induction es) simp_all
  show "parser_built p \<Longrightarrow> run_events es p = Some p' \<Longrightarrow> parser_built p'"
    unfolding run_events_def
  proof (induction es arbitrary: p)
    case (Cons e es)
    then show ?case using built_event [OF Cons.prems(1)] none by (cases "on_event e p") auto
  qed simp
qed

lemma built_simplify: "list_all built_term ts \<Longrightarrow> list_all built_term (simplify_terms bol ts)"
  using set_simplify_terms [of bol ts] canonicalize_set [of _ False ts] built_constants(5)
  by (fastforce simp: list_all_iff)

lemma built_extend_tree: "list_all built_term ts \<Longrightarrow> built_vertex v \<Longrightarrow> built_vertex (extend_tree actionId ts v)"
proof (induction actionId ts v rule: extend_tree.induct)
  case (2 actionId t ts es acts)
  show ?case
  proof (cases "find_edge t es")
    case None
    then show ?thesis using 2 by (auto simp: list_all_iff empty_vertex_def)
  next
    case (Some i)
    note i = find_edge_Some [OF Some]
    have "built_edge (es ! i)" using "2.prems"(2) i nth_mem [of i es] unfolding built_vertex_iff by (simp add: list_all_iff)
    then have "built_vertex (child (es ! i))" by (cases "es ! i") simp
    with "2.IH"(2) [OF Some] "2.prems" i
    have "built_edge (PrefixTreeEdge (edge_term (es ! i)) (extend_tree actionId ts (child (es ! i))))" by simp
    moreover have "\<forall>e \<in> set es. built_edge e" using "2.prems"(2) by (simp add: list_all_iff)
    ultimately show ?thesis
      using Some by (auto simp: list_all_iff dest!: set_update_subset_insert [THEN subsetD])
  qed
qed simp

lemma built_addURLFilter:
  assumes "built_vertex tree" "addURLFilter yarr pattern cased patternId tree = Some (status, tree')"
  shows "built_vertex tree'"
proof -
  have new: "parser_built (new_PatternParser cased)" by (simp add: parser_built_def new_PatternParser_def)
  have "built_vertex (snd (finalize patternId p tree))" if "parser_built p" for p
  proof -
    have "list_all built_term (simplify_terms b (m_sunkTerms (sinkFloatingTermIfNecessary p)))" for b
      using built_simplify built_sink [OF that] by (simp add: parser_built_def)
    then show ?thesis using assms(1)
      by (simp add: finalize_def simplifySunkTerms_def Let_def addPattern_def built_extend_tree)
  qed
  then show ?thesis
    using assms built_events [OF new] by (auto simp: addURLFilter_def Let_def split: if_splits prod.splits option.splits)
      (metis snd_conv)+
qed

text \<open>A list of filters with their case flags and actions, added one behind the other.\<close>

fun add_filters :: "(nat list \<Rightarrow> yarr_event list \<times> bool) \<Rightarrow> (nat list \<times> bool \<times> u64) list \<Rightarrow> PrefixTreeVertex \<Rightarrow> PrefixTreeVertex option" where
  "add_filters yarr [] tree = Some tree"
| "add_filters yarr ((pattern, cased, action) # filters) tree =
     (case addURLFilter yarr pattern cased action tree of
        None \<Rightarrow> None
      | Some (status, tree) \<Rightarrow> add_filters yarr filters tree)"

lemma built_add_filters: "built_vertex tree \<Longrightarrow> add_filters yarr filters tree = Some tree' \<Longrightarrow> built_vertex tree'"
proof (induction filters arbitrary: tree)
  case (Cons f filters)
  then show ?case using built_addURLFilter by (cases f) (fastforce split: option.splits prod.splits)
qed simp

lemma graph_ok_filters:
  "add_filters yarr filters empty_vertex = Some tree \<Longrightarrow> A \<in> set (processNFAs m tree) \<Longrightarrow> graph_ok A"
  by (rule graph_ok_built [OF built_add_filters]) (simp_all add: empty_vertex_def)

end
