(* ===== verification/CE_Subset_Props.thy ===== *)
theory CE_Subset_Props
  imports CE_Built_Trees
begin

text \<open>
  The properties of the subset construction: epsilon closures, termination, absence of crashes,
  and that the deterministic automaton triggers the same actions as the nondeterministic one.
\<close>

section \<open>Inputs of the witnesses\<close>

text \<open>The automaton of the filter \<open>^a\<close> with action 5, and one with a node that has all transitions.\<close>

definition ex_nfa :: nfa where
  "ex_nfa = \<lparr>m_nodes = [\<lparr>transitions = [(97, [1])], transitionsOnAnyCharacter = [], finalRuleIds = []\<rparr>,
     \<lparr>transitions = [], transitionsOnAnyCharacter = [], finalRuleIds = [5]\<rparr>], m_root = 0\<rparr>"

definition full_nfa :: nfa where
  "full_nfa = \<lparr>m_nodes = [\<lparr>transitions = map (\<lambda>k. (k, [1])) [0..<128], transitionsOnAnyCharacter = [], finalRuleIds = []\<rparr>,
     \<lparr>transitions = [], transitionsOnAnyCharacter = [], finalRuleIds = [5]\<rparr>], m_root = 0\<rparr>"

lemma ex_nfa_ok: "graph_ok ex_nfa"
  by (auto simp: graph_ok_def wf_nfa_def edges_def node_edges_def node_targets_def node_ok_def ex_nfa_def
      epsilonTransitionCharacter_def less_Suc_eq split: option.splits if_splits)

lemma ex_nfa_tame: "tame ex_nfa"
  by (simp add: tame_def ex_nfa_def node_targets_def nfa_out_def rules_at_def lessThan_Suc less_Suc_eq)

lemma map_of_full: "map_of (map (\<lambda>k. (k, [Suc 0])) [0..<128]) k = (if k < (128::nat) then Some [Suc 0] else None)"
  by (simp add: map_of_map_restrict restrict_map_def del: upt_Suc)

lemma full_nfa_ok: "graph_ok full_nfa"
proof -
  have "node_edges (m_nodes full_nfa ! p) l \<subseteq> {1}" if "p < 2" for p l
    using that by (auto simp: full_nfa_def node_edges_def node_targets_def map_of_full less_Suc_eq numeral_2_eq_2
        simp del: upt_Suc split: option.splits if_splits)
  moreover have "length (m_nodes full_nfa) = 2" "m_root full_nfa = 0" by (simp_all add: full_nfa_def)
  ultimately have "wf_nfa full_nfa" by (fastforce simp: wf_nfa_def edges_def)
  moreover have "\<forall>node \<in> set (m_nodes full_nfa). node_ok node"
    by (auto simp: full_nfa_def node_ok_def comp_def simp del: upt_Suc)
  ultimately show ?thesis by (simp add: graph_ok_def)
qed

section \<open>Closures\<close>

text \<open>
  The work-list loop of \<open>epsilonClosureExcludingSelf\<close> computes exactly what its name says: with
  the node itself, its result is the set of nodes reachable by epsilon transitions.
\<close>

theorem epsilon_closure_is_reachability:
  assumes "graph_ok A" "n < length (m_nodes A)"
  shows "\<exists>closure. epsilonClosureExcludingSelf (m_nodes A) n = Some closure \<and>
     insert n (set closure) = {m. path (edges A) n [] m}"
  using epsilonClosureExcludingSelf_correct [OF assms] by (auto simp: eclose_def)

theorem epsilon_closure_is_reachability_witness:
  "\<exists>closure. epsilonClosureExcludingSelf (m_nodes ex_nfa) 0 = Some closure \<and>
     insert 0 (set closure) = {m. path (edges ex_nfa) 0 [] m}"
  by (rule epsilon_closure_is_reachability [OF ex_nfa_ok]) (simp add: ex_nfa_def)

section \<open>The conversion\<close>

text \<open>
  C36. The conversion ends on every automaton the compiler builds of the tree of any list of filters,
  supported or not and whatever the Yarr parser reports of them, empty groups included: a number of
  rounds that is two to the number of the nodes is enough.
\<close>

theorem convert_terminates:
  assumes "add_filters yarr filters empty_vertex = Some tree" "A \<in> set (processNFAs maxNFASize tree)" "2 ^ length (m_nodes A) \<le> fuel"
  shows "NFAToDFA_convert fuel A \<noteq> OutOfFuel"
  by (rule convert_correct(1) [OF graph_ok_filters [OF assms(1,2)] assms(3)])

text \<open>The tree of the filter \<open>^a()b\<close>, with an empty group.\<close>

definition group_filter :: "nat list \<Rightarrow> yarr_event list \<times> bool" where
  "group_filter pattern = ([AssertionBOL, AtomPatternCharacter 97, AtomParenthesesSubpatternBegin True, AtomParenthesesEnd,
     AtomPatternCharacter 98], False)"

theorem convert_terminates_witness:
  "\<exists>tree. add_filters group_filter [([94, 97, 40, 41, 98], True, 5)] empty_vertex = Some tree \<and>
     (\<exists>A \<in> set (processNFAs 3 tree). NFAToDFA_convert 8 A \<noteq> OutOfFuel)"
proof -
  have "case add_filters group_filter [([94, 97, 40, 41, 98], True, 5)] empty_vertex of
      None \<Rightarrow> False | Some tree \<Rightarrow> map (\<lambda>A. length (m_nodes A)) (processNFAs 3 tree) = [3]" by code_simp
  then obtain tree A where t: "add_filters group_filter [([94, 97, 40, 41, 98], True, 5)] empty_vertex = Some tree"
    "processNFAs 3 tree = [A]" "length (m_nodes A) = 3" by (auto split: option.splits)
  then show ?thesis using convert_terminates [OF t(1), of A 3 8] by simp
qed

text \<open>
  C5. The conversion keeps the meaning: on every input the deterministic automaton triggers exactly
  the actions whose words the nondeterministic one accepts as a prefix of the input (actions of the
  empty word aside, which neither triggers).
\<close>

theorem convert_keeps_actions:
  assumes "graph_ok A" "2 ^ length (m_nodes A) \<le> fuel" "NFAToDFA_convert fuel A = Returned dfa"
  shows "run_out (dfa_step dfa) (dfa_out dfa) 0 w = {a. \<exists>n. (take n w, a) \<in> nonempty_accepts A}"
  by (rule convert_run_out [OF assms])

theorem convert_keeps_actions_witness:
  "\<exists>dfa. NFAToDFA_convert 4 ex_nfa = Returned dfa \<and>
     run_out (dfa_step dfa) (dfa_out dfa) 0 [97, 98] = {a. \<exists>n. (take n [97, 98], a) \<in> nonempty_accepts ex_nfa}"
proof -
  have fuel: "2 ^ length (m_nodes ex_nfa) \<le> (4::nat)" by (simp add: ex_nfa_def)
  obtain dfa where d: "NFAToDFA_convert 4 ex_nfa = Returned dfa"
    using convert_total [OF ex_nfa_ok ex_nfa_tame fuel] by blast
  with convert_keeps_actions [OF ex_nfa_ok fuel d] show ?thesis by blast
qed

text \<open>
  C37. Without transitions on NUL (end-of-line assertions) and with at most 65535 actions no assertion
  of the conversion fails: it returns an automaton.
\<close>

theorem convert_returns:
  assumes "graph_ok A" "tame A" "2 ^ length (m_nodes A) \<le> fuel"
  shows "\<exists>dfa. NFAToDFA_convert fuel A = Returned dfa"
  by (rule convert_total [OF assms])

theorem convert_returns_witness: "\<exists>dfa. NFAToDFA_convert 4 ex_nfa = Returned dfa"
  by (rule convert_returns [OF ex_nfa_ok ex_nfa_tame]) (simp add: ex_nfa_def)

text \<open>
  C38. With an end-of-line assertion the conversion can crash: if the nodes reachable from the root
  without input have explicit transitions on all 128 keys, as for \<open>^[^a]\<close>, \<open>^a\<close> and \<open>^$\<close> in one
  automaton, \<open>RELEASE_ASSERT(transitionsLength <= 127)\<close> fails.
\<close>

theorem convert_crashes_on_full_set:
  assumes "graph_ok A" "\<forall>k < 128. key_targets A (eclose A {m_root A}) k \<noteq> {}"
  shows "NFAToDFA_convert (Suc fuel) A = Crashed"
  by (rule convert_full [OF assms])

theorem convert_crashes_on_full_set_witness: "NFAToDFA_convert 4 full_nfa = Crashed"
proof -
  have "key_targets full_nfa (eclose full_nfa {m_root full_nfa}) k \<noteq> {}" if "k < 128" for k
  proof -
    have "1 \<in> set (node_targets (m_nodes full_nfa ! 0) k)"
      using that by (simp add: full_nfa_def node_targets_def map_of_full del: upt_Suc)
    moreover have "0 \<in> eclose full_nfa {m_root full_nfa}"
      using eclose_ext [of "{m_root full_nfa}" full_nfa] by (simp add: full_nfa_def)
    ultimately have "1 \<in> key_targets full_nfa (eclose full_nfa {m_root full_nfa}) k"
      unfolding key_targets_def by blast
    then show ?thesis by blast
  qed
  with convert_crashes_on_full_set [OF full_nfa_ok, of 3] show ?thesis by simp
qed

end
