(* ===== verification/CE_Bytecode.thy ===== *)
theory CE_Bytecode
  imports CE_Dfa CE_Bits
begin

text \<open>
  The bytecode of an automaton and its compiler (\<open>contentextensions/DFABytecode.h\<close>,
  \<open>DFABytecodeCompiler.h\<close>, \<open>DFABytecodeCompiler.cpp\<close>).

  Integers are written through casted pointers; the model is the little-endian layout of the
  supported processors. Positions in the vector are \<open>nat\<close>, the values written are 32-bit words.
  \<open>None\<close> is the crash of a \<open>RELEASE_ASSERT\<close>. The table \<open>destinations\<close> of a node marks "no
  destination" by \<open>0xffffffff\<close>, which is no node; here it is \<open>None\<close>.
\<close>

section \<open>Instructions and byte order\<close>

datatype DFABytecodeInstruction =
  CheckValueCaseInsensitive | CheckValueCaseSensitive | CheckValueRangeCaseInsensitive | CheckValueRangeCaseSensitive
| AppendAction | TestFlagsAndAppendAction | Terminate | Jump

fun instruction_byte :: "DFABytecodeInstruction \<Rightarrow> u8" where
  "instruction_byte CheckValueCaseInsensitive = 0"
| "instruction_byte CheckValueCaseSensitive = 1"
| "instruction_byte CheckValueRangeCaseInsensitive = 2"
| "instruction_byte CheckValueRangeCaseSensitive = 3"
| "instruction_byte AppendAction = 4"
| "instruction_byte TestFlagsAndAppendAction = 5"
| "instruction_byte Terminate = 6"
| "instruction_byte Jump = 7"

text \<open>The cast of a byte to the enumeration; \<open>None\<close> is a value that is no instruction.\<close>

definition instruction_of_byte :: "u8 \<Rightarrow> DFABytecodeInstruction option" where
  "instruction_of_byte b =
     find (\<lambda>i. instruction_byte i = b)
       [CheckValueCaseInsensitive, CheckValueCaseSensitive, CheckValueRangeCaseInsensitive, CheckValueRangeCaseSensitive,
        AppendAction, TestFlagsAndAppendAction, Terminate, Jump]"

fun instructionSizeWithArguments :: "DFABytecodeInstruction \<Rightarrow> nat" where
  "instructionSizeWithArguments CheckValueCaseSensitive = 1 + 1 + 4"
| "instructionSizeWithArguments CheckValueCaseInsensitive = 1 + 1 + 4"
| "instructionSizeWithArguments CheckValueRangeCaseSensitive = 1 + 1 + 1 + 4"
| "instructionSizeWithArguments CheckValueRangeCaseInsensitive = 1 + 1 + 1 + 4"
| "instructionSizeWithArguments AppendAction = 1 + 4"
| "instructionSizeWithArguments TestFlagsAndAppendAction = 1 + 2 + 4"
| "instructionSizeWithArguments Terminate = 1"
| "instructionSizeWithArguments Jump = 1 + 4"

definition bytes16 :: "u16 \<Rightarrow> u8 list" where
  "bytes16 w = [ucast w, ucast (drop_bit 8 w)]"

definition bytes32 :: "u32 \<Rightarrow> u8 list" where
  "bytes32 w = [ucast w, ucast (drop_bit 8 w), ucast (drop_bit 16 w), ucast (drop_bit 24 w)]"

definition get16 :: "u8 list \<Rightarrow> nat \<Rightarrow> u16" where
  "get16 bytecode index = ucast (bytecode ! index) OR push_bit 8 (ucast (bytecode ! (index + 1)))"

definition get32 :: "u8 list \<Rightarrow> nat \<Rightarrow> u32" where
  "get32 bytecode index =
     ucast (bytecode ! index) OR push_bit 8 (ucast (bytecode ! (index + 1))) OR
     push_bit 16 (ucast (bytecode ! (index + 2))) OR push_bit 24 (ucast (bytecode ! (index + 3)))"

definition set32Bits :: "nat \<Rightarrow> u32 \<Rightarrow> u8 list \<Rightarrow> u8 list" where
  "set32Bits index value bytecode =
     bytecode[index := ucast value, index + 1 := ucast (drop_bit 8 value),
              index + 2 := ucast (drop_bit 16 value), index + 3 := ucast (drop_bit 24 value)]"

section \<open>Emitting instructions\<close>

record DFABytecodeCompiler =
  m_bytecode :: "u8 list"
  m_nodeStartOffsets :: "u32 list"
  m_linkRecords :: "(nat \<times> nat) list"

definition append_bytes :: "u8 list \<Rightarrow> DFABytecodeCompiler \<Rightarrow> DFABytecodeCompiler" where
  "append_bytes bs c = c\<lparr>m_bytecode := m_bytecode c @ bs\<rparr>"

definition append_instruction :: "DFABytecodeInstruction \<Rightarrow> DFABytecodeCompiler \<Rightarrow> DFABytecodeCompiler" where
  "append_instruction i = append_bytes [instruction_byte i]"

text \<open>The common end of the jumps: a link record, and room for the value set when linking.\<close>

definition append_link :: "nat \<Rightarrow> DFABytecodeCompiler \<Rightarrow> DFABytecodeCompiler" where
  "append_link destinationNodeIndex c =
     append_bytes (bytes32 0) (c\<lparr>m_linkRecords := m_linkRecords c @ [(length (m_bytecode c), destinationNodeIndex)]\<rparr>)"

definition emitAppendAction :: "u32 \<Rightarrow> DFABytecodeCompiler \<Rightarrow> DFABytecodeCompiler" where
  "emitAppendAction action c = append_bytes (bytes32 action) (append_instruction AppendAction c)"

definition emitTestFlagsAndAppendAction :: "u16 \<Rightarrow> u32 \<Rightarrow> DFABytecodeCompiler \<Rightarrow> DFABytecodeCompiler" where
  "emitTestFlagsAndAppendAction flags action c =
     append_bytes (bytes32 action) (append_bytes (bytes16 flags) (append_instruction TestFlagsAndAppendAction c))"

definition emitJump :: "nat \<Rightarrow> DFABytecodeCompiler \<Rightarrow> DFABytecodeCompiler" where
  "emitJump destinationNodeIndex c = append_link destinationNodeIndex (append_instruction Jump c)"

definition emitCheckValue :: "u8 \<Rightarrow> nat \<Rightarrow> bool \<Rightarrow> DFABytecodeCompiler \<Rightarrow> DFABytecodeCompiler" where
  "emitCheckValue value destinationNodeIndex caseSensitive c =
     append_link destinationNodeIndex (append_bytes [value]
       (append_instruction (if caseSensitive then CheckValueCaseSensitive else CheckValueCaseInsensitive) c))"

definition emitCheckValueRange :: "u8 \<Rightarrow> u8 \<Rightarrow> nat \<Rightarrow> bool \<Rightarrow> DFABytecodeCompiler \<Rightarrow> DFABytecodeCompiler" where
  "emitCheckValueRange lowValue highValue destinationNodeIndex caseSensitive c =
     append_link destinationNodeIndex (append_bytes [lowValue, highValue]
       (append_instruction (if caseSensitive then CheckValueRangeCaseSensitive else CheckValueRangeCaseInsensitive) c))"

definition emitTerminate :: "DFABytecodeCompiler \<Rightarrow> DFABytecodeCompiler" where
  "emitTerminate c = append_instruction Terminate c"

section \<open>Ranges of characters with the same destination\<close>

record Range =
  range_min :: nat
  range_max :: nat
  range_destination :: nat
  range_caseSensitive :: bool

definition compileCheckForRange :: "Range \<Rightarrow> DFABytecodeCompiler \<Rightarrow> DFABytecodeCompiler" where
  "compileCheckForRange r c =
     (if range_min r = range_max r
      then emitCheckValue (of_nat (range_min r)) (range_destination r) (range_caseSensitive r) c
      else emitCheckValueRange (of_nat (range_min r)) (of_nat (range_max r)) (range_destination r) (range_caseSensitive r) c)"

text \<open>
  The end of the range from \<open>rangeMin\<close> to \<open>i - 1\<close>. A range of upper-case letters whose lower-case
  letters have the same destination becomes case insensitive and takes the lower-case letters out
  of the table.
\<close>

definition lower_case_covered :: "nat option list \<Rightarrow> nat \<Rightarrow> nat \<Rightarrow> bool" where
  "lower_case_covered destinations rangeMin rangeMax \<longleftrightarrow>
     list_all (\<lambda>rangeIndex. destinations ! rangeMin = destinations ! toASCIILower rangeIndex) [rangeMin..<Suc rangeMax]"

definition close_range :: "nat \<Rightarrow> nat \<Rightarrow> nat option list \<Rightarrow> Range list \<Rightarrow> nat option list \<times> Range list" where
  "close_range i rangeMin destinations ranges =
     (let rangeMax = i - 1;
          caseSensitive = \<not> (65 \<le> rangeMin \<and> rangeMax \<le> 90 \<and> lower_case_covered destinations rangeMin rangeMax)
      in if \<not> caseSensitive then
           let destinations = fold (\<lambda>rangeIndex ds. ds[toASCIILower rangeIndex := None]) [rangeMin..<Suc rangeMax] destinations
           in (destinations,
               ranges @ [\<lparr>range_min = toASCIILower rangeMin, range_max = toASCIILower rangeMax,
                          range_destination = the (destinations ! rangeMin), range_caseSensitive = caseSensitive\<rparr>])
         else (destinations,
               ranges @ [\<lparr>range_min = rangeMin, range_max = rangeMax,
                          range_destination = the (destinations ! rangeMin), range_caseSensitive = caseSensitive\<rparr>]))"

text \<open>The state of the loop over the characters: the table, the start of the open range, the ranges.\<close>

type_synonym scan_state = "nat option list \<times> nat option \<times> Range list"

definition scan_character :: "nat \<Rightarrow> scan_state \<Rightarrow> scan_state" where
  "scan_character i = (\<lambda>(destinations, rangeMin, ranges).
     case rangeMin of
       Some m \<Rightarrow>
         if destinations ! i \<noteq> destinations ! m then
           let (destinations, ranges) = close_range i m destinations ranges
           in (destinations, if destinations ! i = None then None else Some i, ranges)
         else (destinations, rangeMin, ranges)
     | None \<Rightarrow> (destinations, if destinations ! i \<noteq> None then Some i else None, ranges))"

definition node_ranges :: "nat option list \<Rightarrow> Range list" where
  "node_ranges destinations =
     (let (destinations, rangeMin, ranges) = fold scan_character [0..<128] (destinations, None, [])
      in case rangeMin of
           None \<Rightarrow> ranges
         | Some m \<Rightarrow> ranges @ [\<lparr>range_min = m, range_max = 127, range_destination = the (destinations ! m), range_caseSensitive = True\<rparr>])"

definition destination_table :: "(nat \<times> nat) list \<Rightarrow> nat option list option" where
  "destination_table ts =
     (if list_all (\<lambda>(key, _). key < 128) ts
      then Some (fold (\<lambda>(key, destination) ds. ds[key := Some destination]) ts (replicate 128 None))
      else None)"

section \<open>Compiling the nodes and linking\<close>

definition compileNodeTransitions :: "DFA \<Rightarrow> DFANode \<Rightarrow> DFABytecodeCompiler \<Rightarrow> DFABytecodeCompiler option" where
  "compileNodeTransitions dfa node c =
     (case destination_table (node_transitions dfa node) of
        None \<Rightarrow> None
      | Some destinations \<Rightarrow>
          let c = fold compileCheckForRange (node_ranges destinations) c
          in if hasFallbackTransition node
             then map_option (\<lambda>destination. emitJump destination c) (fallbackTransitionDestination dfa node)
             else Some (emitTerminate c))"

definition compile_action :: "u64 \<Rightarrow> DFABytecodeCompiler \<Rightarrow> DFABytecodeCompiler" where
  "compile_action action c =
     (if action AND 0xFFFF00000000 \<noteq> 0
      then emitTestFlagsAndAppendAction (ucast (drop_bit 32 action)) (ucast action) c
      else emitAppendAction (ucast action) c)"

definition set_offset :: "nat \<Rightarrow> u32 \<Rightarrow> DFABytecodeCompiler \<Rightarrow> DFABytecodeCompiler" where
  "set_offset index offset c = c\<lparr>m_nodeStartOffsets := (m_nodeStartOffsets c)[index := offset]\<rparr>"

definition compileNode :: "DFA \<Rightarrow> nat \<Rightarrow> bool \<Rightarrow> DFABytecodeCompiler \<Rightarrow> DFABytecodeCompiler option" where
  "compileNode dfa index is_root c =
     (let node = nodes dfa ! index
      in if isKilled node then Some (set_offset index (- 1) c)
         else
           let c = (if \<not> is_root then set_offset index (of_nat (length (m_bytecode c))) c else c);
               c = fold compile_action (node_actions dfa node) c;
               c = (if is_root then set_offset index (of_nat (length (m_bytecode c))) c else c)
           in compileNodeTransitions dfa node c)"

fun compile_nodes :: "DFA \<Rightarrow> nat list \<Rightarrow> DFABytecodeCompiler \<Rightarrow> DFABytecodeCompiler option" where
  "compile_nodes dfa [] c = Some c"
| "compile_nodes dfa (i # is) c = Option.bind (compileNode dfa i False c) (compile_nodes dfa is)"

fun link_records :: "u32 list \<Rightarrow> (nat \<times> nat) list \<Rightarrow> u8 list \<Rightarrow> u8 list option" where
  "link_records offsets [] bytecode = Some bytecode"
| "link_records offsets ((offset, node) # records) bytecode =
     (let target = offsets ! node
      in if target = - 1 then None else link_records offsets records (set32Bits offset target bytecode))"

text \<open>\<open>DFABytecodeCompiler::compile\<close> appends to the vector the compiler was made with.\<close>

definition DFABytecodeCompiler_compile :: "DFA \<Rightarrow> u8 list \<Rightarrow> u8 list option" where
  "DFABytecodeCompiler_compile dfa bytecode =
     (let startLocation = length bytecode;
          c = append_bytes (bytes32 0)
                \<lparr>m_bytecode = bytecode, m_nodeStartOffsets = [], m_linkRecords = []\<rparr>;
          c = c\<lparr>m_nodeStartOffsets := replicate (length (nodes dfa)) 0\<rparr>
      in Option.bind (compileNode dfa (root dfa) True c)
        (\<lambda>c. Option.bind (compile_nodes dfa (filter (\<lambda>i. i \<noteq> root dfa) [0..<length (nodes dfa)]) c)
        (\<lambda>c. map_option
               (\<lambda>bytecode. set32Bits startLocation (of_nat (length bytecode - startLocation)) bytecode)
               (link_records (m_nodeStartOffsets c) (m_linkRecords c) (m_bytecode c)))))"

end
