(* ===== verification/CE_Bytecode_Ranges.thy ===== *)
theory CE_Bytecode_Ranges
  imports CE_Bytecode
begin

text \<open>
  The ranges of a node say the same as its table of destinations: the first range that matches a
  character has the destination of the character, and no range matches a character without one.
\<close>

section \<open>What a range matches\<close>

definition range_matches :: "Range \<Rightarrow> nat \<Rightarrow> bool" where
  "range_matches r c \<longleftrightarrow>
     (let c = (if range_caseSensitive r then c else toASCIILower c) in range_min r \<le> c \<and> c \<le> range_max r)"

definition first_match :: "Range list \<Rightarrow> nat \<Rightarrow> Range option" where
  "first_match rs c = find (\<lambda>r. range_matches r c) rs"

lemma first_match_snoc:
  "first_match (rs @ [r]) c =
     (case first_match rs c of Some r' \<Rightarrow> Some r' | None \<Rightarrow> if range_matches r c then Some r else None)"
  by (induction rs) (auto simp: first_match_def)

lemma first_match_Nil [simp]: "first_match [] c = None"
  by (simp add: first_match_def)

lemma fold_clear:
  "length (fold (\<lambda>i ds. ds[f i := None]) xs ds) = length ds"
  "c < length ds \<Longrightarrow> fold (\<lambda>i ds. ds[f i := None]) xs ds ! c = (if c \<in> f ` set xs then None else ds ! c)"
proof -
  show l: "length (fold (\<lambda>i ds. ds[f i := None]) xs ds) = length ds" for ds by (induction xs arbitrary: ds) auto
  show "c < length ds \<Longrightarrow> fold (\<lambda>i ds. ds[f i := None]) xs ds ! c = (if c \<in> f ` set xs then None else ds ! c)"
    by (induction xs arbitrary: ds) (auto simp: nth_list_update)
qed

text \<open>Case-insensitive matching of a range of letters, given by its lower-case ends.\<close>

lemma insensitive_matches:
  assumes "65 \<le> m" "m \<le> x" "x \<le> 90"
  shows "toASCIILower m \<le> toASCIILower c \<and> toASCIILower c \<le> toASCIILower x \<longleftrightarrow>
     (m \<le> c \<and> c \<le> x) \<or> c \<in> toASCIILower ` {m..x}"
proof -
  have img: "toASCIILower ` {m..x} = {m + 32..x + 32}"
  proof -
    have "toASCIILower ` {m..x} = (\<lambda>c. c + 32) ` {m..x}"
      using assms by (intro image_cong) (auto simp: toASCIILower_eq isASCIIUpper_def)
    then show ?thesis by simp
  qed
  have lower: "toASCIILower m = m + 32" "toASCIILower x = x + 32" using assms by (auto simp: toASCIILower_eq isASCIIUpper_def)
  show ?thesis unfolding img lower
    using assms by (auto simp: toASCIILower_eq isASCIIUpper_def split: if_splits)
qed

section \<open>The invariant of the loop\<close>

text \<open>
  \<open>d0\<close> is the table at the start. Below \<open>s\<close> all characters are settled; a character that an
  emitted range matches has been taken out of the rest of the table.
\<close>

definition settled :: "nat option list \<Rightarrow> nat \<Rightarrow> nat option list \<Rightarrow> Range list \<Rightarrow> bool" where
  "settled d0 s d rs \<longleftrightarrow> length d = 128 \<and>
     (\<forall>c < 128. case first_match rs c of
        Some r \<Rightarrow> d0 ! c = Some (range_destination r) \<and> (s \<le> c \<longrightarrow> d ! c = None)
      | None \<Rightarrow> d ! c = d0 ! c \<and> (c < s \<longrightarrow> d ! c = None))"

definition scan_inv :: "nat option list \<Rightarrow> nat \<Rightarrow> scan_state \<Rightarrow> bool" where
  "scan_inv d0 i st \<longleftrightarrow>
     (case st of (d, rangeMin, rs) \<Rightarrow>
        (case rangeMin of
           None \<Rightarrow> settled d0 i d rs
         | Some m \<Rightarrow> m < i \<and> settled d0 m d rs \<and> d ! m \<noteq> None \<and> (\<forall>j. m < j \<and> j < i \<longrightarrow> d ! j = d ! m)))"

lemma scan_inv_Some:
  "scan_inv d0 i (d, Some m, rs) \<longleftrightarrow>
     m < i \<and> settled d0 m d rs \<and> d ! m \<noteq> None \<and> (\<forall>j. m < j \<and> j < i \<longrightarrow> d ! j = d ! m)"
  unfolding scan_inv_def prod.case option.case ..

lemma settledD:
  assumes "settled d0 s d rs" "c < 128"
  shows "first_match rs c = Some r \<Longrightarrow> d0 ! c = Some (range_destination r)"
    "first_match rs c = Some r \<Longrightarrow> s \<le> c \<Longrightarrow> d ! c = None"
    "first_match rs c = None \<Longrightarrow> d ! c = d0 ! c"
    "first_match rs c = None \<Longrightarrow> c < s \<Longrightarrow> d ! c = None"
  using assms by (auto simp: settled_def split: option.splits)

text \<open>Appending a range that matches exactly unsettled characters with a common destination.\<close>

lemma settled_append:
  assumes inv: "settled d0 m d rs" and len: "length d' = 128"
    and matches: "\<And>c. c < 128 \<Longrightarrow> range_matches r c \<longleftrightarrow> (m \<le> c \<and> c < i) \<or> c \<in> L"
    and dest: "\<And>c. c < 128 \<Longrightarrow> range_matches r c \<Longrightarrow> d ! c = Some (range_destination r) \<and> m \<le> c"
    and d': "\<And>c. c < 128 \<Longrightarrow> d' ! c = (if c \<in> L then None else d ! c)" and "m \<le> i"
  shows "settled d0 i d' (rs @ [r])"
proof -
  have "case first_match (rs @ [r]) c of
        Some r \<Rightarrow> d0 ! c = Some (range_destination r) \<and> (i \<le> c \<longrightarrow> d' ! c = None)
      | None \<Rightarrow> d' ! c = d0 ! c \<and> (c < i \<longrightarrow> d' ! c = None)" if c: "c < 128" for c
  proof (cases "first_match rs c")
    case None
    note N = settledD(3,4) [OF inv c None]
    show ?thesis
    proof (cases "range_matches r c")
      case True
      with dest [OF c True] N(1) d' [OF c] matches [OF c] None show ?thesis
        by (auto simp: first_match_snoc)
    next
      case False
      with matches [OF c] N d' [OF c] None show ?thesis by (auto simp: first_match_snoc)
    qed
  next
    case (Some r')
    with settledD(1,2) [OF inv c Some] d' [OF c] \<open>m \<le> i\<close> show ?thesis by (auto simp: first_match_snoc)
  qed
  with len show ?thesis by (simp add: settled_def)
qed

lemma close_range_settled:
  assumes inv: "settled d0 m d rs" and m: "m < i" "i \<le> 128" "d ! m \<noteq> None" "\<forall>j. m < j \<and> j < i \<longrightarrow> d ! j = d ! m"
    and r: "close_range i m d rs = (d', rs')"
  shows "settled d0 i d' rs'"
proof -
  have same: "d ! j = d ! m" if "m \<le> j" "j < i" for j using m(4) that by (cases "j = m") auto
  have len: "length d = 128" using inv by (simp add: settled_def)
  have eq: "Suc (i - 1) = i" "Suc (i - Suc 0) = i" using m(1) by simp_all
  let ?dest = "the (d ! m)"
  show ?thesis
  proof (cases "65 \<le> m \<and> i - 1 \<le> 90 \<and> lower_case_covered d m (i - 1)")
    case True
    let ?L = "toASCIILower ` {m..<i}"
    let ?r = "\<lparr>range_min = toASCIILower m, range_max = toASCIILower (i - 1), range_destination = ?dest, range_caseSensitive = False\<rparr>"
    let ?d' = "fold (\<lambda>rangeIndex ds. ds[toASCIILower rangeIndex := None]) [m..<i] d"
    have up: "65 \<le> m" "i \<le> 91" using True m(1) by auto
    have low: "\<forall>j \<in> {m..<i}. toASCIILower j = j + 32" using up by (auto simp: toASCIILower_eq isASCIIUpper_def)
    have mL: "m \<notin> ?L" using low by auto
    have d'm: "?d' ! m = d ! m"
      using fold_clear(2) [of m d toASCIILower "[m..<i]"] m(1,2) len mL by simp
    have res: "d' = ?d'" "rs' = rs @ [?r]"
      using r True d'm by (auto simp: close_range_def Let_def eq simp del: upt_Suc)
    have lc: "d ! toASCIILower j = d ! m" if "j \<in> {m..<i}" for j
      using True that unfolding lower_case_covered_def eq by (auto simp: list_all_iff simp del: upt_Suc)
    have int: "{m..i - 1} = {m..<i}" using m(1) by auto
    have mt: "range_matches ?r c \<longleftrightarrow> (m \<le> c \<and> c < i) \<or> c \<in> ?L" for c
      using insensitive_matches [of m "i - 1" c] up m(1) unfolding int by (auto simp: range_matches_def)
    show ?thesis unfolding res
    proof (rule settled_append [OF inv _ mt])
      show "length ?d' = 128" by (simp add: fold_clear(1) len)
      show "?d' ! c = (if c \<in> ?L then None else d ! c)" if "c < 128" for c
        using fold_clear(2) [of c d toASCIILower "[m..<i]"] that len by simp
      show "d ! c = Some (range_destination ?r) \<and> m \<le> c" if "c < 128" "range_matches ?r c" for c
        using that(2) [unfolded mt]
      proof
        assume "m \<le> c \<and> c < i"
        with same [of c] m(3) show ?thesis by auto
      next
        assume "c \<in> ?L"
        then obtain j where "j \<in> {m..<i}" "c = toASCIILower j" by blast
        with lc [of j] low m(3) show ?thesis by auto
      qed
      show "m \<le> i" using m(1) by simp
    qed
  next
    case False
    let ?r = "\<lparr>range_min = m, range_max = i - 1, range_destination = ?dest, range_caseSensitive = True\<rparr>"
    have res: "d' = d" "rs' = rs @ [?r]" using r False by (auto simp: close_range_def Let_def)
    have mt: "range_matches ?r c \<longleftrightarrow> (m \<le> c \<and> c < i) \<or> c \<in> {}" for c
      using m(1) by (auto simp: range_matches_def)
    show ?thesis unfolding res
    proof (rule settled_append [OF inv len mt])
      show "d ! c = Some (range_destination ?r) \<and> m \<le> c" if "c < 128" "range_matches ?r c" for c
        using that(2) [unfolded mt] same [of c] m(3) by auto
    qed (use m(1) in simp_all)
  qed
qed

lemma scan_character_inv:
  assumes inv: "scan_inv d0 i st" and i: "i < 128"
  shows "scan_inv d0 (Suc i) (scan_character i st)"
proof -
  obtain d rm rs where st: "st = (d, rm, rs)" by (cases st) auto
  show ?thesis
  proof (cases rm)
    case None
    with inv st have s: "settled d0 i d rs" by (simp add: scan_inv_def)
    show ?thesis
    proof (cases "d ! i = None")
      case True
      have "settled d0 (Suc i) d rs"
        using s True by (auto simp: settled_def less_Suc_eq split: option.splits)
      with st None True show ?thesis by (simp add: scan_character_def scan_inv_def)
    next
      case False
      with s st None show ?thesis by (auto simp: scan_character_def scan_inv_def less_Suc_eq_le)
    qed
  next
    case (Some m)
    have m: "m < i" "settled d0 m d rs" "d ! m \<noteq> None" "\<forall>j. m < j \<and> j < i \<longrightarrow> d ! j = d ! m"
      using inv unfolding st Some scan_inv_Some by blast+
    show ?thesis
    proof (cases "d ! i = d ! m")
      case True
      with st Some m show ?thesis by (auto simp: scan_character_def scan_inv_def less_Suc_eq)
    next
      case False
      obtain d' rs' where c: "close_range i m d rs = (d', rs')" by fastforce
      have s: "settled d0 i d' rs'" by (rule close_range_settled [OF m(2,1) _ m(3,4) c]) (use i in simp)
      show ?thesis
      proof (cases "d' ! i = None")
        case True
        have "settled d0 (Suc i) d' rs'"
          using s True by (auto simp: settled_def less_Suc_eq split: option.splits)
        with st Some False c True show ?thesis by (simp add: scan_character_def scan_inv_def)
      next
        case False
        with s st Some \<open>d ! i \<noteq> d ! m\<close> c show ?thesis
          by (auto simp: scan_character_def scan_inv_def less_Suc_eq_le)
      qed
    qed
  qed
qed

lemma scan_fold_inv:
  "scan_inv d0 a st \<Longrightarrow> a + n \<le> 128 \<Longrightarrow> scan_inv d0 (a + n) (fold scan_character [a..<a + n] st)"
proof (induction n)
  case (Suc n)
  then have "scan_inv d0 (Suc (a + n)) (scan_character (a + n) (fold scan_character [a..<a + n] st))"
    by (intro scan_character_inv) auto
  then show ?case by simp
qed simp

lemma settled_end:
  assumes "settled d0 128 d rs" "c < 128"
  shows "map_option range_destination (first_match rs c) = d0 ! c"
  using settledD [OF assms] assms(2) by (cases "first_match rs c") auto

text \<open>The ranges of a node decide every ASCII character as its table does.\<close>

lemma node_ranges_correct:
  assumes "length d0 = 128" "c < 128"
  shows "map_option range_destination (first_match (node_ranges d0) c) = d0 ! c"
proof -
  obtain d rm rs where f: "fold scan_character [0..<128] (d0, None, []) = (d, rm, rs)" using prod_cases3 by blast
  have "scan_inv d0 0 (d0, None, [])" using assms(1) by (simp add: scan_inv_def settled_def)
  from scan_fold_inv [OF this, of 128] f have inv: "scan_inv d0 128 (d, rm, rs)" by simp
  show ?thesis
  proof (cases rm)
    case None
    with inv f assms(2) settled_end show ?thesis by (simp add: node_ranges_def scan_inv_def del: upt_Suc)
  next
    case (Some m)
    have m: "m < 128" "settled d0 m d rs" "d ! m \<noteq> None" "\<forall>j. m < j \<and> j < 128 \<longrightarrow> d ! j = d ! m"
      using inv unfolding Some scan_inv_Some by blast+
    let ?r = "\<lparr>range_min = m, range_max = 127, range_destination = the (d ! m), range_caseSensitive = True\<rparr>"
    have mt: "range_matches ?r c \<longleftrightarrow> (m \<le> c \<and> c < 128) \<or> c \<in> {}" for c
      by (auto simp: range_matches_def)
    have "length d = 128" using m(2) by (simp add: settled_def)
    have same: "d ! j = Some (range_destination ?r)" if "m \<le> j" "j < 128" for j
      using m(3,4) that by (cases "j = m") auto
    have "settled d0 128 d (rs @ [?r])"
    proof (rule settled_append [OF m(2) \<open>length d = 128\<close> mt])
      show "d ! j = Some (range_destination ?r) \<and> m \<le> j" if "j < 128" "range_matches ?r j" for j
        using that(2) [unfolded mt] same by blast
    qed (use m(1) in simp_all)
    from settled_end [OF this assms(2)] show ?thesis using f Some by (simp add: node_ranges_def del: upt_Suc)
  qed
qed

section \<open>The table of a node\<close>

lemma fold_table_length: "length (fold (\<lambda>(key, destination) ds. ds[key := Some destination]) ts ds) = length ds"
  by (induction ts arbitrary: ds) auto

lemma fold_table:
  "distinct (map fst ts) \<Longrightarrow> c < length ds \<Longrightarrow>
     fold (\<lambda>(key, destination) ds. ds[key := Some destination]) ts ds ! c =
       (case map_of ts c of Some t \<Rightarrow> Some t | None \<Rightarrow> ds ! c)"
proof (induction ts arbitrary: ds)
  case (Cons a ts)
  obtain k t where a: "a = (k, t)" by (cases a)
  have "map_of ts k = None" using Cons.prems(1) a by (simp add: map_of_eq_None_iff)
  with Cons a show ?case by (cases "k = c") (auto split: option.split)
qed simp

lemma destination_table_correct:
  assumes "distinct (map fst ts)" "\<forall>(k, t) \<in> set ts. k < 128"
  shows "\<exists>ds. destination_table ts = Some ds \<and> length ds = 128 \<and> (\<forall>c < 128. ds ! c = map_of ts c)"
proof -
  let ?ds = "fold (\<lambda>(key, destination) ds. ds[key := Some destination]) ts (replicate 128 None)"
  have "destination_table ts = Some ?ds" using assms(2) by (auto simp: destination_table_def list_all_iff)
  moreover have "length ?ds = 128" by (simp add: fold_table_length)
  moreover have "?ds ! c = map_of ts c" if "c < 128" for c
    using fold_table [OF assms(1), of c "replicate 128 None"] that by (simp split: option.split)
  ultimately show ?thesis by blast
qed

section \<open>Every range comes from the table\<close>

text \<open>A range is made of ASCII characters, in order, and has the destination of one of the characters.\<close>

definition range_ok :: "nat option list \<Rightarrow> Range \<Rightarrow> bool" where
  "range_ok d0 r \<longleftrightarrow> range_min r \<le> range_max r \<and> range_max r < 128 \<and> (\<exists>x < 128. d0 ! x = Some (range_destination r))"

definition from_table :: "nat option list \<Rightarrow> nat \<Rightarrow> scan_state \<Rightarrow> bool" where
  "from_table d0 i st \<longleftrightarrow>
     (case st of (d, rangeMin, rs) \<Rightarrow>
        length d = 128 \<and> (\<forall>c < 128. d ! c = None \<or> d ! c = d0 ! c) \<and>
        (\<forall>m. rangeMin = Some m \<longrightarrow> m < i \<and> d ! m \<noteq> None) \<and> list_all (range_ok d0) rs)"

lemma close_range_from_table:
  assumes t: "from_table d0 i (d, Some m, rs)" and i: "i \<le> 128" and r: "close_range i m d rs = (d', rs')"
  shows "from_table d0 i (d', None, rs')"
proof -
  have T: "length d = 128" "\<forall>c < 128. d ! c = None \<or> d ! c = d0 ! c" "m < i" "d ! m \<noteq> None" "list_all (range_ok d0) rs"
    using t by (auto simp: from_table_def)
  have m: "m < 128" using T(3) i by simp
  obtain y where y: "d ! m = Some y" using T(4) by blast
  have "d ! m = None \<or> d ! m = d0 ! m" by (rule T(2) [rule_format, OF m])
  then have "d ! m = d0 ! m" using T(4) by (elim disjE) (erule notE, assumption)
  then have "d0 ! m = Some y" using y by (rule subst)
  then have "d0 ! m = Some (the (d ! m))" unfolding y option.sel .
  note dm = this m
  have eq: "Suc (i - Suc 0) = i" using T(3) by simp
  show ?thesis
  proof (cases "65 \<le> m \<and> i - 1 \<le> 90 \<and> lower_case_covered d m (i - 1)")
    case True
    let ?d = "fold (\<lambda>rangeIndex ds. ds[toASCIILower rangeIndex := None]) [m..<i] d"
    have "m \<notin> toASCIILower ` {m..<i}" using True T(3) by (auto simp: toASCIILower_eq isASCIIUpper_def)
    then have "?d ! m = d ! m" using fold_clear(2) [of m d toASCIILower "[m..<i]"] dm(2) T(1) by simp
    then have res: "d' = ?d" "rs' = rs @ [\<lparr>range_min = toASCIILower m, range_max = toASCIILower (i - 1),
        range_destination = the (d ! m), range_caseSensitive = False\<rparr>]"
      using r True by (auto simp: close_range_def Let_def eq simp del: upt_Suc)
    have "65 \<le> m" "i \<le> 91" "i - 1 \<le> 90" "65 \<le> i - 1" "m \<le> 90" using True T(3) by auto
    then have "toASCIILower m = m + 32" "toASCIILower (i - 1) = i - 1 + 32"
      by (simp_all add: toASCIILower_eq isASCIIUpper_def)
    with \<open>i \<le> 91\<close> T(3) have "toASCIILower m \<le> toASCIILower (i - 1)" "toASCIILower (i - 1) < 128" by simp_all
    moreover have "?d ! c = None \<or> ?d ! c = d0 ! c" if "c < 128" for c
      using fold_clear(2) [of c d toASCIILower "[m..<i]"] that T(1,2) by auto
    ultimately show ?thesis
      unfolding res from_table_def using T(1,5) dm by (auto simp: range_ok_def fold_clear(1))
  next
    case False
    let ?r = "\<lparr>range_min = m, range_max = i - 1, range_destination = the (d ! m), range_caseSensitive = True\<rparr>"
    have res: "d' = d" "rs' = rs @ [?r]" using r False by (auto simp: close_range_def Let_def)
    have "m \<le> i - 1" "i - 1 < 128" using T(3) i by linarith+
    moreover have "\<exists>x < 128. d0 ! x = Some (the (d ! m))" using dm by blast
    ultimately have "range_ok d0 ?r" by (simp add: range_ok_def)
    then show ?thesis unfolding res from_table_def using T(1,2,5) by simp
  qed
qed

lemma scan_character_from_table:
  assumes t: "from_table d0 i st" and i: "i < 128"
  shows "from_table d0 (Suc i) (scan_character i st)"
proof -
  obtain d rm rs where st: "st = (d, rm, rs)" by (cases st) auto
  show ?thesis
  proof (cases rm)
    case None
    with t st show ?thesis by (auto simp: scan_character_def from_table_def)
  next
    case (Some m)
    show ?thesis
    proof (cases "d ! i = d ! m")
      case True
      with t st Some show ?thesis by (auto simp: scan_character_def from_table_def)
    next
      case False
      obtain d' rs' where c: "close_range i m d rs = (d', rs')" by fastforce
      have "from_table d0 i (d', None, rs')"
        by (rule close_range_from_table [OF _ _ c]) (use t st Some i in simp_all)
      with st Some False c show ?thesis by (auto simp: scan_character_def from_table_def)
    qed
  qed
qed

lemma scan_fold_from_table:
  "n \<le> 128 \<Longrightarrow> from_table d0 0 st \<Longrightarrow> from_table d0 n (fold scan_character [0..<n] st)"
  by (induction n) (simp_all add: scan_character_from_table)

lemma node_ranges_ok:
  assumes "length d0 = 128"
  shows "list_all (range_ok d0) (node_ranges d0)"
proof -
  obtain d rm rs where f: "fold scan_character [0..<128] (d0, None, []) = (d, rm, rs)" using prod_cases3 by blast
  have "from_table d0 0 (d0, None, [])" using assms by (simp add: from_table_def)
  from scan_fold_from_table [OF le_refl this] f have t: "from_table d0 128 (d, rm, rs)" by simp
  show ?thesis
  proof (cases rm)
    case None
    with f t show ?thesis by (simp add: node_ranges_def from_table_def del: upt_Suc)
  next
    case (Some m)
    with t have "m < 128" "d ! m \<noteq> None" "d ! m = None \<or> d ! m = d0 ! m" by (auto simp: from_table_def)
    then have "d0 ! m = Some (the (d ! m))" by auto
    with f t Some \<open>m < 128\<close> show ?thesis by (auto simp: node_ranges_def from_table_def range_ok_def simp del: upt_Suc)
  qed
qed

lemma node_ranges_dest:
  "length d0 = 128 \<Longrightarrow> r \<in> set (node_ranges d0) \<Longrightarrow> \<exists>x < 128. d0 ! x = Some (range_destination r)"
  using node_ranges_ok [of d0] by (auto simp: list_all_iff range_ok_def)

end
