(* ===== verification/CE_Bytecode_Link.thy ===== *)
theory CE_Bytecode_Link
  imports CE_Bytecode_Ranges
begin

text \<open>
  What \<open>DFABytecodeCompiler::compile\<close> writes: the bytes of a list of instructions, one block for each
  node, with every jump linked to the block of its destination.
\<close>

section \<open>Instructions with their arguments\<close>

text \<open>A jump names the node it leads to; \<open>T\<close> gives the position of a node.\<close>

datatype code =
  CCheck bool u8 nat | CRange bool u8 u8 nat | CAction u32 | CTest u16 u32 | CTerm | CJump nat

fun code_instr :: "code \<Rightarrow> DFABytecodeInstruction" where
  "code_instr (CCheck cased v d) = (if cased then CheckValueCaseSensitive else CheckValueCaseInsensitive)"
| "code_instr (CRange cased lo hi d) = (if cased then CheckValueRangeCaseSensitive else CheckValueRangeCaseInsensitive)"
| "code_instr (CAction a) = AppendAction"
| "code_instr (CTest f a) = TestFlagsAndAppendAction"
| "code_instr CTerm = Terminate"
| "code_instr (CJump d) = Jump"

fun code_args :: "code \<Rightarrow> u8 list" where
  "code_args (CCheck cased v d) = [v]"
| "code_args (CRange cased lo hi d) = [lo, hi]"
| "code_args (CAction a) = bytes32 a"
| "code_args (CTest f a) = bytes16 f @ bytes32 a"
| "code_args CTerm = []"
| "code_args (CJump d) = []"

fun code_dest :: "code \<Rightarrow> nat option" where
  "code_dest (CCheck cased v d) = Some d"
| "code_dest (CRange cased lo hi d) = Some d"
| "code_dest (CJump d) = Some d"
| "code_dest _ = None"

definition code_head :: "code \<Rightarrow> u8 list" where
  "code_head c = instruction_byte (code_instr c) # code_args c"

definition code_bytes :: "(nat \<Rightarrow> u32) \<Rightarrow> code \<Rightarrow> u8 list" where
  "code_bytes T c = code_head c @ (case code_dest c of None \<Rightarrow> [] | Some d \<Rightarrow> bytes32 (T d))"

abbreviation codes_bytes :: "(nat \<Rightarrow> u32) \<Rightarrow> code list \<Rightarrow> u8 list" where
  "codes_bytes T cs \<equiv> concat (map (code_bytes T) cs)"

definition code_size :: "code \<Rightarrow> nat" where
  "code_size c = instructionSizeWithArguments (code_instr c)"

definition codes_size :: "code list \<Rightarrow> nat" where
  "codes_size cs = sum_list (map code_size cs)"

lemma codes_size_simps [simp]:
  "codes_size [] = 0" "codes_size (c # cs) = code_size c + codes_size cs" "codes_size (cs @ ds) = codes_size cs + codes_size ds"
  by (simp_all add: codes_size_def)

lemma length_bytes [simp]: "length (bytes32 w) = 4" "length (bytes16 v) = 2"
  by (simp_all add: bytes32_def bytes16_def)

lemma length_code_bytes [simp]: "length (code_bytes T c) = code_size c"
  by (cases c) (simp_all add: code_bytes_def code_head_def code_size_def)

lemma length_codes_bytes [simp]: "length (codes_bytes T cs) = codes_size cs"
  by (induction cs) simp_all

section \<open>Reading and writing words\<close>

lemma ucast_cat32:
  fixes w :: u32
  shows "ucast (ucast w :: u8) OR push_bit 8 (ucast (ucast (drop_bit 8 w) :: u8)) OR
     push_bit 16 (ucast (ucast (drop_bit 16 w) :: u8)) OR push_bit 24 (ucast (ucast (drop_bit 24 w) :: u8)) = w"
proof (rule bit_eqI)
  fix n assume "possible_bit TYPE(32 word) n"
  then have n: "n < 32" by simp
  consider "n < 8" | "8 \<le> n" "n < 16" | "16 \<le> n" "n < 24" | "24 \<le> n" by linarith
  then show "bit (ucast (ucast w :: u8) OR push_bit 8 (ucast (ucast (drop_bit 8 w) :: u8)) OR
     push_bit 16 (ucast (ucast (drop_bit 16 w) :: u8)) OR push_bit 24 (ucast (ucast (drop_bit 24 w) :: u8)) :: u32) n = bit w n"
    using n by cases (auto simp: bit_simps)
qed

lemma ucast_cat16:
  fixes w :: u16
  shows "ucast (ucast w :: u8) OR push_bit 8 (ucast (ucast (drop_bit 8 w) :: u8)) = w"
proof (rule bit_eqI)
  fix n assume "possible_bit TYPE(16 word) n"
  then have n: "n < 16" by simp
  show "bit (ucast (ucast w :: u8) OR push_bit 8 (ucast (ucast (drop_bit 8 w) :: u8)) :: u16) n = bit w n"
    using n by (cases "n < 8") (auto simp: bit_simps)
qed

lemma get32_at: "p = length xs \<Longrightarrow> get32 (xs @ bytes32 w @ ys) p = w"
  by (simp add: get32_def bytes32_def nth_append ucast_cat32)

lemma get16_at: "p = length xs \<Longrightarrow> get16 (xs @ bytes16 w @ ys) p = w"
  by (simp add: get16_def bytes16_def nth_append ucast_cat16)

lemma set32Bits_at: "p = length xs \<Longrightarrow> set32Bits p v (xs @ bytes32 w @ ys) = xs @ bytes32 v @ ys"
  by (simp add: set32Bits_def bytes32_def list_update_append)

section \<open>The compiler emits instructions\<close>

fun links_at :: "nat \<Rightarrow> code list \<Rightarrow> (nat \<times> nat) list" where
  "links_at p [] = []"
| "links_at p (c # cs) =
     (case code_dest c of None \<Rightarrow> [] | Some d \<Rightarrow> [(p + length (code_head c), d)]) @ links_at (p + code_size c) cs"

lemma links_at_append: "links_at p (cs @ ds) = links_at p cs @ links_at (p + codes_size cs) ds"
  by (induction cs arbitrary: p) (auto simp: add.assoc)

definition emit_codes :: "code list \<Rightarrow> DFABytecodeCompiler \<Rightarrow> DFABytecodeCompiler" where
  "emit_codes cs c =
     c\<lparr>m_bytecode := m_bytecode c @ codes_bytes (\<lambda>_. 0) cs,
       m_linkRecords := m_linkRecords c @ links_at (length (m_bytecode c)) cs\<rparr>"

lemma emit_codes_append: "emit_codes ds (emit_codes cs c) = emit_codes (cs @ ds) c"
  by (simp add: emit_codes_def links_at_append)

lemma emit_codes_Nil [simp]: "emit_codes [] c = c"
  by (simp add: emit_codes_def)

lemma emit_codes_offsets [simp]:
  "m_nodeStartOffsets (emit_codes cs c) = m_nodeStartOffsets c"
  "length (m_bytecode (emit_codes cs c)) = length (m_bytecode c) + codes_size cs"
  "emit_codes cs (c\<lparr>m_nodeStartOffsets := os\<rparr>) = (emit_codes cs c)\<lparr>m_nodeStartOffsets := os\<rparr>"
  by (simp_all add: emit_codes_def)

lemmas emit_defs = emit_codes_def append_bytes_def append_instruction_def append_link_def code_bytes_def code_head_def

lemma emit_one:
  "emitAppendAction a c = emit_codes [CAction a] c"
  "emitTestFlagsAndAppendAction f a c = emit_codes [CTest f a] c"
  "emitJump d c = emit_codes [CJump d] c"
  "emitCheckValue v d cased c = emit_codes [CCheck cased v d] c"
  "emitCheckValueRange lo hi d cased c = emit_codes [CRange cased lo hi d] c"
  "emitTerminate c = emit_codes [CTerm] c"
  by (simp_all add: emit_defs emitAppendAction_def emitTestFlagsAndAppendAction_def emitJump_def emitCheckValue_def
      emitCheckValueRange_def emitTerminate_def)

definition range_code :: "Range \<Rightarrow> code" where
  "range_code r =
     (if range_min r = range_max r then CCheck (range_caseSensitive r) (of_nat (range_min r)) (range_destination r)
      else CRange (range_caseSensitive r) (of_nat (range_min r)) (of_nat (range_max r)) (range_destination r))"

definition action_code :: "u64 \<Rightarrow> code" where
  "action_code a = (if a AND 0xFFFF00000000 \<noteq> 0 then CTest (ucast (drop_bit 32 a)) (ucast a) else CAction (ucast a))"

lemma fold_emit:
  "(\<And>x c. f x c = emit_codes [g x] c) \<Longrightarrow> fold f xs c = emit_codes (map g xs) c"
  by (induction xs arbitrary: c) (simp_all add: emit_codes_append)

lemma fold_ranges: "fold compileCheckForRange rs c = emit_codes (map range_code rs) c"
  by (rule fold_emit) (simp add: compileCheckForRange_def range_code_def emit_one)

lemma fold_actions: "fold compile_action as c = emit_codes (map action_code as) c"
  by (rule fold_emit) (simp add: compile_action_def action_code_def emit_one)

section \<open>Nodes\<close>

text \<open>What compiling a node relies on: unique ASCII transitions, and a fallback that is there.\<close>

definition live :: "DFA \<Rightarrow> nat \<Rightarrow> bool" where
  "live dfa i \<longleftrightarrow> i < length (nodes dfa) \<and> \<not> isKilled (nodes dfa ! i)"

definition node_wf :: "DFA \<Rightarrow> DFANode \<Rightarrow> bool" where
  "node_wf dfa node \<longleftrightarrow>
     distinct (map fst (node_transitions dfa node)) \<and>
     (\<forall>(k, t) \<in> set (node_transitions dfa node). k < 128 \<and> live dfa t) \<and>
     (hasFallbackTransition node \<longrightarrow> (\<exists>t. fallbackTransitionDestination dfa node = Some t \<and> live dfa t))"

definition dfa_wf :: "DFA \<Rightarrow> bool" where
  "dfa_wf dfa \<longleftrightarrow> live dfa (root dfa) \<and> (\<forall>i. live dfa i \<longrightarrow> node_wf dfa (nodes dfa ! i))"

definition trans_codes :: "DFA \<Rightarrow> DFANode \<Rightarrow> code list" where
  "trans_codes dfa node =
     map range_code (node_ranges (the (destination_table (node_transitions dfa node)))) @
     [if hasFallbackTransition node then CJump (the (fallbackTransitionDestination dfa node)) else CTerm]"

definition act_codes :: "DFA \<Rightarrow> DFANode \<Rightarrow> code list" where
  "act_codes dfa node = map action_code (node_actions dfa node)"

lemma compileNodeTransitions_emit:
  assumes "node_wf dfa node"
  shows "compileNodeTransitions dfa node c = Some (emit_codes (trans_codes dfa node) c)"
proof -
  obtain ds where "destination_table (node_transitions dfa node) = Some ds"
    using destination_table_correct [of "node_transitions dfa node"] assms unfolding node_wf_def by fast
  with assms show ?thesis
    by (auto simp: compileNodeTransitions_def trans_codes_def node_wf_def fold_ranges emit_one emit_codes_append)
qed

definition seg :: "DFA \<Rightarrow> nat \<Rightarrow> code list" where
  "seg dfa i = (if isKilled (nodes dfa ! i) then [] else act_codes dfa (nodes dfa ! i) @ trans_codes dfa (nodes dfa ! i))"

lemma compileNode_emit:
  assumes "\<not> isKilled (nodes dfa ! i) \<Longrightarrow> node_wf dfa (nodes dfa ! i)"
  shows "compileNode dfa i False c =
     Some ((emit_codes (seg dfa i) c)\<lparr>m_nodeStartOffsets := (m_nodeStartOffsets c)
        [i := if isKilled (nodes dfa ! i) then - 1 else of_nat (length (m_bytecode c))]\<rparr>)"
  using assms
  by (simp add: compileNode_def Let_def seg_def set_offset_def act_codes_def fold_actions compileNodeTransitions_emit emit_codes_append)

lemma compileNode_root:
  assumes "\<not> isKilled (nodes dfa ! i)" "node_wf dfa (nodes dfa ! i)"
  shows "compileNode dfa i True c =
     Some ((emit_codes (seg dfa i) c)\<lparr>m_nodeStartOffsets := (m_nodeStartOffsets c)
        [i := of_nat (length (m_bytecode c) + codes_size (act_codes dfa (nodes dfa ! i)))]\<rparr>)"
  using assms
  by (simp add: compileNode_def Let_def seg_def set_offset_def fold_actions compileNodeTransitions_emit emit_codes_append
      flip: act_codes_def)

text \<open>The positions of a list of nodes compiled from position \<open>p\<close> on.\<close>

fun offsets_from :: "DFA \<Rightarrow> nat \<Rightarrow> nat list \<Rightarrow> u32 list \<Rightarrow> u32 list" where
  "offsets_from dfa p [] os = os"
| "offsets_from dfa p (i # is) os =
     offsets_from dfa (p + codes_size (seg dfa i)) is (os[i := if isKilled (nodes dfa ! i) then - 1 else of_nat p])"

lemma compile_nodes_emit:
  assumes "\<forall>i \<in> set is. \<not> isKilled (nodes dfa ! i) \<longrightarrow> node_wf dfa (nodes dfa ! i)"
  shows "compile_nodes dfa is c =
     Some ((emit_codes (concat (map (seg dfa) is)) c)\<lparr>m_nodeStartOffsets := offsets_from dfa (length (m_bytecode c)) is (m_nodeStartOffsets c)\<rparr>)"
  using assms
  by (induction "is" arbitrary: c) (simp_all add: compileNode_emit emit_codes_append)

lemma offsets_from_other:
  "length (offsets_from dfa p is os) = length os"
  "j \<notin> set is \<Longrightarrow> offsets_from dfa p is os ! j = os ! j"
  by (induction "is" arbitrary: p os) auto

lemma offsets_from_at:
  "distinct (pre @ i # post) \<Longrightarrow> i < length os \<Longrightarrow> \<not> isKilled (nodes dfa ! i) \<Longrightarrow>
     offsets_from dfa p (pre @ i # post) os ! i = of_nat (p + codes_size (concat (map (seg dfa) pre)))"
  by (induction pre arbitrary: p os) (auto simp: offsets_from_other add.assoc)

section \<open>Linking\<close>

lemma link_records_append:
  "link_records os (r @ s) b = Option.bind (link_records os r b) (link_records os s)"
  by (induction r arbitrary: b) (auto simp: Let_def)

lemma link_codes:
  "(\<forall>c \<in> set cs. \<forall>d. code_dest c = Some d \<longrightarrow> os ! d \<noteq> - 1) \<Longrightarrow>
     link_records os (links_at (length pre) cs) (pre @ codes_bytes (\<lambda>_. 0) cs @ post) =
       Some (pre @ codes_bytes (\<lambda>d. os ! d) cs @ post)"
proof (induction cs arbitrary: pre)
  case (Cons c cs)
  have rest: "link_records os (links_at (length (pre @ code_bytes T c)) cs) ((pre @ code_bytes T c) @ codes_bytes (\<lambda>_. 0) cs @ post) =
      Some ((pre @ code_bytes T c) @ codes_bytes (\<lambda>d. os ! d) cs @ post)" for T
    by (rule Cons.IH) (use Cons.prems in simp)
  show ?case
  proof (cases "code_dest c")
    case None
    then have "code_bytes T c = code_bytes U c" for T U by (simp add: code_bytes_def)
    then have "code_bytes (\<lambda>d. os ! d) c = code_bytes (\<lambda>_. 0) c" .
    with None rest [of "\<lambda>_. 0"] show ?thesis by simp
  next
    case (Some d)
    then have "set32Bits (length pre + length (code_head c)) (os ! d) (pre @ code_bytes (\<lambda>_. 0) c @ codes_bytes (\<lambda>_. 0) cs @ post)
        = pre @ code_bytes (\<lambda>d. os ! d) c @ codes_bytes (\<lambda>_. 0) cs @ post"
      using set32Bits_at [of "length pre + length (code_head c)" "pre @ code_head c" "os ! d" 0 "codes_bytes (\<lambda>_. 0) cs @ post"]
      by (simp add: code_bytes_def)
    moreover have "os ! d \<noteq> - 1" using Cons.prems Some by auto
    ultimately show ?thesis using Some rest [of "\<lambda>d. os ! d"] by (simp add: Let_def)
  qed
qed simp

section \<open>The whole program\<close>

definition other_nodes :: "DFA \<Rightarrow> nat list" where
  "other_nodes dfa = filter (\<lambda>i. i \<noteq> root dfa) [0..<length (nodes dfa)]"

definition program :: "DFA \<Rightarrow> code list" where
  "program dfa = seg dfa (root dfa) @ concat (map (seg dfa) (other_nodes dfa))"

definition program_size :: "DFA \<Rightarrow> nat" where
  "program_size dfa = 4 + codes_size (program dfa)"

definition node_position :: "DFA \<Rightarrow> nat \<Rightarrow> u32" where
  "node_position dfa i =
     offsets_from dfa (4 + codes_size (seg dfa (root dfa))) (other_nodes dfa)
       ((replicate (length (nodes dfa)) 0)[root dfa := of_nat (4 + codes_size (act_codes dfa (nodes dfa ! root dfa)))]) ! i"

lemma root_position:
  "live dfa (root dfa) \<Longrightarrow> node_position dfa (root dfa) = of_nat (4 + codes_size (act_codes dfa (nodes dfa ! root dfa)))"
  by (simp add: node_position_def offsets_from_other other_nodes_def live_def)

text \<open>Every block is in the program, at the position of its node.\<close>

lemma block_position:
  assumes "live dfa i" "i \<noteq> root dfa"
  shows "\<exists>pre post. program dfa = pre @ seg dfa i @ post \<and> node_position dfa i = of_nat (4 + codes_size pre)"
proof -
  have "i \<in> set (other_nodes dfa)" using assms by (simp add: other_nodes_def live_def)
  then obtain xs ys where s: "other_nodes dfa = xs @ i # ys" by (metis split_list)
  have "distinct (other_nodes dfa)" by (simp add: other_nodes_def)
  with s have d: "distinct (xs @ i # ys)" by simp
  let ?pre = "seg dfa (root dfa) @ concat (map (seg dfa) xs)"
  have "program dfa = ?pre @ seg dfa i @ concat (map (seg dfa) ys)" by (simp add: program_def s)
  moreover have "node_position dfa i = of_nat (4 + codes_size ?pre)"
    unfolding node_position_def s
    by (subst offsets_from_at [OF d]) (use assms in \<open>simp_all add: live_def add.assoc\<close>)
  ultimately show ?thesis by blast
qed

lemma program_dests:
  assumes "dfa_wf dfa" "c \<in> set (program dfa)" "code_dest c = Some d"
  shows "live dfa d"
proof -
  obtain i where i: "c \<in> set (seg dfa i)" "i < length (nodes dfa)"
    using assms by (auto simp: program_def other_nodes_def dfa_wf_def live_def)
  then have "live dfa i" by (auto simp: seg_def live_def split: if_splits)
  then have wf: "node_wf dfa (nodes dfa ! i)" using assms(1) by (simp add: dfa_wf_def)
  let ?ts = "node_transitions dfa (nodes dfa ! i)"
  have c: "c \<in> set (trans_codes dfa (nodes dfa ! i))"
    using i(1) assms(3) by (auto simp: seg_def act_codes_def action_code_def split: if_splits)
  have dist: "distinct (map fst ?ts)" "\<forall>(k, t) \<in> set ?ts. k < 128" using wf by (auto simp: node_wf_def)
  obtain ds where ds: "destination_table ?ts = Some ds" "length ds = 128" "\<forall>c < 128. ds ! c = map_of ?ts c"
    using destination_table_correct [OF dist] by blast
  show ?thesis
  proof (cases "\<exists>r \<in> set (node_ranges ds). c = range_code r")
    case True
    then obtain r where r: "r \<in> set (node_ranges ds)" "c = range_code r" by blast
    then have "d = range_destination r" using assms(3) by (auto simp: range_code_def split: if_splits)
    moreover have "\<exists>x < 128. ds ! x = Some (range_destination r)" using node_ranges_dest [OF ds(2) r(1)] .
    ultimately obtain x where "map_of ?ts x = Some d" using ds(3) by auto
    then show ?thesis using wf by (auto simp: node_wf_def dest: map_of_SomeD)
  next
    case False
    with c ds(1) assms(3) wf show ?thesis by (auto simp: trans_codes_def node_wf_def split: if_splits)
  qed
qed

lemma of_nat_not_max: "n < 4294967295 \<Longrightarrow> (of_nat n :: u32) \<noteq> - 1"
proof
  assume n: "n < 4294967295" "(of_nat n :: u32) = - 1"
  have "(- 1 :: u32) = 4294967295" by simp
  with n(2) have "unat (of_nat n :: u32) = unat (4294967295 :: u32)" by simp
  then show False using n(1) by simp
qed

lemma position_ok:
  assumes "dfa_wf dfa" "program_size dfa < 4294967295" "live dfa d"
  shows "node_position dfa d \<noteq> - 1"
proof (cases "d = root dfa")
  case True
  have "4 + codes_size (act_codes dfa (nodes dfa ! root dfa)) < 4294967295"
    using assms by (simp add: program_size_def program_def seg_def dfa_wf_def live_def)
  from of_nat_not_max [OF this] show ?thesis using True root_position [of dfa] assms(1) by (simp add: dfa_wf_def)
next
  case False
  then obtain pre post where p: "program dfa = pre @ seg dfa d @ post" "node_position dfa d = of_nat (4 + codes_size pre)"
    using block_position [OF assms(3)] by blast
  then have "4 + codes_size pre < 4294967295" using assms(2) by (simp add: program_size_def)
  from of_nat_not_max [OF this] show ?thesis using p(2) by simp
qed

text \<open>The bytecode of an automaton: the size header, and the linked instructions.\<close>

lemma compile_layout:
  assumes wf: "dfa_wf dfa" and size: "program_size dfa < 4294967295"
  shows "DFABytecodeCompiler_compile dfa [] =
     Some (bytes32 (of_nat (program_size dfa)) @ codes_bytes (node_position dfa) (program dfa))"
proof -
  let ?n = "length (nodes dfa)" and ?r = "root dfa"
  let ?c0 = "\<lparr>m_bytecode = bytes32 0, m_nodeStartOffsets = replicate ?n 0, m_linkRecords = []\<rparr>"
  have root: "\<not> isKilled (nodes dfa ! ?r)" "node_wf dfa (nodes dfa ! ?r)" using wf by (simp_all add: dfa_wf_def live_def)
  have others: "\<forall>i \<in> set (other_nodes dfa). \<not> isKilled (nodes dfa ! i) \<longrightarrow> node_wf dfa (nodes dfa ! i)"
    using wf by (auto simp: other_nodes_def dfa_wf_def live_def)
  let ?os = "offsets_from dfa (4 + codes_size (seg dfa ?r)) (other_nodes dfa)
      ((replicate ?n 0)[?r := of_nat (4 + codes_size (act_codes dfa (nodes dfa ! ?r)))])"
  have pos: "node_position dfa = (!) ?os" by (simp add: fun_eq_iff node_position_def)
  have dests: "\<forall>c \<in> set (program dfa). \<forall>d. code_dest c = Some d \<longrightarrow> ?os ! d \<noteq> - 1"
    using program_dests [OF wf] position_ok [OF wf size] unfolding pos by blast
  have link: "link_records ?os (links_at 4 (program dfa)) (bytes32 0 @ codes_bytes (\<lambda>_. 0) (program dfa)) =
      Some (bytes32 0 @ codes_bytes (node_position dfa) (program dfa))"
    using link_codes [OF dests, of "bytes32 0" "[]"] by (simp add: pos)
  have "compileNode dfa ?r True ?c0 = Some ((emit_codes (seg dfa ?r) ?c0)\<lparr>m_nodeStartOffsets :=
      (replicate ?n 0)[?r := of_nat (4 + codes_size (act_codes dfa (nodes dfa ! ?r)))]\<rparr>)"
    using compileNode_root [OF root, of ?c0] by simp
  moreover have "compile_nodes dfa (other_nodes dfa) ((emit_codes (seg dfa ?r) ?c0)\<lparr>m_nodeStartOffsets :=
      (replicate ?n 0)[?r := of_nat (4 + codes_size (act_codes dfa (nodes dfa ! ?r)))]\<rparr>) =
    Some ((emit_codes (program dfa) ?c0)\<lparr>m_nodeStartOffsets := ?os\<rparr>)"
    unfolding compile_nodes_emit [OF others] by (simp add: emit_codes_append program_def)
  ultimately have "DFABytecodeCompiler_compile dfa [] =
     map_option (\<lambda>b. set32Bits 0 (of_nat (length b)) b)
       (link_records ?os (links_at 4 (program dfa)) (bytes32 0 @ codes_bytes (\<lambda>_. 0) (program dfa)))"
    unfolding other_nodes_def [symmetric]
    by (simp add: DFABytecodeCompiler_compile_def append_bytes_def emit_codes_def flip: other_nodes_def)
  then show ?thesis
    unfolding link option.map
    using set32Bits_at [of 0 "[]" "of_nat (program_size dfa)" 0 "codes_bytes (node_position dfa) (program dfa)"]
    by (simp add: program_size_def)
qed

end
