(* ===== verification/CE_Subset_Shape.thy ===== *)
theory CE_Subset_Shape
  imports CE_Subset_Total CE_Bytecode_Link
begin

text \<open>
  The automata \<open>NFAToDFA::convert\<close> returns are well formed: slices in range, unique ASCII keys,
  destinations that are nodes, and no node killed. This is what the bytecode compiler relies on.
\<close>

section \<open>The shape of nodes\<close>

definition node_shape :: "DFA \<Rightarrow> DFANode \<Rightarrow> bool" where
  "node_shape d n \<longleftrightarrow> \<not> isKilled n \<and>
     m_transitionsStart n + transitionsLength n + (if hasFallbackTransition n then 1 else 0) \<le> length (dfa_transitions d) \<and>
     distinct (map fst (node_transitions d n)) \<and>
     (\<forall>(k, t) \<in> set (node_transitions d n). k < 128 \<and> t < length (nodes d)) \<and>
     (hasFallbackTransition n \<longrightarrow> snd (dfa_transitions d ! (m_transitionsStart n + transitionsLength n)) < length (nodes d))"

definition dfa_shape :: "DFA \<Rightarrow> bool" where
  "dfa_shape d \<longleftrightarrow> (\<forall>n \<in> set (nodes d). node_shape d n)"

text \<open>Extending an automaton keeps the shape of its nodes.\<close>

definition extends :: "DFA \<Rightarrow> DFA \<Rightarrow> bool" where
  "extends d d' \<longleftrightarrow> (\<exists>xs. dfa_transitions d' = dfa_transitions d @ xs) \<and> (\<exists>ns. nodes d' = nodes d @ ns) \<and> root d' = root d"

lemma extends_refl: "extends d d"
  by (simp add: extends_def)

lemma extends_trans: "extends a b \<Longrightarrow> extends b c \<Longrightarrow> extends a c"
  by (auto simp: extends_def)

lemma node_shape_mono:
  assumes "node_shape d n" "dfa_transitions d' = dfa_transitions d @ xs" "length (nodes d) \<le> length (nodes d')"
  shows "node_shape d' n"
proof -
  have "node_transitions d' n = node_transitions d n"
    using assms(1,2) by (simp add: node_transitions_def node_shape_def)
  moreover have "hasFallbackTransition n \<Longrightarrow>
      dfa_transitions d' ! (m_transitionsStart n + transitionsLength n) = dfa_transitions d ! (m_transitionsStart n + transitionsLength n)"
    using assms(1,2) by (simp add: node_shape_def nth_append)
  ultimately show ?thesis using assms by (fastforce simp: node_shape_def)
qed

lemma new_node_shape: "node_shape d (set_actions a l new_DFANode)"
  by (simp add: node_shape_def set_actions_def isKilled_def hasFallbackTransition_def new_DFANode_def node_transitions_def transitionsLength_def)

definition table_ok :: "subset_state \<Rightarrow> bool" where
  "table_ok st \<longleftrightarrow> dfa_shape (sub_dfa st) \<and> list_all (\<lambda>(s, i). i < length (nodes (sub_dfa st))) (uniqueNodeIdSetTable st)"

lemma getOrCreate_shape:
  assumes "table_ok st" "getOrCreateDFANode graph s st = Some (st', i)"
  shows "table_ok st'" "extends (sub_dfa st) (sub_dfa st')" "i < length (nodes (sub_dfa st'))"
    "dfa_transitions (sub_dfa st') = dfa_transitions (sub_dfa st)"
proof -
  have "table_ok st' \<and> extends (sub_dfa st) (sub_dfa st') \<and> i < length (nodes (sub_dfa st')) \<and>
      dfa_transitions (sub_dfa st') = dfa_transitions (sub_dfa st)"
  proof (cases "find_set s (uniqueNodeIdSetTable st)")
    case (Some j)
    then obtain s' where "(s', j) \<in> set (uniqueNodeIdSetTable st)"
      by (auto simp: find_set_def find_Some_iff in_set_conv_nth) metis
    with assms(1) have "j < length (nodes (sub_dfa st))" by (auto simp: table_ok_def list_all_iff)
    with Some assms show ?thesis by (simp add: getOrCreateDFANode_def extends_refl)
  next
    case None
    then obtain d where d: "translate graph s (sub_dfa st) = Some (d, i)" and st': "sub_dfa st' = d"
      "uniqueNodeIdSetTable st' = uniqueNodeIdSetTable st @ [(s, i)]"
      using assms(2) by (auto simp: getOrCreateDFANode_def)
    from d obtain a l where n: "nodes d = nodes (sub_dfa st) @ [set_actions a l new_DFANode]" "i = length (nodes (sub_dfa st))"
      "dfa_transitions d = dfa_transitions (sub_dfa st)" "root d = root (sub_dfa st)"
      by (auto simp: translate_def Let_def split: if_splits)
    have "node_shape d m" if "m \<in> set (nodes (sub_dfa st))" for m
      by (rule node_shape_mono [of "sub_dfa st" _ _ "[]"]) (use that assms(1) n in \<open>auto simp: table_ok_def dfa_shape_def\<close>)
    then have "dfa_shape d" using n(1) new_node_shape by (auto simp: dfa_shape_def)
    moreover have "list_all (\<lambda>(s, i). i < length (nodes (sub_dfa st'))) (uniqueNodeIdSetTable st')"
      using assms(1) st' n by (auto simp: table_ok_def list_all_iff)
    ultimately show ?thesis using st' n by (simp add: table_ok_def extends_def)
  qed
  then show "table_ok st'" "extends (sub_dfa st) (sub_dfa st')" "i < length (nodes (sub_dfa st'))"
    "dfa_transitions (sub_dfa st') = dfa_transitions (sub_dfa st)" by blast+
qed

lemma append_transition_shape:
  "table_ok st \<Longrightarrow> table_ok (st\<lparr>sub_dfa := sub_dfa st\<lparr>dfa_transitions := dfa_transitions (sub_dfa st) @ xs\<rparr>\<rparr>)"
  unfolding table_ok_def dfa_shape_def by (auto intro: node_shape_mono)

lemma extends_append: "extends d (d\<lparr>dfa_transitions := dfa_transitions d @ xs\<rparr>)"
  by (simp add: extends_def)

lemma add_key_shape:
  "add_key_transitions graph key sts st = Some st' \<Longrightarrow> table_ok st \<Longrightarrow>
     table_ok st' \<and> extends (sub_dfa st) (sub_dfa st') \<and>
     (\<exists>trs. dfa_transitions (sub_dfa st') = dfa_transitions (sub_dfa st) @ trs \<and>
        distinct (map fst trs) \<and> (\<forall>(k, t) \<in> set trs. key \<le> k \<and> k < key + length sts \<and> t < length (nodes (sub_dfa st'))))"
proof (induction graph key sts st arbitrary: st' rule: add_key_transitions.induct)
  case (1 graph key st)
  then show ?case by (auto simp: extends_refl)
next
  case (2 graph key s sts st)
  show ?case
  proof (cases "s = []")
    case True
    from 2(1) [OF True] 2(3,4) True obtain trs where IH: "table_ok st'" "extends (sub_dfa st) (sub_dfa st')"
      "dfa_transitions (sub_dfa st') = dfa_transitions (sub_dfa st) @ trs" "distinct (map fst trs)"
      "\<forall>(k, t) \<in> set trs. Suc key \<le> k \<and> k < Suc key + length sts \<and> t < length (nodes (sub_dfa st'))" by auto
    then show ?thesis by (intro conjI exI [of _ trs]) fastforce+
  next
    case False
    from 2(3) False obtain st1 t where g: "getOrCreateDFANode graph s st = Some (st1, t)"
      by (auto split: option.splits)
    let ?st2 = "st1\<lparr>sub_dfa := sub_dfa st1\<lparr>dfa_transitions := dfa_transitions (sub_dfa st1) @ [(key, t)]\<rparr>\<rparr>"
    have rec: "add_key_transitions graph (Suc key) sts ?st2 = Some st'" using 2(3) False g by simp
    note G = getOrCreate_shape [OF 2(4) g]
    from 2(2) [OF False g refl rec append_transition_shape [OF G(1)]] obtain trs where IH: "table_ok st'"
      "extends (sub_dfa ?st2) (sub_dfa st')"
      "dfa_transitions (sub_dfa st') = dfa_transitions (sub_dfa ?st2) @ trs" "distinct (map fst trs)"
      "\<forall>(k, t) \<in> set trs. Suc key \<le> k \<and> k < Suc key + length sts \<and> t < length (nodes (sub_dfa st'))" by auto
    have "extends (sub_dfa st1) (sub_dfa ?st2)" using extends_append by simp
    with G(2) IH(2) have ext: "extends (sub_dfa st) (sub_dfa st')" by (blast intro: extends_trans)
    have "t < length (nodes (sub_dfa st'))" using G(3) IH(2) by (auto simp: extends_def)
    then have "\<forall>(k, t) \<in> set ((key, t) # trs). key \<le> k \<and> k < key + length (s # sts) \<and> t < length (nodes (sub_dfa st'))"
      using IH(5) by fastforce
    moreover have "distinct (map fst ((key, t) # trs))" using IH(4,5) by fastforce
    moreover have "dfa_transitions (sub_dfa st') = dfa_transitions (sub_dfa st) @ (key, t) # trs" using IH(3) G(4) by simp
    ultimately show ?thesis using IH(1) ext by blast
  qed
qed

section \<open>One round\<close>

lemma node_update_shape:
  assumes "table_ok st" "length (nodes d') = length (nodes (sub_dfa st))" "dfa_transitions d' = dfa_transitions (sub_dfa st) @ xs"
    "nodes d' = (nodes (sub_dfa st))[i := n]" "node_shape d' n"
  shows "table_ok (st\<lparr>sub_dfa := d'\<rparr>)"
proof -
  have "node_shape d' m" if "m \<in> set (nodes (sub_dfa st))" for m
    by (rule node_shape_mono [OF _ assms(3)]) (use that assms(1,2) in \<open>auto simp: table_ok_def dfa_shape_def\<close>)
  then have "dfa_shape d'" unfolding dfa_shape_def assms(4) using assms(5) set_update_subset_insert by fastforce
  then show ?thesis using assms(1,2) by (simp add: table_ok_def)
qed

lemma process_set_shape:
  assumes ok: "graph_ok A" and cl: "closures_ok A graph closures" and inv: "sinv A {} st" and tab: "table_ok st"
    and ne: "unprocessedNodes st \<noteq> []" and r: "process_set graph closures st = Some st'"
  shows "table_ok st' \<and> root (sub_dfa st') = root (sub_dfa st)"
proof -
  obtain source d where last: "last (unprocessedNodes st) = (source, d)" by fastforce
  define st0 where "st0 = st\<lparr>unprocessedNodes := butlast (unprocessedNodes st)\<rparr>"
  note S = sinv_start [OF inv ne last, folded st0_def]
  have tab0: "table_ok st0" using tab by (simp add: table_ok_def st0_def)
  have "set source \<subseteq> {..<size_of A}"
    using sinvD(2) [OF inv S(2)] S(3) by (simp add: entry_ok_def set_ok_def)
  then obtain sts fallback where pop: "populateTransitions graph closures source = Some (sts, fallback)" "length sts = 128"
    using populateTransitions_correct [OF ok cl, of source] by blast
  let ?start = "length (dfa_transitions (sub_dfa st))"
  obtain st1 where k: "add_key_transitions graph 0 sts st0 = Some st1"
    using r last pop(1) by (auto simp: process_set_def st0_def Let_def split: option.splits)
  from add_key_shape [OF k tab0] pop(2) obtain trs where K: "table_ok st1" "extends (sub_dfa st0) (sub_dfa st1)"
    "dfa_transitions (sub_dfa st1) = dfa_transitions (sub_dfa st0) @ trs" "distinct (map fst trs)"
    "\<forall>(k, t) \<in> set trs. k < 128 \<and> t < length (nodes (sub_dfa st1))" by auto
  have d: "d < length (nodes (sub_dfa st))" using S(2) sinvD(1) [OF inv] by simp
  then have n1: "nodes (sub_dfa st1) ! d = nodes (sub_dfa st) ! d" "d < length (nodes (sub_dfa st1))"
    using K(2) by (auto simp: extends_def st0_def nth_append)
  let ?len = "length trs"
  let ?n2 = "setTransitions ?start ?len (nodes (sub_dfa st) ! d)"
  have len1: "length (dfa_transitions (sub_dfa st1)) - ?start = ?len" using K(3) by (simp add: st0_def)
  have le: "?len \<le> 127" using r last pop(1) k len1 by (auto simp: process_set_def st0_def Let_def split: if_splits option.splits)
  have fresh: "\<not> isKilled (nodes (sub_dfa st) ! d)" "\<not> hasFallbackTransition (nodes (sub_dfa st) ! d)"
  proof -
    show "\<not> hasFallbackTransition (nodes (sub_dfa st) ! d)" using S(5) by (simp add: fresh_node_def hasFallbackTransition_def)
    show "\<not> isKilled (nodes (sub_dfa st) ! d)" using tab d by (auto simp: table_ok_def dfa_shape_def node_shape_def)
  qed
  define st2 where "st2 = set_node_transitions d ?start ?len st1"
  have n2: "isKilled ?n2 = False" "hasFallbackTransition ?n2 = False" "m_transitionsStart ?n2 = ?start" "transitionsLength ?n2 = ?len"
    using fresh le by (simp_all add: setTransitions_def isKilled_def hasFallbackTransition_def transitionsLength_def)
  have st2: "sub_dfa st2 = (sub_dfa st1)\<lparr>nodes := (nodes (sub_dfa st1))[d := ?n2]\<rparr>"
    "st2 = st1\<lparr>sub_dfa := (sub_dfa st1)\<lparr>nodes := (nodes (sub_dfa st1))[d := ?n2]\<rparr>\<rparr>"
    by (simp_all add: st2_def set_node_transitions_def n1)
  have trs: "node_transitions (sub_dfa st2) ?n2 = trs"
    using n2 K(3) by (simp add: node_transitions_def st2 st0_def)
  then have sh2: "node_shape (sub_dfa st2) ?n2"
    using n2 K(3,4,5) by (simp add: node_shape_def st2(1) st0_def)
  have tab2: "table_ok st2"
    unfolding st2(2) by (rule node_update_shape [OF K(1), of _ "[]" d ?n2]) (use sh2 st2(1) in simp_all)
  have r2: "process_set graph closures st =
     (if fallback = [] then Some st2
      else case getOrCreateDFANode graph fallback st2 of None \<Rightarrow> None
           | Some (st, t) \<Rightarrow> map_option (\<lambda>dfa. st\<lparr>sub_dfa := dfa\<rparr>) (addFallbackTransition d t (sub_dfa st)))"
    using last pop(1) k len1 le by (simp add: process_set_def st0_def st2_def Let_def)
  have root2: "root (sub_dfa st2) = root (sub_dfa st)" using K(2) by (simp add: st2 extends_def st0_def)
  show ?thesis
  proof (cases "fallback = []")
    case True
    with r r2 tab2 root2 show ?thesis by simp
  next
    case False
    obtain st3 t dfa where g: "getOrCreateDFANode graph fallback st2 = Some (st3, t)"
      and a: "addFallbackTransition d t (sub_dfa st3) = Some dfa" and st': "st' = st3\<lparr>sub_dfa := dfa\<rparr>"
      using r r2 False by (auto split: option.splits)
    note G = getOrCreate_shape [OF tab2 g]
    have n3: "nodes (sub_dfa st3) ! d = ?n2"
      using G(2) n1(2) by (auto simp: extends_def st2(1) nth_append)
    let ?n4 = "?n2\<lparr>m_flags := m_flags ?n2 OR HasFallbackTransition\<rparr>"
    have dfa: "dfa = sub_dfa st3\<lparr>dfa_transitions := dfa_transitions (sub_dfa st3) @ [(u8_max, t)], nodes := (nodes (sub_dfa st3))[d := ?n4]\<rparr>"
      using a n3 by (auto simp: addFallbackTransition_def Let_def split: if_splits)
    have len3: "length (dfa_transitions (sub_dfa st3)) = ?start + ?len"
      using G(4) K(3) by (simp add: st2(1) st0_def)
    have n4: "m_transitionsStart ?n4 = ?start" "transitionsLength ?n4 = ?len" "isKilled ?n4 = isKilled ?n2"
      using n2 by (simp_all add: transitionsLength_def bit_flags(2) HasFallbackTransition_def bit_simps)
    have "node_transitions dfa ?n4 = trs"
      using n4 G(4) K(3) by (simp add: node_transitions_def dfa st2(1) st0_def)
    moreover have "length (nodes dfa) = length (nodes (sub_dfa st3))" by (simp add: dfa)
    moreover have "length (nodes (sub_dfa st1)) \<le> length (nodes (sub_dfa st3))" using G(2) by (auto simp: extends_def st2(1))
    ultimately have "node_shape dfa ?n4"
      using n4 n2(1) K(4,5) len3 G(3) unfolding node_shape_def
      by (auto simp: dfa) (auto simp: dfa nth_append intro: less_le_trans)
    then have "table_ok (st3\<lparr>sub_dfa := dfa\<rparr>)"
      by (intro node_update_shape [OF G(1), of _ "[(u8_max, t)]" d ?n4]) (simp_all add: dfa)
    with st' G(2) root2 dfa show ?thesis by (simp add: extends_def)
  qed
qed

section \<open>The result\<close>

lemma convert_loop_shape:
  assumes ok: "graph_ok A" and cl: "closures_ok A graph closures"
  shows "sinv A {} st \<Longrightarrow> table_ok st \<Longrightarrow> convert_loop fuel graph closures st = Returned dfa \<Longrightarrow>
     dfa_shape dfa \<and> root dfa = root (sub_dfa st) \<and> length (nodes (sub_dfa st)) \<le> length (nodes dfa)"
proof (induction fuel arbitrary: st)
  case 0
  then show ?case by (auto simp: convert_loop.simps table_ok_def split: if_splits)
next
  case (Suc fuel)
  show ?case
  proof (cases "unprocessedNodes st = []")
    case True
    with Suc.prems show ?thesis by (auto simp: convert_loop.simps table_ok_def)
  next
    case False
    then obtain st' where p: "process_set graph closures st = Some st'" "convert_loop fuel graph closures st' = Returned dfa"
      using Suc.prems(3) by (auto simp: convert_loop.simps [of "Suc fuel"] split: option.splits)
    have "sinv A {} st'" by (rule process_set_correct(1) [OF ok cl Suc.prems(1) False p(1)])
    moreover note P = process_set_shape [OF ok cl Suc.prems(1,2) False p(1)]
    moreover have "length (nodes (sub_dfa st)) \<le> length (nodes (sub_dfa st'))"
      using process_set_correct(2) [OF ok cl Suc.prems(1) False p(1)] by (simp add: grows_def)
    ultimately show ?thesis using Suc.IH [OF _ _ p(2)] by auto
  qed
qed

lemma dfa_shape_wf:
  assumes "dfa_shape dfa" "root dfa < length (nodes dfa)"
  shows "dfa_wf dfa"
proof -
  have live: "live dfa i" if "i < length (nodes dfa)" for i
    using assms(1) that by (auto simp: live_def dfa_shape_def node_shape_def)
  have "node_wf dfa n" if "n \<in> set (nodes dfa)" for n
  proof -
    have sh: "node_shape dfa n" using assms(1) that by (simp add: dfa_shape_def)
    then have "hasFallbackTransition n \<Longrightarrow> \<exists>t. fallbackTransitionDestination dfa n = Some t \<and> live dfa t"
      by (auto simp: node_shape_def fallbackTransitionDestination_def Let_def intro: live)
    with sh live show ?thesis by (auto simp: node_shape_def node_wf_def)
  qed
  then show ?thesis using live [OF assms(2)] by (auto simp: dfa_wf_def live_def)
qed

lemma convert_wf:
  assumes ok: "graph_ok A" and r: "NFAToDFA_convert fuel A = Returned dfa"
  shows "dfa_wf dfa \<and> dfa_shape dfa \<and> root dfa = 0"
proof -
  obtain graph closures s where start: "closures_ok A graph closures"
    "NFAToDFA_convert fuel A =
       (case getOrCreateDFANode graph s start_state of None \<Rightarrow> Crashed | Some (st, _) \<Rightarrow> convert_loop fuel graph closures st)"
    "\<And>st t. getOrCreateDFANode graph s start_state = Some (st, t) \<Longrightarrow> sinv A {} st \<and> unprocessedNodes st = [(s, 0)]"
    using convert_start [where fuel = fuel, OF ok] by metis
  obtain st t where g: "getOrCreateDFANode graph s start_state = Some (st, t)" "convert_loop fuel graph closures st = Returned dfa"
    using r start(2) by (auto split: option.splits)
  have tab0: "table_ok start_state" by (simp add: table_ok_def dfa_shape_def new_DFA_def)
  note G = getOrCreate_shape [OF tab0 g(1)]
  have L: "dfa_shape dfa" "root dfa = 0" "t < length (nodes dfa)"
    using convert_loop_shape [OF ok start(1) _ G(1) g(2)] start(3) [OF g(1)] G(2,3) by (auto simp: extends_def new_DFA_def)
  from L(2,3) have "root dfa < length (nodes dfa)" by linarith
  with L(1,2) dfa_shape_wf [OF L(1)] show ?thesis by simp
qed

end
