(* ===== verification/CE_Interpreter.thy ===== *)
theory CE_Interpreter
  imports CE_Bytecode CE_Subset
begin

text \<open>
  The bytecode interpreter (\<open>contentextensions/DFABytecodeInterpreter.cpp\<close>).

  The URL is a C string: bytes with a NUL behind the last one. \<open>char\<close> is signed, as on the
  platforms of the port, so a byte above 127 compares as a negative number. The loop over the
  instructions ends on correctly compiled bytecode only; it has fuel, and reading an instruction
  that is not inside the bytecode, or is none, is a crash. The loop over the actions of the root ends
  at an instruction it does not know, as the code does, and also at one that is not inside the
  bytecode, where the code would read on or fail an assertion; the compiler makes no such bytecode.
  A byte behind the NUL of the URL reads as zero: \<open>Jump\<close> looks at it before it tests for the end of
  the string, with the same result for whatever is there.
\<close>

section \<open>Actions\<close>

definition interpretAppendAction :: "u8 list \<Rightarrow> nat \<Rightarrow> u64 list \<Rightarrow> nat \<times> u64 list" where
  "interpretAppendAction bytecode programCounter acts =
     (programCounter + instructionSizeWithArguments AppendAction,
      hs_add (ucast (get32 bytecode (programCounter + 1))) acts)"

definition interpretTestFlagsAndAppendAction :: "u8 list \<Rightarrow> u16 \<Rightarrow> nat \<Rightarrow> u64 list \<Rightarrow> nat \<times> u64 list" where
  "interpretTestFlagsAndAppendAction bytecode flags programCounter acts =
     (programCounter + instructionSizeWithArguments TestFlagsAndAppendAction,
      if flags AND get16 bytecode (programCounter + 1) \<noteq> 0
      then hs_add (ucast (get32 bytecode (programCounter + 1 + 2))) acts else acts)"

definition fetch :: "u8 list \<Rightarrow> nat \<Rightarrow> DFABytecodeInstruction option" where
  "fetch bytecode programCounter =
     (if programCounter < length bytecode then
        case instruction_of_byte (bytecode ! programCounter) of
          None \<Rightarrow> None
        | Some i \<Rightarrow> if programCounter + instructionSizeWithArguments i \<le> length bytecode then Some i else None
      else None)"

lemma instruction_size_pos: "0 < instructionSizeWithArguments i"
  by (cases i) simp_all

text \<open>The loop of \<open>actionsFromDFARoot\<close> from the given program counter.\<close>

function root_actions :: "u8 list \<Rightarrow> nat \<Rightarrow> nat \<Rightarrow> u64 list \<Rightarrow> u64 list" where
  "root_actions bytecode dfaBytecodeLength programCounter acts =
     (if programCounter < dfaBytecodeLength then
        case fetch bytecode programCounter of
          Some AppendAction \<Rightarrow>
            let (programCounter, acts) = interpretAppendAction bytecode programCounter acts
            in root_actions bytecode dfaBytecodeLength programCounter acts
        | Some TestFlagsAndAppendAction \<Rightarrow>
            root_actions bytecode dfaBytecodeLength
              (programCounter + instructionSizeWithArguments TestFlagsAndAppendAction) acts
        | _ \<Rightarrow> acts
      else acts)"
  by pat_completeness auto
termination
  by (relation "measure (\<lambda>(_, dfaBytecodeLength, programCounter, _). dfaBytecodeLength - programCounter)")
    (auto simp: interpretAppendAction_def)

definition actionsFromDFARoot :: "u8 list \<Rightarrow> u64 list" where
  "actionsFromDFARoot bytecode = root_actions bytecode (unat (get32 bytecode 0)) 4 []"

text \<open>
  \<open>interpret\<close> starts the first automaton behind the acts of its root; it runs those with flags
  and skips the others.
\<close>

function skip_root_actions :: "u8 list \<Rightarrow> u16 \<Rightarrow> nat \<Rightarrow> nat \<Rightarrow> u64 list \<Rightarrow> nat \<times> u64 list" where
  "skip_root_actions bytecode flags dfaBytecodeLength programCounter acts =
     (if programCounter < dfaBytecodeLength then
        case fetch bytecode programCounter of
          Some AppendAction \<Rightarrow>
            skip_root_actions bytecode flags dfaBytecodeLength (programCounter + instructionSizeWithArguments AppendAction) acts
        | Some TestFlagsAndAppendAction \<Rightarrow>
            let (programCounter, acts) = interpretTestFlagsAndAppendAction bytecode flags programCounter acts
            in skip_root_actions bytecode flags dfaBytecodeLength programCounter acts
        | _ \<Rightarrow> (programCounter, acts)
      else (programCounter, acts))"
  by pat_completeness auto
termination
  by (relation "measure (\<lambda>(_, _, dfaBytecodeLength, programCounter, _). dfaBytecodeLength - programCounter)")
    (auto simp: interpretTestFlagsAndAppendAction_def)

declare root_actions.simps [simp del] skip_root_actions.simps [simp del]

section \<open>Running one automaton\<close>

record interpreter =
  programCounter :: nat
  urlIndex :: nat
  urlIndexIsAfterEndOfString :: bool
  triggeredActions :: "u64 list"

definition url_byte :: "nat list \<Rightarrow> nat \<Rightarrow> nat" where
  "url_byte url i = (if i < length url then url ! i else 0)"

definition char_of_byte :: "nat \<Rightarrow> int" where
  "char_of_byte b = (if b < 128 then int b else int b - 256)"

text \<open>A jump along an edge of the automaton; reading NUL passes the end of the string.\<close>

definition take_edge :: "u8 list \<Rightarrow> nat \<Rightarrow> nat \<Rightarrow> int \<Rightarrow> interpreter \<Rightarrow> interpreter" where
  "take_edge bytecode dfaStart at character st =
     st\<lparr>programCounter := dfaStart + unat (get32 bytecode at),
        urlIndexIsAfterEndOfString := (character = 0 \<or> urlIndexIsAfterEndOfString st),
        urlIndex := urlIndex st + 1\<rparr>"

definition advance :: "DFABytecodeInstruction \<Rightarrow> interpreter \<Rightarrow> interpreter" where
  "advance i st = st\<lparr>programCounter := programCounter st + instructionSizeWithArguments i\<rparr>"

text \<open>One pass of the inner loop: the next state, \<open>goto nextDFA\<close>, or the crash on bad bytecode.\<close>

datatype step_result = Next interpreter | NextDFA | InvalidBytecode

definition checkValue :: "u8 list \<Rightarrow> nat \<Rightarrow> DFABytecodeInstruction \<Rightarrow> int \<Rightarrow> interpreter \<Rightarrow> step_result" where
  "checkValue bytecode dfaStart i character st =
     (if urlIndexIsAfterEndOfString st then NextDFA
      else if character = uint (bytecode ! (programCounter st + 1))
      then Next (take_edge bytecode dfaStart (programCounter st + 1 + 1) character st)
      else Next (advance i st))"

definition checkValueRange :: "u8 list \<Rightarrow> nat \<Rightarrow> DFABytecodeInstruction \<Rightarrow> int \<Rightarrow> interpreter \<Rightarrow> step_result" where
  "checkValueRange bytecode dfaStart i character st =
     (if urlIndexIsAfterEndOfString st then NextDFA
      else if uint (bytecode ! (programCounter st + 1)) \<le> character \<and> character \<le> uint (bytecode ! (programCounter st + 1 + 1))
      then Next (take_edge bytecode dfaStart (programCounter st + 1 + 1 + 1) character st)
      else Next (advance i st))"

definition interpret_instruction :: "u8 list \<Rightarrow> nat list \<Rightarrow> u16 \<Rightarrow> nat \<Rightarrow> interpreter \<Rightarrow> step_result" where
  "interpret_instruction bytecode url flags dfaStart st =
     (let byte = url_byte url (urlIndex st)
      in case fetch bytecode (programCounter st) of
           None \<Rightarrow> InvalidBytecode
         | Some Terminate \<Rightarrow> NextDFA
         | Some CheckValueCaseSensitive \<Rightarrow>
             checkValue bytecode dfaStart CheckValueCaseSensitive (char_of_byte byte) st
         | Some CheckValueCaseInsensitive \<Rightarrow>
             checkValue bytecode dfaStart CheckValueCaseInsensitive (char_of_byte (toASCIILower byte)) st
         | Some CheckValueRangeCaseSensitive \<Rightarrow>
             checkValueRange bytecode dfaStart CheckValueRangeCaseSensitive (char_of_byte byte) st
         | Some CheckValueRangeCaseInsensitive \<Rightarrow>
             checkValueRange bytecode dfaStart CheckValueRangeCaseInsensitive (char_of_byte (toASCIILower byte)) st
         | Some Jump \<Rightarrow>
             if byte = 0 \<or> urlIndexIsAfterEndOfString st then NextDFA
             else Next (st\<lparr>programCounter := dfaStart + unat (get32 bytecode (programCounter st + 1)),
                           urlIndex := urlIndex st + 1\<rparr>)
         | Some AppendAction \<Rightarrow>
             (let (pc, acts) = interpretAppendAction bytecode (programCounter st) (triggeredActions st)
              in Next (st\<lparr>programCounter := pc, triggeredActions := acts\<rparr>))
         | Some TestFlagsAndAppendAction \<Rightarrow>
             (let (pc, acts) = interpretTestFlagsAndAppendAction bytecode flags (programCounter st) (triggeredActions st)
              in Next (st\<lparr>programCounter := pc, triggeredActions := acts\<rparr>)))"

fun interpret_dfa :: "nat \<Rightarrow> u8 list \<Rightarrow> nat list \<Rightarrow> u16 \<Rightarrow> nat \<Rightarrow> interpreter \<Rightarrow> u64 list outcome" where
  "interpret_dfa 0 bytecode url flags dfaStart st = OutOfFuel"
| "interpret_dfa (Suc fuel) bytecode url flags dfaStart st =
     (case interpret_instruction bytecode url flags dfaStart st of
        Next st \<Rightarrow> interpret_dfa fuel bytecode url flags dfaStart st
      | NextDFA \<Rightarrow> Returned (triggeredActions st)
      | InvalidBytecode \<Rightarrow> Crashed)"

section \<open>Running all automata\<close>

definition start_state_of :: "nat \<Rightarrow> u64 list \<Rightarrow> interpreter" where
  "start_state_of pc acts =
     \<lparr>programCounter = pc, urlIndex = 0, urlIndexIsAfterEndOfString = False, triggeredActions = acts\<rparr>"

text \<open>The outer loop, with fuel for the number of automata; each automaton gets the fuel \<open>n\<close>.\<close>

fun interpret_loop :: "nat \<Rightarrow> nat \<Rightarrow> u8 list \<Rightarrow> nat list \<Rightarrow> u16 \<Rightarrow> nat \<Rightarrow> u64 list \<Rightarrow> u64 list outcome" where
  "interpret_loop fuel n bytecode url flags dfaStart acts =
     (if length bytecode \<le> dfaStart then Returned acts
      else case fuel of
        0 \<Rightarrow> OutOfFuel
      | Suc fuel \<Rightarrow>
          let dfaBytecodeLength = unat (get32 bytecode dfaStart);
              (pc, acts) = (if dfaStart = 0 then skip_root_actions bytecode flags dfaBytecodeLength (dfaStart + 4) acts
                               else (dfaStart + 4, acts))
          in if dfaStart = 0 \<and> length bytecode \<le> pc then Returned acts
             else case interpret_dfa n bytecode url flags dfaStart (start_state_of pc acts) of
                    Returned acts \<Rightarrow>
                      interpret_loop fuel n bytecode url flags (dfaStart + dfaBytecodeLength) acts
                  | Crashed \<Rightarrow> Crashed
                  | OutOfFuel \<Rightarrow> OutOfFuel)"

declare interpret_loop.simps [simp del]

definition DFABytecodeInterpreter_interpret :: "nat \<Rightarrow> nat \<Rightarrow> u8 list \<Rightarrow> nat list \<Rightarrow> u16 \<Rightarrow> u64 list outcome" where
  "DFABytecodeInterpreter_interpret fuel n bytecode url flags = interpret_loop fuel n bytecode url flags 0 []"

end
