(* ===== verification/CE_Bytecode_Run.thy ===== *)
theory CE_Bytecode_Run
  imports CE_Bytecode_Link CE_Interpreter
begin

text \<open>
  The interpreter on compiled bytecode runs the automaton: from the block of a node it collects the
  actions of the node and takes the transition of the next character.
\<close>

section \<open>Fetching\<close>

lemma instruction_of_byte_inverse [simp]: "instruction_of_byte (instruction_byte i) = Some i"
  by (cases i) (simp_all add: instruction_of_byte_def)

lemma fetch_at:
  "p = length xs \<Longrightarrow> fetch (xs @ code_bytes T c @ ys) p = Some (code_instr c)"
proof -
  assume p: "p = length xs"
  have "code_bytes T c \<noteq> []" "hd (code_bytes T c) = instruction_byte (code_instr c)"
    by (simp_all add: code_bytes_def code_head_def)
  then have "(xs @ code_bytes T c @ ys) ! p = instruction_byte (code_instr c)"
    using p by (cases "code_bytes T c") (auto simp: nth_append)
  moreover have "0 < code_size c" by (simp add: code_size_def instruction_size_pos)
  ultimately show ?thesis using p by (simp add: fetch_def) (simp add: code_size_def)
qed

section \<open>What a block does\<close>

text \<open>The outcome of a list of instructions on one byte: an edge to a node, or the end of the automaton.\<close>

datatype block_result = Edge nat "u64 list" | Stop "u64 list" | Stuck

fun code_matches :: "nat \<Rightarrow> code \<Rightarrow> bool" where
  "code_matches byte (CCheck cased v d) \<longleftrightarrow>
     char_of_byte (if cased then byte else toASCIILower byte) = uint v"
| "code_matches byte (CRange cased lo hi d) \<longleftrightarrow>
     uint lo \<le> char_of_byte (if cased then byte else toASCIILower byte) \<and>
     char_of_byte (if cased then byte else toASCIILower byte) \<le> uint hi"
| "code_matches byte c \<longleftrightarrow> False"

fun add_action :: "u16 \<Rightarrow> code \<Rightarrow> u64 list \<Rightarrow> u64 list" where
  "add_action flags (CAction a) acts = hs_add (ucast a) acts"
| "add_action flags (CTest f a) acts = (if flags AND f \<noteq> 0 then hs_add (ucast a) acts else acts)"
| "add_action flags c acts = acts"

fun is_action :: "code \<Rightarrow> bool" where
  "is_action (CAction a) = True"
| "is_action (CTest f a) = True"
| "is_action c = False"

fun exec :: "u16 \<Rightarrow> nat \<Rightarrow> bool \<Rightarrow> code list \<Rightarrow> u64 list \<Rightarrow> block_result" where
  "exec flags byte after [] acts = Stuck"
| "exec flags byte after (c # cs) acts =
     (if is_action c then exec flags byte after cs (add_action flags c acts)
      else case c of
        CTerm \<Rightarrow> Stop acts
      | CJump d \<Rightarrow> (if byte = 0 \<or> after then Stop acts else Edge d acts)
      | _ \<Rightarrow> if after then Stop acts
             else if code_matches byte c then Edge (the (code_dest c)) acts
             else exec flags byte after cs acts)"

definition edge_state :: "nat \<Rightarrow> (nat \<Rightarrow> u32) \<Rightarrow> nat \<Rightarrow> nat \<Rightarrow> u64 list \<Rightarrow> interpreter \<Rightarrow> interpreter" where
  "edge_state dfaStart T byte d acts st =
     \<lparr>programCounter = dfaStart + unat (T d), urlIndex = urlIndex st + 1,
      urlIndexIsAfterEndOfString = (byte = 0 \<or> urlIndexIsAfterEndOfString st), triggeredActions = acts\<rparr>"

lemma char_zero: "byte < 256 \<Longrightarrow> char_of_byte byte = 0 \<longleftrightarrow> byte = 0"
  "byte < 256 \<Longrightarrow> char_of_byte (toASCIILower byte) = 0 \<longleftrightarrow> byte = 0"
  by (auto simp: char_of_byte_def toASCIILower_eq isASCIIUpper_def)

text \<open>The two instructions that add actions.\<close>

lemma action_at:
  assumes b: "bytecode = xs @ code_bytes T c @ ys"
  shows "c = CAction a \<Longrightarrow> p = length xs \<Longrightarrow>
       interpretAppendAction bytecode p acts = (p + code_size c, hs_add (ucast a) acts)"
    and "c = CTest w a \<Longrightarrow> p = length xs \<Longrightarrow>
       interpretTestFlagsAndAppendAction bytecode flags p acts = (p + code_size c, add_action flags c acts)"
proof -
  assume c: "c = CAction a" "p = length xs"
  have "get32 bytecode (Suc (length xs)) = a"
    using get32_at [of "Suc (length xs)" "xs @ [instruction_byte AppendAction]" a ys] b c
    by (simp add: code_bytes_def code_head_def)
  with c show "interpretAppendAction bytecode p acts = (p + code_size c, hs_add (ucast a) acts)"
    by (simp add: interpretAppendAction_def code_size_def)
next
  assume c: "c = CTest w a" "p = length xs"
  have "get32 bytecode (Suc (Suc (Suc (length xs)))) = a"
    using get32_at [of "Suc (Suc (Suc (length xs)))" "xs @ instruction_byte TestFlagsAndAppendAction # bytes16 w" a ys] b c
    by (simp add: code_bytes_def code_head_def)
  moreover have "get16 bytecode (Suc (length xs)) = w"
    using get16_at [of "Suc (length xs)" "xs @ [instruction_byte TestFlagsAndAppendAction]" w "bytes32 a @ ys"] b c
    by (simp add: code_bytes_def code_head_def)
  ultimately show "interpretTestFlagsAndAppendAction bytecode flags p acts = (p + code_size c, add_action flags c acts)"
    using c by (simp add: interpretTestFlagsAndAppendAction_def code_size_def)
qed

text \<open>One instruction.\<close>

lemma step_code:
  assumes b: "bytecode = xs @ code_bytes T c @ ys" and pc: "programCounter st = length xs"
    and byte: "byte = url_byte url (urlIndex st)" "byte < 256"
  shows "interpret_instruction bytecode url flags dfaStart st =
     (if is_action c then Next (st\<lparr>programCounter := length xs + code_size c, triggeredActions := add_action flags c (triggeredActions st)\<rparr>)
      else case c of
        CTerm \<Rightarrow> NextDFA
      | CJump d \<Rightarrow> (if byte = 0 \<or> urlIndexIsAfterEndOfString st then NextDFA
                   else Next (edge_state dfaStart T byte d (triggeredActions st) st))
      | _ \<Rightarrow> if urlIndexIsAfterEndOfString st then NextDFA
             else if code_matches byte c then Next (edge_state dfaStart T byte (the (code_dest c)) (triggeredActions st) st)
             else Next (st\<lparr>programCounter := length xs + code_size c\<rparr>))"
proof -
  have f: "fetch bytecode (programCounter st) = Some (code_instr c)" using b pc by (simp add: fetch_at)
  have g32: "get32 bytecode (length xs + length h) = w" if "code_bytes T c = h @ bytes32 w @ t" for h w t
    using get32_at [of "length xs + length h" "xs @ h" w "t @ ys"] b that by simp
  have g16: "get16 bytecode (length xs + length h) = w" if "code_bytes T c = h @ bytes16 w @ t" for h w t
    using get16_at [of "length xs + length h" "xs @ h" w "t @ ys"] b that by simp
  have nth: "bytecode ! (length xs + j) = code_bytes T c ! j" if "j < code_size c" for j
    using b that by (simp add: nth_append)
  show ?thesis
  proof (cases c)
    case (CCheck cased v d)
    have l: "get32 bytecode (Suc (Suc (length xs))) = T d"
      using g32 [of "code_head c" "T d" "[]"] CCheck by (simp add: code_bytes_def code_head_def)
    have v: "bytecode ! Suc (length xs) = v"
      using nth [of 1] CCheck by (simp add: code_size_def code_bytes_def code_head_def split: if_splits)
    show ?thesis
      using f CCheck l v pc char_zero [OF byte(2)]
      by (auto simp: interpret_instruction_def checkValue_def take_edge_def advance_def edge_state_def code_size_def Let_def
          simp flip: byte(1))
  next
    case (CRange cased lo hi d)
    have l: "get32 bytecode (Suc (Suc (Suc (length xs)))) = T d"
      using g32 [of "code_head c" "T d" "[]"] CRange by (simp add: code_bytes_def code_head_def numeral_3_eq_3)
    have v: "bytecode ! Suc (length xs) = lo" "bytecode ! Suc (Suc (length xs)) = hi"
      using nth [of 1] nth [of 2] CRange by (simp_all add: code_size_def code_bytes_def code_head_def split: if_splits)
    show ?thesis
      using f CRange l v pc char_zero [OF byte(2)]
      by (auto simp: interpret_instruction_def checkValueRange_def take_edge_def advance_def edge_state_def code_size_def Let_def
          simp flip: byte(1))
  next
    case (CAction a)
    with f action_at(1) [OF b CAction pc] show ?thesis
      by (simp add: interpret_instruction_def pc Let_def)
  next
    case (CTest w a)
    with f action_at(2) [OF b CTest pc] show ?thesis
      by (simp add: interpret_instruction_def pc Let_def)
  next
    case CTerm
    with f show ?thesis by (simp add: interpret_instruction_def Let_def)
  next
    case (CJump d)
    have "get32 bytecode (Suc (length xs)) = T d"
      using g32 [of "code_head c" "T d" "[]"] CJump by (simp add: code_bytes_def code_head_def)
    with f CJump pc show ?thesis
      by (auto simp: interpret_instruction_def edge_state_def Let_def simp flip: byte(1))
  qed
qed

text \<open>A block.\<close>

lemma run_block:
  assumes byte: "byte = url_byte url (urlIndex st)" "byte < 256"
  shows "bytecode = xs @ codes_bytes T cs @ ys \<Longrightarrow> programCounter st = length xs \<Longrightarrow>
     exec flags byte (urlIndexIsAfterEndOfString st) cs (triggeredActions st) = r \<Longrightarrow> r \<noteq> Stuck \<Longrightarrow>
     \<exists>k \<le> length cs. \<forall>f. interpret_dfa (k + f) bytecode url flags dfaStart st =
       (case r of Edge d acts \<Rightarrow> interpret_dfa f bytecode url flags dfaStart (edge_state dfaStart T byte d acts st)
        | Stop acts \<Rightarrow> Returned acts | Stuck \<Rightarrow> Crashed)"
  using byte
proof (induction cs arbitrary: xs st)
  case (Cons c cs)
  let ?after = "urlIndexIsAfterEndOfString st" and ?acts = "triggeredActions st"
  have b: "bytecode = xs @ code_bytes T c @ (codes_bytes T cs @ ys)" using Cons.prems(1) by simp
  note step = step_code [OF b Cons.prems(2,5,6), of flags dfaStart]
  have again: "\<exists>k \<le> length (c # cs). \<forall>f. interpret_dfa (k + f) bytecode url flags dfaStart st =
       (case r of Edge d acts \<Rightarrow> interpret_dfa f bytecode url flags dfaStart (edge_state dfaStart T byte d acts st)
        | Stop acts \<Rightarrow> Returned acts | Stuck \<Rightarrow> Crashed)"
    if st': "interpret_instruction bytecode url flags dfaStart st = Next st'" "programCounter st' = length xs + code_size c"
      "urlIndexIsAfterEndOfString st' = ?after" "urlIndex st' = urlIndex st"
      "exec flags byte ?after cs (triggeredActions st') = r" for st'
  proof -
    have "\<exists>k \<le> length cs. \<forall>f. interpret_dfa (k + f) bytecode url flags dfaStart st' =
       (case r of Edge d acts \<Rightarrow> interpret_dfa f bytecode url flags dfaStart (edge_state dfaStart T byte d acts st')
        | Stop acts \<Rightarrow> Returned acts | Stuck \<Rightarrow> Crashed)"
      by (rule Cons.IH [of "xs @ code_bytes T c"]) (use Cons.prems st' in simp_all)
    then obtain k where k: "k \<le> length cs" "\<And>f. interpret_dfa (k + f) bytecode url flags dfaStart st' =
       (case r of Edge d acts \<Rightarrow> interpret_dfa f bytecode url flags dfaStart (edge_state dfaStart T byte d acts st')
        | Stop acts \<Rightarrow> Returned acts | Stuck \<Rightarrow> Crashed)" by blast
    have "edge_state dfaStart T byte d acts st' = edge_state dfaStart T byte d acts st" for d acts
      using st' by (simp add: edge_state_def)
    with k st'(1) show ?thesis by (intro exI [of _ "Suc k"]) (cases r; simp)
  qed
  have stop: ?case if "interpret_instruction bytecode url flags dfaStart st = NextDFA" "r = Stop ?acts"
    by (rule exI [of _ 1]) (use that in simp)
  have edge: ?case if "interpret_instruction bytecode url flags dfaStart st = Next (edge_state dfaStart T byte d ?acts st)"
      "r = Edge d ?acts" for d
    by (rule exI [of _ 1]) (use that in simp)
  show ?case
  proof (cases "is_action c")
    case True
    show ?thesis by (rule again [OF step [unfolded if_P [OF True]]]) (use Cons.prems(3) True in simp_all)
  next
    case False
    note step = step [unfolded if_not_P [OF False]]
    consider (stopped) "c = CTerm" | (jump) d where "c = CJump d" | (check) "\<exists>u v d. c = CCheck u v d \<or> (\<exists>w. c = CRange u v w d)"
      using False by (cases c) auto
    then show ?thesis
    proof cases
      case stopped
      then show ?thesis by (intro stop) (use step Cons.prems(3) in simp_all)
    next
      case (jump d)
      then show ?thesis using stop edge [of d] step Cons.prems(3) by (cases "byte = 0 \<or> ?after") auto
    next
      case check
      then have step: "interpret_instruction bytecode url flags dfaStart st =
         (if ?after then NextDFA
          else if code_matches byte c then Next (edge_state dfaStart T byte (the (code_dest c)) ?acts st)
          else Next (st\<lparr>programCounter := length xs + code_size c\<rparr>))" using step by auto
      have r: "r = (if ?after then Stop ?acts else if code_matches byte c then Edge (the (code_dest c)) ?acts
          else exec flags byte ?after cs ?acts)"
        using check Cons.prems(3) by auto
      show ?thesis
      proof (cases "\<not> ?after \<and> \<not> code_matches byte c")
        case True
        show ?thesis by (rule again [of "st\<lparr>programCounter := length xs + code_size c\<rparr>"]) (use step r True in simp_all)
      next
        case False
        then show ?thesis using stop edge [of "the (code_dest c)"] step r by (cases ?after) auto
      qed
    qed
  qed
qed simp

section \<open>What the block of a node does\<close>

text \<open>The actions a request with the given flags gets from a set of actions with flags.\<close>

definition passes :: "u16 \<Rightarrow> u64 \<Rightarrow> bool" where
  "passes flags a \<longleftrightarrow> (a AND 0xFFFF00000000 \<noteq> 0 \<longrightarrow> flags AND ucast (drop_bit 32 a) \<noteq> 0)"

definition location :: "u64 \<Rightarrow> u64" where
  "location a = ucast (ucast a :: u32)"

definition selected :: "u16 \<Rightarrow> u64 set \<Rightarrow> u64 set" where
  "selected flags S = location ` {a \<in> S. passes flags a}"

lemma selected_Un: "selected flags (S \<union> T) = selected flags S \<union> selected flags T"
  by (auto simp: selected_def)

lemma selected_empty [simp]: "selected flags {} = {}"
  by (simp add: selected_def)

lemma add_action_code: "set (add_action flags (action_code a) acts) = selected flags {a} \<union> set acts"
  by (auto simp: action_code_def selected_def passes_def location_def)

lemma is_action_code [simp]: "is_action (action_code a)"
  by (simp add: action_code_def)

lemma exec_actions:
  "\<exists>acts'. exec flags byte after (map action_code al @ cs) acts = exec flags byte after cs acts' \<and>
     set acts' = set acts \<union> selected flags (set al)"
proof (induction al arbitrary: acts)
  case (Cons a al)
  let ?acts = "add_action flags (action_code a) acts"
  obtain acts' where "exec flags byte after (map action_code al @ cs) ?acts = exec flags byte after cs acts'"
    "set acts' = set ?acts \<union> selected flags (set al)" using Cons.IH [of ?acts] by blast
  moreover have "selected flags (set (a # al)) = selected flags {a} \<union> selected flags (set al)"
    using selected_Un [of flags "{a}" "set al"] by simp
  ultimately show ?case by (auto simp: add_action_code)
next
  case Nil
  show ?case by (rule exI [of _ acts]) simp
qed

lemma of_nat_u8: "n < 256 \<Longrightarrow> uint (of_nat n :: u8) = int n"
  by (simp add: uint_nat)

lemma range_code_matches:
  assumes "range_ok d0 r" "byte < 256"
  shows "code_matches byte (range_code r) \<longleftrightarrow> byte < 128 \<and> range_matches r byte"
proof -
  have r: "range_min r \<le> range_max r" "range_max r < 128" using assms by (auto simp: range_ok_def)
  then have w: "uint (of_nat (range_min r) :: u8) = int (range_min r)" "uint (of_nat (range_max r) :: u8) = int (range_max r)"
    by (simp_all add: of_nat_u8)
  have low: "toASCIILower byte < 128 \<longleftrightarrow> byte < 128"
    using toASCIILower_less [of byte] by (auto simp: toASCIILower_eq isASCIIUpper_def split: if_splits)
  show ?thesis
  proof (cases "byte < 128")
    case True
    with r w low show ?thesis
      by (cases "range_min r = range_max r") (auto simp: range_code_def range_matches_def char_of_byte_def Let_def)
  next
    case False
    then have "toASCIILower byte = byte" by (simp add: toASCIILower_eq isASCIIUpper_def)
    with False assms(2) w show ?thesis
      by (cases "range_min r = range_max r") (auto simp: range_code_def range_matches_def char_of_byte_def Let_def)
  qed
qed

lemma exec_ranges:
  assumes "list_all (range_ok d0) rs" "byte < 256"
  shows "exec flags byte False (map range_code rs @ [final]) acts =
     (case (if byte < 128 then first_match rs byte else None) of
        Some r \<Rightarrow> Edge (range_destination r) acts
      | None \<Rightarrow> exec flags byte False [final] acts)"
  using assms(1)
proof (induction rs)
  case Nil
  show ?case by (simp only: first_match_Nil list.map append_Nil if_cancel option.case)
next
  case (Cons r rs)
  then have m: "code_matches byte (range_code r) \<longleftrightarrow> byte < 128 \<and> range_matches r byte"
    using range_code_matches [OF _ assms(2)] by auto
  have shape: "exec flags byte False (range_code r # cs) acts =
      (if code_matches byte (range_code r) then Edge (range_destination r) acts else exec flags byte False cs acts)" for cs
    by (simp add: range_code_def)
  show ?case
    using Cons m by (simp only: list.map append_Cons shape) (auto simp: first_match_def)
qed

lemma exec_node:
  assumes wf: "node_wf dfa (nodes dfa ! q)" and byte: "byte < 256"
  shows "exec flags byte False (trans_codes dfa (nodes dfa ! q)) acts =
     (case dfa_step dfa q byte of Some t \<Rightarrow> Edge t acts | None \<Rightarrow> Stop acts)"
proof -
  let ?node = "nodes dfa ! q"
  let ?ts = "node_transitions dfa ?node"
  have dist: "distinct (map fst ?ts)" "\<forall>(k, t) \<in> set ?ts. k < 128" using wf by (auto simp: node_wf_def)
  obtain ds where ds: "destination_table ?ts = Some ds" "length ds = 128" "\<forall>c < 128. ds ! c = map_of ?ts c"
    using destination_table_correct [OF dist] by blast
  let ?last = "if hasFallbackTransition ?node then CJump (the (fallbackTransitionDestination dfa ?node)) else CTerm"
  let ?m = "if byte < 128 then first_match (node_ranges ds) byte else None"
  have e: "exec flags byte False (trans_codes dfa ?node) acts =
      (case ?m of Some r \<Rightarrow> Edge (range_destination r) acts | None \<Rightarrow> exec flags byte False [?last] acts)"
    unfolding trans_codes_def ds(1) option.sel by (rule exec_ranges [OF node_ranges_ok [OF ds(2)] byte])
  have m: "map_option range_destination ?m = map_of ?ts byte"
  proof (cases "byte < 128")
    case True
    with node_ranges_correct [OF ds(2) True] ds(3) show ?thesis by simp
  next
    case False
    then have "map_of ?ts byte = None" using dist(2) by (force simp: map_of_eq_None_iff)
    with False show ?thesis by simp
  qed
  have fb: "exec flags byte False [?last] acts =
      (case (if byte = 0 then None else fallbackTransitionDestination dfa ?node) of Some t \<Rightarrow> Edge t acts | None \<Rightarrow> Stop acts)"
  proof (cases "hasFallbackTransition ?node")
    case True
    then obtain t where "fallbackTransitionDestination dfa ?node = Some t" using wf by (auto simp: node_wf_def)
    with True show ?thesis by simp
  next
    case False
    then show ?thesis by (simp add: fallbackTransitionDestination_def Let_def)
  qed
  show ?thesis
  proof (cases ?m)
    case None
    with m have "map_of ?ts byte = None" by simp
    with e fb None show ?thesis by (simp add: dfa_step_def Let_def)
  next
    case (Some r)
    with m have "map_of ?ts byte = Some (range_destination r)" by simp
    with e Some show ?thesis by (simp add: dfa_step_def Let_def)
  qed
qed

lemma exec_after: "exec flags byte True (trans_codes dfa node) acts = Stop acts"
proof -
  have "exec flags byte True (map range_code rs @ [final]) acts = Stop acts" if "exec flags byte True [final] acts = Stop acts" for rs final
    using that by (cases rs) (auto simp: range_code_def)
  then show ?thesis by (simp add: trans_codes_def)
qed

end
