(* ===== verification/CE_Bytecode_Exec.thy ===== *)
theory CE_Bytecode_Exec
  imports CE_Bytecode_Run
begin

text \<open>
  The interpreter on the bytecode of whole automata: the actions it triggers on a URL are those of
  the runs of the automata, and the fuel it needs.
\<close>

section \<open>The block of a node\<close>

text \<open>The bytes of one automaton. Jumps to the root skip the actions of the root.\<close>

definition dfa_bytes :: "DFA \<Rightarrow> u8 list" where
  "dfa_bytes dfa = bytes32 (of_nat (program_size dfa)) @ codes_bytes (node_position dfa) (program dfa)"

definition small_dfa :: "DFA \<Rightarrow> bool" where
  "small_dfa dfa \<longleftrightarrow> dfa_wf dfa \<and> program_size dfa < 4294967295"

definition node_codes :: "DFA \<Rightarrow> nat \<Rightarrow> code list" where
  "node_codes dfa q = (if q = root dfa then [] else act_codes dfa (nodes dfa ! q)) @ trans_codes dfa (nodes dfa ! q)"

definition entered_out :: "DFA \<Rightarrow> nat \<Rightarrow> u64 set" where
  "entered_out dfa q = (if q = root dfa then {} else dfa_out dfa q)"

lemma length_dfa_bytes [simp]: "length (dfa_bytes dfa) = program_size dfa"
  by (simp add: dfa_bytes_def program_size_def)

lemma seg_live: "live dfa q \<Longrightarrow> seg dfa q = act_codes dfa (nodes dfa ! q) @ trans_codes dfa (nodes dfa ! q)"
  by (simp add: seg_def live_def)

lemma position_unat: "p = of_nat n \<Longrightarrow> n < 4294967296 \<Longrightarrow> unat (p :: u32) = n"
  by (simp only: unat_of_nat_sizes)

lemma node_block:
  assumes "small_dfa dfa" "live dfa q"
  shows "\<exists>xs ys. program dfa = xs @ node_codes dfa q @ ys \<and> unat (node_position dfa q) = 4 + codes_size xs"
proof -
  have size: "program_size dfa < 4294967295" using assms by (simp add: small_dfa_def)
  show ?thesis
  proof (cases "q = root dfa")
    case True
    have p: "program dfa = act_codes dfa (nodes dfa ! q) @ node_codes dfa q @ concat (map (seg dfa) (other_nodes dfa))"
      using seg_live [OF assms(2)] True by (simp add: program_def node_codes_def)
    then have "4 + codes_size (act_codes dfa (nodes dfa ! q)) < 4294967296" using size by (simp add: program_size_def)
    then have "unat (node_position dfa q) = 4 + codes_size (act_codes dfa (nodes dfa ! q))"
      by (rule position_unat [OF root_position [of dfa, folded True, OF assms(2)]])
    with p show ?thesis by blast
  next
    case False
    then obtain pre post where p: "program dfa = pre @ seg dfa q @ post" "node_position dfa q = of_nat (4 + codes_size pre)"
      using block_position [OF assms(2)] by blast
    then have "4 + codes_size pre < 4294967296" using size by (simp add: program_size_def)
    then have "unat (node_position dfa q) = 4 + codes_size pre" by (rule position_unat [OF p(2)])
    moreover have "seg dfa q = node_codes dfa q" using seg_live [OF assms(2)] False by (simp add: node_codes_def)
    ultimately show ?thesis using p(1) by auto
  qed
qed

lemma dfa_step_live:
  assumes "dfa_wf dfa" "live dfa q" "dfa_step dfa q c = Some t"
  shows "live dfa t"
proof -
  have "node_wf dfa (nodes dfa ! q)" using assms by (simp add: dfa_wf_def)
  then show ?thesis
    using assms(3) by (auto simp: dfa_step_def node_wf_def Let_def fallbackTransitionDestination_def
        split: option.splits if_splits dest!: map_of_SomeD)
qed

section \<open>Running from node to node\<close>

definition node_state :: "DFA \<Rightarrow> nat \<Rightarrow> nat \<Rightarrow> nat \<Rightarrow> bool \<Rightarrow> u64 list \<Rightarrow> interpreter" where
  "node_state dfa dfaStart q i after acts =
     \<lparr>programCounter = dfaStart + unat (node_position dfa q), urlIndex = i, urlIndexIsAfterEndOfString = after,
      triggeredActions = acts\<rparr>"

lemma exec_codes_node:
  assumes "node_wf dfa (nodes dfa ! q)" "byte < 256"
  shows "\<exists>acts'. set acts' = set acts \<union> selected flags (dfa_out dfa q) \<and>
     exec flags byte after (act_codes dfa (nodes dfa ! q) @ trans_codes dfa (nodes dfa ! q)) acts =
       (if after then Stop acts' else case dfa_step dfa q byte of Some t \<Rightarrow> Edge t acts' | None \<Rightarrow> Stop acts')"
proof -
  obtain acts' where "exec flags byte after (act_codes dfa (nodes dfa ! q) @ trans_codes dfa (nodes dfa ! q)) acts =
      exec flags byte after (trans_codes dfa (nodes dfa ! q)) acts'" "set acts' = set acts \<union> selected flags (dfa_out dfa q)"
    unfolding act_codes_def dfa_out_def using exec_actions by blast
  with exec_node [OF assms] exec_after show ?thesis by (cases after) auto
qed

text \<open>Executing a list of instructions that covers a node, from anywhere in the bytecode.\<close>

lemma run_node_codes:
  assumes bytecode: "bytecode = pre @ codes_bytes (node_position dfa) cs @ post"
    and st: "programCounter st = length pre" "urlIndex st = i" "urlIndexIsAfterEndOfString st = after"
    and cs: "exec flags (url_byte url i) after cs (triggeredActions st) =
       (if after then Stop acts else case dfa_step dfa q (url_byte url i) of Some t \<Rightarrow> Edge t acts | None \<Rightarrow> Stop acts)"
    and byte: "url_byte url i < 256"
  shows "\<exists>k \<le> length cs. \<forall>f. interpret_dfa (k + f) bytecode url flags dfaStart st =
     (if after then Returned acts
      else case dfa_step dfa q (url_byte url i) of
        None \<Rightarrow> Returned acts
      | Some t \<Rightarrow> interpret_dfa f bytecode url flags dfaStart (node_state dfa dfaStart t (i + 1) (url_byte url i = 0) acts))"
proof -
  let ?r = "if after then Stop acts else case dfa_step dfa q (url_byte url i) of Some t \<Rightarrow> Edge t acts | None \<Rightarrow> Stop acts"
  have "\<exists>k \<le> length cs. \<forall>f. interpret_dfa (k + f) bytecode url flags dfaStart st =
       (case ?r of Edge d acts \<Rightarrow> interpret_dfa f bytecode url flags dfaStart (edge_state dfaStart (node_position dfa) (url_byte url i) d acts st)
        | Stop acts \<Rightarrow> Returned acts | Stuck \<Rightarrow> Crashed)"
    by (rule run_block [OF _ byte bytecode st(1)]) (use st cs in \<open>simp_all split: option.splits\<close>)
  then obtain k where k: "k \<le> length cs" "\<And>f. interpret_dfa (k + f) bytecode url flags dfaStart st =
       (case ?r of Edge d acts \<Rightarrow> interpret_dfa f bytecode url flags dfaStart (edge_state dfaStart (node_position dfa) (url_byte url i) d acts st)
        | Stop acts \<Rightarrow> Returned acts | Stuck \<Rightarrow> Crashed)" by blast
  have "\<not> after \<Longrightarrow> edge_state dfaStart (node_position dfa) (url_byte url i) d acts st =
      node_state dfa dfaStart d (i + 1) (url_byte url i = 0) acts" for d acts
    using st by (simp add: edge_state_def node_state_def)
  with k show ?thesis by (intro exI [of _ k]) (auto split: option.splits)
qed

lemma run_node:
  assumes small: "small_dfa dfa" and q: "live dfa q" and byte: "url_byte url i < 256"
    and bytecode: "bytecode = pre @ dfa_bytes dfa @ post"
  shows "\<exists>k acts'. k \<le> length (program dfa) \<and> set acts' = set acts \<union> selected flags (entered_out dfa q) \<and>
     (\<forall>f. interpret_dfa (k + f) bytecode url flags (length pre) (node_state dfa (length pre) q i after acts) =
       (if after then Returned acts'
        else case dfa_step dfa q (url_byte url i) of
          None \<Rightarrow> Returned acts'
        | Some t \<Rightarrow> interpret_dfa f bytecode url flags (length pre) (node_state dfa (length pre) t (i + 1) (url_byte url i = 0) acts')))"
proof -
  obtain xs ys where p: "program dfa = xs @ node_codes dfa q @ ys" "unat (node_position dfa q) = 4 + codes_size xs"
    using node_block [OF small q] by blast
  have wf: "node_wf dfa (nodes dfa ! q)" using small q by (simp add: small_dfa_def dfa_wf_def)
  have "\<exists>acts'. set acts' = set acts \<union> selected flags (entered_out dfa q) \<and>
     exec flags (url_byte url i) after (node_codes dfa q) acts =
       (if after then Stop acts' else case dfa_step dfa q (url_byte url i) of Some t \<Rightarrow> Edge t acts' | None \<Rightarrow> Stop acts')"
  proof (cases "q = root dfa")
    case True
    with exec_node [OF wf byte] exec_after show ?thesis
      by (intro exI [of _ acts]) (auto simp: node_codes_def entered_out_def)
  next
    case False
    with exec_codes_node [OF wf byte, of acts flags after] show ?thesis by (simp add: node_codes_def entered_out_def)
  qed
  then obtain acts' where acts': "set acts' = set acts \<union> selected flags (entered_out dfa q)"
    "exec flags (url_byte url i) after (node_codes dfa q) acts =
       (if after then Stop acts' else case dfa_step dfa q (url_byte url i) of Some t \<Rightarrow> Edge t acts' | None \<Rightarrow> Stop acts')" by blast
  have b: "bytecode = (pre @ bytes32 (of_nat (program_size dfa)) @ codes_bytes (node_position dfa) xs) @
      codes_bytes (node_position dfa) (node_codes dfa q) @ (codes_bytes (node_position dfa) ys @ post)"
    using bytecode p(1) by (simp add: dfa_bytes_def)
  let ?st = "node_state dfa (length pre) q i after acts"
  have "\<exists>k \<le> length (node_codes dfa q). \<forall>f. interpret_dfa (k + f) bytecode url flags (length pre) ?st =
     (if after then Returned acts'
      else case dfa_step dfa q (url_byte url i) of
        None \<Rightarrow> Returned acts'
      | Some t \<Rightarrow> interpret_dfa f bytecode url flags (length pre) (node_state dfa (length pre) t (i + 1) (url_byte url i = 0) acts'))"
    by (rule run_node_codes [OF b]) (use p(2) acts'(2) byte in \<open>simp_all add: node_state_def\<close>)
  moreover have "length (node_codes dfa q) \<le> length (program dfa)" using p(1) by simp
  ultimately show ?thesis using acts'(1) by (meson le_trans)
qed

section \<open>Running an automaton on the URL\<close>

definition url_ok :: "nat list \<Rightarrow> bool" where
  "url_ok url \<longleftrightarrow> list_all (\<lambda>c. c < 256 \<and> c \<noteq> 0) url"

lemma url_byte_less: "url_ok url \<Longrightarrow> url_byte url i < 256"
  by (simp add: url_ok_def url_byte_def list_all_length)

lemma drop_url:
  assumes "i \<le> length url"
  shows "drop i (url @ [0]) = url_byte url i # (if i = length url then [] else drop (Suc i) (url @ [0]))"
proof -
  have "drop i (url @ [0]) = (url @ [0]) ! i # drop (Suc i) (url @ [0])" by (rule Cons_nth_drop_Suc [symmetric]) (use assms in simp)
  then show ?thesis using assms by (auto simp: url_byte_def nth_append)
qed

lemma url_byte_zero: "url_ok url \<Longrightarrow> i \<le> length url \<Longrightarrow> url_byte url i = 0 \<longleftrightarrow> i = length url"
  by (auto simp: url_ok_def url_byte_def list_all_length)

definition dfa_triggers :: "DFA \<Rightarrow> nat list \<Rightarrow> nat \<Rightarrow> nat \<Rightarrow> u64 set" where
  "dfa_triggers dfa url i q = run_out (dfa_step dfa) (entered_out dfa) q (drop i (url @ [0]))"

lemma dfa_triggers_step:
  assumes "i \<le> length url"
  shows "dfa_triggers dfa url i q =
     (case dfa_step dfa q (url_byte url i) of
        None \<Rightarrow> {}
      | Some t \<Rightarrow> entered_out dfa t \<union> (if i = length url then {} else dfa_triggers dfa url (Suc i) t))"
  unfolding dfa_triggers_def by (subst drop_url [OF assms]) (auto split: option.splits)

lemma run_url:
  assumes small: "small_dfa dfa" and url: "url_ok url" and bytecode: "bytecode = pre @ dfa_bytes dfa @ post"
  shows "i \<le> length url \<Longrightarrow> live dfa q \<Longrightarrow>
     \<exists>k acts'. k \<le> (length url - i + 2) * length (program dfa) \<and>
       set acts' = set acts \<union> selected flags (entered_out dfa q) \<union> selected flags (dfa_triggers dfa url i q) \<and>
       (\<forall>f. interpret_dfa (k + f) bytecode url flags (length pre) (node_state dfa (length pre) q i False acts) = Returned acts')"
proof (induction "length url - i" arbitrary: i q acts)
  case less: 0
  then have i: "i = length url" by simp
  have zero: "url_byte url i = 0" using i by (simp add: url_byte_def)
  obtain k acts' where k: "k \<le> length (program dfa)" "set acts' = set acts \<union> selected flags (entered_out dfa q)"
    "\<And>f. interpret_dfa (k + f) bytecode url flags (length pre) (node_state dfa (length pre) q i False acts) =
       (case dfa_step dfa q 0 of
          None \<Rightarrow> Returned acts'
        | Some t \<Rightarrow> interpret_dfa f bytecode url flags (length pre) (node_state dfa (length pre) t (i + 1) True acts'))"
    using run_node [OF small less.prems(2) url_byte_less [OF url] bytecode, where i = i and acts = acts and flags = flags and after = False, unfolded zero if_False simp_thms] by blast
  note tr = dfa_triggers_step [OF less.prems(1), of dfa q, unfolded zero]
  show ?case
  proof (cases "dfa_step dfa q 0")
    case None
    then have "dfa_triggers dfa url i q = {}" using tr by simp
    moreover have "k \<le> (length url - i + 2) * length (program dfa)" using k(1) by simp
    ultimately show ?thesis using k(2,3) None by (intro exI [of _ k] exI [of _ acts']) simp
  next
    case (Some t)
    then have t: "live dfa t" using dfa_step_live less.prems(2) small by (auto simp: small_dfa_def)
    obtain m acts'' where m: "m \<le> length (program dfa)" "set acts'' = set acts' \<union> selected flags (entered_out dfa t)"
      "\<And>f. interpret_dfa (m + f) bytecode url flags (length pre) (node_state dfa (length pre) t (i + 1) True acts') = Returned acts''"
      using run_node [OF small t url_byte_less [OF url] bytecode, where i = "i + 1" and acts = acts' and flags = flags and after = True] by auto
    have "dfa_triggers dfa url i q = entered_out dfa t" using tr Some i by simp
    with k m Some show ?thesis
      by (intro exI [of _ "k + m"] exI [of _ acts'']) (simp add: add.assoc i)
  qed
next
  case (Suc n)
  then have lt: "i < length url" by simp
  then have nzF: "(url_byte url i = 0) = False" using url_byte_zero [OF url, of i] by simp
  obtain k acts' where k: "k \<le> length (program dfa)" "set acts' = set acts \<union> selected flags (entered_out dfa q)"
    "\<And>f. interpret_dfa (k + f) bytecode url flags (length pre) (node_state dfa (length pre) q i False acts) =
       (case dfa_step dfa q (url_byte url i) of
          None \<Rightarrow> Returned acts'
        | Some t \<Rightarrow> interpret_dfa f bytecode url flags (length pre) (node_state dfa (length pre) t (i + 1) False acts'))"
    using run_node [OF small Suc.prems(2) url_byte_less [OF url] bytecode, where i = i and acts = acts and flags = flags and after = False, unfolded nzF if_False] by blast
  note tr = dfa_triggers_step [OF Suc.prems(1), of dfa q]
  show ?case
  proof (cases "dfa_step dfa q (url_byte url i)")
    case None
    then have "dfa_triggers dfa url i q = {}" using tr by simp
    moreover have "k \<le> (length url - i + 2) * length (program dfa)" using k(1) by simp
    ultimately show ?thesis using k(2,3) None by (intro exI [of _ k] exI [of _ acts']) simp
  next
    case (Some t)
    then have t: "live dfa t" using dfa_step_live Suc.prems(2) small by (auto simp: small_dfa_def)
    have n: "n = length url - (i + 1)" "i + 1 \<le> length url" using Suc.hyps(2) lt by simp_all
    obtain m acts'' where m: "m \<le> (length url - (i + 1) + 2) * length (program dfa)"
      "set acts'' = set acts' \<union> selected flags (entered_out dfa t) \<union> selected flags (dfa_triggers dfa url (i + 1) t)"
      "\<And>f. interpret_dfa (m + f) bytecode url flags (length pre) (node_state dfa (length pre) t (i + 1) False acts') = Returned acts''"
      using Suc.hyps(1) [OF n t, of acts'] by blast
    have "dfa_triggers dfa url i q = entered_out dfa t \<union> dfa_triggers dfa url (i + 1) t" using tr Some lt by simp
    then have "set acts'' = set acts \<union> selected flags (entered_out dfa q) \<union> selected flags (dfa_triggers dfa url i q)"
      using k(2) m(2) by (auto simp: selected_Un)
    moreover have "k + m \<le> (length url - i + 2) * length (program dfa)"
    proof -
      have "length url - i = Suc (length url - (i + 1))" using lt by simp
      with k(1) m(1) show ?thesis by simp
    qed
    moreover have "interpret_dfa ((k + m) + f) bytecode url flags (length pre) (node_state dfa (length pre) q i False acts) = Returned acts''" for f
      using k(3) [of "m + f"] m(3) [of f] Some by (simp add: add.assoc)
    ultimately show ?thesis by blast
  qed
qed

text \<open>An automaton that is not the first: it starts with the actions of its root.\<close>

lemma run_from_start:
  assumes small: "small_dfa dfa" and url: "url_ok url" and bytecode: "bytecode = pre @ dfa_bytes dfa @ post"
    and fuel: "(length url + 3) * length (program dfa) \<le> fuel"
  shows "\<exists>acts'. interpret_dfa fuel bytecode url flags (length pre) (start_state_of (length pre + 4) acts) = Returned acts' \<and>
     set acts' = set acts \<union> selected flags (dfa_out dfa (root dfa) \<union> dfa_triggers dfa url 0 (root dfa))"
proof -
  let ?r = "root dfa" and ?c = "url_byte url 0"
  have wf: "dfa_wf dfa" and root: "live dfa ?r" using small by (simp_all add: small_dfa_def dfa_wf_def)
  then have nwf: "node_wf dfa (nodes dfa ! ?r)" by (simp add: dfa_wf_def)
  let ?cs = "act_codes dfa (nodes dfa ! ?r) @ trans_codes dfa (nodes dfa ! ?r)"
  have p: "program dfa = ?cs @ concat (map (seg dfa) (other_nodes dfa))" using seg_live [OF root] by (simp add: program_def)
  obtain acts1 where acts1: "set acts1 = set acts \<union> selected flags (dfa_out dfa ?r)"
    "exec flags ?c False ?cs acts = (case dfa_step dfa ?r ?c of Some t \<Rightarrow> Edge t acts1 | None \<Rightarrow> Stop acts1)"
    using exec_codes_node [OF nwf url_byte_less [OF url, of 0], where acts = acts and flags = flags and after = False] by auto
  have b: "bytecode = (pre @ bytes32 (of_nat (program_size dfa))) @ codes_bytes (node_position dfa) ?cs @
      (codes_bytes (node_position dfa) (concat (map (seg dfa) (other_nodes dfa))) @ post)"
    using bytecode p by (simp add: dfa_bytes_def)
  have "\<exists>k \<le> length ?cs. \<forall>f. interpret_dfa (k + f) bytecode url flags (length pre) (start_state_of (length pre + 4) acts) =
     (if False then Returned acts1
      else case dfa_step dfa ?r ?c of
        None \<Rightarrow> Returned acts1
      | Some t \<Rightarrow> interpret_dfa f bytecode url flags (length pre) (node_state dfa (length pre) t (0 + 1) (?c = 0) acts1))"
    by (rule run_node_codes [OF b]) (use acts1(2) url_byte_less [OF url] in \<open>simp_all add: start_state_of_def\<close>)
  then obtain k where k: "k \<le> length ?cs"
    "\<And>f. interpret_dfa (k + f) bytecode url flags (length pre) (start_state_of (length pre + 4) acts) =
      (case dfa_step dfa ?r ?c of
        None \<Rightarrow> Returned acts1
      | Some t \<Rightarrow> interpret_dfa f bytecode url flags (length pre) (node_state dfa (length pre) t (0 + 1) (?c = 0) acts1))" unfolding if_False by blast
  have kp: "k \<le> length (program dfa)" using k(1) p by simp
  note tr = dfa_triggers_step [of 0 url dfa ?r]
  have "\<exists>m acts'. m \<le> (length url + 3) * length (program dfa) \<and>
     set acts' = set acts \<union> selected flags (dfa_out dfa ?r \<union> dfa_triggers dfa url 0 ?r) \<and>
     (\<forall>f. interpret_dfa (m + f) bytecode url flags (length pre) (start_state_of (length pre + 4) acts) = Returned acts')"
  proof (cases "dfa_step dfa ?r ?c")
    case None
    then have "dfa_triggers dfa url 0 ?r = {}" using tr by simp
    moreover have "k \<le> (length url + 3) * length (program dfa)" using kp by (simp add: add_mult_distrib)
    ultimately show ?thesis using acts1(1) k(2) None
      by (intro exI [of _ k] exI [of _ acts1]) (simp add: selected_Un)
  next
    case (Some t)
    then have t: "live dfa t" using dfa_step_live [OF wf root] by simp
    show ?thesis
    proof (cases "url = []")
      case True
      then have c: "?c = 0" by (simp add: url_byte_def)
      obtain m acts' where m: "m \<le> length (program dfa)" "set acts' = set acts1 \<union> selected flags (entered_out dfa t)"
        "\<And>f. interpret_dfa (m + f) bytecode url flags (length pre) (node_state dfa (length pre) t 1 True acts1) = Returned acts'"
        using run_node [OF small t url_byte_less [OF url] bytecode, where i = 1 and acts = acts1 and flags = flags and after = True] by auto
      have "dfa_triggers dfa url 0 ?r = entered_out dfa t" using tr Some True by simp
      with acts1(1) k(2) kp m Some c True show ?thesis
        by (intro exI [of _ "k + m"] exI [of _ acts']) (simp add: selected_Un add.assoc Un_assoc)
    next
      case False
      then have lt: "1 \<le> length url" by (cases url) simp_all
      then have c: "?c \<noteq> 0" using url_byte_zero [OF url, of 0] by auto
      obtain m acts' where m: "m \<le> (length url - 1 + 2) * length (program dfa)"
        "set acts' = set acts1 \<union> selected flags (entered_out dfa t) \<union> selected flags (dfa_triggers dfa url 1 t)"
        "\<And>f. interpret_dfa (m + f) bytecode url flags (length pre) (node_state dfa (length pre) t 1 False acts1) = Returned acts'"
        using run_url [OF small url bytecode lt t, where acts = acts1 and flags = flags] by blast
      have "dfa_triggers dfa url 0 ?r = entered_out dfa t \<union> dfa_triggers dfa url 1 t" using tr Some False by simp
      then have "set acts' = set acts \<union> selected flags (dfa_out dfa ?r \<union> dfa_triggers dfa url 0 ?r)"
        using acts1(1) m(2) by (auto simp: selected_Un)
      moreover have "k + m \<le> (length url + 3) * length (program dfa)"
      proof -
        have "length url - 1 + 2 = length url + 1" using lt by simp
        then have "m \<le> (length url + 1) * length (program dfa)" using m(1) by (simp only:)
        with kp show ?thesis by (simp add: add_mult_distrib)
      qed
      moreover have "interpret_dfa ((k + m) + f) bytecode url flags (length pre) (start_state_of (length pre + 4) acts) = Returned acts'" for f
        using k(2) [of "m + f"] m(3) [of f] Some c by (simp add: add.assoc)
      ultimately show ?thesis by blast
    qed
  qed
  then obtain m acts' where m: "m \<le> (length url + 3) * length (program dfa)"
     "set acts' = set acts \<union> selected flags (dfa_out dfa ?r \<union> dfa_triggers dfa url 0 ?r)"
     "\<And>f. interpret_dfa (m + f) bytecode url flags (length pre) (start_state_of (length pre + 4) acts) = Returned acts'" by blast
  then have "m + (fuel - m) = fuel" using fuel by simp
  with m(3) [of "fuel - m"] m(2) show ?thesis by metis
qed

section \<open>The actions of the first root\<close>

lemma fetch_beyond: "fetch bytecode p = Some i \<Longrightarrow> p < length bytecode"
  by (auto simp: fetch_def split: if_splits)

definition flagged :: "u64 \<Rightarrow> bool" where
  "flagged a \<longleftrightarrow> a AND 0xFFFF00000000 \<noteq> 0"

lemma selected_insert: "selected flags (insert a S) = (if passes flags a then {location a} else {}) \<union> selected flags S"
  by (auto simp: selected_def)

lemma skip_root_codes:
  assumes "bytecode = xs @ codes_bytes T (map action_code al @ [c]) @ ys" "\<not> is_action c"
    "length xs + codes_size (map action_code al) < len"
  shows "\<exists>acts'. skip_root_actions bytecode flags len (length xs) acts = (length xs + codes_size (map action_code al), acts') \<and>
     set acts' = set acts \<union> selected flags {a \<in> set al. flagged a}"
  using assms
proof (induction al arbitrary: xs acts)
  case Nil
  have "fetch bytecode (length xs) = Some (code_instr c)" using Nil.prems(1) by (simp add: fetch_at)
  with Nil.prems show ?case by (cases c) (simp_all add: skip_root_actions.simps)
next
  case (Cons a al)
  let ?c = "action_code a" and ?xs = "xs @ code_bytes T (action_code a)"
  let ?rest = "codes_bytes T (map action_code al @ [c]) @ ys"
  have b: "bytecode = xs @ code_bytes T ?c @ ?rest" using Cons.prems(1) by simp
  have f: "fetch bytecode (length xs) = Some (code_instr ?c)" using b by (simp add: fetch_at)
  have lt: "length xs < len" using Cons.prems(3) by simp
  have step: "skip_root_actions bytecode flags len (length xs) acts =
      skip_root_actions bytecode flags len (length ?xs) (if flagged a then add_action flags ?c acts else acts)"
  proof (cases "flagged a")
    case True
    then have c: "?c = CTest (ucast (drop_bit 32 a)) (ucast a)" by (simp add: action_code_def flagged_def)
    show ?thesis
      using f lt action_at(2) [OF b c refl, of flags acts] True
      by (simp add: skip_root_actions.simps [of _ _ _ "length xs"] c)
  next
    case False
    then have c: "?c = CAction (ucast a)" by (simp add: action_code_def flagged_def)
    show ?thesis
      using f lt False by (simp add: skip_root_actions.simps [of _ _ _ "length xs"] c code_size_def)
  qed
  let ?acts = "if flagged a then add_action flags ?c acts else acts"
  have prems: "bytecode = ?xs @ ?rest" "length ?xs + codes_size (map action_code al) < len"
    using b Cons.prems(3) by simp_all
  obtain acts' where acts': "skip_root_actions bytecode flags len (length ?xs) ?acts = (length ?xs + codes_size (map action_code al), acts')"
    "set acts' = set ?acts \<union> selected flags {a \<in> set al. flagged a}"
    using Cons.IH [OF prems(1) Cons.prems(2) prems(2), of ?acts] by blast
  have "set acts' = set acts \<union> selected flags {b \<in> set (a # al). flagged b}"
  proof (cases "flagged a")
    case True
    then have "{b \<in> set (a # al). flagged b} = insert a {b \<in> set al. flagged b}" by auto
    with True acts'(2) show ?thesis by (auto simp: add_action_code selected_insert selected_empty split: if_splits)
  next
    case False
    then have "{b \<in> set (a # al). flagged b} = {b \<in> set al. flagged b}" by auto
    with False acts'(2) show ?thesis by simp
  qed
  with acts'(1) step show ?case by (intro exI [of _ acts']) simp
qed

lemma root_codes:
  assumes "bytecode = xs @ codes_bytes T (map action_code al @ [c]) @ ys" "\<not> is_action c"
    "length xs + codes_size (map action_code al) < len"
  shows "set (root_actions bytecode len (length xs) acts) = set acts \<union> location ` {a \<in> set al. \<not> flagged a}"
  using assms
proof (induction al arbitrary: xs acts)
  case Nil
  have "fetch bytecode (length xs) = Some (code_instr c)" using Nil.prems(1) by (simp add: fetch_at)
  with Nil.prems show ?case by (cases c) (simp_all add: root_actions.simps)
next
  case (Cons a al)
  let ?c = "action_code a" and ?xs = "xs @ code_bytes T (action_code a)"
  let ?rest = "codes_bytes T (map action_code al @ [c]) @ ys"
  have b: "bytecode = xs @ code_bytes T ?c @ ?rest" using Cons.prems(1) by simp
  have f: "fetch bytecode (length xs) = Some (code_instr ?c)" using b by (simp add: fetch_at)
  have lt: "length xs < len" using Cons.prems(3) by simp
  have prems: "bytecode = ?xs @ ?rest" "length ?xs + codes_size (map action_code al) < len"
    using b Cons.prems(3) by simp_all
  note IH = Cons.IH [OF prems(1) Cons.prems(2) prems(2)]
  show ?case
  proof (cases "flagged a")
    case True
    then have c: "?c = CTest (ucast (drop_bit 32 a)) (ucast a)" by (simp add: action_code_def flagged_def)
    have "root_actions bytecode len (length xs) acts = root_actions bytecode len (length ?xs) acts"
      using f lt by (simp add: root_actions.simps [of _ _ "length xs"] c code_size_def)
    with IH [of acts] True show ?thesis by auto
  next
    case False
    then have c: "?c = CAction (ucast a)" by (simp add: action_code_def flagged_def)
    have "root_actions bytecode len (length xs) acts = root_actions bytecode len (length ?xs) (hs_add (location a) acts)"
      using f lt action_at(1) [OF b c refl, of acts]
      by (simp add: root_actions.simps [of _ _ "length xs"] c location_def)
    with IH [of "hs_add (location a) acts"] False show ?thesis by auto
  qed
qed

section \<open>Running all automata\<close>

definition dfa_actions :: "DFA \<Rightarrow> nat list \<Rightarrow> u64 set" where
  "dfa_actions dfa url = dfa_out dfa (root dfa) \<union> run_out (dfa_step dfa) (dfa_out dfa) (root dfa) (url @ [0])"

lemma run_out_entered:
  "dfa_out dfa (root dfa) \<union> run_out (dfa_step dfa) (entered_out dfa) q w = dfa_out dfa (root dfa) \<union> run_out (dfa_step dfa) (dfa_out dfa) q w"
proof (induction w arbitrary: q)
  case (Cons c w)
  show ?case
  proof (cases "dfa_step dfa q c")
    case (Some t)
    with Cons [of t] show ?thesis by (auto simp: entered_out_def)
  qed simp
qed simp

lemma dfa_actions_triggers: "dfa_out dfa (root dfa) \<union> dfa_triggers dfa url 0 (root dfa) = dfa_actions dfa url"
  by (simp add: dfa_triggers_def dfa_actions_def run_out_entered)

lemma program_size_pos: "program_size dfa \<noteq> 0"
  by (simp add: program_size_def)

lemma get32_start: "small_dfa dfa \<Longrightarrow> unat (get32 (pre @ dfa_bytes dfa @ post) (length pre)) = program_size dfa"
  using get32_at [of "length pre" pre "of_nat (program_size dfa)" "codes_bytes (node_position dfa) (program dfa) @ post"]
  by (simp add: dfa_bytes_def small_dfa_def)

lemma interpret_loop_Suc:
  "interpret_loop (Suc fuel) n bytecode url flags dfaStart acts =
     (if length bytecode \<le> dfaStart then Returned acts
      else
          let dfaBytecodeLength = unat (get32 bytecode dfaStart);
              (pc, acts) = (if dfaStart = 0 then skip_root_actions bytecode flags dfaBytecodeLength (dfaStart + 4) acts
                               else (dfaStart + 4, acts))
          in if dfaStart = 0 \<and> length bytecode \<le> pc then Returned acts
             else case interpret_dfa n bytecode url flags dfaStart (start_state_of pc acts) of
                    Returned acts \<Rightarrow>
                      interpret_loop fuel n bytecode url flags (dfaStart + dfaBytecodeLength) acts
                  | Crashed \<Rightarrow> Crashed
                  | OutOfFuel \<Rightarrow> OutOfFuel)"
  by (subst interpret_loop.simps) (simp only: nat.case)

definition enough_fuel :: "nat list \<Rightarrow> DFA list \<Rightarrow> nat \<Rightarrow> bool" where
  "enough_fuel url ds n \<longleftrightarrow> list_all (\<lambda>dfa. (length url + 3) * length (program dfa) \<le> n) ds"

lemma interpret_others:
  assumes url: "url_ok url"
  shows "list_all small_dfa ds \<Longrightarrow> enough_fuel url ds n \<Longrightarrow> length ds \<le> fuel \<Longrightarrow> pre \<noteq> [] \<Longrightarrow>
     \<exists>acts'. interpret_loop fuel n (pre @ concat (map dfa_bytes ds)) url flags (length pre) acts = Returned acts' \<and>
       set acts' = set acts \<union> selected flags (\<Union>dfa \<in> set ds. dfa_actions dfa url)"
proof (induction ds arbitrary: pre fuel acts)
  case Nil
  show ?case by (simp add: interpret_loop.simps)
next
  case (Cons dfa ds)
  let ?bytecode = "pre @ concat (map dfa_bytes (dfa # ds))" and ?pre = "pre @ dfa_bytes dfa"
  have small: "small_dfa dfa" and fuel: "(length url + 3) * length (program dfa) \<le> n"
    using Cons.prems by (simp_all add: enough_fuel_def)
  have b: "?bytecode = pre @ dfa_bytes dfa @ concat (map dfa_bytes ds)" by simp
  obtain acts1 where acts1: "interpret_dfa n ?bytecode url flags (length pre) (start_state_of (length pre + 4) acts) = Returned acts1"
    "set acts1 = set acts \<union> selected flags (dfa_actions dfa url)"
    using run_from_start [OF small url b fuel] unfolding dfa_actions_triggers by blast
  obtain f where f: "fuel = Suc f" "length ds \<le> f" using Cons.prems(3) by (cases fuel) auto
  obtain acts2 where acts2: "interpret_loop f n (?pre @ concat (map dfa_bytes ds)) url flags (length ?pre) acts1 = Returned acts2"
    "set acts2 = set acts1 \<union> selected flags (\<Union>dfa \<in> set ds. dfa_actions dfa url)"
    using Cons.IH [of f ?pre acts1] Cons.prems f(2) by (auto simp: enough_fuel_def)
  have lt: "length pre < length ?bytecode" using small by (simp add: program_size_def)
  have sz: "unat (get32 ?bytecode (length pre)) = program_size dfa" using get32_start [OF small] by simp
  have "interpret_loop fuel n ?bytecode url flags (length pre) acts = Returned acts2"
    using lt acts1(1) acts2(1) Cons.prems(4) f(1) sz
    by (simp add: interpret_loop_Suc Let_def program_size_pos)
  moreover have "set acts2 = set acts \<union> selected flags (\<Union>dfa \<in> set (dfa # ds). dfa_actions dfa url)"
    using acts1(2) acts2(2) by (simp add: selected_Un Un_assoc)
  ultimately show ?case by blast
qed

lemma trans_codes_first: "\<exists>c cs. trans_codes dfa node = c # cs \<and> \<not> is_action c"
proof -
  have "\<not> is_action (range_code r)" for r by (simp add: range_code_def)
  then show ?thesis unfolding trans_codes_def
    by (cases "node_ranges (the (destination_table (node_transitions dfa node)))") simp_all
qed

lemma root_block:
  assumes "small_dfa dfa"
  shows "\<exists>c ys. dfa_bytes dfa = bytes32 (of_nat (program_size dfa)) @
      codes_bytes (node_position dfa) (map action_code (node_actions dfa (nodes dfa ! root dfa)) @ [c]) @ ys \<and>
    \<not> is_action c \<and> 4 + codes_size (map action_code (node_actions dfa (nodes dfa ! root dfa))) < program_size dfa"
proof -
  have root: "live dfa (root dfa)" using assms by (simp add: small_dfa_def dfa_wf_def)
  obtain c cs where c: "trans_codes dfa (nodes dfa ! root dfa) = c # cs" "\<not> is_action c" using trans_codes_first by blast
  have p: "program dfa = map action_code (node_actions dfa (nodes dfa ! root dfa)) @ c # (cs @ concat (map (seg dfa) (other_nodes dfa)))"
    using seg_live [OF root] c by (simp add: program_def act_codes_def)
  have "0 < code_size c" by (simp add: code_size_def instruction_size_pos)
  with p have "4 + codes_size (map action_code (node_actions dfa (nodes dfa ! root dfa))) < program_size dfa"
    by (simp add: program_size_def)
  with p c(2) show ?thesis by (auto simp: dfa_bytes_def)
qed

lemma interpret_all:
  assumes url: "url_ok url" and small: "list_all small_dfa (dfa # ds)" and fuel: "enough_fuel url (dfa # ds) n"
    and l: "length (dfa # ds) \<le> fuel"
  shows "\<exists>acts. DFABytecodeInterpreter_interpret fuel n (concat (map dfa_bytes (dfa # ds))) url flags = Returned acts \<and>
     set acts = selected flags ({a \<in> dfa_out dfa (root dfa). flagged a} \<union> dfa_triggers dfa url 0 (root dfa) \<union>
        (\<Union>d \<in> set ds. dfa_actions d url))"
proof -
  let ?bytecode = "concat (map dfa_bytes (dfa # ds))" and ?al = "node_actions dfa (nodes dfa ! root dfa)"
  have s: "small_dfa dfa" and n: "(length url + 3) * length (program dfa) \<le> n"
    using small fuel by (simp_all add: enough_fuel_def)
  have b: "?bytecode = [] @ dfa_bytes dfa @ concat (map dfa_bytes ds)" by simp
  obtain c ys where c: "dfa_bytes dfa = bytes32 (of_nat (program_size dfa)) @ codes_bytes (node_position dfa) (map action_code ?al @ [c]) @ ys"
    "\<not> is_action c" "4 + codes_size (map action_code ?al) < program_size dfa" using root_block [OF s] by blast
  have root: "live dfa (root dfa)" using s by (simp add: small_dfa_def dfa_wf_def)
  have b2: "?bytecode = bytes32 (of_nat (program_size dfa)) @ codes_bytes (node_position dfa) (map action_code ?al @ [c]) @
      (ys @ concat (map dfa_bytes ds))" using c(1) by simp
  obtain acts0 where acts0: "skip_root_actions ?bytecode flags (program_size dfa) 4 [] = (4 + codes_size (map action_code ?al), acts0)"
    "set acts0 = selected flags {a \<in> set ?al. flagged a}"
    using skip_root_codes [OF b2 c(2), of "program_size dfa" flags "[]"] c(3) by auto
  have pos: "unat (node_position dfa (root dfa)) = 4 + codes_size (map action_code ?al)"
  proof -
    have "4 + codes_size (act_codes dfa (nodes dfa ! root dfa)) < 4294967296"
      using c(3) s by (simp add: small_dfa_def act_codes_def)
    from position_unat [OF root_position [OF root] this] show ?thesis by (simp add: act_codes_def)
  qed
  have st: "start_state_of (4 + codes_size (map action_code ?al)) acts0 = node_state dfa (length []) (root dfa) 0 False acts0"
    using pos by (simp add: start_state_of_def node_state_def)
  obtain k acts1 where k: "k \<le> (length url - 0 + 2) * length (program dfa)"
    "set acts1 = set acts0 \<union> selected flags (entered_out dfa (root dfa)) \<union> selected flags (dfa_triggers dfa url 0 (root dfa))"
    "\<And>f. interpret_dfa (k + f) ?bytecode url flags (length ([] :: u8 list)) (node_state dfa (length ([] :: u8 list)) (root dfa) 0 False acts0) = Returned acts1"
    using run_url [OF s url b _ root, of 0 acts0 flags] by blast
  have "k \<le> n" using k(1) n by (simp add: add_mult_distrib)
  then have acts1: "interpret_dfa n ?bytecode url flags 0 (start_state_of (4 + codes_size (map action_code ?al)) acts0) = Returned acts1"
    using k(3) [of "n - k"] st by simp
  obtain f where f: "fuel = Suc f" "length ds \<le> f" using l by (cases fuel) auto
  have ne: "dfa_bytes dfa \<noteq> []" using c(1) by (auto simp: bytes32_def)
  obtain acts2 where acts2: "interpret_loop f n (dfa_bytes dfa @ concat (map dfa_bytes ds)) url flags (length (dfa_bytes dfa)) acts1 = Returned acts2"
    "set acts2 = set acts1 \<union> selected flags (\<Union>dfa \<in> set ds. dfa_actions dfa url)"
    using interpret_others [OF url _ _ f(2) ne, of n flags acts1] small fuel by (auto simp: enough_fuel_def)
  have sz: "unat (get32 ?bytecode 0) = program_size dfa" using get32_start [OF s, of "[]"] by simp
  have lt: "\<not> length ?bytecode \<le> 4 + codes_size (map action_code ?al)" "\<not> length ?bytecode \<le> 0" using c(3) by simp_all
  have "interpret_loop fuel n ?bytecode url flags 0 [] = Returned acts2"
    using lt acts0(1) acts1 acts2(1) f(1) sz by (simp add: interpret_loop_Suc program_size_pos)
  moreover have "set acts2 = selected flags ({a \<in> dfa_out dfa (root dfa). flagged a} \<union> dfa_triggers dfa url 0 (root dfa) \<union>
        (\<Union>d \<in> set ds. dfa_actions d url))"
    using acts0(2) k(2) acts2(2) by (simp add: selected_Un entered_out_def dfa_out_def Un_assoc)
  ultimately show ?thesis by (auto simp: DFABytecodeInterpreter_interpret_def)
qed

lemma actionsFromDFARoot_correct:
  assumes "small_dfa dfa"
  shows "set (actionsFromDFARoot (dfa_bytes dfa @ post)) = location ` {a \<in> dfa_out dfa (root dfa). \<not> flagged a}"
proof -
  let ?al = "node_actions dfa (nodes dfa ! root dfa)"
  obtain c ys where c: "dfa_bytes dfa = bytes32 (of_nat (program_size dfa)) @ codes_bytes (node_position dfa) (map action_code ?al @ [c]) @ ys"
    "\<not> is_action c" "4 + codes_size (map action_code ?al) < program_size dfa" using root_block [OF assms] by blast
  have b2: "dfa_bytes dfa @ post = bytes32 (of_nat (program_size dfa)) @ codes_bytes (node_position dfa) (map action_code ?al @ [c]) @
      (ys @ post)" using c(1) by simp
  have "unat (get32 (dfa_bytes dfa @ post) 0) = program_size dfa" using get32_start [OF assms, of "[]"] by simp
  with root_codes [OF b2 c(2), of "program_size dfa" "[]"] c(3) show ?thesis
    by (simp add: actionsFromDFARoot_def dfa_out_def)
qed

text \<open>All automata: what is triggered, with the unconditional actions of the first root.\<close>

lemma interprets:
  assumes "list_all small_dfa (dfa # ds)" "url_ok url" "enough_fuel url (dfa # ds) n" "length (dfa # ds) \<le> fuel"
  shows "\<exists>acts. DFABytecodeInterpreter_interpret fuel n (concat (map dfa_bytes (dfa # ds))) url flags = Returned acts \<and>
     set acts \<union> set (actionsFromDFARoot (concat (map dfa_bytes (dfa # ds)))) = selected flags (\<Union>d \<in> set (dfa # ds). dfa_actions d url)"
proof -
  have s: "small_dfa dfa" using assms(1) by simp
  obtain acts where acts: "DFABytecodeInterpreter_interpret fuel n (concat (map dfa_bytes (dfa # ds))) url flags = Returned acts"
    "set acts = selected flags ({a \<in> dfa_out dfa (root dfa). flagged a} \<union> dfa_triggers dfa url 0 (root dfa) \<union>
        (\<Union>d \<in> set ds. dfa_actions d url))"
    using interpret_all [OF assms(2,1,3,4), of flags] by blast
  have "set (actionsFromDFARoot (concat (map dfa_bytes (dfa # ds)))) = location ` {a \<in> dfa_out dfa (root dfa). \<not> flagged a}"
    using actionsFromDFARoot_correct [OF s] by simp
  also have "\<dots> = selected flags {a \<in> dfa_out dfa (root dfa). \<not> flagged a}"
    by (auto simp: selected_def passes_def flagged_def)
  finally have "set acts \<union> set (actionsFromDFARoot (concat (map dfa_bytes (dfa # ds)))) =
      selected flags (({a \<in> dfa_out dfa (root dfa). flagged a} \<union> {a \<in> dfa_out dfa (root dfa). \<not> flagged a}) \<union>
        dfa_triggers dfa url 0 (root dfa) \<union> (\<Union>d \<in> set ds. dfa_actions d url))"
    using acts(2) by (auto simp: selected_Un)
  also have "{a \<in> dfa_out dfa (root dfa). flagged a} \<union> {a \<in> dfa_out dfa (root dfa). \<not> flagged a} = dfa_out dfa (root dfa)" by blast
  finally have "set acts \<union> set (actionsFromDFARoot (concat (map dfa_bytes (dfa # ds)))) =
      selected flags (\<Union>d \<in> set (dfa # ds). dfa_actions d url)"
    by (simp add: dfa_actions_triggers)
  with acts(1) show ?thesis by blast
qed

end
