(* ===== verification/CE_Bytecode_Props.thy ===== *)
theory CE_Bytecode_Props
  imports CE_Bytecode_Exec
begin

text \<open>
  The properties of the bytecode: the ranges of a node, the byte order, the layout of the compiled
  automaton, and that interpreting compiled automata triggers the actions of their runs.
\<close>

section \<open>Inputs of the witnesses\<close>

text \<open>The automaton of \<open>^a\<close> with action 5; its root has action 9 for requests with flag 2.\<close>

definition ex_dfa :: DFA where
  "ex_dfa = \<lparr>actions = [0x200000009, 5], dfa_transitions = [(97, 1)],
     nodes = [\<lparr>m_actionsStart = 0, m_transitionsStart = 0, m_actionsLength = 1, m_transitionsLength = 1, m_flags = 0\<rparr>,
              \<lparr>m_actionsStart = 1, m_transitionsStart = 1, m_actionsLength = 1, m_transitionsLength = 0, m_flags = 0\<rparr>],
     root = 0\<rparr>"

lemma ex_dfa_live: "live ex_dfa i \<longleftrightarrow> i = 0 \<or> i = 1"
  by (auto simp: live_def ex_dfa_def isKilled_def less_Suc_eq)

lemma ex_dfa_wf: "dfa_wf ex_dfa"
proof -
  have "node_wf ex_dfa (nodes ex_dfa ! 0)" "node_wf ex_dfa (nodes ex_dfa ! 1)"
    unfolding node_wf_def ex_dfa_live
    by (simp_all add: ex_dfa_def node_transitions_def transitionsLength_def hasFallbackTransition_def)
  moreover have "root ex_dfa = 0" by (simp add: ex_dfa_def)
  ultimately show ?thesis by (auto simp: dfa_wf_def ex_dfa_live)
qed

lemma ex_dfa_size: "program_size ex_dfa = 24" "length (program ex_dfa) = 5"
  by code_simp+

lemma ex_dfa_small: "small_dfa ex_dfa"
  using ex_dfa_wf by (simp add: small_dfa_def ex_dfa_size)

lemma ex_url_ok: "url_ok [97, 98]"
  by (simp add: url_ok_def)

section \<open>Bytes\<close>

lemma four_elements: "length xs = 4 \<Longrightarrow> \<exists>a b c d. xs = [a, b, c, d]"
  by (auto simp: length_Suc_conv numeral_eq_Suc)

text \<open>
  Linking writes what the interpreter reads: a word written into the bytecode is read back, and
  only its four bytes change.
\<close>

theorem set32Bits_get32:
  assumes "index + 4 \<le> length bytecode"
  shows "get32 (set32Bits index value bytecode) index = value \<and>
     length (set32Bits index value bytecode) = length bytecode \<and>
     take index (set32Bits index value bytecode) = take index bytecode \<and>
     drop (index + 4) (set32Bits index value bytecode) = drop (index + 4) bytecode"
proof -
  let ?xs = "take index bytecode" and ?ys = "drop (index + 4) bytecode"
  have len: "length (take 4 (drop index bytecode)) = 4" using assms by simp
  then obtain a b c d where four: "take 4 (drop index bytecode) = [a, b, c, d]"
    using four_elements by blast
  have "bytecode = ?xs @ take 4 (drop index bytecode) @ ?ys"
    by (metis add.commute append_take_drop_id drop_drop)
  then have b: "bytecode = ?xs @ [a, b, c, d] @ ?ys" unfolding four .
  have xs: "length ?xs = index" using assms by simp
  have "set32Bits index value (?xs @ [a, b, c, d] @ ?ys) = ?xs @ bytes32 value @ ?ys"
    using xs by (simp add: set32Bits_def bytes32_def list_update_append)
  then have s: "set32Bits index value bytecode = ?xs @ bytes32 value @ ?ys" using b by simp
  have "get32 (?xs @ bytes32 value @ ?ys) index = value" by (rule get32_at) (use xs in simp)
  with s xs assms show ?thesis by simp
qed

theorem set32Bits_get32_witness: "get32 (set32Bits 1 0xDEADBEEF [1, 2, 3, 4, 5, 6]) 1 = 0xDEADBEEF"
  using set32Bits_get32 [of 1 "[1, 2, 3, 4, 5, 6]" "0xDEADBEEF"] by simp

section \<open>Ranges\<close>

text \<open>
  The ranges of a node are exact: for every ASCII character the first range that contains it,
  with its letters folded where the range is case insensitive, leads where the table does, and
  there is none if the table has no entry.
\<close>

theorem ranges_are_exact:
  assumes "length destinations = 128" "c < 128"
  shows "map_option range_destination (first_match (node_ranges destinations) c) = destinations ! c"
  by (rule node_ranges_correct [OF assms])

definition ex_table :: "nat option list" where
  "ex_table = (replicate 128 None)[65 := Some 7, 97 := Some 7, 98 := Some 3]"

theorem ranges_are_exact_witness:
  "map_option range_destination (first_match (node_ranges ex_table) 97) = Some 7"
proof -
  have "length ex_table = 128" "ex_table ! 97 = Some 7" by (simp_all add: ex_table_def)
  with ranges_are_exact [of ex_table 97] show ?thesis by simp
qed

section \<open>The compiler and the interpreter\<close>

text \<open>
  Compiling a well-formed automaton fails no assertion as long as its bytecode has less than
  \<open>2^32 - 1\<close> bytes, and the header in front of the bytecode is its length.
\<close>

theorem compile_succeeds:
  assumes "dfa_wf dfa" "program_size dfa < 4294967295"
  shows "\<exists>bytecode. DFABytecodeCompiler_compile dfa [] = Some bytecode \<and>
     length bytecode = program_size dfa \<and> unat (get32 bytecode 0) = length bytecode"
proof -
  have s: "small_dfa dfa" using assms by (simp add: small_dfa_def)
  have "DFABytecodeCompiler_compile dfa [] = Some (dfa_bytes dfa)"
    using compile_layout [OF assms] by (simp add: dfa_bytes_def)
  then show ?thesis using get32_start [OF s, of "[]" "[]"] by simp
qed

theorem compile_succeeds_witness:
  "\<exists>bytecode. DFABytecodeCompiler_compile ex_dfa [] = Some bytecode \<and> length bytecode = 24 \<and> unat (get32 bytecode 0) = 24"
proof -
  have "program_size ex_dfa < 4294967295" by (simp add: ex_dfa_size)
  from compile_succeeds [OF ex_dfa_wf this] show ?thesis by (auto simp: ex_dfa_size)
qed

lemma compile_all:
  "list_all small_dfa ds \<Longrightarrow> map (\<lambda>dfa. DFABytecodeCompiler_compile dfa []) ds = map Some (map dfa_bytes ds)"
  by (induction ds) (simp_all add: small_dfa_def compile_layout dfa_bytes_def)

text \<open>
  C8. The bytecode implements the automata: interpreting the compiled automata one behind the other
  ends, with fuel for the length of the URL and three more visits of every instruction, and what
  it triggers, with the unconditional actions of the first root that are read separately, is what
  the runs of the automata on the URL and its terminating NUL trigger for the flags of the request.
\<close>

theorem interpreter_runs_automata:
  assumes "list_all small_dfa (dfa # ds)" "url_ok url" "enough_fuel url (dfa # ds) n" "length (dfa # ds) \<le> fuel"
  shows "\<exists>codes acts. map (\<lambda>dfa. DFABytecodeCompiler_compile dfa []) (dfa # ds) = map Some codes \<and>
     DFABytecodeInterpreter_interpret fuel n (concat codes) url flags = Returned acts \<and>
     set acts \<union> set (actionsFromDFARoot (concat codes)) = selected flags (\<Union>d \<in> set (dfa # ds). dfa_actions d url)"
  using interprets [OF assms] compile_all [OF assms(1)] by blast

theorem interpreter_runs_automata_witness:
  "\<exists>code acts. DFABytecodeCompiler_compile ex_dfa [] = Some code \<and>
     DFABytecodeInterpreter_interpret 1 25 code [97, 98] 2 = Returned acts \<and>
     set acts \<union> set (actionsFromDFARoot code) = selected 2 (dfa_actions ex_dfa [97, 98])"
proof -
  have f: "enough_fuel [97, 98] [ex_dfa] 25" by (simp add: enough_fuel_def ex_dfa_size)
  have s: "list_all small_dfa [ex_dfa]" using ex_dfa_small by simp
  have l: "length [ex_dfa] \<le> 1" by simp
  obtain codes acts where "map (\<lambda>dfa. DFABytecodeCompiler_compile dfa []) [ex_dfa] = map Some codes"
    "DFABytecodeInterpreter_interpret 1 25 (concat codes) [97, 98] 2 = Returned acts"
    "set acts \<union> set (actionsFromDFARoot (concat codes)) = selected 2 (\<Union>d \<in> set [ex_dfa]. dfa_actions d [97, 98])"
    using interpreter_runs_automata [OF s ex_url_ok f l, of 2] by blast
  then show ?thesis by auto
qed

end
