(* ===== verification/CE_Minimizer.thy ===== *)
theory CE_Minimizer
  imports CE_Subset
begin

text \<open>
  The minimisation of \<open>contentextensions/DFAMinimizer.cpp\<close>: individual transitions that repeat the
  fallback are removed, the nodes are partitioned by their actions and then refined by transitions
  and fallback transitions, and every node is replaced by the first one of its class.

  \<open>None\<close> and \<open>Crashed\<close> are a failed \<open>RELEASE_ASSERT\<close> or an index out of range. The loops over the
  sets of a partition grow the partition while they run; they have fuel. A destination that is
  \<open>std::numeric_limits<unsigned>::max()\<close>, which means none, is \<open>None\<close>.
\<close>

section \<open>Simplifying transitions\<close>

text \<open>The histogram of the targets, with the best target and its score so far.\<close>

definition count_target ::
  "nat \<times> nat \<Rightarrow> (nat \<times> nat) list \<times> nat option \<times> nat \<Rightarrow> (nat \<times> nat) list \<times> nat option \<times> nat" where
  "count_target transition = (\<lambda>(targetHistogram, bestTarget, bestTargetScore).
     if fst transition = 0 then (targetHistogram, bestTarget, bestTargetScore)
     else
       let transitionTarget = snd transition;
           targetHistogram = (if map_of targetHistogram transitionTarget = None then hm_add transitionTarget 1 targetHistogram
                              else hm_modify transitionTarget (\<lambda>n. n + 1) targetHistogram);
           score = the (map_of targetHistogram transitionTarget)
       in if bestTargetScore < score then (targetHistogram, Some transitionTarget, score)
          else (targetHistogram, bestTarget, bestTargetScore))"

definition best_target :: "(nat \<times> nat) list \<Rightarrow> nat option" where
  "best_target ts = fst (snd (fold count_target ts ([], None, 0)))"

definition adds_fallback :: "DFA \<Rightarrow> DFANode \<Rightarrow> bool" where
  "adds_fallback dfa node \<longleftrightarrow>
     \<not> hasFallbackTransition node \<and>
     ((transitionsLength node = 126 \<and> \<not> containsTransition 0 dfa node) \<or>
      (transitionsLength node = 127 \<and> containsTransition 0 dfa node))"

text \<open>Overwrites a vector from an index on.\<close>

fun overwrite :: "nat \<Rightarrow> 'a list \<Rightarrow> 'a list \<Rightarrow> 'a list" where
  "overwrite start [] xs = xs"
| "overwrite start (y # ys) xs = overwrite (Suc start) ys (xs[start := y])"

text \<open>The new transitions of a node that will have the fallback \<open>newFallbackDestination\<close>.\<close>

definition rewrite_transitions :: "nat \<Rightarrow> nat \<Rightarrow> bool \<Rightarrow> DFA \<Rightarrow> DFA option" where
  "rewrite_transitions i newFallbackDestination hadFallbackTransition dfa =
     (let node = nodes dfa ! i;
          old = node_transitions dfa node;
          availableSlotCount = length old + (if hadFallbackTransition then 1 else 0);
          new = filter (\<lambda>t. snd t \<noteq> newFallbackDestination) old
      in if length new + 1 \<le> availableSlotCount then
           let firstSlot = m_transitionsStart node;
               trs = overwrite firstSlot (new @ replicate (availableSlotCount - length new) (u8_max, u32_max)) (dfa_transitions dfa)
           in Some (dfa\<lparr>nodes := (nodes dfa)[i := resetTransitions firstSlot (length new) node],
                        dfa_transitions := trs[firstSlot + length new := (u8_max, newFallbackDestination)]\<rparr>)
         else None)"

definition simplify_node :: "nat \<Rightarrow> DFA \<Rightarrow> DFA option" where
  "simplify_node i dfa =
     (let node = nodes dfa ! i;
          newFallbackDestination = (if adds_fallback dfa node then best_target (node_transitions dfa node) else None);
          hadFallbackTransition = hasFallbackTransition node;
          oldFallbackTransition = fallbackTransitionDestination dfa node
      in if hadFallbackTransition \<and> oldFallbackTransition = None then None
         else
           let newFallbackDestination = (if newFallbackDestination = None then oldFallbackTransition else newFallbackDestination);
               dfa = dfa\<lparr>nodes := (nodes dfa)
                 [i := setHasFallbackTransitionWithoutChangingDFA (newFallbackDestination \<noteq> None) node]\<rparr>
           in case newFallbackDestination of
                None \<Rightarrow> Some dfa
              | Some destination \<Rightarrow> rewrite_transitions i destination hadFallbackTransition dfa)"

fun for_nodes :: "(nat \<Rightarrow> DFA \<Rightarrow> DFA option) \<Rightarrow> nat list \<Rightarrow> DFA \<Rightarrow> DFA option" where
  "for_nodes f [] dfa = Some dfa"
| "for_nodes f (i # is) dfa = Option.bind (f i dfa) (for_nodes f is)"

definition simplifyTransitions :: "DFA \<Rightarrow> DFA option" where
  "simplifyTransitions dfa = for_nodes simplify_node [0..<length (nodes dfa)] dfa"

section \<open>Refinable partitions\<close>

record SetDescriptor =
  set_start :: nat
  set_size :: nat
  markedCount :: nat

definition indexAfterMarkedElements :: "SetDescriptor \<Rightarrow> nat" where
  "indexAfterMarkedElements d = set_start d + markedCount d"

definition set_end :: "SetDescriptor \<Rightarrow> nat" where
  "set_end d = set_start d + set_size d"

record Partition =
  m_sets :: "SetDescriptor list"
  m_partitionedElements :: "nat list"
  m_elementPositionInPartitionedNodes :: "nat list"
  m_elementToSetMap :: "nat list"
  m_setsMarkedInCurrentGeneration :: "nat list"

definition Partition_initialize :: "nat \<Rightarrow> Partition" where
  "Partition_initialize n =
     (if n = 0
      then \<lparr>m_sets = [], m_partitionedElements = [], m_elementPositionInPartitionedNodes = [], m_elementToSetMap = [],
            m_setsMarkedInCurrentGeneration = []\<rparr>
      else \<lparr>m_sets = [\<lparr>set_start = 0, set_size = n, markedCount = 0\<rparr>], m_partitionedElements = [0..<n],
            m_elementPositionInPartitionedNodes = [0..<n], m_elementToSetMap = replicate n 0,
            m_setsMarkedInCurrentGeneration = []\<rparr>)"

definition markElementInCurrentGeneration :: "nat \<Rightarrow> Partition \<Rightarrow> Partition" where
  "markElementInCurrentGeneration elementIndex p =
     (let setIndex = m_elementToSetMap p ! elementIndex;
          setDescriptor = m_sets p ! setIndex;
          elementPositionInPartition = m_elementPositionInPartitionedNodes p ! elementIndex;
          firstUnmarkedElementPositionInPartition = indexAfterMarkedElements setDescriptor;
          firstUnmarkedElement = m_partitionedElements p ! firstUnmarkedElementPositionInPartition
      in p\<lparr>m_partitionedElements := (m_partitionedElements p)
              [firstUnmarkedElementPositionInPartition := elementIndex, elementPositionInPartition := firstUnmarkedElement],
            m_elementPositionInPartitionedNodes := (m_elementPositionInPartitionedNodes p)
              [elementIndex := firstUnmarkedElementPositionInPartition, firstUnmarkedElement := elementPositionInPartition],
            m_setsMarkedInCurrentGeneration :=
              (if markedCount setDescriptor = 0 then m_setsMarkedInCurrentGeneration p @ [setIndex]
               else m_setsMarkedInCurrentGeneration p),
            m_sets := (m_sets p)[setIndex := setDescriptor\<lparr>markedCount := markedCount setDescriptor + 1\<rparr>]\<rparr>)"

definition iterateSet :: "nat \<Rightarrow> Partition \<Rightarrow> nat list" where
  "iterateSet setIndex p =
     (let setDescriptor = m_sets p ! setIndex
      in map (\<lambda>i. m_partitionedElements p ! i) [set_start setDescriptor..<set_end setDescriptor])"

text \<open>Splits one marked set; the result has the index of the new set, if there is one.\<close>

definition split_set :: "nat \<Rightarrow> Partition \<Rightarrow> Partition \<times> nat option" where
  "split_set setIndex p =
     (let setDescriptor = m_sets p ! setIndex
      in if markedCount setDescriptor = set_size setDescriptor
         then (p\<lparr>m_sets := (m_sets p)[setIndex := setDescriptor\<lparr>markedCount := 0\<rparr>]\<rparr>, None)
         else
           let newSetIsMarkedSet = markedCount setDescriptor * 2 \<le> set_size setDescriptor;
               newSet = (if newSetIsMarkedSet
                         then \<lparr>set_start = set_start setDescriptor, set_size = markedCount setDescriptor, markedCount = 0\<rparr>
                         else \<lparr>set_start = set_start setDescriptor + markedCount setDescriptor,
                               set_size = set_size setDescriptor - markedCount setDescriptor, markedCount = 0\<rparr>);
               newStart = (if newSetIsMarkedSet then set_start setDescriptor + markedCount setDescriptor else set_start setDescriptor);
               setDescriptor = \<lparr>set_start = newStart, set_size = set_size setDescriptor - set_size newSet, markedCount = 0\<rparr>;
               newSetIndex = length (m_sets p);
               elements = map (\<lambda>i. m_partitionedElements p ! i) [set_start newSet..<set_end newSet]
           in (p\<lparr>m_sets := (m_sets p)[setIndex := setDescriptor] @ [newSet],
                  m_elementToSetMap := fold (\<lambda>e m. m[e := newSetIndex]) elements (m_elementToSetMap p)\<rparr>,
               Some newSetIndex))"

text \<open>The function gets the partition to read it, and the state it may change.\<close>

definition refine_set :: "(nat \<Rightarrow> Partition \<Rightarrow> 's \<Rightarrow> 's) \<Rightarrow> nat \<Rightarrow> Partition \<times> 's \<Rightarrow> Partition \<times> 's" where
  "refine_set f setIndex = (\<lambda>(p, s).
     case split_set setIndex p of
       (p, None) \<Rightarrow> (p, s)
     | (p, Some newSetIndex) \<Rightarrow> (p, f newSetIndex p s))"

definition refineGeneration :: "(nat \<Rightarrow> Partition \<Rightarrow> 's \<Rightarrow> 's) \<Rightarrow> Partition \<times> 's \<Rightarrow> Partition \<times> 's" where
  "refineGeneration f = (\<lambda>(p, s).
     let (p, s) = fold (refine_set f) (m_setsMarkedInCurrentGeneration p) (p, s)
     in (p\<lparr>m_setsMarkedInCurrentGeneration := []\<rparr>, s))"

text \<open>\<open>refineGeneration([](unsigned) { })\<close>.\<close>

definition refine_only :: "Partition \<Rightarrow> Partition" where
  "refine_only p = fst (refineGeneration (\<lambda>_ _ s. s) (p, ()))"

definition Partition_setIndex :: "Partition \<Rightarrow> nat \<Rightarrow> nat" where
  "Partition_setIndex p elementIndex = m_elementToSetMap p ! elementIndex"

definition firstElementInSet :: "Partition \<Rightarrow> nat \<Rightarrow> nat" where
  "firstElementInSet p setIndex = m_partitionedElements p ! set_start (m_sets p ! setIndex)"

definition Partition_size :: "Partition \<Rightarrow> nat" where
  "Partition_size p = length (m_sets p)"

section \<open>The partition of the graph\<close>

record Transition =
  t_source :: nat
  t_target :: nat
  t_character :: nat

record FullGraphPartition =
  m_flattenedTransitionsStartOffsetPerNode :: "nat list"
  m_flattenedTransitionsSizePerNode :: "nat list"
  m_flattenedFallbackTransitionsStartOffsetPerNode :: "nat list"
  m_flattenedFallbackTransitionsSizePerNode :: "nat list"
  m_flattenedTransitions :: "Transition list"
  m_flattenedFallbackTransitions :: "nat list"
  m_nodePartition :: Partition
  m_transitionPartition :: Partition
  m_fallbackTransitionPartition :: Partition
  m_nextTransitionSetToProcess :: nat

definition increment :: "nat \<Rightarrow> nat list \<Rightarrow> nat list" where
  "increment i counters = counters[i := counters ! i + 1]"

text \<open>The transitions of all nodes, in the order of the two loops over the nodes.\<close>

definition all_transitions :: "DFA \<Rightarrow> Transition list" where
  "all_transitions dfa =
     concat (map (\<lambda>i. map (\<lambda>(k, t). \<lparr>t_source = i, t_target = t, t_character = k\<rparr>) (node_transitions dfa (nodes dfa ! i)))
       [0..<length (nodes dfa)])"

definition all_fallbacks :: "DFA \<Rightarrow> (nat \<times> nat) list" where
  "all_fallbacks dfa =
     concat (map (\<lambda>i. case fallbackTransitionDestination dfa (nodes dfa ! i) of None \<Rightarrow> [] | Some t \<Rightarrow> [(i, t)])
       [0..<length (nodes dfa)])"

definition count_incoming :: "nat \<Rightarrow> nat list \<Rightarrow> nat list" where
  "count_incoming n targets = fold increment targets (replicate n 0)"

fun accumulate :: "nat \<Rightarrow> nat list \<Rightarrow> nat list" where
  "accumulate accumulator [] = []"
| "accumulate accumulator (count # counts) = accumulator # accumulate (accumulator + count) counts"

text \<open>Sorts values by target: each goes behind the ones of its target that are already there.\<close>

definition place :: "nat list \<Rightarrow> 'a \<times> nat \<Rightarrow> 'a list \<times> nat list \<Rightarrow> 'a list \<times> nat list" where
  "place startOffsets = (\<lambda>(x, target) (flattened, sizes).
     (flattened[startOffsets ! target + sizes ! target := x], increment target sizes))"

definition flatten :: "nat \<Rightarrow> 'a \<Rightarrow> ('a \<times> nat) list \<Rightarrow> nat list \<times> 'a list \<times> nat list" where
  "flatten n dummy xs =
     (let counts = count_incoming n (map snd xs);
          startOffsets = accumulate 0 counts;
          (flattened, sizes) = fold (place startOffsets) xs (replicate (sum_list counts) dummy, replicate n 0)
      in (startOffsets, flattened, sizes))"

definition partition_by_character :: "Transition list \<Rightarrow> Partition" where
  "partition_by_character trs =
     fold (\<lambda>i p. refine_only
             (fold (\<lambda>transitionIndex p. if t_character (trs ! transitionIndex) = i
                                        then markElementInCurrentGeneration transitionIndex p else p)
                [0..<length trs] p))
       [0..<128] (Partition_initialize (length trs))"

definition new_FullGraphPartition :: "DFA \<Rightarrow> FullGraphPartition" where
  "new_FullGraphPartition dfa =
     (let n = length (nodes dfa);
          (start, flattened, sizes) =
            flatten n \<lparr>t_source = 0, t_target = 0, t_character = 0\<rparr> (map (\<lambda>t. (t, t_target t)) (all_transitions dfa));
          (fallbackStart, fallbackFlattened, fallbackSizes) = flatten n 0 (all_fallbacks dfa)
      in \<lparr>m_flattenedTransitionsStartOffsetPerNode = start,
          m_flattenedTransitionsSizePerNode = sizes,
          m_flattenedFallbackTransitionsStartOffsetPerNode = fallbackStart,
          m_flattenedFallbackTransitionsSizePerNode = fallbackSizes,
          m_flattenedTransitions = flattened,
          m_flattenedFallbackTransitions = fallbackFlattened,
          m_nodePartition = Partition_initialize n,
          m_transitionPartition = partition_by_character flattened,
          m_fallbackTransitionPartition = Partition_initialize (length fallbackFlattened),
          m_nextTransitionSetToProcess = 0\<rparr>)"

definition markNode :: "nat \<Rightarrow> FullGraphPartition \<Rightarrow> FullGraphPartition" where
  "markNode nodeIndex g = g\<lparr>m_nodePartition := markElementInCurrentGeneration nodeIndex (m_nodePartition g)\<rparr>"

text \<open>The incoming transitions of a node are marked in both partitions of transitions.\<close>

definition mark_incoming :: "nat list \<Rightarrow> nat list \<Rightarrow> nat \<Rightarrow> Partition \<Rightarrow> Partition" where
  "mark_incoming start sizes nodeIndex p =
     fold (\<lambda>i p. markElementInCurrentGeneration (start ! nodeIndex + i) p) [0..<sizes ! nodeIndex] p"

definition split_incoming :: "FullGraphPartition \<Rightarrow> nat \<Rightarrow> Partition \<Rightarrow> Partition \<times> Partition \<Rightarrow> Partition \<times> Partition" where
  "split_incoming g smallestSetIndex nodePartition = (\<lambda>(transitionPartition, fallbackPartition).
     let elements = iterateSet smallestSetIndex nodePartition;
         transitionPartition = fold (mark_incoming (m_flattenedTransitionsStartOffsetPerNode g) (m_flattenedTransitionsSizePerNode g))
           elements transitionPartition;
         fallbackPartition = fold (mark_incoming (m_flattenedFallbackTransitionsStartOffsetPerNode g) (m_flattenedFallbackTransitionsSizePerNode g))
           elements fallbackPartition
     in (refine_only transitionPartition, refine_only fallbackPartition))"

definition refinePartitions :: "FullGraphPartition \<Rightarrow> FullGraphPartition" where
  "refinePartitions g =
     (let (nodePartition, transitionPartition, fallbackPartition) =
            refineGeneration (split_incoming g) (m_nodePartition g, m_transitionPartition g, m_fallbackTransitionPartition g)
      in g\<lparr>m_nodePartition := nodePartition, m_transitionPartition := transitionPartition,
           m_fallbackTransitionPartition := fallbackPartition\<rparr>)"

fun splitByUniqueTransitions :: "nat \<Rightarrow> FullGraphPartition \<Rightarrow> FullGraphPartition outcome" where
  "splitByUniqueTransitions fuel g =
     (if Partition_size (m_transitionPartition g) \<le> m_nextTransitionSetToProcess g then Returned g
      else case fuel of
        0 \<Rightarrow> OutOfFuel
      | Suc fuel \<Rightarrow>
          let sources = map (\<lambda>transitionIndex. t_source (m_flattenedTransitions g ! transitionIndex))
                (iterateSet (m_nextTransitionSetToProcess g) (m_transitionPartition g));
              g = refinePartitions (fold markNode sources g)
          in splitByUniqueTransitions fuel (g\<lparr>m_nextTransitionSetToProcess := m_nextTransitionSetToProcess g + 1\<rparr>))"

fun splitByFallbackTransitions :: "nat \<Rightarrow> nat \<Rightarrow> nat \<Rightarrow> FullGraphPartition \<Rightarrow> FullGraphPartition outcome" where
  "splitByFallbackTransitions fuel n fallbackTransitionSetIndex g =
     (if Partition_size (m_fallbackTransitionPartition g) \<le> fallbackTransitionSetIndex then Returned g
      else case fuel of
        0 \<Rightarrow> OutOfFuel
      | Suc fuel \<Rightarrow>
          let sources = map (\<lambda>transitionIndex. m_flattenedFallbackTransitions g ! transitionIndex)
                (iterateSet fallbackTransitionSetIndex (m_fallbackTransitionPartition g));
              g = refinePartitions (fold markNode sources g)
          in case splitByUniqueTransitions n g of
               Returned g \<Rightarrow> splitByFallbackTransitions fuel n (fallbackTransitionSetIndex + 1) g
             | Crashed \<Rightarrow> Crashed
             | OutOfFuel \<Rightarrow> OutOfFuel)"

declare splitByUniqueTransitions.simps [simp del] splitByFallbackTransitions.simps [simp del]

definition nodeReplacement :: "FullGraphPartition \<Rightarrow> nat \<Rightarrow> nat" where
  "nodeReplacement g nodeIndex =
     firstElementInSet (m_nodePartition g) (Partition_setIndex (m_nodePartition g) nodeIndex)"

section \<open>Minimising\<close>

text \<open>The table of final states is keyed by the list of the actions of a node.\<close>

definition add_final_state :: "DFA \<Rightarrow> nat \<Rightarrow> (u64 list \<times> nat list) list \<Rightarrow> (u64 list \<times> nat list) list" where
  "add_final_state dfa i finalStates =
     (let node = nodes dfa ! i
      in if hasActions node
         then hm_modify (node_actions dfa node) (\<lambda>l. l @ [i]) (hm_add (node_actions dfa node) [] finalStates)
         else finalStates)"

definition final_states :: "DFA \<Rightarrow> (u64 list \<times> nat list) list" where
  "final_states dfa = fold (add_final_state dfa) [0..<length (nodes dfa)] []"

definition split_by_actions :: "DFA \<Rightarrow> FullGraphPartition \<Rightarrow> FullGraphPartition" where
  "split_by_actions dfa g = fold (\<lambda>slot g. refinePartitions (fold markNode (snd slot) g)) (final_states dfa) g"

definition kill_replaced :: "nat list \<Rightarrow> DFA \<Rightarrow> DFA" where
  "kill_replaced relocationVector dfa =
     fold (\<lambda>i dfa. if i \<noteq> relocationVector ! i then kill i dfa else dfa) [0..<length (nodes dfa)] dfa"

definition relocate_node :: "nat list \<Rightarrow> nat \<Rightarrow> DFA \<Rightarrow> DFA option" where
  "relocate_node relocationVector i dfa =
     (let node = nodes dfa ! i;
          trs = overwrite (m_transitionsStart node)
            (map (\<lambda>(k, t). (k, relocationVector ! t)) (node_transitions dfa node)) (dfa_transitions dfa);
          dfa = dfa\<lparr>dfa_transitions := trs\<rparr>
      in if hasFallbackTransition node
         then Option.bind (fallbackTransitionDestination dfa node)
                (\<lambda>t. changeFallbackTransition (relocationVector ! t) node dfa)
         else Some dfa)"

definition relocate :: "nat list \<Rightarrow> DFA \<Rightarrow> DFA option" where
  "relocate relocationVector dfa =
     Option.bind (for_nodes (relocate_node relocationVector) [0..<length (nodes dfa)] (kill_replaced relocationVector dfa))
       (\<lambda>dfa. map_option (\<lambda>dfa. dfa\<lparr>root := relocationVector ! root dfa\<rparr>) (simplifyTransitions dfa))"

definition partition_nodes :: "nat \<Rightarrow> DFA \<Rightarrow> FullGraphPartition outcome" where
  "partition_nodes fuel dfa =
     (case splitByUniqueTransitions fuel (split_by_actions dfa (new_FullGraphPartition dfa)) of
        Returned g \<Rightarrow> splitByFallbackTransitions fuel fuel 0 g
      | Crashed \<Rightarrow> Crashed
      | OutOfFuel \<Rightarrow> OutOfFuel)"

definition DFAMinimizer_minimize :: "nat \<Rightarrow> DFA \<Rightarrow> DFA outcome" where
  "DFAMinimizer_minimize fuel dfa =
     (case simplifyTransitions dfa of
        None \<Rightarrow> Crashed
      | Some dfa \<Rightarrow>
          case partition_nodes fuel dfa of
            Returned g \<Rightarrow>
              (let relocationVector = map (nodeReplacement g) [0..<length (nodes dfa)]
               in case relocate relocationVector dfa of None \<Rightarrow> Crashed | Some dfa \<Rightarrow> Returned dfa)
          | Crashed \<Rightarrow> Crashed
          | OutOfFuel \<Rightarrow> OutOfFuel)"

end
