(* ===== verification/CE_Partition.thy ===== *)
theory CE_Partition
  imports CE_Minimizer
begin

text \<open>
  The refinable partition of the minimiser is correct: marking an element moves it to the front part
  of its set, and refining splits every set into its marked and unmarked elements. The locale
  \<open>refinable\<close> is what the refinement loops rely on.
\<close>

section \<open>The interface\<close>

locale refinable =
  fixes ok :: "'p \<Rightarrow> bool"
    and size_of :: "'p \<Rightarrow> nat"
    and sets :: "'p \<Rightarrow> nat"
    and cls :: "'p \<Rightarrow> nat \<Rightarrow> nat"
    and marked :: "'p \<Rightarrow> nat set"
    and mark :: "nat \<Rightarrow> 'p \<Rightarrow> 'p"
    and refine :: "'p \<Rightarrow> 'p"
  assumes mark_law: "ok p \<Longrightarrow> e < size_of p \<Longrightarrow> e \<notin> marked p \<Longrightarrow>
      ok (mark e p) \<and> size_of (mark e p) = size_of p \<and> sets (mark e p) = sets p \<and>
      cls (mark e p) = cls p \<and> marked (mark e p) = insert e (marked p)"
    and refine_law: "ok p \<Longrightarrow>
      ok (refine p) \<and> size_of (refine p) = size_of p \<and> sets p \<le> sets (refine p) \<and> marked (refine p) = {} \<and>
      (\<forall>x < size_of p. cls (refine p) x = cls p x \<or> sets p \<le> cls (refine p) x) \<and>
      (\<forall>x < size_of p. \<forall>y < size_of p. cls (refine p) x = cls (refine p) y \<longrightarrow>
         cls p x = cls p y \<and> (x \<in> marked p \<longleftrightarrow> y \<in> marked p))"
begin

lemma mark_all:
  "ok p \<Longrightarrow> distinct es \<Longrightarrow> set es \<subseteq> {..<size_of p} \<Longrightarrow> set es \<inter> marked p = {} \<Longrightarrow>
     ok (fold mark es p) \<and> size_of (fold mark es p) = size_of p \<and> sets (fold mark es p) = sets p \<and>
     cls (fold mark es p) = cls p \<and> marked (fold mark es p) = set es \<union> marked p"
proof (induction es arbitrary: p)
  case (Cons e es)
  have m: "ok (mark e p) \<and> size_of (mark e p) = size_of p \<and> sets (mark e p) = sets p \<and>
      cls (mark e p) = cls p \<and> marked (mark e p) = insert e (marked p)"
    by (rule mark_law) (use Cons.prems in auto)
  moreover from m have "set es \<inter> marked (mark e p) = {}" "set es \<subseteq> {..<size_of (mark e p)}" using Cons.prems by auto
  ultimately show ?case using Cons.IH [of "mark e p"] Cons.prems(2) by simp
qed simp

lemma split_by:
  assumes "ok p" "distinct es" "set es \<subseteq> {..<size_of p}" "marked p = {}"
  defines "q \<equiv> refine (fold mark es p)"
  shows "ok q" "size_of q = size_of p" "sets p \<le> sets q" "marked q = {}"
    "x < size_of p \<Longrightarrow> cls q x = cls p x \<or> sets p \<le> cls q x"
    "x < size_of p \<Longrightarrow> y < size_of p \<Longrightarrow> cls q x = cls q y \<Longrightarrow> cls p x = cls p y \<and> (x \<in> set es \<longleftrightarrow> y \<in> set es)"
proof -
  have m: "ok (fold mark es p)" "size_of (fold mark es p) = size_of p" "sets (fold mark es p) = sets p"
    "cls (fold mark es p) = cls p" "marked (fold mark es p) = set es"
    using mark_all [OF assms(1-3)] assms(4) by auto
  note r = refine_law [OF m(1), folded q_def, unfolded m(2-5)]
  show "ok q" "size_of q = size_of p" "sets p \<le> sets q" "marked q = {}"
    "x < size_of p \<Longrightarrow> cls q x = cls p x \<or> sets p \<le> cls q x"
    "x < size_of p \<Longrightarrow> y < size_of p \<Longrightarrow> cls q x = cls q y \<Longrightarrow> cls p x = cls p y \<and> (x \<in> set es \<longleftrightarrow> y \<in> set es)"
    using r by blast+
qed

end

section \<open>Well-formed partitions\<close>

definition elements :: "Partition \<Rightarrow> nat" where
  "elements p = length (m_partitionedElements p)"

abbreviation elem :: "Partition \<Rightarrow> nat \<Rightarrow> nat" where
  "elem p i \<equiv> m_partitionedElements p ! i"

abbreviation pos :: "Partition \<Rightarrow> nat \<Rightarrow> nat" where
  "pos p e \<equiv> m_elementPositionInPartitionedNodes p ! e"

abbreviation desc :: "Partition \<Rightarrow> nat \<Rightarrow> SetDescriptor" where
  "desc p s \<equiv> m_sets p ! s"

definition pwf :: "Partition \<Rightarrow> bool" where
  "pwf p \<longleftrightarrow>
     length (m_elementPositionInPartitionedNodes p) = elements p \<and> length (m_elementToSetMap p) = elements p \<and>
     (\<forall>i < elements p. elem p i < elements p \<and> pos p (elem p i) = i) \<and>
     (\<forall>e < elements p. pos p e < elements p \<and> elem p (pos p e) = e) \<and>
     (\<forall>s < length (m_sets p). set_end (desc p s) \<le> elements p \<and> 0 < set_size (desc p s) \<and>
        markedCount (desc p s) \<le> set_size (desc p s)) \<and>
     (\<forall>e < elements p. Partition_setIndex p e < length (m_sets p)) \<and>
     (\<forall>e < elements p. \<forall>s < length (m_sets p).
        Partition_setIndex p e = s \<longleftrightarrow> set_start (desc p s) \<le> pos p e \<and> pos p e < set_end (desc p s))"

text \<open>The marked elements are the front part of their set.\<close>

definition is_marked :: "Partition \<Rightarrow> nat \<Rightarrow> bool" where
  "is_marked p e \<longleftrightarrow> pos p e < indexAfterMarkedElements (desc p (Partition_setIndex p e))"

definition marked_elements :: "Partition \<Rightarrow> nat set" where
  "marked_elements p = {e. e < elements p \<and> is_marked p e}"

definition marks_listed :: "nat list \<Rightarrow> Partition \<Rightarrow> bool" where
  "marks_listed ml p \<longleftrightarrow> distinct ml \<and> set ml = {s. s < length (m_sets p) \<and> 0 < markedCount (desc p s)}"

definition partition_ok :: "Partition \<Rightarrow> bool" where
  "partition_ok p \<longleftrightarrow> pwf p \<and> marks_listed (m_setsMarkedInCurrentGeneration p) p"

lemma pwfD:
  assumes "pwf p"
  shows "length (m_elementPositionInPartitionedNodes p) = elements p" "length (m_elementToSetMap p) = elements p"
    "i < elements p \<Longrightarrow> elem p i < elements p" "i < elements p \<Longrightarrow> pos p (elem p i) = i"
    "e < elements p \<Longrightarrow> pos p e < elements p" "e < elements p \<Longrightarrow> elem p (pos p e) = e"
    "s < length (m_sets p) \<Longrightarrow> set_end (desc p s) \<le> elements p"
    "s < length (m_sets p) \<Longrightarrow> 0 < set_size (desc p s)"
    "s < length (m_sets p) \<Longrightarrow> markedCount (desc p s) \<le> set_size (desc p s)"
    "e < elements p \<Longrightarrow> Partition_setIndex p e < length (m_sets p)"
    "e < elements p \<Longrightarrow> s < length (m_sets p) \<Longrightarrow>
       Partition_setIndex p e = s \<longleftrightarrow> set_start (desc p s) \<le> pos p e \<and> pos p e < set_end (desc p s)"
  using assms unfolding pwf_def by blast+

lemma pos_inj: "pwf p \<Longrightarrow> a < elements p \<Longrightarrow> b < elements p \<Longrightarrow> pos p a = pos p b \<longleftrightarrow> a = b"
  using pwfD(6) by metis

lemma set_bounds:
  assumes "pwf p" "e < elements p"
  shows "set_start (desc p (Partition_setIndex p e)) \<le> pos p e" "pos p e < set_end (desc p (Partition_setIndex p e))"
  using pwfD(11) [OF assms pwfD(10) [OF assms]] by simp_all

lemma initialize_ok: "partition_ok (Partition_initialize n)" "elements (Partition_initialize n) = n"
  "marked_elements (Partition_initialize n) = {}"
  by (auto simp: partition_ok_def pwf_def marks_listed_def Partition_initialize_def elements_def set_end_def
      Partition_setIndex_def marked_elements_def is_marked_def indexAfterMarkedElements_def nth_Cons')

section \<open>Marking\<close>

lemma swap_list:
  assumes "i < length xs" "j < length xs"
  shows "xs[i := xs ! j, j := xs ! i] ! k = xs ! (if k = i then j else if k = j then i else k)"
  using assms by (auto simp: nth_list_update)

lemma mark_ok:
  assumes ok: "partition_ok p" and e: "e < elements p" "e \<notin> marked_elements p"
  defines "q \<equiv> markElementInCurrentGeneration e p"
  shows "partition_ok q" "elements q = elements p" "length (m_sets q) = length (m_sets p)"
    "Partition_setIndex q = Partition_setIndex p" "marked_elements q = insert e (marked_elements p)"
proof -
  have wf: "pwf p" and ml: "marks_listed (m_setsMarkedInCurrentGeneration p) p" using ok by (simp_all add: partition_ok_def)
  define s where "s = Partition_setIndex p e"
  define d where "d = desc p s"
  define first where "first = indexAfterMarkedElements d"
  define u where "u = elem p first"
  have s: "s < length (m_sets p)" using pwfD(10) [OF wf e(1)] by (simp add: s_def)
  have pe: "set_start d \<le> pos p e" "pos p e < set_end d" using set_bounds [OF wf e(1)] by (simp_all add: d_def s_def)
  have "\<not> is_marked p e" using e by (simp add: marked_elements_def)
  then have first: "first \<le> pos p e" by (simp add: is_marked_def first_def d_def s_def)
  have fin: "set_end d \<le> elements p" using pwfD(7) [OF wf s] by (simp add: d_def)
  have fl: "first < elements p" "set_start d \<le> first" "first < set_end d"
    using first pe fin by (simp_all add: first_def indexAfterMarkedElements_def)
  have u: "u < elements p" "pos p u = first" using pwfD(3,4) [OF wf fl(1)] by (simp_all add: u_def)
  have ue: "u = e \<longleftrightarrow> first = pos p e" using pos_inj [OF wf u(1) e(1)] u(2) by simp
  have su: "Partition_setIndex p u = s" using pwfD(11) [OF wf u(1) s] u(2) fl by (simp add: d_def)
  have q: "q = p\<lparr>m_partitionedElements := (m_partitionedElements p)[first := e, pos p e := u],
      m_elementPositionInPartitionedNodes := (m_elementPositionInPartitionedNodes p)[e := first, u := pos p e],
      m_setsMarkedInCurrentGeneration := (if markedCount d = 0 then m_setsMarkedInCurrentGeneration p @ [s] else m_setsMarkedInCurrentGeneration p),
      m_sets := (m_sets p)[s := d\<lparr>markedCount := markedCount d + 1\<rparr>]\<rparr>"
    by (simp add: q_def markElementInCurrentGeneration_def Let_def u_def first_def d_def s_def Partition_setIndex_def)
  show el: "elements q = elements p" by (simp add: q elements_def)
  show sets: "length (m_sets q) = length (m_sets p)" by (simp add: q)
  show cls: "Partition_setIndex q = Partition_setIndex p" by (simp add: q Partition_setIndex_def fun_eq_iff)
  have le: "pos p e < elements p" "elem p (pos p e) = e" using pwfD(5,6) [OF wf e(1)] .
  have lens: "length (m_partitionedElements p) = elements p" "length (m_elementPositionInPartitionedNodes p) = elements p"
    using pwfD(1) [OF wf] by (simp_all add: elements_def)
  have elem: "elem q i = elem p (if i = first then pos p e else if i = pos p e then first else i)" for i
    using swap_list [of first "m_partitionedElements p" "pos p e" i] fl(1) le lens by (simp add: q u_def)
  have pos: "pos q x = pos p (if x = e then u else if x = u then e else x)" for x
    using swap_list [of e "m_elementPositionInPartitionedNodes p" u x] e(1) u lens by (simp add: q)
  have desc: "desc q t = (if t = s then d\<lparr>markedCount := markedCount d + 1\<rparr> else desc p t)" for t
    using s by (simp add: q nth_list_update)
  have desc_range: "set_start (desc q t) = set_start (desc p t)" "set_end (desc q t) = set_end (desc p t)"
    "set_size (desc q t) = set_size (desc p t)" for t
    by (simp_all add: desc set_end_def d_def)
  have mc: "markedCount d < set_size d" using fl by (simp add: first_def indexAfterMarkedElements_def set_end_def)
  have range: "set_start (desc p t) \<le> pos q x \<and> pos q x < set_end (desc p t) \<longleftrightarrow> Partition_setIndex p x = t"
    if "x < elements p" "t < length (m_sets p)" for x t
  proof -
    let ?y = "if x = e then u else if x = u then e else x"
    have "?y < elements p" "Partition_setIndex p ?y = Partition_setIndex p x" using that(1) e(1) u(1) su s_def by auto
    with pwfD(11) [OF wf _ that(2), of ?y] show ?thesis unfolding pos by simp
  qed
  show wfq: "partition_ok q"
    unfolding partition_ok_def
  proof
    show "pwf q"
      unfolding pwf_def el sets cls desc_range
    proof (intro conjI allI impI)
      show "length (m_elementPositionInPartitionedNodes q) = elements p" "length (m_elementToSetMap q) = elements p"
        using pwfD(1,2) [OF wf] by (simp_all add: q)
      show "elem q i < elements p" if "i < elements p" for i
        using that pwfD(3) [OF wf] fl(1) le by (auto simp: elem)
      show "pos q (elem q i) = i" if "i < elements p" for i
      proof -
        consider "i = first" | "i \<noteq> first" "i = pos p e" | "i \<noteq> first" "i \<noteq> pos p e" by blast
        then show ?thesis
        proof cases
          case 3
          then have "elem q i = elem p i" "elem p i \<noteq> e" "elem p i \<noteq> u" using pwfD(4) [OF wf that] u(2) by (auto simp: elem)
          with pwfD(4) [OF wf that] show ?thesis by (simp add: pos)
        qed (use le u ue u_def in \<open>auto simp: elem pos\<close>)
      qed
      show "pos q x < elements p" if "x < elements p" for x
        using that pwfD(5) [OF wf] e(1) u(1) by (auto simp: pos)
      show "elem q (pos q x) = x" if "x < elements p" for x
      proof -
        consider "x = e" | "x \<noteq> e" "x = u" | "x \<noteq> e" "x \<noteq> u" by blast
        then show ?thesis
        proof cases
          case 3
          then have "pos p x \<noteq> first" "pos p x \<noteq> pos p e" using pos_inj [OF wf that e(1)] pos_inj [OF wf that u(1)] u(2) by auto
          with 3 pwfD(6) [OF wf that] show ?thesis by (simp add: pos elem)
        qed (use le u u_def in \<open>auto simp: elem pos\<close>)
      qed
      show "set_end (desc p t) \<le> elements p" "0 < set_size (desc p t)" if "t < length (m_sets p)" for t
        using that pwfD(7,8) [OF wf] by blast+
      show "Partition_setIndex p x < length (m_sets p)" if "x < elements p" for x
        using that pwfD(10) [OF wf] by blast
      show "markedCount (desc q t) \<le> set_size (desc p t)" if "t < length (m_sets p)" for t
        using pwfD(9) [OF wf that] mc by (simp add: desc d_def)
      show "Partition_setIndex p x = t \<longleftrightarrow> set_start (desc p t) \<le> pos q x \<and> pos q x < set_end (desc p t)"
        if "x < elements p" "t < length (m_sets p)" for x t
        using range [OF that] by blast
    qed
    show "marks_listed (m_setsMarkedInCurrentGeneration q) q"
      using ml s unfolding marks_listed_def sets desc
      by (auto simp: q d_def)
  qed
  have "is_marked q x \<longleftrightarrow> x = e \<or> is_marked p x" if x: "x < elements p" for x
  proof (cases "Partition_setIndex p x = s")
    case False
    then have "x \<noteq> e" "x \<noteq> u" using su by (auto simp: s_def)
    with False show ?thesis by (simp add: is_marked_def cls desc pos)
  next
    case True
    then have "is_marked q x \<longleftrightarrow> pos q x < Suc first"
      by (simp add: is_marked_def cls desc indexAfterMarkedElements_def first_def)
    moreover have "is_marked p x \<longleftrightarrow> pos p x < first" using True by (simp add: is_marked_def first_def d_def)
    moreover have "pos q x < Suc first \<longleftrightarrow> x = e \<or> pos p x < first"
      using first u x e(1) ue pos_inj [OF wf x u(1)] by (auto simp: pos less_Suc_eq)
    ultimately show ?thesis by blast
  qed
  then show "marked_elements q = insert e (marked_elements p)" using e(1) by (auto simp: marked_elements_def el)
qed

section \<open>Splitting\<close>

text \<open>What splitting one set does to the classes.\<close>

definition splits :: "nat \<Rightarrow> Partition \<Rightarrow> Partition \<Rightarrow> nat option \<Rightarrow> bool" where
  "splits s p q new \<longleftrightarrow>
     elements q = elements p \<and> m_setsMarkedInCurrentGeneration q = m_setsMarkedInCurrentGeneration p \<and>
     length (m_sets q) = length (m_sets p) + (if new = None then 0 else 1) \<and> (new = None \<or> new = Some (length (m_sets p))) \<and>
     marked_elements q = marked_elements p - {e. Partition_setIndex p e = s} \<and>
     (\<forall>t < length (m_sets p). t \<noteq> s \<longrightarrow> desc q t = desc p t) \<and> markedCount (desc q s) = 0 \<and>
     (\<forall>t < length (m_sets q). length (m_sets p) \<le> t \<longrightarrow> markedCount (desc q t) = 0) \<and>
     (\<forall>e < elements p. Partition_setIndex q e = Partition_setIndex p e \<or>
        Partition_setIndex p e = s \<and> new = Some (Partition_setIndex q e)) \<and>
     (\<forall>x < elements p. \<forall>y < elements p. Partition_setIndex p x = s \<longrightarrow> Partition_setIndex p y = s \<longrightarrow>
        Partition_setIndex q x = Partition_setIndex q y \<longrightarrow> (x \<in> marked_elements p \<longleftrightarrow> y \<in> marked_elements p))"

lemma fold_set_index:
  "x < length m \<Longrightarrow> fold (\<lambda>e m. m[e := n]) es m ! x = (if x \<in> set es then n else m ! x)"
  "length (fold (\<lambda>e m. m[e := n]) es m) = length m"
  by (induction es arbitrary: m) (auto simp: nth_list_update)

lemma range_elements:
  assumes "pwf p" "b \<le> elements p" "x < elements p"
  shows "x \<in> set (map (\<lambda>i. elem p i) [a..<b]) \<longleftrightarrow> a \<le> pos p x \<and> pos p x < b"
proof
  assume "x \<in> set (map (\<lambda>i. elem p i) [a..<b])"
  then obtain i where "x = elem p i" "a \<le> i" "i < b" by auto
  with pwfD(4) [OF assms(1), of i] assms(2) show "a \<le> pos p x \<and> pos p x < b" by simp
next
  assume "a \<le> pos p x \<and> pos p x < b"
  then have "pos p x \<in> set [a..<b]" "x = elem p (pos p x)" using pwfD(6) [OF assms(1,3)] by simp_all
  then show "x \<in> set (map (\<lambda>i. elem p i) [a..<b])" by (metis image_eqI set_map)
qed

lemma split_set_ok:
  assumes wf: "pwf p" and s: "s < length (m_sets p)" "0 < markedCount (desc p s)"
    and r: "split_set s p = (q, new)"
  shows "pwf q \<and> splits s p q new"
proof (cases "markedCount (desc p s) = set_size (desc p s)")
  case True
  then have q: "q = p\<lparr>m_sets := (m_sets p)[s := (desc p s)\<lparr>markedCount := 0\<rparr>]\<rparr>" "new = None"
    using r by (auto simp: split_set_def Let_def)
  have el: "elements q = elements p" "Partition_setIndex q = Partition_setIndex p" "length (m_sets q) = length (m_sets p)"
    by (simp_all add: q elements_def Partition_setIndex_def fun_eq_iff)
  have desc: "desc q t = (if t = s then (desc p s)\<lparr>markedCount := 0\<rparr> else desc p t)" for t
    using s(1) by (simp add: q nth_list_update)
  have rng: "set_start (desc q t) = set_start (desc p t)" "set_end (desc q t) = set_end (desc p t)"
    "set_size (desc q t) = set_size (desc p t)" "markedCount (desc q t) \<le> markedCount (desc p t)" for t
    by (simp_all add: desc set_end_def)
  have same: "m_elementPositionInPartitionedNodes q = m_elementPositionInPartitionedNodes p"
    "m_partitionedElements q = m_partitionedElements p" "m_elementToSetMap q = m_elementToSetMap p" by (simp_all add: q)
  have "pwf q"
    using wf unfolding pwf_def el rng same by (meson le_trans rng(4))
  moreover have mk: "is_marked q x \<longleftrightarrow> is_marked p x \<and> Partition_setIndex p x \<noteq> s" if "x < elements p" for x
    using set_bounds(1) [OF wf that] by (auto simp: is_marked_def el desc same indexAfterMarkedElements_def)
  moreover have "x \<in> marked_elements p" if "x < elements p" "Partition_setIndex p x = s" for x
    using set_bounds(2) [OF wf that(1)] that True by (simp add: marked_elements_def is_marked_def indexAfterMarkedElements_def set_end_def)
  ultimately show ?thesis
    using s(1) by (auto simp: splits_def el desc q(2) marked_elements_def) (simp_all add: q)
next
  case False
  define d where "d = desc p s"
  define n where "n = length (m_sets p)"
  define small where "small \<longleftrightarrow> markedCount d * 2 \<le> set_size d"
  define mid where "mid = set_start d + markedCount d"
  define nd where "nd = (if small then \<lparr>set_start = set_start d, set_size = markedCount d, markedCount = 0\<rparr>
       else \<lparr>set_start = mid, set_size = set_size d - markedCount d, markedCount = 0\<rparr>)"
  define od where "od = \<lparr>set_start = (if small then mid else set_start d), set_size = set_size d - set_size nd, markedCount = 0\<rparr>"
  define es where "es = map (\<lambda>i. elem p i) [set_start nd..<set_end nd]"
  have mc: "0 < markedCount d" "markedCount d < set_size d" using False s(2) pwfD(9) [OF wf s(1)] by (simp_all add: d_def)
  have fin: "set_end d \<le> elements p" using pwfD(7) [OF wf s(1)] by (simp add: d_def)
  have "split_set s p = (p\<lparr>m_sets := (m_sets p)[s := od] @ [nd], m_elementToSetMap := fold (\<lambda>e m. m[e := n]) es (m_elementToSetMap p)\<rparr>, Some n)"
    using False unfolding small_def od_def nd_def es_def n_def mid_def d_def by (simp add: split_set_def Let_def)
  with r have q: "q = p\<lparr>m_sets := (m_sets p)[s := od] @ [nd], m_elementToSetMap := fold (\<lambda>e m. m[e := n]) es (m_elementToSetMap p)\<rparr>"
    "new = Some n" by simp_all
  have same: "m_elementPositionInPartitionedNodes q = m_elementPositionInPartitionedNodes p"
    "m_partitionedElements q = m_partitionedElements p" "elements q = elements p" "length (m_sets q) = Suc n"
    by (simp_all add: q n_def elements_def)
  have desc: "desc q t = (if t = s then od else if t = n then nd else desc p t)" if "t \<le> n" for t
    using s(1) that by (auto simp: q n_def nth_append nth_list_update)
  have nr: "set_end nd \<le> elements p" "0 < set_size nd" "set_end od \<le> elements p" "0 < set_size od" "markedCount nd = 0" "markedCount od = 0"
    using mc fin by (auto simp: nd_def od_def set_end_def mid_def)
  have parts: "set_start nd \<le> i \<and> i < set_end nd \<longleftrightarrow> (if small then set_start d \<le> i \<and> i < mid else mid \<le> i \<and> i < set_end d)"
    "set_start od \<le> i \<and> i < set_end od \<longleftrightarrow> (if small then mid \<le> i \<and> i < set_end d else set_start d \<le> i \<and> i < mid)" for i
    using mc by (auto simp: nd_def od_def set_end_def mid_def)
  have cls: "Partition_setIndex q x = (if set_start nd \<le> pos p x \<and> pos p x < set_end nd then n else Partition_setIndex p x)"
    if "x < elements p" for x
    using range_elements [OF wf nr(1) that] that pwfD(2) [OF wf] by (simp add: Partition_setIndex_def q fold_set_index es_def)
  have inS: "Partition_setIndex p x = s \<longleftrightarrow> set_start d \<le> pos p x \<and> pos p x < set_end d" if "x < elements p" for x
    using pwfD(11) [OF wf that s(1)] by (simp add: d_def)
  have mid: "set_start d \<le> mid" "mid \<le> set_end d" using mc by (simp_all add: mid_def set_end_def)
  have cls': "Partition_setIndex q x = n \<and> Partition_setIndex p x = s \<or> Partition_setIndex q x = Partition_setIndex p x" if "x < elements p" for x
    using cls [OF that] inS [OF that] parts(1) [of "pos p x"] mid by auto
  have old: "Partition_setIndex p x < n" if "x < elements p" for x using pwfD(10) [OF wf that] by (simp add: n_def)
  have "pwf q"
    unfolding pwf_def same
  proof (intro conjI allI impI)
    show "length (m_elementToSetMap q) = elements p" using pwfD(2) [OF wf] by (simp add: q fold_set_index)
    show "set_end (desc q t) \<le> elements p" "0 < set_size (desc q t)" "markedCount (desc q t) \<le> set_size (desc q t)" if "t < Suc n" for t
      using that nr pwfD(7,8,9) [OF wf, of t] by (auto simp: desc n_def [symmetric])
    show "Partition_setIndex q x < Suc n" if "x < elements p" for x using cls' [OF that] old [OF that] by auto
    show "Partition_setIndex q x = t \<longleftrightarrow> set_start (desc q t) \<le> pos p x \<and> pos p x < set_end (desc q t)"
      if x: "x < elements p" and t: "t < Suc n" for x t
    proof -
      consider "t = s" | "t = n" "t \<noteq> s" | "t < n" "t \<noteq> s" using t by linarith
      then show ?thesis
      proof cases
        case 1
        then show ?thesis
          using cls [OF x] inS [OF x] parts [of "pos p x"] mid s(1) old [OF x] by (auto simp: desc n_def)
      next
        case 2
        then show ?thesis using cls [OF x] old [OF x] by (auto simp: desc)
      next
        case 3
        then have "Partition_setIndex p x = t \<longleftrightarrow> set_start (desc p t) \<le> pos p x \<and> pos p x < set_end (desc p t)"
          using pwfD(11) [OF wf x] by (simp add: n_def)
        with 3 cls' [OF x] show ?thesis by (auto simp: desc)
      qed
    qed
  qed (use pwfD [OF wf] in blast)+
  moreover have "is_marked q x \<longleftrightarrow> is_marked p x \<and> Partition_setIndex p x \<noteq> s" if x: "x < elements p" for x
  proof (cases "Partition_setIndex p x = s")
    case True
    then have "desc q (Partition_setIndex q x) = (if Partition_setIndex q x = n then nd else od)"
      using cls' [OF x] s(1) by (auto simp: desc n_def)
    then have "set_start (desc q (Partition_setIndex q x)) \<le> pos p x \<and> markedCount (desc q (Partition_setIndex q x)) = 0"
      using set_bounds(1) [OF \<open>pwf q\<close>, of x] x nr(5,6) by (simp add: same)
    then show ?thesis using True by (simp add: is_marked_def same indexAfterMarkedElements_def)
  next
    case False
    then have "Partition_setIndex q x = Partition_setIndex p x" using cls' [OF x] by blast
    moreover have "desc q (Partition_setIndex p x) = desc p (Partition_setIndex p x)" using False old [OF x] by (simp add: desc)
    ultimately show ?thesis using False by (simp add: is_marked_def same)
  qed
  moreover have "x \<in> marked_elements p \<longleftrightarrow> y \<in> marked_elements p"
    if "x < elements p" "y < elements p" "Partition_setIndex p x = s" "Partition_setIndex p y = s" "Partition_setIndex q x = Partition_setIndex q y" for x y
  proof -
    have m: "z \<in> marked_elements p \<longleftrightarrow> pos p z < mid" if "z < elements p" "Partition_setIndex p z = s" for z
      using that by (simp add: marked_elements_def is_marked_def d_def [symmetric] mid_def indexAfterMarkedElements_def)
    have "s < n" using s(1) by (simp add: n_def)
    then show ?thesis
      unfolding m [OF that(1,3)] m [OF that(2,4)]
      using that cls [OF that(1)] cls [OF that(2)] inS [OF that(1)] inS [OF that(2)] parts(1) [of "pos p x"] parts(1) [of "pos p y"]
      by (auto split: if_splits)
  qed
  ultimately have wfq: "pwf q"
    and mk: "\<And>x. x < elements p \<Longrightarrow> is_marked q x \<longleftrightarrow> is_marked p x \<and> Partition_setIndex p x \<noteq> s"
    and agree: "\<And>x y. x < elements p \<Longrightarrow> y < elements p \<Longrightarrow> Partition_setIndex p x = s \<Longrightarrow> Partition_setIndex p y = s \<Longrightarrow>
      Partition_setIndex q x = Partition_setIndex q y \<Longrightarrow> x \<in> marked_elements p \<longleftrightarrow> y \<in> marked_elements p" by blast+
  have "splits s p q new"
    unfolding splits_def same(3,4) n_def [symmetric] q(2)
  proof (intro conjI allI impI)
    show "m_setsMarkedInCurrentGeneration q = m_setsMarkedInCurrentGeneration p" by (simp add: q)
    show "marked_elements q = marked_elements p - {e. Partition_setIndex p e = s}"
      using mk by (auto simp: marked_elements_def same)
    show "desc q t = desc p t" if "t < n" "t \<noteq> s" for t using that by (simp add: desc)
    show "markedCount (desc q s) = 0" using s(1) nr(6) by (simp add: desc n_def)
    show "markedCount (desc q t) = 0" if "t < Suc n" "n \<le> t" for t
      using that nr(5,6) by (simp add: desc)
    show "Partition_setIndex q e = Partition_setIndex p e \<or> Partition_setIndex p e = s \<and> Some n = Some (Partition_setIndex q e)"
      if "e < elements p" for e using cls' [OF that] by auto
    show "x \<in> marked_elements p \<longleftrightarrow> y \<in> marked_elements p"
      if "x < elements p" "y < elements p" "Partition_setIndex p x = s" "Partition_setIndex p y = s"
        "Partition_setIndex q x = Partition_setIndex q y" for x y by (rule agree [OF that])
  qed simp_all
  with wfq show ?thesis by blast
qed

section \<open>Refining\<close>

text \<open>The state of the loop over the marked sets, of which \<open>rest\<close> are left.\<close>

definition refining :: "Partition \<Rightarrow> nat list \<Rightarrow> Partition \<Rightarrow> bool" where
  "refining p0 rest p \<longleftrightarrow>
     pwf p \<and> elements p = elements p0 \<and> length (m_sets p0) \<le> length (m_sets p) \<and> marks_listed rest p \<and>
     set rest \<subseteq> {..<length (m_sets p0)} \<and>
     (\<forall>x < elements p0. Partition_setIndex p0 x \<in> set rest \<longrightarrow> Partition_setIndex p x = Partition_setIndex p0 x) \<and>
     (\<forall>x < elements p0. Partition_setIndex p x \<in> set rest \<longrightarrow> (x \<in> marked_elements p \<longleftrightarrow> x \<in> marked_elements p0)) \<and>
     (\<forall>x < elements p0. Partition_setIndex p x = Partition_setIndex p0 x \<or> length (m_sets p0) \<le> Partition_setIndex p x) \<and>
     (\<forall>x < elements p0. \<forall>y < elements p0. Partition_setIndex p x = Partition_setIndex p y \<longrightarrow>
        Partition_setIndex p0 x = Partition_setIndex p0 y \<and>
        (Partition_setIndex p0 x \<in> set rest \<or> (x \<in> marked_elements p0 \<longleftrightarrow> y \<in> marked_elements p0)))"

lemma refining_start:
  assumes "partition_ok p"
  shows "refining p (m_setsMarkedInCurrentGeneration p) p"
proof -
  have wf: "pwf p" and ml: "marks_listed (m_setsMarkedInCurrentGeneration p) p" using assms by (simp_all add: partition_ok_def)
  have "Partition_setIndex p x \<in> set (m_setsMarkedInCurrentGeneration p)" if "x < elements p" "x \<in> marked_elements p" for x
  proof -
    have "0 < markedCount (desc p (Partition_setIndex p x))"
      using that set_bounds(1) [OF wf that(1)] by (simp add: marked_elements_def is_marked_def indexAfterMarkedElements_def)
    with ml pwfD(10) [OF wf that(1)] show ?thesis by (simp add: marks_listed_def)
  qed
  then have "Partition_setIndex p x \<in> set (m_setsMarkedInCurrentGeneration p) \<or> (x \<in> marked_elements p \<longleftrightarrow> y \<in> marked_elements p)"
    if "x < elements p" "y < elements p" "Partition_setIndex p x = Partition_setIndex p y" for x y using that by metis
  moreover have "set (m_setsMarkedInCurrentGeneration p) \<subseteq> {..<length (m_sets p)}" using ml by (auto simp: marks_listed_def)
  ultimately show ?thesis using wf ml unfolding refining_def by blast
qed

lemma refiningD:
  assumes "refining p0 rest p"
  shows "pwf p" "elements p = elements p0" "length (m_sets p0) \<le> length (m_sets p)" "marks_listed rest p"
    "set rest \<subseteq> {..<length (m_sets p0)}"
    "x < elements p0 \<Longrightarrow> Partition_setIndex p0 x \<in> set rest \<Longrightarrow> Partition_setIndex p x = Partition_setIndex p0 x"
    "x < elements p0 \<Longrightarrow> Partition_setIndex p x \<in> set rest \<Longrightarrow> x \<in> marked_elements p \<longleftrightarrow> x \<in> marked_elements p0"
    "x < elements p0 \<Longrightarrow> Partition_setIndex p x = Partition_setIndex p0 x \<or> length (m_sets p0) \<le> Partition_setIndex p x"
    "x < elements p0 \<Longrightarrow> y < elements p0 \<Longrightarrow> Partition_setIndex p x = Partition_setIndex p y \<Longrightarrow>
        Partition_setIndex p0 x = Partition_setIndex p0 y \<and>
        (Partition_setIndex p0 x \<in> set rest \<or> (x \<in> marked_elements p0 \<longleftrightarrow> y \<in> marked_elements p0))"
  using assms unfolding refining_def by blast+

lemma splitsD:
  assumes "splits s p q new"
  shows "elements q = elements p" "length (m_sets p) \<le> length (m_sets q)"
    "marked_elements q = marked_elements p - {e. Partition_setIndex p e = s}"
    "t < length (m_sets p) \<Longrightarrow> t \<noteq> s \<Longrightarrow> desc q t = desc p t" "markedCount (desc q s) = 0"
    "t < length (m_sets q) \<Longrightarrow> length (m_sets p) \<le> t \<Longrightarrow> markedCount (desc q t) = 0"
    "e < elements p \<Longrightarrow> Partition_setIndex q e = Partition_setIndex p e \<or>
        Partition_setIndex p e = s \<and> Partition_setIndex q e = length (m_sets p)"
    "x < elements p \<Longrightarrow> y < elements p \<Longrightarrow> Partition_setIndex p x = s \<Longrightarrow> Partition_setIndex p y = s \<Longrightarrow>
        Partition_setIndex q x = Partition_setIndex q y \<Longrightarrow> x \<in> marked_elements p \<longleftrightarrow> y \<in> marked_elements p"
    "new = None \<and> length (m_sets q) = length (m_sets p) \<or> new = Some (length (m_sets p)) \<and> length (m_sets q) = Suc (length (m_sets p))"
    "e < elements p \<Longrightarrow> Partition_setIndex q e \<noteq> Partition_setIndex p e \<Longrightarrow> new = Some (Partition_setIndex q e)"
proof -
  show n: "new = None \<and> length (m_sets q) = length (m_sets p) \<or> new = Some (length (m_sets p)) \<and> length (m_sets q) = Suc (length (m_sets p))"
    using assms unfolding splits_def by (cases new) simp_all
  then show "length (m_sets p) \<le> length (m_sets q)" by auto
  show "e < elements p \<Longrightarrow> Partition_setIndex q e \<noteq> Partition_setIndex p e \<Longrightarrow> new = Some (Partition_setIndex q e)"
    using assms unfolding splits_def by blast
  have "e < elements p \<Longrightarrow> Partition_setIndex q e = Partition_setIndex p e \<or>
        Partition_setIndex p e = s \<and> new = Some (Partition_setIndex q e)" using assms unfolding splits_def by blast
  with n show "e < elements p \<Longrightarrow> Partition_setIndex q e = Partition_setIndex p e \<or>
        Partition_setIndex p e = s \<and> Partition_setIndex q e = length (m_sets p)" by auto
qed (use assms in \<open>unfold splits_def, blast+\<close>)

lemma refining_step:
  assumes inv: "refining p0 (s # rest) p" and r: "split_set s p = (q, new)"
  shows "refining p0 rest q \<and> splits s p q new \<and> pwf p"
proof -
  note D = refiningD [OF inv]
  note wf = D(1) and el = D(2) and le = D(3) and ml = D(4) and old = D(6) and mk = D(7) and new0 = D(8) and eq = D(9)
  have sub: "s < length (m_sets p0)" "set rest \<subseteq> {..<length (m_sets p0)}" using D(5) by auto
  have s: "s < length (m_sets p)" "0 < markedCount (desc p s)" "s \<notin> set rest" "distinct rest"
    "set (s # rest) = {t. t < length (m_sets p) \<and> 0 < markedCount (desc p t)}"
    using ml by (auto simp: marks_listed_def)
  note S = split_set_ok [OF wf s(1,2) r]
  from S have "splits s p q new" by blast
  note sp = splitsD [OF this, unfolded el]
  have lt: "Partition_setIndex p x < length (m_sets p)" if "x < elements p0" for x using pwfD(10) [OF wf] that el by simp
  have "refining p0 rest q"
    unfolding refining_def sp(1)
  proof (intro conjI allI impI)
    show "length (m_sets p0) \<le> length (m_sets q)" using le sp(2) by simp
    show "marks_listed rest q"
      unfolding marks_listed_def
    proof (intro conjI s(4) set_eqI iffI CollectI)
      fix t assume t: "t \<in> set rest"
      with s(3,5) have "t \<noteq> s" "t < length (m_sets p)" "0 < markedCount (desc p t)" by auto
      with sp(2,4) show "t < length (m_sets q)" "0 < markedCount (desc q t)" by auto
    next
      fix t assume "t \<in> {t. t < length (m_sets q) \<and> 0 < markedCount (desc q t)}"
      then have t: "t < length (m_sets q)" "0 < markedCount (desc q t)" by simp_all
      then have "t \<noteq> s" "\<not> length (m_sets p) \<le> t" using sp(5) sp(6) [of t] by auto
      moreover from this have "t < length (m_sets p)" by simp
      ultimately have "t \<in> set (s # rest)" unfolding s(5) using t sp(4) [of t] by simp
      with \<open>t \<noteq> s\<close> show "t \<in> set rest" by simp
    qed
    show "Partition_setIndex q x = Partition_setIndex p0 x" if "x < elements p0" "Partition_setIndex p0 x \<in> set rest" for x
      using that old [OF that(1)] sp(7) [OF that(1)] s(3) by auto
    show "x \<in> marked_elements q \<longleftrightarrow> x \<in> marked_elements p0" if "x < elements p0" "Partition_setIndex q x \<in> set rest" for x
    proof -
      have "Partition_setIndex q x < length (m_sets p)" using that(2) sub(2) le by auto
      then have "Partition_setIndex q x = Partition_setIndex p x" "Partition_setIndex p x \<noteq> s" using sp(7) [OF that(1)] that(2) s(3) by auto
      with mk [OF that(1)] that sp(3) show ?thesis by auto
    qed
    show "Partition_setIndex q x = Partition_setIndex p0 x \<or> length (m_sets p0) \<le> Partition_setIndex q x" if "x < elements p0" for x
      using new0 [OF that] sp(7) [OF that] le by auto
    fix x y assume x: "x < elements p0" and y: "y < elements p0" and e: "Partition_setIndex q x = Partition_setIndex q y"
    have cxy: "Partition_setIndex p x = Partition_setIndex p y" using e sp(7) [OF x] sp(7) [OF y] lt [OF x] lt [OF y] by auto
    note E = eq [OF x y cxy]
    show "Partition_setIndex p0 x = Partition_setIndex p0 y" using E by blast
    show "Partition_setIndex p0 x \<in> set rest \<or> (x \<in> marked_elements p0 \<longleftrightarrow> y \<in> marked_elements p0)"
    proof (cases "Partition_setIndex p0 x = s")
      case True
      then have "Partition_setIndex p x = s" "Partition_setIndex p y = s" using old [OF x] cxy by auto
      with sp(8) [OF x y _ _ e] mk [OF x] mk [OF y] show ?thesis by auto
    qed (use E in auto)
  qed (use S sub in auto)
  with S wf show ?thesis by blast
qed

text \<open>An invariant of the partition and the other state, kept by every split, is kept by refining.\<close>

lemma refine_fold:
  assumes step: "\<And>s p \<sigma> q new. pwf p \<Longrightarrow> pwf q \<Longrightarrow> splits s p q new \<Longrightarrow> I p \<sigma> \<Longrightarrow> I q (case new of None \<Rightarrow> \<sigma> | Some n \<Rightarrow> f n q \<sigma>)"
  shows "refining p0 rest p \<Longrightarrow> I p \<sigma> \<Longrightarrow> fold (refine_set f) rest (p, \<sigma>) = (q, \<sigma>') \<Longrightarrow> refining p0 [] q \<and> I q \<sigma>'"
proof (induction rest arbitrary: p \<sigma>)
  case (Cons s rest)
  obtain p1 new where r: "split_set s p = (p1, new)" by fastforce
  note R = refining_step [OF Cons.prems(1) r]
  then have wf1: "pwf p1" by (simp add: refining_def)
  let ?\<sigma> = "case new of None \<Rightarrow> \<sigma> | Some n \<Rightarrow> f n p1 \<sigma>"
  have "refine_set f s (p, \<sigma>) = (p1, ?\<sigma>)" using r by (simp add: refine_set_def split: option.split)
  then have "fold (refine_set f) rest (p1, ?\<sigma>) = (q, \<sigma>')" using Cons.prems(3) by simp
  then show ?case using Cons.IH [of p1 ?\<sigma>] step [OF _ wf1, of p s new \<sigma>] R Cons.prems(2) by blast
qed simp

lemma clear_marks [simp]:
  "elements (p\<lparr>m_setsMarkedInCurrentGeneration := l\<rparr>) = elements p"
  "Partition_setIndex (p\<lparr>m_setsMarkedInCurrentGeneration := l\<rparr>) = Partition_setIndex p"
  "marked_elements (p\<lparr>m_setsMarkedInCurrentGeneration := l\<rparr>) = marked_elements p"
  "pwf (p\<lparr>m_setsMarkedInCurrentGeneration := l\<rparr>) = pwf p"
  by (auto simp: elements_def Partition_setIndex_def marked_elements_def is_marked_def pwf_def fun_eq_iff)

lemma no_marks:
  assumes "pwf p" "marks_listed [] p"
  shows "marked_elements p = {}"
proof -
  have "\<not> is_marked p x" if "x < elements p" for x
  proof -
    have "markedCount (desc p (Partition_setIndex p x)) = 0"
      using assms(2) pwfD(10) [OF assms(1) that] by (auto simp: marks_listed_def)
    then show ?thesis using set_bounds(1) [OF assms(1) that] by (simp add: is_marked_def indexAfterMarkedElements_def)
  qed
  then show ?thesis by (auto simp: marked_elements_def)
qed

lemma refineGeneration_correct:
  assumes ok: "partition_ok p" and I: "I p \<sigma>" and r: "refineGeneration f (p, \<sigma>) = (q, \<sigma>')"
    and step: "\<And>s p \<sigma> q new. pwf p \<Longrightarrow> pwf q \<Longrightarrow> splits s p q new \<Longrightarrow> I p \<sigma> \<Longrightarrow> I q (case new of None \<Rightarrow> \<sigma> | Some n \<Rightarrow> f n q \<sigma>)"
    and clear: "\<And>p \<sigma>. I p \<sigma> \<Longrightarrow> I (p\<lparr>m_setsMarkedInCurrentGeneration := []\<rparr>) \<sigma>"
  shows "partition_ok q \<and> elements q = elements p \<and> length (m_sets p) \<le> length (m_sets q) \<and> marked_elements q = {} \<and>
      (\<forall>x < elements p. Partition_setIndex q x = Partition_setIndex p x \<or> length (m_sets p) \<le> Partition_setIndex q x) \<and>
      (\<forall>x < elements p. \<forall>y < elements p. Partition_setIndex q x = Partition_setIndex q y \<longrightarrow>
         Partition_setIndex p x = Partition_setIndex p y \<and> (x \<in> marked_elements p \<longleftrightarrow> y \<in> marked_elements p)) \<and> I q \<sigma>'"
proof -
  obtain p1 where f: "fold (refine_set f) (m_setsMarkedInCurrentGeneration p) (p, \<sigma>) = (p1, \<sigma>')"
    and q: "q = p1\<lparr>m_setsMarkedInCurrentGeneration := []\<rparr>"
    using r by (auto simp: refineGeneration_def split: prod.splits)
  have "refining p [] p1 \<and> I p1 \<sigma>'"
    by (rule refine_fold [OF step refining_start [OF ok] I f])
  then have R: "refining p [] p1" "I p1 \<sigma>'" by blast+
  note D = refiningD [OF R(1)]
  have e: "elements q = elements p" "m_sets q = m_sets p1" "Partition_setIndex q = Partition_setIndex p1" "marked_elements q = {}"
    using D(2) no_marks [OF D(1,4)] by (simp_all add: q)
  have "partition_ok q" using D(1,4) by (simp add: q partition_ok_def marks_listed_def)
  moreover have "I q \<sigma>'" using clear [OF R(2)] q by simp
  moreover have "Partition_setIndex p x = Partition_setIndex p y \<and> (x \<in> marked_elements p \<longleftrightarrow> y \<in> marked_elements p)"
    if "x < elements p" "y < elements p" "Partition_setIndex q x = Partition_setIndex q y" for x y
    using D(9) [of x y] that e(3) by simp
  ultimately show ?thesis using D(3,8) unfolding e by blast
qed

lemma refine_only_correct:
  assumes "partition_ok p"
  shows "partition_ok (refine_only p) \<and> elements (refine_only p) = elements p \<and> length (m_sets p) \<le> length (m_sets (refine_only p)) \<and>
      marked_elements (refine_only p) = {} \<and>
      (\<forall>x < elements p. Partition_setIndex (refine_only p) x = Partition_setIndex p x \<or> length (m_sets p) \<le> Partition_setIndex (refine_only p) x) \<and>
      (\<forall>x < elements p. \<forall>y < elements p. Partition_setIndex (refine_only p) x = Partition_setIndex (refine_only p) y \<longrightarrow>
         Partition_setIndex p x = Partition_setIndex p y \<and> (x \<in> marked_elements p \<longleftrightarrow> y \<in> marked_elements p))"
proof -
  define q where "q = fst (refineGeneration (\<lambda>_ _ s. s) (p, ()))"
  have q: "refineGeneration (\<lambda>_ _ s. s) (p, ()) = (q, ())" by (simp add: q_def prod_eq_iff)
  have "refine_only p = q" by (simp only: refine_only_def q_def)
  show ?thesis
    unfolding \<open>refine_only p = q\<close> using refineGeneration_correct [OF assms _ q, of "\<lambda>_ _. True"] by blast
qed

interpretation part: refinable partition_ok elements "\<lambda>p. length (m_sets p)" Partition_setIndex marked_elements
  markElementInCurrentGeneration refine_only
proof unfold_locales
  fix p e assume a: "partition_ok p" "e < elements p" "e \<notin> marked_elements p"
  show "partition_ok (markElementInCurrentGeneration e p) \<and> elements (markElementInCurrentGeneration e p) = elements p \<and>
      length (m_sets (markElementInCurrentGeneration e p)) = length (m_sets p) \<and>
      Partition_setIndex (markElementInCurrentGeneration e p) = Partition_setIndex p \<and>
      marked_elements (markElementInCurrentGeneration e p) = insert e (marked_elements p)"
    using mark_ok [OF a] by blast
qed (use refine_only_correct in blast)

text \<open>The sets of a partition are the lists of their elements, and there are no more than elements.\<close>

lemma iterateSet_set:
  assumes "pwf p" "s < length (m_sets p)"
  shows "set (iterateSet s p) = {e. e < elements p \<and> Partition_setIndex p e = s}" "distinct (iterateSet s p)"
proof -
  have b: "set_end (desc p s) \<le> elements p" by (rule pwfD(7) [OF assms])
  show "set (iterateSet s p) = {e. e < elements p \<and> Partition_setIndex p e = s}"
  proof (intro set_eqI iffI CollectI conjI)
    fix e assume e: "e \<in> set (iterateSet s p)"
    then show lt: "e < elements p" using b pwfD(3) [OF assms(1)] by (auto simp: iterateSet_def Let_def)
    show "Partition_setIndex p e = s"
      using e range_elements [OF assms(1) b lt, of "set_start (desc p s)"] pwfD(11) [OF assms(1) lt assms(2)]
      by (simp add: iterateSet_def Let_def)
  next
    fix e assume "e \<in> {e. e < elements p \<and> Partition_setIndex p e = s}"
    then show "e \<in> set (iterateSet s p)"
      using range_elements [OF assms(1) b, of e "set_start (desc p s)"] pwfD(11) [OF assms(1) _ assms(2), of e]
      by (simp add: iterateSet_def Let_def)
  qed
  show "distinct (iterateSet s p)"
    unfolding iterateSet_def Let_def distinct_map
    using b by (auto intro!: inj_onI) (metis less_le_trans pwfD(4) [OF assms(1)])
qed

lemma sets_le_elements:
  assumes "pwf p"
  shows "length (m_sets p) \<le> elements p"
proof -
  let ?f = "\<lambda>s. elem p (set_start (desc p s))"
  have "Partition_setIndex p (?f s) = s \<and> ?f s < elements p" if s: "s < length (m_sets p)" for s
  proof -
    have "0 < set_size (desc p s)" "set_end (desc p s) \<le> elements p" using pwfD(7,8) [OF assms s] by simp_all
    then have b: "set_start (desc p s) < elements p" "set_start (desc p s) < set_end (desc p s)" by (simp_all add: set_end_def)
    then show ?thesis using pwfD(3,4) [OF assms b(1)] pwfD(11) [OF assms _ s] by simp
  qed
  then have "inj_on ?f {..<length (m_sets p)}" "?f ` {..<length (m_sets p)} \<subseteq> {..<elements p}"
    by (auto intro!: inj_onI) metis
  then show ?thesis using card_inj_on_le [of ?f "{..<length (m_sets p)}" "{..<elements p}"] by simp
qed

lemma firstElementInSet_correct:
  assumes "pwf p" "s < length (m_sets p)"
  shows "firstElementInSet p s < elements p" "Partition_setIndex p (firstElementInSet p s) = s"
proof -
  have "0 < set_size (desc p s)" "set_end (desc p s) \<le> elements p" using pwfD(7,8) [OF assms] by simp_all
  then have b: "set_start (desc p s) < elements p" "set_start (desc p s) < set_end (desc p s)" by (simp_all add: set_end_def)
  then show "firstElementInSet p s < elements p" "Partition_setIndex p (firstElementInSet p s) = s"
    using pwfD(3,4) [OF assms(1) b(1)] pwfD(11) [OF assms(1) _ assms(2)] by (simp_all add: firstElementInSet_def)
qed

end
