(* ===== verification/CE_Minimizer_Graph.thy ===== *)
theory CE_Minimizer_Graph
  imports CE_Partition "HOL-Library.Multiset"
begin

text \<open>
  The refinement of the partition of nodes is sound: when the loops end, two nodes of one set have
  the same actions, transitions on the same characters to nodes of the same sets, and fallback
  transitions to nodes of the same set.
\<close>

section \<open>Sorting transitions by target\<close>

lemma count_incoming_at:
  "length (count_incoming n ts) = n" "v < n \<Longrightarrow> count_incoming n ts ! v = length (filter (\<lambda>t. t = v) ts)"
proof -
  have "length (fold increment ts cs) = length cs \<and> (v < length cs \<longrightarrow> fold increment ts cs ! v = cs ! v + length (filter (\<lambda>t. t = v) ts))" for cs
    by (induction ts arbitrary: cs) (auto simp: increment_def nth_list_update)
  from this [of "replicate n 0"] show "length (count_incoming n ts) = n"
    "v < n \<Longrightarrow> count_incoming n ts ! v = length (filter (\<lambda>t. t = v) ts)" by (auto simp: count_incoming_def)
qed

lemma accumulate_at:
  "length (accumulate a cs) = length cs" "v < length cs \<Longrightarrow> accumulate a cs ! v = a + sum_list (take v cs)"
proof (induction cs arbitrary: a v)
  case (Cons c cs)
  { case 1 then show ?case using Cons.IH by simp }
  { case 2 then show ?case using Cons.IH by (cases v) auto }
qed simp_all

text \<open>Positions in a concatenation.\<close>

abbreviation offset :: "'a list list \<Rightarrow> nat \<Rightarrow> nat" where
  "offset L v \<equiv> sum_list (take v (map length L))"

lemma concat_pos:
  "v < length L \<Longrightarrow> i < length (L ! v) \<Longrightarrow> concat L ! (offset L v + i) = L ! v ! i \<and> offset L v + i < length (concat L)"
proof (induction L arbitrary: v)
  case (Cons l L)
  show ?case
  proof (cases v)
    case 0
    with Cons.prems show ?thesis by (simp add: nth_append)
  next
    case (Suc w)
    with Cons show ?thesis by (simp add: nth_append add.assoc)
  qed
qed simp

lemma concat_pos_ex:
  "j < length (concat L) \<Longrightarrow> \<exists>v i. v < length L \<and> i < length (L ! v) \<and> j = offset L v + i"
proof (induction L arbitrary: j)
  case (Cons l L)
  show ?case
  proof (cases "j < length l")
    case True
    then show ?thesis by (intro exI [of _ 0] exI [of _ j]) simp
  next
    case False
    then have "j - length l < length (concat L)" using Cons.prems by auto
    from Cons.IH [OF this] obtain v i where "v < length L" "i < length (L ! v)" "j - length l = offset L v + i" by blast
    with False show ?thesis by (intro exI [of _ "Suc v"] exI [of _ i]) simp
  qed
qed simp

definition by_target :: "('a \<times> nat) list \<Rightarrow> nat \<Rightarrow> ('a \<times> nat) list" where
  "by_target xs v = filter (\<lambda>x. snd x = v) xs"

definition sorted_by_target :: "nat \<Rightarrow> ('a \<times> nat) list \<Rightarrow> ('a \<times> nat) list" where
  "sorted_by_target n xs = concat (map (by_target xs) [0..<n])"

lemma mset_sorted: "\<forall>x \<in> set xs. snd x < n \<Longrightarrow> mset (sorted_by_target n xs) = mset xs"
proof -
  have "mset (sorted_by_target n xs) = filter_mset (\<lambda>x. snd x < n) (mset xs)" for n
  proof (induction n)
    case (Suc n)
    have "filter_mset (\<lambda>x. snd x < Suc n) (mset xs) = filter_mset (\<lambda>x. snd x < n) (mset xs) + filter_mset (\<lambda>x. snd x = n) (mset xs)"
      by (induction xs) (auto simp: less_Suc_eq)
    with Suc show ?case by (simp add: sorted_by_target_def by_target_def)
  qed (simp add: sorted_by_target_def)
  then show "\<forall>x \<in> set xs. snd x < n \<Longrightarrow> ?thesis" by (simp add: filter_mset_eq_conv)
qed

lemma offset_unique:
  assumes "v < n" "i < length (by_target xs v)" "w < n" "k < length (by_target xs w)"
    "offset (map (by_target xs) [0..<n]) v + i = offset (map (by_target xs) [0..<n]) w + k"
  shows "v = w \<and> i = k"
proof -
  let ?L = "map (by_target xs) [0..<n]"
  have "concat ?L ! (offset ?L v + i) = by_target xs v ! i" "concat ?L ! (offset ?L w + k) = by_target xs w ! k"
    using concat_pos [of v ?L i] concat_pos [of w ?L k] assms by simp_all
  with assms(5) have "by_target xs v ! i = by_target xs w ! k" by simp
  moreover have "snd (by_target xs v ! i) = v" "snd (by_target xs w ! k) = w"
    using nth_mem [OF assms(2)] nth_mem [OF assms(4)] by (auto simp: by_target_def)
  ultimately have "v = w" by simp
  with assms(5) show ?thesis by simp
qed

lemma place_fold:
  assumes start: "\<And>v. v < n \<Longrightarrow> start ! v = offset (map (by_target xs) [0..<n]) v" and total: "length fl = length (sorted_by_target n xs)"
    and bound: "\<forall>x \<in> set xs. snd x < n"
  shows "xs = ys @ zs \<Longrightarrow> fold (place start) ys (fl, replicate n 0) = (fl', sz) \<Longrightarrow>
     length fl' = length fl \<and> length sz = n \<and> (\<forall>v < n. sz ! v = length (by_target ys v)) \<and>
     (\<forall>v < n. \<forall>i < length (by_target ys v). fl' ! (start ! v + i) = fst (by_target ys v ! i))"
proof (induction ys arbitrary: zs fl' sz rule: rev_induct)
  case Nil
  then show ?case by (auto simp: by_target_def)
next
  case (snoc y ys)
  obtain fl1 sz1 where f: "fold (place start) ys (fl, replicate n 0) = (fl1, sz1)" by fastforce
  have xs: "xs = ys @ y # zs" using snoc.prems(1) by simp
  note IH = snoc.IH [OF xs f]
  let ?t = "snd y"
  have t: "?t < n" using bound xs by auto
  have sz1: "sz1 ! ?t = length (by_target ys ?t)" "length sz1 = n" "length fl1 = length fl" using IH t by auto
  have st: "fl' = fl1[start ! ?t + length (by_target ys ?t) := fst y]" "sz = sz1[?t := sz1 ! ?t + 1]"
    using snoc.prems(2) f sz1(1) by (cases y, simp add: place_def increment_def)+
  have bt: "by_target (ys @ [y]) v = (if v = ?t then by_target ys v @ [y] else by_target ys v)" for v
    by (simp add: by_target_def)
  have pre: "by_target xs v = by_target (ys @ [y]) v @ by_target zs v" for v by (simp add: xs by_target_def)
  let ?c = "length (by_target ys ?t)"
  have ct: "?c < length (by_target xs ?t)" using pre [of ?t] bt [of ?t] by simp
  have pos: "start ! ?t + ?c < length fl1"
    using concat_pos [of ?t "map (by_target xs) [0..<n]" ?c] t ct start [OF t] total sz1(3) by (simp add: sorted_by_target_def)
  have "fl' ! (start ! v + i) = fst (by_target (ys @ [y]) v ! i)" if v: "v < n" and i: "i < length (by_target (ys @ [y]) v)" for v i
  proof (cases "v = ?t \<and> i = ?c")
    case True
    then show ?thesis using st(1) pos bt [of v] by (simp add: nth_append)
  next
    case False
    have ix: "i < length (by_target xs v)" using i pre [of v] by simp
    have ne: "start ! v + i \<noteq> start ! ?t + ?c"
      using offset_unique [OF v ix t ct] False start [OF v] start [OF t] by auto
    have "i < length (by_target ys v)" "by_target (ys @ [y]) v ! i = by_target ys v ! i"
      using i False bt [of v] by (auto simp: nth_append less_Suc_eq split: if_splits)
    with ne IH v st(1) show ?thesis by simp
  qed
  moreover have "sz ! v = length (by_target (ys @ [y]) v)" if "v < n" for v
    using IH that st(2) sz1 bt [of v] t by (cases "v = ?t") auto
  ultimately show ?case using st sz1 by simp
qed

lemma flatten_correct:
  assumes bound: "\<forall>x \<in> set xs. snd x < n" and f: "flatten n dummy xs = (start, flat, sizes)"
  shows "\<exists>P. flat = map fst P \<and> mset P = mset xs \<and> length start = n \<and> length sizes = n \<and>
     (\<forall>v < n. start ! v + sizes ! v \<le> length P \<and>
        (\<forall>j < length P. snd (P ! j) = v \<longleftrightarrow> start ! v \<le> j \<and> j < start ! v + sizes ! v))"
proof -
  let ?L = "map (by_target xs) [0..<n]" and ?P = "sorted_by_target n xs"
  have cnt: "count_incoming n (map snd xs) = map length ?L"
  proof (rule nth_equalityI)
    fix v assume "v < length (count_incoming n (map snd xs))"
    then show "count_incoming n (map snd xs) ! v = map length ?L ! v"
      by (simp add: count_incoming_at by_target_def filter_map comp_def)
  qed (simp add: count_incoming_at)
  have total: "sum_list (map length ?L) = length ?P" by (simp add: sorted_by_target_def length_concat)
  have st: "start = accumulate 0 (map length ?L)"
    and fold: "fold (place start) xs (replicate (length ?P) dummy, replicate n 0) = (flat, sizes)"
    using f total by (auto simp: flatten_def cnt Let_def split: prod.splits)
  have start: "start ! v = offset ?L v" if "v < n" for v
    using accumulate_at(2) [of v "map length ?L" 0] that by (simp add: st)
  have "length (replicate (length ?P) dummy) = length ?P" by simp
  note R = place_fold [OF start this bound, of xs "[]", OF _ _ fold]
  have R: "length flat = length ?P" "length sizes = n" "\<And>v. v < n \<Longrightarrow> sizes ! v = length (by_target xs v)"
    "\<And>v i. v < n \<Longrightarrow> i < length (by_target xs v) \<Longrightarrow> flat ! (start ! v + i) = fst (by_target xs v ! i)"
    using R by auto
  have at: "?P ! (start ! v + i) = by_target xs v ! i \<and> start ! v + i < length ?P" if "v < n" "i < length (by_target xs v)" for v i
    using concat_pos [of v ?L i] that start [OF that(1)] by (simp add: sorted_by_target_def)
  have ex: "\<exists>v i. v < n \<and> i < length (by_target xs v) \<and> j = start ! v + i" if "j < length ?P" for j
    using concat_pos_ex [of j ?L] that start by (auto simp: sorted_by_target_def)
  have sndat: "snd (by_target xs v ! i) = v" if "i < length (by_target xs v)" for v i
    using nth_mem [OF that] by (auto simp: by_target_def)
  have "flat = map fst ?P"
  proof (rule nth_equalityI)
    fix j assume "j < length flat"
    then obtain v i where "v < n" "i < length (by_target xs v)" "j = start ! v + i" using ex R(1) by metis
    with R(4) at show "flat ! j = map fst ?P ! j" by simp
  qed (simp add: R(1))
  moreover have "start ! v + sizes ! v \<le> length ?P \<and>
        (\<forall>j < length ?P. snd (?P ! j) = v \<longleftrightarrow> start ! v \<le> j \<and> j < start ! v + sizes ! v)" if v: "v < n" for v
  proof (intro conjI allI impI)
    show "start ! v + sizes ! v \<le> length ?P"
    proof (cases "sizes ! v")
      case 0
      have "offset ?L v \<le> sum_list (map length ?L)"
        by (metis append_take_drop_id le_add1 sum_list_append)
      then show ?thesis using 0 start [OF v] total by simp
    next
      case (Suc k)
      with at [OF v, of k] R(3) [OF v] show ?thesis by simp
    qed
    fix j assume j: "j < length ?P"
    obtain w i where w: "w < n" "i < length (by_target xs w)" "j = start ! w + i" using ex [OF j] by blast
    have sw: "snd (?P ! j) = w" using at [OF w(1,2)] sndat [OF w(2)] w(3) by simp
    show "snd (?P ! j) = v \<longleftrightarrow> start ! v \<le> j \<and> j < start ! v + sizes ! v"
    proof
      assume "snd (?P ! j) = v"
      with sw w R(3) [OF v] show "start ! v \<le> j \<and> j < start ! v + sizes ! v" by simp
    next
      assume r: "start ! v \<le> j \<and> j < start ! v + sizes ! v"
      then have "j - start ! v < length (by_target xs v)" using R(3) [OF v] by linarith
      from at [OF v this] sndat [OF this] r show "snd (?P ! j) = v" by simp
    qed
  qed
  ultimately show ?thesis using mset_sorted [OF bound] R(2) by (intro exI [of _ ?P]) (simp add: st accumulate_at(1))
qed

section \<open>Stable partitions\<close>

text \<open>
  A family of labelled edges: edge \<open>j < m\<close> leaves \<open>src j\<close> with label \<open>chr j\<close> for \<open>tgt j\<close>. The classes of
  the edges are \<open>ct\<close>, those of the nodes \<open>cn\<close>. A class of edges with an index below \<open>next\<close> has been used
  as a splitter.
\<close>

record edge_family =
  ef_count :: nat
  ef_src :: "nat \<Rightarrow> nat"
  ef_chr :: "nat \<Rightarrow> nat"
  ef_tgt :: "nat \<Rightarrow> nat"

definition deterministic :: "edge_family \<Rightarrow> bool" where
  "deterministic E \<longleftrightarrow> (\<forall>j < ef_count E. \<forall>k < ef_count E. ef_src E j = ef_src E k \<longrightarrow> ef_chr E j = ef_chr E k \<longrightarrow> j = k)"

definition has_edge :: "edge_family \<Rightarrow> (nat \<Rightarrow> nat) \<Rightarrow> nat \<Rightarrow> nat \<Rightarrow> nat \<Rightarrow> bool" where
  "has_edge E ct x c k \<longleftrightarrow> (\<exists>j < ef_count E. ef_src E j = x \<and> ef_chr E j = c \<and> ct j = k)"

definition stable :: "nat \<Rightarrow> edge_family \<Rightarrow> (nat \<Rightarrow> nat) \<Rightarrow> (nat \<Rightarrow> nat) \<Rightarrow> nat \<Rightarrow> bool" where
  "stable n E cn ct next \<longleftrightarrow>
     (\<forall>x < n. \<forall>y < n. cn x = cn y \<longrightarrow>
        (\<forall>c. (\<forall>k. has_edge E ct x c k \<longleftrightarrow> has_edge E ct y c k) \<or> (\<exists>k \<ge> next. has_edge E ct x c k \<or> has_edge E ct y c k)))"

text \<open>Edges of one class have one label and lead to one class.\<close>

definition sound :: "edge_family \<Rightarrow> (nat \<Rightarrow> nat) \<Rightarrow> (nat \<Rightarrow> nat) \<Rightarrow> bool" where
  "sound E cn ct \<longleftrightarrow>
     (\<forall>j < ef_count E. \<forall>k < ef_count E. ct j = ct k \<longrightarrow> ef_chr E j = ef_chr E k \<and> cn (ef_tgt E j) = cn (ef_tgt E k))"

definition finer :: "nat \<Rightarrow> (nat \<Rightarrow> nat) \<Rightarrow> (nat \<Rightarrow> nat) \<Rightarrow> bool" where
  "finer n cn' cn \<longleftrightarrow> (\<forall>x < n. \<forall>y < n. cn' x = cn' y \<longrightarrow> cn x = cn y)"

definition renumbered :: "nat \<Rightarrow> nat \<Rightarrow> (nat \<Rightarrow> nat) \<Rightarrow> (nat \<Rightarrow> nat) \<Rightarrow> bool" where
  "renumbered m sets ct' ct \<longleftrightarrow> (\<forall>j < m. ct' j = ct j \<or> sets \<le> ct' j)"

lemma finerD: "finer n cn' cn \<Longrightarrow> x < n \<Longrightarrow> y < n \<Longrightarrow> cn' x = cn' y \<Longrightarrow> cn x = cn y"
  unfolding finer_def by blast

lemma stable_start: "stable n E cn ct 0"
  by (auto simp: stable_def)

lemma has_edge_at:
  assumes "deterministic E" "j < ef_count E" "ef_src E j = x" "ef_chr E j = c"
  shows "has_edge E ct x c i \<longleftrightarrow> i = ct j"
proof
  assume "has_edge E ct x c i"
  then obtain k where k: "k < ef_count E" "ef_src E k = x" "ef_chr E k = c" "ct k = i" unfolding has_edge_def by blast
  then have "k = j" using assms unfolding deterministic_def by blast
  with k(4) show "i = ct j" by simp
qed (use assms in \<open>auto simp: has_edge_def\<close>)

text \<open>Two edges of one class keep it together, or one of them moves to a new class.\<close>

lemma moved:
  assumes ren: "renumbered (ef_count E) sets ct' ct" and det: "deterministic E" and le: "next \<le> sets"
    and j: "j < ef_count E" "ef_src E j = x" "ef_chr E j = c" and k: "k < ef_count E" "ef_src E k = y" "ef_chr E k = c"
    and eq: "ct j = ct k"
  shows "(\<forall>i. has_edge E ct' x c i \<longleftrightarrow> has_edge E ct' y c i) \<or> (\<exists>i \<ge> next. has_edge E ct' x c i \<or> has_edge E ct' y c i)"
proof -
  have h: "has_edge E ct' x c i \<longleftrightarrow> i = ct' j" "has_edge E ct' y c i \<longleftrightarrow> i = ct' k" for i
    by (rule has_edge_at [OF det j], rule has_edge_at [OF det k])
  have "ct' j = ct j \<or> next \<le> ct' j" "ct' k = ct k \<or> next \<le> ct' k" using ren j(1) k(1) le by (auto simp: renumbered_def)
  with eq show ?thesis unfolding h by auto
qed

lemma stableD:
  assumes "stable n E cn ct next" "x < n" "y < n" "cn x = cn y"
  shows "(\<forall>k. has_edge E ct x c k \<longleftrightarrow> has_edge E ct y c k) \<or> (\<exists>k \<ge> next. has_edge E ct x c k \<or> has_edge E ct y c k)"
  using assms unfolding stable_def
  by blast

lemma stable_refine:
  assumes st: "stable n E cn ct next" and fin: "finer n cn' cn" and ren: "renumbered (ef_count E) sets ct' ct"
    and det: "deterministic E" and le: "next \<le> sets"
  shows "stable n E cn' ct' next"
  unfolding stable_def
proof (intro allI impI)
  fix x y c assume x: "x < n" and y: "y < n" and e: "cn' x = cn' y"
  have "cn x = cn y" by (rule finerD [OF fin x y e])
  note D = stableD [OF st x y this, of c]
  from D show "(\<forall>k. has_edge E ct' x c k \<longleftrightarrow> has_edge E ct' y c k) \<or> (\<exists>k \<ge> next. has_edge E ct' x c k \<or> has_edge E ct' y c k)"
  proof (rule disjE)
    assume same: "\<forall>k. has_edge E ct x c k \<longleftrightarrow> has_edge E ct y c k"
    show ?thesis
    proof (cases "\<exists>k. has_edge E ct x c k")
      case True
      then obtain i where "has_edge E ct x c i" by blast
      moreover from this same have "has_edge E ct y c i" by blast
      ultimately obtain j k where "j < ef_count E" "ef_src E j = x" "ef_chr E j = c" "k < ef_count E" "ef_src E k = y" "ef_chr E k = c" "ct j = ct k"
        unfolding has_edge_def by auto
      then show ?thesis using moved [OF ren det le] by blast
    next
      case False
      then have "\<not> has_edge E ct' x c k" "\<not> has_edge E ct' y c k" for k using same unfolding has_edge_def by blast+
      then show ?thesis by blast
    qed
  next
    assume "\<exists>k \<ge> next. has_edge E ct x c k \<or> has_edge E ct y c k"
    then obtain k where pending: "next \<le> k" "has_edge E ct x c k \<or> has_edge E ct y c k" by blast
    then obtain z where z: "z = x \<or> z = y" "has_edge E ct z c k" by blast
    then obtain j where j: "j < ef_count E" "ef_src E j = z" "ef_chr E j = c" "ct j = k" unfolding has_edge_def by blast
    then have "has_edge E ct' z c (ct' j)" "next \<le> ct' j" using ren le pending(1) by (auto simp: has_edge_def renumbered_def)
    with z(1) show ?thesis by blast
  qed
qed

lemma stable_process:
  assumes st: "stable n E cn ct next" and fin: "finer n cn' cn" and ren: "renumbered (ef_count E) sets ct' ct"
    and det: "deterministic E" and lt: "next < sets" and snd: "sound E cn ct"
    and split: "\<And>x y. x < n \<Longrightarrow> y < n \<Longrightarrow> cn' x = cn' y \<Longrightarrow>
      (\<exists>j < ef_count E. ct j = next \<and> ef_src E j = x) \<longleftrightarrow> (\<exists>j < ef_count E. ct j = next \<and> ef_src E j = y)"
  shows "stable n E cn' ct' (Suc next)"
  unfolding stable_def
proof (intro allI impI)
  fix x y c assume x: "x < n" and y: "y < n" and e: "cn' x = cn' y"
  let ?goal = "\<lambda>x y. (\<forall>k. has_edge E ct' x c k \<longleftrightarrow> has_edge E ct' y c k) \<or> (\<exists>k \<ge> Suc next. has_edge E ct' x c k \<or> has_edge E ct' y c k)"
  have le: "Suc next \<le> sets" using lt by simp
  have pend: "?goal x y" if a: "x < n" "y < n" "cn' x = cn' y" "next \<le> k" "has_edge E ct x c k" for x y k
  proof -
    obtain j where j: "j < ef_count E" "ef_src E j = x" "ef_chr E j = c" "ct j = k" using a(5) unfolding has_edge_def by blast
    show ?thesis
    proof (cases "k = next")
      case True
      then obtain i where i: "i < ef_count E" "ct i = next" "ef_src E i = y" using split [OF a(1-3)] j by blast
      then have "ef_chr E i = c" using snd [unfolded sound_def, rule_format, of i j] i(1,2) j True by simp
      then show ?thesis using moved [OF ren det le j(1-3) i(1,3)] i j True by simp
    next
      case False
      then have "has_edge E ct' x c (ct' j)" "Suc next \<le> ct' j" using ren le a(4) j by (auto simp: has_edge_def renumbered_def)
      then show ?thesis by blast
    qed
  qed
  have "cn x = cn y" by (rule finerD [OF fin x y e])
  note D = stableD [OF st x y this, of c]
  from D show "?goal x y"
  proof (rule disjE)
    assume same: "\<forall>k. has_edge E ct x c k \<longleftrightarrow> has_edge E ct y c k"
    show ?thesis
    proof (cases "\<exists>k. has_edge E ct x c k")
      case True
      then obtain i where "has_edge E ct x c i" by blast
      moreover from this same have "has_edge E ct y c i" by blast
      ultimately obtain j k where "j < ef_count E" "ef_src E j = x" "ef_chr E j = c" "k < ef_count E" "ef_src E k = y" "ef_chr E k = c" "ct j = ct k"
        unfolding has_edge_def by auto
      then show ?thesis using moved [OF ren det le] by blast
    next
      case False
      then have "\<not> has_edge E ct' x c k" "\<not> has_edge E ct' y c k" for k using same unfolding has_edge_def by blast+
      then show ?thesis by blast
    qed
  next
    assume "\<exists>k \<ge> next. has_edge E ct x c k \<or> has_edge E ct y c k"
    then obtain k where pending: "next \<le> k" "has_edge E ct x c k \<or> has_edge E ct y c k" by blast
    then show ?thesis using pend [OF x y e pending(1)] pend [OF y x e [symmetric] pending(1)] by blast
  qed
qed

lemma stable_end:
  assumes st: "stable n E cn ct sets" and ct: "\<forall>j < ef_count E. ct j < sets" and xy: "x < n" "y < n" "cn x = cn y"
  shows "has_edge E ct x c k \<longleftrightarrow> has_edge E ct y c k"
proof -
  have "\<not> has_edge E ct z c k" if "sets \<le> k" for z k using that ct unfolding has_edge_def by force
  with stableD [OF st xy, of c] show ?thesis by blast
qed

end
