(* ===== verification/CE_Minimizer_Stable.thy ===== *)
theory CE_Minimizer_Stable
  imports CE_Minimizer_Graph
begin

text \<open>
  The refinement loops of \<open>FullGraphPartition\<close>: what they keep, and that they end with a partition
  that is stable under all transitions and fallback transitions.
\<close>

section \<open>The invariant of the partitions\<close>

abbreviation node_class :: "FullGraphPartition \<Rightarrow> nat \<Rightarrow> nat" where
  "node_class g \<equiv> Partition_setIndex (m_nodePartition g)"

abbreviation trans_class :: "FullGraphPartition \<Rightarrow> nat \<Rightarrow> nat" where
  "trans_class g \<equiv> Partition_setIndex (m_transitionPartition g)"

abbreviation fall_class :: "FullGraphPartition \<Rightarrow> nat \<Rightarrow> nat" where
  "fall_class g \<equiv> Partition_setIndex (m_fallbackTransitionPartition g)"

definition fdest :: "DFA \<Rightarrow> nat \<Rightarrow> nat option" where
  "fdest d i = fallbackTransitionDestination d (nodes d ! i)"

definition trans_family :: "FullGraphPartition \<Rightarrow> edge_family" where
  "trans_family g =
     \<lparr>ef_count = length (m_flattenedTransitions g), ef_src = (\<lambda>j. t_source (m_flattenedTransitions g ! j)),
      ef_chr = (\<lambda>j. t_character (m_flattenedTransitions g ! j)), ef_tgt = (\<lambda>j. t_target (m_flattenedTransitions g ! j))\<rparr>"

definition fall_family :: "DFA \<Rightarrow> FullGraphPartition \<Rightarrow> edge_family" where
  "fall_family d g =
     \<lparr>ef_count = length (m_flattenedFallbackTransitions g), ef_src = (\<lambda>j. m_flattenedFallbackTransitions g ! j),
      ef_chr = (\<lambda>j. 0), ef_tgt = (\<lambda>j. the (fdest d (m_flattenedFallbackTransitions g ! j)))\<rparr>"

text \<open>The incoming edges of a node are a range of the sorted edges.\<close>

definition incoming_ok :: "nat \<Rightarrow> nat list \<Rightarrow> nat list \<Rightarrow> edge_family \<Rightarrow> bool" where
  "incoming_ok n start sizes E \<longleftrightarrow> deterministic E \<and>
     (\<forall>j < ef_count E. ef_src E j < n \<and> ef_tgt E j < n) \<and>
     (\<forall>v < n. start ! v + sizes ! v \<le> ef_count E) \<and>
     (\<forall>v < n. \<forall>j < ef_count E. ef_tgt E j = v \<longleftrightarrow> start ! v \<le> j \<and> j < start ! v + sizes ! v)"

definition edges_ok :: "edge_family \<Rightarrow> (nat \<Rightarrow> nat) \<Rightarrow> Partition \<Rightarrow> bool" where
  "edges_ok E cn p \<longleftrightarrow> partition_ok p \<and> elements p = ef_count E \<and> marked_elements p = {} \<and> sound E cn (Partition_setIndex p)"

lemma incomingD:
  assumes "incoming_ok n start sizes E"
  shows "deterministic E" "j < ef_count E \<Longrightarrow> ef_src E j < n" "j < ef_count E \<Longrightarrow> ef_tgt E j < n"
    "v < n \<Longrightarrow> start ! v + sizes ! v \<le> ef_count E"
    "v < n \<Longrightarrow> j < ef_count E \<Longrightarrow> ef_tgt E j = v \<longleftrightarrow> start ! v \<le> j \<and> j < start ! v + sizes ! v"
  using assms unfolding incoming_ok_def by blast+

lemma edgesD:
  assumes "edges_ok E cn p"
  shows "partition_ok p" "elements p = ef_count E" "marked_elements p = {}" "sound E cn (Partition_setIndex p)"
  using assms unfolding edges_ok_def by blast+

lemma soundD: "sound E cn ct \<Longrightarrow> j < ef_count E \<Longrightarrow> k < ef_count E \<Longrightarrow> ct j = ct k \<Longrightarrow>
    ef_chr E j = ef_chr E k \<and> cn (ef_tgt E j) = cn (ef_tgt E k)"
  unfolding sound_def by blast

section \<open>Splitting the incoming edges of a set of nodes\<close>

definition incoming :: "nat list \<Rightarrow> nat list \<Rightarrow> nat list \<Rightarrow> nat list" where
  "incoming start sizes vs = concat (map (\<lambda>v. [start ! v..<start ! v + sizes ! v]) vs)"

lemma mark_incoming_eq:
  "mark_incoming start sizes v p = fold markElementInCurrentGeneration [start ! v..<start ! v + sizes ! v] p"
proof -
  have "[start ! v..<start ! v + sizes ! v] = map (\<lambda>i. start ! v + i) [0..<sizes ! v]"
    by (simp add: map_add_upt add.commute)
  then show ?thesis by (simp add: mark_incoming_def fold_map comp_def)
qed

lemma fold_mark_incoming:
  "fold (mark_incoming start sizes) vs p = fold markElementInCurrentGeneration (incoming start sizes vs) p"
  by (induction vs arbitrary: p) (simp_all add: mark_incoming_eq incoming_def)

lemma incoming_set:
  assumes "incoming_ok n start sizes E" "set vs \<subseteq> {..<n}" "distinct vs"
  shows "set (incoming start sizes vs) = {j. j < ef_count E \<and> ef_tgt E j \<in> set vs}" "distinct (incoming start sizes vs)"
proof -
  note D = incomingD [OF assms(1)]
  have r: "j \<in> {start ! v..<start ! v + sizes ! v} \<longleftrightarrow> j < ef_count E \<and> ef_tgt E j = v" if "v < n" for j v
    using D(4) [OF that] D(5) [OF that, of j] by auto
  show "set (incoming start sizes vs) = {j. j < ef_count E \<and> ef_tgt E j \<in> set vs}"
    using r assms(2) unfolding incoming_def by (auto simp del: atLeastLessThan_iff)
  show "distinct (incoming start sizes vs)"
    using assms(2,3)
  proof (induction vs)
    case (Cons v vs)
    have "j \<notin> set [start ! w..<start ! w + sizes ! w]" if w: "w \<in> set vs" and j: "j \<in> set [start ! v..<start ! v + sizes ! v]" for w j
    proof -
      have v: "v < n" and w: "w < n" and ne: "v \<noteq> w" using w Cons.prems by auto
      show ?thesis using r [OF v, of j] r [OF w, of j] ne j by simp
    qed
    then have "set [start ! v..<start ! v + sizes ! v] \<inter> set (incoming start sizes vs) = {}"
      unfolding incoming_def set_concat set_map by blast
    with Cons show ?case by (simp add: incoming_def)
  qed (simp add: incoming_def)
qed

lemma split_family:
  assumes ok: "edges_ok E (Partition_setIndex p) tp" and inc: "incoming_ok n start sizes E"
    and wf: "pwf q" "elements p = n" and sp: "splits s p q (Some nn)"
  defines "tq \<equiv> refine_only (fold (mark_incoming start sizes) (iterateSet nn q) tp)"
  shows "edges_ok E (Partition_setIndex q) tq" "length (m_sets tp) \<le> length (m_sets tq)"
    "renumbered (ef_count E) (length (m_sets tp)) (Partition_setIndex tq) (Partition_setIndex tp)"
proof -
  note S = splitsD [OF sp, unfolded wf(2)]
  note E = edgesD [OF ok]
  have nn: "nn < length (m_sets q)" using S(9) by auto
  let ?vs = "iterateSet nn q"
  have vs: "set ?vs = {v. v < n \<and> Partition_setIndex q v = nn}" "distinct ?vs"
    using iterateSet_set [OF wf(1) nn] S(1) by simp_all
  let ?es = "incoming start sizes ?vs"
  have es: "set ?es = {j. j < ef_count E \<and> ef_tgt E j \<in> set ?vs}" "distinct ?es"
    using incoming_set [OF inc _ vs(2)] vs(1) by auto
  have mem: "j \<in> set ?es \<longleftrightarrow> Partition_setIndex q (ef_tgt E j) = nn" if "j < ef_count E" for j
    using es(1) vs(1) incomingD(3) [OF inc that] that by simp
  have "set ?es \<subseteq> {..<elements tp}" using es(1) E(2) by auto
  note R0 = part.split_by [OF E(1) es(2) this E(3), unfolded E(2)]
  have tq: "refine_only (fold markElementInCurrentGeneration ?es tp) = tq" by (simp add: tq_def fold_mark_incoming)
  note R = R0 [unfolded tq]
  show "length (m_sets tp) \<le> length (m_sets tq)" by (rule R(3))
  show "renumbered (ef_count E) (length (m_sets tp)) (Partition_setIndex tq) (Partition_setIndex tp)"
    using R(5) unfolding renumbered_def by blast
  have "sound E (Partition_setIndex q) (Partition_setIndex tq)"
    unfolding sound_def
  proof (intro allI impI)
    fix j k assume j: "j < ef_count E" and k: "k < ef_count E" and e: "Partition_setIndex tq j = Partition_setIndex tq k"
    have e1: "Partition_setIndex tp j = Partition_setIndex tp k" "j \<in> set ?es \<longleftrightarrow> k \<in> set ?es" using R(6) [OF j k e] by blast+
    note e2 = soundD [OF E(4) j k e1(1)]
    have "Partition_setIndex q (ef_tgt E j) = Partition_setIndex q (ef_tgt E k)"
    proof (cases "Partition_setIndex q (ef_tgt E j) = nn")
      case True
      then show ?thesis using e1(2) mem [OF j] mem [OF k] by simp
    next
      case False
      then have "Partition_setIndex q (ef_tgt E k) \<noteq> nn" using e1(2) mem [OF j] mem [OF k] by simp
      with False S(10) incomingD(3) [OF inc j] incomingD(3) [OF inc k]
      have "Partition_setIndex q (ef_tgt E j) = Partition_setIndex p (ef_tgt E j)"
        "Partition_setIndex q (ef_tgt E k) = Partition_setIndex p (ef_tgt E k)" by blast+
      with e2 show ?thesis by simp
    qed
    with e2 show "ef_chr E j = ef_chr E k \<and> Partition_setIndex q (ef_tgt E j) = Partition_setIndex q (ef_tgt E k)" by simp
  qed
  with R(1,2,4) show "edges_ok E (Partition_setIndex q) tq" by (simp add: edges_ok_def)
qed

section \<open>Refining\<close>

text \<open>The parts of the graph that never change, for the automaton \<open>d\<close>.\<close>

definition static :: "DFA \<Rightarrow> FullGraphPartition \<Rightarrow> bool" where
  "static d g \<longleftrightarrow>
     incoming_ok (length (nodes d)) (m_flattenedTransitionsStartOffsetPerNode g) (m_flattenedTransitionsSizePerNode g) (trans_family g) \<and>
     incoming_ok (length (nodes d)) (m_flattenedFallbackTransitionsStartOffsetPerNode g) (m_flattenedFallbackTransitionsSizePerNode g)
       (fall_family d g) \<and>
     (\<forall>i < length (nodes d). \<forall>c t. (c, t) \<in> set (node_transitions d (nodes d ! i)) \<longleftrightarrow>
        (\<exists>j < ef_count (trans_family g). ef_src (trans_family g) j = i \<and> ef_chr (trans_family g) j = c \<and> ef_tgt (trans_family g) j = t)) \<and>
     (\<forall>i < length (nodes d). fdest d i \<noteq> None \<longleftrightarrow> (\<exists>j < ef_count (fall_family d g). ef_src (fall_family d g) j = i))"

definition gok :: "DFA \<Rightarrow> FullGraphPartition \<Rightarrow> bool" where
  "gok d g \<longleftrightarrow> static d g \<and> partition_ok (m_nodePartition g) \<and> elements (m_nodePartition g) = length (nodes d) \<and>
     edges_ok (trans_family g) (node_class g) (m_transitionPartition g) \<and>
     edges_ok (fall_family d g) (node_class g) (m_fallbackTransitionPartition g)"

lemma gokD:
  assumes "gok d g"
  shows "static d g" "partition_ok (m_nodePartition g)" "elements (m_nodePartition g) = length (nodes d)"
    "edges_ok (trans_family g) (node_class g) (m_transitionPartition g)"
    "edges_ok (fall_family d g) (node_class g) (m_fallbackTransitionPartition g)"
  using assms unfolding gok_def by blast+

text \<open>What one step of the loops does to the classes.\<close>

definition refines :: "DFA \<Rightarrow> FullGraphPartition \<Rightarrow> FullGraphPartition \<Rightarrow> bool" where
  "refines d g h \<longleftrightarrow>
     trans_family h = trans_family g \<and> fall_family d h = fall_family d g \<and>
     finer (length (nodes d)) (node_class h) (node_class g) \<and>
     length (m_sets (m_transitionPartition g)) \<le> length (m_sets (m_transitionPartition h)) \<and>
     renumbered (ef_count (trans_family g)) (length (m_sets (m_transitionPartition g))) (trans_class h) (trans_class g) \<and>
     length (m_sets (m_fallbackTransitionPartition g)) \<le> length (m_sets (m_fallbackTransitionPartition h)) \<and>
     renumbered (ef_count (fall_family d g)) (length (m_sets (m_fallbackTransitionPartition g))) (fall_class h) (fall_class g)"

lemma renumbered_refl: "renumbered m s c c"
  by (simp add: renumbered_def)

lemma renumbered_trans: "renumbered m s c2 c1 \<Longrightarrow> renumbered m s1 c3 c2 \<Longrightarrow> s \<le> s1 \<Longrightarrow> renumbered m s c3 c1"
  unfolding renumbered_def by (metis le_trans)

lemma finer_refl: "finer n c c"
  by (simp add: finer_def)

lemma finer_trans: "finer n c3 c2 \<Longrightarrow> finer n c2 c1 \<Longrightarrow> finer n c3 c1"
  unfolding finer_def by blast

lemma refines_trans: "refines d f g \<Longrightarrow> refines d g h \<Longrightarrow> refines d f h"
  unfolding refines_def by (metis (no_types, lifting) finer_trans le_trans renumbered_trans)

lemma refines_refl: "refines d g g"
  by (simp add: refines_def renumbered_refl finer_refl)

text \<open>The invariant of the loop over the marked sets of nodes.\<close>

definition edge_inv :: "edge_family \<Rightarrow> Partition \<Rightarrow> Partition \<Rightarrow> Partition \<Rightarrow> bool" where
  "edge_inv E tp0 p tp \<longleftrightarrow>
     edges_ok E (Partition_setIndex p) tp \<and> length (m_sets tp0) \<le> length (m_sets tp) \<and>
     renumbered (ef_count E) (length (m_sets tp0)) (Partition_setIndex tp) (Partition_setIndex tp0)"

lemma edge_inv_clear [simp]: "edge_inv E tp0 (p\<lparr>m_setsMarkedInCurrentGeneration := l\<rparr>) tp = edge_inv E tp0 p tp"
  by (simp add: edge_inv_def)

lemma edge_inv_step:
  assumes inv: "edge_inv E tp0 p tp" and inc: "incoming_ok n start sizes E" and wf: "pwf q" "elements p = n" and sp: "splits s p q new"
  shows "edge_inv E tp0 q (case new of None \<Rightarrow> tp | Some nn \<Rightarrow> refine_only (fold (mark_incoming start sizes) (iterateSet nn q) tp))"
proof (cases new)
  case None
  have "Partition_setIndex q v = Partition_setIndex p v" if "v < n" for v using splitsD(10) [OF sp, unfolded wf(2), OF that] None by auto
  then have same: "Partition_setIndex q (ef_tgt E j) = Partition_setIndex p (ef_tgt E j)" if "j < ef_count E" for j
    using incomingD(3) [OF inc that] by blast
  have "sound E (Partition_setIndex p) (Partition_setIndex tp)" using inv by (simp add: edge_inv_def edges_ok_def)
  then have "sound E (Partition_setIndex q) (Partition_setIndex tp)"
    unfolding sound_def using same by metis
  with inv None show ?thesis by (simp add: edge_inv_def edges_ok_def)
next
  case (Some nn)
  have e: "edges_ok E (Partition_setIndex p) tp" and le: "length (m_sets tp0) \<le> length (m_sets tp)"
    and r: "renumbered (ef_count E) (length (m_sets tp0)) (Partition_setIndex tp) (Partition_setIndex tp0)"
    using inv by (simp_all add: edge_inv_def)
  note F = split_family [OF e inc wf sp [unfolded Some]]
  show ?thesis
    unfolding edge_inv_def Some option.case
    using F(1) le_trans [OF le F(2)] renumbered_trans [OF r F(3) le] by blast
qed

lemma refinePartitions_correct:
  assumes ok: "gok d g"
  defines "h \<equiv> refinePartitions g"
  shows "gok d h" "refines d g h" "marked_elements (m_nodePartition h) = {}"
    "m_nextTransitionSetToProcess h = m_nextTransitionSetToProcess g"
    "x < length (nodes d) \<Longrightarrow> y < length (nodes d) \<Longrightarrow> node_class h x = node_class h y \<Longrightarrow>
       x \<in> marked_elements (m_nodePartition g) \<longleftrightarrow> y \<in> marked_elements (m_nodePartition g)"
proof -
  let ?n = "length (nodes d)"
  let ?tp0 = "m_transitionPartition g" and ?fp0 = "m_fallbackTransitionPartition g"
  note G = gokD [OF ok]
  have incT: "incoming_ok ?n (m_flattenedTransitionsStartOffsetPerNode g) (m_flattenedTransitionsSizePerNode g) (trans_family g)"
    and incF: "incoming_ok ?n (m_flattenedFallbackTransitionsStartOffsetPerNode g) (m_flattenedFallbackTransitionsSizePerNode g) (fall_family d g)"
    using G(1) unfolding static_def by blast+
  let ?I = "\<lambda>p \<sigma>. elements p = ?n \<and> edge_inv (trans_family g) ?tp0 p (fst \<sigma>) \<and> edge_inv (fall_family d g) ?fp0 p (snd \<sigma>)"
  obtain q tq fq where r: "refineGeneration (split_incoming g) (m_nodePartition g, ?tp0, ?fp0) = (q, (tq, fq))"
    by (metis prod.exhaust)
  have h: "h = g\<lparr>m_nodePartition := q, m_transitionPartition := tq, m_fallbackTransitionPartition := fq\<rparr>"
    by (simp add: h_def refinePartitions_def r)
  have start: "?I (m_nodePartition g) (?tp0, ?fp0)"
    using G by (simp add: edge_inv_def renumbered_refl)
  have R: "partition_ok q \<and> elements q = elements (m_nodePartition g) \<and> length (m_sets (m_nodePartition g)) \<le> length (m_sets q) \<and>
      marked_elements q = {} \<and>
      (\<forall>x < elements (m_nodePartition g). Partition_setIndex q x = node_class g x \<or> length (m_sets (m_nodePartition g)) \<le> Partition_setIndex q x) \<and>
      (\<forall>x < elements (m_nodePartition g). \<forall>y < elements (m_nodePartition g). Partition_setIndex q x = Partition_setIndex q y \<longrightarrow>
         node_class g x = node_class g y \<and> (x \<in> marked_elements (m_nodePartition g) \<longleftrightarrow> y \<in> marked_elements (m_nodePartition g))) \<and> ?I q (tq, fq)"
  proof (rule refineGeneration_correct [where I = ?I, OF G(2) start r])
    fix s p \<sigma> q new assume a: "pwf p" "pwf q" "splits s p q new" "?I p \<sigma>"
    obtain tp fp where \<sigma>: "\<sigma> = (tp, fp)" by fastforce
    have n: "elements p = ?n" using a(4) by simp
    have T: "edge_inv (trans_family g) ?tp0 q (case new of None \<Rightarrow> tp
        | Some nn \<Rightarrow> refine_only (fold (mark_incoming (m_flattenedTransitionsStartOffsetPerNode g) (m_flattenedTransitionsSizePerNode g)) (iterateSet nn q) tp))"
      by (rule edge_inv_step [OF _ incT a(2) n a(3)]) (use a(4) \<sigma> in simp)
    have F: "edge_inv (fall_family d g) ?fp0 q (case new of None \<Rightarrow> fp
        | Some nn \<Rightarrow> refine_only (fold (mark_incoming (m_flattenedFallbackTransitionsStartOffsetPerNode g) (m_flattenedFallbackTransitionsSizePerNode g)) (iterateSet nn q) fp))"
      by (rule edge_inv_step [OF _ incF a(2) n a(3)]) (use a(4) \<sigma> in simp)
    show "?I q (case new of None \<Rightarrow> \<sigma> | Some n \<Rightarrow> split_incoming g n q \<sigma>)"
      using T F splitsD(1) [OF a(3)] n \<sigma> by (cases new) (simp_all add: split_incoming_def Let_def)
  qed simp
  have fam: "trans_family h = trans_family g" "fall_family d h = fall_family d g"
    by (simp_all add: h trans_family_def fall_family_def)
  have "static d h" using G(1) unfolding static_def fam by (simp add: h)
  then show "gok d h" using R G(3) unfolding gok_def fam by (simp add: h edge_inv_def)
  have nc: "node_class h = Partition_setIndex q" by (simp add: h)
  note R' = R [unfolded G(3)]
  show "x < ?n \<Longrightarrow> y < ?n \<Longrightarrow> node_class h x = node_class h y \<Longrightarrow>
       x \<in> marked_elements (m_nodePartition g) \<longleftrightarrow> y \<in> marked_elements (m_nodePartition g)"
    unfolding nc using R' by blast
  have "finer ?n (node_class h) (node_class g)" unfolding finer_def nc using R' by blast
  moreover have "edge_inv (trans_family g) ?tp0 q tq" "edge_inv (fall_family d g) ?fp0 q fq" using R by simp_all
  ultimately show "refines d g h" unfolding refines_def fam by (simp add: h edge_inv_def)
  show "marked_elements (m_nodePartition h) = {}" using R by (simp add: h)
  show "m_nextTransitionSetToProcess h = m_nextTransitionSetToProcess g" by (simp add: h)
qed

end
