(* ===== verification/CE_Minimizer_Loops.thy ===== *)
theory CE_Minimizer_Loops
  imports CE_Minimizer_Stable
begin

text \<open>
  The loops of the minimiser end, and the partition of the nodes they leave is a congruence: nodes
  of one set have equal actions and lead to the same sets on every character.
\<close>

section \<open>Marking nodes and refining\<close>

lemma fold_markNode: "fold markNode xs g = g\<lparr>m_nodePartition := fold markElementInCurrentGeneration xs (m_nodePartition g)\<rparr>"
  by (induction xs arbitrary: g) (simp_all add: markNode_def)

lemma mark_refine:
  assumes ok: "gok d g" and unmarked: "marked_elements (m_nodePartition g) = {}"
    and xs: "distinct xs" "set xs \<subseteq> {..<length (nodes d)}"
  defines "h \<equiv> refinePartitions (fold markNode xs g)"
  shows "gok d h" "refines d g h" "marked_elements (m_nodePartition h) = {}"
    "m_nextTransitionSetToProcess h = m_nextTransitionSetToProcess g"
    "x < length (nodes d) \<Longrightarrow> y < length (nodes d) \<Longrightarrow> node_class h x = node_class h y \<Longrightarrow> x \<in> set xs \<longleftrightarrow> y \<in> set xs"
proof -
  note G = gokD [OF ok]
  let ?g = "fold markNode xs g"
  have m: "partition_ok (fold markElementInCurrentGeneration xs (m_nodePartition g))"
    "elements (fold markElementInCurrentGeneration xs (m_nodePartition g)) = length (nodes d)"
    "Partition_setIndex (fold markElementInCurrentGeneration xs (m_nodePartition g)) = node_class g"
    "marked_elements (fold markElementInCurrentGeneration xs (m_nodePartition g)) = set xs"
    using part.mark_all [OF G(2) xs(1)] xs(2) G(3) unmarked by auto
  have fam: "trans_family ?g = trans_family g" "fall_family d ?g = fall_family d g"
    by (simp_all add: fold_markNode trans_family_def fall_family_def)
  have "static d ?g" using G(1) unfolding static_def fam by (simp add: fold_markNode)
  then have ok': "gok d ?g" using G m unfolding gok_def fam by (simp add: fold_markNode)
  have ref: "refines d g ?g" unfolding refines_def fam by (simp add: fold_markNode m(3) finer_refl renumbered_refl)
  note R = refinePartitions_correct [OF ok', folded h_def]
  show "gok d h" by (rule R(1))
  show "refines d g h" by (rule refines_trans [OF ref R(2)])
  show "marked_elements (m_nodePartition h) = {}" by (rule R(3))
  show "m_nextTransitionSetToProcess h = m_nextTransitionSetToProcess g" using R(4) by (simp add: fold_markNode)
  have "marked_elements (m_nodePartition ?g) = set xs" using m(4) by (simp add: fold_markNode)
  from R(5) [unfolded this] show "x < length (nodes d) \<Longrightarrow> y < length (nodes d) \<Longrightarrow> node_class h x = node_class h y \<Longrightarrow> x \<in> set xs \<longleftrightarrow> y \<in> set xs"
    by blast
qed

text \<open>The sources of the edges of one class are distinct nodes.\<close>

lemma sources_of_class:
  assumes ok: "edges_ok E cn p" and inc: "incoming_ok n start sizes E" and k: "k < length (m_sets p)"
  shows "distinct (map (ef_src E) (iterateSet k p))" "set (map (ef_src E) (iterateSet k p)) \<subseteq> {..<n}"
    "x \<in> set (map (ef_src E) (iterateSet k p)) \<longleftrightarrow> (\<exists>j < ef_count E. Partition_setIndex p j = k \<and> ef_src E j = x)"
proof -
  note O = edgesD [OF ok] and D = incomingD [OF inc]
  have wf: "pwf p" using O(1) by (simp add: partition_ok_def)
  note I = iterateSet_set [OF wf k, unfolded O(2)]
  have "inj_on (ef_src E) (set (iterateSet k p))"
  proof (rule inj_onI)
    fix i j assume i: "i \<in> set (iterateSet k p)" and j: "j \<in> set (iterateSet k p)" and e: "ef_src E i = ef_src E j"
    then have "i < ef_count E" "j < ef_count E" "Partition_setIndex p i = Partition_setIndex p j" using I(1) by auto
    then have "ef_chr E i = ef_chr E j" using soundD [OF O(4)] by blast
    with e \<open>i < ef_count E\<close> \<open>j < ef_count E\<close> D(1) show "i = j" unfolding deterministic_def by blast
  qed
  then show "distinct (map (ef_src E) (iterateSet k p))" using I(2) by (simp add: distinct_map)
  show "set (map (ef_src E) (iterateSet k p)) \<subseteq> {..<n}" using I(1) D(2) by auto
  show "x \<in> set (map (ef_src E) (iterateSet k p)) \<longleftrightarrow> (\<exists>j < ef_count E. Partition_setIndex p j = k \<and> ef_src E j = x)"
    using I(1) by auto
qed

section \<open>The invariant of the loops\<close>

definition actions_agree :: "DFA \<Rightarrow> FullGraphPartition \<Rightarrow> bool" where
  "actions_agree d g \<longleftrightarrow> (\<forall>x < length (nodes d). \<forall>y < length (nodes d). node_class g x = node_class g y \<longrightarrow>
     node_actions d (nodes d ! x) = node_actions d (nodes d ! y))"

lemma actions_agree_refines: "actions_agree d g \<Longrightarrow> refines d g h \<Longrightarrow> actions_agree d h"
  unfolding actions_agree_def refines_def finer_def by blast

lemma actions_agree_next: "actions_agree d (g\<lparr>m_nextTransitionSetToProcess := k\<rparr>) = actions_agree d g"
  by (cases g) (simp only: actions_agree_def FullGraphPartition.simps)

definition ginv :: "DFA \<Rightarrow> nat \<Rightarrow> FullGraphPartition \<Rightarrow> bool" where
  "ginv d nf g \<longleftrightarrow> gok d g \<and> marked_elements (m_nodePartition g) = {} \<and> actions_agree d g \<and>
     stable (length (nodes d)) (trans_family g) (node_class g) (trans_class g) (m_nextTransitionSetToProcess g) \<and>
     stable (length (nodes d)) (fall_family d g) (node_class g) (fall_class g) nf \<and>
     m_nextTransitionSetToProcess g \<le> length (m_sets (m_transitionPartition g)) \<and>
     nf \<le> length (m_sets (m_fallbackTransitionPartition g))"

lemma ginvD:
  assumes "ginv d nf g"
  shows "gok d g" "marked_elements (m_nodePartition g) = {}" "actions_agree d g"
    "stable (length (nodes d)) (trans_family g) (node_class g) (trans_class g) (m_nextTransitionSetToProcess g)"
    "stable (length (nodes d)) (fall_family d g) (node_class g) (fall_class g) nf"
    "m_nextTransitionSetToProcess g \<le> length (m_sets (m_transitionPartition g))"
    "nf \<le> length (m_sets (m_fallbackTransitionPartition g))"
  using assms unfolding ginv_def by blast+

lemma staticD:
  assumes "gok d g"
  shows "incoming_ok (length (nodes d)) (m_flattenedTransitionsStartOffsetPerNode g) (m_flattenedTransitionsSizePerNode g) (trans_family g)"
    "incoming_ok (length (nodes d)) (m_flattenedFallbackTransitionsStartOffsetPerNode g) (m_flattenedFallbackTransitionsSizePerNode g)
       (fall_family d g)"
    "i < length (nodes d) \<Longrightarrow> (c, t) \<in> set (node_transitions d (nodes d ! i)) \<longleftrightarrow>
        (\<exists>j < ef_count (trans_family g). ef_src (trans_family g) j = i \<and> ef_chr (trans_family g) j = c \<and> ef_tgt (trans_family g) j = t)"
    "i < length (nodes d) \<Longrightarrow> fdest d i \<noteq> None \<longleftrightarrow> (\<exists>j < ef_count (fall_family d g). ef_src (fall_family d g) j = i)"
  using gokD(1) [OF assms] unfolding static_def by blast+

lemma refinesD:
  assumes "refines d g h"
  shows "trans_family h = trans_family g" "fall_family d h = fall_family d g" "finer (length (nodes d)) (node_class h) (node_class g)"
    "length (m_sets (m_transitionPartition g)) \<le> length (m_sets (m_transitionPartition h))"
    "renumbered (ef_count (trans_family g)) (length (m_sets (m_transitionPartition g))) (trans_class h) (trans_class g)"
    "length (m_sets (m_fallbackTransitionPartition g)) \<le> length (m_sets (m_fallbackTransitionPartition h))"
    "renumbered (ef_count (fall_family d g)) (length (m_sets (m_fallbackTransitionPartition g))) (fall_class h) (fall_class g)"
  using assms unfolding refines_def by blast+

lemma sets_bounded:
  assumes "gok d g"
  shows "length (m_sets (m_transitionPartition g)) \<le> ef_count (trans_family g)"
    "length (m_sets (m_fallbackTransitionPartition g)) \<le> ef_count (fall_family d g)"
  using sets_le_elements gokD(4,5) [OF assms] by (metis edgesD(1,2) partition_ok_def)+

section \<open>Splitting by transitions\<close>

lemma set_next_ok:
  assumes "gok d g"
  shows "gok d (g\<lparr>m_nextTransitionSetToProcess := k\<rparr>)"
proof -
  have "trans_family (g\<lparr>m_nextTransitionSetToProcess := k\<rparr>) = trans_family g"
    "fall_family d (g\<lparr>m_nextTransitionSetToProcess := k\<rparr>) = fall_family d g" by (simp_all add: trans_family_def fall_family_def)
  with assms show ?thesis by (simp add: gok_def static_def)
qed

lemma unique_step:
  assumes inv: "ginv d nf g" and lt: "m_nextTransitionSetToProcess g < length (m_sets (m_transitionPartition g))"
  defines "h \<equiv> refinePartitions (fold markNode (map (\<lambda>j. t_source (m_flattenedTransitions g ! j))
      (iterateSet (m_nextTransitionSetToProcess g) (m_transitionPartition g))) g)"
  shows "ginv d nf (h\<lparr>m_nextTransitionSetToProcess := m_nextTransitionSetToProcess g + 1\<rparr>)" "refines d g h"
    "m_nextTransitionSetToProcess h = m_nextTransitionSetToProcess g"
proof -
  note G = ginvD [OF inv]
  note S = staticD [OF G(1)] and O = gokD [OF G(1)]
  let ?k = "m_nextTransitionSetToProcess g"
  let ?xs = "map (\<lambda>j. t_source (m_flattenedTransitions g ! j)) (iterateSet ?k (m_transitionPartition g))"
  have xs: "?xs = map (ef_src (trans_family g)) (iterateSet ?k (m_transitionPartition g))" by (simp add: trans_family_def)
  note C = sources_of_class [OF O(4) S(1) lt, folded xs]
  note M = mark_refine [OF G(1,2) C(1,2), folded h_def]
  show r: "refines d g h" by (rule M(2))
  note R = refinesD [OF r]
  have split: "(\<exists>j < ef_count (trans_family g). trans_class g j = ?k \<and> ef_src (trans_family g) j = x) \<longleftrightarrow>
      (\<exists>j < ef_count (trans_family g). trans_class g j = ?k \<and> ef_src (trans_family g) j = y)"
    if "x < length (nodes d)" "y < length (nodes d)" "node_class h x = node_class h y" for x y
    using M(5) [OF that] unfolding C(3) .
  have "stable (length (nodes d)) (trans_family g) (node_class h) (trans_class h) (Suc ?k)"
    by (rule stable_process [OF G(4) R(3,5) incomingD(1) [OF S(1)] lt edgesD(4) [OF O(4)] split])
  moreover have "stable (length (nodes d)) (fall_family d g) (node_class h) (fall_class h) nf"
    by (rule stable_refine [OF G(5) R(3,7) incomingD(1) [OF S(2)] G(7)])
  moreover have "actions_agree d h" by (rule actions_agree_refines [OF G(3) r])
  moreover have "trans_family (h\<lparr>m_nextTransitionSetToProcess := Suc ?k\<rparr>) = trans_family g"
    "fall_family d (h\<lparr>m_nextTransitionSetToProcess := Suc ?k\<rparr>) = fall_family d g"
    using R(1,2) by (simp_all add: trans_family_def fall_family_def)
  ultimately show "ginv d nf (h\<lparr>m_nextTransitionSetToProcess := ?k + 1\<rparr>)"
    unfolding ginv_def actions_agree_next using set_next_ok [OF M(1)] M(3) lt R(4,6) G(7) by simp
  show "m_nextTransitionSetToProcess h = ?k" by (rule M(4))
qed

lemma refines_set_next: "refines d g h \<Longrightarrow> refines d g (h\<lparr>m_nextTransitionSetToProcess := k\<rparr>)"
  by (simp add: refines_def trans_family_def fall_family_def)

lemma unique_loop:
  "ginv d nf g \<Longrightarrow> ef_count (trans_family g) - m_nextTransitionSetToProcess g \<le> fuel \<Longrightarrow>
     \<exists>h. splitByUniqueTransitions fuel g = Returned h \<and> ginv d nf h \<and> refines d g h \<and>
       m_nextTransitionSetToProcess h = length (m_sets (m_transitionPartition h))"
proof (induction fuel arbitrary: g)
  case 0
  then have "length (m_sets (m_transitionPartition g)) \<le> m_nextTransitionSetToProcess g"
    using sets_bounded(1) [OF ginvD(1) [OF 0(1)]] by simp
  with 0 ginvD(6) [OF 0(1)] show ?case
    by (simp add: splitByUniqueTransitions.simps Partition_size_def refines_refl)
next
  case (Suc fuel)
  show ?case
  proof (cases "length (m_sets (m_transitionPartition g)) \<le> m_nextTransitionSetToProcess g")
    case True
    with Suc.prems ginvD(6) [OF Suc.prems(1)] show ?thesis
      by (simp add: splitByUniqueTransitions.simps [of "Suc fuel"] Partition_size_def refines_refl)
  next
    case False
    let ?k = "m_nextTransitionSetToProcess g"
    let ?h = "refinePartitions (fold markNode (map (\<lambda>j. t_source (m_flattenedTransitions g ! j))
      (iterateSet ?k (m_transitionPartition g))) g)"
    have lt: "?k < length (m_sets (m_transitionPartition g))" using False by simp
    note U = unique_step [OF Suc.prems(1) lt]
    let ?g = "?h\<lparr>m_nextTransitionSetToProcess := ?k + 1\<rparr>"
    have step: "splitByUniqueTransitions (Suc fuel) g = splitByUniqueTransitions fuel ?g"
      using False U(3) by (subst splitByUniqueTransitions.simps) (simp add: Partition_size_def Let_def)
    note r = refines_set_next [OF U(2), of "?k + 1"]
    have "ef_count (trans_family ?g) - m_nextTransitionSetToProcess ?g \<le> fuel"
      using Suc.prems(2) refinesD(1) [OF r] by simp
    from Suc.IH [OF U(1) this] obtain h where "splitByUniqueTransitions fuel ?g = Returned h" "ginv d nf h" "refines d ?g h"
       "m_nextTransitionSetToProcess h = length (m_sets (m_transitionPartition h))" by blast
    with step refines_trans [OF r] show ?thesis by auto
  qed
qed

section \<open>Splitting by fallback transitions\<close>

lemma fallback_loop:
  "ginv d nf g \<Longrightarrow> m_nextTransitionSetToProcess g = length (m_sets (m_transitionPartition g)) \<Longrightarrow>
     ef_count (fall_family d g) - nf \<le> fuel \<Longrightarrow> ef_count (trans_family g) \<le> m \<Longrightarrow>
     \<exists>h. splitByFallbackTransitions fuel m nf g = Returned h \<and> ginv d (length (m_sets (m_fallbackTransitionPartition h))) h \<and>
       m_nextTransitionSetToProcess h = length (m_sets (m_transitionPartition h))"
proof (induction fuel arbitrary: g nf)
  case 0
  then have "length (m_sets (m_fallbackTransitionPartition g)) = nf"
    using sets_bounded(2) [OF ginvD(1) [OF 0(1)]] ginvD(7) [OF 0(1)] by simp
  with 0 show ?case by (simp add: splitByFallbackTransitions.simps Partition_size_def)
next
  case (Suc fuel)
  note G = ginvD [OF Suc.prems(1)]
  show ?case
  proof (cases "length (m_sets (m_fallbackTransitionPartition g)) \<le> nf")
    case True
    then have "length (m_sets (m_fallbackTransitionPartition g)) = nf" using G(7) by simp
    with Suc.prems show ?thesis by (simp add: splitByFallbackTransitions.simps [of "Suc fuel"] Partition_size_def)
  next
    case False
    note S = staticD [OF G(1)] and O = gokD [OF G(1)]
    have lt: "nf < length (m_sets (m_fallbackTransitionPartition g))" using False by simp
    let ?xs = "map (\<lambda>j. m_flattenedFallbackTransitions g ! j) (iterateSet nf (m_fallbackTransitionPartition g))"
    have xs: "?xs = map (ef_src (fall_family d g)) (iterateSet nf (m_fallbackTransitionPartition g))" by (simp add: fall_family_def)
    note C = sources_of_class [OF O(5) S(2) lt, folded xs]
    let ?h = "refinePartitions (fold markNode ?xs g)"
    note M = mark_refine [OF G(1,2) C(1,2)]
    note R = refinesD [OF M(2)]
    have split: "(\<exists>j < ef_count (fall_family d g). fall_class g j = nf \<and> ef_src (fall_family d g) j = x) \<longleftrightarrow>
      (\<exists>j < ef_count (fall_family d g). fall_class g j = nf \<and> ef_src (fall_family d g) j = y)"
      if "x < length (nodes d)" "y < length (nodes d)" "node_class ?h x = node_class ?h y" for x y
      using M(5) [OF that] unfolding C(3) .
    have "stable (length (nodes d)) (fall_family d ?h) (node_class ?h) (fall_class ?h) (Suc nf)"
      unfolding R(2) by (rule stable_process [OF G(5) R(3,7) incomingD(1) [OF S(2)] lt edgesD(4) [OF O(5)] split])
    moreover have "stable (length (nodes d)) (trans_family ?h) (node_class ?h) (trans_class ?h) (m_nextTransitionSetToProcess ?h)"
      unfolding R(1) M(4) by (rule stable_refine [OF G(4) R(3,5) incomingD(1) [OF S(1)] G(6)])
    ultimately have inv: "ginv d (Suc nf) ?h"
      unfolding ginv_def using M(1,3,4) actions_agree_refines [OF G(3) M(2)] R(4,6) G(6) lt by simp
    have "ef_count (trans_family ?h) - m_nextTransitionSetToProcess ?h \<le> m" using Suc.prems(4) R(1) by simp
    from unique_loop [OF inv this] obtain h1 where h1: "splitByUniqueTransitions m ?h = Returned h1" "ginv d (Suc nf) h1" "refines d ?h h1"
      "m_nextTransitionSetToProcess h1 = length (m_sets (m_transitionPartition h1))" by blast
    note R1 = refinesD [OF h1(3)]
    have "ef_count (fall_family d h1) - Suc nf \<le> fuel" "ef_count (trans_family h1) \<le> m"
      using Suc.prems(3,4) R(1,2) R1(1,2) by simp_all
    from Suc.IH [OF h1(2,4) this] h1(1) show ?thesis
      using False by (subst splitByFallbackTransitions.simps) (simp add: Partition_size_def Let_def)
  qed
qed

end
