(* ===== verification/CE_Minimizer_Congruence.thy ===== *)
theory CE_Minimizer_Congruence
  imports CE_Minimizer_Loops
begin

text \<open>
  The start of the minimiser: the sorted transitions and the first partitions are well formed, and the
  nodes are split by their actions. Then the loops give a congruence of the automaton.
\<close>

section \<open>The first partitions\<close>

definition graph_wf :: "DFA \<Rightarrow> bool" where
  "graph_wf d \<longleftrightarrow> (\<forall>i < length (nodes d).
     distinct (map fst (node_transitions d (nodes d ! i))) \<and>
     (\<forall>(k, t) \<in> set (node_transitions d (nodes d ! i)). k < 128 \<and> t < length (nodes d)) \<and>
     (\<forall>t. fdest d i = Some t \<longrightarrow> t < length (nodes d)))"

lemma graph_wfD:
  assumes "graph_wf d" "i < length (nodes d)"
  shows "distinct (map fst (node_transitions d (nodes d ! i)))"
    "(k, t) \<in> set (node_transitions d (nodes d ! i)) \<Longrightarrow> k < 128 \<and> t < length (nodes d)"
    "fdest d i = Some t \<Longrightarrow> t < length (nodes d)"
  using assms unfolding graph_wf_def by blast+

lemma distinct_pairs: "(\<And>i. i < n \<Longrightarrow> distinct (ks i)) \<Longrightarrow> distinct (concat (map (\<lambda>i. map (Pair i) (ks i)) [0..<n]))"
proof (induction n)
  case (Suc n)
  then show ?case by (auto simp: distinct_map inj_on_def)
qed simp

lemma all_transitions_set:
  "set (all_transitions d) = {\<lparr>t_source = i, t_target = t, t_character = k\<rparr> | i k t. i < length (nodes d) \<and> (k, t) \<in> set (node_transitions d (nodes d ! i))}"
  by (auto simp: all_transitions_def)

lemma all_transitions_distinct:
  assumes "graph_wf d"
  shows "distinct (map (\<lambda>t. (t_source t, t_character t)) (all_transitions d))"
proof -
  have "map (\<lambda>t. (t_source t, t_character t)) (all_transitions d) =
      concat (map (\<lambda>i. map (Pair i) (map fst (node_transitions d (nodes d ! i)))) [0..<length (nodes d)])"
    by (simp add: all_transitions_def map_concat comp_def case_prod_beta)
  then show ?thesis by (simp only:) (rule distinct_pairs, rule graph_wfD(1) [OF assms])
qed

lemma all_fallbacks_set: "set (all_fallbacks d) = {(i, t). i < length (nodes d) \<and> fdest d i = Some t}"
  by (auto simp: all_fallbacks_def fdest_def split: option.splits)

lemma all_fallbacks_distinct: "distinct (map fst (all_fallbacks d))"
proof -
  have "map fst (all_fallbacks d) = filter (\<lambda>i. fdest d i \<noteq> None) [0..<length (nodes d)]"
  proof -
    have "map fst (concat (map (\<lambda>i. case fallbackTransitionDestination d (nodes d ! i) of None \<Rightarrow> [] | Some t \<Rightarrow> [(i, t)]) is)) =
        filter (\<lambda>i. fdest d i \<noteq> None) is" for "is"
      by (induction "is") (auto simp: fdest_def split: option.splits)
    then show ?thesis by (simp add: all_fallbacks_def)
  qed
  then show ?thesis by simp
qed

lemma permuted:
  assumes "mset flat = mset xs" "distinct (map f xs)"
  shows "set flat = set xs" "i < length flat \<Longrightarrow> j < length flat \<Longrightarrow> f (flat ! i) = f (flat ! j) \<Longrightarrow> i = j"
proof -
  show "set flat = set xs" using assms(1) mset_eq_setD by blast
  have "mset (map f flat) = mset (map f xs)" using assms(1) by simp
  then have "distinct (map f flat)" using assms(2) mset_eq_imp_distinct_iff by blast
  then show "i < length flat \<Longrightarrow> j < length flat \<Longrightarrow> f (flat ! i) = f (flat ! j) \<Longrightarrow> i = j"
    by (metis length_map nth_eq_iff_index_eq nth_map)
qed

lemma fold_if: "fold (\<lambda>j p. if P j then f j p else p) xs p = fold f (filter P xs) p"
  by (induction xs arbitrary: p) auto

lemma partition_by_character_ok:
  assumes "\<forall>j < length trs. t_character (trs ! j) < 128"
  defines "p \<equiv> partition_by_character trs"
  shows "partition_ok p" "elements p = length trs" "marked_elements p = {}"
    "i < length trs \<Longrightarrow> j < length trs \<Longrightarrow> Partition_setIndex p i = Partition_setIndex p j \<Longrightarrow>
       t_character (trs ! i) = t_character (trs ! j)"
proof -
  let ?round = "\<lambda>i p. refine_only (fold (\<lambda>j p. if t_character (trs ! j) = i then markElementInCurrentGeneration j p else p) [0..<length trs] p)"
  let ?es = "\<lambda>i. filter (\<lambda>j. t_character (trs ! j) = i) [0..<length trs]"
  have round: "?round i p = refine_only (fold markElementInCurrentGeneration (?es i) p)" for i p
    by (simp only: fold_if)
  let ?p = "\<lambda>n. fold ?round [0..<n] (Partition_initialize (length trs))"
  have inv: "partition_ok (?p n) \<and> elements (?p n) = length trs \<and> marked_elements (?p n) = {} \<and>
     (\<forall>i < length trs. \<forall>j < length trs. Partition_setIndex (?p n) i = Partition_setIndex (?p n) j \<longrightarrow>
        (t_character (trs ! i) < n \<or> t_character (trs ! j) < n) \<longrightarrow> t_character (trs ! i) = t_character (trs ! j))" for n
  proof (induction n)
    case 0
    show ?case using initialize_ok by simp
  next
    case (Suc n)
    have step: "?p (Suc n) = ?round n (?p n)" by simp
    have IH: "partition_ok (?p n)" "elements (?p n) = length trs" "marked_elements (?p n) = {}"
      "\<And>i j. i < length trs \<Longrightarrow> j < length trs \<Longrightarrow> Partition_setIndex (?p n) i = Partition_setIndex (?p n) j \<Longrightarrow>
        t_character (trs ! i) < n \<or> t_character (trs ! j) < n \<Longrightarrow> t_character (trs ! i) = t_character (trs ! j)"
      using Suc.IH by blast+
    have "set (?es n) \<subseteq> {..<elements (?p n)}" using IH(2) by auto
    note R = part.split_by [OF IH(1) _ this IH(3), unfolded IH(2), folded round]
    have d: "distinct (?es n)" by simp
    note R = R [OF d]
    have "t_character (trs ! i) = t_character (trs ! j)"
      if i: "i < length trs" and j: "j < length trs" and e: "Partition_setIndex (?p (Suc n)) i = Partition_setIndex (?p (Suc n)) j"
        and l: "t_character (trs ! i) < Suc n \<or> t_character (trs ! j) < Suc n" for i j
    proof -
      have "Partition_setIndex (?p n) i = Partition_setIndex (?p n) j" "i \<in> set (?es n) \<longleftrightarrow> j \<in> set (?es n)"
        using R(6) [OF i j e [unfolded step]] by blast+
      then show ?thesis using IH(4) [OF i j] i j l by (auto simp: less_Suc_eq)
    qed
    then show ?case using R(1,2,4) unfolding step by blast
  qed
  have p: "p = ?p 128" by (simp only: p_def partition_by_character_def)
  show "partition_ok p" "elements p = length trs" "marked_elements p = {}" using inv [of 128] unfolding p by blast+
  show "t_character (trs ! i) = t_character (trs ! j)"
    if i: "i < length trs" and j: "j < length trs" and e: "Partition_setIndex p i = Partition_setIndex p j"
  proof -
    have "t_character (trs ! i) < 128" using assms(1) i by blast
    with inv [of 128] i j e show ?thesis unfolding p by blast
  qed
qed

lemma initialize_class: "x < n \<Longrightarrow> Partition_setIndex (Partition_initialize n) x = 0"
  by (simp add: Partition_setIndex_def Partition_initialize_def)

lemma new_FullGraphPartition_ok:
  assumes wf: "graph_wf d"
  defines "g \<equiv> new_FullGraphPartition d"
  shows "gok d g" "marked_elements (m_nodePartition g) = {}" "m_nextTransitionSetToProcess g = 0"
proof -
  let ?n = "length (nodes d)" and ?ts = "all_transitions d"
  obtain start flat sizes where f: "flatten ?n \<lparr>t_source = 0, t_target = 0, t_character = 0\<rparr> (map (\<lambda>t. (t, t_target t)) ?ts) = (start, flat, sizes)"
    using prod_cases3 by blast
  obtain fstart fflat fsizes where ff: "flatten ?n 0 (all_fallbacks d) = (fstart, fflat, fsizes)" using prod_cases3 by blast
  have g: "g = \<lparr>m_flattenedTransitionsStartOffsetPerNode = start, m_flattenedTransitionsSizePerNode = sizes,
      m_flattenedFallbackTransitionsStartOffsetPerNode = fstart, m_flattenedFallbackTransitionsSizePerNode = fsizes,
      m_flattenedTransitions = flat, m_flattenedFallbackTransitions = fflat, m_nodePartition = Partition_initialize ?n,
      m_transitionPartition = partition_by_character flat, m_fallbackTransitionPartition = Partition_initialize (length fflat),
      m_nextTransitionSetToProcess = 0\<rparr>"
    by (simp add: g_def new_FullGraphPartition_def f ff)
  show "m_nextTransitionSetToProcess g = 0" by (simp add: g)
  show unm: "marked_elements (m_nodePartition g) = {}" using initialize_ok(3) by (simp add: g)
  have "\<forall>x \<in> set (map (\<lambda>t. (t, t_target t)) ?ts). snd x < ?n"
    using graph_wfD(2) [OF wf] by (auto simp: all_transitions_set)
  from flatten_correct [OF this f] obtain P where P: "flat = map fst P" "mset P = mset (map (\<lambda>t. (t, t_target t)) ?ts)"
    "\<forall>v < ?n. start ! v + sizes ! v \<le> length P \<and> (\<forall>j < length P. snd (P ! j) = v \<longleftrightarrow> start ! v \<le> j \<and> j < start ! v + sizes ! v)"
    by blast
  have mf: "mset flat = mset ?ts" 
    unfolding P(1) mset_map P(2) by (simp add: multiset.map_comp comp_def)
  note perm = permuted [OF mf all_transitions_distinct [OF wf]]
  have snd: "snd (P ! j) = t_target (flat ! j)" if "j < length flat" for j
  proof -
    have "P ! j \<in> set (map (\<lambda>t. (t, t_target t)) ?ts)" using that P(1,2) by (metis length_map mset_eq_setD nth_mem)
    then show ?thesis using that P(1) by auto
  qed
  have in_ts: "flat ! j \<in> set ?ts" if "j < length flat" for j using that perm(1) nth_mem by blast
  have src: "t_source (flat ! j) < ?n \<and> t_target (flat ! j) < ?n \<and> t_character (flat ! j) < 128" if "j < length flat" for j
    using in_ts [OF that] graph_wfD(2) [OF wf] by (auto simp: all_transitions_set)
  have fam: "trans_family g = \<lparr>ef_count = length flat, ef_src = (\<lambda>j. t_source (flat ! j)), ef_chr = (\<lambda>j. t_character (flat ! j)),
      ef_tgt = (\<lambda>j. t_target (flat ! j))\<rparr>" by (simp add: trans_family_def g)
  have incT: "incoming_ok ?n start sizes (trans_family g)"
    unfolding incoming_ok_def fam deterministic_def edge_family.simps
    using perm(2) src P(3) snd by (auto simp: P(1))
  have "\<forall>x \<in> set (all_fallbacks d). snd x < ?n" using graph_wfD(3) [OF wf] by (auto simp: all_fallbacks_set)
  from flatten_correct [OF this ff] obtain F where F: "fflat = map fst F" "mset F = mset (all_fallbacks d)"
    "\<forall>v < ?n. fstart ! v + fsizes ! v \<le> length F \<and> (\<forall>j < length F. snd (F ! j) = v \<longleftrightarrow> fstart ! v \<le> j \<and> j < fstart ! v + fsizes ! v)"
    by blast
  have inF: "F ! j \<in> set (all_fallbacks d)" if "j < length F" for j using that F(2) by (metis mset_eq_setD nth_mem)
  have fF: "fst (F ! j) < ?n \<and> fdest d (fst (F ! j)) = Some (snd (F ! j)) \<and> snd (F ! j) < ?n" if "j < length F" for j
    using inF [OF that] graph_wfD(3) [OF wf] by (auto simp: all_fallbacks_set)
  have ffam: "fall_family d g = \<lparr>ef_count = length fflat, ef_src = (\<lambda>j. fflat ! j), ef_chr = (\<lambda>j. 0),
      ef_tgt = (\<lambda>j. the (fdest d (fflat ! j)))\<rparr>" by (simp add: fall_family_def g)
  have incF: "incoming_ok ?n fstart fsizes (fall_family d g)"
    unfolding incoming_ok_def ffam deterministic_def edge_family.simps
    using permuted(2) [OF F(2) all_fallbacks_distinct] fF F(3) by (auto simp: F(1))
  have edges: "(c, t) \<in> set (node_transitions d (nodes d ! i)) \<longleftrightarrow>
      (\<exists>j < length flat. t_source (flat ! j) = i \<and> t_character (flat ! j) = c \<and> t_target (flat ! j) = t)" if "i < ?n" for i c t
  proof -
    have "(c, t) \<in> set (node_transitions d (nodes d ! i)) \<longleftrightarrow> \<lparr>t_source = i, t_target = t, t_character = c\<rparr> \<in> set flat"
      using that unfolding perm(1) all_transitions_set by auto
    also have "\<dots> \<longleftrightarrow> (\<exists>j < length flat. flat ! j = \<lparr>t_source = i, t_target = t, t_character = c\<rparr>)" by (auto simp: in_set_conv_nth)
    also have "\<dots> \<longleftrightarrow> (\<exists>j < length flat. t_source (flat ! j) = i \<and> t_character (flat ! j) = c \<and> t_target (flat ! j) = t)"
      by (metis Transition.select_convs(1,2,3) Transition.surjective old.unit.exhaust)
    finally show ?thesis .
  qed
  have falls: "fdest d i \<noteq> None \<longleftrightarrow> (\<exists>j < length fflat. fflat ! j = i)" if "i < ?n" for i
  proof -
    have "fdest d i \<noteq> None \<longleftrightarrow> i \<in> fst ` set (all_fallbacks d)" using that by (force simp: all_fallbacks_set)
    also have "fst ` set (all_fallbacks d) = set fflat" using F(1,2) by (metis list.set_map mset_eq_setD)
    finally show ?thesis by (simp add: in_set_conv_nth)
  qed
  have st: "static d g"
    unfolding static_def
  proof (intro conjI)
    show "incoming_ok ?n (m_flattenedTransitionsStartOffsetPerNode g) (m_flattenedTransitionsSizePerNode g) (trans_family g)"
      "incoming_ok ?n (m_flattenedFallbackTransitionsStartOffsetPerNode g) (m_flattenedFallbackTransitionsSizePerNode g) (fall_family d g)"
      using incT incF by (simp_all add: g)
  qed (use edges falls in \<open>simp_all add: fam ffam\<close>)
  have node0: "node_class g x = 0" if "x < ?n" for x using that initialize_class by (simp add: g)
  have "\<forall>j < length flat. t_character (flat ! j) < 128" using src by blast
  note PC = partition_by_character_ok [OF this]
  have "sound (trans_family g) (node_class g) (Partition_setIndex (partition_by_character flat))"
    unfolding sound_def fam edge_family.simps
  proof (intro allI impI conjI)
    fix j k assume a: "j < length flat" "k < length flat" "Partition_setIndex (partition_by_character flat) j = Partition_setIndex (partition_by_character flat) k"
    show "t_character (flat ! j) = t_character (flat ! k)" by (rule PC(4) [OF a])
    show "node_class g (t_target (flat ! j)) = node_class g (t_target (flat ! k))" using node0 src a(1,2) by simp
  qed
  moreover have "sound (fall_family d g) (node_class g) (Partition_setIndex (Partition_initialize (length fflat)))"
    unfolding sound_def using node0 incomingD(3) [OF incF] by (simp add: ffam)
  ultimately show "gok d g"
    unfolding gok_def edges_ok_def using st PC(1-3) initialize_ok by (simp add: fam ffam) (simp add: g)
qed

section \<open>Splitting by actions\<close>

definition final_states_ok :: "DFA \<Rightarrow> nat \<Rightarrow> (u64 list \<times> nat list) list \<Rightarrow> bool" where
  "final_states_ok d k fs \<longleftrightarrow> distinct (map fst fs) \<and>
     (\<forall>a l. map_of fs a = Some l \<longrightarrow> distinct l \<and> set l = {i. i < k \<and> hasActions (nodes d ! i) \<and> node_actions d (nodes d ! i) = a}) \<and>
     (\<forall>i < k. hasActions (nodes d ! i) \<longrightarrow> map_of fs (node_actions d (nodes d ! i)) \<noteq> None)"

lemma add_final_state_ok:
  assumes "final_states_ok d k fs"
  shows "final_states_ok d (Suc k) (add_final_state d k fs)"
proof (cases "hasActions (nodes d ! k)")
  case False
  then have "{i. i < Suc k \<and> hasActions (nodes d ! i) \<and> node_actions d (nodes d ! i) = a} =
      {i. i < k \<and> hasActions (nodes d ! i) \<and> node_actions d (nodes d ! i) = a}" for a by (auto simp: less_Suc_eq)
  with assms False show ?thesis by (auto simp: final_states_ok_def add_final_state_def Let_def less_Suc_eq)
next
  case True
  let ?a = "node_actions d (nodes d ! k)"
  have fs: "add_final_state d k fs = hm_modify ?a (\<lambda>l. l @ [k]) (hm_add ?a [] fs)" using True by (simp add: add_final_state_def Let_def)
  have set: "{i. i < Suc k \<and> hasActions (nodes d ! i) \<and> node_actions d (nodes d ! i) = a} =
      {i. i < k \<and> hasActions (nodes d ! i) \<and> node_actions d (nodes d ! i) = a} \<union> (if a = ?a then {k} else {})" for a
    using True by (auto simp: less_Suc_eq)
  have old: "distinct (map fst fs)"
    "\<And>a l. map_of fs a = Some l \<Longrightarrow> distinct l \<and> set l = {i. i < k \<and> hasActions (nodes d ! i) \<and> node_actions d (nodes d ! i) = a}"
    "\<And>i. i < k \<Longrightarrow> hasActions (nodes d ! i) \<Longrightarrow> map_of fs (node_actions d (nodes d ! i)) \<noteq> None"
    using assms unfolding final_states_ok_def by blast+
  have none: "map_of fs a = None \<Longrightarrow> {i. i < k \<and> hasActions (nodes d ! i) \<and> node_actions d (nodes d ! i) = a} = {}" for a
    using old(3) by blast
  show ?thesis
    unfolding final_states_ok_def fs
  proof (intro conjI allI impI)
    show "distinct (map fst (hm_modify ?a (\<lambda>l. l @ [k]) (hm_add ?a [] fs)))" using old(1) by (simp add: distinct_hm_add)
    fix a l assume m: "map_of (hm_modify ?a (\<lambda>l. l @ [k]) (hm_add ?a [] fs)) a = Some l"
    have "distinct l \<and> set l = {i. i < k \<and> hasActions (nodes d ! i) \<and> node_actions d (nodes d ! i) = a} \<union> (if a = ?a then {k} else {})"
    proof (cases "a = ?a")
      case True
      show ?thesis
      proof (cases "map_of fs ?a")
        case None
        then have "l = [k]" using m True by simp
        with none [OF None] True show ?thesis by (simp only: True) auto
      next
        case (Some l0)
        then have "l = l0 @ [k]" using m True by simp
        with old(2) [OF Some] True show ?thesis by auto
      qed
    next
      case False
      then have "map_of fs a = Some l" using m by (auto split: option.splits if_splits)
      from old(2) [OF this] False show ?thesis by simp
    qed
    then show "distinct l" "set l = {i. i < Suc k \<and> hasActions (nodes d ! i) \<and> node_actions d (nodes d ! i) = a}"
      unfolding set by blast+
  next
    fix i assume i: "i < Suc k" "hasActions (nodes d ! i)"
    have "map_of (hm_modify ?a (\<lambda>l. l @ [k]) (hm_add ?a [] fs)) b = None \<Longrightarrow> b \<noteq> ?a \<and> map_of fs b = None" for b
      by (auto split: if_splits option.splits)
    with i old(3) show "map_of (hm_modify ?a (\<lambda>l. l @ [k]) (hm_add ?a [] fs)) (node_actions d (nodes d ! i)) \<noteq> None"
      by (metis less_Suc_eq)
  qed
qed

lemma final_states_correct: "final_states_ok d (length (nodes d)) (final_states d)"
proof -
  have "final_states_ok d k (fold (add_final_state d) [0..<k] [])" for k
  proof (induction k)
    case (Suc k)
    then show ?case by (simp add: add_final_state_ok)
  qed (simp add: final_states_ok_def)
  then show ?thesis by (simp add: final_states_def)
qed

lemma split_by_actions_correct:
  assumes ok: "gok d g" and unmarked: "marked_elements (m_nodePartition g) = {}"
  defines "h \<equiv> split_by_actions d g"
  shows "gok d h" "marked_elements (m_nodePartition h) = {}" "m_nextTransitionSetToProcess h = m_nextTransitionSetToProcess g"
    "actions_agree d h"
proof -
  let ?n = "length (nodes d)"
  have loop: "gok d g \<Longrightarrow> marked_elements (m_nodePartition g) = {} \<Longrightarrow> \<forall>slot \<in> set slots. distinct (snd slot) \<and> set (snd slot) \<subseteq> {..<?n} \<Longrightarrow>
      (let h = fold (\<lambda>slot g. refinePartitions (fold markNode (snd slot) g)) slots g
       in gok d h \<and> marked_elements (m_nodePartition h) = {} \<and> m_nextTransitionSetToProcess h = m_nextTransitionSetToProcess g \<and>
          finer ?n (node_class h) (node_class g) \<and>
          (\<forall>x < ?n. \<forall>y < ?n. node_class h x = node_class h y \<longrightarrow> (\<forall>slot \<in> set slots. x \<in> set (snd slot) \<longleftrightarrow> y \<in> set (snd slot))))" for slots g
  proof (induction slots arbitrary: g)
    case (Cons slot slots)
    have s: "distinct (snd slot)" "set (snd slot) \<subseteq> {..<?n}" using Cons.prems(3) by simp_all
    have p3: "\<forall>slot \<in> set slots. distinct (snd slot) \<and> set (snd slot) \<subseteq> {..<?n}" using Cons.prems(3) by simp
    let ?g = "refinePartitions (fold markNode (snd slot) g)"
    note M = mark_refine [OF Cons.prems(1,2) s]
    let ?h = "fold (\<lambda>slot g. refinePartitions (fold markNode (snd slot) g)) slots ?g"
    have IH: "gok d ?h" "marked_elements (m_nodePartition ?h) = {}" "m_nextTransitionSetToProcess ?h = m_nextTransitionSetToProcess ?g"
      "finer ?n (node_class ?h) (node_class ?g)"
      "\<And>x y slot. x < ?n \<Longrightarrow> y < ?n \<Longrightarrow> node_class ?h x = node_class ?h y \<Longrightarrow> slot \<in> set slots \<Longrightarrow> x \<in> set (snd slot) \<longleftrightarrow> y \<in> set (snd slot)"
      using Cons.IH [OF M(1,3) p3] unfolding Let_def by blast+
    have "finer ?n (node_class ?h) (node_class g)" by (rule finer_trans [OF IH(4) refinesD(3) [OF M(2)]])
    moreover have "x \<in> set (snd s) \<longleftrightarrow> y \<in> set (snd s)"
      if x: "x < ?n" and y: "y < ?n" and e: "node_class ?h x = node_class ?h y" and m: "s \<in> set (slot # slots)" for x y s
      using M(5) [OF x y finerD [OF IH(4) x y e]] IH(5) [OF x y e, of s] m by auto
    moreover have "fold (\<lambda>slot g. refinePartitions (fold markNode (snd slot) g)) (slot # slots) g = ?h" by simp
    ultimately show ?case using IH(1,2) IH(3) [unfolded M(4)] unfolding Let_def by (simp only:) blast
  qed (simp add: finer_refl)
  have fs: "final_states_ok d ?n (final_states d)" by (rule final_states_correct)
  have slots: "\<forall>slot \<in> set (final_states d). distinct (snd slot) \<and>
      set (snd slot) = {i. i < ?n \<and> hasActions (nodes d ! i) \<and> node_actions d (nodes d ! i) = fst slot}"
  proof
    fix slot assume "slot \<in> set (final_states d)"
    then have "map_of (final_states d) (fst slot) = Some (snd slot)" using fs by (simp add: final_states_ok_def)
    then show "distinct (snd slot) \<and> set (snd slot) = {i. i < ?n \<and> hasActions (nodes d ! i) \<and> node_actions d (nodes d ! i) = fst slot}"
      using fs unfolding final_states_ok_def by blast
  qed
  then have "\<forall>slot \<in> set (final_states d). distinct (snd slot) \<and> set (snd slot) \<subseteq> {..<?n}" by auto
  from loop [OF ok unmarked this] have L: "gok d h" "marked_elements (m_nodePartition h) = {}"
    "m_nextTransitionSetToProcess h = m_nextTransitionSetToProcess g"
    "\<And>x y slot. x < ?n \<Longrightarrow> y < ?n \<Longrightarrow> node_class h x = node_class h y \<Longrightarrow> slot \<in> set (final_states d) \<Longrightarrow> x \<in> set (snd slot) \<longleftrightarrow> y \<in> set (snd slot)"
    unfolding Let_def split_by_actions_def [symmetric] h_def by blast+
  then show "gok d h" "marked_elements (m_nodePartition h) = {}" "m_nextTransitionSetToProcess h = m_nextTransitionSetToProcess g" by blast+
  have acts: "node_actions d (nodes d ! x) = node_actions d (nodes d ! y)"
    if x: "x < ?n" and y: "y < ?n" and e: "node_class h x = node_class h y" and a: "hasActions (nodes d ! x)" for x y
  proof -
    obtain l where "map_of (final_states d) (node_actions d (nodes d ! x)) = Some l"
      using fs x a unfolding final_states_ok_def by fastforce
    then have "(node_actions d (nodes d ! x), l) \<in> set (final_states d)" by (rule map_of_SomeD)
    with L(4) [OF x y e this] slots x a show ?thesis by auto
  qed
  show "actions_agree d h"
    unfolding actions_agree_def
  proof (intro allI impI)
    fix x y assume a: "x < ?n" "y < ?n" "node_class h x = node_class h y"
    have empty: "node_actions d node = []" if "\<not> hasActions node" for node
      using that by (simp add: hasActions_def node_actions_def actionsLength_def)
    show "node_actions d (nodes d ! x) = node_actions d (nodes d ! y)"
      using acts [OF a] acts [OF a(2,1) a(3) [symmetric]] empty by metis
  qed
qed

section \<open>The congruence\<close>

text \<open>A map of the nodes to sets that is a congruence of the automaton.\<close>

definition congruence :: "DFA \<Rightarrow> (nat \<Rightarrow> nat) \<Rightarrow> bool" where
  "congruence d cls \<longleftrightarrow> (\<forall>x < length (nodes d). \<forall>y < length (nodes d). cls x = cls y \<longrightarrow>
     node_actions d (nodes d ! x) = node_actions d (nodes d ! y) \<and>
     (\<forall>c. rel_option (\<lambda>s t. cls s = cls t) (map_of (node_transitions d (nodes d ! x)) c) (map_of (node_transitions d (nodes d ! y)) c)) \<and>
     rel_option (\<lambda>s t. cls s = cls t) (fdest d x) (fdest d y))"

lemma edge_related:
  assumes ok: "edges_ok E cn p" and st: "stable n E cn (Partition_setIndex p) (length (m_sets p))"
    and xy: "x < n" "y < n" "cn x = cn y" and j: "j < ef_count E" "ef_src E j = x"
  shows "\<exists>k < ef_count E. ef_src E k = y \<and> ef_chr E k = ef_chr E j \<and> cn (ef_tgt E k) = cn (ef_tgt E j)"
proof -
  note O = edgesD [OF ok]
  have wf: "pwf p" using O(1) by (simp add: partition_ok_def)
  have "\<forall>j < ef_count E. Partition_setIndex p j < length (m_sets p)" using pwfD(10) [OF wf] O(2) by simp
  note e = stable_end [OF st this xy, of "ef_chr E j" "Partition_setIndex p j"]
  have "has_edge E (Partition_setIndex p) x (ef_chr E j) (Partition_setIndex p j)" using j by (auto simp: has_edge_def)
  then obtain k where k: "k < ef_count E" "ef_src E k = y" "ef_chr E k = ef_chr E j" "Partition_setIndex p k = Partition_setIndex p j"
    unfolding e by (auto simp: has_edge_def)
  with soundD [OF O(4) k(1) j(1) k(4)] show ?thesis by blast
qed

lemma partition_nodes_correct:
  assumes wf: "graph_wf d" and fuel: "length (all_transitions d) + length (nodes d) \<le> fuel"
  shows "\<exists>g. partition_nodes fuel d = Returned g \<and> partition_ok (m_nodePartition g) \<and> elements (m_nodePartition g) = length (nodes d) \<and>
     congruence d (node_class g)"
proof -
  let ?n = "length (nodes d)" and ?g0 = "new_FullGraphPartition d"
  note N = new_FullGraphPartition_ok [OF wf]
  let ?g1 = "split_by_actions d ?g0"
  note A = split_by_actions_correct [OF N(1,2)]
  have inv: "ginv d 0 ?g1" unfolding ginv_def using A N(3) stable_start by simp
  have incT: "incoming_ok ?n (m_flattenedTransitionsStartOffsetPerNode ?g1) (m_flattenedTransitionsSizePerNode ?g1) (trans_family ?g1)"
    and incF: "incoming_ok ?n (m_flattenedFallbackTransitionsStartOffsetPerNode ?g1) (m_flattenedFallbackTransitionsSizePerNode ?g1) (fall_family d ?g1)"
    using staticD(1,2) [OF A(1)] by blast+
  have countF: "ef_count (fall_family d ?g1) \<le> ?n"
  proof -
    have "inj_on (ef_src (fall_family d ?g1)) {..<ef_count (fall_family d ?g1)}"
      using incomingD(1) [OF incF] unfolding deterministic_def by (auto intro!: inj_onI simp: fall_family_def)
    moreover have "ef_src (fall_family d ?g1) ` {..<ef_count (fall_family d ?g1)} \<subseteq> {..<?n}" using incomingD(2) [OF incF] by auto
    ultimately show ?thesis using card_inj_on_le [of _ "{..<ef_count (fall_family d ?g1)}" "{..<?n}"] by simp
  qed
  have countT: "ef_count (trans_family ?g1) \<le> length (all_transitions d)"
  proof -
    let ?f = "\<lambda>j. (ef_src (trans_family ?g1) j, ef_chr (trans_family ?g1) j)"
    have "inj_on ?f {..<ef_count (trans_family ?g1)}"
      using incomingD(1) [OF incT] unfolding deterministic_def by (auto intro!: inj_onI)
    moreover have "?f ` {..<ef_count (trans_family ?g1)} \<subseteq> (\<lambda>t. (t_source t, t_character t)) ` set (all_transitions d)"
    proof
      fix z assume "z \<in> ?f ` {..<ef_count (trans_family ?g1)}"
      then obtain j where j: "j < ef_count (trans_family ?g1)" "z = ?f j" by blast
      let ?i = "ef_src (trans_family ?g1) j"
      have i: "?i < ?n" by (rule incomingD(2) [OF incT j(1)])
      have "(ef_chr (trans_family ?g1) j, ef_tgt (trans_family ?g1) j) \<in> set (node_transitions d (nodes d ! ?i))"
        using staticD(3) [OF A(1) i] j(1) by blast
      with i j(2) show "z \<in> (\<lambda>t. (t_source t, t_character t)) ` set (all_transitions d)"
        by (force simp: all_transitions_set)
    qed
    ultimately have "ef_count (trans_family ?g1) \<le> card ((\<lambda>t. (t_source t, t_character t)) ` set (all_transitions d))"
      using card_inj_on_le [of ?f "{..<ef_count (trans_family ?g1)}"] by simp
    also have "\<dots> \<le> length (all_transitions d)" by (metis card_image_le card_length finite_set le_trans)
    finally show ?thesis .
  qed
  have "ef_count (trans_family ?g1) - m_nextTransitionSetToProcess ?g1 \<le> fuel" using countT fuel by simp
  from unique_loop [OF inv this] obtain g2 where g2: "splitByUniqueTransitions fuel ?g1 = Returned g2" "ginv d 0 g2" "refines d ?g1 g2"
    "m_nextTransitionSetToProcess g2 = length (m_sets (m_transitionPartition g2))" by blast
  have "ef_count (fall_family d g2) - 0 \<le> fuel" "ef_count (trans_family g2) \<le> fuel"
    using refinesD(1,2) [OF g2(3)] countF countT fuel by simp_all
  from fallback_loop [OF g2(2,4) this] obtain g where g: "splitByFallbackTransitions fuel fuel 0 g2 = Returned g"
    "ginv d (length (m_sets (m_fallbackTransitionPartition g))) g"
    "m_nextTransitionSetToProcess g = length (m_sets (m_transitionPartition g))" by blast
  note G = ginvD [OF g(2)] and O = gokD [OF ginvD(1) [OF g(2)]] and S = staticD [OF ginvD(1) [OF g(2)]]
  have rel: "\<exists>t'. (c, t') \<in> set (node_transitions d (nodes d ! y)) \<and> node_class g t' = node_class g t"
    if xy: "x < ?n" "y < ?n" "node_class g x = node_class g y" and t: "(c, t) \<in> set (node_transitions d (nodes d ! x))" for x y c t
  proof -
    obtain j where j: "j < ef_count (trans_family g)" "ef_src (trans_family g) j = x" "ef_chr (trans_family g) j = c" "ef_tgt (trans_family g) j = t"
      using S(3) [OF xy(1)] t by blast
    obtain k where "k < ef_count (trans_family g)" "ef_src (trans_family g) k = y" "ef_chr (trans_family g) k = c"
      "node_class g (ef_tgt (trans_family g) k) = node_class g t"
      using edge_related [OF O(4) G(4) [unfolded g(3)] xy j(1,2)] j(3,4) by blast
    then show ?thesis using S(3) [OF xy(2)] by blast
  qed
  have relF: "\<exists>t'. fdest d y = Some t' \<and> node_class g t' = node_class g t"
    if xy: "x < ?n" "y < ?n" "node_class g x = node_class g y" and t: "fdest d x = Some t" for x y t
  proof -
    obtain j where j: "j < ef_count (fall_family d g)" "ef_src (fall_family d g) j = x" using S(4) [OF xy(1)] t by blast
    then have tgt: "ef_tgt (fall_family d g) j = t" using t by (simp add: fall_family_def)
    obtain k where k: "k < ef_count (fall_family d g)" "ef_src (fall_family d g) k = y"
      "node_class g (ef_tgt (fall_family d g) k) = node_class g t"
      using edge_related [OF O(5) G(5) xy j] tgt by blast
    then obtain t' where "fdest d y = Some t'" using S(4) [OF xy(2)] by blast
    with k show ?thesis by (simp add: fall_family_def)
  qed
  have "congruence d (node_class g)"
    unfolding congruence_def
  proof (intro allI impI conjI)
    fix x y assume xy: "x < ?n" "y < ?n" "node_class g x = node_class g y"
    note yx = xy(2,1) xy(3) [symmetric]
    show "node_actions d (nodes d ! x) = node_actions d (nodes d ! y)" using G(3) xy unfolding actions_agree_def by blast
    show "rel_option (\<lambda>s t. node_class g s = node_class g t) (fdest d x) (fdest d y)"
    proof (cases "fdest d x")
      case None
      then have "fdest d y = None" using relF [OF yx] by (cases "fdest d y") auto
      with None show ?thesis by simp
    next
      case (Some t)
      with relF [OF xy Some] show ?thesis by auto
    qed
    fix c
    have dx: "map_of (node_transitions d (nodes d ! z)) c = Some t \<longleftrightarrow> (c, t) \<in> set (node_transitions d (nodes d ! z))" if "z < ?n" for z t
      using graph_wfD(1) [OF wf that] by (metis map_of_SomeD map_of_is_SomeI)
    show "rel_option (\<lambda>s t. node_class g s = node_class g t) (map_of (node_transitions d (nodes d ! x)) c) (map_of (node_transitions d (nodes d ! y)) c)"
    proof (cases "map_of (node_transitions d (nodes d ! x)) c")
      case None
      have "map_of (node_transitions d (nodes d ! y)) c = None"
      proof (rule ccontr)
        assume "map_of (node_transitions d (nodes d ! y)) c \<noteq> None"
        then obtain t where "map_of (node_transitions d (nodes d ! y)) c = Some t" by blast
        then obtain t' where "(c, t') \<in> set (node_transitions d (nodes d ! x))" using rel [OF yx] dx [OF xy(2)] by blast
        with None dx [OF xy(1)] show False by simp
      qed
      with None show ?thesis by simp
    next
      case (Some t)
      then obtain t' where "(c, t') \<in> set (node_transitions d (nodes d ! y))" "node_class g t' = node_class g t"
        using rel [OF xy] dx [OF xy(1)] by blast
      with Some dx [OF xy(2)] show ?thesis by (metis option.rel_intros(2))
    qed
  qed
  moreover have "partition_nodes fuel d = Returned g" using g2(1) g(1) by (simp add: partition_nodes_def)
  ultimately show ?thesis using O(2,3) by blast
qed

end
