(* ===== verification/CE_Minimizer_Views.thy ===== *)
theory CE_Minimizer_Views
  imports CE_Minimizer_Congruence
begin

text \<open>
  The steps of the minimiser that change the automaton, seen through the view of a node: its
  transitions, its fallback, its actions and whether it is killed. As the slices of the nodes are
  disjoint, a step on one node leaves the views of the others alone.
\<close>

section \<open>Slices and views\<close>

abbreviation tstart :: "DFA \<Rightarrow> nat \<Rightarrow> nat" where "tstart d i \<equiv> m_transitionsStart (nodes d ! i)"
abbreviation tlen :: "DFA \<Rightarrow> nat \<Rightarrow> nat" where "tlen d i \<equiv> transitionsLength (nodes d ! i)"
abbreviation astart :: "DFA \<Rightarrow> nat \<Rightarrow> nat" where "astart d i \<equiv> m_actionsStart (nodes d ! i)"
abbreviation alen :: "DFA \<Rightarrow> nat \<Rightarrow> nat" where "alen d i \<equiv> actionsLength (nodes d ! i)"

definition tend :: "DFA \<Rightarrow> nat \<Rightarrow> nat" where
  "tend d i = tstart d i + tlen d i + (if hasFallbackTransition (nodes d ! i) then 1 else 0)"

definition aend :: "DFA \<Rightarrow> nat \<Rightarrow> nat" where
  "aend d i = astart d i + alen d i"

text \<open>Two ranges share no index; empty ranges share none with any other.\<close>

definition apart :: "nat \<Rightarrow> nat \<Rightarrow> nat \<Rightarrow> nat \<Rightarrow> bool" where
  "apart a b c d \<longleftrightarrow> (\<forall>j. \<not> (a \<le> j \<and> j < b \<and> c \<le> j \<and> j < d))"

definition slices_ok :: "DFA \<Rightarrow> bool" where
  "slices_ok d \<longleftrightarrow>
     (\<forall>i < length (nodes d). tend d i \<le> length (dfa_transitions d) \<and> aend d i \<le> length (actions d)) \<and>
     (\<forall>i < length (nodes d). \<forall>j < length (nodes d). i \<noteq> j \<longrightarrow>
        apart (tstart d i) (tend d i) (tstart d j) (tend d j) \<and> apart (astart d i) (aend d i) (astart d j) (aend d j))"

lemma slicesD:
  assumes "slices_ok d"
  shows "i < length (nodes d) \<Longrightarrow> tend d i \<le> length (dfa_transitions d)" "i < length (nodes d) \<Longrightarrow> aend d i \<le> length (actions d)"
    "i < length (nodes d) \<Longrightarrow> j < length (nodes d) \<Longrightarrow> i \<noteq> j \<Longrightarrow> apart (tstart d i) (tend d i) (tstart d j) (tend d j)"
    "i < length (nodes d) \<Longrightarrow> j < length (nodes d) \<Longrightarrow> i \<noteq> j \<Longrightarrow> apart (astart d i) (aend d i) (astart d j) (aend d j)"
  using assms unfolding slices_ok_def by blast+

record node_view =
  v_transitions :: "(nat \<times> nat) list"
  v_fallback :: "nat option"
  v_actions :: "u64 list"
  v_killed :: bool

definition view :: "DFA \<Rightarrow> nat \<Rightarrow> node_view" where
  "view d i = \<lparr>v_transitions = node_transitions d (nodes d ! i), v_fallback = fdest d i, v_actions = node_actions d (nodes d ! i),
     v_killed = isKilled (nodes d ! i)\<rparr>"

lemma fdest_at:
  assumes "slices_ok d" "i < length (nodes d)"
  shows "fdest d i = (if hasFallbackTransition (nodes d ! i) then Some (snd (dfa_transitions d ! (tstart d i + tlen d i))) else None)"
    "length (node_transitions d (nodes d ! i)) = tlen d i"
  using slicesD(1) [OF assms] by (auto simp: fdest_def fallbackTransitionDestination_def tend_def node_transitions_def Let_def split: if_splits)

lemma take_drop_eq:
  "\<forall>j. a \<le> j \<and> j < a + n \<longrightarrow> xs ! j = ys ! j \<Longrightarrow> length xs = length ys \<Longrightarrow> take n (drop a xs) = take n (drop a ys)"
  by (intro nth_equalityI) (auto simp: nth_append)

text \<open>A node that keeps its record and the contents of its slices keeps its view.\<close>

lemma view_same:
  assumes "nodes e ! i = nodes d ! i" "length (dfa_transitions e) = length (dfa_transitions d)" "length (actions e) = length (actions d)"
    "\<forall>j. tstart d i \<le> j \<and> j < tend d i \<longrightarrow> dfa_transitions e ! j = dfa_transitions d ! j"
    "\<forall>j. astart d i \<le> j \<and> j < aend d i \<longrightarrow> actions e ! j = actions d ! j"
  shows "view e i = view d i"
proof -
  have "node_transitions e (nodes d ! i) = node_transitions d (nodes d ! i)"
    unfolding node_transitions_def by (rule take_drop_eq) (use assms(2,4) in \<open>auto simp: tend_def\<close>)
  moreover have "node_actions e (nodes d ! i) = node_actions d (nodes d ! i)"
    unfolding node_actions_def by (rule take_drop_eq) (use assms(3,5) in \<open>auto simp: aend_def\<close>)
  moreover have "fdest e i = fdest d i"
    using assms(1,2,4) by (auto simp: fdest_def fallbackTransitionDestination_def tend_def Let_def)
  ultimately show ?thesis using assms(1) by (simp add: view_def)
qed

text \<open>A step on node \<open>i\<close> that gives it the view \<open>v\<close>.\<close>

definition updates :: "DFA \<Rightarrow> DFA \<Rightarrow> nat \<Rightarrow> node_view \<Rightarrow> bool" where
  "updates d e i v \<longleftrightarrow> slices_ok e \<and> length (nodes e) = length (nodes d) \<and> root e = root d \<and> view e i = v \<and>
     (\<forall>j < length (nodes d). j \<noteq> i \<longrightarrow> view e j = view d j)"

lemma updatesI:
  assumes ok: "slices_ok d" and i: "i < length (nodes d)"
    and n: "nodes e = (nodes d)[i := n]" and r: "root e = root d"
    and l: "length (dfa_transitions e) = length (dfa_transitions d)" "length (actions e) = length (actions d)"
    and t: "\<forall>j. \<not> (tstart d i \<le> j \<and> j < tend d i) \<longrightarrow> dfa_transitions e ! j = dfa_transitions d ! j"
    and a: "\<forall>j. \<not> (astart d i \<le> j \<and> j < aend d i) \<longrightarrow> actions e ! j = actions d ! j"
    and sub: "\<forall>j. tstart e i \<le> j \<and> j < tend e i \<longrightarrow> tstart d i \<le> j \<and> j < tend d i" "tend e i \<le> length (dfa_transitions d)"
      "\<forall>j. astart e i \<le> j \<and> j < aend e i \<longrightarrow> astart d i \<le> j \<and> j < aend d i" "aend e i \<le> length (actions d)"
  shows "updates d e i (view e i)"
proof -
  have other: "nodes e ! j = nodes d ! j" if "j \<noteq> i" for j using n that by simp
  have len: "length (nodes e) = length (nodes d)" using n by simp
  have te: "tend e j = tend d j" "aend e j = aend d j" if "j \<noteq> i" for j using other [OF that] by (simp_all add: tend_def aend_def)
  have "view e j = view d j" if j: "j < length (nodes d)" "j \<noteq> i" for j
  proof (rule view_same [OF other [OF j(2)] l])
    show "\<forall>k. tstart d j \<le> k \<and> k < tend d j \<longrightarrow> dfa_transitions e ! k = dfa_transitions d ! k"
      using t slicesD(3) [OF ok i j(1)] j(2) unfolding apart_def by metis
    show "\<forall>k. astart d j \<le> k \<and> k < aend d j \<longrightarrow> actions e ! k = actions d ! k"
      using a slicesD(4) [OF ok i j(1)] j(2) unfolding apart_def by metis
  qed
  moreover have "slices_ok e"
    unfolding slices_ok_def len
  proof (intro conjI allI impI)
    fix j assume j: "j < length (nodes d)"
    show "tend e j \<le> length (dfa_transitions e)" "aend e j \<le> length (actions e)"
      using slicesD(1,2) [OF ok j] te [of j] sub(2,4) l by (cases "j = i"; simp)+
    fix k assume k: "k < length (nodes d)" "j \<noteq> k"
    have T: "tstart e m \<le> x \<and> x < tend e m \<longrightarrow> tstart d m \<le> x \<and> x < tend d m" for m x
      using sub(1) te(1) [of m] other [of m] by (cases "m = i") auto
    have A: "astart e m \<le> x \<and> x < aend e m \<longrightarrow> astart d m \<le> x \<and> x < aend d m" for m x
      using sub(3) te(2) [of m] other [of m] by (cases "m = i") auto
    show "apart (tstart e j) (tend e j) (tstart e k) (tend e k)"
      using slicesD(3) [OF ok j k] T unfolding apart_def by blast
    show "apart (astart e j) (aend e j) (astart e k) (aend e k)"
      using slicesD(4) [OF ok j k] A unfolding apart_def by blast
  qed
  ultimately show ?thesis using len r by (simp add: updates_def)
qed

text \<open>A loop over nodes that changes the view of each by the same function.\<close>

lemma for_nodes_views:
  assumes step: "\<And>d i. slices_ok d \<Longrightarrow> i < length (nodes d) \<Longrightarrow> length (nodes d) = n \<Longrightarrow> P i (view d i) \<Longrightarrow> \<exists>e. f i d = Some e \<and> updates d e i (F i (view d i))"
  shows "slices_ok d \<Longrightarrow> length (nodes d) = n \<Longrightarrow> distinct is \<Longrightarrow> set is \<subseteq> {..<n} \<Longrightarrow> \<forall>i \<in> set is. P i (view d i) \<Longrightarrow>
     \<exists>e. for_nodes f is d = Some e \<and> slices_ok e \<and> length (nodes e) = n \<and> root e = root d \<and>
       (\<forall>j < n. view e j = (if j \<in> set is then F j (view d j) else view d j))"
proof (induction "is" arbitrary: d)
  case (Cons i "is")
  have i: "i < length (nodes d)" "P i (view d i)" "i \<notin> set is" using Cons.prems by auto
  obtain e where e: "f i d = Some e" "updates d e i (F i (view d i))" using step [OF Cons.prems(1) i(1) Cons.prems(2) i(2)] by blast
  have E: "slices_ok e" "length (nodes e) = n" "root e = root d" "view e i = F i (view d i)"
    "\<And>j. j < n \<Longrightarrow> j \<noteq> i \<Longrightarrow> view e j = view d j" using e(2) Cons.prems(2) by (auto simp: updates_def)
  have "\<forall>j \<in> set is. P j (view e j)"
  proof
    fix j assume "j \<in> set is"
    then have "j < n" "j \<noteq> i" "P j (view d j)" using Cons.prems i(3) by auto
    then show "P j (view e j)" using E(5) by simp
  qed
  then obtain e' where e': "for_nodes f is e = Some e'" "slices_ok e'" "length (nodes e') = n" "root e' = root e"
    "\<And>j. j < n \<Longrightarrow> view e' j = (if j \<in> set is then F j (view e j) else view e j)"
    using Cons.IH [OF E(1,2)] Cons.prems by auto
  have "view e' j = (if j \<in> set (i # is) then F j (view d j) else view d j)" if "j < n" for j
    using e'(5) [OF that] E(4,5) that i(3) by (cases "j = i") auto
  with e' e(1) E(3) show ?case by auto
qed simp

section \<open>Simplifying\<close>

definition simplified :: "node_view \<Rightarrow> node_view" where
  "simplified v = (case v_fallback v of None \<Rightarrow> v | Some t \<Rightarrow> v\<lparr>v_transitions := filter (\<lambda>s. snd s \<noteq> t) (v_transitions v)\<rparr>)"

text \<open>The nodes whose individual transitions are wrongly taken to cover all characters.\<close>

definition nearly_full :: "node_view \<Rightarrow> bool" where
  "nearly_full v \<longleftrightarrow> v_fallback v = None \<and>
     (length (v_transitions v) = 126 \<and> 0 \<notin> fst ` set (v_transitions v) \<or>
      length (v_transitions v) = 127 \<and> 0 \<in> fst ` set (v_transitions v))"

lemma adds_fallback_view:
  assumes "slices_ok d" "i < length (nodes d)"
  shows "adds_fallback d (nodes d ! i) \<longleftrightarrow> nearly_full (view d i)"
  using fdest_at [OF assms]
  by (auto simp: adds_fallback_def nearly_full_def view_def containsTransition_def list_ex_iff image_iff)

lemma overwrite_at:
  "length (overwrite a ys xs) = length xs"
  "j < length xs \<Longrightarrow> overwrite a ys xs ! j = (if a \<le> j \<and> j < a + length ys then ys ! (j - a) else xs ! j)"
proof (induction ys arbitrary: a xs)
  case (Cons y ys)
  { case 1 then show ?case using Cons.IH by simp }
  { case 2
    then have "overwrite (Suc a) ys (xs[a := y]) ! j =
        (if Suc a \<le> j \<and> j < Suc a + length ys then ys ! (j - Suc a) else xs[a := y] ! j)" using Cons.IH(2) by simp
    with 2 show ?case by (cases "j = a") (auto simp: nth_Cons' Suc_diff_Suc) }
qed auto

lemma overwrite_beyond: "\<not> j < length xs \<Longrightarrow> overwrite a ys xs ! j = xs ! j"
proof (induction ys arbitrary: a xs)
  case (Cons y ys)
  then have "overwrite (Suc a) ys (xs[a := y]) ! j = xs[a := y] ! j" by simp
  then show ?case using Cons.prems by (cases "a < length xs") (auto simp: nth_list_update list_update_beyond)
qed simp

lemma setHas_same:
  "hasFallbackTransition node = b \<Longrightarrow> setHasFallbackTransitionWithoutChangingDFA b node = node"
proof -
  have "x AND NOT 1 = x" if "\<not> bit x 0" for x :: u8
    by (rule bit_eqI) (use that in \<open>auto simp: bit_simps bit_1_iff intro: gr0I\<close>)
  moreover have "x OR 1 = x" if "bit x 0" for x :: u8
    by (rule bit_eqI) (use that in \<open>auto simp: bit_simps bit_1_iff\<close>)
  ultimately show "hasFallbackTransition node = b \<Longrightarrow> ?thesis"
    by (auto simp: setHasFallbackTransitionWithoutChangingDFA_def bit_flags(1) HasFallbackTransition_def)
qed

lemma rewrite_updates:
  assumes ok: "slices_ok d" and i: "i < length (nodes d)" and fb: "fdest d i = Some t"
  shows "\<exists>e. rewrite_transitions i t True d = Some e \<and> updates d e i (simplified (view d i))"
proof -
  let ?node = "nodes d ! i" and ?a = "tstart d i"
  let ?old = "node_transitions d ?node"
  let ?new = "filter (\<lambda>s. snd s \<noteq> t) ?old"
  have has: "hasFallbackTransition ?node" using fdest_at(1) [OF ok i] fb by (auto split: if_splits)
  have len: "length ?old = tlen d i" by (rule fdest_at(2) [OF ok i])
  have bound: "?a + tlen d i < length (dfa_transitions d)" using slicesD(1) [OF ok i] has by (simp add: tend_def)
  have le: "length ?new \<le> length ?old" by simp
  have small: "length ?new < 256"
  proof -
    have "transitionsLength ?node < 256" unfolding transitionsLength_def by (rule order_less_le_trans [OF unsigned_less]) simp
    then show ?thesis using le len by simp
  qed
  let ?pad = "?new @ replicate (length ?old + 1 - length ?new) (u8_max, u32_max)"
  let ?trs = "(overwrite ?a ?pad (dfa_transitions d))[?a + length ?new := (u8_max, t)]"
  let ?n = "resetTransitions ?a (length ?new) ?node"
  let ?e = "d\<lparr>nodes := (nodes d)[i := ?n], dfa_transitions := ?trs\<rparr>"
  have r: "rewrite_transitions i t True d = Some ?e" by (simp add: rewrite_transitions_def Let_def)
  have n: "nodes ?e ! i = ?n" using i by simp
  have fields: "m_transitionsStart ?n = ?a" "transitionsLength ?n = length ?new" "hasFallbackTransition ?n" "isKilled ?n = isKilled ?node"
    "m_actionsStart ?n = astart d i" "actionsLength ?n = alen d i"
    using small has by (simp_all add: resetTransitions_def transitionsLength_def hasFallbackTransition_def isKilled_def actionsLength_def)
  have lp: "length ?pad = tlen d i + 1" using le len by simp
  have te: "tend ?e i = ?a + length ?new + 1" "aend ?e i = aend d i" using fields n by (simp_all add: tend_def aend_def)
  have td: "tend d i = ?a + tlen d i + 1" using has by (simp add: tend_def)
  have at: "?trs ! j = (if j = ?a + length ?new then (u8_max, t) else if ?a \<le> j \<and> j < ?a + tlen d i + 1 then ?pad ! (j - ?a) else dfa_transitions d ! j)"
    if "j < length (dfa_transitions d)" for j
    using overwrite_at(2) [OF that, of ?a ?pad] that lp by (auto simp: nth_list_update overwrite_at(1))
  have inew: "?a + length ?new < length (dfa_transitions d)" using bound le len by simp
  have "updates d ?e i (view ?e i)"
  proof (rule updatesI [OF ok i])
    show "\<forall>j. \<not> (?a \<le> j \<and> j < tend d i) \<longrightarrow> dfa_transitions ?e ! j = dfa_transitions d ! j"
    proof (intro allI impI)
      fix j assume j: "\<not> (?a \<le> j \<and> j < tend d i)"
      show "dfa_transitions ?e ! j = dfa_transitions d ! j"
      proof (cases "j < length (dfa_transitions d)")
        case True
        then show ?thesis using at [OF True] j le len td by auto
      next
        case False
        have "overwrite ?a ?pad (dfa_transitions d) ! j = dfa_transitions d ! j" if "\<not> j < length (dfa_transitions d)" for j
          using that by (simp add: overwrite_beyond)
        then show ?thesis using False inew by simp
      qed
    qed
    show "\<forall>j. tstart ?e i \<le> j \<and> j < tend ?e i \<longrightarrow> ?a \<le> j \<and> j < tend d i" using te td fields(1) n le len by auto
    show "tend ?e i \<le> length (dfa_transitions d)" using te bound le len by simp
    show "aend ?e i \<le> length (actions d)" using te slicesD(2) [OF ok i] by simp
  qed (use n fields te in \<open>simp_all add: overwrite_at(1)\<close>)
  moreover have "view ?e i = simplified (view d i)"
  proof -
    have "node_transitions ?e ?n = ?new"
    proof (rule nth_equalityI)
      show "length (node_transitions ?e ?n) = length ?new" using fields inew by (simp add: node_transitions_def overwrite_at(1))
      fix k assume "k < length (node_transitions ?e ?n)"
      then have k: "k < length ?new" using fields inew by (simp add: node_transitions_def overwrite_at(1))
      have kl: "?a + k < length (dfa_transitions d)" using k inew by simp
      have "node_transitions ?e ?n ! k = ?trs ! (?a + k)"
        using k fields inew by (simp add: node_transitions_def overwrite_at(1))
      also have "\<dots> = ?new ! k" unfolding at [OF kl] using k le len by (simp add: nth_append)
      finally show "node_transitions ?e ?n ! k = ?new ! k" .
    qed
    moreover have "fdest ?e i = Some t"
      using n fields inew at [OF inew] by (simp add: fdest_def fallbackTransitionDestination_def overwrite_at(1))
    moreover have "node_actions ?e ?n = node_actions d ?node" using fields by (simp add: node_actions_def)
    ultimately show ?thesis using n fields(4) fb by (simp add: view_def simplified_def)
  qed
  ultimately show ?thesis using r by auto
qed

lemma simplify_node_updates:
  assumes ok: "slices_ok d" and i: "i < length (nodes d)" and nf: "\<not> nearly_full (view d i)"
  shows "\<exists>e. simplify_node i d = Some e \<and> updates d e i (simplified (view d i))"
proof -
  have add: "\<not> adds_fallback d (nodes d ! i)" using adds_fallback_view [OF ok i] nf by simp
  show ?thesis
  proof (cases "fdest d i")
    case None
    then have h: "\<not> hasFallbackTransition (nodes d ! i)" using fdest_at(1) [OF ok i] by (auto split: if_splits)
    have "simplify_node i d = Some d"
      using add h None by (simp add: simplify_node_def Let_def setHas_same fdest_def)
    moreover have "updates d d i (simplified (view d i))" using ok None by (simp add: updates_def simplified_def view_def)
    ultimately show ?thesis by blast
  next
    case (Some t)
    then have h: "hasFallbackTransition (nodes d ! i)" using fdest_at(1) [OF ok i] by (auto split: if_splits)
    have "simplify_node i d = rewrite_transitions i t True d"
      using add h Some by (simp add: simplify_node_def Let_def setHas_same fdest_def)
    with rewrite_updates [OF ok i Some] show ?thesis by simp
  qed
qed

lemma simplifyTransitions_views:
  assumes "slices_ok d" "\<forall>i < length (nodes d). \<not> nearly_full (view d i)"
  shows "\<exists>e. simplifyTransitions d = Some e \<and> slices_ok e \<and> length (nodes e) = length (nodes d) \<and> root e = root d \<and>
     (\<forall>j < length (nodes d). view e j = simplified (view d j))"
proof -
  have "\<exists>e. for_nodes simplify_node [0..<length (nodes d)] d = Some e \<and> slices_ok e \<and> length (nodes e) = length (nodes d) \<and> root e = root d \<and>
       (\<forall>j < length (nodes d). view e j = (if j \<in> set [0..<length (nodes d)] then simplified (view d j) else view d j))"
    by (rule for_nodes_views [where F = "\<lambda>i. simplified" and P = "\<lambda>i v. \<not> nearly_full v"])
      (use simplify_node_updates assms in auto)
  then show ?thesis by (simp add: simplifyTransitions_def)
qed

end
