(* ===== verification/CE_Minimizer_Relocate.thy ===== *)
theory CE_Minimizer_Relocate
  imports CE_Minimizer_Views
begin

text \<open>
  Killing the nodes that are replaced and redirecting the transitions of the others, as changes of
  the views of the nodes.
\<close>

definition moved :: "(nat \<Rightarrow> nat) \<Rightarrow> node_view \<Rightarrow> node_view" where
  "moved r v = v\<lparr>v_transitions := map (\<lambda>(k, t). (k, r t)) (v_transitions v), v_fallback := map_option r (v_fallback v)\<rparr>"

definition dead :: node_view where
  "dead = \<lparr>v_transitions = [], v_fallback = None, v_actions = [], v_killed = True\<rparr>"

section \<open>Killing nodes\<close>

lemma fill_at: "length (fill a n x xs) = length xs" "\<not> (a \<le> j \<and> j < a + n) \<Longrightarrow> fill a n x xs ! j = xs ! j"
proof -
  have "length (fold (\<lambda>i xs. xs[i := x]) is xs) = length xs \<and> (j \<notin> set is \<longrightarrow> fold (\<lambda>i xs. xs[i := x]) is xs ! j = xs ! j)" for "is"
    by (induction "is" arbitrary: xs) simp_all
  then show "length (fill a n x xs) = length xs" "\<not> (a \<le> j \<and> j < a + n) \<Longrightarrow> fill a n x xs ! j = xs ! j"
    by (auto simp: fill_def)
qed

lemma kill_updates:
  assumes ok: "slices_ok d" and i: "i < length (nodes d)"
  shows "updates d (kill i d) i dead"
proof -
  let ?e = "kill i d"
  let ?n = "(nodes d ! i)\<lparr>m_flags := IsKilled, m_actionsStart := 0, m_actionsLength := 0, m_transitionsStart := 0, m_transitionsLength := 0\<rparr>"
  have e: "nodes ?e = (nodes d)[i := ?n]" "root ?e = root d"
    "dfa_transitions ?e = fill (tstart d i) (tlen d i) (u8_max, u32_max) (dfa_transitions d)"
    "actions ?e = fill (astart d i) (alen d i) (- 1) (actions d)"
    by (simp_all add: kill_def Let_def)
  have n: "nodes ?e ! i = ?n" using e(1) i by simp
  have f: "\<not> hasFallbackTransition ?n" "isKilled ?n" "transitionsLength ?n = 0" "actionsLength ?n = 0"
    by (simp_all add: hasFallbackTransition_def HasFallbackTransition_def isKilled_def IsKilled_def transitionsLength_def actionsLength_def)
  have t: "tend ?e i = 0" "aend ?e i = 0" using n f by (simp_all add: tend_def aend_def)
  have "updates d ?e i (view ?e i)"
  proof (rule updatesI [OF ok i e(1,2)])
    show "\<forall>j. \<not> (tstart d i \<le> j \<and> j < tend d i) \<longrightarrow> dfa_transitions ?e ! j = dfa_transitions d ! j"
      by (intro allI impI, unfold e(3), rule fill_at(2)) (auto simp: tend_def split: if_splits)
    show "\<forall>j. \<not> (astart d i \<le> j \<and> j < aend d i) \<longrightarrow> actions ?e ! j = actions d ! j"
      by (intro allI impI, unfold e(4), rule fill_at(2)) (simp add: aend_def)
  qed (use t e fill_at(1) in auto)
  moreover have "view ?e i = dead"
    using n f by (simp add: view_def dead_def fdest_def fallbackTransitionDestination_def node_transitions_def node_actions_def)
  ultimately show ?thesis by simp
qed

lemma kill_replaced_for_nodes:
  "for_nodes (\<lambda>i d. Some (if i \<noteq> r ! i then kill i d else d)) is d = Some (fold (\<lambda>i d. if i \<noteq> r ! i then kill i d else d) is d)"
  by (induction "is" arbitrary: d) auto

lemma kill_replaced_views:
  assumes ok: "slices_ok d"
  shows "slices_ok (kill_replaced r d) \<and> length (nodes (kill_replaced r d)) = length (nodes d) \<and> root (kill_replaced r d) = root d \<and>
     (\<forall>j < length (nodes d). view (kill_replaced r d) j = (if j \<noteq> r ! j then dead else view d j))"
proof -
  have "\<exists>e. for_nodes (\<lambda>i d. Some (if i \<noteq> r ! i then kill i d else d)) [0..<length (nodes d)] d = Some e \<and> slices_ok e \<and>
     length (nodes e) = length (nodes d) \<and> root e = root d \<and>
     (\<forall>j < length (nodes d). view e j = (if j \<in> set [0..<length (nodes d)] then (\<lambda>i v. if i \<noteq> r ! i then dead else v) j (view d j) else view d j))"
  proof (rule for_nodes_views [where P = "\<lambda>i v. True"])
    fix d i assume "slices_ok d" "i < length (nodes d)"
    with kill_updates [of d i] show "\<exists>e. Some (if i \<noteq> r ! i then kill i d else d) = Some e \<and> updates d e i (if i \<noteq> r ! i then dead else view d i)"
      by (cases "i = r ! i") (simp_all add: updates_def)
  qed (use ok in auto)
  then show ?thesis by (simp add: kill_replaced_for_nodes kill_replaced_def)
qed

section \<open>Redirecting transitions\<close>

lemma relocate_updates:
  assumes ok: "slices_ok d" and i: "i < length (nodes d)"
  shows "\<exists>e. relocate_node r i d = Some e \<and> updates d e i (moved ((!) r) (view d i))"
proof -
  let ?node = "nodes d ! i" and ?a = "tstart d i" and ?old = "node_transitions d (nodes d ! i)"
  let ?new = "map (\<lambda>(k, t). (k, r ! t)) ?old"
  let ?trs = "overwrite ?a ?new (dfa_transitions d)"
  have len: "length ?old = tlen d i" by (rule fdest_at(2) [OF ok i])
  have bound: "tend d i \<le> length (dfa_transitions d)" by (rule slicesD(1) [OF ok i])
  define trs where "trs = (if hasFallbackTransition ?node
     then ?trs[?a + tlen d i := (u8_max, r ! snd (dfa_transitions d ! (?a + tlen d i)))] else ?trs)"
  have "?trs ! (?a + tlen d i) = dfa_transitions d ! (?a + tlen d i)" if "?a + tlen d i < length (dfa_transitions d)"
    using overwrite_at(2) [OF that] len by simp
  then have r: "relocate_node r i d = Some (d\<lparr>dfa_transitions := trs\<rparr>)"
    using fdest_at(1) [OF ok i] bound
    by (auto simp: relocate_node_def trs_def Let_def fallbackTransitionDestination_def changeFallbackTransition_def tend_def overwrite_at(1))
  let ?e = "d\<lparr>dfa_transitions := trs\<rparr>"
  have l: "length trs = length (dfa_transitions d)" by (simp add: trs_def overwrite_at(1))
  have n: "nodes ?e = (nodes d)[i := ?node]" by simp
  have same: "tend ?e i = tend d i" "aend ?e i = aend d i" by (simp_all add: tend_def aend_def)
  have at: "trs ! j = (if hasFallbackTransition ?node \<and> j = ?a + tlen d i then (u8_max, r ! snd (dfa_transitions d ! j))
      else if ?a \<le> j \<and> j < ?a + tlen d i then ?new ! (j - ?a) else dfa_transitions d ! j)" if "j < length (dfa_transitions d)" for j
    using overwrite_at(2) [OF that, of ?a ?new] that len by (auto simp: trs_def nth_list_update overwrite_at(1))
  have beyond: "trs ! j = dfa_transitions d ! j" if "\<not> j < length (dfa_transitions d)" for j
    using overwrite_beyond [OF that, of ?a ?new] that bound by (auto simp: trs_def tend_def nth_list_update overwrite_at(1))
  have "updates d ?e i (view ?e i)"
  proof (rule updatesI [OF ok i n])
    show "\<forall>j. \<not> (?a \<le> j \<and> j < tend d i) \<longrightarrow> dfa_transitions ?e ! j = dfa_transitions d ! j"
    proof (intro allI impI)
      fix j assume "\<not> (?a \<le> j \<and> j < tend d i)"
      then show "dfa_transitions ?e ! j = dfa_transitions d ! j"
        using at [of j] beyond [of j] by (cases "j < length (dfa_transitions d)") (auto simp: tend_def)
    qed
  qed (use same l bound slicesD(2) [OF ok i] in simp_all)
  moreover have "view ?e i = moved ((!) r) (view d i)"
  proof -
    have "node_transitions ?e ?node = ?new"
    proof (rule nth_equalityI)
      show ln: "length (node_transitions ?e ?node) = length ?new" using l len by (auto simp: node_transitions_def)
      fix k assume "k < length (node_transitions ?e ?node)"
      then have k: "k < tlen d i" using ln len by simp
      then have kl: "?a + k < length (dfa_transitions d)" using bound by (auto simp: tend_def split: if_splits)
      have "node_transitions ?e ?node ! k = trs ! (?a + k)" using k kl l by (simp add: node_transitions_def)
      also have "\<dots> = ?new ! k" unfolding at [OF kl] using k by simp
      finally show "node_transitions ?e ?node ! k = ?new ! k" .
    qed
    moreover have "fdest ?e i = map_option ((!) r) (fdest d i)"
      using at [of "?a + tlen d i"] bound l by (auto simp: fdest_def fallbackTransitionDestination_def tend_def Let_def)
    moreover have "node_actions ?e ?node = node_actions d ?node" by (simp add: node_actions_def)
    ultimately show ?thesis by (simp add: view_def moved_def)
  qed
  ultimately show ?thesis using r by auto
qed

lemma relocate_views:
  assumes ok: "slices_ok d" and full: "\<forall>j < length (nodes d). \<not> nearly_full (view d j)"
  shows "\<exists>e. relocate r d = Some e \<and> slices_ok e \<and> length (nodes e) = length (nodes d) \<and> root e = r ! root d \<and>
     (\<forall>j < length (nodes d). view e j = simplified (moved ((!) r) (if j \<noteq> r ! j then dead else view d j)))"
proof -
  let ?n = "length (nodes d)" and ?k = "kill_replaced r d"
  note K = kill_replaced_views [OF ok, of r]
  have "\<exists>e. for_nodes (relocate_node r) [0..<?n] ?k = Some e \<and> slices_ok e \<and> length (nodes e) = ?n \<and> root e = root ?k \<and>
     (\<forall>j < ?n. view e j = (if j \<in> set [0..<?n] then (\<lambda>i. moved ((!) r)) j (view ?k j) else view ?k j))"
    by (rule for_nodes_views [where P = "\<lambda>i v. True"]) (use K relocate_updates in auto)
  then obtain e where e: "for_nodes (relocate_node r) [0..<?n] ?k = Some e" "slices_ok e" "length (nodes e) = ?n" "root e = root d"
    "\<And>j. j < ?n \<Longrightarrow> view e j = moved ((!) r) (if j \<noteq> r ! j then dead else view d j)" using K by auto
  have "nearly_full (moved f v) \<longleftrightarrow> nearly_full v" for f v
    by (simp add: nearly_full_def moved_def image_image case_prod_beta)
  moreover have "\<not> nearly_full dead" by (simp add: nearly_full_def dead_def)
  ultimately have "\<forall>i < length (nodes e). \<not> nearly_full (view e i)" using e(3,5) full by simp
  from simplifyTransitions_views [OF e(2) this] obtain e' where e': "simplifyTransitions e = Some e'" "slices_ok e'"
    "length (nodes e') = length (nodes e)" "root e' = root e" "\<forall>j < length (nodes e). view e' j = simplified (view e j)" by blast
  let ?e = "e'\<lparr>root := r ! root d\<rparr>"
  have "view ?e j = view e' j" for j
    by (simp add: view_def fdest_def fallbackTransitionDestination_def node_transitions_def node_actions_def Let_def)
  moreover have "slices_ok ?e" using e'(2) by (simp add: slices_ok_def tend_def aend_def)
  moreover have "relocate r d = Some ?e" using e e' K by (simp add: relocate_def)
  ultimately show ?thesis using e e' by auto
qed

end
