(* ===== verification/CE_Minimizer_Correct.thy ===== *)
theory CE_Minimizer_Correct
  imports CE_Minimizer_Relocate CE_Bytecode_Link
begin

text \<open>
  The minimised automaton behaves as the original one: the class representatives simulate the nodes
  of their classes.
\<close>

section \<open>Stepping on views\<close>

definition vstep :: "node_view \<Rightarrow> nat \<Rightarrow> nat option" where
  "vstep v c = (case map_of (v_transitions v) c of Some t \<Rightarrow> Some t | None \<Rightarrow> if c = 0 then None else v_fallback v)"

lemma step_view: "dfa_step d q c = vstep (view d q) c" "dfa_out d q = set (v_actions (view d q))"
  by (auto simp: dfa_step_def vstep_def view_def fdest_def Let_def dfa_out_def split: option.split)

text \<open>A node that has a transition on NUL and a fallback has different targets for the two.\<close>

definition nul_ok :: "node_view \<Rightarrow> bool" where
  "nul_ok v \<longleftrightarrow> (\<forall>t. (0, t) \<in> set (v_transitions v) \<longrightarrow> v_fallback v \<noteq> Some t)"

lemma map_of_filter_target:
  "distinct (map fst ts) \<Longrightarrow> map_of (filter (\<lambda>s. snd s \<noteq> t) ts) c = (if map_of ts c = Some t then None else map_of ts c)"
proof (induction ts)
  case (Cons s ts)
  show ?case
  proof (cases "fst s = c")
    case True
    then have "map_of ts c = None" using Cons.prems by (auto simp: map_of_eq_None_iff)
    with Cons True show ?thesis by (cases s) auto
  qed (use Cons in \<open>cases s; auto\<close>)
qed simp

lemma simplified_step:
  assumes "distinct (map fst (v_transitions v))" "c \<noteq> 0 \<or> nul_ok v"
  shows "vstep (simplified v) c = vstep v c"
proof (cases "v_fallback v")
  case (Some t)
  have "c = 0 \<Longrightarrow> map_of (v_transitions v) c \<noteq> Some t"
    using assms(2) Some by (auto simp: nul_ok_def dest: map_of_SomeD)
  with Some show ?thesis
    by (auto simp: simplified_def vstep_def map_of_filter_target [OF assms(1)] split: option.splits)
qed (simp add: simplified_def)

lemma moved_step: "vstep (moved r v) c = map_option r (vstep v c)"
proof -
  have "map_of (map (\<lambda>(k, t). (k, r t)) ts) c = map_option r (map_of ts c)" for ts :: "(nat \<times> nat) list"
    by (induction ts) auto
  then show ?thesis by (simp add: vstep_def moved_def split: option.splits)
qed

lemma simplified_fields [simp]: "v_fallback (simplified v) = v_fallback v" "v_actions (simplified v) = v_actions v"
    "v_killed (simplified v) = v_killed v" "set (v_transitions (simplified v)) \<subseteq> set (v_transitions v)"
  by (auto simp: simplified_def split: option.splits)

lemma simplified_distinct: "distinct (map fst (v_transitions v)) \<Longrightarrow> distinct (map fst (v_transitions (simplified v)))"
  by (simp add: simplified_def distinct_map_filter split: option.splits)

lemma moved_fields [simp]: "v_fallback (moved r v) = map_option r (v_fallback v)" "v_actions (moved r v) = v_actions v"
    "v_killed (moved r v) = v_killed v" "v_transitions (moved r v) = map (\<lambda>(k, t). (k, r t)) (v_transitions v)"
    "map fst (v_transitions (moved r v)) = map fst (v_transitions v)"
  by (simp_all add: moved_def comp_def case_prod_beta)

section \<open>Representatives\<close>

text \<open>What the relocation vector is: one representative for each class of a congruence.\<close>

definition representatives :: "DFA \<Rightarrow> (nat \<Rightarrow> nat) \<Rightarrow> bool" where
  "representatives d r \<longleftrightarrow>
     (\<forall>i < length (nodes d). r i < length (nodes d) \<and> r (r i) = r i \<and>
        node_actions d (nodes d ! r i) = node_actions d (nodes d ! i) \<and>
        (\<forall>c. map_option r (dfa_step d (r i) c) = map_option r (dfa_step d i c))) \<and>
     (\<forall>i < length (nodes d). \<forall>j < length (nodes d). r i = r j \<longrightarrow> node_actions d (nodes d ! i) = node_actions d (nodes d ! j))"

lemma congruence_step:
  assumes c: "congruence d cls" and xy: "x < length (nodes d)" "y < length (nodes d)" "cls x = cls y"
  shows "rel_option (\<lambda>s t. cls s = cls t) (dfa_step d x c) (dfa_step d y c)"
proof -
  have m: "rel_option (\<lambda>s t. cls s = cls t) (map_of (node_transitions d (nodes d ! x)) c) (map_of (node_transitions d (nodes d ! y)) c)"
    and f: "rel_option (\<lambda>s t. cls s = cls t) (fdest d x) (fdest d y)"
    using c xy unfolding congruence_def by blast+
  from m show ?thesis
  proof (cases rule: option.rel_cases)
    case None
    then show ?thesis using f by (simp add: dfa_step_def fdest_def Let_def)
  qed (simp add: dfa_step_def Let_def)
qed

lemma step_range:
  assumes "graph_wf d" "i < length (nodes d)" "dfa_step d i c = Some t"
  shows "t < length (nodes d)"
  using assms(3) graph_wfD(2,3) [OF assms(1,2)]
  by (auto simp: dfa_step_def fdest_def Let_def split: option.splits if_splits dest!: map_of_SomeD)

lemma replacements_represent:
  assumes wf: "graph_wf d" and ok: "partition_ok (m_nodePartition g)" "elements (m_nodePartition g) = length (nodes d)"
    and cong: "congruence d (node_class g)"
  shows "representatives d (nodeReplacement g)"
proof -
  let ?r = "nodeReplacement g" and ?n = "length (nodes d)"
  have p: "pwf (m_nodePartition g)" using ok(1) by (simp add: partition_ok_def)
  have r: "?r i < ?n" "node_class g (?r i) = node_class g i" if "i < ?n" for i
    using firstElementInSet_correct [OF p, of "node_class g i"] pwfD(10) [OF p, of i] that ok(2)
    by (simp_all add: nodeReplacement_def)
  have eq: "?r s = ?r t" if "node_class g s = node_class g t" for s t using that by (simp add: nodeReplacement_def)
  have acts: "node_actions d (nodes d ! i) = node_actions d (nodes d ! j)" if "i < ?n" "j < ?n" "node_class g i = node_class g j" for i j
    using cong that unfolding congruence_def by blast
  have step: "map_option ?r (dfa_step d (?r i) c) = map_option ?r (dfa_step d i c)" if "i < ?n" for i c
    using congruence_step [OF cong r(1) [OF that] that r(2) [OF that], of c]
  proof (cases rule: option.rel_cases)
    case (Some s t)
    show ?thesis unfolding Some(1,2) option.map(2) eq [OF Some(3)] ..
  qed simp
  have same: "node_class g i = node_class g j" if "i < ?n" "j < ?n" "?r i = ?r j" for i j
    using r(2) [OF that(1)] r(2) [OF that(2)] that(3) by simp
  show ?thesis
    unfolding representatives_def
  proof (intro conjI allI impI)
    fix i assume i: "i < ?n"
    show "?r i < ?n" by (rule r(1) [OF i])
    show "?r (?r i) = ?r i" by (rule eq [OF r(2) [OF i]])
    show "node_actions d (nodes d ! ?r i) = node_actions d (nodes d ! i)" by (rule acts [OF r(1) [OF i] i r(2) [OF i]])
    show "map_option ?r (dfa_step d (?r i) c) = map_option ?r (dfa_step d i c)" for c by (rule step [OF i])
    show "node_actions d (nodes d ! i) = node_actions d (nodes d ! j)" if "j < ?n" "?r i = ?r j" for j
      by (rule acts [OF i that(1) same [OF i that]])
  qed
qed

section \<open>The minimised automaton\<close>

text \<open>Every node's NUL transition leads to a node with other actions than the fallback's.\<close>

definition nul_apart :: "DFA \<Rightarrow> bool" where
  "nul_apart d \<longleftrightarrow> (\<forall>i < length (nodes d). \<forall>s t. (0, s) \<in> set (node_transitions d (nodes d ! i)) \<and> fdest d i = Some t \<longrightarrow>
     node_actions d (nodes d ! s) \<noteq> node_actions d (nodes d ! t))"

text \<open>
  The condition on the sets of actions does not depend on the order in which the code traverses the
  hash set of the actions of a node.
\<close>

definition nul_distinct :: "DFA \<Rightarrow> bool" where
  "nul_distinct d \<longleftrightarrow> (\<forall>i < length (nodes d). \<forall>s t. (0, s) \<in> set (node_transitions d (nodes d ! i)) \<and> fdest d i = Some t \<longrightarrow>
     dfa_out d s \<noteq> dfa_out d t)"

lemma nul_distinct_apart: "nul_distinct d \<Longrightarrow> nul_apart d"
  unfolding nul_distinct_def nul_apart_def dfa_out_def by metis

definition minimizable :: "DFA \<Rightarrow> bool" where
  "minimizable d \<longleftrightarrow> graph_wf d \<and> slices_ok d \<and> root d < length (nodes d) \<and>
     (\<forall>i < length (nodes d). \<not> isKilled (nodes d ! i) \<and> \<not> nearly_full (view d i))"

definition minimizer_fuel :: "DFA \<Rightarrow> nat" where
  "minimizer_fuel d = length (all_transitions d) + length (nodes d)"

lemma all_transitions_length: "length (all_transitions d) = (\<Sum>i \<leftarrow> [0..<length (nodes d)]. length (v_transitions (view d i)))"
  by (simp add: all_transitions_def length_concat comp_def view_def)

lemma graph_wf_view: "graph_wf d \<longleftrightarrow> (\<forall>i < length (nodes d). distinct (map fst (v_transitions (view d i))) \<and>
     (\<forall>(k, t) \<in> set (v_transitions (view d i)). k < 128 \<and> t < length (nodes d)) \<and>
     (\<forall>t. v_fallback (view d i) = Some t \<longrightarrow> t < length (nodes d)))"
  by (simp add: graph_wf_def view_def)

lemma minimize_partition_views:
  assumes m: "minimizable d" and fuel: "minimizer_fuel d \<le> fuel"
  shows "\<exists>d1 g r e. simplifyTransitions d = Some d1 \<and> partition_nodes fuel d1 = Returned g \<and> r = nodeReplacement g \<and> slices_ok d1 \<and> graph_wf d1 \<and> length (nodes d1) = length (nodes d) \<and> representatives d1 r \<and>
     (\<forall>j < length (nodes d). view d1 j = simplified (view d j)) \<and>
     DFAMinimizer_minimize fuel d = Returned e \<and> slices_ok e \<and> length (nodes e) = length (nodes d) \<and> root e = r (root d) \<and>
     (\<forall>j < length (nodes d). view e j = simplified (moved r (if j \<noteq> r j then dead else view d1 j)))"
proof -
  let ?n = "length (nodes d)"
  have M: "graph_wf d" "slices_ok d" "root d < ?n" "\<forall>i < ?n. \<not> nearly_full (view d i)" using m by (auto simp: minimizable_def)
  obtain d1 where d1: "simplifyTransitions d = Some d1" "slices_ok d1" "length (nodes d1) = ?n" "root d1 = root d"
    "\<forall>j < ?n. view d1 j = simplified (view d j)" using simplifyTransitions_views [OF M(2,4)] by blast
  have sub: "set (v_transitions (simplified v)) \<subseteq> set (v_transitions v)" for v by simp
  have wf: "graph_wf d1" unfolding graph_wf_view d1(3)
  proof (intro allI impI conjI)
    fix i assume i: "i < ?n"
    note W = M(1) [unfolded graph_wf_view, rule_format, OF i]
    have v: "view d1 i = simplified (view d i)" using d1(5) i by blast
    show "distinct (map fst (v_transitions (view d1 i)))" using W simplified_distinct v by simp
    show "\<forall>(k, t) \<in> set (v_transitions (view d1 i)). k < 128 \<and> t < ?n" using W sub v by fastforce
    fix t assume "v_fallback (view d1 i) = Some t" then show "t < ?n" using W v by simp
  qed
  have "length (v_transitions (simplified v)) \<le> length (v_transitions v)" for v
    by (simp add: simplified_def split: option.splits)
  then have "length (all_transitions d1) \<le> length (all_transitions d)"
    unfolding all_transitions_length d1(3) by (intro sum_list_mono) (use d1(5) in simp)
  then have "length (all_transitions d1) + length (nodes d1) \<le> fuel" using fuel d1(3) by (simp add: minimizer_fuel_def)
  from partition_nodes_correct [OF wf this] obtain g where g: "partition_nodes fuel d1 = Returned g" "partition_ok (m_nodePartition g)"
    "elements (m_nodePartition g) = length (nodes d1)" "congruence d1 (node_class g)" by blast
  let ?f = "nodeReplacement g" and ?r = "map (nodeReplacement g) [0..<length (nodes d1)]"
  note R = replacements_represent [OF wf g(2-4)]
  have full: "\<forall>j < length (nodes d1). \<not> nearly_full (view d1 j)"
  proof (intro allI impI)
    fix j assume "j < length (nodes d1)"
    then have v: "view d1 j = simplified (view d j)" "\<not> nearly_full (view d j)" using d1(3,5) M(4) by auto
    then show "\<not> nearly_full (view d1 j)" by (cases "v_fallback (view d j)") (simp_all add: simplified_def nearly_full_def)
  qed
  from relocate_views [OF d1(2) this, of ?r] obtain e where e: "relocate ?r d1 = Some e" "slices_ok e" "length (nodes e) = ?n"
    "root e = ?r ! root d" "\<forall>j < ?n. view e j = simplified (moved ((!) ?r) (if j \<noteq> ?r ! j then dead else view d1 j))"
    unfolding d1(3,4) by blast
  have at: "?r ! j = ?f j" if "j < ?n" for j using that d1(3) by simp
  have mv: "moved ((!) ?r) (if j \<noteq> ?r ! j then dead else view d1 j) = moved ?f (if j \<noteq> ?f j then dead else view d1 j)" if j: "j < ?n" for j
  proof (cases "j = ?f j")
    case True
    note W = wf [unfolded graph_wf_view d1(3), rule_format, OF j]
    have "map (\<lambda>(k, t). (k, ?r ! t)) (v_transitions (view d1 j)) = map (\<lambda>(k, t). (k, ?f t)) (v_transitions (view d1 j))"
      using W at by (intro map_cong) auto
    moreover have "map_option ((!) ?r) (v_fallback (view d1 j)) = map_option ?f (v_fallback (view d1 j))"
      using W at by (cases "v_fallback (view d1 j)") auto
    ultimately show ?thesis using True at [OF j] by (simp only: moved_def if_False simp_thms)
  qed (use at [OF j] in \<open>simp add: moved_def dead_def\<close>)
  have "DFAMinimizer_minimize fuel d = Returned e" using d1(1) g(1) e(1) by (simp add: DFAMinimizer_minimize_def)
  moreover have "root e = ?f (root d)" using e(4) at [OF M(3)] by simp
  moreover have "\<forall>j < ?n. view e j = simplified (moved ?f (if j \<noteq> ?f j then dead else view d1 j))" using e(5) mv by auto
  ultimately show ?thesis using d1 g(1) wf R e by blast
qed

lemma minimize_views:
  assumes "minimizable d" "minimizer_fuel d \<le> fuel"
  shows "\<exists>d1 r e. slices_ok d1 \<and> graph_wf d1 \<and> length (nodes d1) = length (nodes d) \<and> representatives d1 r \<and>
     (\<forall>j < length (nodes d). view d1 j = simplified (view d j)) \<and>
     DFAMinimizer_minimize fuel d = Returned e \<and> slices_ok e \<and> length (nodes e) = length (nodes d) \<and> root e = r (root d) \<and>
     (\<forall>j < length (nodes d). view e j = simplified (moved r (if j \<noteq> r j then dead else view d1 j)))"
  using minimize_partition_views [OF assms] by blast

lemma representativesD:
  assumes "representatives d r"
  shows "i < length (nodes d) \<Longrightarrow> r i < length (nodes d)" "i < length (nodes d) \<Longrightarrow> r (r i) = r i"
    "i < length (nodes d) \<Longrightarrow> node_actions d (nodes d ! r i) = node_actions d (nodes d ! i)"
    "i < length (nodes d) \<Longrightarrow> map_option r (dfa_step d (r i) c) = map_option r (dfa_step d i c)"
    "i < length (nodes d) \<Longrightarrow> j < length (nodes d) \<Longrightarrow> r i = r j \<Longrightarrow> node_actions d (nodes d ! i) = node_actions d (nodes d ! j)"
  using assms unfolding representatives_def by blast+

text \<open>The views of a minimised automaton \<open>e\<close>.\<close>

definition minimized :: "DFA \<Rightarrow> DFA \<Rightarrow> (nat \<Rightarrow> nat) \<Rightarrow> DFA \<Rightarrow> bool" where
  "minimized d d1 r e \<longleftrightarrow> length (nodes d1) = length (nodes d) \<and> graph_wf d1 \<and> representatives d1 r \<and>
     (\<forall>j < length (nodes d). view d1 j = simplified (view d j)) \<and> length (nodes e) = length (nodes d) \<and> root e = r (root d) \<and>
     (\<forall>j < length (nodes d). view e j = simplified (moved r (if j \<noteq> r j then dead else view d1 j))) \<and> slices_ok e"

lemma minimizedD:
  assumes "minimized d d1 r e"
  shows "length (nodes d1) = length (nodes d)" "graph_wf d1" "representatives d1 r" "length (nodes e) = length (nodes d)" "root e = r (root d)"
    "j < length (nodes d) \<Longrightarrow> view d1 j = simplified (view d j)"
    "j < length (nodes d) \<Longrightarrow> view e j = simplified (moved r (if j \<noteq> r j then dead else view d1 j))"
    "slices_ok e"
  using assms unfolding minimized_def by blast+

lemma minimized_live:
  assumes m: "minimized d d1 r e" and d: "\<forall>i < length (nodes d). \<not> isKilled (nodes d ! i)" and j: "j < length (nodes d)"
  shows "live e j \<longleftrightarrow> r j = j"
proof -
  note M = minimizedD [OF m]
  have "live e j \<longleftrightarrow> \<not> v_killed (view e j)" using j M(4) by (simp add: live_def view_def)
  also have "\<dots> \<longleftrightarrow> r j = j" using M(6,7) [OF j] d j by (auto simp: dead_def view_def [of d])
  finally show ?thesis .
qed

lemma minimized_wf:
  assumes m: "minimized d d1 r e" and d: "\<forall>i < length (nodes d). \<not> isKilled (nodes d ! i)" and root: "root d < length (nodes d)"
  shows "dfa_wf e"
proof -
  note M = minimizedD [OF m] and R = representativesD [OF minimizedD(3) [OF m], unfolded M(1)]
  have rl: "live e (r j)" if "j < length (nodes d)" for j using minimized_live [OF m d R(1) [OF that]] R(2) [OF that] by simp
  have "node_wf e (nodes e ! j)" if "live e j" for j
  proof -
    have j: "j < length (nodes d)" using that M(4) by (simp add: live_def)
    then have "r j = j" using minimized_live [OF m d] that by simp
    then have v: "view e j = simplified (moved r (view d1 j))" using M(7) [OF j] by simp
    note W = M(2) [unfolded graph_wf_view M(1), rule_format, OF j]
    have "distinct (map fst (v_transitions (view e j)))"
      unfolding v by (rule simplified_distinct) (use W in \<open>simp add: comp_def case_prod_beta\<close>)
    moreover have "k < 128 \<and> live e t" if "(k, t) \<in> set (v_transitions (view e j))" for k t
    proof -
      have "(k, t) \<in> set (v_transitions (moved r (view d1 j)))" using that simplified_fields(4) unfolding v by blast
      then obtain s where "(k, s) \<in> set (v_transitions (view d1 j))" "t = r s" by auto
      then show ?thesis using W rl by blast
    qed
    moreover have "\<exists>t. v_fallback (view e j) = Some t \<and> live e t" if "v_fallback (view e j) \<noteq> None"
      using that W rl unfolding v by auto
    moreover have "hasFallbackTransition (nodes e ! j) \<longleftrightarrow> v_fallback (view e j) \<noteq> None"
      using fdest_at(1) [OF M(8)] j M(4) by (simp add: view_def)
    ultimately show ?thesis unfolding node_wf_def by (simp add: view_def fdest_def) blast
  qed
  then show ?thesis using rl [OF root] M(5) by (simp add: dfa_wf_def)
qed

lemma minimized_nul:
  assumes m: "minimized d d1 r e" and wf: "graph_wf d" and apart: "nul_apart d" and j: "j < length (nodes d)"
  shows "nul_ok (view d j)" "nul_ok (moved r (view d1 j))"
proof -
  note M = minimizedD [OF m] and R = representativesD [OF minimizedD(3) [OF m], unfolded M(1)]
  have A: "node_actions d (nodes d ! s) \<noteq> node_actions d (nodes d ! t)" if "(0, s) \<in> set (v_transitions (view d j))" "v_fallback (view d j) = Some t" for s t
    using apart j that unfolding nul_apart_def by (auto simp: view_def)
  show "nul_ok (view d j)" unfolding nul_ok_def using A by blast
  have acts: "node_actions d1 (nodes d1 ! i) = node_actions d (nodes d ! i)" if "i < length (nodes d)" for i
    using arg_cong [where f = v_actions, OF M(6) [OF that]] by (simp add: view_def)
  show "nul_ok (moved r (view d1 j))"
    unfolding nul_ok_def
  proof (intro allI impI notI)
    fix t assume "(0, t) \<in> set (v_transitions (moved r (view d1 j)))" "v_fallback (moved r (view d1 j)) = Some t"
    then obtain s u where s: "(0, s) \<in> set (v_transitions (view d1 j))" "v_fallback (view d j) = Some u" "r s = r u"
      using M(6) [OF j] by auto
    have s': "(0, s) \<in> set (v_transitions (view d j))" using s(1) simplified_fields(4) unfolding M(6) [OF j] by blast
    have "s < length (nodes d)" "u < length (nodes d)"
      using wf [unfolded graph_wf_view, rule_format, OF j] s(2) s' by auto
    then have "node_actions d (nodes d ! s) = node_actions d (nodes d ! u)" using R(5) s(3) acts by metis
    with A [OF s' s(2)] show False by blast
  qed
qed

lemma minimized_step:
  assumes m: "minimized d d1 r e" and wf: "graph_wf d" and c: "c \<noteq> 0 \<or> nul_apart d" and i: "i < length (nodes d)"
  shows "dfa_step e (r i) c = map_option r (dfa_step d i c)"
proof -
  note M = minimizedD [OF m] and R = representativesD [OF minimizedD(3) [OF m], unfolded M(1)]
  have ri: "r i < length (nodes d)" by (rule R(1) [OF i])
  have "dfa_step e (r i) c = vstep (simplified (moved r (view d1 (r i)))) c"
    unfolding step_view M(7) [OF ri] using R(2) [OF i] by simp
  also have "\<dots> = vstep (moved r (view d1 (r i))) c"
  proof (rule simplified_step)
    show "distinct (map fst (v_transitions (moved r (view d1 (r i)))))"
      using M(2) [unfolded graph_wf_view M(1), rule_format, OF ri] unfolding moved_fields(5) by blast
    show "c \<noteq> 0 \<or> nul_ok (moved r (view d1 (r i)))" using c minimized_nul(2) [OF m wf _ ri] by blast
  qed
  also have "\<dots> = map_option r (dfa_step d1 i c)" unfolding moved_step step_view(1) [symmetric] by (rule R(4) [OF i])
  also have "dfa_step d1 i c = dfa_step d i c"
    unfolding step_view M(6) [OF i]
  proof (rule simplified_step)
    show "distinct (map fst (v_transitions (view d i)))" using wf [unfolded graph_wf_view, rule_format, OF i] by blast
    show "c \<noteq> 0 \<or> nul_ok (view d i)" using c minimized_nul(1) [OF m wf _ i] by blast
  qed
  finally show ?thesis .
qed

lemma minimized_out:
  assumes m: "minimized d d1 r e" and i: "i < length (nodes d)"
  shows "dfa_out e (r i) = dfa_out d i"
proof -
  note M = minimizedD [OF m] and R = representativesD [OF minimizedD(3) [OF m], unfolded M(1)]
  have "v_actions (view e (r i)) = v_actions (view d1 (r i))" unfolding M(7) [OF R(1) [OF i]] using R(2) [OF i] by simp
  also have "\<dots> = v_actions (view d1 i)" using R(3) [OF i] by (simp add: view_def)
  also have "\<dots> = v_actions (view d i)" unfolding M(6) [OF i] by simp
  finally show ?thesis by (simp add: step_view)
qed

text \<open>
  If a node goes on NUL to a node of the class of the target of its fallback, the representative of
  its class has no transition on NUL.
\<close>

lemma minimized_nul_lost:
  assumes m: "minimized d d1 r e" and wf: "graph_wf d" and j: "j < length (nodes d)"
    and s: "(0, s) \<in> set (node_transitions d (nodes d ! j))" and t: "fdest d j = Some t" and merged: "r s = r t"
  shows "dfa_step e (r j) 0 = None"
proof -
  note M = minimizedD [OF m] and R = representativesD [OF minimizedD(3) [OF m], unfolded M(1)]
  let ?v = "moved r (view d1 (r j))"
  have rj: "r j < length (nodes d)" by (rule R(1) [OF j])
  have wf1: "k < 128" if "(k, u) \<in> set (v_transitions (view d1 i))" "i < length (nodes d)" for i k u
    using M(2) [unfolded graph_wf_view M(1), rule_format, OF that(2)] that(1) by blast
  have far: "dfa_step d1 i 128 = v_fallback (view d1 i)" if "i < length (nodes d)" for i
  proof -
    have "map_of (v_transitions (view d1 i)) 128 = None"
      using wf1 [OF _ that] unfolding map_of_eq_None_iff by fastforce
    then show ?thesis by (simp add: step_view vstep_def)
  qed
  have fb: "v_fallback ?v = Some (r t)"
    using R(4) [OF j, of 128] far [OF rj] far [OF j] t unfolding M(6) [OF j] by (simp add: view_def)
  have nul: "u = r t" if u: "map_of (v_transitions ?v) 0 = Some u" for u
  proof -
    have "map_option r (dfa_step d1 (r j) 0) = Some u" using u by (auto simp: step_view vstep_def moved_def map_of_map split: option.splits)
    then have d1: "map_option r (dfa_step d1 j 0) = Some u" using R(4) [OF j, of 0] by simp
    have D: "distinct (map fst (v_transitions (view d j)))" using wf [unfolded graph_wf_view, rule_format, OF j] by blast
    have "x = s" if "map_of (v_transitions (view d1 j)) 0 = Some x" for x
    proof -
      have "(0, x) \<in> set (v_transitions (view d j))" using map_of_SomeD [OF that] simplified_fields(4) unfolding M(6) [OF j] by blast
      then show ?thesis using eq_key_imp_eq_value [OF D] s by (simp add: view_def)
    qed
    then show ?thesis using d1 merged by (auto simp: step_view vstep_def split: option.splits)
  qed
  have distinct: "distinct (map fst (v_transitions ?v))"
    using M(2) [unfolded graph_wf_view M(1), rule_format, OF rj] unfolding moved_fields(5) by blast
  have "map_of (v_transitions (simplified ?v)) 0 = None"
  proof (rule ccontr)
    assume "map_of (v_transitions (simplified ?v)) 0 \<noteq> None"
    then obtain u where "(0, u) \<in> set (v_transitions (simplified ?v))" by (meson map_of_SomeD not_None_eq)
    then have "(0, u) \<in> set (v_transitions ?v)" "u \<noteq> r t" using fb unfolding simplified_def by (simp_all del: moved_fields)
    then show False using nul map_of_is_SomeI [OF distinct] by blast
  qed
  moreover have "view e (r j) = simplified ?v" using M(7) [OF rj] R(2) [OF j] by simp
  ultimately show ?thesis by (simp add: step_view vstep_def)
qed

lemma minimize_correct:
  assumes m: "minimizable d" and fuel: "minimizer_fuel d \<le> fuel"
  shows "\<exists>e. DFAMinimizer_minimize fuel d = Returned e \<and> dfa_wf e \<and> dfa_out e (root e) = dfa_out d (root d) \<and>
     (\<forall>w. 0 \<notin> set w \<or> nul_apart d \<longrightarrow>
        run_out (dfa_step e) (dfa_out e) (root e) w = run_out (dfa_step d) (dfa_out d) (root d) w)"
proof -
  have M: "graph_wf d" "root d < length (nodes d)" "\<forall>i < length (nodes d). \<not> isKilled (nodes d ! i)" using m by (auto simp: minimizable_def)
  obtain d1 r e where e: "DFAMinimizer_minimize fuel d = Returned e" and z: "minimized d d1 r e"
    using minimize_views [OF assms] unfolding minimized_def by blast
  let ?ok = "\<lambda>c::nat. c \<noteq> 0 \<or> nul_apart d"
  have sim: "simulation (dfa_step d) (dfa_out d) (dfa_step e) (dfa_out e) (\<lambda>i j. i < length (nodes d) \<and> j = r i) ?ok"
  proof
    fix i j and c :: nat assume "i < length (nodes d) \<and> j = r i" "?ok c"
    with minimized_step [OF z M(1), of c i] step_range [OF M(1), of i c]
    show "rel_option (\<lambda>i j. i < length (nodes d) \<and> j = r i) (dfa_step d i c) (dfa_step e j c)"
      by (cases "dfa_step d i c") auto
  qed (use minimized_out [OF z] in auto)
  have "run_out (dfa_step e) (dfa_out e) (root e) w = run_out (dfa_step d) (dfa_out d) (root d) w" if "0 \<notin> set w \<or> nul_apart d" for w
    by (rule simulation.run_out_eq [OF sim, symmetric])
      (use that M(2) minimizedD(5) [OF z] in \<open>auto simp: list_all_iff intro!: gr0I\<close>)
  moreover have "dfa_out e (root e) = dfa_out d (root d)" using minimized_out [OF z M(2)] minimizedD(5) [OF z] by simp
  ultimately show ?thesis using e minimized_wf [OF z M(3,2)] by blast
qed

end
