(* ===== verification/CE_Minimizer_Slices.thy ===== *)
theory CE_Minimizer_Slices
  imports CE_Minimizer_Views CE_Subset_Shape
begin

text \<open>
  The slices of the nodes of an automaton that \<open>NFAToDFA::convert\<close> returns are in range and
  disjoint: a node gets its actions when it is made and its transitions when its set is processed,
  both at the end of the vectors.
\<close>

section \<open>Steps that keep the slices disjoint\<close>

text \<open>The transitions of all nodes but \<open>i\<close> end before \<open>s\<close>.\<close>

definition end_before :: "nat \<Rightarrow> nat \<Rightarrow> DFA \<Rightarrow> bool" where
  "end_before s i d \<longleftrightarrow> (\<forall>j < length (nodes d). j \<noteq> i \<longrightarrow> tend d j \<le> s)"

lemma end_before_length: "slices_ok d \<Longrightarrow> end_before (length (dfa_transitions d)) i d"
  by (simp add: end_before_def slicesD(1))

lemma slices_append_transitions:
  "slices_ok d \<Longrightarrow> slices_ok (d\<lparr>dfa_transitions := dfa_transitions d @ xs\<rparr>)"
  "end_before s i (d\<lparr>dfa_transitions := dfa_transitions d @ xs\<rparr>) = end_before s i d"
proof -
  have e: "tend (d\<lparr>dfa_transitions := dfa_transitions d @ xs\<rparr>) j = tend d j" "aend (d\<lparr>dfa_transitions := dfa_transitions d @ xs\<rparr>) j = aend d j" for j
    by (simp_all add: tend_def aend_def)
  show "slices_ok d \<Longrightarrow> slices_ok (d\<lparr>dfa_transitions := dfa_transitions d @ xs\<rparr>)"
    by (auto simp: slices_ok_def e intro: le_add1 [THEN order_trans [rotated]])
  show "end_before s i (d\<lparr>dfa_transitions := dfa_transitions d @ xs\<rparr>) = end_before s i d" by (simp add: end_before_def e)
qed

lemma slices_new_node:
  assumes ok: "slices_ok d" and n: "nodes e = nodes d @ [n]" "dfa_transitions e = dfa_transitions d" "actions e = actions d @ xs"
    and new: "m_transitionsStart n = 0" "transitionsLength n = 0" "\<not> hasFallbackTransition n"
      "m_actionsStart n = length (actions d)" "actionsLength n = length xs"
  shows "slices_ok e" "end_before s i d \<Longrightarrow> end_before s i e"
proof -
  have t: "tend e j = tend d j" "aend e j = aend d j" "tstart e j = tstart d j" "astart e j = astart d j" if "j < length (nodes d)" for j
    using that n by (simp_all add: tend_def aend_def)
  have z: "tend e (length (nodes d)) = 0" "astart e (length (nodes d)) = length (actions d)"
    "aend e (length (nodes d)) = length (actions d) + length xs"
    using n new by (simp_all add: tend_def aend_def)
  have len: "length (nodes e) = Suc (length (nodes d))" "length (actions e) = length (actions d) + length xs" using n by simp_all
  show "end_before s i d \<Longrightarrow> end_before s i e" using t z by (auto simp: end_before_def len less_Suc_eq)
  show "slices_ok e"
    unfolding slices_ok_def len n(2)
  proof (intro conjI allI impI)
    fix j assume j: "j < Suc (length (nodes d))"
    show "tend e j \<le> length (dfa_transitions d)" "aend e j \<le> length (actions d) + length xs"
      using slicesD(1,2) [OF ok, of j] t [of j] z j by (auto simp: less_Suc_eq)
    fix k assume k: "k < Suc (length (nodes d))" "j \<noteq> k"
    consider "j < length (nodes d)" "k < length (nodes d)" | "j = length (nodes d)" "k < length (nodes d)" | "k = length (nodes d)" "j < length (nodes d)"
      using j k by (auto simp: less_Suc_eq)
    then show "apart (tstart e j) (tend e j) (tstart e k) (tend e k)" "apart (astart e j) (aend e j) (astart e k) (aend e k)"
      using slicesD(3,4) [OF ok _ _ k(2)] slicesD(2) [OF ok, of j] slicesD(2) [OF ok, of k] t z by (cases; force simp: apart_def)+
  qed
qed

lemma slices_update:
  assumes ok: "slices_ok d" and i: "i < length (nodes d)" and n: "nodes e = (nodes d)[i := n]"
    and l: "length (dfa_transitions d) \<le> length (dfa_transitions e)" "actions e = actions d"
    and a: "m_actionsStart n = astart d i" "actionsLength n = alen d i"
    and t: "m_transitionsStart n = s" "tend e i \<le> length (dfa_transitions e)" "end_before s i d"
  shows "slices_ok e" "end_before s i e"
proof -
  have o: "nodes e ! j = nodes d ! j" if "j \<noteq> i" for j using n that by simp
  have T: "tend e j = tend d j" "tend d j \<le> s" if "j \<noteq> i" "j < length (nodes d)" for j
    using o that t(3) by (simp_all add: tend_def end_before_def)
  have ti: "tstart e i = s" using n i t(1) by simp
  have A: "aend e j = aend d j" "astart e j = astart d j" for j
    using o a n i by (cases "j = i"; simp add: aend_def)+
  have len: "length (nodes e) = length (nodes d)" using n by simp
  show "end_before s i e" using T by (simp add: end_before_def len)
  show "slices_ok e"
    unfolding slices_ok_def len l(2)
  proof (intro conjI allI impI)
    fix j assume j: "j < length (nodes d)"
    show "tend e j \<le> length (dfa_transitions e)" using slicesD(1) [OF ok j] T [of j] t(2) l j by (cases "j = i") auto
    show "aend e j \<le> length (actions d)" using slicesD(2) [OF ok j] A by simp
    fix k assume k: "k < length (nodes d)" "j \<noteq> k"
    show "apart (astart e j) (aend e j) (astart e k) (aend e k)" using slicesD(4) [OF ok j k] A by simp
    show "apart (tstart e j) (tend e j) (tstart e k) (tend e k)"
    proof (cases "j = i \<or> k = i")
      case True
      then show ?thesis using T [of j] T [of k] ti j k by (auto simp: apart_def)
    next
      case False
      then show ?thesis using slicesD(3) [OF ok j k] T [of j] T [of k] o j k by auto
    qed
  qed
qed

section \<open>The construction\<close>

lemma getOrCreate_slices:
  assumes "getOrCreateDFANode graph u st = Some (st', t)" "slices_ok (sub_dfa st)"
  shows "slices_ok (sub_dfa st')" "end_before s i (sub_dfa st) \<Longrightarrow> end_before s i (sub_dfa st')"
proof -
  have "slices_ok (sub_dfa st') \<and> (end_before s i (sub_dfa st) \<longrightarrow> end_before s i (sub_dfa st'))"
  proof (cases "find_set u (uniqueNodeIdSetTable st)")
    case None
    define xs where "xs = fold (\<lambda>n acts. hs_add_all (finalRuleIds (graph ! n)) acts) u []"
    let ?n = "set_actions (length (actions (sub_dfa st))) (length xs) new_DFANode"
    have e: "nodes (sub_dfa st') = nodes (sub_dfa st) @ [?n]" "dfa_transitions (sub_dfa st') = dfa_transitions (sub_dfa st)"
      "actions (sub_dfa st') = actions (sub_dfa st) @ xs" "length xs \<le> 65535"
      using assms(1) None by (auto simp: getOrCreateDFANode_def translate_def xs_def Let_def split: if_splits)
    have "m_transitionsStart ?n = 0" "transitionsLength ?n = 0" "\<not> hasFallbackTransition ?n"
      "m_actionsStart ?n = length (actions (sub_dfa st))" "actionsLength ?n = length xs"
      using e(4) by (simp_all add: set_actions_def new_DFANode_def transitionsLength_def hasFallbackTransition_def actionsLength_def)
    from slices_new_node [OF assms(2) e(1-3) this] show ?thesis by blast
  qed (use assms in \<open>simp add: getOrCreateDFANode_def\<close>)
  then show "slices_ok (sub_dfa st')" "end_before s i (sub_dfa st) \<Longrightarrow> end_before s i (sub_dfa st')" by blast+
qed

lemma add_key_slices:
  "add_key_transitions graph key sts st = Some st' \<Longrightarrow> slices_ok (sub_dfa st) \<Longrightarrow> end_before s i (sub_dfa st) \<Longrightarrow>
     slices_ok (sub_dfa st') \<and> end_before s i (sub_dfa st')"
proof (induction graph key sts st arbitrary: st' rule: add_key_transitions.induct)
  case (2 graph key u sts st)
  show ?case
  proof (cases "u = []")
    case False
    from 2(3) False obtain st1 t where g: "getOrCreateDFANode graph u st = Some (st1, t)" by (auto split: option.splits)
    let ?st2 = "st1\<lparr>sub_dfa := sub_dfa st1\<lparr>dfa_transitions := dfa_transitions (sub_dfa st1) @ [(key, t)]\<rparr>\<rparr>"
    have rec: "add_key_transitions graph (Suc key) sts ?st2 = Some st'" using 2(3) False g by simp
    note G = getOrCreate_slices [OF g 2(4)]
    have "slices_ok (sub_dfa ?st2)" "end_before s i (sub_dfa ?st2)"
      using slices_append_transitions G 2(5) by simp_all
    from 2(2) [OF False g refl rec this] show ?thesis .
  qed (use 2 in simp)
qed simp

lemma process_set_slices:
  assumes ok: "graph_ok A" and cl: "closures_ok A graph closures" and inv: "sinv A {} st" and sl: "slices_ok (sub_dfa st)"
    and tab: "table_ok st" and ne: "unprocessedNodes st \<noteq> []" and r: "process_set graph closures st = Some st'"
  shows "slices_ok (sub_dfa st')"
proof -
  obtain source d where last: "last (unprocessedNodes st) = (source, d)" by fastforce
  define st0 where "st0 = st\<lparr>unprocessedNodes := butlast (unprocessedNodes st)\<rparr>"
  note S = sinv_start [OF inv ne last, folded st0_def]
  let ?s = "length (dfa_transitions (sub_dfa st))"
  obtain sts fallback st1 where pop: "populateTransitions graph closures source = Some (sts, fallback)"
    and k: "add_key_transitions graph 0 sts st0 = Some st1"
    using r last by (auto simp: process_set_def st0_def Let_def split: option.splits)
  have tab0: "table_ok st0" using tab by (simp add: table_ok_def st0_def)
  from add_key_shape [OF k tab0] obtain trs where K: "extends (sub_dfa st) (sub_dfa st1)" "table_ok st1"
    "dfa_transitions (sub_dfa st1) = dfa_transitions (sub_dfa st) @ trs" by (auto simp: st0_def)
  have d: "d < length (nodes (sub_dfa st))" using S(2) sinvD(1) [OF inv] by simp
  then have n1: "nodes (sub_dfa st1) ! d = nodes (sub_dfa st) ! d" "d < length (nodes (sub_dfa st1))"
    using K(1) by (auto simp: extends_def nth_append)
  have "slices_ok (sub_dfa st0)" "end_before ?s d (sub_dfa st0)" using sl end_before_length [OF sl] by (simp_all add: st0_def)
  from add_key_slices [OF k this] have sl1: "slices_ok (sub_dfa st1)" "end_before ?s d (sub_dfa st1)" by blast+
  let ?len = "length trs"
  let ?n2 = "setTransitions ?s ?len (nodes (sub_dfa st) ! d)"
  have len1: "length (dfa_transitions (sub_dfa st1)) - ?s = ?len" using K(3) by simp
  have le: "?len \<le> 127" using r last pop k len1 by (auto simp: process_set_def st0_def Let_def split: if_splits option.splits)
  have fresh: "\<not> hasFallbackTransition (nodes (sub_dfa st) ! d)" using S(5) by (simp add: fresh_node_def hasFallbackTransition_def)
  define st2 where "st2 = set_node_transitions d ?s ?len st1"
  have n2: "\<not> hasFallbackTransition ?n2" "m_transitionsStart ?n2 = ?s" "transitionsLength ?n2 = ?len"
    "m_actionsStart ?n2 = astart (sub_dfa st) d" "actionsLength ?n2 = alen (sub_dfa st) d"
    using fresh le by (simp_all add: setTransitions_def hasFallbackTransition_def transitionsLength_def actionsLength_def)
  have st2: "st2 = st1\<lparr>sub_dfa := (sub_dfa st1)\<lparr>nodes := (nodes (sub_dfa st1))[d := ?n2]\<rparr>\<rparr>"
    by (simp add: st2_def set_node_transitions_def n1)
  have "slices_ok (sub_dfa st2) \<and> end_before ?s d (sub_dfa st2)"
  proof -
    have e: "tend (sub_dfa st2) d \<le> length (dfa_transitions (sub_dfa st2))" using n2 n1(2) K(3) by (simp add: tend_def st2)
    show ?thesis
      by (intro conjI slices_update [OF sl1(1) n1(2) _ _ _ _ _ n2(2) e sl1(2)]) (use n1 n2 in \<open>simp_all add: st2\<close>)
  qed
  then have sl2: "slices_ok (sub_dfa st2)" "end_before ?s d (sub_dfa st2)" by blast+
  have r2: "process_set graph closures st =
     (if fallback = [] then Some st2
      else case getOrCreateDFANode graph fallback st2 of None \<Rightarrow> None
           | Some (st, t) \<Rightarrow> map_option (\<lambda>dfa. st\<lparr>sub_dfa := dfa\<rparr>) (addFallbackTransition d t (sub_dfa st)))"
    using last pop k len1 le by (simp add: process_set_def st0_def st2_def Let_def)
  show ?thesis
  proof (cases "fallback = []")
    case False
    obtain st3 t dfa where g: "getOrCreateDFANode graph fallback st2 = Some (st3, t)"
      and a: "addFallbackTransition d t (sub_dfa st3) = Some dfa" and st': "st' = st3\<lparr>sub_dfa := dfa\<rparr>"
      using r r2 False by (auto split: option.splits)
    note G = getOrCreate_slices [OF g sl2(1)]
    have n3: "nodes (sub_dfa st3) ! d = ?n2 \<and> d < length (nodes (sub_dfa st3))"
    proof (cases "find_set fallback (uniqueNodeIdSetTable st2)")
      case None
      then show ?thesis using g n1(2) by (auto simp: getOrCreateDFANode_def translate_def Let_def st2 nth_append split: if_splits)
    qed (use g n1(2) in \<open>auto simp: getOrCreateDFANode_def st2\<close>)
    let ?n4 = "?n2\<lparr>m_flags := m_flags ?n2 OR HasFallbackTransition\<rparr>"
    have dfa: "dfa = sub_dfa st3\<lparr>dfa_transitions := dfa_transitions (sub_dfa st3) @ [(u8_max, t)], nodes := (nodes (sub_dfa st3))[d := ?n4]\<rparr>"
      and len3: "length (dfa_transitions (sub_dfa st3)) = ?s + ?len"
      using a n3 n2(2,3) by (auto simp: addFallbackTransition_def Let_def split: if_splits)
    have n4: "m_transitionsStart ?n4 = ?s" "transitionsLength ?n4 = ?len" "m_actionsStart ?n4 = astart (sub_dfa st3) d"
      "actionsLength ?n4 = alen (sub_dfa st3) d"
      using n2(2,3) n3 by (simp_all add: transitionsLength_def actionsLength_def)
    have e: "tend dfa d \<le> length (dfa_transitions dfa)" using n3 n4 len3 by (simp add: tend_def dfa)
    have "slices_ok dfa"
      by (rule slices_update(1) [OF G(1) _ _ _ _ n4(3,4,1) e G(2) [OF sl2(2)]]) (use n3 in \<open>simp_all add: dfa\<close>)
    then show ?thesis by (simp add: st')
  qed (use r r2 sl2 in simp)
qed

lemma convert_loop_slices:
  assumes ok: "graph_ok A" and cl: "closures_ok A graph closures"
  shows "sinv A {} st \<Longrightarrow> table_ok st \<Longrightarrow> slices_ok (sub_dfa st) \<Longrightarrow> convert_loop fuel graph closures st = Returned dfa \<Longrightarrow> slices_ok dfa"
proof (induction fuel arbitrary: st)
  case 0
  then show ?case by (auto simp: convert_loop.simps split: if_splits)
next
  case (Suc fuel)
  show ?case
  proof (cases "unprocessedNodes st = []")
    case False
    then obtain st' where p: "process_set graph closures st = Some st'" "convert_loop fuel graph closures st' = Returned dfa"
      using Suc.prems(4) by (auto simp: convert_loop.simps [of "Suc fuel"] split: option.splits)
    have "sinv A {} st'" by (rule process_set_correct(1) [OF ok cl Suc.prems(1) False p(1)])
    moreover have "table_ok st'" using process_set_shape [OF ok cl Suc.prems(1,2) False p(1)] by blast
    moreover have "slices_ok (sub_dfa st')" by (rule process_set_slices [OF ok cl Suc.prems(1,3,2) False p(1)])
    ultimately show ?thesis using Suc.IH [OF _ _ _ p(2)] by blast
  qed (use Suc.prems in \<open>auto simp: convert_loop.simps\<close>)
qed

lemma convert_slices:
  assumes ok: "graph_ok A" and r: "NFAToDFA_convert fuel A = Returned dfa"
  shows "slices_ok dfa"
proof -
  obtain graph closures s where start: "closures_ok A graph closures"
    "NFAToDFA_convert fuel A =
       (case getOrCreateDFANode graph s start_state of None \<Rightarrow> Crashed | Some (st, _) \<Rightarrow> convert_loop fuel graph closures st)"
    "\<And>st t. getOrCreateDFANode graph s start_state = Some (st, t) \<Longrightarrow> sinv A {} st \<and> unprocessedNodes st = [(s, 0)]"
    using convert_start [where fuel = fuel, OF ok] by metis
  obtain st t where g: "getOrCreateDFANode graph s start_state = Some (st, t)" "convert_loop fuel graph closures st = Returned dfa"
    using r start(2) by (auto split: option.splits)
  have tab0: "table_ok start_state" by (simp add: table_ok_def dfa_shape_def new_DFA_def)
  have sl0: "slices_ok (sub_dfa start_state)" by (simp add: slices_ok_def new_DFA_def)
  show ?thesis
    using convert_loop_slices [OF ok start(1) _ getOrCreate_shape(1) [OF tab0 g(1)] getOrCreate_slices(1) [OF g(1) sl0] g(2)]
      start(3) [OF g(1)] by blast
qed

lemma shape_graph_wf:
  assumes "dfa_shape d"
  shows "graph_wf d" "\<forall>i < length (nodes d). \<not> isKilled (nodes d ! i)"
proof -
  have "node_shape d (nodes d ! i)" if "i < length (nodes d)" for i using assms that by (simp add: dfa_shape_def)
  then show "graph_wf d" "\<forall>i < length (nodes d). \<not> isKilled (nodes d ! i)"
    by (fastforce simp: graph_wf_def node_shape_def fdest_def fallbackTransitionDestination_def Let_def split: if_splits)+
qed

end
