(* ===== verification/CE_Minimizer_Props.thy ===== *)
theory CE_Minimizer_Props
  imports CE_Minimizer_Correct CE_Minimizer_Slices CE_Subset_Props CE_Bytecode_Exec
begin

text \<open>
  The properties of the minimiser: it keeps the actions of an automaton under two conditions, and
  each condition is needed.
\<close>

section \<open>Nodes with nearly all transitions\<close>

definition histogram_ok :: "(nat \<times> nat) list \<Rightarrow> (nat \<times> nat) list \<times> nat option \<times> nat \<Rightarrow> bool" where
  "histogram_ok ts = (\<lambda>(h, b, s). (\<forall>t. b = Some t \<longrightarrow> t \<in> snd ` set ts) \<and> (b = None \<longrightarrow> s = 0) \<and> (\<forall>t n. map_of h t = Some n \<longrightarrow> 0 < n))"

lemma count_target_ok:
  assumes "histogram_ok ts acc" "x \<in> set ts"
  shows "histogram_ok ts (count_target x acc)" "fst x \<noteq> 0 \<or> fst (snd acc) \<noteq> None \<Longrightarrow> fst (snd (count_target x acc)) \<noteq> None"
proof -
  obtain h b s where acc: "acc = (h, b, s)" by (cases acc)
  let ?t = "snd x"
  define h' where "h' = (if map_of h ?t = None then hm_add ?t 1 h else hm_modify ?t (\<lambda>n. n + 1) h)"
  have c: "count_target x acc = (if fst x = 0 then acc else if s < the (map_of h' ?t) then (h', Some ?t, the (map_of h' ?t)) else (h', b, s))"
    by (simp add: count_target_def acc h'_def Let_def)
  have pos: "\<forall>t n. map_of h' t = Some n \<longrightarrow> 0 < n"
    using assms(1) by (auto simp: histogram_ok_def acc h'_def split: if_splits option.splits)
  have "map_of h' ?t \<noteq> None" by (auto simp: h'_def split: option.splits)
  then have score: "0 < the (map_of h' ?t)" using pos by auto
  have t: "?t \<in> snd ` set ts" using assms(2) by simp
  show "histogram_ok ts (count_target x acc)" using assms(1) pos t score unfolding c by (auto simp: histogram_ok_def acc)
  show "fst x \<noteq> 0 \<or> fst (snd acc) \<noteq> None \<Longrightarrow> fst (snd (count_target x acc)) \<noteq> None"
    using assms(1) score unfolding c by (cases b) (auto simp: histogram_ok_def acc)
qed

lemma best_target_exists:
  assumes "\<exists>s \<in> set ts. fst s \<noteq> 0"
  shows "\<exists>t. best_target ts = Some t \<and> t \<in> snd ` set ts"
proof -
  have "histogram_ok ts acc \<Longrightarrow> set xs \<subseteq> set ts \<Longrightarrow> histogram_ok ts (fold count_target xs acc) \<and>
      (fst (snd acc) \<noteq> None \<or> (\<exists>s \<in> set xs. fst s \<noteq> 0) \<longrightarrow> fst (snd (fold count_target xs acc)) \<noteq> None)" for xs acc
  proof (induction xs arbitrary: acc)
    case (Cons x xs)
    then show ?case using count_target_ok [OF Cons.prems(1), of x] by auto
  qed simp
  from this [of "([], None, 0)" ts] assms show ?thesis
    by (auto simp: histogram_ok_def best_target_def)
qed

lemma missing_key:
  assumes "distinct ks" "\<forall>k \<in> set ks. k < (128::nat)" "length (filter (\<lambda>k. k \<noteq> 0) ks) = 126"
  shows "\<exists>c. 0 < c \<and> c < 128 \<and> c \<notin> set ks"
proof (rule ccontr)
  assume "\<not> ?thesis"
  then have "{1..<128} \<subseteq> set (filter (\<lambda>k. k \<noteq> 0) ks)" by auto
  then have "card {1..<128::nat} \<le> card (set (filter (\<lambda>k. k \<noteq> 0) ks))" by (intro card_mono) auto
  also have "\<dots> = 126" using distinct_card [OF distinct_filter [OF assms(1)]] assms(3) by metis
  finally show False by simp
qed

lemma nearly_full_keys:
  assumes "nearly_full v" "distinct (map fst (v_transitions v))"
  shows "length (filter (\<lambda>k. k \<noteq> 0) (map fst (v_transitions v))) = 126"
proof -
  let ?ks = "map fst (v_transitions v)"
  have "length (filter (\<lambda>k. k = 0) ks) = (if 0 \<in> set ks then 1 else 0)" if "distinct ks" for ks :: "nat list"
    using that by (induction ks) (auto simp: filter_empty_conv)
  then have "length (filter (\<lambda>k. k = 0) ?ks) = (if 0 \<in> set ?ks then 1 else 0)" using assms(2) by blast
  moreover have "length (filter (\<lambda>k. k \<noteq> 0) ?ks) + length (filter (\<lambda>k. k = 0) ?ks) = length ?ks"
    using sum_length_filter_compl [of "\<lambda>k. k = 0" ?ks] by simp
  ultimately show ?thesis using assms(1) by (auto simp: nearly_full_def split: if_splits)
qed

text \<open>Such a node gets a fallback, as one of its transitions makes room for it.\<close>

lemma simplify_nearly_full:
  assumes ok: "slices_ok d" and wf: "graph_wf d" and i: "i < length (nodes d)" and nf: "nearly_full (view d i)"
  shows "\<exists>e t. simplify_node i d = Some e \<and> fdest e i = Some t \<and> node_transitions e (nodes e ! i) = filter (\<lambda>s. snd s \<noteq> t) (node_transitions d (nodes d ! i))"
proof -
  let ?node = "nodes d ! i" and ?a = "tstart d i"
  let ?old = "node_transitions d ?node"
  have len: "length ?old = tlen d i" by (rule fdest_at(2) [OF ok i])
  have none: "fdest d i = None" using nf by (simp add: nearly_full_def view_def)
  then have has: "\<not> hasFallbackTransition ?node" using fdest_at(1) [OF ok i] by (auto split: if_splits)
  have ex: "\<exists>s \<in> set ?old. fst s \<noteq> 0"
  proof -
    have "length (filter (\<lambda>k. k \<noteq> 0) (map fst ?old)) = 126"
      using nearly_full_keys [OF nf] graph_wfD(1) [OF wf i] unfolding view_def node_view.simps by blast
    then have "filter (\<lambda>k. k \<noteq> 0) (map fst ?old) \<noteq> []" by (metis list.size(3) zero_neq_numeral)
    then show ?thesis by (simp add: filter_empty_conv)
  qed
  then obtain t where t: "best_target ?old = Some t" "t \<in> snd ` set ?old" using best_target_exists by blast
  let ?new = "filter (\<lambda>s. snd s \<noteq> t) ?old"
  have lt: "length ?new < length ?old" using t(2) length_filter_less [of _ ?old "\<lambda>s. snd s \<noteq> t"] by fastforce
  let ?d = "d\<lparr>nodes := (nodes d)[i := setHasFallbackTransitionWithoutChangingDFA True ?node]\<rparr>"
  let ?m = "setHasFallbackTransitionWithoutChangingDFA True ?node"
  have m: "m_transitionsStart ?m = ?a" "transitionsLength ?m = tlen d i" "hasFallbackTransition ?m"
    by (simp_all add: setHasFallbackTransitionWithoutChangingDFA_def transitionsLength_def bit_flags(1) HasFallbackTransition_def bit_simps)
  have nd: "nodes ?d ! i = ?m" "node_transitions ?d ?m = ?old" using i m by (simp_all add: node_transitions_def)
  let ?pad = "?new @ replicate (length ?old - length ?new) (u8_max, u32_max)"
  let ?trs = "(overwrite ?a ?pad (dfa_transitions d))[?a + length ?new := (u8_max, t)]"
  let ?n = "resetTransitions ?a (length ?new) ?m"
  let ?e = "d\<lparr>nodes := (nodes d)[i := ?n], dfa_transitions := ?trs\<rparr>"
  have r: "simplify_node i d = Some ?e"
  proof -
    have "simplify_node i d = rewrite_transitions i t False ?d"
      using adds_fallback_view [OF ok i] nf t(1) has by (simp add: simplify_node_def Let_def)
    also have "\<dots> = Some ?e"
      using lt nd m(1) by (simp add: rewrite_transitions_def Let_def)
    finally show ?thesis .
  qed
  have "length ?new < 256"
  proof -
    have "transitionsLength ?node < 256" unfolding transitionsLength_def by (rule order_less_le_trans [OF unsigned_less]) simp
    then show ?thesis using lt len by simp
  qed
  then have fields: "m_transitionsStart ?n = ?a" "transitionsLength ?n = length ?new" "hasFallbackTransition ?n"
    using m(3) by (simp_all add: resetTransitions_def transitionsLength_def hasFallbackTransition_def)
  have bound: "?a + length ?old \<le> length (dfa_transitions d)" using slicesD(1) [OF ok i] len by (auto simp: tend_def split: if_splits)
  have lp: "length ?pad = length ?old" using lt by simp
  have at: "?trs ! j = (if j = ?a + length ?new then (u8_max, t) else if ?a \<le> j \<and> j < ?a + length ?old then ?pad ! (j - ?a) else dfa_transitions d ! j)"
    if "j < length (dfa_transitions d)" for j
    using overwrite_at(2) [OF that, of ?a ?pad] that lp by (auto simp: nth_list_update overwrite_at(1))
  have ne: "nodes ?e ! i = ?n" using i by simp
  have "node_transitions ?e ?n = ?new"
  proof (rule nth_equalityI)
    show ln: "length (node_transitions ?e ?n) = length ?new" using fields bound lt by (simp add: node_transitions_def overwrite_at(1))
    fix k assume "k < length (node_transitions ?e ?n)"
    then have k: "k < length ?new" using ln by simp
    have kl: "?a + k < length (dfa_transitions d)" using k bound lt by simp
    have "node_transitions ?e ?n ! k = ?trs ! (?a + k)" using k kl fields by (simp add: node_transitions_def overwrite_at(1))
    also have "\<dots> = ?new ! k" unfolding at [OF kl] using k lt by (simp add: nth_append)
    finally show "node_transitions ?e ?n ! k = ?new ! k" .
  qed
  moreover have "fdest ?e i = Some t"
    using ne fields bound lt at [of "?a + length ?new"] by (simp add: fdest_def fallbackTransitionDestination_def overwrite_at(1))
  ultimately show ?thesis using r ne by metis
qed

section \<open>Inputs of the witnesses\<close>

text \<open>Two nodes with the same action, one of which the minimiser keeps.\<close>

definition plain_node :: "nat \<Rightarrow> nat \<Rightarrow> nat \<Rightarrow> nat \<Rightarrow> bool \<Rightarrow> DFANode" where
  "plain_node aStart aLen tStart tLen fallback = \<lparr>m_actionsStart = aStart, m_transitionsStart = tStart,
     m_actionsLength = of_nat aLen, m_transitionsLength = of_nat tLen, m_flags = (if fallback then HasFallbackTransition else 0)\<rparr>"

definition twin_dfa :: DFA where
  "twin_dfa = \<lparr>actions = [5, 5], dfa_transitions = [(97, 1), (98, 2)],
     nodes = [plain_node 0 0 0 2 False, plain_node 0 1 0 0 False, plain_node 1 1 0 0 False], root = 0\<rparr>"

text \<open>The automaton of \<open>^[^a]\<close> with action 5, without the fallback a construction would give it.\<close>

definition not_a_dfa :: DFA where
  "not_a_dfa = \<lparr>actions = [5], dfa_transitions = map (\<lambda>k. (k, 1)) ([1..<97] @ [98..<128]),
     nodes = [plain_node 0 0 0 126 False, plain_node 0 1 0 0 False], root = 0\<rparr>"


lemmas plain_simps = plain_node_def transitionsLength_def actionsLength_def hasFallbackTransition_def HasFallbackTransition_def
  isKilled_def IsKilled_def node_transitions_def node_actions_def tend_def aend_def fdest_def fallbackTransitionDestination_def

lemma all_below_3: "(\<forall>i < 3. P i) \<longleftrightarrow> P 0 \<and> P 1 \<and> P (2::nat)"
  by (auto simp: numeral_3_eq_3 less_Suc_eq numeral_2_eq_2)

lemma twin_nodes: "length (nodes twin_dfa) = 3" "root twin_dfa = 0"
  by (simp_all add: twin_dfa_def)

lemma twin_minimizable: "minimizable twin_dfa" "nul_apart twin_dfa" "minimizer_fuel twin_dfa = 5"
proof -
  have "graph_wf twin_dfa" unfolding graph_wf_def twin_nodes all_below_3 by (simp add: twin_dfa_def plain_simps)
  moreover have "slices_ok twin_dfa" unfolding slices_ok_def twin_nodes all_below_3
    by (simp add: twin_dfa_def plain_simps apart_def)
  moreover have "\<forall>i < 3. \<not> isKilled (nodes twin_dfa ! i) \<and> \<not> nearly_full (view twin_dfa i)"
    unfolding all_below_3 by (simp add: twin_dfa_def plain_simps nearly_full_def view_def)
  ultimately show "minimizable twin_dfa" by (simp add: minimizable_def twin_nodes)
  show "nul_apart twin_dfa" unfolding nul_apart_def twin_nodes all_below_3 by (simp add: twin_dfa_def plain_simps)
  show "minimizer_fuel twin_dfa = 5" by code_simp
qed

text \<open>An equation without \<open>let\<close>, by which the simplifier evaluates the first partitions.\<close>

lemma new_FullGraphPartition_code [code]:
  "new_FullGraphPartition dfa =
     \<lparr>m_flattenedTransitionsStartOffsetPerNode =
        fst (flatten (length (nodes dfa)) \<lparr>t_source = 0, t_target = 0, t_character = 0\<rparr> (map (\<lambda>t. (t, t_target t)) (all_transitions dfa))),
      m_flattenedTransitionsSizePerNode =
        snd (snd (flatten (length (nodes dfa)) \<lparr>t_source = 0, t_target = 0, t_character = 0\<rparr> (map (\<lambda>t. (t, t_target t)) (all_transitions dfa)))),
      m_flattenedFallbackTransitionsStartOffsetPerNode = fst (flatten (length (nodes dfa)) 0 (all_fallbacks dfa)),
      m_flattenedFallbackTransitionsSizePerNode = snd (snd (flatten (length (nodes dfa)) 0 (all_fallbacks dfa))),
      m_flattenedTransitions =
        fst (snd (flatten (length (nodes dfa)) \<lparr>t_source = 0, t_target = 0, t_character = 0\<rparr> (map (\<lambda>t. (t, t_target t)) (all_transitions dfa)))),
      m_flattenedFallbackTransitions = fst (snd (flatten (length (nodes dfa)) 0 (all_fallbacks dfa))),
      m_nodePartition = Partition_initialize (length (nodes dfa)),
      m_transitionPartition = partition_by_character
        (fst (snd (flatten (length (nodes dfa)) \<lparr>t_source = 0, t_target = 0, t_character = 0\<rparr> (map (\<lambda>t. (t, t_target t)) (all_transitions dfa))))),
      m_fallbackTransitionPartition = Partition_initialize (length (fst (snd (flatten (length (nodes dfa)) 0 (all_fallbacks dfa))))),
      m_nextTransitionSetToProcess = 0\<rparr>"
  by (simp add: new_FullGraphPartition_def Let_def case_prod_beta)

section \<open>Properties\<close>

text \<open>
  C7. Minimising a well-formed automaton ends and fails no assertion, with fuel for its transitions and
  nodes, and the result is well formed and triggers the same actions on every input, if no node has
  transitions on all but one character, and if the input has no NUL or no node goes on NUL to a
  node with the actions of its fallback.
\<close>

theorem minimize_keeps_actions:
  assumes "minimizable d" "minimizer_fuel d \<le> fuel" "0 \<notin> set w \<or> nul_apart d"
  shows "\<exists>e. DFAMinimizer_minimize fuel d = Returned e \<and> dfa_wf e \<and> dfa_out e (root e) = dfa_out d (root d) \<and>
     run_out (dfa_step e) (dfa_out e) (root e) w = run_out (dfa_step d) (dfa_out d) (root d) w"
  using minimize_correct [OF assms(1,2)] assms(3) by blast

theorem minimize_keeps_actions_witness:
  "\<exists>e. DFAMinimizer_minimize 5 twin_dfa = Returned e \<and>
     run_out (dfa_step e) (dfa_out e) (root e) [98, 0] = run_out (dfa_step twin_dfa) (dfa_out twin_dfa) 0 [98, 0]"
proof -
  have "minimizer_fuel twin_dfa \<le> 5" "0 \<notin> set [98, 0] \<or> nul_apart twin_dfa" using twin_minimizable by simp_all
  from minimize_keeps_actions [OF twin_minimizable(1) this] show ?thesis by (auto simp: twin_nodes)
qed

text \<open>
  C14. The refinement of the partitions computes a congruence: nodes of one class have the same
  actions, and on every character, and as fallbacks, go to nodes of one class or both nowhere.
\<close>

theorem partition_is_congruence:
  assumes "graph_wf d" "length (all_transitions d) + length (nodes d) \<le> fuel"
  shows "\<exists>g. partition_nodes fuel d = Returned g \<and> congruence d (Partition_setIndex (m_nodePartition g))"
  using partition_nodes_correct [OF assms] by blast

theorem partition_is_congruence_witness:
  "\<exists>g. partition_nodes 5 twin_dfa = Returned g \<and> congruence twin_dfa (Partition_setIndex (m_nodePartition g))"
proof (rule partition_is_congruence)
  show "graph_wf twin_dfa" using twin_minimizable(1) by (simp add: minimizable_def)
  show "length (all_transitions twin_dfa) + length (nodes twin_dfa) \<le> 5" using twin_minimizable(3) by (simp add: minimizer_fuel_def)
qed

text \<open>
  C34. A node with transitions on all characters but one, and no fallback, does not keep its meaning:
  it gets a fallback transition that also takes the character it had no transition on.
\<close>

theorem nearly_full_gains_transition:
  assumes "slices_ok d" "graph_wf d" "i < length (nodes d)" "nearly_full (view d i)"
  shows "\<exists>e c. simplify_node i d = Some e \<and> 0 < c \<and> c < 128 \<and> dfa_step d i c = None \<and> dfa_step e i c \<noteq> None"
proof -
  obtain e t where e: "simplify_node i d = Some e" "fdest e i = Some t"
    "node_transitions e (nodes e ! i) = filter (\<lambda>s. snd s \<noteq> t) (node_transitions d (nodes d ! i))"
    using simplify_nearly_full [OF assms] by blast
  let ?ks = "map fst (node_transitions d (nodes d ! i))"
  have D: "distinct ?ks" by (rule graph_wfD(1) [OF assms(2,3)])
  have "length (filter (\<lambda>k. k \<noteq> 0) ?ks) = 126" using nearly_full_keys [OF assms(4)] D unfolding view_def node_view.simps by blast
  moreover have "\<forall>k \<in> set ?ks. k < 128" using graph_wfD(2) [OF assms(2,3)] by auto
  ultimately obtain c where c: "0 < c" "c < 128" "c \<notin> set ?ks" using missing_key [OF D] by blast
  have "map_of (node_transitions d (nodes d ! i)) c = None" "map_of (node_transitions e (nodes e ! i)) c = None"
    using c(3) unfolding e(3) map_of_eq_None_iff by auto
  moreover have "fdest d i = None" using assms(4) by (simp add: nearly_full_def view_def)
  ultimately have "dfa_step d i c = None" "dfa_step e i c = Some t"
    using e(2) c(1) by (simp_all add: dfa_step_def fdest_def Let_def)
  then show ?thesis using e(1) c(1,2) by blast
qed

lemma all_below_2: "(\<forall>i < 2. P i) \<longleftrightarrow> P 0 \<and> P (1::nat)"
  by (auto simp: less_Suc_eq numeral_2_eq_2)

theorem nearly_full_gains_transition_witness:
  "\<exists>e c. simplify_node 0 not_a_dfa = Some e \<and> 0 < c \<and> c < 128 \<and> dfa_step not_a_dfa 0 c = None \<and> dfa_step e 0 c \<noteq> None"
proof (rule nearly_full_gains_transition)
  have n: "length (nodes not_a_dfa) = 2" by (simp add: not_a_dfa_def)
  have t: "node_transitions not_a_dfa (nodes not_a_dfa ! 0) = map (\<lambda>k. (k, 1)) ([1..<97] @ [98..<128])"
    "node_transitions not_a_dfa (nodes not_a_dfa ! 1) = []"
    by (simp_all add: not_a_dfa_def plain_simps del: upt_Suc)
  show "graph_wf not_a_dfa" unfolding graph_wf_def n all_below_2 t
    by (simp add: not_a_dfa_def plain_simps comp_def del: upt_Suc)
  show "slices_ok not_a_dfa" unfolding slices_ok_def n all_below_2
    by (simp add: not_a_dfa_def plain_simps apart_def del: upt_Suc)
  show "0 < length (nodes not_a_dfa)" by (simp add: n)
  have "fdest not_a_dfa 0 = None" by (simp add: not_a_dfa_def plain_simps)
  then show "nearly_full (view not_a_dfa 0)" by (simp add: nearly_full_def view_def t image_iff del: upt_Suc)
qed










text \<open>
  C6. From the nondeterministic automaton to the minimised one: if the conversion fails no assertion, no
  node of the converted automaton has transitions on all characters but one, and the input has no NUL
  or no node goes on NUL to a node with the same set of actions as the target of its fallback, then
  minimising ends, with fuel for its transitions and nodes, and the minimised automaton triggers on
  the input exactly the actions whose non-empty words the nondeterministic automaton accepts as
  prefixes of it.
\<close>

theorem convert_minimize_keeps_actions:
  assumes "graph_ok A" "2 ^ length (m_nodes A) \<le> fuel" "NFAToDFA_convert fuel A = Returned d"
    "\<forall>i < length (nodes d). \<not> nearly_full (view d i)" "minimizer_fuel d \<le> fuel2" "0 \<notin> set w \<or> nul_distinct d"
  shows "\<exists>e. DFAMinimizer_minimize fuel2 d = Returned e \<and> dfa_wf e \<and>
     run_out (dfa_step e) (dfa_out e) (root e) w = {a. \<exists>n. (take n w, a) \<in> nonempty_accepts A}"
proof -
  note W = convert_wf [OF assms(1,3)]
  have sh: "dfa_shape d" "dfa_wf d" "root d = 0" using W by blast+
  have "root d < length (nodes d)" using sh(2) by (simp add: dfa_wf_def live_def)
  then have "minimizable d"
    using shape_graph_wf [OF sh(1)] convert_slices [OF assms(1,3)] assms(4) by (simp add: minimizable_def)
  from minimize_correct [OF this assms(5)] show ?thesis
    using assms(6) nul_distinct_apart convert_run_out [OF assms(1-3), of w] sh(3) by auto
qed

theorem convert_minimize_keeps_actions_witness:
  "\<exists>d e. NFAToDFA_convert 4 ex_nfa = Returned d \<and> DFAMinimizer_minimize 10 d = Returned e \<and>
     run_out (dfa_step e) (dfa_out e) (root e) [97] = {a. \<exists>n. (take n [97], a) \<in> nonempty_accepts ex_nfa}"
proof -
  have fuel: "2 ^ length (m_nodes ex_nfa) \<le> (4::nat)" by (simp add: ex_nfa_def)
  let ?d = "case NFAToDFA_convert 4 ex_nfa of Returned d \<Rightarrow> d"
  have d: "NFAToDFA_convert 4 ex_nfa = Returned ?d" by code_simp
  have n: "length (nodes ?d) = 2" "minimizer_fuel ?d \<le> 10" by code_simp+
  have "length (node_transitions ?d (nodes ?d ! 0)) = 1" "length (node_transitions ?d (nodes ?d ! 1)) = 0" by code_simp+
  then have "\<forall>i < length (nodes ?d). \<not> nearly_full (view ?d i)"
    unfolding n(1) all_below_2 nearly_full_def view_def node_view.simps by linarith
  moreover have "0 \<notin> set [97 :: nat] \<or> nul_distinct ?d" by simp
  ultimately show ?thesis using convert_minimize_keeps_actions [OF ex_nfa_ok fuel d _ n(2)] d by blast
qed

end
