(* ===== verification/WTF_Strings.thy ===== *)
theory WTF_Strings
  imports CE_Prelude "HOL-Library.Char_ord"
begin

text \<open>
  The strings of WTF as the content extensions use them: \<open>String\<close> is null, or a sequence of code units
  that are stored in 8 or 16 bits; \<open>StringBuilder\<close> keeps 8 bits as long as it can.
\<close>

section \<open>Strings\<close>

datatype WString = NullString | WString (string_is8Bit: bool) (code_units: "nat list")

fun characters :: "WString \<Rightarrow> nat list" where
  "characters NullString = []"
| "characters (WString _ cs) = cs"

fun is8Bit :: "WString \<Rightarrow> bool" where
  "is8Bit NullString = True"
| "is8Bit (WString b _) = b"

definition string_length :: "WString \<Rightarrow> nat" where
  "string_length s = length (characters s)"

text \<open>\<open>operator==\<close> compares the code units, whatever their width; null is equal to null only.\<close>

fun string_equal :: "WString \<Rightarrow> WString \<Rightarrow> bool" where
  "string_equal NullString NullString = True"
| "string_equal (WString _ a) (WString _ b) = (a = b)"
| "string_equal _ _ = False"

definition units :: "string \<Rightarrow> nat list" where
  "units s = map of_char s"

definition equal_to_literal :: "WString \<Rightarrow> string \<Rightarrow> bool" where
  "equal_to_literal s l \<longleftrightarrow> s \<noteq> NullString \<and> characters s = units l"

definition literal :: "string \<Rightarrow> WString" where
  "literal s = WString True (units s)"

text \<open>The units of a string fit its width.\<close>

definition string_ok :: "WString \<Rightarrow> bool" where
  "string_ok s \<longleftrightarrow> list_all (\<lambda>c. c < (if is8Bit s then 256 else 65536)) (characters s)"

section \<open>String builders\<close>

record StringBuilder =
  m_is8Bit :: bool
  m_characters :: "nat list"

definition new_StringBuilder :: StringBuilder where
  "new_StringBuilder = \<lparr>m_is8Bit = True, m_characters = []\<rparr>"

definition append8 :: "nat list \<Rightarrow> StringBuilder \<Rightarrow> StringBuilder" where
  "append8 cs b = b\<lparr>m_characters := m_characters b @ cs\<rparr>"

definition append16 :: "nat list \<Rightarrow> StringBuilder \<Rightarrow> StringBuilder" where
  "append16 cs b =
     (if cs = [] then b
      else if m_is8Bit b then
        if length cs = 1 \<and> hd cs < 256 then append8 cs b
        else b\<lparr>m_is8Bit := False, m_characters := m_characters b @ cs\<rparr>
      else b\<lparr>m_characters := m_characters b @ cs\<rparr>)"

definition append_string :: "WString \<Rightarrow> StringBuilder \<Rightarrow> StringBuilder" where
  "append_string s b =
     (if string_length s = 0 then b
      else if m_characters b = [] then \<lparr>m_is8Bit = is8Bit s, m_characters = characters s\<rparr>
      else if is8Bit s then append8 (characters s) b
      else append16 (characters s) b)"

definition append_char :: "nat \<Rightarrow> StringBuilder \<Rightarrow> StringBuilder" where
  "append_char c = append8 [c]"

definition builder_toString :: "StringBuilder \<Rightarrow> WString" where
  "builder_toString b = (if m_characters b = [] then WString True [] else WString (m_is8Bit b) (m_characters b))"

section \<open>Facts\<close>

lemma string_equal_characters: "string_equal a b \<Longrightarrow> characters a = characters b"
  by (induction a b rule: string_equal.induct) simp_all

lemma append_characters [simp]:
  "m_characters (append8 cs b) = m_characters b @ cs" "m_characters (append16 cs b) = m_characters b @ cs"
  "m_characters (append_string s b) = m_characters b @ characters s" "m_characters (append_char c b) = m_characters b @ [c]"
  by (auto simp: append8_def append16_def append_string_def append_char_def string_length_def)

lemma toString_characters [simp]: "characters (builder_toString b) = m_characters b"
  by (simp add: builder_toString_def)

text \<open>A builder holds units that fit its width.\<close>

definition builder_ok :: "StringBuilder \<Rightarrow> bool" where
  "builder_ok b \<longleftrightarrow> list_all (\<lambda>c. c < (if m_is8Bit b then 256 else 65536)) (m_characters b)"

lemma builder_ok_new: "builder_ok new_StringBuilder"
  by (simp add: builder_ok_def new_StringBuilder_def)

lemma builder_ok_append8: "builder_ok b \<Longrightarrow> list_all (\<lambda>c. c < 256) cs \<Longrightarrow> builder_ok (append8 cs b)"
  by (auto simp: builder_ok_def append8_def list_all_iff split: if_splits)

lemma builder_ok_append16:
  assumes "builder_ok b" "list_all (\<lambda>c. c < 65536) cs"
  shows "builder_ok (append16 cs b)"
proof (cases "m_is8Bit b \<and> length cs = 1 \<and> hd cs < 256")
  case True
  then have "append16 cs b = append8 cs b" by (auto simp: append16_def)
  moreover have "list_all (\<lambda>c. c < 256) cs" using True by (cases cs) auto
  ultimately show ?thesis using builder_ok_append8 [OF assms(1)] by simp
next
  case False
  then show ?thesis using assms by (auto simp: builder_ok_def append16_def list_all_iff split: if_splits)
qed

lemma builder_ok_append_string:
  assumes "builder_ok b" "string_ok s"
  shows "builder_ok (append_string s b)"
  using assms builder_ok_append8 [OF assms(1), of "characters s"] builder_ok_append16 [OF assms(1), of "characters s"]
  by (auto simp: append_string_def string_ok_def builder_ok_def [of "StringBuilder.make _ _"] builder_ok_def StringBuilder.defs split: if_splits)

lemma toString_ok: "builder_ok b \<Longrightarrow> string_ok (builder_toString b)"
  by (simp add: builder_ok_def builder_toString_def string_ok_def)

end
