(* ===== verification/CE_Rules.thy ===== *)
theory CE_Rules
  imports WTF_Strings CE_Bytecode
begin

text \<open>
  Rules: triggers and actions (\<open>contentextensions/ContentExtensionRule.h\<close> and \<open>.cpp\<close>,
  \<open>ContentExtensionActions.h\<close>), the flags of requests (\<open>loader/ResourceLoadInfo.h\<close> and \<open>.cpp\<close>), and
  the parser of rule lists (\<open>ContentExtensionParser.cpp\<close>, \<open>ContentExtensionError.h\<close>).

  The JSON parser and the conversion of JavaScript values to strings are arguments of the
  definitions; so is \<open>SecurityOrigin\<close>, which decides whether a request is of a third party.
\<close>

section \<open>Types of resources and loads\<close>

type_synonym ResourceFlags = u16

datatype ResourceType =
  InvalidResource | Document | Image | StyleSheet | Script | Font | Raw | SVGDocument | Media | PlugInStream | Popup

fun resource_type_value :: "ResourceType \<Rightarrow> u16" where
  "resource_type_value InvalidResource = 0x0000"
| "resource_type_value Document = 0x0001"
| "resource_type_value Image = 0x0002"
| "resource_type_value StyleSheet = 0x0004"
| "resource_type_value Script = 0x0008"
| "resource_type_value Font = 0x0010"
| "resource_type_value Raw = 0x0020"
| "resource_type_value SVGDocument = 0x0040"
| "resource_type_value Media = 0x0080"
| "resource_type_value PlugInStream = 0x0100"
| "resource_type_value Popup = 0x0200"

datatype LoadType = InvalidLoad | FirstParty | ThirdParty

fun load_type_value :: "LoadType \<Rightarrow> u16" where
  "load_type_value InvalidLoad = 0x0000"
| "load_type_value FirstParty = 0x0400"
| "load_type_value ThirdParty = 0x0800"

text \<open>The types of cached resources, with the ones for which \<open>toResourceType\<close> has no case.\<close>

datatype CachedResourceType =
  MainResource | ImageResource | CSSStyleSheet | ScriptResource | FontResource | SVGFontResource | RawResource
| SVGDocumentResource | XSLStyleSheet | LinkPrefetch | LinkSubresource | TextTrackResource

fun toResourceType :: "CachedResourceType \<Rightarrow> ResourceType option" where
  "toResourceType MainResource = Some Document"
| "toResourceType SVGDocumentResource = Some SVGDocument"
| "toResourceType ImageResource = Some Image"
| "toResourceType CSSStyleSheet = Some StyleSheet"
| "toResourceType XSLStyleSheet = Some StyleSheet"
| "toResourceType ScriptResource = Some Script"
| "toResourceType FontResource = Some Font"
| "toResourceType SVGFontResource = Some Font"
| "toResourceType RawResource = Some Raw"
| "toResourceType TextTrackResource = Some Media"
| "toResourceType LinkPrefetch = None"
| "toResourceType LinkSubresource = None"

definition readResourceType :: "WString \<Rightarrow> u16" where
  "readResourceType name =
     (if equal_to_literal name ''document'' then resource_type_value Document
      else if equal_to_literal name ''image'' then resource_type_value Image
      else if equal_to_literal name ''style-sheet'' then resource_type_value StyleSheet
      else if equal_to_literal name ''script'' then resource_type_value Script
      else if equal_to_literal name ''font'' then resource_type_value Font
      else if equal_to_literal name ''raw'' then resource_type_value Raw
      else if equal_to_literal name ''svg-document'' then resource_type_value SVGDocument
      else if equal_to_literal name ''media'' then resource_type_value Media
      else if equal_to_literal name ''popup'' then resource_type_value Popup
      else resource_type_value InvalidResource)"

definition readLoadType :: "WString \<Rightarrow> u16" where
  "readLoadType name =
     (if equal_to_literal name ''first-party'' then load_type_value FirstParty
      else if equal_to_literal name ''third-party'' then load_type_value ThirdParty
      else load_type_value InvalidLoad)"

record 'url ResourceLoadInfo =
  resourceURL :: 'url
  mainDocumentURL :: 'url
  resource_type :: ResourceType

definition isThirdParty :: "('url \<Rightarrow> 'url \<Rightarrow> bool) \<Rightarrow> 'url ResourceLoadInfo \<Rightarrow> bool" where
  "isThirdParty canAccess info = (\<not> canAccess (mainDocumentURL info) (resourceURL info))"

definition getResourceFlags :: "('url \<Rightarrow> 'url \<Rightarrow> bool) \<Rightarrow> 'url ResourceLoadInfo \<Rightarrow> ResourceFlags" where
  "getResourceFlags canAccess info =
     0 OR resource_type_value (resource_type info) OR
     (if isThirdParty canAccess info then load_type_value ThirdParty else load_type_value FirstParty)"

section \<open>Triggers and actions\<close>

datatype ActionType =
  BlockLoad | BlockCookies | CSSDisplayNoneSelector | CSSDisplayNoneStyleSheet | IgnorePreviousRules | InvalidAction

fun action_type_byte :: "ActionType \<Rightarrow> u8" where
  "action_type_byte BlockLoad = 0"
| "action_type_byte BlockCookies = 1"
| "action_type_byte CSSDisplayNoneSelector = 2"
| "action_type_byte CSSDisplayNoneStyleSheet = 3"
| "action_type_byte IgnorePreviousRules = 4"
| "action_type_byte InvalidAction = 5"

definition action_type_of_byte :: "u8 \<Rightarrow> ActionType option" where
  "action_type_of_byte b =
     find (\<lambda>t. action_type_byte t = b)
       [BlockLoad, BlockCookies, CSSDisplayNoneSelector, CSSDisplayNoneStyleSheet, IgnorePreviousRules, InvalidAction]"

record Trigger =
  urlFilter :: WString
  urlFilterIsCaseSensitive :: bool
  trigger_flags :: ResourceFlags

definition new_Trigger :: Trigger where
  "new_Trigger = \<lparr>urlFilter = NullString, urlFilterIsCaseSensitive = False, trigger_flags = 0\<rparr>"

definition trigger_equal :: "Trigger \<Rightarrow> Trigger \<Rightarrow> bool" where
  "trigger_equal a b \<longleftrightarrow>
     string_equal (urlFilter a) (urlFilter b) \<and> urlFilterIsCaseSensitive a = urlFilterIsCaseSensitive b \<and>
     trigger_flags a = trigger_flags b"

record Action =
  m_extensionIdentifier :: WString
  m_type :: ActionType
  m_actionID :: u32
  m_stringArgument :: WString

text \<open>The constructors; the action ID is \<open>std::numeric_limits<uint32_t>::max()\<close> by default.\<close>

definition new_Action :: "ActionType \<Rightarrow> u32 \<Rightarrow> Action" where
  "new_Action type actionID =
     \<lparr>m_extensionIdentifier = NullString, m_type = type, m_actionID = actionID, m_stringArgument = NullString\<rparr>"

definition new_string_Action :: "ActionType \<Rightarrow> WString \<Rightarrow> u32 \<Rightarrow> Action" where
  "new_string_Action type stringArgument actionID =
     \<lparr>m_extensionIdentifier = NullString, m_type = type, m_actionID = actionID, m_stringArgument = stringArgument\<rparr>"

definition action_equal :: "Action \<Rightarrow> Action \<Rightarrow> bool" where
  "action_equal a b \<longleftrightarrow>
     m_type a = m_type b \<and> string_equal (m_extensionIdentifier a) (m_extensionIdentifier b) \<and>
     m_actionID a = m_actionID b \<and> string_equal (m_stringArgument a) (m_stringArgument b)"

definition setExtensionIdentifier :: "WString \<Rightarrow> Action \<Rightarrow> Action" where
  "setExtensionIdentifier identifier action = action\<lparr>m_extensionIdentifier := identifier\<rparr>"

record ContentExtensionRule =
  m_trigger :: Trigger
  m_action :: Action

text \<open>
  Reads an action back. Positions are 32-bit; \<open>None\<close> is a failed assertion, or a read outside the
  serialised actions.
\<close>

definition wide_units :: "u8 list \<Rightarrow> nat \<Rightarrow> nat \<Rightarrow> nat list" where
  "wide_units bytes start n = map (\<lambda>i. unat (get16 bytes (start + 2 * i))) [0..<n]"

definition narrow_units :: "u8 list \<Rightarrow> nat \<Rightarrow> nat \<Rightarrow> nat list" where
  "narrow_units bytes start n = map (\<lambda>i. unat (bytes ! (start + i))) [0..<n]"

definition deserialize :: "u8 list \<Rightarrow> u32 \<Rightarrow> Action option" where
  "deserialize acts loc =
     (if length acts \<le> unat loc then None
      else
        case action_type_of_byte (acts ! unat loc) of
          Some BlockCookies \<Rightarrow> Some (new_Action BlockCookies loc)
        | Some BlockLoad \<Rightarrow> Some (new_Action BlockLoad loc)
        | Some IgnorePreviousRules \<Rightarrow> Some (new_Action IgnorePreviousRules loc)
        | Some CSSDisplayNoneSelector \<Rightarrow>
            (let stringStartIndex = unat (loc + 6)
             in if length acts < stringStartIndex \<or> length acts < unat loc + 6 then None
                else
                  let selectorLength = unat (get32 acts (unat loc + 1));
                      wideCharacters = (acts ! (unat loc + 5) \<noteq> 0)
                  in if wideCharacters then
                       if length acts < stringStartIndex + selectorLength * 2 then None
                       else Some (new_string_Action CSSDisplayNoneSelector
                                    (WString False (wide_units acts stringStartIndex selectorLength)) loc)
                     else
                       if length acts < stringStartIndex + selectorLength * 1 then None
                       else Some (new_string_Action CSSDisplayNoneSelector
                                    (WString True (narrow_units acts stringStartIndex selectorLength)) loc))
        | _ \<Rightarrow> None)"

section \<open>Errors\<close>

datatype ContentExtensionError =
  JSONInvalid | JSONTopLevelStructureNotAnObject | JSONTopLevelStructureNotAnArray | JSONInvalidObjectInTopLevelArray
| JSONInvalidRule | JSONContainsNoRules | JSONInvalidTrigger | JSONInvalidURLFilterInTrigger | JSONInvalidTriggerFlagsArray
| JSONInvalidObjectInTriggerFlagsArray | JSONInvalidStringInTriggerFlagsArray | JSONInvalidAction | JSONInvalidActionType
| JSONInvalidCSSDisplayNoneActionType | JSONInvalidRegex | RegexMatchesEverythingAfterIgnorePreviousRules

fun error_message :: "ContentExtensionError \<Rightarrow> string" where
  "error_message JSONInvalid = ''Failed to parse the JSON String.''"
| "error_message JSONTopLevelStructureNotAnObject = ''Invalid input, the top level structure is not an object.''"
| "error_message JSONTopLevelStructureNotAnArray = ''Invalid input, the top level structure is not an array.''"
| "error_message JSONInvalidObjectInTopLevelArray = ''Invalid object in the top level array.''"
| "error_message JSONInvalidRule = ''Invalid rule.''"
| "error_message JSONContainsNoRules = ''Empty extension.''"
| "error_message JSONInvalidTrigger = ''Invalid trigger object.''"
| "error_message JSONInvalidURLFilterInTrigger = ''Invalid url-filter object.''"
| "error_message JSONInvalidTriggerFlagsArray = ''Invalid trigger flags array.''"
| "error_message JSONInvalidObjectInTriggerFlagsArray = ''Invalid object in the trigger flags array.''"
| "error_message JSONInvalidStringInTriggerFlagsArray = ''Invalid string in the trigger flags array.''"
| "error_message JSONInvalidAction = ''Invalid action object.''"
| "error_message JSONInvalidActionType = ''Invalid action type.''"
| "error_message JSONInvalidCSSDisplayNoneActionType = ''Invalid css-display-none action type. Requires a selector.''"
| "error_message JSONInvalidRegex = ''Invalid or unsupported regular expression.''"
| "error_message RegexMatchesEverythingAfterIgnorePreviousRules =
     ''Regular expressions that match everything are only allowed before the first ignore-previous-rules.''"

section \<open>Parsing rule lists\<close>

text \<open>The values a JSON text can have; the numbers are kept as text.\<close>

datatype JSValue =
  JSUndefined | JSNull | JSBoolean bool | JSNumber string | JSString WString | JSArray "JSValue list"
| JSObject "(nat list \<times> JSValue) list"

fun isObject :: "JSValue \<Rightarrow> bool" where
  "isObject (JSArray _) = True"
| "isObject (JSObject _) = True"
| "isObject _ = False"

fun get_property :: "JSValue \<Rightarrow> string \<Rightarrow> JSValue" where
  "get_property (JSObject ps) name = (case map_of ps (units name) of None \<Rightarrow> JSUndefined | Some v \<Rightarrow> v)"
| "get_property _ name = JSUndefined"

text \<open>\<open>toWTFString\<close>; of values that are no strings it is the argument \<open>conv\<close>.\<close>

fun toWTFString :: "(JSValue \<Rightarrow> WString) \<Rightarrow> JSValue \<Rightarrow> WString" where
  "toWTFString conv (JSString s) = s"
| "toWTFString conv v = conv v"

fun type_flags :: "(JSValue \<Rightarrow> WString) \<Rightarrow> (WString \<Rightarrow> u16) \<Rightarrow> JSValue list \<Rightarrow> ResourceFlags \<Rightarrow> ContentExtensionError + ResourceFlags" where
  "type_flags conv stringToType [] flags = Inr flags"
| "type_flags conv stringToType (v # vs) flags =
     (let type = stringToType (toWTFString conv v)
      in if type = 0 then Inl JSONInvalidStringInTriggerFlagsArray
         else type_flags conv stringToType vs (flags OR type))"

definition getTypeFlags ::
  "(JSValue \<Rightarrow> WString) \<Rightarrow> JSValue \<Rightarrow> ResourceFlags \<Rightarrow> (WString \<Rightarrow> u16) \<Rightarrow> ContentExtensionError + ResourceFlags" where
  "getTypeFlags conv typeValue flags stringToType =
     (if \<not> isObject typeValue then Inr flags
      else case typeValue of
             JSArray vs \<Rightarrow> type_flags conv stringToType vs flags
           | _ \<Rightarrow> Inl JSONInvalidTriggerFlagsArray)"

fun sum_bind :: "'e + 'a \<Rightarrow> ('a \<Rightarrow> 'e + 'b) \<Rightarrow> 'e + 'b" where
  "sum_bind (Inl e) f = Inl e"
| "sum_bind (Inr a) f = f a"

definition loadTrigger :: "(JSValue \<Rightarrow> WString) \<Rightarrow> JSValue \<Rightarrow> ContentExtensionError + Trigger" where
  "loadTrigger conv ruleObject =
     (let triggerObject = get_property ruleObject ''trigger''
      in if \<not> isObject triggerObject then Inl JSONInvalidTrigger
         else case get_property triggerObject ''url-filter'' of
           JSString url_filter \<Rightarrow>
             if string_length url_filter = 0 then Inl JSONInvalidURLFilterInTrigger
             else
               let sensitive = (case get_property triggerObject ''url-filter-is-case-sensitive'' of JSBoolean b \<Rightarrow> b | _ \<Rightarrow> False)
               in sum_bind (getTypeFlags conv (get_property triggerObject ''resource-type'') 0 readResourceType) (\<lambda>flags.
                  sum_bind (getTypeFlags conv (get_property triggerObject ''load-type'') flags readLoadType) (\<lambda>flags.
                    Inr \<lparr>urlFilter = url_filter, urlFilterIsCaseSensitive = sensitive, trigger_flags = flags\<rparr>))
         | _ \<Rightarrow> Inl JSONInvalidURLFilterInTrigger)"

definition loadAction :: "JSValue \<Rightarrow> ContentExtensionError + Action" where
  "loadAction ruleObject =
     (let actionObject = get_property ruleObject ''action''
      in if \<not> isObject actionObject then Inl JSONInvalidAction
         else case get_property actionObject ''type'' of
           JSString actionType \<Rightarrow>
             if equal_to_literal actionType ''block'' then Inr (new_Action BlockLoad (- 1))
             else if equal_to_literal actionType ''ignore-previous-rules'' then Inr (new_Action IgnorePreviousRules (- 1))
             else if equal_to_literal actionType ''block-cookies'' then Inr (new_Action BlockCookies (- 1))
             else if equal_to_literal actionType ''css-display-none'' then
               (case get_property actionObject ''selector'' of
                  JSString selector \<Rightarrow> Inr (new_string_Action CSSDisplayNoneSelector selector (- 1))
                | _ \<Rightarrow> Inl JSONInvalidCSSDisplayNoneActionType)
             else Inl JSONInvalidActionType
         | _ \<Rightarrow> Inl JSONInvalidActionType)"

definition loadRule ::
  "(JSValue \<Rightarrow> WString) \<Rightarrow> JSValue \<Rightarrow> ContentExtensionRule list \<Rightarrow> ContentExtensionError + ContentExtensionRule list" where
  "loadRule conv ruleObject ruleList =
     sum_bind (loadTrigger conv ruleObject) (\<lambda>trigger.
     sum_bind (loadAction ruleObject) (\<lambda>action.
       Inr (ruleList @ [\<lparr>m_trigger = trigger, m_action = action\<rparr>])))"

text \<open>\<open>toObject\<close> throws for \<open>undefined\<close> and \<open>null\<close>; other primitive values become objects without the properties.\<close>

fun load_rules ::
  "(JSValue \<Rightarrow> WString) \<Rightarrow> JSValue list \<Rightarrow> ContentExtensionRule list \<Rightarrow> ContentExtensionError + ContentExtensionRule list" where
  "load_rules conv [] localRuleList = Inr localRuleList"
| "load_rules conv (v # vs) localRuleList =
     (if v = JSNull \<or> v = JSUndefined then Inl JSONInvalidRule
      else sum_bind (loadRule conv v localRuleList) (load_rules conv vs))"

definition loadEncodedRules ::
  "(WString \<Rightarrow> JSValue option) \<Rightarrow> (JSValue \<Rightarrow> WString) \<Rightarrow> WString \<Rightarrow> ContentExtensionError + ContentExtensionRule list" where
  "loadEncodedRules JSONParse conv rules =
     (case JSONParse rules of
        None \<Rightarrow> Inl JSONInvalid
      | Some decodedRules \<Rightarrow>
          if \<not> isObject decodedRules then Inl JSONTopLevelStructureNotAnObject
          else case decodedRules of
                 JSArray values \<Rightarrow> load_rules conv values []
               | _ \<Rightarrow> Inl JSONTopLevelStructureNotAnArray)"

definition parseRuleList ::
  "(WString \<Rightarrow> JSValue option) \<Rightarrow> (JSValue \<Rightarrow> WString) \<Rightarrow> WString \<Rightarrow> ContentExtensionError + ContentExtensionRule list" where
  "parseRuleList JSONParse conv rules =
     sum_bind (loadEncodedRules JSONParse conv rules) (\<lambda>ruleList.
       if ruleList = [] then Inl JSONContainsNoRules else Inr ruleList)"

end
