(* ===== verification/CE_Compiler.thy ===== *)
theory CE_Compiler
  imports CE_Rules CE_Filter_Parser CE_Minimizer
begin

text \<open>
  The compiler of rule lists (\<open>contentextensions/ContentExtensionCompiler.cpp\<close>): it serialises the
  actions, adds the URL filters to the prefix tree, and turns the tree into bytecode.

  The client that stores the result is a record of what it was given. Hash sets of actions are lists
  of their elements. \<open>fuel\<close> is the fuel of the subset construction and of the minimiser.
\<close>

section \<open>Serialising actions\<close>

definition serializeSelector :: "WString \<Rightarrow> u8 list \<Rightarrow> u8 list" where
  "serializeSelector selector acts =
     (let selectorLength = string_length selector;
          wideCharacters = \<not> is8Bit selector;
          acts = acts @ [action_type_byte CSSDisplayNoneSelector];
          acts = acts @ bytes32 (of_nat selectorLength);
          acts = acts @ [if wideCharacters then 1 else 0]
      in if wideCharacters then acts @ concat (map (\<lambda>c. bytes16 (of_nat c)) (characters selector))
         else acts @ map of_nat (characters selector))"

text \<open>The rules behind a rule with a selector whose selectors are joined with its.\<close>

definition consolidated :: "ContentExtensionRule \<Rightarrow> ContentExtensionRule \<Rightarrow> bool" where
  "consolidated rule other \<longleftrightarrow>
     trigger_equal (m_trigger rule) (m_trigger other) \<and> m_type (m_action other) = CSSDisplayNoneSelector"

definition joined_selector :: "ContentExtensionRule \<Rightarrow> ContentExtensionRule list \<Rightarrow> WString" where
  "joined_selector rule others =
     builder_toString
       (fold (\<lambda>other b. append_string (m_stringArgument (m_action other)) (append_char 44 b)) others
          (append_string (m_stringArgument (m_action rule)) new_StringBuilder))"

text \<open>
  The loop over the rules, with the rule before the next one. The inner loop runs over the
  consolidated rules, which the outer one then skips.
\<close>

function serialize_loop ::
  "ContentExtensionRule option \<Rightarrow> ContentExtensionRule list \<Rightarrow> u8 list \<Rightarrow> u32 list \<Rightarrow> (u8 list \<times> u32 list) option" where
  "serialize_loop previous [] acts actionLocations = Some (acts, actionLocations)"
| "serialize_loop previous (rule # rules) acts actionLocations =
     (if m_type (m_action rule) = CSSDisplayNoneSelector then
        let others = takeWhile (consolidated rule) rules;
            actionLocations = actionLocations @ replicate (1 + length others) (of_nat (length acts))
        in serialize_loop (Some (last (rule # others))) (drop (length others) rules)
             (serializeSelector (joined_selector rule others) acts) actionLocations
      else if (case previous of None \<Rightarrow> False | Some p \<Rightarrow> action_equal (m_action rule) (m_action p)) then
        serialize_loop (Some rule) rules acts (actionLocations @ [last actionLocations])
      else if m_type (m_action rule) \<in> {CSSDisplayNoneStyleSheet, InvalidAction} then None
      else serialize_loop (Some rule) rules (acts @ [action_type_byte (m_type (m_action rule))])
             (actionLocations @ [of_nat (length acts)]))"
  by pat_completeness auto
termination
  by (relation "measure (\<lambda>(_, rules, _, _). length rules)") auto

definition serializeActions :: "ContentExtensionRule list \<Rightarrow> (u8 list \<times> u32 list) option" where
  "serializeActions ruleList = serialize_loop None ruleList [] []"

section \<open>Universal actions\<close>

definition addUniversalActionsToDFA :: "u64 list \<Rightarrow> DFA \<Rightarrow> DFA option" where
  "addUniversalActionsToDFA universalActionLocations dfa =
     (if universalActionLocations = [] then Some dfa
      else
        let actionsStart = length (actions dfa);
            acts = actions dfa @ universalActionLocations;
            actionsLength = length acts - actionsStart
        in if int actionsLength < 65535
           then Some (dfa\<lparr>actions := acts,
                          nodes := (nodes dfa)[root dfa := set_actions actionsStart actionsLength (nodes dfa ! root dfa)]\<rparr>)
           else None)"

section \<open>Adding the filters\<close>

definition actionLocationAndFlags :: "Trigger \<Rightarrow> u32 \<Rightarrow> u64" where
  "actionLocationAndFlags trigger loc = push_bit 32 (ucast (trigger_flags trigger)) OR ucast loc"

record filter_state =
  combinedURLFilters :: PrefixTreeVertex
  universal_locations :: "u64 list"
  ignorePreviousRulesSeen :: bool

definition add_rule ::
  "(nat list \<Rightarrow> yarr_event list \<times> bool) \<Rightarrow> ContentExtensionRule \<times> u32 \<Rightarrow> filter_state \<Rightarrow> (ContentExtensionError + filter_state) option" where
  "add_rule yarr = (\<lambda>(rule, loc) st.
     let trigger = m_trigger rule;
         actionLocationAndFlags = actionLocationAndFlags trigger loc
     in map_option (\<lambda>(status, tree).
          let st = st\<lparr>combinedURLFilters := tree\<rparr>
          in if status = MatchesEverything \<and> ignorePreviousRulesSeen st then Inl RegexMatchesEverythingAfterIgnorePreviousRules
             else
               let st = (if status = MatchesEverything
                         then st\<lparr>universal_locations := hs_add actionLocationAndFlags (universal_locations st)\<rparr> else st)
               in if status \<noteq> Ok \<and> status \<noteq> MatchesEverything then Inl JSONInvalidRegex
                  else Inr (if m_type (m_action rule) = IgnorePreviousRules then st\<lparr>ignorePreviousRulesSeen := True\<rparr> else st))
        (addURLFilter yarr (characters (urlFilter trigger)) (urlFilterIsCaseSensitive trigger) actionLocationAndFlags
           (combinedURLFilters st)))"

fun add_rules ::
  "(nat list \<Rightarrow> yarr_event list \<times> bool) \<Rightarrow> (ContentExtensionRule \<times> u32) list \<Rightarrow> filter_state \<Rightarrow>
     (ContentExtensionError + filter_state) option" where
  "add_rules yarr [] st = Some (Inr st)"
| "add_rules yarr (r # rs) st =
     (case add_rule yarr r st of
        None \<Rightarrow> None
      | Some (Inl e) \<Rightarrow> Some (Inl e)
      | Some (Inr st) \<Rightarrow> add_rules yarr rs st)"

definition new_filter_state :: filter_state where
  "new_filter_state = \<lparr>combinedURLFilters = empty_vertex, universal_locations = [], ignorePreviousRulesSeen = False\<rparr>"

definition the_maxNFASize :: nat where
  "the_maxNFASize = 50000"

section \<open>From the tree to bytecode\<close>

text \<open>What the client gets: \<open>writeActions\<close>, \<open>writeBytecode\<close> for each automaton, and \<open>finalize\<close>.\<close>

record CompilationClient =
  writtenActions :: "u8 list"
  writtenBytecode :: "u8 list"
  finalized :: bool

definition new_client :: CompilationClient where
  "new_client = \<lparr>writtenActions = [], writtenBytecode = [], finalized = False\<rparr>"

definition writeBytecode :: "u8 list \<Rightarrow> CompilationClient \<Rightarrow> CompilationClient" where
  "writeBytecode bytecode client = client\<lparr>writtenBytecode := writtenBytecode client @ bytecode\<rparr>"

fun option_outcome :: "'a option \<Rightarrow> 'a outcome" where
  "option_outcome None = Crashed"
| "option_outcome (Some a) = Returned a"

fun outcome_bind :: "'a outcome \<Rightarrow> ('a \<Rightarrow> 'b outcome) \<Rightarrow> 'b outcome" where
  "outcome_bind (Returned a) f = f a"
| "outcome_bind Crashed f = Crashed"
| "outcome_bind OutOfFuel f = OutOfFuel"

text \<open>The callback of \<open>processNFAs\<close>; the state is the client and \<open>firstNFASeen\<close>.\<close>

definition compile_nfa :: "nat \<Rightarrow> u64 list \<Rightarrow> nfa \<Rightarrow> CompilationClient \<times> bool \<Rightarrow> (CompilationClient \<times> bool) outcome" where
  "compile_nfa fuel universalActionLocations nfa = (\<lambda>(client, firstNFASeen).
     outcome_bind (NFAToDFA_convert fuel nfa) (\<lambda>dfa.
     outcome_bind (DFAMinimizer_minimize fuel dfa) (\<lambda>dfa.
     outcome_bind (option_outcome (if \<not> firstNFASeen then addUniversalActionsToDFA universalActionLocations dfa else Some dfa)) (\<lambda>dfa.
     outcome_bind (option_outcome (DFABytecodeCompiler_compile dfa [])) (\<lambda>bytecode.
       Returned (writeBytecode bytecode client, True))))))"

fun compile_nfas ::
  "nat \<Rightarrow> u64 list \<Rightarrow> nfa list \<Rightarrow> CompilationClient \<times> bool \<Rightarrow> (CompilationClient \<times> bool) outcome" where
  "compile_nfas fuel universalActionLocations [] st = Returned st"
| "compile_nfas fuel universalActionLocations (nfa # nfas) st =
     outcome_bind (compile_nfa fuel universalActionLocations nfa st) (compile_nfas fuel universalActionLocations nfas)"

definition compile_dummy :: "nat \<Rightarrow> u64 list \<Rightarrow> CompilationClient \<Rightarrow> CompilationClient outcome" where
  "compile_dummy fuel universalActionLocations client =
     outcome_bind (NFAToDFA_convert fuel new_nfa) (\<lambda>dummyDFA.
     outcome_bind (option_outcome (addUniversalActionsToDFA universalActionLocations dummyDFA)) (\<lambda>dummyDFA.
     outcome_bind (option_outcome (DFABytecodeCompiler_compile dummyDFA [])) (\<lambda>bytecode.
       Returned (writeBytecode bytecode client))))"

definition compile_tree :: "nat \<Rightarrow> nat \<Rightarrow> filter_state \<Rightarrow> CompilationClient \<Rightarrow> CompilationClient outcome" where
  "compile_tree fuel maxNFASize st client =
     outcome_bind (compile_nfas fuel (universal_locations st) (processNFAs maxNFASize (combinedURLFilters st)) (client, False))
       (\<lambda>(client, firstNFASeen).
         outcome_bind (if \<not> firstNFASeen then compile_dummy fuel (universal_locations st) client else Returned client) (\<lambda>client.
           Returned (client\<lparr>finalized := True\<rparr>)))"


definition compile_rules ::
  "nat \<Rightarrow> nat \<Rightarrow> (nat list \<Rightarrow> yarr_event list \<times> bool) \<Rightarrow> ContentExtensionRule list \<Rightarrow> (ContentExtensionError + CompilationClient) outcome" where
  "compile_rules fuel maxNFASize yarr parsedRuleList =
     outcome_bind (option_outcome (serializeActions parsedRuleList)) (\<lambda>(acts, actionLocations).
       let client = new_client\<lparr>writtenActions := acts\<rparr>
       in outcome_bind (option_outcome (add_rules yarr (zip parsedRuleList actionLocations) new_filter_state)) (\<lambda>r.
            case r of
              Inl e \<Rightarrow> Returned (Inl e)
            | Inr st \<Rightarrow> outcome_bind (compile_tree fuel maxNFASize st client) (\<lambda>client. Returned (Inr client))))"

definition compileRuleList ::
  "nat \<Rightarrow> (WString \<Rightarrow> JSValue option) \<Rightarrow> (JSValue \<Rightarrow> WString) \<Rightarrow> (nat list \<Rightarrow> yarr_event list \<times> bool) \<Rightarrow> WString \<Rightarrow>
     (ContentExtensionError + CompilationClient) outcome" where
  "compileRuleList fuel JSONParse conv yarr ruleList =
     (case parseRuleList JSONParse conv ruleList of
        Inl e \<Rightarrow> Returned (Inl e)
      | Inr parsedRuleList \<Rightarrow> compile_rules fuel the_maxNFASize yarr parsedRuleList)"

end
