(* ===== verification/CE_Compile_Correct.thy ===== *)
theory CE_Compile_Correct
  imports CE_Compiler CE_Minimizer_Correct CE_Minimizer_Slices CE_Bytecode_Exec CE_Filter_Sem CE_Subset_Shape
begin

text \<open>
  From the prefix tree to triggered actions: the bytecode the compiler writes for a tree of filters
  and the universal actions triggers, when it is interpreted on a URL, the universal actions and
  the actions of the patterns of the tree that match.
\<close>

section \<open>Universal actions\<close>

lemma set_actions_simps [simp]:
  "isKilled (set_actions s n node) = isKilled node"
  "hasFallbackTransition (set_actions s n node) = hasFallbackTransition node"
  "transitionsLength (set_actions s n node) = transitionsLength node"
  "m_transitionsStart (set_actions s n node) = m_transitionsStart node"
  by (simp_all add: set_actions_def isKilled_def hasFallbackTransition_def transitionsLength_def)

lemma list_update_nth: "P (xs ! i) = P y \<Longrightarrow> P (xs[i := y] ! q) = P (xs ! q)"
  by (cases "i < length xs") (auto simp: nth_list_update list_update_beyond)

lemma added_shape:
  assumes added: "addUniversalActionsToDFA us d = Some e"
  shows
  "dfa_transitions e = dfa_transitions d" "root e = root d"
  "\<exists>n. nodes e = (nodes d)[root d := n] \<and> isKilled n = isKilled (nodes d ! root d) \<and>
     hasFallbackTransition n = hasFallbackTransition (nodes d ! root d) \<and>
     transitionsLength n = transitionsLength (nodes d ! root d) \<and> m_transitionsStart n = m_transitionsStart (nodes d ! root d)"
  using added
  by (auto simp: addUniversalActionsToDFA_def Let_def split: if_splits intro: exI [of _ "nodes d ! root d"])

lemma added_node:
  assumes "addUniversalActionsToDFA us d = Some e"
  shows
  "isKilled (nodes e ! q) = isKilled (nodes d ! q)" "hasFallbackTransition (nodes e ! q) = hasFallbackTransition (nodes d ! q)"
  "transitionsLength (nodes e ! q) = transitionsLength (nodes d ! q)" "m_transitionsStart (nodes e ! q) = m_transitionsStart (nodes d ! q)"
proof -
  obtain n where n: "nodes e = (nodes d)[root d := n]" "isKilled n = isKilled (nodes d ! root d)"
    "hasFallbackTransition n = hasFallbackTransition (nodes d ! root d)" "transitionsLength n = transitionsLength (nodes d ! root d)"
    "m_transitionsStart n = m_transitionsStart (nodes d ! root d)" using added_shape(3) [OF assms] by blast
  show "isKilled (nodes e ! q) = isKilled (nodes d ! q)" "hasFallbackTransition (nodes e ! q) = hasFallbackTransition (nodes d ! q)"
    "transitionsLength (nodes e ! q) = transitionsLength (nodes d ! q)" "m_transitionsStart (nodes e ! q) = m_transitionsStart (nodes d ! q)"
    unfolding n(1) using n(2-) by (intro list_update_nth; simp)+
qed

lemma added_live:
  assumes "addUniversalActionsToDFA us d = Some e"
  shows "live e q = live d q"
  using added_shape(3) [OF assms] by (auto simp: live_def added_node [OF assms])

lemma added_transitions:
  assumes "addUniversalActionsToDFA us d = Some e"
  shows
  "node_transitions e (nodes e ! q) = node_transitions d (nodes d ! q)"
  "fallbackTransitionDestination e (nodes e ! q) = fallbackTransitionDestination d (nodes d ! q)"
  by (simp_all add: node_transitions_def fallbackTransitionDestination_def added_node [OF assms] added_shape(1) [OF assms] Let_def)

lemma added_step: "addUniversalActionsToDFA us d = Some e \<Longrightarrow> dfa_step e = dfa_step d"
  by (intro ext) (simp add: dfa_step_def added_transitions Let_def split: option.split)

lemma added_wf:
  assumes "addUniversalActionsToDFA us d = Some e" "dfa_wf d"
  shows "dfa_wf e"
  using assms(2)
  by (simp add: dfa_wf_def node_wf_def added_live [OF assms(1)] added_shape(2) [OF assms(1)] added_transitions [OF assms(1)] added_node [OF assms(1)])

lemma added_out_root:
  assumes added: "addUniversalActionsToDFA us d = Some e" and wf: "dfa_wf d" and no_root_actions: "dfa_out d (root d) = {}"
  shows "dfa_out e (root d) = set us"
proof (cases "us = []")
  case True
  then show ?thesis using added no_root_actions by (simp add: addUniversalActionsToDFA_def)
next
  case False
  have "root d < length (nodes d)" using wf by (simp add: dfa_wf_def live_def)
  moreover have "unat (of_nat (length us) :: u16) = length us" if "int (length us) < 65535"
    by (rule unat_of_nat_sizes(2)) (use that in linarith)
  ultimately show ?thesis using added False
    by (auto simp: addUniversalActionsToDFA_def Let_def dfa_out_def node_actions_def actionsLength_def set_actions_def split: if_splits)
qed

lemma added_out_other:
  assumes "addUniversalActionsToDFA us d = Some e" "slices_ok d" "q < length (nodes d)" "q \<noteq> root d"
  shows "dfa_out e q = dfa_out d q"
proof -
  have "aend d q \<le> length (actions d)" using slicesD(2) [OF assms(2,3)] .
  then show ?thesis using assms(1,3,4)
    by (auto simp: addUniversalActionsToDFA_def Let_def dfa_out_def node_actions_def aend_def split: if_splits)
qed

lemma added_run:
  assumes added: "addUniversalActionsToDFA us d = Some e" and wf: "dfa_wf d" and slices: "slices_ok d" and no_root_actions: "dfa_out d (root d) = {}"
  shows "live d q \<Longrightarrow> set us \<union> run_out (dfa_step e) (dfa_out e) q w = set us \<union> run_out (dfa_step d) (dfa_out d) q w"
proof (induction w arbitrary: q)
  case (Cons c w)
  show ?case
  proof (cases "dfa_step d q c")
    case (Some t)
    then have t: "live d t" using dfa_step_live [OF wf Cons.prems] by blast
    have "set us \<union> dfa_out e t = set us \<union> dfa_out d t"
      using added_out_root [OF added wf no_root_actions] added_out_other [OF added slices] t no_root_actions
      by (cases "t = root d") (auto simp: live_def)
    then show ?thesis using Cons.IH [OF t] Some added_step [OF added] by auto
  qed (simp add: added_step [OF added])
qed simp

lemma added_actions:
  assumes "addUniversalActionsToDFA us d = Some e" "dfa_wf d" "slices_ok d" "dfa_out d (root d) = {}"
  shows "dfa_actions e url = set us \<union> run_out (dfa_step d) (dfa_out d) (root d) (url @ [0])"
  using added_run [OF assms, of "root d" "url @ [0]"] assms(2) added_out_root [OF assms(1,2,4)]
  by (simp add: dfa_actions_def added_shape(2) [OF assms(1)] dfa_wf_def)

section \<open>One automaton\<close>

text \<open>The automaton of an NFA, up to its compilation.\<close>

definition machine :: "nat \<Rightarrow> u64 list \<Rightarrow> nfa \<Rightarrow> DFA outcome" where
  "machine fuel us A =
     outcome_bind (NFAToDFA_convert fuel A) (\<lambda>d.
     outcome_bind (DFAMinimizer_minimize fuel d) (\<lambda>d. option_outcome (addUniversalActionsToDFA us d)))"

text \<open>
  What the correctness needs of an NFA: fuel; the conversion fails no assertion; no node of the DFA is
  without a transition for just one character, and none goes on NUL to a node with the same actions
  as the target of its fallback; the universal actions can be added, and the bytecode is small enough
  for its 32-bit positions.
\<close>

definition compiles_well :: "nat \<Rightarrow> u64 list \<Rightarrow> nfa \<Rightarrow> bool" where
  "compiles_well fuel us A \<longleftrightarrow> 2 ^ length (m_nodes A) \<le> fuel \<and>
     (case NFAToDFA_convert fuel A of
        Returned d \<Rightarrow> list_all (\<lambda>i. \<not> nearly_full (view d i)) [0..<length (nodes d)] \<and> nul_distinct d \<and> minimizer_fuel d \<le> fuel
      | _ \<Rightarrow> False) \<and>
     (case machine fuel us A of Returned e \<Rightarrow> int (program_size e) < 4294967295 | _ \<Rightarrow> False)"

lemma convert_root_out:
  assumes "graph_ok A" "2 ^ length (m_nodes A) \<le> fuel" "NFAToDFA_convert fuel A = Returned d" "\<forall>a. ([], a) \<notin> nfa_accepts A"
  shows "dfa_out d 0 = {}"
proof -
  obtain st where st: "finished A st" "sub_dfa st = d" "leads_to st (eclose A {m_root A}) 0"
    using convert_correct(2) [OF assms(1-3)] by blast
  then have "subset_rel (A, eclose A {m_root A}) (d, 0)" by (auto simp: subset_rel_def)
  from subset_sim.sim_out [OF this] have "dfa_out d 0 = nfa_out A (eclose A {m_root A})" by simp
  also have "\<dots> = {}" using assms(1,4) path_bounds [of A "m_root A" "[]"]
    by (auto simp: nfa_out_def eclose_def nfa_accepts_def graph_ok_def wf_nfa_def)
  finally show ?thesis .
qed

lemma machine_correct:
  assumes ok: "graph_ok A" and w: "compiles_well fuel us A" and empty: "\<forall>a. ([], a) \<notin> nfa_accepts A"
  shows "\<exists>e. machine fuel us A = Returned e \<and> small_dfa e \<and> dfa_actions e url = set us \<union> triggers (nfa_accepts A) url"
proof -
  obtain d where d: "NFAToDFA_convert fuel A = Returned d" "\<forall>i < length (nodes d). \<not> nearly_full (view d i)" "nul_distinct d"
    "minimizer_fuel d \<le> fuel" "2 ^ length (m_nodes A) \<le> fuel"
    using w by (auto simp: compiles_well_def list_all_iff split: outcome.splits)
  obtain e where e: "machine fuel us A = Returned e" "program_size e < 4294967295"
    using w by (auto simp: compiles_well_def split: outcome.splits)
  note W = convert_wf [OF ok d(1)]
  have sh: "dfa_shape d" "dfa_wf d" "root d = 0" using W by blast+
  have "root d < length (nodes d)" using sh(2) by (simp add: dfa_wf_def live_def)
  then have m: "minimizable d"
    using shape_graph_wf [OF sh(1)] convert_slices [OF ok d(1)] d(2) by (simp add: minimizable_def)
  obtain m where m: "DFAMinimizer_minimize fuel d = Returned m" "dfa_wf m" "dfa_out m (root m) = dfa_out d (root d)"
    "\<And>w. run_out (dfa_step m) (dfa_out m) (root m) w = run_out (dfa_step d) (dfa_out d) (root d) w" "slices_ok m"
    using minimize_correct [OF m d(4)] minimize_views [OF m d(4)] nul_distinct_apart [OF d(3)] by auto
  have add: "addUniversalActionsToDFA us m = Some e"
    using e(1) d(1) m(1) by (cases "addUniversalActionsToDFA us m") (auto simp: machine_def)
  have root: "dfa_out m (root m) = {}" using convert_root_out [OF ok d(5,1) empty] m(3) sh(3) by simp
  have "dfa_actions e url = set us \<union> {a. \<exists>n. (take n (url @ [0]), a) \<in> nonempty_accepts A}"
    using added_actions [OF add m(2,5) root, of url] m(4) [of "url @ [0]"] convert_run_out [OF ok d(5,1), of "url @ [0]"] sh(3) by simp
  also have "{a. \<exists>n. (take n (url @ [0]), a) \<in> nonempty_accepts A} = triggers (nfa_accepts A) url"
  proof -
    have "(v, a) \<in> nonempty_accepts A \<longleftrightarrow> (v, a) \<in> nfa_accepts A" for v a using empty by (auto simp: nonempty_accepts_def)
    then show ?thesis unfolding triggers_def hits_def by simp
  qed
  finally show ?thesis using e added_wf [OF add m(2)] by (auto simp: small_dfa_def)
qed

section \<open>The whole tree\<close>

lemma addUniversalActionsToDFA_Nil: "addUniversalActionsToDFA [] d = Some d"
  by (simp add: addUniversalActionsToDFA_def)

lemma compile_nfa_eq:
  "compile_nfa fuel us A (client, seen) =
     outcome_bind (machine fuel (if seen then [] else us) A) (\<lambda>e.
     outcome_bind (option_outcome (DFABytecodeCompiler_compile e [])) (\<lambda>bytecode. Returned (writeBytecode bytecode client, True)))"
proof (cases "NFAToDFA_convert fuel A")
  case (Returned d)
  then show ?thesis
    by (cases "DFAMinimizer_minimize fuel d") (simp_all add: compile_nfa_def machine_def addUniversalActionsToDFA_Nil)
qed (simp_all add: compile_nfa_def machine_def)

lemma compile_nfa_machine:
  assumes "machine fuel (if seen then [] else us) A = Returned e" "small_dfa e"
  shows "compile_nfa fuel us A (client, seen) = Returned (writeBytecode (dfa_bytes e) client, True)"
  using assms compile_layout [of e] by (simp add: compile_nfa_eq small_dfa_def dfa_bytes_def)

lemma writeBytecode_append: "writeBytecode b (writeBytecode a client) = writeBytecode (a @ b) client"
  by (simp add: writeBytecode_def)

lemma writeBytecode_Nil: "writeBytecode [] client = client"
  by (simp add: writeBytecode_def)

lemma compile_nfas_others:
  "\<forall>A \<in> set As. \<exists>e. machine fuel [] A = Returned e \<and> small_dfa e \<and> dfa_actions e url = triggers (nfa_accepts A) url \<Longrightarrow>
   \<exists>es. compile_nfas fuel us As (client, True) = Returned (writeBytecode (concat (map dfa_bytes es)) client, True) \<and>
     list_all small_dfa es \<and> (\<Union>e \<in> set es. dfa_actions e url) = (\<Union>A \<in> set As. triggers (nfa_accepts A) url)"
proof (induction As arbitrary: client)
  case Nil
  show ?case by (intro exI [of _ "[]"]) (simp add: writeBytecode_Nil)
next
  case (Cons A As)
  obtain e where e: "machine fuel [] A = Returned e" "small_dfa e" "dfa_actions e url = triggers (nfa_accepts A) url" using Cons.prems by auto
  obtain es where es: "compile_nfas fuel us As (writeBytecode (dfa_bytes e) client, True) =
      Returned (writeBytecode (concat (map dfa_bytes es)) (writeBytecode (dfa_bytes e) client), True)"
    "list_all small_dfa es" "(\<Union>e \<in> set es. dfa_actions e url) = (\<Union>A \<in> set As. triggers (nfa_accepts A) url)"
    using Cons.IH [of "writeBytecode (dfa_bytes e) client"] Cons.prems by auto
  have "compile_nfa fuel us A (client, True) = Returned (writeBytecode (dfa_bytes e) client, True)"
    by (rule compile_nfa_machine) (use e in simp_all)
  then show ?case using e es by (intro exI [of _ "e # es"]) (simp add: writeBytecode_append)
qed

text \<open>The NFAs of a tree, the universal actions on the first, or on the automaton of the empty NFA if there is none.\<close>

definition dummy_compiles :: "nat \<Rightarrow> u64 list \<Rightarrow> bool" where
  "dummy_compiles fuel us \<longleftrightarrow> 2 \<le> fuel \<and>
     (case outcome_bind (NFAToDFA_convert fuel new_nfa) (\<lambda>d. option_outcome (addUniversalActionsToDFA us d)) of
        Returned e \<Rightarrow> int (program_size e) < 4294967295
      | _ \<Rightarrow> False)"

definition tree_compiles :: "nat \<Rightarrow> nat \<Rightarrow> filter_state \<Rightarrow> bool" where
  "tree_compiles fuel maxNFASize st \<longleftrightarrow>
     (case processNFAs maxNFASize (combinedURLFilters st) of
        [] \<Rightarrow> dummy_compiles fuel (universal_locations st)
      | A # As \<Rightarrow> compiles_well fuel (universal_locations st) A \<and> list_all (compiles_well fuel []) As)"

lemma dummy_correct:
  assumes "dummy_compiles fuel us"
  shows "\<exists>e. compile_dummy fuel us client = Returned (writeBytecode (dfa_bytes e) client) \<and> small_dfa e \<and> dfa_actions e url = set us"
proof -
  have ok: "graph_ok new_nfa" by (simp add: graph_ok_iff nodes_ok_new)
  have fuel: "2 ^ length (m_nodes new_nfa) \<le> fuel" using assms by (simp add: dummy_compiles_def)
  obtain d where d: "NFAToDFA_convert fuel new_nfa = Returned d"
    using assms by (cases "NFAToDFA_convert fuel new_nfa") (auto simp: dummy_compiles_def)
  obtain e where e: "addUniversalActionsToDFA us d = Some e" "program_size e < 4294967295"
    using assms d by (cases "addUniversalActionsToDFA us d") (auto simp: dummy_compiles_def)
  have none: "nfa_accepts new_nfa = {}" by (simp add: nfa_accepts_def)
  have W: "dfa_wf d" "root d = 0" using convert_wf [OF ok d] by blast+
  have root: "dfa_out d (root d) = {}" using convert_root_out [OF ok fuel d] W(2) none by simp
  have "run_out (dfa_step d) (dfa_out d) (root d) (url @ [0]) = {}"
    using convert_run_out [OF ok fuel d, of "url @ [0]"] W(2) none by (simp add: nonempty_accepts_def)
  then have "dfa_actions e url = set us" using added_actions [OF e(1) W(1) convert_slices [OF ok d] root, of url] by simp
  moreover have "small_dfa e" using e(2) added_wf [OF e(1) W(1)] by (simp add: small_dfa_def)
  moreover from this have "DFABytecodeCompiler_compile e [] = Some (dfa_bytes e)"
    using compile_layout [of e] by (simp add: small_dfa_def dfa_bytes_def)
  ultimately show ?thesis using d e(1) by (auto simp: compile_dummy_def)
qed

text \<open>What the compiler writes are automata that trigger the universal actions and those of the patterns.\<close>

lemma compile_tree_machines:
  assumes tree: "proper_vertex (combinedURLFilters st)" "\<forall>a. ([], a) \<notin> vertex_meaning (combinedURLFilters st)"
    and w: "tree_compiles fuel m st"
  shows "\<exists>e es. compile_tree fuel m st client =
       Returned (client\<lparr>writtenBytecode := writtenBytecode client @ concat (map dfa_bytes (e # es)), finalized := True\<rparr>) \<and>
     list_all small_dfa (e # es) \<and>
     (\<Union>d \<in> set (e # es). dfa_actions d url) = set (universal_locations st) \<union> triggers (vertex_meaning (combinedURLFilters st)) url"
proof (cases "processNFAs m (combinedURLFilters st)")
  case Nil
  then have "vertex_meaning (combinedURLFilters st) = {}" using processNFAs_accepts [OF tree(1), of m] by simp
  then have t: "triggers (vertex_meaning (combinedURLFilters st)) url = {}" by (simp add: triggers_def hits_def)
  have "dummy_compiles fuel (universal_locations st)" using w Nil by (simp add: tree_compiles_def)
  from dummy_correct [OF this, of client url] obtain e where
    "compile_dummy fuel (universal_locations st) client = Returned (writeBytecode (dfa_bytes e) client)" "small_dfa e"
    "dfa_actions e url = set (universal_locations st)" by blast
  then show ?thesis using Nil t
    by (intro exI [of _ e] exI [of _ "[]"]) (simp add: compile_tree_def writeBytecode_def)
next
  case (Cons A As)
  let ?us = "universal_locations st"
  have wA: "compiles_well fuel ?us A" and wAs: "list_all (compiles_well fuel []) As"
    using w Cons by (auto simp: tree_compiles_def)
  have ok: "B \<in> set (A # As) \<Longrightarrow> graph_ok B" for B using graph_ok_processNFAs [OF tree(1), of B m] Cons by auto
  have "\<Union> (nfa_accepts ` set (A # As)) = vertex_meaning (combinedURLFilters st)" using processNFAs_accepts [OF tree(1), of m] Cons by simp
  then have ne: "B \<in> set (A # As) \<Longrightarrow> \<forall>a. ([], a) \<notin> nfa_accepts B" for B using tree(2) by blast
  obtain e where e: "machine fuel ?us A = Returned e" "small_dfa e" "dfa_actions e url = set ?us \<union> triggers (nfa_accepts A) url"
    using machine_correct [OF ok wA ne, of url] by auto
  have "\<forall>B \<in> set As. \<exists>e. machine fuel [] B = Returned e \<and> small_dfa e \<and> dfa_actions e url = triggers (nfa_accepts B) url"
    using machine_correct [OF ok _ ne, of _ fuel "[]" url] wAs by (fastforce simp: list_all_iff)
  from compile_nfas_others [OF this, of ?us "writeBytecode (dfa_bytes e) client"] obtain es where
    es: "compile_nfas fuel ?us As (writeBytecode (dfa_bytes e) client, True) =
      Returned (writeBytecode (concat (map dfa_bytes (e # es))) client, True)"
    "list_all small_dfa es" "(\<Union>e \<in> set es. dfa_actions e url) = (\<Union>A \<in> set As. triggers (nfa_accepts A) url)"
    by (auto simp: writeBytecode_append)
  have "compile_tree fuel m st client =
      Returned (client\<lparr>writtenBytecode := writtenBytecode client @ concat (map dfa_bytes (e # es)), finalized := True\<rparr>)"
    using compile_nfa_machine [of fuel False ?us A e client] e es(1) by (simp add: compile_tree_def Cons writeBytecode_def)
  moreover have "(\<Union>d \<in> set (e # es). dfa_actions d url) = set ?us \<union> triggers (vertex_meaning (combinedURLFilters st)) url"
    using e(3) es(3) triggers_processNFAs [where m = m and url = url, OF tree(1)] Cons by auto
  ultimately show ?thesis using e(2) es(2) by auto
qed

lemma compile_tree_correct:
  assumes tree: "proper_vertex (combinedURLFilters st)" "\<forall>a. ([], a) \<notin> vertex_meaning (combinedURLFilters st)"
    and w: "tree_compiles fuel m st" and url: "url_ok url"
  shows "\<exists>bytes N. compile_tree fuel m st client = Returned (client\<lparr>writtenBytecode := writtenBytecode client @ bytes, finalized := True\<rparr>) \<and>
     (\<forall>n \<ge> N. \<forall>k \<ge> N. \<exists>acts. DFABytecodeInterpreter_interpret k n bytes url flags = Returned acts \<and>
        set acts \<union> set (actionsFromDFARoot bytes) =
          selected flags (set (universal_locations st) \<union> triggers (vertex_meaning (combinedURLFilters st)) url))"
proof -
  obtain e es where c: "compile_tree fuel m st client =
       Returned (client\<lparr>writtenBytecode := writtenBytecode client @ concat (map dfa_bytes (e # es)), finalized := True\<rparr>)"
    and small: "list_all small_dfa (e # es)"
    and acts: "(\<Union>d \<in> set (e # es). dfa_actions d url) = set (universal_locations st) \<union> triggers (vertex_meaning (combinedURLFilters st)) url"
    using compile_tree_machines [OF tree w, of client url] by blast
  let ?bytes = "concat (map dfa_bytes (e # es))" and ?cost = "\<lambda>d. (length url + 3) * length (program d)"
  define N where "N = length (e # es) + sum_list (map ?cost (e # es))"
  have "\<exists>acts. DFABytecodeInterpreter_interpret k n ?bytes url flags = Returned acts \<and>
      set acts \<union> set (actionsFromDFARoot ?bytes) =
        selected flags (set (universal_locations st) \<union> triggers (vertex_meaning (combinedURLFilters st)) url)"
    if n: "N \<le> n" "N \<le> k" for n k
  proof -
    have "?cost d \<le> n" if "d \<in> set (e # es)" for d
      using member_le_sum_list [of "?cost d" "map ?cost (e # es)"] that n(1) unfolding N_def by auto
    then have f: "enough_fuel url (e # es) n" by (auto simp: enough_fuel_def list_all_iff)
    have "length (e # es) \<le> k" using n(2) by (simp add: N_def)
    from interprets [OF small url f this] show ?thesis unfolding acts .
  qed
  then show ?thesis using c by blast
qed

end
