(* ===== verification/CE_Serialize.thy ===== *)
theory CE_Serialize
  imports CE_Compiler CE_Bytecode_Link
begin

text \<open>
  The serialised actions can be read back: the location of every rule holds an action of its type,
  and for a selector the joined selectors of a run of rules with the same trigger.
\<close>

section \<open>Selectors\<close>

abbreviation selector_of :: "ContentExtensionRule \<Rightarrow> WString" where
  "selector_of rule \<equiv> m_stringArgument (m_action rule)"

lemma joined_characters:
  "characters (joined_selector rule others) = characters (selector_of rule) @ concat (map (\<lambda>other. 44 # characters (selector_of other)) others)"
proof -
  have "m_characters (fold (\<lambda>other b. append_string (selector_of other) (append_char 44 b)) others b) =
      m_characters b @ concat (map (\<lambda>other. 44 # characters (selector_of other)) others)" for b
    by (induction others arbitrary: b) simp_all
  then show ?thesis by (simp add: joined_selector_def new_StringBuilder_def)
qed

lemma joined_ok:
  assumes "string_ok (selector_of rule)" "\<forall>other \<in> set others. string_ok (selector_of other)"
  shows "string_ok (joined_selector rule others)"
proof -
  have "builder_ok b \<Longrightarrow> \<forall>other \<in> set others. string_ok (selector_of other) \<Longrightarrow>
      builder_ok (fold (\<lambda>other b. append_string (selector_of other) (append_char 44 b)) others b)" for b
  proof (induction others arbitrary: b)
    case (Cons a others)
    have "builder_ok (append_char 44 b)" using Cons.prems(1) by (simp add: append_char_def builder_ok_append8)
    then have "builder_ok (append_string (selector_of a) (append_char 44 b))"
      by (rule builder_ok_append_string) (use Cons.prems(2) in simp)
    from Cons.IH [OF this] Cons.prems(2) show ?case by simp
  qed simp
  then show ?thesis
    unfolding joined_selector_def by (intro toString_ok) (use assms builder_ok_new builder_ok_append_string in blast)
qed

lemma joined_not_null: "joined_selector rule others \<noteq> NullString"
  by (simp add: joined_selector_def builder_toString_def)

lemma serializeSelector_eq:
  "serializeSelector s acts = acts @ [2] @ bytes32 (of_nat (string_length s)) @ [if is8Bit s then 0 else 1] @
     (if is8Bit s then map of_nat (characters s) else concat (map (\<lambda>c. bytes16 (of_nat c)) (characters s)))"
  by (simp add: serializeSelector_def Let_def)

lemma wide_units_at:
  "list_all (\<lambda>c. c < 65536) cs \<Longrightarrow> wide_units (pre @ concat (map (\<lambda>c. bytes16 (of_nat c)) cs) @ post) (length pre) (length cs) = cs"
proof (induction cs arbitrary: pre)
  case (Cons c cs)
  let ?b = "pre @ bytes16 (of_nat c) @ concat (map (\<lambda>c. bytes16 (of_nat c)) cs) @ post"
  have c: "unat (get16 ?b (length pre)) = c"
    using Cons.prems unat_of_nat_sizes(2) [of c] by (simp add: get16_at)
  have "wide_units ((pre @ bytes16 (of_nat c)) @ concat (map (\<lambda>c. bytes16 (of_nat c)) cs) @ post) (length (pre @ bytes16 (of_nat c))) (length cs) = cs"
    by (rule Cons.IH) (use Cons.prems in simp)
  then have "map (\<lambda>i. unat (get16 ?b (length pre + 2 * Suc i))) [0..<length cs] = cs"
    by (simp add: wide_units_def add.commute add.left_commute)
  moreover have "[0..<length (c # cs)] = 0 # map Suc [0..<length cs]" by (simp add: map_Suc_upt upt_conv_Cons del: upt_Suc)
  ultimately show ?case using c by (simp add: wide_units_def comp_def del: upt_Suc)
qed (simp add: wide_units_def)

lemma narrow_units_at:
  "list_all (\<lambda>c. c < 256) cs \<Longrightarrow> narrow_units (pre @ map of_nat cs @ post) (length pre) (length cs) = cs"
  using unat_of_nat_sizes(1)
  by (intro nth_equalityI) (auto simp: narrow_units_def nth_append list_all_length)

lemma length_concat_bytes16: "length (concat (map (\<lambda>c. bytes16 (f c)) cs)) = 2 * length cs"
  by (induction cs) simp_all

lemma deserialize_selector:
  assumes s: "string_ok s" "s \<noteq> NullString" and len: "length (serializeSelector s acts @ post) < 2 ^ 32" and loc: "loc = of_nat (length acts)"
  shows "\<exists>b. deserialize (serializeSelector s acts @ post) loc = Some (new_string_Action CSSDisplayNoneSelector (WString b (characters s)) loc)"
proof -
  let ?n = "string_length s" and ?w = "[if is8Bit s then 0 else 1 :: u8]"
  let ?data = "if is8Bit s then map of_nat (characters s) else concat (map (\<lambda>c. bytes16 (of_nat c)) (characters s))"
  let ?pre = "acts @ [2] @ bytes32 (of_nat ?n) @ ?w"
  let ?all = "serializeSelector s acts @ post"
  have all: "?all = ?pre @ ?data @ post" "?all = (acts @ [2]) @ bytes32 (of_nat ?n) @ ?w @ ?data @ post"
    by (simp_all add: serializeSelector_eq)
  have pre: "length ?pre = length acts + 6" by simp
  have big: "length acts + 6 + length ?data \<le> length ?all" unfolding all(1) length_append using pre by simp
  have u: "unat loc = length acts" "unat (loc + 6) = length acts + 6"
  proof -
    show 1: "unat loc = length acts" unfolding loc using big len by (simp add: unat_of_nat_sizes(3))
    have "loc + 6 = of_nat (length acts + 6)" by (simp add: loc)
    then show "unat (loc + 6) = length acts + 6" using big len by (simp add: unat_of_nat_sizes(3) del: of_nat_add)
  qed
  have n: "?n \<le> length ?data" by (simp add: string_length_def length_concat_bytes16)
  then have un: "unat (of_nat ?n :: u32) = ?n" using big len by (simp add: unat_of_nat_sizes(3))
  have g: "get32 ?all (length acts + 1) = of_nat ?n" unfolding all(2) by (rule get32_at) simp
  have t: "?all ! length acts = 2" by (simp add: all(2))
  have w: "?all ! (length acts + 5) = (if is8Bit s then 0 else 1)" unfolding all(1) by (simp add: nth_append bytes32_def)
  have ty: "action_type_of_byte 2 = Some CSSDisplayNoneSelector" by (simp add: action_type_of_byte_def)
  have d: "deserialize ?all loc =
      (if \<not> is8Bit s then Some (new_string_Action CSSDisplayNoneSelector (WString False (wide_units ?all (length ?pre) ?n)) loc)
       else Some (new_string_Action CSSDisplayNoneSelector (WString True (narrow_units ?all (length ?pre) ?n)) loc))"
    using big n un g t w ty u pre
    by (simp add: deserialize_def Let_def length_concat_bytes16 string_length_def split: if_splits)
  show ?thesis
  proof (cases "is8Bit s")
    case True
    have "narrow_units ?all (length ?pre) ?n = characters s"
      using narrow_units_at [of "characters s" ?pre post] s(1) True unfolding all(1) by (simp add: string_ok_def string_length_def)
    then show ?thesis using d True by auto
  next
    case False
    have "wide_units ?all (length ?pre) ?n = characters s"
      using wide_units_at [of "characters s" ?pre post] s(1) False unfolding all(1) by (simp add: string_ok_def string_length_def)
    then show ?thesis using d False by auto
  qed
qed

section \<open>Rule lists\<close>

lemma deserialize_simple:
  "unat loc < length acts \<Longrightarrow> acts ! unat loc = action_type_byte t \<Longrightarrow> t \<in> {BlockLoad, BlockCookies, IgnorePreviousRules} \<Longrightarrow>
     deserialize acts loc = Some (new_Action t loc)"
  by (auto simp: deserialize_def action_type_of_byte_def)

text \<open>
  What is read back for a rule: its type, the location as ID, and for a selector the selectors of a
  run of rules with its trigger, the rule among them, joined by commas.
\<close>

definition reads_back :: "u8 list \<Rightarrow> ContentExtensionRule \<Rightarrow> u32 \<Rightarrow> bool" where
  "reads_back acts rule loc \<longleftrightarrow> (\<exists>action. deserialize acts loc = Some action \<and> m_type action = m_type (m_action rule) \<and> m_actionID action = loc \<and>
     (m_type (m_action rule) = CSSDisplayNoneSelector \<longrightarrow>
        (\<exists>r others. rule \<in> set (r # others) \<and> list_all (consolidated r) others \<and>
           characters (m_stringArgument action) = characters (selector_of r) @ concat (map (\<lambda>other. 44 # characters (selector_of other)) others))))"

definition last_action_ok :: "ContentExtensionRule option \<Rightarrow> u8 list \<Rightarrow> u32 list \<Rightarrow> bool" where
  "last_action_ok previous acts locs \<longleftrightarrow> (\<forall>p. previous = Some p \<longrightarrow> m_type (m_action p) \<noteq> CSSDisplayNoneSelector \<longrightarrow>
     unat (last locs) < length acts \<and> acts ! unat (last locs) = action_type_byte (m_type (m_action p)) \<and>
     m_type (m_action p) \<in> {BlockLoad, BlockCookies, IgnorePreviousRules})"

definition rules_ok :: "ContentExtensionRule list \<Rightarrow> bool" where
  "rules_ok rules \<longleftrightarrow> (\<forall>rule \<in> set rules. string_ok (selector_of rule))"

lemma reads_back_simple:
  assumes "unat loc < length acts" "acts ! unat loc = action_type_byte (m_type (m_action rule))"
    "m_type (m_action rule) \<in> {BlockLoad, BlockCookies, IgnorePreviousRules}"
  shows "reads_back (acts @ post) rule loc"
  using deserialize_simple [of loc "acts @ post" "m_type (m_action rule)"] assms
  by (auto simp: reads_back_def new_Action_def nth_append)

lemma group_reads_back:
  assumes ok: "rules_ok (rule # rules)" and css: "m_type (m_action rule) = CSSDisplayNoneSelector"
    and others: "others = takeWhile (consolidated rule) rules"
    and len: "length (serializeSelector (joined_selector rule others) acts @ post) < 2 ^ 32"
  shows "\<forall>r \<in> set (rule # others). reads_back (serializeSelector (joined_selector rule others) acts @ post) r (of_nat (length acts))"
proof -
  have sub: "\<forall>o' \<in> set others. consolidated rule o' \<and> o' \<in> set rules" unfolding others by (auto dest: set_takeWhileD)
  have "string_ok (joined_selector rule others)" by (rule joined_ok) (use ok sub in \<open>auto simp: rules_ok_def\<close>)
  from deserialize_selector [OF this joined_not_null len refl] obtain b where
    d: "deserialize (serializeSelector (joined_selector rule others) acts @ post) (of_nat (length acts)) =
      Some (new_string_Action CSSDisplayNoneSelector (WString b (characters (joined_selector rule others))) (of_nat (length acts)))" by blast
  have "list_all (consolidated rule) others" using sub by (simp add: list_all_iff)
  moreover have "\<forall>r \<in> set (rule # others). m_type (m_action r) = CSSDisplayNoneSelector" using css sub by (auto simp: consolidated_def)
  ultimately show ?thesis
    unfolding reads_back_def d by (auto simp: new_string_Action_def joined_characters)
qed

lemma serialize_loop_length:
  "serialize_loop previous rules acts locs = Some (acts', locs') \<Longrightarrow> length acts \<le> length acts'"
proof (induction previous rules acts locs rule: serialize_loop.induct)
  case (2 previous rule rules acts locs)
  show ?case
  proof (cases "m_type (m_action rule) = CSSDisplayNoneSelector")
    case True
    let ?others = "takeWhile (consolidated rule) rules"
    have "serialize_loop (Some (last (rule # ?others))) (drop (length ?others) rules) (serializeSelector (joined_selector rule ?others) acts)
        (locs @ replicate (1 + length ?others) (of_nat (length acts))) = Some (acts', locs')"
      using "2.prems" True by (simp add: Let_def)
    from "2.IH"(1) [OF True refl refl this] show ?thesis by (simp add: serializeSelector_eq)
  next
    case css: False
    show ?thesis
    proof (cases "case previous of None \<Rightarrow> False | Some p \<Rightarrow> action_equal (m_action rule) (m_action p)")
      case True
      have "serialize_loop (Some rule) rules acts (locs @ [last locs]) = Some (acts', locs')" using "2.prems" css True by simp
      from "2.IH"(2) [OF css True this] show ?thesis .
    next
      case other: False
      have bad: "m_type (m_action rule) \<notin> {CSSDisplayNoneStyleSheet, InvalidAction}" using "2.prems" css other by (auto split: if_splits)
      have "serialize_loop (Some rule) rules (acts @ [action_type_byte (m_type (m_action rule))]) (locs @ [of_nat (length acts)]) = Some (acts', locs')"
        using "2.prems" css other bad by simp
      from "2.IH"(3) [OF css other bad this] show ?thesis by simp
    qed
  qed
qed simp

lemma serialize_loop_correct:
  "serialize_loop previous rules acts locs = Some (acts', locs') \<Longrightarrow> rules_ok rules \<Longrightarrow> length acts' < 2 ^ 32 \<Longrightarrow>
     last_action_ok previous acts locs \<Longrightarrow>
     \<exists>zs new. acts' = acts @ zs \<and> locs' = locs @ new \<and> list_all2 (reads_back acts') rules new"
proof (induction previous rules acts locs rule: serialize_loop.induct)
  case (2 previous rule rules acts locs)
  let ?t = "m_type (m_action rule)"
  show ?case
  proof (cases "?t = CSSDisplayNoneSelector")
    case True
    define others where "others = takeWhile (consolidated rule) rules"
    let ?acts = "serializeSelector (joined_selector rule others) acts"
    let ?locs = "replicate (1 + length others) (of_nat (length acts))"
    have rec: "serialize_loop (Some (last (rule # others))) (drop (length others) rules) ?acts (locs @ ?locs) = Some (acts', locs')"
      using "2.prems"(1) True by (simp add: others_def Let_def)
    have "m_type (m_action (last (rule # others))) = CSSDisplayNoneSelector"
    proof -
      have "last (rule # others) \<in> set (rule # others)" by (rule last_in_set) simp
      then show ?thesis using True by (auto simp: others_def consolidated_def dest: set_takeWhileD)
    qed
    then have lo: "last_action_ok (Some (last (rule # others))) ?acts (locs @ ?locs)" by (simp add: last_action_ok_def)
    have ok: "rules_ok (drop (length others) rules)" using "2.prems"(2) by (auto simp: rules_ok_def dest: in_set_dropD)
    from "2.IH"(1) [OF True others_def refl rec ok "2.prems"(3) lo] obtain zs new where
      z: "acts' = ?acts @ zs" "locs' = (locs @ ?locs) @ new" "list_all2 (reads_back acts') (drop (length others) rules) new" by blast
    have "\<forall>r \<in> set (rule # others). reads_back acts' r (of_nat (length acts))"
      unfolding z(1) by (rule group_reads_back [OF "2.prems"(2) True others_def]) (use "2.prems"(3) z(1) in simp)
    then have "list_all2 (reads_back acts') (rule # others) ?locs"
      by (auto simp: list_all2_conv_all_nth nth_Cons' set_conv_nth)
    then have "list_all2 (reads_back acts') ((rule # others) @ drop (length others) rules) (?locs @ new)"
      using z(3) by (rule list_all2_appendI)
    moreover have "(rule # others) @ drop (length others) rules = rule # rules"
      unfolding others_def by (simp add: dropWhile_eq_drop [symmetric])
    moreover have "\<exists>ys. acts' = acts @ ys" unfolding z(1) serializeSelector_eq by auto
    ultimately show ?thesis using z(2) by (metis append.assoc)
  next
    case css: False
    show ?thesis
    proof (cases "case previous of None \<Rightarrow> False | Some p \<Rightarrow> action_equal (m_action rule) (m_action p)")
      case True
      then obtain p where p: "previous = Some p" "m_type (m_action p) = ?t" by (auto simp: action_equal_def split: option.splits)
      have rec: "serialize_loop (Some rule) rules acts (locs @ [last locs]) = Some (acts', locs')" using "2.prems"(1) css True by simp
      have l: "unat (last locs) < length acts" "acts ! unat (last locs) = action_type_byte ?t" "?t \<in> {BlockLoad, BlockCookies, IgnorePreviousRules}"
        using "2.prems"(4) p css by (simp_all add: last_action_ok_def)
      then have lo: "last_action_ok (Some rule) acts (locs @ [last locs])" by (simp add: last_action_ok_def)
      have "rules_ok rules" using "2.prems"(2) by (simp add: rules_ok_def)
      from "2.IH"(2) [OF css True rec this "2.prems"(3) lo] obtain zs new where
        z: "acts' = acts @ zs" "locs' = (locs @ [last locs]) @ new" "list_all2 (reads_back acts') rules new" by blast
      have "reads_back acts' rule (last locs)" unfolding z(1) by (rule reads_back_simple [OF l])
      with z show ?thesis by (intro exI [of _ zs] exI [of _ "last locs # new"]) simp
    next
      case other: False
      have bad: "?t \<notin> {CSSDisplayNoneStyleSheet, InvalidAction}" using "2.prems"(1) css other by (auto split: if_splits)
      let ?acts = "acts @ [action_type_byte ?t]" and ?loc = "of_nat (length acts) :: u32"
      have rec: "serialize_loop (Some rule) rules ?acts (locs @ [?loc]) = Some (acts', locs')" using "2.prems"(1) css other bad by simp
      have t: "?t \<in> {BlockLoad, BlockCookies, IgnorePreviousRules}" using bad css by (cases ?t) auto
      have len: "length acts < 2 ^ 32" using serialize_loop_length [OF rec] "2.prems"(3) by simp
      then have u: "unat ?loc = length acts" by (simp add: unat_of_nat_sizes(3))
      have l: "unat ?loc < length ?acts" "?acts ! unat ?loc = action_type_byte ?t" using u by simp_all
      have lo: "last_action_ok (Some rule) ?acts (locs @ [?loc])" using l t by (simp add: last_action_ok_def)
      have "rules_ok rules" using "2.prems"(2) by (simp add: rules_ok_def)
      from "2.IH"(3) [OF css other bad rec this "2.prems"(3) lo] obtain zs new where
        z: "acts' = ?acts @ zs" "locs' = (locs @ [?loc]) @ new" "list_all2 (reads_back acts') rules new" by blast
      have "reads_back acts' rule ?loc" unfolding z(1) by (rule reads_back_simple [OF l t])
      with z show ?thesis by (intro exI [of _ "action_type_byte ?t # zs"] exI [of _ "?loc # new"]) simp
    qed
  qed
qed simp

lemma serialize_loop_total:
  "\<forall>rule \<in> set rules. m_type (m_action rule) \<notin> {CSSDisplayNoneStyleSheet, InvalidAction} \<Longrightarrow>
     serialize_loop previous rules acts locs \<noteq> None"
proof (induction previous rules acts locs rule: serialize_loop.induct)
  case (2 previous rule rules acts locs)
  have "\<forall>r \<in> set (drop n rules). m_type (m_action r) \<notin> {CSSDisplayNoneStyleSheet, InvalidAction}" for n
    using "2.prems" by (auto dest: in_set_dropD)
  with 2 show ?case by (simp add: Let_def)
qed simp

end
