(* ===== verification/Yarr_Parser.thy ===== *)
theory Yarr_Parser
  imports CE_Filter_Parser CE_Bits "HOL-Library.Sublist"
begin

text \<open>
  The regular expression parser (\<open>JavaScriptCore/yarr/YarrParser.h\<close>).

  The parser only moves forward in the pattern, or back to a saved index, so its state has the rest
  of the pattern; saving and restoring the index is keeping the list. The calls of the delegate are
  the events of \<open>CE_Filter_Parser\<close>, in order. A helper that calls its delegate returns the events.
  The pattern is a list of code units, of either width.
\<close>

section \<open>Characters\<close>

definition isASCIIDigit :: "nat \<Rightarrow> bool" where
  "isASCIIDigit c \<longleftrightarrow> 48 \<le> c \<and> c \<le> 57"

definition isASCIIAlphanumeric :: "nat \<Rightarrow> bool" where
  "isASCIIAlphanumeric c \<longleftrightarrow> isASCIIDigit c \<or> isASCIIAlpha c"

definition isASCIIHexDigit :: "nat \<Rightarrow> bool" where
  "isASCIIHexDigit c \<longleftrightarrow> isASCIIDigit c \<or> 97 \<le> (c OR 32) \<and> (c OR 32) \<le> 102"

definition isASCIIOctalDigit :: "nat \<Rightarrow> bool" where
  "isASCIIOctalDigit c \<longleftrightarrow> 48 \<le> c \<and> c \<le> 55"

definition toASCIIHexValue :: "nat \<Rightarrow> nat" where
  "toASCIIHexValue c = (if c < 65 then c - 48 else (c - 65 + 10) AND 15)"

section \<open>Helpers\<close>

datatype ErrorCode =
  NoError | PatternTooLarge | QuantifierOutOfOrder | QuantifierWithoutAtom | QuantifierTooLarge | MissingParentheses
| ParenthesesUnmatched | ParenthesesTypeInvalid | CharacterClassUnmatched | CharacterClassOutOfOrder | EscapeUnterminated

text \<open>A character is a \<open>UChar\<close> when it is handed to the delegate.\<close>

definition uchar :: "nat \<Rightarrow> nat" where
  "uchar c = c mod 65536"

text \<open>An equation on integers, by which the simplifier evaluates it.\<close>

lemma uchar_code [code]: "uchar c = nat (int c mod 65536)"
  by (simp add: uchar_def nat_mod_as_int)

fun peekIsDigit :: "nat list \<Rightarrow> bool" where
  "peekIsDigit [] = False"
| "peekIsDigit (c # rest) = isASCIIDigit c"

definition digit_value :: "nat \<Rightarrow> u32" where
  "digit_value c = of_nat (c - 48)"

text \<open>The check for overflow compares the new value with the old one.\<close>

fun consume_digits :: "u32 \<Rightarrow> nat list \<Rightarrow> u32 \<times> nat list" where
  "consume_digits n [] = (n, [])"
| "consume_digits n (c # rest) =
     (if isASCIIDigit c \<and> n \<le> n * 10 + digit_value c then consume_digits (n * 10 + digit_value c) rest
      else (n, c # rest))"

definition consumeNumber :: "nat list \<Rightarrow> u32 \<times> nat list" where
  "consumeNumber data = consume_digits (digit_value (hd data)) (tl data)"

fun consume_octal_digits :: "nat \<Rightarrow> nat list \<Rightarrow> nat \<times> nat list" where
  "consume_octal_digits n [] = (n, [])"
| "consume_octal_digits n (c # rest) =
     (if n < 32 \<and> isASCIIOctalDigit c then consume_octal_digits (n * 8 + (c - 48)) rest else (n, c # rest))"

definition consumeOctal :: "nat list \<Rightarrow> nat \<times> nat list" where
  "consumeOctal data = consume_octal_digits (hd data - 48) (tl data)"

definition tryConsume :: "nat \<Rightarrow> nat list \<Rightarrow> bool \<times> nat list" where
  "tryConsume ch data = (case data of [] \<Rightarrow> (False, []) | c # rest \<Rightarrow> if c = ch then (True, rest) else (False, c # rest))"

text \<open>\<open>None\<close> is -1; then the index is restored by the caller's list.\<close>

fun tryConsumeHex :: "nat \<Rightarrow> nat \<Rightarrow> nat list \<Rightarrow> (nat \<times> nat list) option" where
  "tryConsumeHex 0 n data = Some (n, data)"
| "tryConsumeHex (Suc count) n data =
     (case data of
        [] \<Rightarrow> None
      | c # rest \<Rightarrow> if isASCIIHexDigit c then tryConsumeHex count (push_bit 4 n OR toASCIIHexValue c) rest else None)"

section \<open>Escapes\<close>

text \<open>The one call an escape makes to the delegate it is given.\<close>

datatype escape =
  EscapeCharacter nat | EscapeBuiltIn BuiltInCharacterClassID bool | EscapeWordBoundary bool | EscapeBackReference u32

text \<open>
  \<open>parseEscape\<close>, behind the backslash; \<open>None\<close> is \<open>EscapeUnterminated\<close>. The flag of the result says
  whether the escape is an atom.
\<close>

definition control_letter :: "bool \<Rightarrow> nat list \<Rightarrow> (nat \<times> nat list) option" where
  "control_letter inCharacterClass data =
     (case data of
        [] \<Rightarrow> None
      | control # rest \<Rightarrow>
          if (if inCharacterClass then isASCIIAlphanumeric control \<or> control = 95 else isASCIIAlpha control)
          then Some (control AND 31, rest) else None)"

definition octal_escape :: "nat list \<Rightarrow> escape \<times> bool \<times> nat list" where
  "octal_escape data = (let (n, rest) = consumeOctal data in (EscapeCharacter (uchar n), True, rest))"

definition parse_decimal_escape :: "bool \<Rightarrow> u32 \<Rightarrow> nat list \<Rightarrow> escape \<times> bool \<times> nat list" where
  "parse_decimal_escape inCharacterClass backReferenceLimit data =
     (let (backReference, rest) = consumeNumber data
      in if \<not> inCharacterClass \<and> backReference \<le> backReferenceLimit then (EscapeBackReference backReference, True, rest)
         else if 56 \<le> hd data then (EscapeCharacter 92, True, data)
         else octal_escape data)"

definition parseEscape :: "bool \<Rightarrow> u32 \<Rightarrow> nat list \<Rightarrow> (escape \<times> bool \<times> nat list) option" where
  "parseEscape inCharacterClass backReferenceLimit data =
     (case data of
        [] \<Rightarrow> None
      | c # rest \<Rightarrow>
          Some (if c = 98 then
                  (if inCharacterClass then (EscapeCharacter 8, True, rest) else (EscapeWordBoundary False, False, rest))
                else if c = 66 then
                  (if inCharacterClass then (EscapeCharacter 66, True, rest) else (EscapeWordBoundary True, False, rest))
                else if c = 100 then (EscapeBuiltIn DigitClassID False, True, rest)
                else if c = 115 then (EscapeBuiltIn SpaceClassID False, True, rest)
                else if c = 119 then (EscapeBuiltIn WordClassID False, True, rest)
                else if c = 68 then (EscapeBuiltIn DigitClassID True, True, rest)
                else if c = 83 then (EscapeBuiltIn SpaceClassID True, True, rest)
                else if c = 87 then (EscapeBuiltIn WordClassID True, True, rest)
                else if 49 \<le> c \<and> c \<le> 57 then parse_decimal_escape inCharacterClass backReferenceLimit data
                else if c = 48 then octal_escape data
                else if c = 102 then (EscapeCharacter 12, True, rest)
                else if c = 110 then (EscapeCharacter 10, True, rest)
                else if c = 114 then (EscapeCharacter 13, True, rest)
                else if c = 116 then (EscapeCharacter 9, True, rest)
                else if c = 118 then (EscapeCharacter 11, True, rest)
                else if c = 99 then
                  (case control_letter inCharacterClass rest of
                     Some (control, rest) \<Rightarrow> (EscapeCharacter control, True, rest)
                   | None \<Rightarrow> (EscapeCharacter 92, True, data))
                else if c = 120 then
                  (case tryConsumeHex 2 0 rest of
                     Some (x, rest) \<Rightarrow> (EscapeCharacter x, True, rest)
                   | None \<Rightarrow> (EscapeCharacter 120, True, rest))
                else if c = 117 then
                  (case tryConsumeHex 4 0 rest of
                     Some (u, rest) \<Rightarrow> (EscapeCharacter (uchar u), True, rest)
                   | None \<Rightarrow> (EscapeCharacter 117, True, rest))
                else (EscapeCharacter (uchar c), True, rest)))"

text \<open>No escape moves back; a backslash is consumed before, so every one makes progress.\<close>

lemma suffix_less: "suffix xs ys \<Longrightarrow> length xs < Suc (length ys)"
  using suffix_length_le by (auto simp: less_Suc_eq_le)

lemma consume_digits_suffix: "consume_digits n data = (m, rest) \<Longrightarrow> suffix rest data"
  by (induction n data rule: consume_digits.induct) (auto split: if_splits intro: suffix_ConsI)

lemma suffix_tl: "suffix rest (tl data) \<Longrightarrow> suffix rest data"
  by (cases data) (auto intro: suffix_ConsI)

lemma consumeNumber_suffix: "consumeNumber data = (m, rest) \<Longrightarrow> suffix rest data"
  using consume_digits_suffix suffix_tl by (fastforce simp: consumeNumber_def)

lemma consume_octal_suffix: "consume_octal_digits n data = (m, rest) \<Longrightarrow> suffix rest data"
  by (induction n data rule: consume_octal_digits.induct) (auto split: if_splits intro: suffix_ConsI)

lemma tryConsumeHex_suffix: "tryConsumeHex k n data = Some (m, rest) \<Longrightarrow> suffix rest data"
  by (induction k n data rule: tryConsumeHex.induct) (auto split: if_splits list.splits intro: suffix_ConsI)

lemma parseEscape_suffix:
  assumes "parseEscape inCharacterClass limit data = Some (e, atom, rest)"
  shows "suffix rest data"
proof -
  have o: "suffix rest data" if "octal_escape data = (e, atom, rest)"
    using that consume_octal_suffix suffix_tl by (fastforce simp: octal_escape_def consumeOctal_def split: prod.splits)
  have d: "suffix rest data" if "parse_decimal_escape inCharacterClass limit data = (e, atom, rest)"
    using that o consumeNumber_suffix by (fastforce simp: parse_decimal_escape_def split: prod.splits if_splits)
  have h: "suffix rest data" if "tryConsumeHex k 0 (tl data) = Some (m, rest)" for k m
    using tryConsumeHex_suffix [OF that] by (rule suffix_tl)
  have c: "suffix rest data" if "control_letter inCharacterClass (tl data) = Some (m, rest)" for m
    using that by (cases data) (auto simp: control_letter_def intro!: suffix_ConsI split: list.splits if_splits)
  obtain a r where data: "data = a # r" using assms by (cases data) (auto simp: parseEscape_def)
  have "suffix r data" unfolding data by (rule suffix_ConsI) simp
  then show ?thesis
    using assms o d h c unfolding data parseEscape_def list.case option.inject
    by (auto split: if_splits option.splits)
qed

section \<open>Character classes\<close>

datatype CharacterClassConstructionState =
  Empty | CachedCharacter | CachedCharacterHyphen | AfterCharacterClass | AfterCharacterClassHyphen

record CharacterClassParserDelegate =
  m_state :: CharacterClassConstructionState
  m_character :: nat

definition new_CharacterClassParserDelegate :: CharacterClassParserDelegate where
  "new_CharacterClassParserDelegate = \<lparr>m_state = Empty, m_character = 0\<rparr>"

text \<open>The calls to the outer delegate, the error and the new state.\<close>

definition class_atomPatternCharacter ::
  "nat \<Rightarrow> bool \<Rightarrow> CharacterClassParserDelegate \<Rightarrow> yarr_event list \<times> ErrorCode \<times> CharacterClassParserDelegate" where
  "class_atomPatternCharacter ch hyphenIsRange d =
     (case m_state d of
        AfterCharacterClass \<Rightarrow>
          if hyphenIsRange \<and> ch = 45
          then ([AtomCharacterClassAtom 45], NoError, d\<lparr>m_state := AfterCharacterClassHyphen\<rparr>)
          else ([], NoError, d\<lparr>m_character := ch, m_state := CachedCharacter\<rparr>)
      | Empty \<Rightarrow> ([], NoError, d\<lparr>m_character := ch, m_state := CachedCharacter\<rparr>)
      | CachedCharacter \<Rightarrow>
          if hyphenIsRange \<and> ch = 45 then ([], NoError, d\<lparr>m_state := CachedCharacterHyphen\<rparr>)
          else ([AtomCharacterClassAtom (m_character d)], NoError, d\<lparr>m_character := ch\<rparr>)
      | CachedCharacterHyphen \<Rightarrow>
          if ch < m_character d then ([], CharacterClassOutOfOrder, d)
          else ([AtomCharacterClassRange (m_character d) ch], NoError, d\<lparr>m_state := Empty\<rparr>)
      | AfterCharacterClassHyphen \<Rightarrow> ([AtomCharacterClassAtom ch], NoError, d\<lparr>m_state := Empty\<rparr>))"

definition class_atomBuiltInCharacterClass ::
  "BuiltInCharacterClassID \<Rightarrow> bool \<Rightarrow> CharacterClassParserDelegate \<Rightarrow> yarr_event list \<times> CharacterClassParserDelegate" where
  "class_atomBuiltInCharacterClass classID invert d =
     (case m_state d of
        CachedCharacter \<Rightarrow>
          ([AtomCharacterClassAtom (m_character d), AtomCharacterClassBuiltIn classID invert], d\<lparr>m_state := AfterCharacterClass\<rparr>)
      | Empty \<Rightarrow> ([AtomCharacterClassBuiltIn classID invert], d\<lparr>m_state := AfterCharacterClass\<rparr>)
      | AfterCharacterClass \<Rightarrow> ([AtomCharacterClassBuiltIn classID invert], d\<lparr>m_state := AfterCharacterClass\<rparr>)
      | CachedCharacterHyphen \<Rightarrow>
          ([AtomCharacterClassAtom (m_character d), AtomCharacterClassAtom 45, AtomCharacterClassBuiltIn classID invert],
           d\<lparr>m_state := Empty\<rparr>)
      | AfterCharacterClassHyphen \<Rightarrow> ([AtomCharacterClassBuiltIn classID invert], d\<lparr>m_state := Empty\<rparr>))"

definition class_end :: "CharacterClassParserDelegate \<Rightarrow> yarr_event list" where
  "class_end d =
     (case m_state d of
        CachedCharacter \<Rightarrow> [AtomCharacterClassAtom (m_character d)]
      | CachedCharacterHyphen \<Rightarrow> [AtomCharacterClassAtom (m_character d), AtomCharacterClassAtom 45]
      | _ \<Rightarrow> []) @ [AtomCharacterClassEnd]"

text \<open>The escapes \<open>parseEscape\<close> never uses inside a class are unreachable; they call nothing.\<close>

definition class_escape ::
  "escape \<Rightarrow> CharacterClassParserDelegate \<Rightarrow> yarr_event list \<times> ErrorCode \<times> CharacterClassParserDelegate" where
  "class_escape e d =
     (case e of
        EscapeCharacter ch \<Rightarrow> class_atomPatternCharacter ch False d
      | EscapeBuiltIn classID invert \<Rightarrow>
          (let (events, d) = class_atomBuiltInCharacterClass classID invert d in (events, NoError, d))
      | _ \<Rightarrow> ([], NoError, d))"

text \<open>The loop of \<open>parseCharacterClass\<close>, with the events so far.\<close>

function class_loop ::
  "u32 \<Rightarrow> nat list \<Rightarrow> CharacterClassParserDelegate \<Rightarrow> yarr_event list \<Rightarrow> yarr_event list \<times> ErrorCode \<times> nat list" where
  "class_loop limit [] d events = (events, CharacterClassUnmatched, [])"
| "class_loop limit (c # rest) d events =
     (if c = 93 then (events @ class_end d, NoError, rest)
      else if c = 92 then
        (case parseEscape True limit rest of
           None \<Rightarrow> (events, EscapeUnterminated, rest)
         | Some (e, atom, rest) \<Rightarrow>
             (case class_escape e d of
                (es, err, d) \<Rightarrow> if err \<noteq> NoError then (events @ es, err, rest) else class_loop limit rest d (events @ es)))
      else
        (case class_atomPatternCharacter (uchar c) True d of
           (es, err, d) \<Rightarrow> if err \<noteq> NoError then (events @ es, err, rest) else class_loop limit rest d (events @ es)))"
  by pat_completeness auto
termination
  by (relation "measure (\<lambda>(_, data, _, _). length data)") (auto dest!: parseEscape_suffix suffix_less)

definition parseCharacterClass :: "u32 \<Rightarrow> nat list \<Rightarrow> yarr_event list \<times> ErrorCode \<times> nat list" where
  "parseCharacterClass limit data =
     (let (invert, rest) = tryConsume 94 data
      in class_loop limit rest new_CharacterClassParserDelegate [AtomCharacterClassBegin invert])"

section \<open>Tokens\<close>

text \<open>What one round of the loop of \<open>parseTokens\<close> does.\<close>

record token_result =
  tk_events :: "yarr_event list"
  tk_err :: ErrorCode
  tk_rest :: "nat list"
  tk_depth :: u32
  tk_atom :: bool

definition parseParenthesesBegin :: "u32 \<Rightarrow> nat list \<Rightarrow> token_result" where
  "parseParenthesesBegin depth data =
     (let (question, rest) = tryConsume 63 data
      in if question then
           (case rest of
              [] \<Rightarrow> \<lparr>tk_events = [], tk_err = ParenthesesTypeInvalid, tk_rest = [], tk_depth = depth, tk_atom = False\<rparr>
            | c # rest \<Rightarrow>
                if c = 58 then \<lparr>tk_events = [AtomParenthesesSubpatternBegin False], tk_err = NoError, tk_rest = rest, tk_depth = depth + 1, tk_atom = False\<rparr>
                else if c = 61 then \<lparr>tk_events = [AtomParentheticalAssertionBegin False], tk_err = NoError, tk_rest = rest, tk_depth = depth + 1, tk_atom = False\<rparr>
                else if c = 33 then \<lparr>tk_events = [AtomParentheticalAssertionBegin True], tk_err = NoError, tk_rest = rest, tk_depth = depth + 1, tk_atom = False\<rparr>
                else \<lparr>tk_events = [], tk_err = ParenthesesTypeInvalid, tk_rest = rest, tk_depth = depth + 1, tk_atom = False\<rparr>)
         else \<lparr>tk_events = [AtomParenthesesSubpatternBegin True], tk_err = NoError, tk_rest = rest, tk_depth = depth + 1, tk_atom = False\<rparr>)"

definition parseParenthesesEnd :: "u32 \<Rightarrow> nat list \<Rightarrow> token_result" where
  "parseParenthesesEnd depth rest =
     (if 0 < depth
      then \<lparr>tk_events = [AtomParenthesesEnd], tk_err = NoError, tk_rest = rest, tk_depth = depth - 1, tk_atom = True\<rparr>
      else \<lparr>tk_events = [], tk_err = ParenthesesUnmatched, tk_rest = rest, tk_depth = depth - 1, tk_atom = True\<rparr>)"

definition parseQuantifier :: "u32 \<Rightarrow> bool \<Rightarrow> u32 \<Rightarrow> u32 \<Rightarrow> nat list \<Rightarrow> token_result" where
  "parseQuantifier depth lastTokenWasAnAtom minimum maximum data =
     (if minimum = - 1 then \<lparr>tk_events = [], tk_err = QuantifierTooLarge, tk_rest = data, tk_depth = depth, tk_atom = False\<rparr>
      else if lastTokenWasAnAtom then
        (let (question, rest) = tryConsume 63 data
         in \<lparr>tk_events = [QuantifyAtom minimum maximum (\<not> question)], tk_err = NoError, tk_rest = rest, tk_depth = depth, tk_atom = False\<rparr>)
      else \<lparr>tk_events = [], tk_err = QuantifierWithoutAtom, tk_rest = data, tk_depth = depth, tk_atom = False\<rparr>)"

text \<open>The numbers of a quantifier in braces, behind the opening brace; \<open>None\<close> if it is not complete.\<close>

definition braces :: "nat list \<Rightarrow> (u32 \<times> u32 \<times> nat list) option" where
  "braces data =
     (if peekIsDigit data then
        let (minimum, rest) = consumeNumber data;
            (comma, rest) = tryConsume 44 rest;
            (maximum, rest) = (if comma then if peekIsDigit rest then consumeNumber rest else (quantifyInfinite, rest)
                           else (minimum, rest));
            (closed, rest) = tryConsume 125 rest
        in if closed then Some (minimum, maximum, rest) else None
      else None)"

definition single :: "yarr_event \<Rightarrow> u32 \<Rightarrow> nat list \<Rightarrow> bool \<Rightarrow> token_result" where
  "single event depth rest atom = \<lparr>tk_events = [event], tk_err = NoError, tk_rest = rest, tk_depth = depth, tk_atom = atom\<rparr>"

fun escape_event :: "escape \<Rightarrow> yarr_event" where
  "escape_event (EscapeCharacter c) = AtomPatternCharacter c"
| "escape_event (EscapeBuiltIn classID invert) = AtomBuiltInCharacterClass classID invert"
| "escape_event (EscapeWordBoundary invert) = AssertionWordBoundary invert"
| "escape_event (EscapeBackReference n) = AtomBackReference (unat n)"

definition parse_token :: "u32 \<Rightarrow> bool \<Rightarrow> u32 \<Rightarrow> nat \<Rightarrow> nat list \<Rightarrow> token_result" where
  "parse_token limit lastTokenWasAnAtom depth c rest =
     (if c = 124 then single Disjunction depth rest False
      else if c = 40 then parseParenthesesBegin depth rest
      else if c = 41 then parseParenthesesEnd depth rest
      else if c = 94 then single AssertionBOL depth rest False
      else if c = 36 then single AssertionEOL depth rest False
      else if c = 46 then single (AtomBuiltInCharacterClass NewlineClassID True) depth rest True
      else if c = 91 then
        (case parseCharacterClass limit rest of
           (events, err, rest) \<Rightarrow> \<lparr>tk_events = events, tk_err = err, tk_rest = rest, tk_depth = depth, tk_atom = True\<rparr>)
      else if c = 92 then
        (case parseEscape False limit rest of
           None \<Rightarrow> \<lparr>tk_events = [], tk_err = EscapeUnterminated, tk_rest = rest, tk_depth = depth, tk_atom = False\<rparr>
         | Some (e, atom, rest) \<Rightarrow> single (escape_event e) depth rest atom)
      else if c = 42 then parseQuantifier depth lastTokenWasAnAtom 0 quantifyInfinite rest
      else if c = 43 then parseQuantifier depth lastTokenWasAnAtom 1 quantifyInfinite rest
      else if c = 63 then parseQuantifier depth lastTokenWasAnAtom 0 1 rest
      else if c = 123 then
        (case braces rest of
           Some (minimum, maximum, rest) \<Rightarrow>
             if minimum \<le> maximum then parseQuantifier depth lastTokenWasAnAtom minimum maximum rest
             else \<lparr>tk_events = [], tk_err = QuantifierOutOfOrder, tk_rest = rest, tk_depth = depth, tk_atom = False\<rparr>
         | None \<Rightarrow> single (AtomPatternCharacter (uchar c)) depth rest True)
      else single (AtomPatternCharacter (uchar c)) depth rest True)"

text \<open>Every round makes progress.\<close>

lemma tryConsume_suffix: "tryConsume ch data = (b, rest) \<Longrightarrow> suffix rest data"
  by (auto simp: tryConsume_def intro: suffix_ConsI split: list.splits if_splits)

lemma class_loop_suffix: "class_loop limit data d events = (es0, err0, rest0) \<Longrightarrow> suffix rest0 data"
proof (induction limit data d events arbitrary: es0 err0 rest0 rule: class_loop.induct)
  case (2 limit c data d events)
  consider (close) "c = 93" | (escape) "c \<noteq> 93" "c = 92" | (char) "c \<noteq> 93" "c \<noteq> 92" by blast
  then show ?case
  proof cases
    case close
    then show ?thesis using "2.prems" by (auto intro: suffix_ConsI)
  next
    case escape
    show ?thesis
    proof (cases "parseEscape True limit data")
      case None
      then show ?thesis using "2.prems" escape by (auto intro: suffix_ConsI)
    next
      case (Some r)
      obtain e atom data' where r: "r = (e, atom, data')" by (cases r)
      obtain es err d' where ce: "class_escape e d = (es, err, d')" by (cases "class_escape e d")
      have len: "suffix data' data" using parseEscape_suffix Some r by blast
      show ?thesis
      proof (cases "err = NoError")
        case True
        then have "class_loop limit data' d' (events @ es) = (es0, err0, rest0)" using "2.prems" escape Some r ce by simp
        from "2.IH"(1) [OF escape Some [unfolded r] refl refl ce [symmetric] refl _ this] True len show ?thesis by (auto intro: suffix_ConsI suffix_order.trans)
      qed (use "2.prems" escape Some r ce len in \<open>auto intro: suffix_ConsI\<close>)
    qed
  next
    case char
    obtain es err d' where ce: "class_atomPatternCharacter (uchar c) True d = (es, err, d')"
      by (cases "class_atomPatternCharacter (uchar c) True d")
    show ?thesis
    proof (cases "err = NoError")
      case True
      then have "class_loop limit data d' (events @ es) = (es0, err0, rest0)" using "2.prems" char ce by simp
      from "2.IH"(2) [OF char ce [symmetric] refl _ this] True show ?thesis by (auto intro: suffix_ConsI)
    qed (use "2.prems" char ce in \<open>auto intro: suffix_ConsI\<close>)
  qed
qed simp

lemma parseQuantifier_suffix: "suffix (tk_rest (parseQuantifier depth atom minimum maximum data)) data"
  using tryConsume_suffix by (auto simp: parseQuantifier_def split: prod.splits)

lemma braces_suffix: "braces data = Some (minimum, maximum, rest) \<Longrightarrow> suffix rest data"
  by (auto simp: braces_def Let_def split: prod.splits if_splits dest!: tryConsume_suffix consumeNumber_suffix)

lemma parse_token_suffix: "suffix (tk_rest (parse_token limit atom depth c data)) data"
proof -
  have b: "suffix (tk_rest (parseParenthesesBegin depth data)) data"
    by (auto simp: parseParenthesesBegin_def split: prod.splits list.splits dest!: tryConsume_suffix intro: suffix_ConsD)
  have cl: "suffix rest data" if "parseCharacterClass limit data = (es, err, rest)" for es err rest
    using that tryConsume_suffix [of 94 data] by (auto simp: parseCharacterClass_def split: prod.splits dest!: class_loop_suffix)
  have q: "suffix (tk_rest (parseQuantifier depth atom minimum maximum rest)) data" if "suffix rest data" for minimum maximum rest
    using parseQuantifier_suffix that by (rule suffix_order.trans)
  show ?thesis
    using b
    by (auto simp: parse_token_def single_def parseParenthesesEnd_def split: option.splits prod.splits
        dest!: parseEscape_suffix cl braces_suffix intro: q)
qed

section \<open>Parsing a pattern\<close>

function parseTokens :: "u32 \<Rightarrow> bool \<Rightarrow> u32 \<Rightarrow> nat list \<Rightarrow> yarr_event list \<times> ErrorCode" where
  "parseTokens limit lastTokenWasAnAtom depth [] = ([], if 0 < depth then MissingParentheses else NoError)"
| "parseTokens limit lastTokenWasAnAtom depth (c # data) =
     (let t = parse_token limit lastTokenWasAnAtom depth c data
      in if tk_err t \<noteq> NoError then (tk_events t, tk_err t)
         else
           let (events, err) = parseTokens limit (tk_atom t) (tk_depth t) (tk_rest t)
           in (tk_events t @ events, err))"
  by pat_completeness auto
termination
  by (relation "measure (\<lambda>(_, _, _, data). length data)") (auto intro: suffix_less parse_token_suffix)

text \<open>\<open>MAX_PATTERN_SIZE\<close> is \<open>1024 * 1024\<close>. The result is the error, of which only whether there is one is used.\<close>

definition Yarr_parse :: "u32 \<Rightarrow> nat list \<Rightarrow> yarr_event list \<times> ErrorCode" where
  "Yarr_parse limit pattern =
     (if int (length pattern) > 1024 * 1024 then ([], PatternTooLarge) else parseTokens limit False 0 pattern)"

fun error_text :: "ErrorCode \<Rightarrow> string option" where
  "error_text NoError = None"
| "error_text PatternTooLarge = Some ''Invalid regular expression: regular expression too large''"
| "error_text QuantifierOutOfOrder = Some ''Invalid regular expression: numbers out of order in {} quantifier''"
| "error_text QuantifierWithoutAtom = Some ''Invalid regular expression: nothing to repeat''"
| "error_text QuantifierTooLarge = Some ''Invalid regular expression: number too large in {} quantifier''"
| "error_text MissingParentheses = Some ''Invalid regular expression: missing )''"
| "error_text ParenthesesUnmatched = Some ''Invalid regular expression: unmatched parentheses''"
| "error_text ParenthesesTypeInvalid = Some ''Invalid regular expression: unrecognized character after (?''"
| "error_text CharacterClassUnmatched = Some ''Invalid regular expression: missing terminating ] for character class''"
| "error_text CharacterClassOutOfOrder = Some ''Invalid regular expression: range out of order in character class''"
| "error_text EscapeUnterminated = Some (''Invalid regular expression: '' @ [CHR 0x5C] @ '' at end of pattern'')"

text \<open>What the URL filter parser passes as its argument \<open>yarr\<close>.\<close>

definition yarr :: "nat list \<Rightarrow> yarr_event list \<times> bool" where
  "yarr pattern = (let (events, err) = Yarr_parse 0 pattern in (events, error_text err \<noteq> None))"

end
