(* ===== verification/Yarr_Print.thy ===== *)
theory Yarr_Print
  imports Yarr_Parser CE_Filter_Sem
begin

text \<open>
  A printer for the regular expressions of URL filters, and the proof that the Yarr parser reads what
  it prints: the calls of the delegate are the events of the expression.
\<close>

section \<open>Printing\<close>

definition specials :: "nat list" where
  "specials = [124, 40, 41, 94, 36, 46, 91, 92, 42, 43, 63, 123]"

definition print_char :: "nat \<Rightarrow> nat list" where
  "print_char c = (if c \<in> set specials then [92, c] else [c])"

definition print_class_char :: "nat \<Rightarrow> nat list" where
  "print_class_char c = (if c \<in> {92, 93, 94, 45} then [92, c] else [c])"

fun print_item :: "class_item \<Rightarrow> nat list" where
  "print_item (ItemAtom a) = print_class_char a"
| "print_item (ItemRange a b) = print_class_char a @ [45] @ print_class_char b"

fun print_quant :: "AtomQuantifier \<Rightarrow> nat list" where
  "print_quant One = []"
| "print_quant ZeroOrOne = [63]"
| "print_quant ZeroOrMore = [42]"
| "print_quant OneOrMore = [43]"

primrec print_rx :: "rx \<Rightarrow> nat list" and print_rxq :: "rxq \<Rightarrow> nat list" where
  "print_rx (RxChar c) = print_char c"
| "print_rx RxAny = [46]"
| "print_rx (RxClass inverted items) = [91] @ (if inverted then [94] else []) @ concat (map print_item items) @ [93]"
| "print_rx (RxGroup ps) = [40] @ concat (map print_rxq ps) @ [41]"
| "print_rxq (RxQ r q) = print_rx r @ print_quant q"

definition print_filter :: "url_filter \<Rightarrow> nat list" where
  "print_filter f = (if rx_anchored f then [94] else []) @ concat (map print_rxq (rx_pieces f)) @ (if rx_eol f then [36] else [])"

section \<open>Reading tokens\<close>

text \<open>
  The parser reads \<open>s\<close> as \<open>es\<close> and goes on behind it, whatever comes there but a question mark, which
  would belong to the quantifier before it.
\<close>

definition no_question :: "nat list \<Rightarrow> bool" where
  "no_question data \<longleftrightarrow> data = [] \<or> hd data \<noteq> 63"

definition reads :: "nat list \<Rightarrow> yarr_event list \<Rightarrow> bool" where
  "reads s es \<longleftrightarrow> (\<forall>atom (depth :: u32) data. no_question data \<and> unat depth + length (s @ data) < 4294967296 \<longrightarrow>
     (\<exists>atom'. parseTokens 0 atom depth (s @ data) =
        (let (events, err) = parseTokens 0 atom' depth data in (es @ events, err))))"

text \<open>An atom leaves the state in which it can be quantified, and a question mark may follow.\<close>

definition reads_atom :: "nat list \<Rightarrow> yarr_event list \<Rightarrow> bool" where
  "reads_atom s es \<longleftrightarrow> (\<forall>atom (depth :: u32) data. unat depth + length (s @ data) < 4294967296 \<longrightarrow>
     parseTokens 0 atom depth (s @ data) =
        (let (events, err) = parseTokens 0 True depth data in (es @ events, err)))"

lemma reads_atom_reads: "reads_atom s es \<Longrightarrow> reads s es"
  by (auto simp: reads_atom_def reads_def)

lemma no_question_simps [simp]:
  "no_question []" "no_question (c # data) \<longleftrightarrow> c \<noteq> 63"
  "no_question (s @ data) \<longleftrightarrow> (if s = [] then no_question data else no_question s)"
  by (auto simp: no_question_def)

lemma parseTokens_step:
  assumes "parse_token limit atom depth c data = t" "tk_err t = NoError"
  shows "parseTokens limit atom depth (c # data) =
     (let (events, err) = parseTokens limit (tk_atom t) (tk_depth t) (tk_rest t) in (tk_events t @ events, err))"
  using assms by (simp add: Let_def)

declare parseTokens.simps(2) [simp del]
declare class_loop.simps(2) [simp del]

lemma uchar_ascii [simp]: "c < 128 \<Longrightarrow> uchar c = c"
  by (simp add: uchar_def)

lemma reads_single:
  assumes "\<And>atom depth data. parse_token 0 atom depth c (s @ data) = single e depth data a"
  shows "reads (c # s) [e]" "a \<Longrightarrow> reads_atom (c # s) [e]"
proof -
  have *: "parseTokens 0 atom depth ((c # s) @ data) =
      (let (events, err) = parseTokens 0 a depth data in ([e] @ events, err))" for atom depth data
    using parseTokens_step [OF assms [of atom depth data]] by (simp add: single_def)
  show "reads (c # s) [e]" unfolding reads_def * by blast
  show "reads_atom (c # s) [e]" if a using that unfolding reads_atom_def * by simp
qed

lemma reads_Nil: "reads [] []"
  by (auto simp: reads_def)

lemma reads_append:
  assumes "reads s es" "reads t fs" "no_question t"
  shows "reads (s @ t) (es @ fs)"
  unfolding reads_def
proof (intro allI impI)
  fix atom and depth :: u32 and data
  assume d: "no_question data \<and> unat depth + length ((s @ t) @ data) < 4294967296"
  then have "no_question (t @ data) \<and> unat depth + length (s @ (t @ data)) < 4294967296" using assms(3) by auto
  with assms(1) obtain a1 where a1: "parseTokens 0 atom depth (s @ (t @ data)) =
      (let (events, err) = parseTokens 0 a1 depth (t @ data) in (es @ events, err))"
    unfolding reads_def by blast
  from d have "no_question data \<and> unat depth + length (t @ data) < 4294967296" by auto
  with assms(2) obtain a2 where "parseTokens 0 a1 depth (t @ data) =
      (let (events, err) = parseTokens 0 a2 depth data in (fs @ events, err))"
    unfolding reads_def by blast
  with a1 show "\<exists>atom'. parseTokens 0 atom depth ((s @ t) @ data) =
      (let (events, err) = parseTokens 0 atom' depth data in ((es @ fs) @ events, err))"
    by (intro exI [of _ a2]) (simp add: case_prod_beta)
qed

section \<open>Characters\<close>

lemma parseEscape_identity:
  assumes "c \<in> set (specials @ [93, 45])"
  shows "parseEscape inClass 0 (c # data) = Some (EscapeCharacter c, True, data)"
proof -
  from assms have "c \<in> {124, 40, 41, 94, 36, 46, 91, 92, 42, 43, 63, 123, 93, 45}" by (simp add: specials_def)
  then show ?thesis by (elim insertE emptyE) (simp_all add: parseEscape_def)
qed

lemma reads_char:
  assumes "0 < c" "c < 128"
  shows "reads_atom (print_char c) [AtomPatternCharacter c]"
proof (cases "c \<in> set specials")
  case True
  then have "reads_atom (92 # [c]) [AtomPatternCharacter c]"
    by (intro reads_single(2) [where a = True]) (simp_all add: parse_token_def parseEscape_identity)
  then show ?thesis using True by (simp add: print_char_def)
next
  case False
  then have "reads_atom (c # []) [AtomPatternCharacter c]"
    using assms by (intro reads_single(2) [where a = True]) (simp_all add: parse_token_def specials_def)
  then show ?thesis using False by (simp add: print_char_def)
qed

lemma print_char_start: "print_char c \<noteq> []" "no_question (print_char c)"
  by (auto simp: print_char_def specials_def)

section \<open>Character classes\<close>

text \<open>A character of a class is put in as if it came from an escape, so its hyphen is no range.\<close>

lemma class_loop_char:
  assumes "0 < c" "c < 128" "class_atomPatternCharacter c False d = (es, NoError, d')"
  shows "class_loop 0 (print_class_char c @ data) d events = class_loop 0 data d' (events @ es)"
proof (cases "c \<in> {92, 93, 94, 45}")
  case True
  then have "parseEscape True 0 (c # data) = Some (EscapeCharacter c, True, data)"
    by (intro parseEscape_identity) (auto simp: specials_def)
  then show ?thesis using True assms(3) by (auto simp: print_class_char_def class_loop.simps(2) class_escape_def)
next
  case False
  then have "class_atomPatternCharacter (uchar c) True d = (es, NoError, d')"
    using assms by (auto simp: class_atomPatternCharacter_def split: CharacterClassConstructionState.splits)
  then show ?thesis using False by (auto simp: print_class_char_def class_loop.simps(2))
qed

definition cached :: "CharacterClassParserDelegate \<Rightarrow> yarr_event list" where
  "cached d = (if m_state d = CachedCharacter then [AtomCharacterClassAtom (m_character d)] else [])"

lemma class_loop_item:
  assumes "valid_item i" "m_state d \<in> {Empty, CachedCharacter}"
  shows "\<exists>es d'. class_loop 0 (print_item i @ data) d events = class_loop 0 data d' (events @ es) \<and>
     m_state d' \<in> {Empty, CachedCharacter} \<and> es @ cached d' = cached d @ [item_event i]"
proof (cases i)
  case (ItemAtom a)
  from assms(2) have "class_atomPatternCharacter a False d = (cached d, NoError, d\<lparr>m_character := a, m_state := CachedCharacter\<rparr>)"
    by (auto simp: class_atomPatternCharacter_def cached_def)
  from class_loop_char [OF _ _ this] assms(1) ItemAtom show ?thesis
    by (intro exI [of _ "cached d"] exI [of _ "d\<lparr>m_character := a, m_state := CachedCharacter\<rparr>"]) (auto simp: cached_def)
next
  case (ItemRange a b)
  let ?d1 = "d\<lparr>m_character := a, m_state := CachedCharacter\<rparr>"
  let ?d2 = "d\<lparr>m_character := a, m_state := CachedCharacterHyphen\<rparr>"
  let ?d3 = "d\<lparr>m_character := a, m_state := Empty\<rparr>"
  from assms(2) have 1: "class_atomPatternCharacter a False d = (cached d, NoError, ?d1)"
    by (auto simp: class_atomPatternCharacter_def cached_def)
  have 2: "class_loop 0 (45 # rest) ?d1 evs = class_loop 0 rest ?d2 evs" for rest evs
    by (simp add: class_loop.simps(2) class_atomPatternCharacter_def)
  have 3: "class_atomPatternCharacter b False ?d2 = ([AtomCharacterClassRange a b], NoError, ?d3)"
    using assms(1) ItemRange by (simp add: class_atomPatternCharacter_def)
  have "class_loop 0 (print_item i @ data) d events = class_loop 0 data ?d3 (events @ cached d @ [item_event i])"
    using class_loop_char [OF _ _ 1] class_loop_char [OF _ _ 3] 2 assms(1) ItemRange by simp
  then show ?thesis by (intro exI [of _ "cached d @ [item_event i]"] exI [of _ ?d3]) (auto simp: cached_def)
qed

lemma class_loop_items:
  "list_all valid_item items \<Longrightarrow> m_state d \<in> {Empty, CachedCharacter} \<Longrightarrow>
   class_loop 0 (concat (map print_item items) @ 93 # data) d events =
     (events @ cached d @ map item_event items @ [AtomCharacterClassEnd], NoError, data)"
proof (induction items arbitrary: d events)
  case Nil
  then show ?case by (auto simp: class_loop.simps(2) class_end_def cached_def)
next
  case (Cons i items)
  from class_loop_item [of i d "concat (map print_item items) @ 93 # data" events] Cons.prems
  obtain es d' where 1: "class_loop 0 (print_item i @ concat (map print_item items) @ 93 # data) d events =
      class_loop 0 (concat (map print_item items) @ 93 # data) d' (events @ es)"
    "m_state d' \<in> {Empty, CachedCharacter}" "es @ cached d' = cached d @ [item_event i]"
    by auto
  have "class_loop 0 (concat (map print_item items) @ 93 # data) d' (events @ es) =
      (events @ (es @ cached d') @ map item_event items @ [AtomCharacterClassEnd], NoError, data)"
    using Cons.IH [OF _ 1(2)] Cons.prems(1) by simp
  then show ?case using 1(1) unfolding 1(3) by simp
qed

lemma print_item_start: "print_item i = c # s \<Longrightarrow> c \<noteq> 94"
  by (cases i) (auto simp: print_class_char_def split: if_splits)

lemma parseCharacterClass_items:
  assumes "list_all valid_item items"
  shows "parseCharacterClass 0 ((if inverted then [94] else []) @ concat (map print_item items) @ 93 # data) =
    (AtomCharacterClassBegin inverted # map item_event items @ [AtomCharacterClassEnd], NoError, data)"
proof -
  have l: "class_loop 0 (concat (map print_item items) @ 93 # data) new_CharacterClassParserDelegate events =
      (events @ map item_event items @ [AtomCharacterClassEnd], NoError, data)" for events
    using class_loop_items [OF assms, of new_CharacterClassParserDelegate]
    by (simp add: new_CharacterClassParserDelegate_def cached_def)
  obtain c s where s: "concat (map print_item items) @ 93 # data = c # s" "c \<noteq> 94"
  proof (cases items)
    case (Cons i is')
    have "print_item i \<noteq> []" by (cases i) (auto simp: print_class_char_def)
    then obtain c s where "print_item i = c # s" by (cases "print_item i") auto
    with that Cons print_item_start show ?thesis by fastforce
  qed (use that in auto)
  have "tryConsume 94 (c # s) = (False, c # s)" using s(2) by (simp add: tryConsume_def)
  then have "tryConsume 94 (concat (map print_item items) @ 93 # data) = (False, concat (map print_item items) @ 93 # data)"
    unfolding s(1) .
  then show ?thesis using l by (cases inverted) (auto simp: parseCharacterClass_def tryConsume_def)
qed

section \<open>Pieces\<close>

lemma reads_class:
  assumes "list_all valid_item items"
  shows "reads_atom (print_rx (RxClass inverted items)) (rx_events (RxClass inverted items))"
  unfolding reads_atom_def
proof (intro allI impI)
  fix atom and depth :: u32 and data
  have "parse_token 0 atom depth 91 ((if inverted then [94] else []) @ concat (map print_item items) @ 93 # data) =
      \<lparr>tk_events = rx_events (RxClass inverted items), tk_err = NoError, tk_rest = data, tk_depth = depth, tk_atom = True\<rparr>"
    using parseCharacterClass_items [OF assms, of inverted data] by (simp add: parse_token_def)
  from parseTokens_step [OF this] show "parseTokens 0 atom depth (print_rx (RxClass inverted items) @ data) =
      (let (events, err) = parseTokens 0 True depth data in (rx_events (RxClass inverted items) @ events, err))"
    by (simp del: rx_events.simps)
qed

lemma reads_group:
  assumes "reads s es" "s \<noteq> []" "no_question s"
  shows "reads_atom ([40] @ s @ [41]) (AtomParenthesesSubpatternBegin True # es @ [AtomParenthesesEnd])"
  unfolding reads_atom_def
proof (intro allI impI)
  fix atom and depth :: u32 and data
  assume d: "unat depth + length (([40] @ s @ [41]) @ data) < 4294967296"
  then have "unat depth + 1 < 4294967296" by simp
  then have depth: "unat (depth + 1) = unat depth + 1" by (simp add: unat_word_ariths)
  have "tryConsume 63 (s @ 41 # data) = (False, s @ 41 # data)"
    using assms(2,3) by (cases s) (auto simp: tryConsume_def)
  then have "parse_token 0 atom depth 40 (s @ 41 # data) =
      \<lparr>tk_events = [AtomParenthesesSubpatternBegin True], tk_err = NoError, tk_rest = s @ 41 # data, tk_depth = depth + 1, tk_atom = False\<rparr>"
    by (simp add: parse_token_def parseParenthesesBegin_def)
  from parseTokens_step [OF this]
  have 1: "parseTokens 0 atom depth (([40] @ s @ [41]) @ data) =
      (let (events, err) = parseTokens 0 False (depth + 1) (s @ 41 # data) in (AtomParenthesesSubpatternBegin True # events, err))"
    by simp
  have "no_question (41 # data) \<and> unat (depth + 1) + length (s @ 41 # data) < 4294967296" using d by (simp add: depth)
  with assms(1) obtain a1 where 2: "parseTokens 0 False (depth + 1) (s @ 41 # data) =
      (let (events, err) = parseTokens 0 a1 (depth + 1) (41 # data) in (es @ events, err))"
    unfolding reads_def by blast
  have "0 < depth + 1" using depth by (simp add: word_less_nat_alt)
  then have "parse_token 0 a1 (depth + 1) 41 data =
      \<lparr>tk_events = [AtomParenthesesEnd], tk_err = NoError, tk_rest = data, tk_depth = depth, tk_atom = True\<rparr>"
    by (simp add: parse_token_def parseParenthesesEnd_def)
  from parseTokens_step [OF this] 1 2 show "parseTokens 0 atom depth (([40] @ s @ [41]) @ data) =
      (let (events, err) = parseTokens 0 True depth data
       in ((AtomParenthesesSubpatternBegin True # es @ [AtomParenthesesEnd]) @ events, err))"
    by (simp add: case_prod_beta)
qed

text \<open>The question mark that is not there would make the quantifier reluctant.\<close>

lemma reads_quantified:
  assumes "reads_atom s es"
  shows "reads (s @ print_quant q) (es @ quant_events q)"
  unfolding reads_def
proof (intro allI impI)
  fix atom and depth :: u32 and data
  assume d: "no_question data \<and> unat depth + length ((s @ print_quant q) @ data) < 4294967296"
  then have s: "parseTokens 0 atom depth (s @ print_quant q @ data) =
      (let (events, err) = parseTokens 0 True depth (print_quant q @ data) in (es @ events, err))"
    using assms by (simp add: reads_atom_def)
  have "tryConsume 63 data = (False, data)" using d by (cases data) (auto simp: tryConsume_def)
  then have q: "parse_token 0 True depth c data =
      \<lparr>tk_events = [QuantifyAtom minimum maximum True], tk_err = NoError, tk_rest = data, tk_depth = depth, tk_atom = False\<rparr>"
    if "(c, minimum, maximum) \<in> {(63, 0, 1), (42, 0, quantifyInfinite), (43, 1, quantifyInfinite)}" for c minimum maximum
    using that by (auto simp: parse_token_def parseQuantifier_def)
  have "\<exists>a. parseTokens 0 True depth (print_quant q @ data) =
      (let (events, err) = parseTokens 0 a depth data in (quant_events q @ events, err))"
  proof (cases q)
    case One
    then show ?thesis by auto
  next
    case ZeroOrOne
    with parseTokens_step [OF q [of 63 0 1]] show ?thesis by (intro exI [of _ False]) simp
  next
    case ZeroOrMore
    with parseTokens_step [OF q [of 42 0 quantifyInfinite]] show ?thesis by (intro exI [of _ False]) simp
  next
    case OneOrMore
    with parseTokens_step [OF q [of 43 1 quantifyInfinite]] show ?thesis by (intro exI [of _ False]) simp
  qed
  with s show "\<exists>atom'. parseTokens 0 atom depth ((s @ print_quant q) @ data) =
      (let (events, err) = parseTokens 0 atom' depth data in ((es @ quant_events q) @ events, err))"
    by (simp add: case_prod_beta) (metis fst_conv snd_conv)
qed

lemma print_rx_start: "valid_rx r \<Longrightarrow> print_rx r \<noteq> []" "no_question (print_rx r)"
  using print_char_start by (cases r; simp)+

lemma print_rxq_start: "valid_rxq p \<Longrightarrow> print_rxq p \<noteq> []" "valid_rxq p \<Longrightarrow> no_question (print_rxq p)"
  using print_rx_start by (cases p; simp)+

lemma reads_pieces:
  assumes "\<And>p. p \<in> set ps \<Longrightarrow> reads (print_rxq p) (rxq_events p)" "list_all valid_rxq ps"
  shows "reads (concat (map print_rxq ps)) (concat (map rxq_events ps)) \<and> no_question (concat (map print_rxq ps)) \<and>
     (ps \<noteq> [] \<longrightarrow> concat (map print_rxq ps) \<noteq> [])"
  using assms by (induction ps) (auto simp: reads_Nil print_rxq_start intro: reads_append)

lemma reads_rx:
  "valid_rx r \<Longrightarrow> reads_atom (print_rx r) (rx_events r)"
  "valid_rxq p \<Longrightarrow> reads (print_rxq p) (rxq_events p)"
proof (induction r and p)
  case (RxChar c)
  then show ?case by (simp add: reads_char)
next
  case RxAny
  have "reads_atom (46 # []) [AtomBuiltInCharacterClass NewlineClassID True]"
    by (intro reads_single(2) [where a = True]) (simp_all add: parse_token_def)
  then show ?case by simp
next
  case (RxClass inverted items)
  then show ?case using reads_class by auto
next
  case (RxGroup ps)
  then have l: "list_all valid_rxq ps" "ps \<noteq> []" by (simp_all add: list_all_id_map)
  with RxGroup.IH have "p \<in> set ps \<Longrightarrow> reads (print_rxq p) (rxq_events p)" for p by (simp add: list_all_iff)
  from reads_pieces [OF this l(1)] l(2) show ?case using reads_group by simp
next
  case (RxQ r q)
  then show ?case using reads_quantified by simp
qed

lemma print_ascii:
  "valid_rx r \<Longrightarrow> list_all isASCII (print_rx r)"
  "valid_rxq p \<Longrightarrow> list_all isASCII (print_rxq p)"
proof (induction r and p)
  case (RxClass inverted items)
  have "valid_item i \<Longrightarrow> list_all isASCII (print_item i)" for i
    by (cases i) (auto simp: print_class_char_def isASCII_def)
  with RxClass show ?case by (fastforce simp: list_all_iff isASCII_def)
next
  case (RxQ r q)
  then show ?case by (cases q) (auto simp: isASCII_def)
qed (auto simp: print_char_def specials_def isASCII_def list_all_iff)

section \<open>Filters\<close>

lemma parse_printed:
  assumes "valid_filter f" "length (print_filter f) < 4294967296"
  shows "parseTokens 0 False 0 (print_filter f) = (filter_events f, NoError)"
proof -
  let ?ps = "rx_pieces f"
  have "list_all valid_rxq ?ps" using assms(1) by (simp add: valid_filter_def)
  then have ps: "reads (concat (map print_rxq ?ps)) (concat (map rxq_events ?ps))" "no_question (concat (map print_rxq ?ps))"
    using reads_pieces [of ?ps] reads_rx(2) by (auto simp: list_all_iff)
  have 1: "reads (94 # []) [AssertionBOL]"
    by (rule reads_single(1) [where a = False]) (simp add: parse_token_def)
  have 2: "reads (36 # []) [AssertionEOL]"
    by (rule reads_single(1) [where a = False]) (simp add: parse_token_def)
  have e: "reads (if rx_eol f then [36] else []) (if rx_eol f then [AssertionEOL] else [])" "no_question (if rx_eol f then [36] else [])"
    using 2 reads_Nil by auto
  have s: "reads (if rx_anchored f then [94] else []) (if rx_anchored f then [AssertionBOL] else [])"
    using 1 reads_Nil by auto
  have "reads (print_filter f) (filter_events f)"
    unfolding print_filter_def filter_events_def using e ps by (intro reads_append s) auto
  then obtain a where "parseTokens 0 False 0 (print_filter f @ []) =
      (let (events, err) = parseTokens 0 a 0 [] in (filter_events f @ events, err))"
    unfolding reads_def using assms(2) by (metis append_Nil2 add_0 no_question_simps(1) unsigned_0)
  then show ?thesis by simp
qed

lemma yarr_printed:
  assumes "valid_filter f" "int (length (print_filter f)) \<le> 1024 * 1024"
  shows "yarr (print_filter f) = (filter_events f, False)"
  using parse_printed [OF assms(1)] assms(2) by (simp add: yarr_def Yarr_parse_def)

lemma printed_facts:
  assumes "valid_filter f"
  shows "list_all isASCII (print_filter f)" "print_filter f \<noteq> []"
proof -
  have v: "list_all valid_rxq (rx_pieces f)" using assms by (simp add: valid_filter_def)
  then show "list_all isASCII (print_filter f)"
    using print_ascii by (auto simp: print_filter_def list_all_iff isASCII_def)
  show "print_filter f \<noteq> []"
    using assms print_rxq_start(1) by (cases "rx_pieces f") (auto simp: print_filter_def valid_filter_def)
qed

end
