(* ===== verification/CE_Rules_Correct.thy ===== *)
theory CE_Rules_Correct
  imports CE_Compile_Correct CE_Serialize Yarr_Print
begin

text \<open>
  From rules to triggered actions: for rules with supported filters, what the compiler collects, and
  what the bytecode triggers on a URL, are the actions of the rules whose filter matches.
\<close>

section \<open>Rules with supported filters\<close>

definition rule_reads :: "url_filter \<Rightarrow> ContentExtensionRule \<Rightarrow> bool" where
  "rule_reads f rule \<longleftrightarrow> characters (urlFilter (m_trigger rule)) = print_filter f \<and> valid_filter f \<and> \<not> rx_eol f \<and>
     int (length (print_filter f)) \<le> 1024 * 1024"

definition rule_matches :: "url_filter \<Rightarrow> ContentExtensionRule \<Rightarrow> nat list \<Rightarrow> bool" where
  "rule_matches f rule url \<longleftrightarrow> filter_hits (rx_anchored f) (filter_lang (urlFilterIsCaseSensitive (m_trigger rule)) f) url"

text \<open>The rules that match, and the actions they stand for.\<close>

definition matching :: "(url_filter \<times> ContentExtensionRule \<times> u32) list \<Rightarrow> nat list \<Rightarrow> (ContentExtensionRule \<times> u32) set" where
  "matching rs url = {(rule, loc). \<exists>f. (f, rule, loc) \<in> set rs \<and> rule_matches f rule url}"

abbreviation action_of :: "ContentExtensionRule \<times> u32 \<Rightarrow> u64" where
  "action_of \<equiv> \<lambda>(rule, loc). actionLocationAndFlags (m_trigger rule) loc"

definition collected :: "filter_state \<Rightarrow> nat list \<Rightarrow> u64 set" where
  "collected st url = set (universal_locations st) \<union> triggers (vertex_meaning (combinedURLFilters st)) url"

definition good_state :: "filter_state \<Rightarrow> bool" where
  "good_state st \<longleftrightarrow> good_tree (combinedURLFilters st) \<and> (\<forall>a. ([], a) \<notin> vertex_meaning (combinedURLFilters st))"

section \<open>One rule\<close>

lemma printed_filter_added:
  assumes "valid_filter f" "int (length (print_filter f)) \<le> 1024 * 1024" "good_tree tree" "\<forall>a. ([], a) \<notin> vertex_meaning tree" "\<not> rx_eol f"
  shows "(\<exists>tree'. addURLFilter yarr (print_filter f) cased a tree = Some (Ok, tree') \<and> good_tree tree' \<and>
       (\<forall>a. ([], a) \<notin> vertex_meaning tree') \<and>
       (\<forall>url. 0 \<notin> set url \<longrightarrow> triggers (vertex_meaning tree') url =
          triggers (vertex_meaning tree) url \<union> (if filter_hits (rx_anchored f) (filter_lang cased f) url then {a} else {}))) \<or>
     addURLFilter yarr (print_filter f) cased a tree = Some (MatchesEverything, tree) \<and>
       (\<forall>url. 0 \<notin> set url \<longrightarrow> filter_hits (rx_anchored f) (filter_lang cased f) url)"
proof -
  note P = assms(1) yarr_printed [OF assms(1,2)] printed_facts [OF assms(1)]
  obtain ts where ts: "addURLFilter yarr (print_filter f) cased a tree =
       Some (if list_ex matchesAtLeastOneCharacter ts then (Ok, addPattern a ts tree) else (MatchesEverything, tree))"
     "list_all proper_term ts"
     "\<forall>url. 0 \<notin> set url \<longrightarrow> hits (terms_lang ts) url = filter_hits (rx_anchored f) (filter_lang cased f) url"
    using addURLFilter_run [where yarr = yarr and pattern = "print_filter f" and cased = cased and a = a and tree = tree, OF P] by blast
  show ?thesis
  proof (cases "list_ex matchesAtLeastOneCharacter ts")
    case True
    note g = addPattern_good [OF assms(3) list_ex_not_Nil [OF True] ts(2), of a]
    have "[] \<notin> terms_lang ts" using True at_least_one_lang Nil_terms_lang by (auto simp: list_ex_iff)
    then have "\<forall>b. ([], b) \<notin> vertex_meaning (addPattern a ts tree)" using assms(4) by (auto simp: g(2) pattern_pairs_def)
    with True g ts(1,3) show ?thesis by (auto simp: triggers_Un triggers_pattern)
  next
    case False
    then have "addURLFilter yarr (print_filter f) cased a tree = Some (MatchesEverything, tree)" using ts(1) by simp
    with matches_everything_exact [where yarr = yarr and pattern = "print_filter f" and cased = cased and a = a and tree = tree, OF P assms(5)]
    show ?thesis by blast
  qed
qed

lemma add_rule_correct:
  assumes r: "rule_reads f rule" and good: "good_state st"
  shows "(\<exists>st'. add_rule yarr (rule, loc) st = Some (Inr st') \<and> good_state st' \<and>
       (\<forall>url. 0 \<notin> set url \<longrightarrow> collected st' url = collected st url \<union> action_of ` matching [(f, rule, loc)] url)) \<or>
     add_rule yarr (rule, loc) st = Some (Inl RegexMatchesEverythingAfterIgnorePreviousRules)"
proof -
  let ?cased = "urlFilterIsCaseSensitive (m_trigger rule)" and ?a = "actionLocationAndFlags (m_trigger rule) loc"
  have f: "valid_filter f" "int (length (print_filter f)) \<le> 1024 * 1024" "\<not> rx_eol f" "characters (urlFilter (m_trigger rule)) = print_filter f"
    using r by (simp_all add: rule_reads_def)
  have t: "good_tree (combinedURLFilters st)" "\<forall>a. ([], a) \<notin> vertex_meaning (combinedURLFilters st)"
    using good by (simp_all add: good_state_def)
  have hit: "action_of ` matching [(f, rule, loc)] url = (if filter_hits (rx_anchored f) (filter_lang ?cased f) url then {?a} else {})" for url
    by (auto simp: matching_def rule_matches_def)
  from printed_filter_added [OF f(1,2) t f(3), of ?cased ?a] show ?thesis
  proof (elim disjE exE conjE)
    fix tree' assume a: "addURLFilter yarr (print_filter f) ?cased ?a (combinedURLFilters st) = Some (Ok, tree')" "good_tree tree'"
      "\<forall>a. ([], a) \<notin> vertex_meaning tree'"
      "\<forall>url. 0 \<notin> set url \<longrightarrow> triggers (vertex_meaning tree') url =
          triggers (vertex_meaning (combinedURLFilters st)) url \<union> (if filter_hits (rx_anchored f) (filter_lang ?cased f) url then {?a} else {})"
    let ?st = "st\<lparr>combinedURLFilters := tree', ignorePreviousRulesSeen := (ignorePreviousRulesSeen st \<or> m_type (m_action rule) = IgnorePreviousRules)\<rparr>"
    have "add_rule yarr (rule, loc) st = Some (Inr ?st)" using a(1) by (simp add: add_rule_def f(4) Let_def)
    moreover have "good_state ?st" using a(2,3) by (simp add: good_state_def)
    moreover have "\<forall>url. 0 \<notin> set url \<longrightarrow> collected ?st url = collected st url \<union> action_of ` matching [(f, rule, loc)] url"
      using a(4) by (simp add: collected_def hit Un_assoc)
    ultimately show ?thesis by blast
  next
    assume "addURLFilter yarr (print_filter f) ?cased ?a (combinedURLFilters st) = Some (MatchesEverything, combinedURLFilters st)"
      "\<forall>url. 0 \<notin> set url \<longrightarrow> filter_hits (rx_anchored f) (filter_lang ?cased f) url"
    then show ?thesis
      using t by (auto simp: add_rule_def f(4) good_state_def collected_def hit Let_def)
  qed
qed

lemma matching_Cons: "matching ((f, rule, loc) # rs) url = matching [(f, rule, loc)] url \<union> matching rs url"
  by (auto simp: matching_def)

lemma add_rules_correct:
  "list_all2 rule_reads fs rules \<Longrightarrow> length locs = length rules \<Longrightarrow> good_state st \<Longrightarrow>
     (\<exists>st'. add_rules yarr (zip rules locs) st = Some (Inr st') \<and> good_state st' \<and>
       (\<forall>url. 0 \<notin> set url \<longrightarrow> collected st' url = collected st url \<union> action_of ` matching (zip fs (zip rules locs)) url)) \<or>
     add_rules yarr (zip rules locs) st = Some (Inl RegexMatchesEverythingAfterIgnorePreviousRules)"
proof (induction fs rules arbitrary: locs st rule: list_all2_induct)
  case Nil
  then show ?case by (simp add: matching_def)
next
  case (Cons f fs rule rules)
  obtain loc ls where locs: "locs = loc # ls" "length ls = length rules" using Cons.prems(1) by (cases locs) auto
  from add_rule_correct [OF Cons.hyps(1) Cons.prems(2), of loc] show ?case
  proof (elim disjE exE conjE)
    fix st1 assume st1: "add_rule yarr (rule, loc) st = Some (Inr st1)" "good_state st1"
      "\<forall>url. 0 \<notin> set url \<longrightarrow> collected st1 url = collected st url \<union> action_of ` matching [(f, rule, loc)] url"
    have "add_rules yarr (zip (rule # rules) locs) st = add_rules yarr (zip rules ls) st1" using st1(1) by (simp add: locs(1))
    moreover have "matching (zip (f # fs) (zip (rule # rules) locs)) url = matching [(f, rule, loc)] url \<union> matching (zip fs (zip rules ls)) url" for url
      unfolding locs(1) by (simp add: matching_Cons [symmetric])
    ultimately show ?thesis using Cons.IH [OF locs(2) st1(2)] st1(3) by (simp add: image_Un Un_assoc)
  qed (simp add: locs(1))
qed

section \<open>Flags\<close>

text \<open>A rule without flags is for every request, one with flags for those with one of its flags.\<close>

definition rule_applies :: "ResourceFlags \<Rightarrow> ContentExtensionRule \<Rightarrow> bool" where
  "rule_applies flags rule \<longleftrightarrow> trigger_flags (m_trigger rule) = 0 \<or> flags AND trigger_flags (m_trigger rule) \<noteq> 0"

lemma action_parts:
  "location (actionLocationAndFlags t loc) = ucast loc"
  "passes flags (actionLocationAndFlags t loc) \<longleftrightarrow> trigger_flags t = 0 \<or> flags AND trigger_flags t \<noteq> 0"
proof -
  let ?w = "actionLocationAndFlags t loc" and ?f = "trigger_flags t"
  show "location ?w = ucast loc"
    unfolding location_def actionLocationAndFlags_def
    by (rule bit_word_eqI) (auto simp: bit_simps dest: bit_imp_le_length)
  have m: "(0xFFFF00000000 :: u64) = push_bit 32 (mask 16)" by (simp add: mask_eq_exp_minus_1 push_bit_eq_mult)
  have high: "?w AND 0xFFFF00000000 = push_bit 32 (ucast ?f)"
    unfolding m actionLocationAndFlags_def by (rule bit_word_eqI) (auto simp: bit_simps dest: bit_imp_le_length)
  have "ucast (drop_bit 32 (push_bit 32 (ucast ?f :: u64))) = ?f"
    by (rule bit_word_eqI) (auto simp: bit_simps)
  then have zero: "push_bit 32 (ucast ?f :: u64) = 0 \<longleftrightarrow> ?f = 0" by (metis drop_bit_of_0 push_bit_of_0 unsigned_0)
  have "ucast (drop_bit 32 ?w) = ?f"
    unfolding actionLocationAndFlags_def by (rule bit_word_eqI) (auto simp: bit_simps dest: bit_imp_le_length)
  then show "passes flags ?w \<longleftrightarrow> ?f = 0 \<or> flags AND ?f \<noteq> 0" unfolding passes_def high zero by auto
qed

lemma selected_actions:
  "selected flags (action_of ` M) = {ucast loc | rule loc. (rule, loc) \<in> M \<and> rule_applies flags rule}"
  by (force simp: selected_def rule_applies_def action_parts)

section \<open>Rule lists\<close>

lemma serialize_lengths: "serialize_loop previous rules acts locs = Some (acts', locs') \<Longrightarrow> length locs' = length locs + length rules"
proof (induction previous rules acts locs rule: serialize_loop.induct)
  case (2 previous rule rules acts locs)
  have "length (takeWhile (consolidated rule) rules) \<le> length rules" by (rule length_takeWhile_le)
  with 2 show ?case by (auto simp: Let_def split: if_splits)
qed simp

lemma compile_rules_correct:
  assumes reads: "list_all2 rule_reads fs rules" and ser: "serializeActions rules = Some (acts, locs)"
    and w: "\<And>st. add_rules yarr (zip rules locs) new_filter_state = Some (Inr st) \<Longrightarrow> tree_compiles fuel m st" and url: "url_ok url"
  shows "compile_rules fuel m yarr rules = Returned (Inl RegexMatchesEverythingAfterIgnorePreviousRules) \<or>
     (\<exists>bytes N. compile_rules fuel m yarr rules = Returned (Inr \<lparr>writtenActions = acts, writtenBytecode = bytes, finalized = True\<rparr>) \<and>
        (\<forall>n \<ge> N. \<forall>k \<ge> N. \<exists>triggered. DFABytecodeInterpreter_interpret k n bytes url flags = Returned triggered \<and>
           set triggered \<union> set (actionsFromDFARoot bytes) =
             {ucast loc | rule loc. (rule, loc) \<in> matching (zip fs (zip rules locs)) url \<and> rule_applies flags rule}))"
proof -
  have len: "length locs = length rules" using serialize_lengths [of None rules "[]" "[]" acts locs] ser by (simp add: serializeActions_def)
  have new: "good_state new_filter_state" "collected new_filter_state url = {}"
    by (simp_all add: good_state_def collected_def new_filter_state_def good_empty triggers_def hits_def)
  have z: "0 \<notin> set url" using url by (auto simp: url_ok_def list_all_iff)
  from add_rules_correct [OF reads len new(1)] show ?thesis
  proof (elim disjE exE conjE)
    fix st assume st: "add_rules yarr (zip rules locs) new_filter_state = Some (Inr st)" "good_state st"
      "\<forall>url. 0 \<notin> set url \<longrightarrow> collected st url = collected new_filter_state url \<union> action_of ` matching (zip fs (zip rules locs)) url"
    have tree: "proper_vertex (combinedURLFilters st)" "\<forall>a. ([], a) \<notin> vertex_meaning (combinedURLFilters st)"
      using st(2) by (simp_all add: good_state_def good_tree_def)
    have c: "set (universal_locations st) \<union> triggers (vertex_meaning (combinedURLFilters st)) url = action_of ` matching (zip fs (zip rules locs)) url"
      using st(3) z new(2) by (simp add: collected_def)
    obtain bytes N where b: "compile_tree fuel m st (new_client\<lparr>writtenActions := acts\<rparr>) =
        Returned ((new_client\<lparr>writtenActions := acts\<rparr>)\<lparr>writtenBytecode := writtenBytecode (new_client\<lparr>writtenActions := acts\<rparr>) @ bytes, finalized := True\<rparr>)"
      "\<forall>n \<ge> N. \<forall>k \<ge> N. \<exists>acts. DFABytecodeInterpreter_interpret k n bytes url flags = Returned acts \<and>
        set acts \<union> set (actionsFromDFARoot bytes) =
          selected flags (set (universal_locations st) \<union> triggers (vertex_meaning (combinedURLFilters st)) url)"
      using compile_tree_correct [OF tree w [OF st(1)] url, of "new_client\<lparr>writtenActions := acts\<rparr>" flags] by blast
    have "compile_rules fuel m yarr rules = Returned (Inr \<lparr>writtenActions = acts, writtenBytecode = bytes, finalized = True\<rparr>)"
      using ser st(1) b(1) by (simp add: compile_rules_def new_client_def)
    then show ?thesis using b(2) unfolding c selected_actions by blast
  next
    assume "add_rules yarr (zip rules locs) new_filter_state = Some (Inl RegexMatchesEverythingAfterIgnorePreviousRules)"
    then show ?thesis using ser by (simp add: compile_rules_def)
  qed
qed

end
