(* ===== verification/CE_Compile_Props.thy ===== *)
theory CE_Compile_Props
  imports CE_Rules_Correct CE_Minimizer_Props
begin

text \<open>
  The properties of the compiler of rule lists: the serialised actions, what the compiled bytecode
  triggers for a list of rules, and two surprises of its triggers.
\<close>

section \<open>Examples\<close>

definition a_filter :: url_filter where
  "a_filter = \<lparr>rx_anchored = True, rx_pieces = [RxQ (RxChar 97) One], rx_eol = False\<rparr>"

text \<open>A rule of \<open>^a\<close>, for images or for third parties.\<close>

definition a_rule :: ContentExtensionRule where
  "a_rule = \<lparr>m_trigger = \<lparr>urlFilter = WString True [94, 97], urlFilterIsCaseSensitive = True, trigger_flags = 0x0802\<rparr>,
     m_action = new_Action BlockLoad (- 1)\<rparr>"

text \<open>\<open>^a*$\<close>: URLs of nothing but \<open>a\<close>.\<close>

definition only_a_filter :: url_filter where
  "only_a_filter = \<lparr>rx_anchored = True, rx_pieces = [RxQ (RxChar 97) ZeroOrMore], rx_eol = True\<rparr>"

definition only_a_rule :: ContentExtensionRule where
  "only_a_rule = \<lparr>m_trigger = \<lparr>urlFilter = WString True [94, 97, 42, 36], urlFilterIsCaseSensitive = True, trigger_flags = 0\<rparr>,
     m_action = new_Action BlockLoad (- 1)\<rparr>"

lemma a_rule_reads: "list_all2 rule_reads [a_filter] [a_rule]"
  by (simp add: rule_reads_def a_rule_def a_filter_def print_filter_def print_char_def specials_def valid_filter_def)

lemma a_rule_serialized: "serializeActions [a_rule] = Some ([0], [0])"
  by code_simp

lemma nul_distinct_code [code]:
  "nul_distinct d \<longleftrightarrow> list_all (\<lambda>i. list_all (\<lambda>(k, s). k = 0 \<longrightarrow>
     (case fdest d i of Some t \<Rightarrow> dfa_out d s \<noteq> dfa_out d t | None \<Rightarrow> True))
       (node_transitions d (nodes d ! i))) [0..<length (nodes d)]"
proof -
  have a: "(\<forall>s t. (0, s) \<in> set ts \<and> f = Some t \<longrightarrow> P s t) \<longleftrightarrow>
      list_all (\<lambda>(k, s). k = 0 \<longrightarrow> (case f of Some t \<Rightarrow> P s t | None \<Rightarrow> True)) ts" for ts :: "(nat \<times> nat) list" and f and P :: "nat \<Rightarrow> nat \<Rightarrow> bool"
    by (cases f) (auto simp: list_all_iff)
  show ?thesis unfolding nul_distinct_def a by (simp add: list_all_iff [of _ "[0..<_]"] Ball_def)
qed

lemma a_rule_compiles: "case add_rules yarr [(a_rule, 0)] new_filter_state of Some (Inr st) \<Rightarrow> tree_compiles 4 3 st | _ \<Rightarrow> False"
  by code_simp

section \<open>Parsed rules\<close>

definition well_typed :: "ContentExtensionRule \<Rightarrow> bool" where
  "well_typed rule \<longleftrightarrow> string_length (urlFilter (m_trigger rule)) \<noteq> 0 \<and> trigger_flags (m_trigger rule) AND 0xF100 = 0 \<and>
     m_type (m_action rule) \<in> {BlockLoad, BlockCookies, CSSDisplayNoneSelector, IgnorePreviousRules}"

lemma sum_bind_Inr: "sum_bind r f = Inr b \<longleftrightarrow> (\<exists>a. r = Inr a \<and> f a = Inr b)"
  by (cases r) auto

lemma read_masks: "readResourceType name AND 0xF100 = 0" "readLoadType name AND 0xF100 = 0"
  by (simp_all add: readResourceType_def readLoadType_def)

lemma type_flags_mask:
  "(\<And>name. f name AND m = 0) \<Longrightarrow> flags AND m = 0 \<Longrightarrow> type_flags conv f vs flags = Inr flags' \<Longrightarrow> flags' AND m = 0"
  by (induction conv f vs flags rule: type_flags.induct)
    (auto simp: Let_def word_bw_comms bit.conj_disj_distrib split: if_splits)

lemma getTypeFlags_mask:
  assumes "\<And>name. f name AND m = 0" "flags AND m = 0" "getTypeFlags conv v flags f = Inr flags'"
  shows "flags' AND m = 0"
  using assms(2,3) type_flags_mask [OF assms(1,2)] by (auto simp: getTypeFlags_def split: if_splits JSValue.splits)

lemma flags_mask:
  "getTypeFlags conv v 0 readResourceType = Inr flags \<Longrightarrow> flags AND 0xF100 = 0"
  "flags AND 0xF100 = 0 \<Longrightarrow> getTypeFlags conv v flags readLoadType = Inr flags' \<Longrightarrow> flags' AND 0xF100 = 0"
  by (rule getTypeFlags_mask [where f = readResourceType, OF read_masks(1)]; simp)
    (rule getTypeFlags_mask [where f = readLoadType, OF read_masks(2)])

lemma loadTrigger_typed:
  assumes "loadTrigger conv v = Inr trigger"
  shows "string_length (urlFilter trigger) \<noteq> 0 \<and> trigger_flags trigger AND 0xF100 = 0"
proof -
  let ?t = "get_property v ''trigger''"
  obtain url_filter flags flags' where t: "string_length url_filter \<noteq> 0"
    "getTypeFlags conv (get_property ?t ''resource-type'') 0 readResourceType = Inr flags"
    "getTypeFlags conv (get_property ?t ''load-type'') flags readLoadType = Inr flags'"
    "urlFilter trigger = url_filter" "trigger_flags trigger = flags'"
    using assms by (auto simp: loadTrigger_def Let_def sum_bind_Inr split: if_splits JSValue.splits)
  then show ?thesis using flags_mask(2) [OF flags_mask(1) [OF t(2)] t(3)] by simp
qed

lemma loadAction_typed:
  "loadAction v = Inr action \<Longrightarrow> m_type action \<in> {BlockLoad, BlockCookies, CSSDisplayNoneSelector, IgnorePreviousRules}"
  by (auto simp: loadAction_def Let_def new_Action_def new_string_Action_def split: if_splits JSValue.splits)

lemma load_rules_typed:
  "list_all well_typed rules \<Longrightarrow> load_rules conv vs rules = Inr rules' \<Longrightarrow> list_all well_typed rules'"
proof (induction conv vs rules arbitrary: rules' rule: load_rules.induct)
  case (2 conv v vs rules)
  then obtain trigger action where t: "loadTrigger conv v = Inr trigger" "loadAction v = Inr action"
    "load_rules conv vs (rules @ [\<lparr>m_trigger = trigger, m_action = action\<rparr>]) = Inr rules'"
    and n: "\<not> (v = JSNull \<or> v = JSUndefined)"
    by (auto simp: loadRule_def sum_bind_Inr split: if_splits)
  have "well_typed \<lparr>m_trigger = trigger, m_action = action\<rparr>"
    using loadTrigger_typed [OF t(1)] loadAction_typed [OF t(2)] by (simp add: well_typed_def)
  then have "list_all well_typed (rules @ [\<lparr>m_trigger = trigger, m_action = action\<rparr>])" using "2.prems"(1) by simp
  from "2.IH" [OF n this t(3)] show ?case .
qed simp

section \<open>Flags\<close>

lemma flag_bits:
  "resource_type_value r AND resource_type_value s \<noteq> 0 \<longleftrightarrow> r = s \<and> s \<noteq> InvalidResource"
  "load_type_value k AND load_type_value l \<noteq> 0 \<longleftrightarrow> k = l \<and> l \<noteq> InvalidLoad"
  "resource_type_value r AND load_type_value l = 0" "load_type_value l AND resource_type_value r = 0"
proof -
  show "resource_type_value r AND resource_type_value s \<noteq> 0 \<longleftrightarrow> r = s \<and> s \<noteq> InvalidResource" by (cases r; cases s; simp)
  show "load_type_value k AND load_type_value l \<noteq> 0 \<longleftrightarrow> k = l \<and> l \<noteq> InvalidLoad" by (cases k; cases l; simp)
  show "resource_type_value r AND load_type_value l = 0" "load_type_value l AND resource_type_value r = 0"
    by (cases r; cases l; simp)+
qed

lemma or_and_or:
  assumes "a AND d = 0" "b AND c = (0 :: u16)"
  shows "(a OR b) AND (c OR d) \<noteq> 0 \<longleftrightarrow> a AND c \<noteq> 0 \<or> b AND d \<noteq> 0"
proof -
  have "(a OR b) AND (c OR d) = (a AND c) OR (b AND d)" using assms by (simp add: bit.conj_disj_distrib bit.conj_disj_distrib2)
  then show ?thesis by (simp add: or_eq_0_iff)
qed

section \<open>Properties\<close>

text \<open>
  C1. End to end, under the conditions \<open>tree_compiles\<close> on the automata of the rules: no assertion of
  the conversion to deterministic automata and of the universal actions fails, none of these automata
  has a node with transitions on all characters but one and no fallback (as \<open>^[^a]\<close> has), or one that
  goes on NUL, the end of the URL, to a node with the same set of actions as the target of its
  fallback, and the bytecode has less than 2^32-1 bytes. Then, for rules with supported filters, the
  compiler either refuses the list, with the error for a rule that matches everything behind an
  ignore-previous-rules, or returns, and interpreting the bytecode it writes on a URL, with enough
  fuel, triggers exactly the action locations of the rules whose filter matches the URL and whose
  flags are for the request.
\<close>

theorem compiled_rules_trigger:
  assumes "list_all2 rule_reads fs rules" "serializeActions rules = Some (acts, locs)"
    "\<And>st. add_rules yarr (zip rules locs) new_filter_state = Some (Inr st) \<Longrightarrow> tree_compiles fuel m st" "url_ok url"
  shows "compile_rules fuel m yarr rules = Returned (Inl RegexMatchesEverythingAfterIgnorePreviousRules) \<or>
     (\<exists>bytes N. compile_rules fuel m yarr rules = Returned (Inr \<lparr>writtenActions = acts, writtenBytecode = bytes, finalized = True\<rparr>) \<and>
        (\<forall>n \<ge> N. \<forall>k \<ge> N. \<exists>triggered. DFABytecodeInterpreter_interpret k n bytes url flags = Returned triggered \<and>
           set triggered \<union> set (actionsFromDFARoot bytes) =
             {ucast loc | rule loc. (rule, loc) \<in> matching (zip fs (zip rules locs)) url \<and> rule_applies flags rule}))"
  by (rule compile_rules_correct [OF assms])

theorem compiled_rules_trigger_witness:
  "\<exists>bytes k triggered. compile_rules 4 3 yarr [a_rule] = Returned (Inr \<lparr>writtenActions = [0], writtenBytecode = bytes, finalized = True\<rparr>) \<and>
     DFABytecodeInterpreter_interpret k k bytes [97, 98] 0x0402 = Returned triggered \<and>
     0 \<in> set triggered \<union> set (actionsFromDFARoot bytes)"
proof -
  have c: "tree_compiles 4 3 st" if "add_rules yarr (zip [a_rule] [0]) new_filter_state = Some (Inr st)" for st
    using a_rule_compiles that by simp
  have u: "url_ok [97, 98]" by (simp add: url_ok_def)
  have not_refused: "case compile_rules 4 3 yarr [a_rule] of Returned (Inl _) \<Rightarrow> False | _ \<Rightarrow> True" by code_simp
  from compiled_rules_trigger [OF a_rule_reads a_rule_serialized c u, of "0x0402"] not_refused
  obtain bytes N where b: "compile_rules 4 3 yarr [a_rule] = Returned (Inr \<lparr>writtenActions = [0], writtenBytecode = bytes, finalized = True\<rparr>)"
    "\<forall>n \<ge> N. \<forall>k \<ge> N. \<exists>triggered. DFABytecodeInterpreter_interpret k n bytes [97, 98] 0x0402 = Returned triggered \<and>
       set triggered \<union> set (actionsFromDFARoot bytes) =
         {ucast loc | rule loc. (rule, loc) \<in> matching (zip [a_filter] (zip [a_rule] [0])) [97, 98] \<and> rule_applies 0x0402 rule}"
    by auto
  have "rule_matches a_filter a_rule [97, 98]"
    by (simp add: rule_matches_def filter_hits_def hits_def a_filter_def a_rule_def filter_lang_def in_conc same_character_def)
      (rule exI [of _ 1], simp)
  then have "(0 :: u64) \<in> {ucast loc | rule loc. (rule, loc) \<in> matching (zip [a_filter] (zip [a_rule] [0])) [97, 98] \<and> rule_applies 0x0402 rule}"
    by (auto simp: matching_def rule_applies_def a_rule_def)
  with b show ?thesis by blast
qed

text \<open>
  C10. Serialised actions are read back: every rule of the list gets a location at which an action of
  its type is stored, for a selector together with the selectors of the rules joined with it.
\<close>

theorem serialized_actions_roundtrip:
  assumes "serializeActions rules = Some (acts, locs)" "rules_ok rules" "length acts < 2 ^ 32"
  shows "list_all2 (reads_back acts) rules locs"
  using serialize_loop_correct [of None rules "[]" "[]" acts locs] assms by (auto simp: serializeActions_def last_action_ok_def)

theorem serialized_actions_roundtrip_witness: "list_all2 (reads_back [0]) [a_rule] [0]"
  by (rule serialized_actions_roundtrip [OF a_rule_serialized]) (simp_all add: rules_ok_def string_ok_def a_rule_def new_Action_def)

text \<open>
  C25. The rules that come out of the parser are well typed: the filter is not empty, the flags are
  those of resource and load types, the action is one of four, and so serialising never fails its
  assertion.
\<close>

theorem parsed_rules_well_typed:
  assumes "parseRuleList JSONParse conv text = Inr rules"
  shows "rules \<noteq> [] \<and> list_all well_typed rules \<and> serializeActions rules \<noteq> None"
proof -
  have r: "rules \<noteq> []" "list_all well_typed rules"
    using assms load_rules_typed [of "[]"]
    by (auto simp: parseRuleList_def loadEncodedRules_def sum_bind_Inr split: option.splits if_splits JSValue.splits)
  then have "\<forall>rule \<in> set rules. m_type (m_action rule) \<notin> {CSSDisplayNoneStyleSheet, InvalidAction}"
    by (auto simp: list_all_iff well_typed_def)
  from serialize_loop_total [OF this] r show ?thesis by (simp add: serializeActions_def)
qed

definition a_json :: JSValue where
  "a_json = JSArray [JSObject
     [(units ''trigger'', JSObject [(units ''url-filter'', JSString (literal ''^a'')),
                                    (units ''load-type'', JSArray [JSString (literal ''third-party'')])]),
      (units ''action'', JSObject [(units ''type'', JSString (literal ''block''))])]]"

theorem parsed_rules_well_typed_witness:
  "\<exists>rules. parseRuleList (\<lambda>_. Some a_json) (\<lambda>_. NullString) NullString = Inr rules \<and> length rules = 1 \<and> list_all well_typed rules"
proof -
  have r: "case parseRuleList (\<lambda>_. Some a_json) (\<lambda>_. NullString) NullString of Inr rules \<Rightarrow> length rules = 1 | _ \<Rightarrow> False" by code_simp
  then obtain rules where p: "parseRuleList (\<lambda>_. Some a_json) (\<lambda>_. NullString) NullString = Inr rules" "length rules = 1"
    by (auto split: sum.splits)
  from parsed_rules_well_typed [OF p(1)] p show ?thesis by blast
qed

text \<open>
  C26. A rule with a resource type and a load type is for requests of the resource type or of the load
  type, not only for those of both: a rule for images of third parties is also triggered by images of
  the first party, and by scripts of third parties.
\<close>

theorem types_are_alternatives:
  assumes "trigger_flags trigger = resource_type_value r OR load_type_value l" "r \<noteq> InvalidResource" "l \<noteq> InvalidLoad"
  shows "passes (getResourceFlags canAccess info) (actionLocationAndFlags trigger loc) \<longleftrightarrow>
     resource_type info = r \<or> (l = ThirdParty \<longleftrightarrow> isThirdParty canAccess info)"
proof -
  let ?k = "if isThirdParty canAccess info then ThirdParty else FirstParty"
  have flags: "getResourceFlags canAccess info = resource_type_value (resource_type info) OR load_type_value ?k"
    by (simp add: getResourceFlags_def)
  have "resource_type_value r AND resource_type_value r \<noteq> 0" using flag_bits(1) assms(2) by blast
  then have "trigger_flags trigger \<noteq> 0" by (auto simp: assms(1) or_eq_0_iff)
  then have "passes (getResourceFlags canAccess info) (actionLocationAndFlags trigger loc) \<longleftrightarrow>
      resource_type_value (resource_type info) AND resource_type_value r \<noteq> 0 \<or> load_type_value ?k AND load_type_value l \<noteq> 0"
    unfolding action_parts(2) flags assms(1) using or_and_or [OF flag_bits(3,4)] by simp
  also have "\<dots> \<longleftrightarrow> resource_type info = r \<or> ?k = l" unfolding flag_bits using assms(2,3) by simp
  also have "?k = l \<longleftrightarrow> (l = ThirdParty \<longleftrightarrow> isThirdParty canAccess info)" using assms(3) by (cases l) auto
  finally show ?thesis .
qed

theorem types_are_alternatives_witness:
  "passes (getResourceFlags (\<lambda>_ _. True) \<lparr>resourceURL = (), mainDocumentURL = (), resource_type = Image\<rparr>)
     (actionLocationAndFlags (m_trigger a_rule) 0)"
  by (subst types_are_alternatives [where r = Image and l = ThirdParty]) (simp_all add: a_rule_def)

text \<open>
  C29. The status \<open>MatchesEverything\<close> can be wrong with an end-of-line assertion, and then a rule is for
  every URL: \<open>^a*$\<close> does not match the URL \<open>b\<close>, but the rule becomes a universal action, because only
  the terms that must match a character are looked for.
\<close>

theorem end_of_line_becomes_universal:
  "print_filter only_a_filter = characters (urlFilter (m_trigger only_a_rule)) \<and>
   \<not> rule_matches only_a_filter only_a_rule [98] \<and>
   add_rule yarr (only_a_rule, 0) new_filter_state = Some (Inr (new_filter_state\<lparr>universal_locations := [0]\<rparr>))"
proof -
  have p: "print_filter only_a_filter = [94, 97, 42, 36]" "characters (urlFilter (m_trigger only_a_rule)) = [94, 97, 42, 36]"
    by (simp_all add: print_filter_def only_a_filter_def print_char_def specials_def only_a_rule_def)
  have "take n [98, 0] \<noteq> w @ [0]" if "w \<in> star {[97]}" for n w
  proof -
    have "set w \<subseteq> {97}" using that by (induction rule: star.induct) auto
    then show ?thesis by (cases n; cases "n - 1"; cases w) (auto simp: numeral_2_eq_2 take_Cons' append_eq_Cons_conv)
  qed
  then have "\<not> rule_matches only_a_filter only_a_rule [98]"
    by (auto simp: rule_matches_def filter_hits_def hits_def only_a_filter_def only_a_rule_def filter_lang_def in_conc same_character_def)
  moreover have "add_rule yarr (only_a_rule, 0) new_filter_state = Some (Inr (new_filter_state\<lparr>universal_locations := [0]\<rparr>))" by code_simp
  ultimately show ?thesis using p by simp
qed

end
