(* ===== verification/CE_Backend.thy ===== *)
theory CE_Backend
  imports CE_Rules CE_Interpreter
begin

text \<open>
  The content extensions of a page (\<open>contentextensions/ContentExtensionsBackend.cpp\<close>,
  \<open>ContentExtension.cpp\<close>, \<open>CompiledContentExtension.cpp\<close>): which actions a request triggers, and what
  becomes of the request.

  The hash map of extensions is an association list, the set of triggered actions a list. A URL is a
  value with the functions the code calls on it as arguments; a style sheet is what the argument
  \<open>parseString\<close> makes of a text. \<open>Crashed\<close> and \<open>None\<close> are a failed \<open>RELEASE_ASSERT\<close>.
\<close>

section \<open>Extensions\<close>

record CompiledContentExtension =
  bytecode_of :: "u8 list"
  actions_of :: "u8 list"

record 'sheet ContentExtension =
  m_identifier :: WString
  m_compiledExtension :: CompiledContentExtension
  m_globalDisplayNoneStyleSheet :: "'sheet option"
  m_parsedGlobalDisplayNoneStyleSheet :: bool

definition ContentExtension_create :: "WString \<Rightarrow> CompiledContentExtension \<Rightarrow> 'sheet ContentExtension" where
  "ContentExtension_create identifier compiledExtension =
     \<lparr>m_identifier = identifier, m_compiledExtension = compiledExtension, m_globalDisplayNoneStyleSheet = None,
      m_parsedGlobalDisplayNoneStyleSheet = False\<rparr>"

text \<open>Deserialises a list of locations; one failure fails them all.\<close>

fun deserialize_all :: "u8 list \<Rightarrow> u32 list \<Rightarrow> Action list option" where
  "deserialize_all acts [] = Some []"
| "deserialize_all acts (l # ls) =
     (case deserialize acts l of
        None \<Rightarrow> None
      | Some action \<Rightarrow> map_option (Cons action) (deserialize_all acts ls))"

definition globalDisplayNoneSelectors :: "CompiledContentExtension \<Rightarrow> WString list option" where
  "globalDisplayNoneSelectors compiled =
     map_option
       (\<lambda>globalActions. map m_stringArgument (filter (\<lambda>action. m_type action = CSSDisplayNoneSelector) globalActions))
       (deserialize_all (actions_of compiled) (map ucast (actionsFromDFARoot (bytecode_of compiled))))"

definition displayNoneCSSRule :: WString where
  "displayNoneCSSRule = literal ''display:none !important;''"

definition css_text :: "WString list \<Rightarrow> WString" where
  "css_text selectors =
     builder_toString
       (fold (\<lambda>selector css.
          append8 (units ''}'') (append_string displayNoneCSSRule (append8 (units ''{'') (append_string selector css))))
        selectors new_StringBuilder)"

text \<open>The style sheet is made at the first call; the result has the extension with its new state.\<close>

definition globalDisplayNoneStyleSheet ::
  "(WString \<Rightarrow> 'sheet option) \<Rightarrow> 'sheet ContentExtension \<Rightarrow> ('sheet ContentExtension \<times> 'sheet option) option" where
  "globalDisplayNoneStyleSheet parseString e =
     (if m_parsedGlobalDisplayNoneStyleSheet e then Some (e, m_globalDisplayNoneStyleSheet e)
      else
        let e = e\<lparr>m_parsedGlobalDisplayNoneStyleSheet := True\<rparr>
        in map_option
             (\<lambda>selectors.
                if selectors = [] then (e, None)
                else let sheet = parseString (css_text selectors)
                     in (e\<lparr>m_globalDisplayNoneStyleSheet := sheet\<rparr>, sheet))
             (globalDisplayNoneSelectors (m_compiledExtension e)))"

section \<open>The set of extensions\<close>

type_synonym 'sheet extensions = "(nat list \<times> 'sheet ContentExtension) list"

definition removeContentExtension :: "WString \<Rightarrow> 'sheet extensions \<Rightarrow> 'sheet extensions" where
  "removeContentExtension identifier exts = hm_remove (characters identifier) exts"

definition hm_set :: "'k \<Rightarrow> 'v \<Rightarrow> ('k \<times> 'v) list \<Rightarrow> ('k \<times> 'v) list" where
  "hm_set k v m = (if map_of m k = None then m @ [(k, v)] else hm_modify k (\<lambda>_. v) m)"

definition addContentExtension ::
  "WString \<Rightarrow> CompiledContentExtension option \<Rightarrow> 'sheet extensions \<Rightarrow> 'sheet extensions" where
  "addContentExtension identifier compiledContentExtension exts =
     (if string_length identifier = 0 then exts
      else case compiledContentExtension of
             None \<Rightarrow> removeContentExtension identifier exts
           | Some compiled \<Rightarrow> hm_set (characters identifier) (ContentExtension_create identifier compiled) exts)"

definition removeAllContentExtensions :: "'sheet extensions \<Rightarrow> 'sheet extensions" where
  "removeAllContentExtensions exts = []"

section \<open>The actions of a request\<close>

text \<open>
  The loop over the sorted locations from the last one down, until an action ignores the rules
  before it.
\<close>

fun actions_in_reverse :: "u8 list \<Rightarrow> WString \<Rightarrow> u32 list \<Rightarrow> Action list \<Rightarrow> (Action list \<times> bool) option" where
  "actions_in_reverse acts identifier [] finalActions = Some (finalActions, False)"
| "actions_in_reverse acts identifier (l # ls) finalActions =
     (case deserialize acts l of
        None \<Rightarrow> None
      | Some action \<Rightarrow>
          let action = setExtensionIdentifier identifier action
          in if m_type action = IgnorePreviousRules then Some (finalActions, True)
             else actions_in_reverse acts identifier ls (finalActions @ [action]))"

fun universal_actions :: "u8 list \<Rightarrow> WString \<Rightarrow> u32 list \<Rightarrow> Action list \<Rightarrow> Action list option" where
  "universal_actions acts identifier [] finalActions = Some finalActions"
| "universal_actions acts identifier (l # ls) finalActions =
     (case deserialize acts l of
        None \<Rightarrow> None
      | Some action \<Rightarrow>
          let action = setExtensionIdentifier identifier action
          in universal_actions acts identifier ls
               (if m_type action \<noteq> CSSDisplayNoneSelector then finalActions @ [action] else finalActions))"

definition actions_of_extension ::
  "nat \<Rightarrow> nat \<Rightarrow> nat list \<Rightarrow> ResourceFlags \<Rightarrow> 'sheet ContentExtension \<Rightarrow> Action list \<Rightarrow> Action list outcome" where
  "actions_of_extension fuel n url flags e finalActions =
     (let compiled = m_compiledExtension e;
          acts = actions_of compiled
      in case DFABytecodeInterpreter_interpret fuel n (bytecode_of compiled) url flags of
           Returned triggered \<Rightarrow>
             (case actions_in_reverse acts (m_identifier e) (rev (sort (map ucast triggered))) finalActions of
                None \<Rightarrow> Crashed
              | Some (finalActions, sawIgnorePreviousRules) \<Rightarrow>
                  if \<not> sawIgnorePreviousRules then
                    (case universal_actions acts (m_identifier e) (map ucast (actionsFromDFARoot (bytecode_of compiled))) finalActions of
                       None \<Rightarrow> Crashed
                     | Some finalActions \<Rightarrow>
                         Returned (finalActions @
                           [setExtensionIdentifier (m_identifier e) (new_string_Action CSSDisplayNoneStyleSheet (m_identifier e) (- 1))]))
                  else Returned finalActions)
         | Crashed \<Rightarrow> Crashed
         | OutOfFuel \<Rightarrow> OutOfFuel)"

fun actions_of_extensions ::
  "nat \<Rightarrow> nat \<Rightarrow> nat list \<Rightarrow> ResourceFlags \<Rightarrow> 'sheet ContentExtension list \<Rightarrow> Action list \<Rightarrow> Action list outcome" where
  "actions_of_extensions fuel n url flags [] finalActions = Returned finalActions"
| "actions_of_extensions fuel n url flags (e # es) finalActions =
     (case actions_of_extension fuel n url flags e finalActions of
        Returned finalActions \<Rightarrow> actions_of_extensions fuel n url flags es finalActions
      | Crashed \<Rightarrow> Crashed
      | OutOfFuel \<Rightarrow> OutOfFuel)"

definition actionsForResourceLoad ::
  "nat \<Rightarrow> nat \<Rightarrow> ('url \<Rightarrow> bool) \<Rightarrow> ('url \<Rightarrow> nat list) \<Rightarrow> ('url \<Rightarrow> 'url \<Rightarrow> bool) \<Rightarrow> 'sheet extensions \<Rightarrow> 'url ResourceLoadInfo \<Rightarrow>
     Action list outcome" where
  "actionsForResourceLoad fuel n protocolIsData url_string canAccess exts resourceLoadInfo =
     (if protocolIsData (resourceURL resourceLoadInfo) then Returned []
      else actions_of_extensions fuel n (url_string (resourceURL resourceLoadInfo))
             (getResourceFlags canAccess resourceLoadInfo) (map snd exts) [])"

section \<open>What becomes of the request\<close>

text \<open>
  The request, and what is handed to the loader of the document or, for other resources, to the
  current document.
\<close>

record 'sheet load_state =
  allowCookies :: bool
  blocked :: bool
  pendingSelectors :: "(WString \<times> WString \<times> u32) list"
  pendingSheets :: "(WString \<times> 'sheet) list"
  documentSelectors :: "(WString \<times> WString \<times> u32) list"
  documentSheets :: "(WString \<times> 'sheet) list"

definition extension_sheet ::
  "(WString \<Rightarrow> 'sheet option) \<Rightarrow> WString \<Rightarrow> 'sheet extensions \<Rightarrow> ('sheet extensions \<times> 'sheet option) option" where
  "extension_sheet parseString identifier exts =
     (case map_of exts (characters identifier) of
        None \<Rightarrow> Some (exts, None)
      | Some e \<Rightarrow> map_option (\<lambda>(e, sheet). (hm_modify (characters identifier) (\<lambda>_. e) exts, sheet))
                    (globalDisplayNoneStyleSheet parseString e))"

definition apply_action ::
  "(WString \<Rightarrow> 'sheet option) \<Rightarrow> bool \<Rightarrow> bool \<Rightarrow> Action \<Rightarrow> 'sheet extensions \<times> 'sheet load_state \<Rightarrow>
     ('sheet extensions \<times> 'sheet load_state) option" where
  "apply_action parseString isDocument hasCurrentDocument action = (\<lambda>(exts, st).
     case m_type action of
       BlockLoad \<Rightarrow> Some (exts, st\<lparr>blocked := True\<rparr>)
     | BlockCookies \<Rightarrow> Some (exts, st\<lparr>allowCookies := False\<rparr>)
     | CSSDisplayNoneSelector \<Rightarrow>
         (let entry = (m_extensionIdentifier action, m_stringArgument action, m_actionID action)
          in Some (exts, if isDocument then st\<lparr>pendingSelectors := pendingSelectors st @ [entry]\<rparr>
                         else if hasCurrentDocument then st\<lparr>documentSelectors := documentSelectors st @ [entry]\<rparr>
                         else st))
     | CSSDisplayNoneStyleSheet \<Rightarrow>
         map_option
           (\<lambda>(exts, sheet).
              (exts, case sheet of
                 None \<Rightarrow> st
               | Some s \<Rightarrow>
                   if isDocument then st\<lparr>pendingSheets := pendingSheets st @ [(m_stringArgument action, s)]\<rparr>
                   else if hasCurrentDocument then st\<lparr>documentSheets := documentSheets st @ [(m_stringArgument action, s)]\<rparr>
                   else st))
           (extension_sheet parseString (m_stringArgument action) exts)
     | IgnorePreviousRules \<Rightarrow> None
     | InvalidAction \<Rightarrow> None)"

fun apply_actions ::
  "(WString \<Rightarrow> 'sheet option) \<Rightarrow> bool \<Rightarrow> bool \<Rightarrow> Action list \<Rightarrow> 'sheet extensions \<times> 'sheet load_state \<Rightarrow>
     ('sheet extensions \<times> 'sheet load_state) option" where
  "apply_actions parseString isDocument hasCurrentDocument [] s = Some s"
| "apply_actions parseString isDocument hasCurrentDocument (a # as) s =
     Option.bind (apply_action parseString isDocument hasCurrentDocument a s)
       (apply_actions parseString isDocument hasCurrentDocument as)"

definition processContentExtensionRulesForLoad ::
  "nat \<Rightarrow> nat \<Rightarrow> ('url \<Rightarrow> bool) \<Rightarrow> ('url \<Rightarrow> nat list) \<Rightarrow> ('url \<Rightarrow> 'url \<Rightarrow> bool) \<Rightarrow> (WString \<Rightarrow> 'sheet option) \<Rightarrow> bool \<Rightarrow>
     'url ResourceLoadInfo \<Rightarrow> 'sheet extensions \<Rightarrow> 'sheet load_state \<Rightarrow> ('sheet extensions \<times> 'sheet load_state) outcome" where
  "processContentExtensionRulesForLoad fuel n protocolIsData url_string canAccess parseString hasCurrentDocument resourceLoadInfo exts st =
     (case actionsForResourceLoad fuel n protocolIsData url_string canAccess exts resourceLoadInfo of
        Returned acts \<Rightarrow>
          (case apply_actions parseString (resource_type resourceLoadInfo = Document) hasCurrentDocument acts (exts, st) of
             None \<Rightarrow> Crashed
           | Some s \<Rightarrow> Returned s)
      | Crashed \<Rightarrow> Crashed
      | OutOfFuel \<Rightarrow> OutOfFuel)"

end
