(* ===== verification/CE_Backend_Props.thy ===== *)
theory CE_Backend_Props
  imports CE_Backend CE_Compile_Props
begin

text \<open>
  The properties of the backend: which triggered actions count for a request, and what can crash.
\<close>

section \<open>The actions behind the last ignore-previous-rules\<close>

lemma actions_in_reverse_takeWhile:
  "\<forall>l \<in> set ls. deserialize acts l = Some (act l) \<Longrightarrow>
     actions_in_reverse acts identifier ls found =
       Some (found @ map (\<lambda>l. setExtensionIdentifier identifier (act l)) (takeWhile (\<lambda>l. m_type (act l) \<noteq> IgnorePreviousRules) ls),
             list_ex (\<lambda>l. m_type (act l) = IgnorePreviousRules) ls)"
  by (induction ls arbitrary: found) (auto simp: Let_def setExtensionIdentifier_def)

lemma universal_actions_filter:
  "\<forall>l \<in> set ls. deserialize acts l = Some (act l) \<Longrightarrow>
     universal_actions acts identifier ls found =
       Some (found @ map (\<lambda>l. setExtensionIdentifier identifier (act l)) (filter (\<lambda>l. m_type (act l) \<noteq> CSSDisplayNoneSelector) ls))"
  by (induction ls arbitrary: found) (auto simp: Let_def setExtensionIdentifier_def)

lemma set_takeWhile_descending:
  "sorted ls \<Longrightarrow> set (takeWhile P (rev ls)) = {l \<in> set ls. \<forall>m \<in> set ls. l \<le> m \<longrightarrow> P m}" for ls :: "'a :: linorder list"
proof (induction ls rule: rev_induct)
  case (snoc l ls)
  then have "sorted ls" "\<forall>m \<in> set ls. m \<le> l" by (auto simp: sorted_append)
  with snoc.IH show ?case by (cases "P l") (auto intro: order.trans)
qed simp

section \<open>Examples\<close>

text \<open>A rule that ignores the previous rules for every request.\<close>

definition ignore_rule :: ContentExtensionRule where
  "ignore_rule = \<lparr>m_trigger = \<lparr>urlFilter = WString True [46, 42], urlFilterIsCaseSensitive = False, trigger_flags = 0\<rparr>,
     m_action = new_Action IgnorePreviousRules (- 1)\<rparr>"

definition installed :: "CompilationClient \<Rightarrow> unit extensions" where
  "installed client = addContentExtension (literal ''x'') (Some \<lparr>bytecode_of = writtenBytecode client, actions_of = writtenActions client\<rparr>) []"

definition a_load :: "nat list ResourceLoadInfo" where
  "a_load = \<lparr>resourceURL = [97], mainDocumentURL = [97], resource_type = Image\<rparr>"

definition a_state :: "unit load_state" where
  "a_state = \<lparr>allowCookies = True, blocked = False, pendingSelectors = [], pendingSheets = [], documentSelectors = [], documentSheets = []\<rparr>"

section \<open>Properties\<close>

text \<open>
  C11. The actions of an extension for a request: of the triggered locations those with no
  ignore-previous-rules at or behind them; and, if nothing is ignored, the actions that are not
  selectors of the rules for every request, and the style sheet of the extension.
\<close>

theorem actions_of_extension_exact:
  assumes "DFABytecodeInterpreter_interpret fuel n (bytecode_of (m_compiledExtension e)) url flags = Returned triggered"
    "\<forall>l \<in> ucast ` set triggered \<union> ucast ` set (actionsFromDFARoot (bytecode_of (m_compiledExtension e))).
       deserialize (actions_of (m_compiledExtension e)) l = Some (act l)"
  shows "\<exists>new. actions_of_extension fuel n url flags e found = Returned (found @ new) \<and>
     set new = setExtensionIdentifier (m_identifier e) `
       (act ` {l \<in> ucast ` set triggered. \<forall>m \<in> ucast ` set triggered. l \<le> m \<longrightarrow> m_type (act m) \<noteq> IgnorePreviousRules} \<union>
        (if \<exists>m \<in> ucast ` set triggered. m_type (act m) = IgnorePreviousRules then {}
         else {a \<in> act ` ucast ` set (actionsFromDFARoot (bytecode_of (m_compiledExtension e))). m_type a \<noteq> CSSDisplayNoneSelector} \<union>
           {new_string_Action CSSDisplayNoneStyleSheet (m_identifier e) (- 1)}))"
proof -
  let ?acts = "actions_of (m_compiledExtension e)" and ?id = "m_identifier e"
  let ?ls = "sort (map ucast triggered) :: u32 list"
  let ?us = "map ucast (actionsFromDFARoot (bytecode_of (m_compiledExtension e))) :: u32 list"
  have "\<forall>l \<in> set (rev ?ls). deserialize ?acts l = Some (act l)" "\<forall>l \<in> set ?us. deserialize ?acts l = Some (act l)"
    using assms(2) by auto
  note R = actions_in_reverse_takeWhile [OF this(1)] universal_actions_filter [OF this(2)]
  have T: "set (takeWhile (\<lambda>l. m_type (act l) \<noteq> IgnorePreviousRules) (rev ?ls)) =
      {l \<in> ucast ` set triggered. \<forall>m \<in> ucast ` set triggered. l \<le> m \<longrightarrow> m_type (act m) \<noteq> IgnorePreviousRules}"
    using set_takeWhile_descending [of ?ls] by simp
  have E: "list_ex (\<lambda>l. m_type (act l) = IgnorePreviousRules) (rev ?ls) \<longleftrightarrow> (\<exists>m \<in> ucast ` set triggered. m_type (act m) = IgnorePreviousRules)"
    by (simp add: list_ex_iff)
  let ?reverse = "map (\<lambda>l. setExtensionIdentifier ?id (act l)) (takeWhile (\<lambda>l. m_type (act l) \<noteq> IgnorePreviousRules) (rev ?ls))"
  let ?rest = "if list_ex (\<lambda>l. m_type (act l) = IgnorePreviousRules) (rev ?ls) then []
    else map (\<lambda>l. setExtensionIdentifier ?id (act l)) (filter (\<lambda>l. m_type (act l) \<noteq> CSSDisplayNoneSelector) ?us) @
      [setExtensionIdentifier ?id (new_string_Action CSSDisplayNoneStyleSheet ?id (- 1))]"
  have "actions_of_extension fuel n url flags e found = Returned (found @ (?reverse @ ?rest))"
    using assms(1) R by (simp add: actions_of_extension_def Let_def)
  moreover have "set (?reverse @ ?rest) = setExtensionIdentifier ?id `
       (act ` {l \<in> ucast ` set triggered. \<forall>m \<in> ucast ` set triggered. l \<le> m \<longrightarrow> m_type (act m) \<noteq> IgnorePreviousRules} \<union>
        (if \<exists>m \<in> ucast ` set triggered. m_type (act m) = IgnorePreviousRules then {}
         else {a \<in> act ` ucast ` set (actionsFromDFARoot (bytecode_of (m_compiledExtension e))). m_type a \<noteq> CSSDisplayNoneSelector} \<union>
           {new_string_Action CSSDisplayNoneStyleSheet ?id (- 1)}))"
    unfolding set_append set_map T E by auto
  ultimately show ?thesis by blast
qed

text \<open>An extension that blocks everything.\<close>

definition blocker :: "unit ContentExtension" where
  "blocker = ContentExtension_create NullString \<lparr>bytecode_of = [10, 0, 0, 0, 4, 0, 0, 0, 0, 6], actions_of = [0]\<rparr>"

theorem actions_of_extension_exact_witness:
  "\<exists>new. actions_of_extension 1 25 [98] 0 blocker [] = Returned new \<and> new_Action BlockLoad 0 \<in> set new"
proof -
  have i: "case DFABytecodeInterpreter_interpret 1 25 (bytecode_of (m_compiledExtension blocker)) [98] 0 of Returned t \<Rightarrow> t = [] | _ \<Rightarrow> False"
    "actionsFromDFARoot (bytecode_of (m_compiledExtension blocker)) = [0]"
    "deserialize (actions_of (m_compiledExtension blocker)) 0 = Some (new_Action BlockLoad 0)" by code_simp+
  have t: "DFABytecodeInterpreter_interpret 1 25 (bytecode_of (m_compiledExtension blocker)) [98] 0 = Returned []"
    using i(1) by (cases "DFABytecodeInterpreter_interpret 1 25 (bytecode_of (m_compiledExtension blocker)) [98] 0") auto
  have d: "\<forall>l \<in> ucast ` set ([] :: u64 list) \<union> ucast ` set (actionsFromDFARoot (bytecode_of (m_compiledExtension blocker))).
      deserialize (actions_of (m_compiledExtension blocker)) l = Some (new_Action BlockLoad l)" using i(2,3) by simp
  have "setExtensionIdentifier NullString (new_Action BlockLoad 0) = new_Action BlockLoad 0" "m_identifier blocker = NullString"
    "m_type (new_Action BlockLoad 0) \<noteq> CSSDisplayNoneSelector"
    by (simp_all add: setExtensionIdentifier_def new_Action_def blocker_def ContentExtension_create_def)
  with actions_of_extension_exact [OF t d, of "[]"] i(2) show ?thesis by force
qed

lemma universal_actions_keep: "universal_actions acts identifier ls found = Some final \<Longrightarrow> set found \<subseteq> set final"
  by (induction ls arbitrary: found) (fastforce simp: Let_def split: option.splits if_splits)+

lemma universal_actions_ignore:
  assumes "l \<in> set ls" "deserialize acts l = Some a" "m_type a = IgnorePreviousRules" "universal_actions acts identifier ls found = Some final"
  shows "\<exists>b \<in> set final. m_type b = IgnorePreviousRules"
  using assms(1,4)
proof (induction ls arbitrary: found)
  case (Cons k ls)
  show ?case
  proof (cases "k = l")
    case True
    have "setExtensionIdentifier identifier a \<in> set final"
      using Cons.prems(2) assms(2,3) True
      by (auto simp: Let_def setExtensionIdentifier_def dest!: universal_actions_keep)
    then show ?thesis using assms(3) by (auto simp: setExtensionIdentifier_def intro!: bexI [of _ "setExtensionIdentifier identifier a"])
  qed (use Cons in \<open>auto simp: Let_def split: option.splits\<close>)
qed simp

lemma actions_in_reverse_no_ignore:
  "\<forall>l \<in> set ls. \<forall>b. deserialize acts l = Some b \<longrightarrow> m_type b \<noteq> IgnorePreviousRules \<Longrightarrow>
     actions_in_reverse acts identifier ls found = Some (new, saw) \<Longrightarrow> \<not> saw"
  by (induction ls arbitrary: found) (auto simp: Let_def setExtensionIdentifier_def split: option.splits if_splits)

lemma actions_in_reverse_keep: "actions_in_reverse acts identifier ls found = Some (new, saw) \<Longrightarrow> set found \<subseteq> set new"
  by (induction ls arbitrary: found) (fastforce simp: Let_def split: option.splits if_splits)+

lemma actions_of_extension_keep:
  assumes r: "actions_of_extension fuel n url flags e found = Returned new"
  shows "set found \<subseteq> set new"
proof -
  let ?acts = "actions_of (m_compiledExtension e)" and ?root = "actionsFromDFARoot (bytecode_of (m_compiledExtension e))"
  obtain ls mid saw where mid: "actions_in_reverse ?acts (m_identifier e) ls found = Some (mid, saw)"
    "if saw then new = mid else \<exists>final sheet. universal_actions ?acts (m_identifier e) (map ucast ?root) mid = Some final \<and> new = final @ sheet"
    using r by (auto simp: actions_of_extension_def Let_def split: outcome.splits option.splits prod.splits if_splits)
  then have "set mid \<subseteq> set new" using universal_actions_keep by (fastforce split: if_splits)
  then show ?thesis using actions_in_reverse_keep [OF mid(1)] by blast
qed

lemma actions_of_extensions_keep: "actions_of_extensions fuel n url flags es found = Returned new \<Longrightarrow> set found \<subseteq> set new"
  by (induction es arbitrary: found) (auto split: outcome.splits dest: actions_of_extension_keep)

lemma actions_of_extension_ignore:
  assumes "l \<in> ucast ` set (actionsFromDFARoot (bytecode_of (m_compiledExtension e)))"
    and "deserialize (actions_of (m_compiledExtension e)) l = Some a" "m_type a = IgnorePreviousRules"
    and "DFABytecodeInterpreter_interpret fuel n (bytecode_of (m_compiledExtension e)) url flags = Returned triggered"
    and "\<forall>m \<in> ucast ` set triggered. \<forall>b. deserialize (actions_of (m_compiledExtension e)) m = Some b \<longrightarrow> m_type b \<noteq> IgnorePreviousRules"
    and "actions_of_extension fuel n url flags e found = Returned new"
  shows "\<exists>b \<in> set new. m_type b = IgnorePreviousRules"
proof -
  let ?acts = "actions_of (m_compiledExtension e)"
  obtain mid saw where r: "actions_in_reverse ?acts (m_identifier e) (rev (sort (map ucast triggered))) found = Some (mid, saw)"
    using assms(4,6) by (auto simp: actions_of_extension_def Let_def split: option.splits)
  have "\<not> saw" by (rule actions_in_reverse_no_ignore [OF _ r]) (use assms(5) in auto)
  then obtain last sheet where u: "universal_actions ?acts (m_identifier e) (map ucast (actionsFromDFARoot (bytecode_of (m_compiledExtension e)))) mid = Some last"
    "new = last @ [sheet]"
    using assms(4,6) r by (auto simp: actions_of_extension_def Let_def split: option.splits)
  show ?thesis using universal_actions_ignore [OF _ assms(2,3) u(1)] assms(1) u(2) by auto
qed

lemma actions_of_extensions_ignore:
  assumes "e \<in> set es" "l \<in> ucast ` set (actionsFromDFARoot (bytecode_of (m_compiledExtension e)))"
    and "deserialize (actions_of (m_compiledExtension e)) l = Some a" "m_type a = IgnorePreviousRules"
    and "DFABytecodeInterpreter_interpret fuel n (bytecode_of (m_compiledExtension e)) url flags = Returned triggered"
    and "\<forall>m \<in> ucast ` set triggered. \<forall>b. deserialize (actions_of (m_compiledExtension e)) m = Some b \<longrightarrow> m_type b \<noteq> IgnorePreviousRules"
    and "actions_of_extensions fuel n url flags es found = Returned new"
  shows "\<exists>b \<in> set new. m_type b = IgnorePreviousRules"
  using assms(1,7)
proof (induction es arbitrary: found)
  case (Cons f es)
  obtain mid where mid: "actions_of_extension fuel n url flags f found = Returned mid" "actions_of_extensions fuel n url flags es mid = Returned new"
    using Cons.prems(2) by (auto split: outcome.splits)
  show ?case
  proof (cases "f = e")
    case True
    then show ?thesis using actions_of_extension_ignore [OF assms(2-6)] mid(1) actions_of_extensions_keep [OF mid(2)] by blast
  next
    case False
    then show ?thesis using Cons.IH [OF _ mid(2)] Cons.prems(1) by simp
  qed
qed simp

lemma apply_actions_ignore:
  "b \<in> set as \<Longrightarrow> m_type b = IgnorePreviousRules \<Longrightarrow> apply_actions parseString isDocument hasCurrentDocument as s = None"
proof (induction as arbitrary: s)
  case (Cons a as)
  then show ?case by (cases "apply_action parseString isDocument hasCurrentDocument a s") (auto simp: apply_action_def split: prod.splits)
qed simp

text \<open>
  C27. An ignore-previous-rules action for all requests crashes every load. If an installed extension has
  such an action among those of the root of its bytecode, then for every request that is not for a
  data URL, the processing fails an assertion, unless the bytecode triggers another
  ignore-previous-rules for the request; this holds whatever the other extensions, the document and
  the state of the load are.
\<close>

theorem universal_ignore_crashes:
  assumes "(name, e) \<in> set exts" "\<not> protocolIsData (resourceURL load)"
    and "l \<in> ucast ` set (actionsFromDFARoot (bytecode_of (m_compiledExtension e)))"
    and "deserialize (actions_of (m_compiledExtension e)) l = Some a" "m_type a = IgnorePreviousRules"
    and "DFABytecodeInterpreter_interpret fuel n (bytecode_of (m_compiledExtension e)) (url_string (resourceURL load))
       (getResourceFlags canAccess load) = Returned triggered"
    and "\<forall>m \<in> ucast ` set triggered. \<forall>b. deserialize (actions_of (m_compiledExtension e)) m = Some b \<longrightarrow> m_type b \<noteq> IgnorePreviousRules"
    and "actionsForResourceLoad fuel n protocolIsData url_string canAccess exts load \<noteq> OutOfFuel"
  shows "processContentExtensionRulesForLoad fuel n protocolIsData url_string canAccess parseString hasCurrentDocument load exts st = Crashed"
proof (cases "actionsForResourceLoad fuel n protocolIsData url_string canAccess exts load")
  case (Returned new)
  have "e \<in> set (map snd exts)" using assms(1) by force
  then have "\<exists>b \<in> set new. m_type b = IgnorePreviousRules"
    by (rule actions_of_extensions_ignore [OF _ assms(3-7)]) (use Returned assms(2) in \<open>simp add: actionsForResourceLoad_def\<close>)
  then have "apply_actions parseString (resource_type load = Document) hasCurrentDocument new (exts, st) = None"
    using apply_actions_ignore by blast
  then show ?thesis using Returned by (simp add: processContentExtensionRulesForLoad_def)
qed (use assms(8) in \<open>simp_all add: processContentExtensionRulesForLoad_def\<close>)

text \<open>The rule list with the one rule is compiled without an error, and then a load crashes.\<close>

definition ignores_all :: "CompilationClient \<Rightarrow> bool" where
  "ignores_all client \<longleftrightarrow> writtenActions client = [4] \<and> actionsFromDFARoot (writtenBytecode client) = [0] \<and>
     (case DFABytecodeInterpreter_interpret 2 50 (writtenBytecode client) [97] (getResourceFlags (\<lambda>_ _. True) a_load) of
        Returned triggered \<Rightarrow> triggered = [] | _ \<Rightarrow> False) \<and>
     (case actionsForResourceLoad 2 50 (\<lambda>_. False) (\<lambda>url. url) (\<lambda>_ _. True) (installed client) a_load of
        Returned _ \<Rightarrow> True | _ \<Rightarrow> False)"

theorem universal_ignore_crashes_witness:
  "\<exists>client. compile_rules 4 3 yarr [ignore_rule] = Returned (Inr client) \<and>
     processContentExtensionRulesForLoad 2 50 (\<lambda>_. False) (\<lambda>url. url) (\<lambda>_ _. True) (\<lambda>_. None) True a_load (installed client) a_state = Crashed"
proof -
  have "case compile_rules 4 3 yarr [ignore_rule] of Returned (Inr client) \<Rightarrow> ignores_all client | _ \<Rightarrow> False"
    by code_simp
  then obtain client where r: "compile_rules 4 3 yarr [ignore_rule] = Returned (Inr client)" and "ignores_all client"
    by (auto split: outcome.splits sum.splits)
  then have c: "writtenActions client = [4]" "actionsFromDFARoot (writtenBytecode client) = [0]"
    "DFABytecodeInterpreter_interpret 2 50 (writtenBytecode client) [97] (getResourceFlags (\<lambda>_ _. True) a_load) = Returned []"
    "actionsForResourceLoad 2 50 (\<lambda>_. False) (\<lambda>url. url) (\<lambda>_ _. True) (installed client) a_load \<noteq> OutOfFuel"
    unfolding ignores_all_def by (auto split: outcome.splits)
  let ?e = "ContentExtension_create (literal ''x'') \<lparr>bytecode_of = writtenBytecode client, actions_of = writtenActions client\<rparr> :: unit ContentExtension"
  have e: "bytecode_of (m_compiledExtension ?e) = writtenBytecode client" "actions_of (m_compiledExtension ?e) = [4]"
    using c(1) by (simp_all add: ContentExtension_create_def)
  have inst: "(characters (literal ''x''), ?e) \<in> set (installed client)"
    by (simp add: installed_def addContentExtension_def hm_set_def literal_def units_def string_length_def)
  have d: "deserialize [4] 0 = Some (new_Action IgnorePreviousRules 0)" "m_type (new_Action IgnorePreviousRules 0) = IgnorePreviousRules"
    by code_simp+
  have "processContentExtensionRulesForLoad 2 50 (\<lambda>_. False) (\<lambda>url. url) (\<lambda>_ _. True) (\<lambda>_. None) True a_load (installed client) a_state = Crashed"
    by (rule universal_ignore_crashes [OF inst, unfolded e, where l = 0 and a = "new_Action IgnorePreviousRules 0" and triggered = "[]"])
      (use c(2-4) d in \<open>simp_all add: a_load_def\<close>)
  then show ?thesis using r by blast
qed

end
