(* ===== verification/Yarr_Safe.thy ===== *)
theory Yarr_Safe
  imports Yarr_Parser CE_Filter_Sem
begin

text \<open>
  The calls Yarr makes fit the URL filter parser: parentheses are balanced, so \<open>atomParenthesesEnd\<close>
  always finds an open group, and without a backslash the characters of the classes are ASCII. So
  nothing in the delegate crashes on a filter without a backslash.
\<close>

section \<open>Events the delegate is safe for\<close>

fun flat :: "yarr_event \<Rightarrow> bool" where
  "flat (AtomParenthesesSubpatternBegin capture) = False"
| "flat (AtomParentheticalAssertionBegin invert) = False"
| "flat AtomParenthesesEnd = False"
| "flat e = True"

fun class_ok :: "yarr_event \<Rightarrow> bool" where
  "class_ok (AtomCharacterClassAtom c) = (c < 128)"
| "class_ok (AtomCharacterClassRange a b) = (b < 128)"
| "class_ok e = True"

text \<open>The groups are the open parentheses, as long as there is no error.\<close>

definition depth_is :: "nat \<Rightarrow> PatternParser \<Rightarrow> bool" where
  "depth_is n p \<longleftrightarrow> hasError p \<or> length (m_openGroups p) = n"

lemma addCharacter_ascii: "c < 128 \<Longrightarrow> \<exists>t'. addCharacter c cased t = Some t'"
  using addCharacter_get by (cases t) fastforce+

lemma fold_bind_None: "fold (\<lambda>c r. Option.bind r (f c)) cs None = None"
  by (induction cs) auto

lemma add_characters_ascii: "list_all (\<lambda>c. c < 128) cs \<Longrightarrow> \<exists>t'. add_characters cs cased t = Some t'"
proof (induction cs arbitrary: t)
  case (Cons c cs)
  then obtain t1 where "addCharacter c cased t = Some t1" using addCharacter_ascii by fastforce
  with Cons show ?case by (simp add: add_characters_def)
qed (simp add: add_characters_def)

lemma depth_fail [simp]: "hasError (fail s p)" if "s \<noteq> Ok"
  using that by (simp add: fail_def hasError_def)

lemma fail_groups [simp]: "m_openGroups (fail s p) = m_openGroups p"
  by (simp add: fail_def)

lemma hasError_updates [simp]:
  "hasError (p\<lparr>m_floatingTerm := t\<rparr>) = hasError p" "hasError (p\<lparr>m_openGroups := g\<rparr>) = hasError p"
  "hasError (p\<lparr>m_sunkTerms := ts\<rparr>) = hasError p" "hasError (p\<lparr>m_hasBeginningOfLineAssertion := b\<rparr>) = hasError p"
  "hasError (p\<lparr>m_hasProcessedEndOfLineAssertion := b\<rparr>) = hasError p"
  by (simp_all add: hasError_def)

lemma sink_groups: "length (m_openGroups (sinkFloatingTermIfNecessary p)) = length (m_openGroups p)"
  by (auto simp: sinkFloatingTermIfNecessary_def Let_def)

lemma sink_depth:
  "depth_is n p \<Longrightarrow> depth_is n (sinkFloatingTermIfNecessary p)"
  by (auto simp: sinkFloatingTermIfNecessary_def depth_is_def Let_def)

lemma character_term_ascii: "c < 128 \<Longrightarrow> \<exists>t. character_term c cased = Some t"
  unfolding character_term_def by (rule addCharacter_ascii)

lemma flat_safe:
  assumes "flat e" "class_ok e" "depth_is n p"
  shows "\<exists>p'. on_event e p = Some p' \<and> depth_is n p'"
proof (cases "hasError p")
  case True
  then show ?thesis using assms
    by (cases e) (auto simp: depth_is_def atomPatternCharacter_def atomBuiltInCharacterClass_def quantifyAtom_def assertionBOL_def
        assertionEOL_def atomCharacterClassBegin_def atomCharacterClassAtom_def atomCharacterClassRange_def)
next
  case False
  note defs = atomPatternCharacter_def atomBuiltInCharacterClass_def quantifyAtom_def assertionBOL_def
        assertionEOL_def atomCharacterClassBegin_def atomCharacterClassAtom_def atomCharacterClassRange_def
  show ?thesis
  proof (cases e)
    case (AtomPatternCharacter c)
    show ?thesis
    proof (cases "c < 128")
      case True
      then obtain t where "character_term c (m_patternIsCaseSensitive (sinkFloatingTermIfNecessary p)) = Some t"
        using character_term_ascii by blast
      then show ?thesis using AtomPatternCharacter True False sink_depth [OF assms(3)]
        by (simp add: defs isASCII_def depth_is_def Let_def)
    qed (use AtomPatternCharacter False in \<open>simp add: defs isASCII_def depth_is_def\<close>)
  next
    case (AtomCharacterClassAtom c)
    then show ?thesis using assms False addCharacter_ascii [of c] by (fastforce simp: defs depth_is_def)
  next
    case (AtomCharacterClassRange a b)
    then have "list_all (\<lambda>c. c < 128) [a..<Suc b]" using assms(2) by (auto simp: list_all_iff)
    then obtain t' where "add_characters [a..<Suc b] (m_patternIsCaseSensitive p) (m_floatingTerm p) = Some t'"
      using add_characters_ascii by blast
    then show ?thesis using AtomCharacterClassRange assms False by (simp add: defs depth_is_def del: upt_Suc)
  qed (use assms False sink_depth [OF assms(3)] in \<open>auto simp: defs depth_is_def Let_def\<close>)
qed

lemma flat_run:
  "list_all flat es \<Longrightarrow> list_all class_ok es \<Longrightarrow> depth_is n p \<Longrightarrow> \<exists>p'. run_events es p = Some p' \<and> depth_is n p'"
proof (induction es arbitrary: p)
  case (Cons e es)
  then obtain p1 where "on_event e p = Some p1" "depth_is n p1" using flat_safe [of e n p] by auto
  with Cons show ?case by simp
qed simp

lemma open_run: "depth_is n p \<Longrightarrow> depth_is (Suc n) (atomParenthesesSubpatternBegin p)"
  using sink_depth [of n p] by (auto simp: atomParenthesesSubpatternBegin_def depth_is_def Let_def)

lemma close_run: "depth_is (Suc n) p \<Longrightarrow> \<exists>p'. atomParenthesesEnd p = Some p' \<and> depth_is n p'"
  using sink_groups [of p] by (auto simp: atomParenthesesEnd_def depth_is_def Let_def)

section \<open>The events of a token\<close>

definition plain :: "nat list \<Rightarrow> bool" where
  "plain data \<longleftrightarrow> list_all (\<lambda>c. c < 128 \<and> c \<noteq> 92) data"

lemma plain_suffix: "plain data \<Longrightarrow> suffix rest data \<Longrightarrow> plain rest"
  by (auto simp: plain_def suffix_def)

lemma class_character_events:
  assumes "class_atomPatternCharacter ch hyphen d = (es, err, d')"
  shows "list_all flat es" "ch < 128 \<Longrightarrow> m_character d < 128 \<Longrightarrow> list_all class_ok es \<and> m_character d' < 128"
  using assms by (auto simp: class_atomPatternCharacter_def split: CharacterClassConstructionState.splits if_splits)

lemma class_escape_flat:
  assumes "class_escape e d = (es, err, d')"
  shows "list_all flat es"
  using assms class_character_events(1)
  by (fastforce simp: class_escape_def class_atomBuiltInCharacterClass_def split: escape.splits CharacterClassConstructionState.splits prod.splits)

lemma class_end_events: "list_all flat (class_end d)" "m_character d < 128 \<Longrightarrow> list_all class_ok (class_end d)"
  by (auto simp: class_end_def split: CharacterClassConstructionState.splits)

lemma class_loop_flat:
  "list_all flat events \<Longrightarrow> list_all flat (fst (class_loop limit data d events))"
proof (induction limit data d events rule: class_loop.induct)
  case (2 limit c data d events)
  show ?case
    using "2.prems" class_end_events(1) "2.IH" class_escape_flat class_character_events(1)
    by (fastforce split: option.splits prod.splits)
qed simp

lemma class_loop_plain:
  "list_all class_ok events \<Longrightarrow> m_character d < 128 \<Longrightarrow> plain data \<Longrightarrow> list_all class_ok (fst (class_loop limit data d events))"
proof (induction limit data d events rule: class_loop.induct)
  case (2 limit c data d events)
  show ?case
  proof (cases "c = 93")
    case True
    then show ?thesis using "2.prems" class_end_events(2) by simp
  next
    case False
    have c: "c \<noteq> 92" "c < 128" "plain data" using "2.prems"(3) by (simp_all add: plain_def)
    then have u: "uchar c = c" by (simp add: uchar_def)
    obtain es err d' where ce: "class_atomPatternCharacter (uchar c) True d = (es, err, d')"
      by (cases "class_atomPatternCharacter (uchar c) True d")
    then have es: "list_all class_ok (events @ es)" "m_character d' < 128"
      using class_character_events(2) [OF ce] c "2.prems" by (auto simp: u)
    show ?thesis
    proof (cases "err = NoError")
      case True
      from "2.IH"(2) [OF False c(1) ce [symmetric] refl _ es c(3)] True ce False c show ?thesis by simp
    qed (use es ce False c in simp)
  qed
qed simp

text \<open>A token is flat, opens a parenthesis, or closes one that is open.\<close>

definition token_fits :: "u32 \<Rightarrow> token_result \<Rightarrow> bool" where
  "token_fits depth t \<longleftrightarrow>
     list_all flat (tk_events t) \<and> (tk_err t = NoError \<longrightarrow> tk_depth t = depth) \<or>
     tk_depth t = depth + 1 \<and> (\<exists>b. tk_events t = [AtomParenthesesSubpatternBegin b] \<or> tk_events t = [AtomParentheticalAssertionBegin b]) \<or>
     0 < depth \<and> tk_depth t = depth - 1 \<and> tk_events t = [AtomParenthesesEnd]"

lemma parseCharacterClass_eq:
  "parseCharacterClass limit data =
     class_loop limit (snd (tryConsume 94 data)) new_CharacterClassParserDelegate [AtomCharacterClassBegin (fst (tryConsume 94 data))]"
  by (simp add: parseCharacterClass_def case_prod_beta)

lemma parseCharacterClass_flat: "parseCharacterClass limit data = (es, err, rest) \<Longrightarrow> list_all flat es"
  using class_loop_flat [of "[AtomCharacterClassBegin (fst (tryConsume 94 data))]" limit "snd (tryConsume 94 data)"
      new_CharacterClassParserDelegate]
  by (simp add: parseCharacterClass_eq)

lemma parseCharacterClass_plain:
  assumes "parseCharacterClass limit data = (es, err, rest)" "plain data"
  shows "list_all class_ok es"
proof -
  have "plain (snd (tryConsume 94 data))" using plain_suffix [OF assms(2)] tryConsume_suffix by (metis prod.collapse)
  then have "list_all class_ok (fst (parseCharacterClass limit data))"
    unfolding parseCharacterClass_eq by (intro class_loop_plain) (simp_all add: new_CharacterClassParserDelegate_def)
  then show ?thesis using assms(1) by simp
qed

lemma escape_event_flat: "flat (escape_event e)" "class_ok (escape_event e)"
  by (cases e; simp)+

lemma parseQuantifier_flat:
  "list_all flat (tk_events (parseQuantifier depth atom minimum maximum data))"
  "list_all class_ok (tk_events (parseQuantifier depth atom minimum maximum data))"
  "tk_depth (parseQuantifier depth atom minimum maximum data) = depth"
  by (auto simp: parseQuantifier_def split: prod.splits)

lemma token_fits_token: "token_fits depth (parse_token limit atom depth c data)"
proof -
  have b: "token_fits depth (parseParenthesesBegin depth data)"
    by (auto simp: parseParenthesesBegin_def token_fits_def split: prod.splits list.splits)
  have e: "token_fits depth (parseParenthesesEnd depth data)"
    by (auto simp: parseParenthesesEnd_def token_fits_def)
  have q: "token_fits depth (parseQuantifier depth atom minimum maximum rest)" for minimum maximum rest
    by (simp add: token_fits_def parseQuantifier_flat)
  have s: "token_fits depth (single ev depth rest a)" if "flat ev" for ev rest a
    using that by (simp add: token_fits_def single_def)
  have f: "token_fits depth \<lparr>tk_events = es, tk_err = err, tk_rest = rest, tk_depth = depth, tk_atom = a\<rparr>" if "list_all flat es" for es err rest a
    using that by (simp add: token_fits_def)
  show ?thesis unfolding parse_token_def
    using b e q s f parseCharacterClass_flat escape_event_flat(1)
    by (auto split: option.split prod.split)
qed

lemma token_plain:
  assumes "plain (c # data)"
  shows "list_all class_ok (tk_events (parse_token limit atom depth c data))"
proof -
  have b: "list_all class_ok (tk_events (parseParenthesesBegin depth data))"
    by (auto simp: parseParenthesesBegin_def split: prod.splits list.splits)
  have e: "list_all class_ok (tk_events (parseParenthesesEnd depth data))"
    by (auto simp: parseParenthesesEnd_def)
  have s: "list_all class_ok (tk_events (single ev depth rest a))" if "class_ok ev" for ev rest a
    using that by (simp add: single_def)
  have "plain data" "c \<noteq> 92" using assms by (simp_all add: plain_def)
  then show ?thesis unfolding parse_token_def
    using b e s parseQuantifier_flat(2) parseCharacterClass_plain
    by (auto split: option.split prod.split)
qed

section \<open>Whole patterns\<close>

lemma parse_plain: "plain data \<Longrightarrow> list_all class_ok (fst (parseTokens limit atom depth data))"
proof (induction limit atom depth data rule: parseTokens.induct)
  case (2 limit atom depth c data)
  let ?t = "parse_token limit atom depth c data"
  have es: "list_all class_ok (tk_events ?t)" using token_plain "2.prems" .
  have "plain (tk_rest ?t)" using "2.prems" by (intro plain_suffix [OF _ parse_token_suffix]) (simp add: plain_def)
  with "2.IH" [OF refl] es show ?case by (simp add: Let_def case_prod_beta)
qed simp

lemma parse_safe:
  "depth_is (unat depth) p \<Longrightarrow> unat depth + length data < 4294967296 \<Longrightarrow>
   list_all class_ok (fst (parseTokens limit atom depth data)) \<Longrightarrow>
   \<exists>p'. run_events (fst (parseTokens limit atom depth data)) p = Some p'"
proof (induction limit atom depth data arbitrary: p rule: parseTokens.induct)
  case (2 limit atom depth c data)
  let ?t = "parse_token limit atom depth c data"
  let ?r = "parseTokens limit (tk_atom ?t) (tk_depth ?t) (tk_rest ?t)"
  have fst_eq: "fst (parseTokens limit atom depth (c # data)) = (if tk_err ?t = NoError then tk_events ?t @ fst ?r else tk_events ?t)"
    by (simp add: Let_def case_prod_beta)
  have len: "length (tk_rest ?t) \<le> length data" using parse_token_suffix by (rule suffix_length_le)
  have ok: "list_all class_ok (tk_events ?t)" using "2.prems"(3) unfolding fst_eq by (auto split: if_splits)
  have "\<exists>p1. run_events (tk_events ?t) p = Some p1 \<and>
      (tk_err ?t = NoError \<longrightarrow> depth_is (unat (tk_depth ?t)) p1 \<and> unat (tk_depth ?t) \<le> Suc (unat depth))"
    using token_fits_token [of depth limit atom c data] unfolding token_fits_def
  proof (elim disjE conjE exE)
    assume "list_all flat (tk_events ?t)" "tk_err ?t = NoError \<longrightarrow> tk_depth ?t = depth"
    then show ?thesis using flat_run [OF _ ok "2.prems"(1)] by fastforce
  next
    fix b assume t: "tk_depth ?t = depth + 1" "tk_events ?t = [AtomParenthesesSubpatternBegin b]"
    have "unat (depth + 1) = Suc (unat depth)" using "2.prems"(2) by (simp add: unat_word_ariths)
    then show ?thesis using open_run [OF "2.prems"(1)] t by simp
  next
    fix b assume t: "tk_depth ?t = depth + 1" "tk_events ?t = [AtomParentheticalAssertionBegin b]"
    have "unat (depth + 1) = Suc (unat depth)" using "2.prems"(2) by (simp add: unat_word_ariths)
    then show ?thesis using t by (simp add: depth_is_def)
  next
    assume t: "0 < depth" "tk_depth ?t = depth - 1" "tk_events ?t = [AtomParenthesesEnd]"
    then have "0 < unat depth" "depth \<noteq> 0" by (auto simp: word_less_nat_alt)
    with unat_minus_one [of depth] have "unat depth = Suc (unat (depth - 1))" by simp
    then show ?thesis using close_run [of "unat (depth - 1)" p] "2.prems"(1) t by fastforce
  qed
  then obtain p1 where p1: "run_events (tk_events ?t) p = Some p1"
    "tk_err ?t = NoError \<Longrightarrow> depth_is (unat (tk_depth ?t)) p1 \<and> unat (tk_depth ?t) \<le> Suc (unat depth)" by blast
  show ?case
  proof (cases "tk_err ?t = NoError")
    case True
    have "unat (tk_depth ?t) + length (tk_rest ?t) < 4294967296" using p1(2) [OF True] len "2.prems"(2) by simp
    moreover have "list_all class_ok (fst ?r)" using "2.prems"(3) True unfolding fst_eq by simp
    ultimately have "\<exists>p'. run_events (fst ?r) p1 = Some p'" using "2.IH" [OF refl _ _ _ _] True p1(2) by blast
    then show ?thesis using True p1(1) unfolding fst_eq by simp
  qed (use p1(1) fst_eq in \<open>simp del: parseTokens.simps\<close>)
qed simp

lemma addURLFilter_safe:
  assumes "list_all class_ok (fst (yarr pattern))"
  shows "\<exists>r. addURLFilter yarr pattern cased a tree = Some r"
proof -
  have d: "depth_is (unat (0 :: u32)) (new_PatternParser cased)" by (simp add: depth_is_def new_PatternParser_def)
  have "\<exists>p'. run_events (fst (yarr pattern)) (new_PatternParser cased) = Some p'"
  proof (cases "int (length pattern) > 1024 * 1024")
    case False
    then have y: "fst (yarr pattern) = fst (parseTokens 0 False 0 pattern)" by (simp add: yarr_def Yarr_parse_def case_prod_beta)
    show ?thesis using parse_safe [OF d, of pattern 0 False] False assms unfolding y by simp
  qed (simp add: yarr_def Yarr_parse_def)
  then show ?thesis by (auto simp: addURLFilter_def case_prod_beta Let_def)
qed

lemma plain_filter_ok:
  assumes "list_all isASCII pattern" "92 \<notin> set pattern"
  shows "list_all class_ok (fst (yarr pattern))"
proof -
  have "plain pattern" using assms by (auto simp: plain_def list_all_iff isASCII_def)
  then show ?thesis using parse_plain by (simp add: yarr_def Yarr_parse_def case_prod_beta)
qed

end
