(* ===== verification/Yarr_Props.thy ===== *)
theory Yarr_Props
  imports Yarr_Print Yarr_Safe
begin

text \<open>
  The properties of the regular expression parser: it reads what the printer prints, with the URL
  filter parser behind it, and what can crash there.
\<close>

section \<open>Examples\<close>

definition class_filter :: url_filter where
  "class_filter = \<lparr>rx_anchored = True, rx_pieces = [RxQ (RxGroup [RxQ (RxChar 46) One, RxQ (RxClass True [ItemRange 97 99]) OneOrMore]) ZeroOrOne, RxQ (RxChar 98) One], rx_eol = False\<rparr>"

text \<open>The pattern \<open>[\x80]\<close>, all of ASCII.\<close>

definition high_class :: "nat list" where
  "high_class = [91, 92, 120, 56, 48, 93]"

lemmas parser_defs = yarr_def Yarr_parse_def parseTokens.simps(2) parse_token_def parseCharacterClass_def tryConsume_def
   class_loop.simps(2) parseEscape_def isASCIIHexDigit_def isASCIIDigit_def toASCIIHexValue_def class_escape_def
   class_atomPatternCharacter_def new_CharacterClassParserDelegate_def class_end_def

lemma high_class_events:
  "yarr high_class = ([AtomCharacterClassBegin False, AtomCharacterClassAtom 128, AtomCharacterClassEnd], False)"
  by (simp add: parser_defs high_class_def numeral_2_eq_2)

lemma class_filter_valid: "valid_filter class_filter"
  by (simp add: valid_filter_def class_filter_def list_all_id_map)

lemma class_filter_printed: "print_filter class_filter = [94, 40, 92, 46, 91, 94, 97, 45, 99, 93, 43, 41, 63, 98]"
  by (simp add: print_filter_def class_filter_def print_char_def specials_def print_class_char_def)

section \<open>Numbers\<close>

definition digits_value :: "nat \<Rightarrow> nat list \<Rightarrow> nat" where
  "digits_value n ds = foldl (\<lambda>n c. n * 10 + (c - 48)) n ds"

lemma digits_value_ge: "n \<le> digits_value n ds"
proof (induction ds arbitrary: n)
  case (Cons c ds)
  have "n \<le> n * 10 + (c - 48)" by simp
  also have "\<dots> \<le> digits_value (n * 10 + (c - 48)) ds" by (rule Cons.IH)
  finally show ?case by (simp add: digits_value_def)
qed (simp add: digits_value_def)

lemma consume_digits_exact:
  assumes "list_all isASCIIDigit ds" "data = [] \<or> \<not> isASCIIDigit (hd data)" "digits_value n ds < 4294967296"
  shows "consume_digits (of_nat n) (ds @ data) = (of_nat (digits_value n ds), data)"
  using assms(1,3)
proof (induction ds arbitrary: n)
  case Nil
  then show ?case using assms(2) by (cases data) (auto simp: digits_value_def)
next
  case (Cons c ds)
  have small: "n * 10 + (c - 48) < 4294967296"
    using digits_value_ge [of "n * 10 + (c - 48)" ds] Cons.prems(2) by (simp add: digits_value_def)
  have next_n: "of_nat n * 10 + digit_value c = (of_nat (n * 10 + (c - 48)) :: u32)" by (simp add: digit_value_def)
  have "unat (of_nat n :: u32) \<le> unat (of_nat (n * 10 + (c - 48)) :: u32)"
    using small by (simp add: unat_of_nat_sizes del: of_nat_add of_nat_mult)
  then have "(of_nat n :: u32) \<le> of_nat n * 10 + digit_value c" unfolding next_n by (simp only: word_le_nat_alt)
  moreover have "consume_digits (of_nat (n * 10 + (c - 48))) (ds @ data) = (of_nat (digits_value (n * 10 + (c - 48)) ds), data)"
    using Cons.IH [of "n * 10 + (c - 48)"] Cons.prems by (simp add: digits_value_def del: of_nat_add of_nat_mult)
  ultimately show ?case using Cons.prems(1) by (simp add: next_n digits_value_def del: of_nat_add of_nat_mult)
qed

section \<open>Properties\<close>

text \<open>
  C9. The parser reads every supported filter as it is printed: the calls of the delegate are the
  tokens of the expression, in their order, and there is no error. So no token runs into the next,
  escapes and character classes are undone, and no quantifier becomes reluctant.
\<close>

theorem yarr_reads_printed:
  assumes "valid_filter f" "int (length (print_filter f)) \<le> 1024 * 1024"
  shows "yarr (print_filter f) = (filter_events f, False)"
  using yarr_printed [OF assms] .

theorem yarr_reads_printed_witness:
  "yarr [94, 40, 92, 46, 91, 94, 97, 45, 99, 93, 43, 41, 63, 98] = (filter_events class_filter, False)"
  using yarr_reads_printed [OF class_filter_valid] by (simp add: class_filter_printed)

text \<open>
  C3. From the text of a filter to its meaning: adding the text of a supported filter, read by the
  parser, either changes nothing and reports that it matches everything, or adds the action to exactly
  the URLs the regular expression matches.
\<close>

theorem printed_filter_triggers:
  assumes "valid_filter f" "int (length (print_filter f)) \<le> 1024 * 1024" "good_tree tree"
  shows "\<exists>status tree'. addURLFilter yarr (print_filter f) cased a tree = Some (status, tree') \<and> good_tree tree' \<and>
     (status = MatchesEverything \<and> tree' = tree \<or>
      status = Ok \<and> (\<forall>url. 0 \<notin> set url \<longrightarrow>
        triggers (vertex_meaning tree') url =
          triggers (vertex_meaning tree) url \<union> (if filter_hits (rx_anchored f) (filter_lang cased f) url then {a} else {})))"
  using addURLFilter_good [where yarr = yarr and pattern = "print_filter f",
      OF assms(1) yarr_printed [OF assms(1,2)] printed_facts [OF assms(1)] assms(3)] .

theorem printed_filter_triggers_witness:
  "\<exists>r. addURLFilter yarr [94, 40, 92, 46, 91, 94, 97, 45, 99, 93, 43, 41, 63, 98] True 7 empty_vertex = Some r"
  using printed_filter_triggers [OF class_filter_valid _ good_empty(1), of True 7] by (auto simp: class_filter_printed)

text \<open>
  C12. No filter without a backslash crashes the URL filter parser, nor any filter for which Yarr
  reports only ASCII characters in classes: the groups the delegate closes are open, and no character
  outside ASCII gets into a character set.
\<close>

theorem addURLFilter_returns:
  assumes "92 \<notin> set pattern \<or> list_all class_ok (fst (yarr pattern))"
  shows "\<exists>r. addURLFilter yarr pattern cased a tree = Some r"
proof (cases "list_all isASCII pattern")
  case True
  then have "list_all class_ok (fst (yarr pattern))" using assms plain_filter_ok by blast
  then show ?thesis by (rule addURLFilter_safe)
qed (simp add: addURLFilter_def)

theorem addURLFilter_returns_witness:
  "\<exists>r. addURLFilter yarr [40, 91, 94, 45, 122, 93, 41, 43, 41] False 1 empty_vertex = Some r"
  by (rule addURLFilter_returns) simp

text \<open>
  C28. An escape in a character class can crash the compilation: the filter \<open>[\x80]\<close> is all ASCII, but
  the delegate puts the character 128 into the character set, whose assertion fails, where a character
  outside of a class is refused with the status \<open>NonASCII\<close>.
\<close>

theorem escape_in_class_crashes:
  "list_all isASCII high_class \<and> addURLFilter yarr high_class cased a tree = None \<and>
   addURLFilter yarr [92, 120, 56, 48] cased a tree = Some (NonASCII, tree)"
proof -
  have "yarr [92, 120, 56, 48] = ([AtomPatternCharacter 128], False)"
    by (simp add: parser_defs single_def numeral_2_eq_2)
  moreover have "\<not> isASCII 128" "\<not> isASCIIAlpha 128" by (simp_all add: isASCII_def isASCIIAlpha_def)
  ultimately show ?thesis
    using high_class_events
    by (simp add: addURLFilter_def high_class_def isASCII_def atomCharacterClassBegin_def atomCharacterClassAtom_def hasError_def
      new_PatternParser_def sinkFloatingTermIfNecessary_def character_set_term_def CharacterSet_set_def atomPatternCharacter_def
      fail_def finalize_def)
qed

text \<open>
  Numbers below 2^32 are read exactly, with all their digits.
\<close>

theorem consumeNumber_exact:
  assumes "list_all isASCIIDigit (d # ds)" "data = [] \<or> \<not> isASCIIDigit (hd data)" "digits_value 0 (d # ds) < 4294967296"
  shows "consumeNumber ((d # ds) @ data) = (of_nat (digits_value 0 (d # ds)), data)"
  using consume_digits_exact [of ds data "d - 48"] assms by (simp add: consumeNumber_def digit_value_def digits_value_def)

theorem consumeNumber_exact_witness:
  "consumeNumber ([52, 50, 57, 52, 57, 54, 55, 50, 57, 53] @ [125]) = (4294967295, [125])"
  using consumeNumber_exact [of 52 "[50, 57, 52, 57, 54, 55, 50, 57, 53]" "[125]"] by (simp add: isASCIIDigit_def digits_value_def)

text \<open>
  The check for overflow misses numbers: 10000000000 is read as 1410065408, and the quantifier
  \<open>{0,12884901887}\<close> as one without an upper bound.
\<close>

lemma consumeNumber_wraps:
  "consumeNumber [49, 48, 48, 48, 48, 48, 48, 48, 48, 48, 48] = (1410065408, []) \<and>
   yarr [97, 123, 48, 44, 49, 50, 56, 56, 52, 57, 48, 49, 56, 56, 55, 125] =
     ([AtomPatternCharacter 97, QuantifyAtom 0 quantifyInfinite True], False)"
  by (simp add: parser_defs single_def braces_def parseQuantifier_def consumeNumber_def digit_value_def quantifyInfinite_def)

end
