(* ===== verification/WTF_Base64_Props.thy ===== *)
theory WTF_Base64_Props
  imports WTF_Base64
begin

text \<open>
  What Base64 encoding and decoding promise: the encoder fills its output exactly, the decoder returns
  what was encoded, for both alphabets, and what the decoder returns when it has seen no character of
  the alphabet. An alphabet is an interface of its own, with the encoding and the decoding map of the
  two alphabets of the code as its instances.
\<close>

section \<open>The length of the output\<close>

lemma div_pred_19: "j div 19 = (j - 1) div 19 + (if j \<noteq> 0 \<and> j mod 19 = 0 then 1 else 0)" for j :: nat
  by (cases j) (simp_all add: div_Suc)

lemma line_feed_count: "4 * j mod 76 = 0 \<longleftrightarrow> j mod 19 = (0 :: nat)"
  using mod_mult_mult1 [of 4 j 19] by simp

lemma encode_loop_no_LFs: "encode_loop e False count data = map e (sextets_of_bytes data)"
  by (induction e False count data rule: encode_loop.induct) (simp_all add: line_feed_def)

lemma encode_loop_LFs_length:
  "length (encode_loop e True (4 * j) data) + (j - 1) div 19 = length (sextets_of_bytes data) + (j + (length data + 2) div 3 - 1) div 19"
proof (induction data arbitrary: j rule: sextets_of_bytes.induct)
  case 1
  then show ?case by simp
next
  case (2 a)
  then show ?case using div_pred_19 [of j] by (simp add: line_feed_def line_feed_count)
next
  case (3 a b)
  then show ?case using div_pred_19 [of j] by (simp add: line_feed_def line_feed_count)
next
  case (4 a b c data)
  let ?i = "if j \<noteq> 0 \<and> j mod 19 = 0 then 1 else 0 :: nat"
  have "4 * (j + 1) = 4 * j + 4" by simp
  then have e: "length (encode_loop e True (4 * j) (a # b # c # data)) = ?i + 4 + length (encode_loop e True (4 * (j + 1)) data)"
    by (simp only: encode_loop.simps) (simp add: line_feed_def line_feed_count)
  have g: "(length (a # b # c # data) + 2) div 3 = Suc ((length data + 2) div 3)" using div_add_self2 [of 3 "length data + 2"] by (simp add: ac_simps)
  have ih: "length (encode_loop e True (4 * (j + 1)) data) + j div 19 = length (sextets_of_bytes data) + (j + (length data + 2) div 3) div 19"
    using "4.IH" [of "j + 1"] by (simp only: add_diff_cancel_right' ab_semigroup_add_class.add_ac) simp
  have s: "length (sextets_of_bytes (a # b # c # data)) = 4 + length (sextets_of_bytes data)" by simp
  have j: "j + Suc ((length data + 2) div 3) - 1 = j + (length data + 2) div 3" by simp
  show ?case unfolding e g s j using ih div_pred_19 [of j] by linarith
qed

lemma three_cases:
  obtains q where "n = 3 * q" | q where "n = 3 * q + 1" | q where "n = 3 * q + (2 :: nat)"
proof -
  have "n = 3 * (n div 3) + n mod 3" "n mod 3 < 3" by simp_all
  then have "n = 3 * (n div 3) \<or> n = 3 * (n div 3) + 1 \<or> n = 3 * (n div 3) + 2" by linarith
  then show ?thesis using that by blast
qed

definition paddedLength :: "nat \<Rightarrow> nat" where
  "paddedLength n = ((n + 2) div 3) * 4"

lemma sextets_padding: "paddedLength n = (n * 4 + 2) div 3 + (if n mod 3 = 0 then 0 else 3 - n mod 3)"
proof (rule three_cases [of n])
  fix q assume n: "n = 3 * q"
  have "(3 * q + 2) div 3 = q" "(3 * q * 4 + 2) div 3 = 4 * q" by presburger+
  then show ?thesis by (simp only: paddedLength_def n) simp
next
  fix q assume n: "n = 3 * q + 1"
  have "(3 * q + 1 + 2) div 3 = q + 1" "((3 * q + 1) * 4 + 2) div 3 = 4 * q + 2" "(3 * q + 1) mod 3 = 1" by presburger+
  then show ?thesis by (simp only: paddedLength_def n) simp
next
  fix q assume n: "n = 3 * q + 2"
  have "(3 * q + 2 + 2) div 3 = q + 1" "((3 * q + 2) * 4 + 2) div 3 = 4 * q + 3" "(3 * q + 2) mod 3 = 2" by presburger+
  then show ?thesis by (simp only: paddedLength_def n) simp
qed

lemma shrunk_length:
  assumes "n > (0 :: nat)"
  shows "(n * 4 + 2) div 3 mod 4 \<noteq> 1 \<and> (n * 4 + 2) div 3 - ((n * 4 + 2) div 3 + 3) div 4 = n \<and> n < (n * 4 + 2) div 3"
proof (rule three_cases [of n])
  fix q assume n: "n = 3 * q"
  have "(3 * q * 4 + 2) div 3 = 4 * q" "(4 * q + 3) div 4 = q" "4 * q mod 4 = 0" by presburger+
  then show ?thesis using assms by (simp only: n) simp
next
  fix q assume n: "n = 3 * q + 1"
  have "((3 * q + 1) * 4 + 2) div 3 = 4 * q + 2" "(4 * q + 2 + 3) div 4 = q + 1" "(4 * q + 2) mod 4 = 2" by presburger+
  then show ?thesis using assms by (simp only: n) simp
next
  fix q assume n: "n = 3 * q + 2"
  have "((3 * q + 2) * 4 + 2) div 3 = 4 * q + 3" "(4 * q + 3 + 3) div 4 = q + 1" "(4 * q + 3) mod 4 = 3" by presburger+
  then show ?thesis using assms by (simp only: n) simp
qed

lemma encode_loop_length:
  assumes "data \<noteq> []"
  shows "length (encode_loop e insertLFs 0 data) =
    length (sextets_of_bytes data) + (if insertLFs then (paddedLength (length data) - 1) div 76 else 0)"
proof (cases insertLFs)
  case True
  let ?g = "(length data + 2) div 3"
  have "?g > 0" using assms by (cases data) (simp_all add: div_greater_zero_iff)
  then obtain g where g: "?g = Suc g" by (cases ?g) auto
  have "(Suc g * 4 - 1) div 76 = (4 * g + 3) div 4 div 19" by (simp add: div_mult2_eq [symmetric] algebra_simps)
  also have "(4 * g + 3) div 4 = g" by presburger
  finally have "(paddedLength (length data) - 1) div 76 = g div 19" unfolding paddedLength_def g .
  then show ?thesis using encode_loop_LFs_length [of e 0 data] True by (simp add: g del: add_2_eq_Suc')
next
  case False
  then show ?thesis by (simp add: encode_loop_no_LFs)
qed

definition paddingLength :: "nat \<Rightarrow> nat" where
  "paddingLength n = (if n mod 3 = 0 then 0 else 3 - n mod 3)"

definition breaksLines :: "Base64EncodePolicy \<Rightarrow> nat \<Rightarrow> bool" where
  "breaksLines policy n \<longleftrightarrow> policy = Base64InsertLFs \<and> paddedLength n > 76"

definition lineFeeds :: "Base64EncodePolicy \<Rightarrow> nat \<Rightarrow> nat" where
  "lineFeeds policy n = (if breaksLines policy n then (paddedLength n - 1) div 76 else 0)"

lemma sextets_padded: "length (sextets_of_bytes data) + paddingLength (length data) = paddedLength (length data)"
  unfolding sextets_length paddingLength_def by (rule sextets_padding [symmetric])

lemma encode_shape:
  assumes "data \<noteq> []" "int (length data) \<le> maxInputBufferSize" "policy \<noteq> Base64URLPolicy"
  shows "base64EncodeInternal data policy m =
    encode_loop (lookup m) (breaksLines policy (length data)) 0 data @ replicate (paddingLength (length data)) 61"
proof -
  have l: "length (encode_loop (lookup m) (breaksLines policy (length data)) 0 data) =
      length (sextets_of_bytes data) + lineFeeds policy (length data)"
    unfolding lineFeeds_def by (rule encode_loop_length [OF assms(1)])
  have "paddedLength (length data) + lineFeeds policy (length data) - (length (sextets_of_bytes data) + lineFeeds policy (length data)) =
      paddingLength (length data)"
    using sextets_padded [of data] by linarith
  moreover have "(if breaksLines policy (length data) then paddedLength (length data) + (paddedLength (length data) - 1) div 76
      else paddedLength (length data)) = paddedLength (length data) + lineFeeds policy (length data)" by (simp add: lineFeeds_def)
  ultimately show ?thesis using assms
    unfolding base64EncodeInternal_def Let_def paddedLength_def [symmetric] breaksLines_def [symmetric] by (simp add: l)
qed

section \<open>An alphabet\<close>

lemma take_write: "n < length out \<Longrightarrow> take (Suc n) (out[n := x]) = take n out @ [x]"
  by (simp add: take_Suc_conv_app_nth)

lemma scan_equals:
  assumes "policy = Base64FailOnInvalidCharacterOrExcessPadding \<longrightarrow> len mod 4 = 0 \<and> m + k \<le> 2"
  shows "decode_scan whitespace policy dm len (replicate k 61) m n out = Some (m + k, n, out)"
  using assms by (induction k arbitrary: m) auto

locale base64_alphabet =
  fixes encodeMap decodeMap :: "u8 list"
  assumes decoded_lookup: "unat i < 64 \<Longrightarrow> decoded decodeMap (unat (lookup encodeMap i)) = i"
    and lookup_not_equals: "unat i < 64 \<Longrightarrow> lookup encodeMap i \<noteq> 61"
    and line_feed_ignored: "decoded decodeMap 10 = nonAlphabet"
begin

lemma scan_sextet:
  assumes "unat i < 64"
  shows "decode_scan whitespace policy decodeMap len (unat (lookup encodeMap i) # chars) 0 n out =
    decode_scan whitespace policy decodeMap len chars 0 (Suc n) (out[n := i])"
proof -
  have "unat (lookup encodeMap i) \<noteq> unat (61 :: u8)" using lookup_not_equals [OF assms] unsigned_word_eqI by blast
  moreover have "i \<noteq> nonAlphabet" using assms by (auto simp: nonAlphabet_def unsigned_minus_1_eq_mask mask_eq_exp_minus_1)
  ultimately show ?thesis by (simp add: decoded_lookup [OF assms])
qed

lemma scan_line_feed:
  assumes "insertLFs \<longrightarrow> policy = Base64IgnoreWhitespace \<or> policy = Base64IgnoreInvalidCharacters"
  shows "decode_scan whitespace policy decodeMap len (map unat (line_feed insertLFs count) @ chars) 0 n out =
    decode_scan whitespace policy decodeMap len chars 0 n out"
  using assms line_feed_ignored by (auto simp: line_feed_def isSpaceOrNewline_def isASCIISpace_def)

lemma scan_sextets:
  assumes "list_all (\<lambda>i. unat i < 64) xs" "n + length xs \<le> length out"
  shows "decode_scan whitespace policy decodeMap len (map (\<lambda>i. unat (lookup encodeMap i)) xs @ chars) 0 n out =
    decode_scan whitespace policy decodeMap len chars 0 (n + length xs) (take n out @ xs @ drop (n + length xs) out)"
  using assms
proof (induction xs arbitrary: n out)
  case Nil
  then show ?case by simp
next
  case (Cons x xs)
  then show ?case by (simp add: scan_sextet take_write del: decode_scan.simps)
qed

lemma scan_encoded:
  assumes "insertLFs \<longrightarrow> policy = Base64IgnoreWhitespace \<or> policy = Base64IgnoreInvalidCharacters"
    and "n + length (sextets_of_bytes data) \<le> length out"
  shows "decode_scan whitespace policy decodeMap len (map unat (encode_loop (lookup encodeMap) insertLFs count data) @ chars) 0 n out =
    decode_scan whitespace policy decodeMap len chars 0 (n + length (sextets_of_bytes data))
      (take n out @ sextets_of_bytes data @ drop (n + length (sextets_of_bytes data)) out)"
  using assms(2)
proof (induction data arbitrary: n count out rule: sextets_of_bytes.induct)
  case 1
  then show ?case by simp
next
  case (2 a)
  then show ?case using scan_line_feed [OF assms(1)] scan_sextets [of "sextets_of_bytes [a]" n out] by (simp add: sextets_small del: decode_scan.simps)
next
  case (3 a b)
  then show ?case using scan_line_feed [OF assms(1)] scan_sextets [of "sextets_of_bytes [a, b]" n out]
    by (simp add: sextets_small del: decode_scan.simps)
next
  case (4 a b c data)
  let ?X = "[sextet1 a, sextet2 a b, sextet3 b c, sextet4 c]"
  let ?count = "if insertLFs then count + 4 else count"
  let ?out = "take n out @ ?X @ drop (n + 4) out"
  have X: "length ?X = 4" by simp
  have l: "n + 4 \<le> length out" "length (take n out) = n" using "4.prems" by simp_all
  then have l': "length ?out = length out" by simp
  have take: "take (n + 4) ?out = take n out @ ?X" using l(2) by simp
  have drop: "drop (n + 4 + k) ?out = drop (n + 4 + k) out" for k
    using drop_drop [of k "n + 4" ?out] l by (simp add: add.commute)
  have "decode_scan whitespace policy decodeMap len (map unat (encode_loop (lookup encodeMap) insertLFs count (a # b # c # data)) @ chars) 0 n out =
    decode_scan whitespace policy decodeMap len
      (map (\<lambda>i. unat (lookup encodeMap i)) ?X @ map unat (encode_loop (lookup encodeMap) insertLFs ?count data) @ chars) 0 n out"
    using scan_line_feed [OF assms(1)] by (simp del: decode_scan.simps)
  also have "\<dots> = decode_scan whitespace policy decodeMap len (map unat (encode_loop (lookup encodeMap) insertLFs ?count data) @ chars) 0 (n + 4) ?out"
    using scan_sextets [of ?X n out] l(1) unfolding X by (simp add: sextets_small del: decode_scan.simps)
  also have "\<dots> = decode_scan whitespace policy decodeMap len chars 0 (n + 4 + length (sextets_of_bytes data))
    (take (n + 4) ?out @ sextets_of_bytes data @ drop (n + 4 + length (sextets_of_bytes data)) ?out)"
    by (rule "4.IH") (use "4.prems" l' in simp)
  finally show ?case unfolding take drop by (simp only: sextets_of_bytes.simps length_append X append_assoc add.assoc)
qed

lemma decode_encoded:
  assumes "insertLFs \<longrightarrow> policy = Base64IgnoreWhitespace \<or> policy = Base64IgnoreInvalidCharacters"
    and "policy = Base64FailOnInvalidCharacterOrExcessPadding \<longrightarrow> k = 0 \<or> k \<le> 2 \<and> (length (sextets_of_bytes data) + k) mod 4 = 0"
    and "data \<noteq> []"
  shows "base64DecodeInternal whitespace fresh
    (map unat (encode_loop (lookup encodeMap) insertLFs 0 data @ replicate k 61)) policy decodeMap = Some data"
proof -
  let ?xs = "sextets_of_bytes data"
  let ?in = "map unat (encode_loop (lookup encodeMap) insertLFs 0 data @ replicate k 61)"
  let ?out = "?xs @ drop (length ?xs) (map fresh [0..<length ?in])"
  have l: "length ?xs \<le> length ?in" using encode_loop_length [OF assms(3)] by simp
  have noLFs: "length ?in = length ?xs + k" if "\<not> insertLFs" using that encode_loop_length [OF assms(3)] by simp
  have "decode_scan whitespace policy decodeMap (length ?in) ?in 0 0 (map fresh [0..<length ?in]) =
    decode_scan whitespace policy decodeMap (length ?in) (replicate k 61) 0 (length ?xs) ?out"
    using scan_encoded [OF assms(1), of 0 data "map fresh [0..<length ?in]"] l by (simp del: decode_scan.simps)
  also have "\<dots> = Some (k, length ?xs, ?out)"
  proof (cases "k = 0")
    case False
    then show ?thesis using scan_equals [of policy "length ?in" 0 k] assms(1,2) noLFs by fastforce
  qed simp
  finally have scan: "decode_scan whitespace policy decodeMap (length ?in) ?in 0 0 (map fresh [0..<length ?in]) = Some (k, length ?xs, ?out)" .
  have pos: "length data > 0" using assms(3) by simp
  have n: "length ?xs = (length data * 4 + 2) div 3" by (rule sextets_length)
  then have m: "length ?xs mod 4 \<noteq> 1" "length ?xs - (length ?xs + 3) div 4 = length data" "length ?xs \<noteq> 0" "length data < length ?xs"
    using shrunk_length [OF pos] by simp_all
  have "decode_rest (length data) (decode_loop (length data) 0 0 ?out) = take 0 ?out @ bytes_of_sextets ?xs"
    by (rule decode_in_place) (use m l in simp_all)
  then have "decode_rest (length data) (decode_loop (length data) 0 0 ?out) = data" by (simp add: bytes_sextets)
  moreover have "?in \<noteq> []" using m(3) l by fastforce
  ultimately show ?thesis unfolding base64DecodeInternal_def using scan m pos by simp
qed

end

lemma small_u8:
  assumes "list_all P (map of_nat [0..<64])" "unat (i :: u8) < 64"
  shows "P i"
proof -
  have "i \<in> set (map of_nat [0..<64])" using assms(2) by (auto intro!: image_eqI [of _ _ "unat i"])
  then show ?thesis using assms(1) by (simp only: list_all_iff)
qed

interpretation base64: base64_alphabet base64EncMap base64DecMap
proof
  have "list_all (\<lambda>i. decoded base64DecMap (unat (lookup base64EncMap i)) = i \<and> lookup base64EncMap i \<noteq> 61) (map of_nat [0..<64])"
    by code_simp
  then show "decoded base64DecMap (unat (lookup base64EncMap i)) = i" "lookup base64EncMap i \<noteq> 61" if "unat i < 64" for i
    using small_u8 [OF _ that] by blast+
  show "decoded base64DecMap 10 = nonAlphabet" by code_simp
qed

interpretation base64URL: base64_alphabet base64URLEncMap base64URLDecMap
proof
  have "list_all (\<lambda>i. decoded base64URLDecMap (unat (lookup base64URLEncMap i)) = i \<and> lookup base64URLEncMap i \<noteq> 61) (map of_nat [0..<64])"
    by code_simp
  then show "decoded base64URLDecMap (unat (lookup base64URLEncMap i)) = i" "lookup base64URLEncMap i \<noteq> 61" if "unat i < 64" for i
    using small_u8 [OF _ that] by blast+
  show "decoded base64URLDecMap 10 = nonAlphabet" by code_simp
qed

section \<open>Properties\<close>

text \<open>
  C16. The encoder, on data that is not empty and not over the limit of the code, writes within the
  vector it has grown, whatever the policy. For the policies with padding the string has exactly
  that length, padding and line feeds included; for the URL policy, with either alphabet, it has a
  character for every six bits of the data, rounded up, and no padding.
\<close>

theorem base64Encode_length:
  assumes "data \<noteq> []" "int (length data) \<le> maxInputBufferSize"
  shows "length (encode_loop (lookup base64EncMap) (breaksLines policy (length data)) 0 data) \<le>
      paddedLength (length data) + lineFeeds policy (length data) \<and>
    length (base64Encode data policy) =
      (if policy = Base64URLPolicy then (length data * 8 + 5) div 6 else paddedLength (length data) + lineFeeds policy (length data)) \<and>
    length (base64URLEncode data) = (length data * 8 + 5) div 6"
proof -
  have loop: "length (encode_loop e (breaksLines p (length data)) 0 data) = length (sextets_of_bytes data) + lineFeeds p (length data)" for e p
    unfolding lineFeeds_def by (rule encode_loop_length [OF assms(1)])
  have "length (sextets_of_bytes data) = (length data * 8 + 5) div 6" unfolding sextets_length by presburger
  moreover have "lineFeeds Base64URLPolicy (length data) = 0" by (simp add: lineFeeds_def breaksLines_def)
  ultimately have url: "length (encode_loop e False 0 data) = (length data * 8 + 5) div 6" for e
    using loop [of e Base64URLPolicy] by (simp add: breaksLines_def)
  show ?thesis
  proof (cases "policy = Base64URLPolicy")
    case True
    then show ?thesis using url loop [of _ policy] assms sextets_padded [of data]
      by (simp add: base64Encode_def base64URLEncode_def base64EncodeInternal_def Let_def)
  next
    case False
    have u: "length (base64URLEncode data) = (length data * 8 + 5) div 6"
      using url assms by (simp add: base64URLEncode_def base64EncodeInternal_def Let_def)
    show ?thesis unfolding base64Encode_def encode_shape [OF assms False] using u False loop [of _ policy] sextets_padded [of data] by simp
  qed
qed

lemma base64Encode_length_witness:
  "length (base64Encode (replicate 58 0) Base64InsertLFs) = 81 \<and> length (base64URLEncode (replicate 58 0)) = 78"
  using base64Encode_length [of "replicate 58 0" Base64InsertLFs]
  by (simp add: maxInputBufferSize_def paddedLength_def lineFeeds_def breaksLines_def)

text \<open>
  C15. Decoding what was encoded gives the data back: without line feeds under every policy of the
  decoder, with line feeds under those that skip them, whatever the memory of the output held before;
  and the same holds for the alphabet of URLs, which is not padded.
\<close>

theorem base64_roundtrip:
  assumes "int (length data) \<le> maxInputBufferSize"
    and "encodePolicy = Base64DoNotInsertLFs \<or>
      encodePolicy = Base64InsertLFs \<and> (policy = Base64IgnoreWhitespace \<or> policy = Base64IgnoreInvalidCharacters)"
  shows "base64Decode whitespace fresh (map unat (base64Encode data encodePolicy)) policy = Some data \<and>
    base64URLDecode whitespace fresh (map unat (base64URLEncode data)) = Some data"
proof (cases "data = []")
  case True
  then show ?thesis by (simp add: base64Decode_def base64URLDecode_def base64Encode_def base64URLEncode_def base64EncodeInternal_def base64DecodeInternal_def)
next
  case False
  let ?n = "length data"
  have mod: "(length (sextets_of_bytes data) + paddingLength ?n) mod 4 = 0"
    unfolding sextets_padded by (simp only: paddedLength_def mod_mult_self2_is_0)
  have k: "paddingLength ?n \<le> 2" by (auto simp: paddingLength_def)
  have "base64Encode data encodePolicy = encode_loop (lookup base64EncMap) (breaksLines encodePolicy ?n) 0 data @ replicate (paddingLength ?n) 61"
    unfolding base64Encode_def by (rule encode_shape) (use assms False in auto)
  moreover have "base64Decode whitespace fresh (map unat (encode_loop (lookup base64EncMap) (breaksLines encodePolicy ?n) 0 data @
      replicate (paddingLength ?n) 61)) policy = Some data"
    unfolding base64Decode_def by (rule base64.decode_encoded) (use assms(2) k mod False in \<open>auto simp: breaksLines_def\<close>)
  moreover have "base64URLEncode data = encode_loop (lookup base64URLEncMap) False 0 data"
    using assms(1) False by (simp add: base64URLEncode_def base64EncodeInternal_def Let_def)
  moreover have "base64URLDecode whitespace fresh (map unat (encode_loop (lookup base64URLEncMap) False 0 data @ replicate 0 61)) = Some data"
    unfolding base64URLDecode_def by (rule base64URL.decode_encoded) (use False in auto)
  ultimately show ?thesis by (simp del: map_append)
qed

lemma base64_roundtrip_witness:
  "base64Decode (\<lambda>_. False) (\<lambda>_. 0) (map unat (base64Encode (replicate 58 7) Base64InsertLFs)) Base64IgnoreWhitespace = Some (replicate 58 7)"
  using base64_roundtrip [of "replicate 58 7" Base64InsertLFs Base64IgnoreWhitespace "\<lambda>_. False" "\<lambda>_. 0"]
  by (simp add: maxInputBufferSize_def)

text \<open>
  C30. If the decoder skips every character of its input, it returns true with an output of the length
  of the input whose bytes it has never written.
\<close>

theorem base64_skipped_uninitialised:
  assumes "data \<noteq> []"
    and "\<forall>ch \<in> set data. ch \<noteq> 61 \<and> decoded base64DecMap ch = nonAlphabet \<and>
      (policy = Base64IgnoreWhitespace \<and> isSpaceOrNewline whitespace ch \<or> policy = Base64IgnoreInvalidCharacters)"
  shows "base64Decode whitespace fresh data policy = Some (map fresh [0..<length data])"
proof -
  have "decode_scan whitespace policy base64DecMap len data 0 0 out = Some (0, 0, out)" for len out
    using assms(2) by (induction data) auto
  then show ?thesis using assms(1) by (simp add: base64Decode_def base64DecodeInternal_def)
qed

lemma base64_skipped_uninitialised_witness:
  "base64Decode (\<lambda>_. False) (\<lambda>_. 99) [32, 10] Base64IgnoreWhitespace = Some [99, 99]"
proof -
  have "decoded base64DecMap 32 = nonAlphabet" "decoded base64DecMap 10 = nonAlphabet" by code_simp+
  then show ?thesis using base64_skipped_uninitialised [of "[32, 10]" Base64IgnoreWhitespace "\<lambda>_. False" "\<lambda>_. 99"]
    by (simp add: isSpaceOrNewline_def isASCIISpace_def)
qed

end
