(* ===== verification/WTF_StringHasher.thy ===== *)
theory WTF_StringHasher
  imports CE_Prelude
begin

text \<open>
  The hash function of strings (\<open>src/Source/WTF/wtf/StringHasher.h\<close>): the hasher takes characters one by
  one, in pairs, or as a block, and keeps a character that has no partner yet. Adding is
  incremental, however the characters are grouped, and no hash is zero.
\<close>

section \<open>The hasher\<close>

record StringHasher =
  m_hash :: u32
  m_hasPendingCharacter :: bool
  m_pendingCharacter :: u16

definition stringHashingStartValue :: u32 where
  "stringHashingStartValue = 0x9E3779B9"

definition flagCount :: nat where
  "flagCount = 8"

definition new_StringHasher :: StringHasher where
  "new_StringHasher = \<lparr>m_hash = stringHashingStartValue, m_hasPendingCharacter = False, m_pendingCharacter = 0\<rparr>"

definition addCharactersAssumingAligned :: "u16 \<Rightarrow> u16 \<Rightarrow> StringHasher \<Rightarrow> StringHasher" where
  "addCharactersAssumingAligned a b h =
     (let hash = m_hash h + ucast a;
          hash = push_bit 16 hash XOR (push_bit 11 (ucast b) XOR hash)
      in h\<lparr>m_hash := hash + drop_bit 11 hash\<rparr>)"

definition hasher_addCharacter :: "u16 \<Rightarrow> StringHasher \<Rightarrow> StringHasher" where
  "hasher_addCharacter character h =
     (if m_hasPendingCharacter h then
        addCharactersAssumingAligned (m_pendingCharacter h) character (h\<lparr>m_hasPendingCharacter := False\<rparr>)
      else h\<lparr>m_pendingCharacter := character, m_hasPendingCharacter := True\<rparr>)"

definition addCharacters_pair :: "u16 \<Rightarrow> u16 \<Rightarrow> StringHasher \<Rightarrow> StringHasher" where
  "addCharacters_pair a b h =
     (if m_hasPendingCharacter h then
        (addCharactersAssumingAligned (m_pendingCharacter h) a (h\<lparr>m_hasPendingCharacter := False\<rparr>))
          \<lparr>m_pendingCharacter := b, m_hasPendingCharacter := True\<rparr>
      else addCharactersAssumingAligned a b h)"

text \<open>The blocks with a length: pairs, and the character that is left.\<close>

fun addCharactersAssumingAligned_block :: "u16 list \<Rightarrow> StringHasher \<Rightarrow> StringHasher" where
  "addCharactersAssumingAligned_block (a # b # data) h =
     addCharactersAssumingAligned_block data (addCharactersAssumingAligned a b h)"
| "addCharactersAssumingAligned_block [a] h = hasher_addCharacter a h"
| "addCharactersAssumingAligned_block [] h = h"

definition addCharacters_block :: "u16 list \<Rightarrow> StringHasher \<Rightarrow> StringHasher" where
  "addCharacters_block data h =
     (if m_hasPendingCharacter h \<and> data \<noteq> [] then
        addCharactersAssumingAligned_block (tl data)
          (addCharactersAssumingAligned (m_pendingCharacter h) (hd data) (h\<lparr>m_hasPendingCharacter := False\<rparr>))
      else addCharactersAssumingAligned_block data h)"

text \<open>The blocks that end with a zero; \<open>None\<close> is a read behind the end.\<close>

fun addCharactersAssumingAligned_terminated :: "u16 list \<Rightarrow> StringHasher \<Rightarrow> StringHasher option" where
  "addCharactersAssumingAligned_terminated [] h = None"
| "addCharactersAssumingAligned_terminated (a # data) h =
     (if a = 0 then Some h
      else case data of
        [] \<Rightarrow> None
      | b # data \<Rightarrow>
          if b = 0 then Some (hasher_addCharacter a h)
          else addCharactersAssumingAligned_terminated data (addCharactersAssumingAligned a b h))"

fun addCharacters_terminated :: "u16 list \<Rightarrow> StringHasher \<Rightarrow> StringHasher option" where
  "addCharacters_terminated [] h = (if m_hasPendingCharacter h then None else addCharactersAssumingAligned_terminated [] h)"
| "addCharacters_terminated (a # data) h =
     (if m_hasPendingCharacter h \<and> a \<noteq> 0 then
        addCharactersAssumingAligned_terminated data
          (addCharactersAssumingAligned (m_pendingCharacter h) a (h\<lparr>m_hasPendingCharacter := False\<rparr>))
      else addCharactersAssumingAligned_terminated (a # data) h)"

section \<open>The hash\<close>

definition avalancheBits :: "StringHasher \<Rightarrow> u32" where
  "avalancheBits h =
     (let result = m_hash h;
          result =
            (if m_hasPendingCharacter h then
               let result = result + ucast (m_pendingCharacter h);
                   result = result XOR push_bit 11 result
               in result + drop_bit 17 result
             else result);
          result = result XOR push_bit 3 result;
          result = result + drop_bit 5 result;
          result = result XOR push_bit 2 result;
          result = result + drop_bit 15 result
      in result XOR push_bit 10 result)"

definition hashWithTop8BitsMasked :: "StringHasher \<Rightarrow> u32" where
  "hashWithTop8BitsMasked h =
     (let result = avalancheBits h AND (push_bit (32 - flagCount) 1 - 1)
      in if result = 0 then drop_bit flagCount 0x80000000 else result)"

definition hash :: "StringHasher \<Rightarrow> u32" where
  "hash h = (let result = avalancheBits h in if result = 0 then 0x80000000 else result)"

definition computeHashAndMaskTop8Bits :: "u16 list \<Rightarrow> u32" where
  "computeHashAndMaskTop8Bits data = hashWithTop8BitsMasked (addCharactersAssumingAligned_block data new_StringHasher)"

definition computeHashAndMaskTop8Bits_terminated :: "u16 list \<Rightarrow> u32 option" where
  "computeHashAndMaskTop8Bits_terminated data =
     map_option hashWithTop8BitsMasked (addCharactersAssumingAligned_terminated data new_StringHasher)"

definition computeHash :: "u16 list \<Rightarrow> u32" where
  "computeHash data = hash (addCharactersAssumingAligned_block data new_StringHasher)"

definition computeHash_terminated :: "u16 list \<Rightarrow> u32 option" where
  "computeHash_terminated data = map_option hash (addCharactersAssumingAligned_terminated data new_StringHasher)"

text \<open>\<open>hashMemory\<close> reads the bytes as characters of two bytes each, little endian.\<close>

fun memory_characters :: "u8 list \<Rightarrow> u16 list" where
  "memory_characters (a # b # data) = (ucast a OR push_bit 8 (ucast b)) # memory_characters data"
| "memory_characters _ = []"

definition hashMemory :: "u8 list \<Rightarrow> u32" where
  "hashMemory data = computeHashAndMaskTop8Bits (memory_characters data)"

section \<open>Adding characters is incremental\<close>

text \<open>
  Two hashers are the same if they will hash alike: the pending character counts only if there is
  one. All ways to add characters are a fold of \<open>hasher_addCharacter\<close>.
\<close>

definition same_hasher :: "StringHasher \<Rightarrow> StringHasher \<Rightarrow> bool" where
  "same_hasher g h \<longleftrightarrow> m_hash g = m_hash h \<and> m_hasPendingCharacter g = m_hasPendingCharacter h \<and>
     (m_hasPendingCharacter g \<longrightarrow> m_pendingCharacter g = m_pendingCharacter h)"

lemma same_hasher_refl [simp]: "same_hasher h h"
  by (simp add: same_hasher_def)

lemma same_hasher_sym: "same_hasher g h \<Longrightarrow> same_hasher h g"
  by (simp add: same_hasher_def)

lemma same_hasher_trans: "same_hasher f g \<Longrightarrow> same_hasher g h \<Longrightarrow> same_hasher f h"
  by (simp add: same_hasher_def)

lemma same_hasher_hash:
  assumes "same_hasher g h"
  shows "hash g = hash h" "hashWithTop8BitsMasked g = hashWithTop8BitsMasked h"
proof -
  have "avalancheBits g = avalancheBits h" using assms by (auto simp: same_hasher_def avalancheBits_def)
  then show "hash g = hash h" "hashWithTop8BitsMasked g = hashWithTop8BitsMasked h" by (simp_all add: hash_def hashWithTop8BitsMasked_def)
qed

lemma same_hasher_addCharacter: "same_hasher g h \<Longrightarrow> same_hasher (hasher_addCharacter c g) (hasher_addCharacter c h)"
  by (auto simp: same_hasher_def hasher_addCharacter_def addCharactersAssumingAligned_def Let_def)

lemma same_fold: "same_hasher g h \<Longrightarrow> same_hasher (fold hasher_addCharacter data g) (fold hasher_addCharacter data h)"
  by (induction data arbitrary: g h) (simp_all add: same_hasher_addCharacter)

lemma aligned_pair:
  "\<not> m_hasPendingCharacter h \<Longrightarrow> same_hasher (addCharactersAssumingAligned a b h) (hasher_addCharacter b (hasher_addCharacter a h))"
  "\<not> m_hasPendingCharacter (addCharactersAssumingAligned a b h) \<longleftrightarrow> \<not> m_hasPendingCharacter h"
  by (auto simp: same_hasher_def hasher_addCharacter_def addCharactersAssumingAligned_def Let_def)

lemma pending_single:
  "m_hasPendingCharacter h \<Longrightarrow>
    addCharactersAssumingAligned (m_pendingCharacter h) a (h\<lparr>m_hasPendingCharacter := False\<rparr>) = hasher_addCharacter a h \<and>
    \<not> m_hasPendingCharacter (hasher_addCharacter a h)"
  by (simp add: hasher_addCharacter_def addCharactersAssumingAligned_def Let_def)

lemma pair_is_fold: "same_hasher (addCharacters_pair a b h) (hasher_addCharacter b (hasher_addCharacter a h))"
  by (auto simp: same_hasher_def addCharacters_pair_def hasher_addCharacter_def addCharactersAssumingAligned_def Let_def)

lemma aligned_block_is_fold:
  "\<not> m_hasPendingCharacter h \<Longrightarrow> same_hasher (addCharactersAssumingAligned_block data h) (fold hasher_addCharacter data h)"
proof (induction data h rule: addCharactersAssumingAligned_block.induct)
  case (1 a b data h)
  have "same_hasher (addCharactersAssumingAligned_block data (addCharactersAssumingAligned a b h))
      (fold hasher_addCharacter data (addCharactersAssumingAligned a b h))"
    using 1 aligned_pair(2) by blast
  moreover have "same_hasher (fold hasher_addCharacter data (addCharactersAssumingAligned a b h)) (fold hasher_addCharacter data (hasher_addCharacter b (hasher_addCharacter a h)))"
    by (rule same_fold, rule aligned_pair(1)) (rule "1.prems")
  ultimately show ?case by (auto intro: same_hasher_trans)
qed simp_all

lemma block_is_fold: "same_hasher (addCharacters_block data h) (fold hasher_addCharacter data h)"
proof (cases "m_hasPendingCharacter h \<and> data \<noteq> []")
  case True
  then obtain a rest where "data = a # rest" by (cases data) auto
  then show ?thesis using True pending_single [of h a] aligned_block_is_fold [of "hasher_addCharacter a h" rest]
    by (simp add: addCharacters_block_def)
next
  case False
  then show ?thesis using aligned_block_is_fold [of h data] by (cases data) (auto simp: addCharacters_block_def)
qed

lemma aligned_terminated_is_block:
  "0 \<notin> set data \<Longrightarrow> addCharactersAssumingAligned_terminated (data @ [0]) h = Some (addCharactersAssumingAligned_block data h)"
  by (induction data h rule: addCharactersAssumingAligned_block.induct) auto

lemma terminated_is_block:
  "0 \<notin> set data \<Longrightarrow> addCharacters_terminated (data @ [0]) h = Some (addCharacters_block data h)"
  using aligned_terminated_is_block [of data h]
  by (cases data) (auto simp: addCharacters_block_def aligned_terminated_is_block)

lemma new_not_pending: "\<not> m_hasPendingCharacter new_StringHasher"
  by (simp add: new_StringHasher_def)

lemma computed_is_fold:
  "computeHash data = hash (fold hasher_addCharacter data new_StringHasher)"
  "computeHashAndMaskTop8Bits data = hashWithTop8BitsMasked (fold hasher_addCharacter data new_StringHasher)"
  unfolding computeHash_def computeHashAndMaskTop8Bits_def
  using same_hasher_hash [OF aligned_block_is_fold [OF new_not_pending]] by blast+

section \<open>Pieces\<close>

text \<open>
  One call that adds characters: one character, two, a block, or a block that ends with a zero, of
  which only the characters before the first zero count.
\<close>

datatype Piece = Single u16 | Pair u16 u16 | Block "u16 list" | Terminated "u16 list"

fun add_piece :: "Piece \<Rightarrow> StringHasher \<Rightarrow> StringHasher option" where
  "add_piece (Single a) h = Some (hasher_addCharacter a h)"
| "add_piece (Pair a b) h = Some (addCharacters_pair a b h)"
| "add_piece (Block data) h = Some (addCharacters_block data h)"
| "add_piece (Terminated data) h = addCharacters_terminated (data @ [0]) h"

fun add_pieces :: "Piece list \<Rightarrow> StringHasher \<Rightarrow> StringHasher option" where
  "add_pieces [] h = Some h"
| "add_pieces (p # ps) h = (case add_piece p h of None \<Rightarrow> None | Some h \<Rightarrow> add_pieces ps h)"

fun piece_characters :: "Piece \<Rightarrow> u16 list" where
  "piece_characters (Single a) = [a]"
| "piece_characters (Pair a b) = [a, b]"
| "piece_characters (Block data) = data"
| "piece_characters (Terminated data) = takeWhile (\<lambda>c. c \<noteq> 0) data"

lemma aligned_terminated_prefix:
  "0 \<notin> set data \<Longrightarrow> addCharactersAssumingAligned_terminated (data @ 0 # rest) h = Some (addCharactersAssumingAligned_block data h)"
  by (induction data h rule: addCharactersAssumingAligned_block.induct) auto

lemma terminated_prefix:
  "0 \<notin> set data \<Longrightarrow> addCharacters_terminated (data @ 0 # rest) h = Some (addCharacters_block data h)"
  using aligned_terminated_prefix [of data rest h]
  by (cases data) (auto simp: addCharacters_block_def aligned_terminated_prefix)

lemma before_zero: "\<exists>rest. data @ [0] = takeWhile (\<lambda>c. c \<noteq> 0) data @ 0 # rest" "0 \<notin> set (takeWhile (\<lambda>c. c \<noteq> 0) data)"
  by (induction data) auto

lemma piece_is_fold: "\<exists>g. add_piece p h = Some g \<and> same_hasher g (fold hasher_addCharacter (piece_characters p) h)"
proof (cases p)
  case (Terminated data)
  obtain rest where "data @ [0] = takeWhile (\<lambda>c. c \<noteq> 0) data @ 0 # rest" using before_zero(1) by blast
  then show ?thesis using Terminated terminated_prefix [OF before_zero(2)] block_is_fold by simp
qed (simp_all add: pair_is_fold block_is_fold)

lemma pieces_are_fold:
  "same_hasher f h \<Longrightarrow> \<exists>g. add_pieces ps f = Some g \<and> same_hasher g (fold hasher_addCharacter (concat (map piece_characters ps)) h)"
proof (induction ps arbitrary: f h)
  case (Cons p ps)
  obtain g where g: "add_piece p f = Some g" "same_hasher g (fold hasher_addCharacter (piece_characters p) f)" using piece_is_fold by blast
  have "same_hasher g (fold hasher_addCharacter (piece_characters p) h)" using same_hasher_trans [OF g(2) same_fold [OF Cons.prems]] .
  from Cons.IH [OF this] show ?case using g(1) by simp
qed simp

section \<open>Properties\<close>

text \<open>
  C23. The hash of a string is the same whatever the pieces it is added in: for every sequence of calls
  that add one character, two, a block, or a block up to its terminating zero, adding reads nothing
  behind the zero, and both hashes are those of all the characters added as one block. The hash of
  a block that ends with a zero is that of the characters before the first zero.
\<close>

theorem hashing_is_incremental:
  "(\<exists>h. add_pieces pieces new_StringHasher = Some h \<and> hash h = computeHash (concat (map piece_characters pieces)) \<and>
     hashWithTop8BitsMasked h = computeHashAndMaskTop8Bits (concat (map piece_characters pieces))) \<and>
   computeHash_terminated (data @ [0]) = Some (computeHash (takeWhile (\<lambda>c. c \<noteq> 0) data)) \<and>
   computeHashAndMaskTop8Bits_terminated (data @ [0]) = Some (computeHashAndMaskTop8Bits (takeWhile (\<lambda>c. c \<noteq> 0) data))"
proof -
  obtain h where "add_pieces pieces new_StringHasher = Some h"
    "same_hasher h (fold hasher_addCharacter (concat (map piece_characters pieces)) new_StringHasher)"
    using pieces_are_fold [OF same_hasher_refl] by blast
  moreover obtain rest where "data @ [0] = takeWhile (\<lambda>c. c \<noteq> 0) data @ 0 # rest" using before_zero(1) by blast
  ultimately show ?thesis using same_hasher_hash aligned_terminated_prefix [OF before_zero(2)]
    by (simp add: computed_is_fold(1,2) [of "concat (map piece_characters pieces)"] computeHash_terminated_def
        computeHashAndMaskTop8Bits_terminated_def computeHash_def [of "takeWhile _ _"] computeHashAndMaskTop8Bits_def [of "takeWhile _ _"])
qed

text \<open>
  No hash is zero, the mark of a hash that has not been computed, and the masked hash leaves the
  upper eight bits to the flags of the string.
\<close>

theorem hash_bounds:
  "hash h \<noteq> 0 \<and> hashWithTop8BitsMasked h \<noteq> 0 \<and> unat (hashWithTop8BitsMasked h) < 2 ^ 24"
proof -
  have m: "(push_bit 24 1 - 1 :: u32) = mask 24" by (simp add: mask_eq_exp_minus_1 push_bit_eq_mult)
  have "unat (x AND mask 24 :: u32) < 2 ^ 24" for x
    using take_bit_nat_less_exp [of 24 "unat x"] by (simp add: take_bit_eq_mask [symmetric] unsigned_take_bit_eq)
  then have "unat (x AND (push_bit 24 1 - 1) :: u32) < 2 ^ 24" for x unfolding m .
  moreover have "drop_bit 8 0x80000000 = (0x800000 :: u32)" by (simp add: drop_bit_eq_div)
  ultimately show ?thesis unfolding hash_def hashWithTop8BitsMasked_def flagCount_def Let_def by simp
qed

end
