(* ===== verification/WTF_UTF8.thy ===== *)
theory WTF_UTF8
  imports CE_Bits WTF_StringHasher
begin

text \<open>
  UTF-8 (\<open>src/Source/WTF/wtf/unicode/UTF8.cpp\<close>): the length of a sequence, decoding one sequence,
  the conversions between Latin-1, UTF-16 and UTF-8 with their error results, the hash of a string
  given in UTF-8, and the comparisons.

  Source and target pointers become lists: a conversion takes what is left of the source and the
  \<open>room\<close> between target and its end, and returns its result, the source where it stopped, and what
  it has written. \<open>char\<close> is an unsigned byte; the code only compares a signed one with ASCII
  characters, where the sign makes no difference.
\<close>

section \<open>Sequences\<close>

definition inlineUTF8SequenceLengthNonASCII :: "u8 \<Rightarrow> nat" where
  "inlineUTF8SequenceLengthNonASCII b0 =
     (if b0 AND 0xC0 \<noteq> 0xC0 then 0
      else if b0 AND 0xE0 = 0xC0 then 2
      else if b0 AND 0xF0 = 0xE0 then 3
      else if b0 AND 0xF8 = 0xF0 then 4
      else 0)"

definition inlineUTF8SequenceLength :: "u8 \<Rightarrow> nat" where
  "inlineUTF8SequenceLength b0 = (if isASCII (unat b0) then 1 else inlineUTF8SequenceLengthNonASCII b0)"

definition UTF8SequenceLength :: "u8 \<Rightarrow> nat" where
  "UTF8SequenceLength b0 = (if isASCII (unat b0) then 1 else inlineUTF8SequenceLengthNonASCII b0)"

text \<open>The bits \<open>b\<close> at the place \<open>n\<close> of a character.\<close>

definition bits_at :: "nat \<Rightarrow> u8 \<Rightarrow> u32" where
  "bits_at n b = push_bit n (ucast b)"

definition byte_at :: "u8 list \<Rightarrow> nat \<Rightarrow> u8 option" where
  "byte_at sequence i = (if i < length sequence then Some (sequence ! i) else None)"

text \<open>\<open>None\<close> is a read behind the end of the sequence.\<close>

definition decodeUTF8Sequence :: "u8 list \<Rightarrow> int option" where
  "decodeUTF8Sequence sequence =
     (case byte_at sequence 0 of None \<Rightarrow> None | Some b0 \<Rightarrow>
      let len = inlineUTF8SequenceLength b0
      in if len = 0 then Some (- 1) else
      case byte_at sequence 1 of None \<Rightarrow> None | Some b1 \<Rightarrow>
      if len = 1 then if b1 \<noteq> 0 then Some (- 1) else Some (uint b0) else
      if b1 AND 0xC0 \<noteq> 0x80 then Some (- 1) else
      case byte_at sequence 2 of None \<Rightarrow> None | Some b2 \<Rightarrow>
      if len = 2 then
        if b2 \<noteq> 0 then Some (- 1) else
        let c = bits_at 6 (b0 AND 0x1F) OR bits_at 0 (b1 AND 0x3F)
        in if c < 0x80 then Some (- 1) else Some (uint c) else
      if b2 AND 0xC0 \<noteq> 0x80 then Some (- 1) else
      case byte_at sequence 3 of None \<Rightarrow> None | Some b3 \<Rightarrow>
      if len = 3 then
        if b3 \<noteq> 0 then Some (- 1) else
        let c = bits_at 12 (b0 AND 0xF) OR bits_at 6 (b1 AND 0x3F) OR bits_at 0 (b2 AND 0x3F)
        in if c < 0x800 then Some (- 1)
           else if c \<ge> 0xD800 \<and> c \<le> 0xDFFF then Some (- 1) else Some (uint c) else
      if b3 AND 0xC0 \<noteq> 0x80 then Some (- 1) else
      case byte_at sequence 4 of None \<Rightarrow> None | Some b4 \<Rightarrow>
      if len = 4 then
        if b4 \<noteq> 0 then Some (- 1) else
        let c = bits_at 18 (b0 AND 0x7) OR bits_at 12 (b1 AND 0x3F) OR bits_at 6 (b2 AND 0x3F) OR bits_at 0 (b3 AND 0x3F)
        in if c < 0x10000 \<or> c > 0x10FFFF then Some (- 1) else Some (uint c) else
      Some (- 1))"

definition isLegalUTF8 :: "u8 list \<Rightarrow> nat \<Rightarrow> bool" where
  "isLegalUTF8 source len =
     (if len < 1 \<or> 4 < len then False
      else if len \<ge> 4 \<and> (source ! 3 < 0x80 \<or> source ! 3 > 0xBF) then False
      else if len \<ge> 3 \<and> (source ! 2 < 0x80 \<or> source ! 2 > 0xBF) then False
      else if len \<ge> 2 \<and> source ! 1 > 0xBF then False
      else if len \<ge> 2 \<and>
        (let a = source ! 1; lead = source ! 0
         in if lead = 0xE0 then a < 0xA0
            else if lead = 0xED then a > 0x9F
            else if lead = 0xF0 then a < 0x90
            else if lead = 0xF4 then a > 0x8F
            else a < 0x80) then False
      else if source ! 0 \<ge> 0x80 \<and> source ! 0 < 0xC2 then False
      else \<not> source ! 0 > 0xF4)"

definition offsetsFromUTF8 :: "u32 list" where
  "offsetsFromUTF8 = [0x00000000, 0x00003080, 0x000E2080, 0x03C82080, 0xFA082080, 0x82082080]"

text \<open>The cases of the switch fall through, so every byte but the last is shifted behind it.\<close>

definition readUTF8Sequence :: "u8 list \<Rightarrow> nat \<Rightarrow> u32" where
  "readUTF8Sequence sequence len =
     (let character = fold (\<lambda>b character. push_bit 6 (character + ucast b)) (take (len - 1) sequence) 0 + ucast (sequence ! (len - 1))
      in character - offsetsFromUTF8 ! (len - 1))"

section \<open>Conversions\<close>

datatype ConversionResult = conversionOK | sourceExhausted | targetExhausted | sourceIllegal

definition replacementCharacter :: u16 where
  "replacementCharacter = 0xFFFD"

definition firstByteMark :: "u8 list" where
  "firstByteMark = [0x00, 0x00, 0xC0, 0xE0, 0xF0, 0xF8, 0xFC]"

text \<open>The bytes of a character, written from the last to the first.\<close>

definition continuation_byte :: "u32 \<Rightarrow> u8" where
  "continuation_byte ch = ucast ((ch OR 0x80) AND 0xBF)"

fun write_bytes :: "nat \<Rightarrow> nat \<Rightarrow> u32 \<Rightarrow> u8 list \<Rightarrow> u8 list" where
  "write_bytes bytesToWrite (Suc (Suc n)) ch written =
     write_bytes bytesToWrite (Suc n) (drop_bit 6 ch) (continuation_byte ch # written)"
| "write_bytes bytesToWrite (Suc 0) ch written = ucast (ch OR ucast (firstByteMark ! bytesToWrite)) # written"
| "write_bytes bytesToWrite 0 ch written = written"

fun convertLatin1ToUTF8 :: "u8 list \<Rightarrow> nat \<Rightarrow> ConversionResult \<times> u8 list \<times> u8 list" where
  "convertLatin1ToUTF8 [] room = (conversionOK, [], [])"
| "convertLatin1ToUTF8 (c # source) room =
     (let ch = ucast c :: u32;
          bytesToWrite = (if ch < 0x80 then 1 else 2)
      in if bytesToWrite > room then (targetExhausted, c # source, [])
         else let (result, rest, written) = convertLatin1ToUTF8 source (room - bytesToWrite)
              in (result, rest, write_bytes bytesToWrite bytesToWrite ch [] @ written))"

text \<open>Reading a character of UTF-16: the character and how many units follow its first one.\<close>

definition read_utf16 :: "bool \<Rightarrow> u16 \<Rightarrow> u16 list \<Rightarrow> ConversionResult + u32 \<times> nat" where
  "read_utf16 strict u source =
     (let ch = ucast u :: u32
      in if ch \<ge> 0xD800 \<and> ch \<le> 0xDBFF then
           case source of
             [] \<Rightarrow> Inl sourceExhausted
           | u2 # _ \<Rightarrow>
               let ch2 = ucast u2 :: u32
               in if ch2 \<ge> 0xDC00 \<and> ch2 \<le> 0xDFFF then Inr (push_bit 10 (ch - 0xD800) + (ch2 - 0xDC00) + 0x0010000, 1)
                  else if strict then Inl sourceIllegal
                  else Inr (ch, 0)
         else if strict \<and> ch \<ge> 0xDC00 \<and> ch \<le> 0xDFFF then Inl sourceIllegal
         else Inr (ch, 0))"

definition bytes_to_write :: "u32 \<Rightarrow> nat \<times> u32" where
  "bytes_to_write ch =
     (if ch < 0x80 then (1, ch)
      else if ch < 0x800 then (2, ch)
      else if ch < 0x10000 then (3, ch)
      else if ch < 0x110000 then (4, ch)
      else (3, ucast replacementCharacter))"

function convertUTF16ToUTF8 :: "bool \<Rightarrow> u16 list \<Rightarrow> nat \<Rightarrow> ConversionResult \<times> u16 list \<times> u8 list" where
  "convertUTF16ToUTF8 strict [] room = (conversionOK, [], [])"
| "convertUTF16ToUTF8 strict (u # source) room =
     (case read_utf16 strict u source of
        Inl result \<Rightarrow> (result, u # source, [])
      | Inr (ch, follow) \<Rightarrow>
          let (bytesToWrite, ch) = bytes_to_write ch
          in if bytesToWrite > room then (targetExhausted, u # source, [])
             else let (result, rest, written) = convertUTF16ToUTF8 strict (drop follow source) (room - bytesToWrite)
                  in (result, rest, write_bytes bytesToWrite bytesToWrite ch [] @ written))"
  by pat_completeness auto
termination
  by (relation "measure (\<lambda>(_, source, _). length source)") auto

text \<open>The macros of ICU for code points (\<open>src/Source/JavaScriptCore/icu/unicode/utf.h\<close>, \<open>utf16.h\<close>).\<close>

definition U_IS_BMP :: "u32 \<Rightarrow> bool" where
  "U_IS_BMP c \<longleftrightarrow> c \<le> 0xffff"

definition U_IS_SUPPLEMENTARY :: "u32 \<Rightarrow> bool" where
  "U_IS_SUPPLEMENTARY c \<longleftrightarrow> c - 0x10000 \<le> 0xfffff"

definition U_IS_SURROGATE :: "u32 \<Rightarrow> bool" where
  "U_IS_SURROGATE c \<longleftrightarrow> c AND 0xfffff800 = 0xd800"

definition U16_LEAD :: "u32 \<Rightarrow> u16" where
  "U16_LEAD supplementary = ucast (drop_bit 10 supplementary + 0xd7c0)"

definition U16_TRAIL :: "u32 \<Rightarrow> u16" where
  "U16_TRAIL supplementary = ucast ((supplementary AND 0x3ff) OR 0xdc00)"

text \<open>
  What the code does with a character of UTF-8: an error, or the units to write and what becomes of
  \<open>orAllData\<close>.
\<close>

definition utf16_of_character :: "bool \<Rightarrow> u32 \<Rightarrow> nat \<Rightarrow> u16 \<Rightarrow> ConversionResult + u16 list \<times> u16" where
  "utf16_of_character strict character room orAllData =
     (if room = 0 then Inl targetExhausted
      else if U_IS_BMP character then
        if U_IS_SURROGATE character then
          if strict then Inl sourceIllegal
          else Inr ([replacementCharacter], orAllData OR replacementCharacter)
        else Inr ([ucast character], orAllData OR ucast character)
      else if U_IS_SUPPLEMENTARY character then
        if room \<le> 1 then Inl targetExhausted
        else Inr ([U16_LEAD character, U16_TRAIL character], 0xffff)
      else if strict then Inl sourceIllegal
      else Inr ([replacementCharacter], orAllData OR replacementCharacter))"

lemma isLegalUTF8_length: "isLegalUTF8 source n \<Longrightarrow> 1 \<le> n \<and> n \<le> 4"
  by (auto simp: isLegalUTF8_def split: if_splits)

function convertUTF8ToUTF16_loop :: "bool \<Rightarrow> u8 list \<Rightarrow> nat \<Rightarrow> u16 \<Rightarrow> ConversionResult \<times> u8 list \<times> u16 list \<times> u16" where
  "convertUTF8ToUTF16_loop strict source room orAllData =
     (if source = [] then (conversionOK, [], [], orAllData)
      else
        let utf8SequenceLength = inlineUTF8SequenceLength (hd source)
        in if length source < utf8SequenceLength then (sourceExhausted, source, [], orAllData)
           else if \<not> isLegalUTF8 source utf8SequenceLength then (sourceIllegal, source, [], orAllData)
           else
             case utf16_of_character strict (readUTF8Sequence source utf8SequenceLength) room orAllData of
               Inl result \<Rightarrow> (result, source, [], orAllData)
             | Inr (units, orAllData) \<Rightarrow>
                 let (result, rest, written, orAllData) =
                   convertUTF8ToUTF16_loop strict (drop utf8SequenceLength source) (room - length units) orAllData
                 in (result, rest, units @ written, orAllData))"
  by pat_completeness auto
termination
  by (relation "measure (\<lambda>(_, source, _). length source)") (auto dest: isLegalUTF8_length)

declare convertUTF8ToUTF16_loop.simps [simp del]

definition convertUTF8ToUTF16 :: "bool \<Rightarrow> u8 list \<Rightarrow> nat \<Rightarrow> ConversionResult \<times> u8 list \<times> u16 list \<times> bool" where
  "convertUTF8ToUTF16 strict source room =
     (let (result, rest, written, orAllData) = convertUTF8ToUTF16_loop strict source room 0
      in (result, rest, written, orAllData AND NOT 0x7f = 0))"

section \<open>Hash and comparison\<close>

text \<open>
  The hash of a string in UTF-8 with an end, or (\<open>bounded = False\<close>) before its first zero. The results
  are the hash, the length in bytes and the length in UTF-16; \<open>None\<close> is a null pointer, for which the
  two lengths are left as they were. Behind the data of an unbounded string is its zero.
\<close>

definition or_zero :: "u8 list \<Rightarrow> nat \<Rightarrow> u8" where
  "or_zero data i = (if i < length data then data ! i else 0)"

text \<open>
  The assertion that a character read from several bytes is not ASCII is left out: the bytes that
  \<open>isLegalUTF8\<close> accepts begin with at least \<open>0xC2\<close>, so the character is at least \<open>0x80\<close>.
\<close>

function utf8_hash_loop :: "bool \<Rightarrow> u8 list \<Rightarrow> StringHasher \<Rightarrow> nat \<Rightarrow> nat \<Rightarrow> u32 \<times> nat \<times> nat" where
  "utf8_hash_loop bounded data stringHasher dataLength utf16Length =
     (if data = [] \<or> \<not> bounded \<and> hd data = 0 then (hashWithTop8BitsMasked stringHasher, dataLength, utf16Length)
      else if isASCII (unat (hd data)) then
        utf8_hash_loop bounded (tl data) (hasher_addCharacter (ucast (hd data)) stringHasher) (dataLength + 1) (utf16Length + 1)
      else
        let utf8SequenceLength = inlineUTF8SequenceLengthNonASCII (hd data);
            dataLength = dataLength + utf8SequenceLength
        in if (if bounded then length data < utf8SequenceLength
               else \<not> list_all (\<lambda>i. or_zero data i \<noteq> 0) [1..<utf8SequenceLength]) then (0, dataLength, utf16Length)
           else if \<not> isLegalUTF8 data utf8SequenceLength then (0, dataLength, utf16Length)
           else
             let character = readUTF8Sequence data utf8SequenceLength;
                 data = drop utf8SequenceLength data
             in if U_IS_BMP character then
                  if U_IS_SURROGATE character then (0, dataLength, utf16Length)
                  else utf8_hash_loop bounded data (hasher_addCharacter (ucast character) stringHasher) dataLength (utf16Length + 1)
                else if U_IS_SUPPLEMENTARY character then
                  utf8_hash_loop bounded data (addCharacters_pair (U16_LEAD character) (U16_TRAIL character) stringHasher)
                    dataLength (utf16Length + 2)
                else (0, dataLength, utf16Length))"
  by pat_completeness auto
termination
  by (relation "measure (\<lambda>(_, data, _). length data)") (auto dest: isLegalUTF8_length)

declare utf8_hash_loop.simps [simp del]

definition calculateStringHashAndLengthFromUTF8MaskingTop8Bits :: "u8 list option \<Rightarrow> bool \<Rightarrow> nat \<Rightarrow> nat \<Rightarrow> u32 \<times> nat \<times> nat" where
  "calculateStringHashAndLengthFromUTF8MaskingTop8Bits data bounded dataLength utf16Length =
     (case data of
        None \<Rightarrow> (0, dataLength, utf16Length)
      | Some data \<Rightarrow> utf8_hash_loop bounded data new_StringHasher 0 0)"

text \<open>The first argument has no end in the code; \<open>None\<close> is a read behind it.\<close>

function equalUTF16WithUTF8 :: "u16 list \<Rightarrow> u8 list \<Rightarrow> bool option" where
  "equalUTF16WithUTF8 a b =
     (if b = [] then Some True
      else case a of [] \<Rightarrow> None | a0 # a1 \<Rightarrow>
        if isASCII (unat a0) \<or> isASCII (unat (hd b)) then
          if a0 \<noteq> ucast (hd b) then Some False else equalUTF16WithUTF8 a1 (tl b)
        else
          let utf8SequenceLength = inlineUTF8SequenceLengthNonASCII (hd b)
          in if length b < utf8SequenceLength then Some False
             else if \<not> isLegalUTF8 b utf8SequenceLength then Some False
             else
               let character = readUTF8Sequence b utf8SequenceLength;
                   b = drop utf8SequenceLength b
               in if U_IS_BMP character then
                    if U_IS_SURROGATE character then Some False
                    else if ucast a0 \<noteq> character then Some False
                    else equalUTF16WithUTF8 a1 b
                  else if U_IS_SUPPLEMENTARY character then
                    if a0 \<noteq> U16_LEAD character then Some False
                    else case a1 of [] \<Rightarrow> None | a2 # a3 \<Rightarrow>
                      if a2 \<noteq> U16_TRAIL character then Some False
                      else equalUTF16WithUTF8 a3 b
                  else Some False)"
  by pat_completeness auto
termination
  by (relation "measure (\<lambda>(a, b). length a + length b)") (auto dest: isLegalUTF8_length)

declare equalUTF16WithUTF8.simps [simp del]

fun equalLatin1WithUTF8 :: "u8 list \<Rightarrow> u8 list \<Rightarrow> bool option" where
  "equalLatin1WithUTF8 a [] = Some True"
| "equalLatin1WithUTF8 [] (b0 # b) = None"
| "equalLatin1WithUTF8 (a0 # a) (b0 # b) =
     (if isASCII (unat a0) \<or> isASCII (unat b0) then
        if a0 \<noteq> b0 then Some False else equalLatin1WithUTF8 a b
      else case b of [] \<Rightarrow> Some False | b1 # b \<Rightarrow>
        if b0 AND 0xE0 \<noteq> 0xC0 \<or> b1 AND 0xC0 \<noteq> 0x80 then Some False
        else
          let character = ucast (bits_at 6 (b0 AND 0x1F) OR bits_at 0 (b1 AND 0x3F)) :: u8
          in if a0 \<noteq> character then Some False else equalLatin1WithUTF8 a b)"

end
