(* ===== verification/WTF_UTF8_Forms.thy ===== *)
theory WTF_UTF8_Forms
  imports WTF_UTF8
begin

text \<open>
  The encoding forms of Unicode, as arithmetic on code points, and the facts that tie one character
  of them to the code: which sequences are legal, what is read from them, and what is written.
\<close>

section \<open>The encoding forms\<close>

definition scalar_value :: "nat \<Rightarrow> bool" where
  "scalar_value c \<longleftrightarrow> c < 0xD800 \<or> 0xE000 \<le> c \<and> c < 0x110000"

definition utf8 :: "nat \<Rightarrow> u8 list" where
  "utf8 c =
     (if c < 0x80 then [of_nat c]
      else if c < 0x800 then [of_nat (0xC0 + c div 64), of_nat (0x80 + c mod 64)]
      else if c < 0x10000 then [of_nat (0xE0 + c div 64 div 64), of_nat (0x80 + c div 64 mod 64), of_nat (0x80 + c mod 64)]
      else [of_nat (0xF0 + c div 64 div 64 div 64), of_nat (0x80 + c div 64 div 64 mod 64),
            of_nat (0x80 + c div 64 mod 64), of_nat (0x80 + c mod 64)])"

definition utf16 :: "nat \<Rightarrow> u16 list" where
  "utf16 c = (if c < 0x10000 then [of_nat c] else [of_nat (0xD7C0 + c div 1024), of_nat (0xDC00 + c mod 1024)])"

text \<open>The well-formed byte sequences, by the payloads of their bytes.\<close>

inductive utf8_char :: "nat \<Rightarrow> u8 list \<Rightarrow> bool" where
  one: "x0 < 128 \<Longrightarrow> utf8_char x0 [of_nat x0]"
| two: "2 \<le> x0 \<Longrightarrow> x0 < 32 \<Longrightarrow> x1 < 64 \<Longrightarrow> utf8_char (x0 * 64 + x1) [of_nat (0xC0 + x0), of_nat (0x80 + x1)]"
| three: "x0 < 16 \<Longrightarrow> x1 < 64 \<Longrightarrow> x2 < 64 \<Longrightarrow> (x0 = 0 \<longrightarrow> 32 \<le> x1) \<Longrightarrow> (x0 = 13 \<longrightarrow> x1 < 32) \<Longrightarrow>
    utf8_char ((x0 * 64 + x1) * 64 + x2) [of_nat (0xE0 + x0), of_nat (0x80 + x1), of_nat (0x80 + x2)]"
| four: "x0 < 5 \<Longrightarrow> x1 < 64 \<Longrightarrow> x2 < 64 \<Longrightarrow> x3 < 64 \<Longrightarrow> (x0 = 0 \<longrightarrow> 16 \<le> x1) \<Longrightarrow> (x0 = 4 \<longrightarrow> x1 < 16) \<Longrightarrow>
    utf8_char (((x0 * 64 + x1) * 64 + x2) * 64 + x3) [of_nat (0xF0 + x0), of_nat (0x80 + x1), of_nat (0x80 + x2), of_nat (0x80 + x3)]"

lemma digit: "x < 64 \<Longrightarrow> (y * 64 + x) div 64 = (y :: nat)" "x < 64 \<Longrightarrow> (y * 64 + x) mod 64 = (x :: nat)"
  by simp_all

lemma utf8_char_utf8: "utf8_char c bs \<Longrightarrow> scalar_value c \<and> bs = utf8 c"
proof (induction rule: utf8_char.induct)
  case (one x0)
  then show ?case by (simp add: scalar_value_def utf8_def)
next
  case (two x0 x1)
  then have "128 \<le> x0 * 64 + x1" "x0 * 64 + x1 < 0x800" by linarith+
  then show ?case using two by (simp add: scalar_value_def utf8_def digit)
next
  case (three x0 x1 x2)
  have "x0 = 0 \<or> x0 < 13 \<and> 1 \<le> x0 \<or> x0 = 13 \<or> x0 \<ge> 14" by linarith
  then have "(x0 * 64 + x1) * 64 + x2 \<ge> 0x800 \<and> (x0 * 64 + x1) * 64 + x2 < 0x10000 \<and>
    ((x0 * 64 + x1) * 64 + x2 < 0xD800 \<or> 0xE000 \<le> (x0 * 64 + x1) * 64 + x2)"
    using three by (elim disjE; simp)
  then show ?case using three by (simp only: scalar_value_def utf8_def digit) simp
next
  case (four x0 x1 x2 x3)
  have "x0 = 0 \<or> x0 < 4 \<and> 1 \<le> x0 \<or> x0 = 4" using four by linarith
  then have "((x0 * 64 + x1) * 64 + x2) * 64 + x3 \<ge> 0x10000 \<and> ((x0 * 64 + x1) * 64 + x2) * 64 + x3 < 0x110000"
    using four by (elim disjE; simp)
  then show ?case using four by (simp only: scalar_value_def utf8_def digit) simp
qed

lemma by_digits:
  obtains x y where "c = y * 64 + x" "x < (64 :: nat)"
proof
  show "c = c div 64 * 64 + c mod 64" "c mod 64 < 64" by simp_all
qed

lemma utf8_is_char: "scalar_value c \<Longrightarrow> utf8_char c (utf8 c)"
proof -
  assume c: "scalar_value c"
  obtain x3 c2 where c2: "c = c2 * 64 + x3" "x3 < 64" by (rule by_digits)
  obtain x2 c1 where c1: "c2 = c1 * 64 + x2" "x2 < 64" by (rule by_digits)
  obtain x1 x0 where c0: "c1 = x0 * 64 + x1" "x1 < 64" by (rule by_digits)
  have d: "c div 64 = c2" "c mod 64 = x3" "c2 div 64 = c1" "c2 mod 64 = x2" "c1 div 64 = x0" "c1 mod 64 = x1"
    unfolding c2(1) c1(1) c0(1) digit(1) [OF c2(2)] digit(2) [OF c2(2)] digit(1) [OF c1(2)] digit(2) [OF c1(2)] digit(1) [OF c0(2)] digit(2) [OF c0(2)]
    by (rule refl)+
  consider "c < 0x80" | "0x80 \<le> c" "c < 0x800" | "0x800 \<le> c" "c < 0x10000" | "0x10000 \<le> c" by linarith
  then show ?thesis
  proof cases
    case 1
    then show ?thesis using utf8_char.one [of c] by (simp add: utf8_def)
  next
    case 2
    have "2 \<le> c2" "c2 < 32" using 2 c2 by linarith+
    then show ?thesis using 2 utf8_char.two [of c2 x3] c2 by (simp add: utf8_def digit)
  next
    case 3
    have "c1 < 16" "c1 = 0 \<longrightarrow> 32 \<le> x2" "c1 = 13 \<longrightarrow> x2 < 32" using 3 c c2 c1 by (auto simp: scalar_value_def)
    moreover have "utf8 c = [of_nat (0xE0 + c1), of_nat (0x80 + x2), of_nat (0x80 + x3)]" using 3 by (simp add: utf8_def d)
    ultimately show ?thesis using utf8_char.three [of c1 x2 x3] c1 c2 by simp
  next
    case 4
    have "x0 < 5" "x0 = 0 \<longrightarrow> 16 \<le> x1" "x0 = 4 \<longrightarrow> x1 < 16" using 4 c c2 c1 c0 by (auto simp: scalar_value_def)
    moreover have "utf8 c = [of_nat (0xF0 + x0), of_nat (0x80 + x1), of_nat (0x80 + x2), of_nat (0x80 + x3)]"
      using 4 by (simp add: utf8_def d)
    ultimately show ?thesis using utf8_char.four [of x0 x1 x2 x3] c0 c1 c2 by simp
  qed
qed

section \<open>Bytes\<close>

lemma all_u8:
  assumes "list_all P (map word_of_int [0..255])"
  shows "P (b :: u8)"
proof -
  have "0 \<le> uint b" "uint b < 256" using unsigned_less [of b] by simp_all
  then have "b \<in> set (map word_of_int [0..255])" by (auto intro!: image_eqI [of _ _ "uint b"])
  then show ?thesis using assms by (simp only: list_all_iff)
qed

lemma byte_compare: "(uint b < numeral k) = (unat b < numeral k)" "(numeral k \<le> uint b) = (numeral k \<le> unat b)" for b :: u8
  using of_nat_less_iff [of "unat b" "numeral k", where 'a = int] of_nat_le_iff [of "numeral k" "unat b", where 'a = int] by simp_all

lemma byte_payload: "(word_of_int (uint b mod 64) :: u8) = of_nat (unat b mod 64)" for b :: u8
proof -
  have "uint b mod 64 = int (unat b mod 64)" by (simp add: zmod_int)
  then show ?thesis by (simp only: of_int_of_nat_eq)
qed

lemma sequence_length: "inlineUTF8SequenceLengthNonASCII b =
  (if unat b < 0xC0 then 0 else if unat b < 0xE0 then 2 else if unat b < 0xF0 then 3 else if unat b < 0xF8 then 4 else 0)"
proof -
  have "list_all (\<lambda>b. inlineUTF8SequenceLengthNonASCII b =
      (if uint b < 0xC0 then 0 else if uint b < 0xE0 then 2 else if uint b < 0xF0 then 3 else if uint b < 0xF8 then 4 else 0)) (map word_of_int [0..255])"
    by code_simp
  then have "inlineUTF8SequenceLengthNonASCII b =
      (if uint b < 0xC0 then 0 else if uint b < 0xE0 then 2 else if uint b < 0xF0 then 3 else if uint b < 0xF8 then 4 else 0)" by (rule all_u8)
  then show ?thesis by (simp add: byte_compare)
qed

lemma byte_masks:
  "unat (b AND 0x3F) = unat b mod 64" "unat (b AND 0x1F) = unat b mod 32" "unat (b AND 0xF) = unat b mod 16" "unat (b AND 0x7) = unat b mod 8"
  for b :: u8
proof -
  have m: "(0x3F :: u8) = mask 6" "(0x1F :: u8) = mask 5" "(0xF :: u8) = mask 4" "(0x7 :: u8) = mask 3" by (simp_all add: mask_eq_exp_minus_1)
  show "unat (b AND 0x3F) = unat b mod 64" "unat (b AND 0x1F) = unat b mod 32" "unat (b AND 0xF) = unat b mod 16" "unat (b AND 0x7) = unat b mod 8"
    unfolding m by (simp_all add: take_bit_eq_mask [symmetric] unsigned_take_bit_eq take_bit_eq_mod unat_mod)
qed

lemma byte_ranges:
  "b AND 0xC0 = 0x80 \<longleftrightarrow> 0x80 \<le> unat b \<and> unat b < 0xC0" "b AND 0xE0 = 0xC0 \<longleftrightarrow> 0xC0 \<le> unat b \<and> unat b < 0xE0" for b :: u8
proof -
  have "list_all (\<lambda>b. (b AND 0xC0 = (0x80 :: u8)) = (0x80 \<le> uint b \<and> uint b < 0xC0)) (map word_of_int [0..255])" by code_simp
  then have "(b AND 0xC0 = (0x80 :: u8)) = (0x80 \<le> uint b \<and> uint b < 0xC0)" by (rule all_u8)
  then show "b AND 0xC0 = 0x80 \<longleftrightarrow> 0x80 \<le> unat b \<and> unat b < 0xC0" by (simp add: byte_compare)
  have "list_all (\<lambda>b. (b AND 0xE0 = (0xC0 :: u8)) = (0xC0 \<le> uint b \<and> uint b < 0xE0)) (map word_of_int [0..255])" by code_simp
  then have "(b AND 0xE0 = (0xC0 :: u8)) = (0xC0 \<le> uint b \<and> uint b < 0xE0)" by (rule all_u8)
  then show "b AND 0xE0 = 0xC0 \<longleftrightarrow> 0xC0 \<le> unat b \<and> unat b < 0xE0" by (simp add: byte_compare)
qed

text \<open>Bytes and characters by their numbers.\<close>

lemma unat_byte: "x < 256 \<Longrightarrow> unat (of_nat x :: u8) = x"
  by simp

lemma byte_order: "(a < b) = (unat a < unat b)" "(a \<le> b) = (unat a \<le> unat b)" "(a = b) = (unat a = unat b)" for a b :: "'a :: len word"
  by (simp_all add: word_less_nat_alt word_le_nat_alt word_unat_eq_iff)

lemma ucast_of_byte: "(ucast (of_nat x :: u8) :: u32) = of_nat x" if "x < 256"
  using that by (intro word_unat_eq_iff [THEN iffD2]) (simp add: unsigned_ucast_eq unsigned_of_nat take_bit_nat_eq_self)

lemma push_bit_of_nat_word: "push_bit n (of_nat x :: u32) = of_nat (x * 2 ^ n)"
  by (simp add: push_bit_eq_mult)

lemma utf8_char_length: "utf8_char c bs \<Longrightarrow> bs \<noteq> [] \<and> inlineUTF8SequenceLength (hd bs) = length bs"
  by (induction rule: utf8_char.induct) (simp_all add: inlineUTF8SequenceLength_def isASCII_def sequence_length unat_byte del: of_nat_add)

lemma utf8_char_legal: "utf8_char c bs \<Longrightarrow> isLegalUTF8 (bs @ more_bytes) (length bs)"
  by (induction rule: utf8_char.induct)
    (simp_all add: isLegalUTF8_def byte_order unat_byte nth_append Let_def del: of_nat_add, auto)

lemma read_number: "x < 2 ^ 32 \<Longrightarrow> y \<le> x \<Longrightarrow> (of_nat x :: u32) - of_nat y = of_nat (x - y)"
  by (simp add: of_nat_diff)

lemma utf8_char_read: "utf8_char c bs \<Longrightarrow> readUTF8Sequence (bs @ more_bytes) (length bs) = of_nat c"
proof (induction rule: utf8_char.induct)
  case (one x0)
  then show ?case by (simp add: readUTF8Sequence_def offsetsFromUTF8_def ucast_of_byte)
next
  case (two x0 x1)
  then show ?case
    by (simp add: readUTF8Sequence_def offsetsFromUTF8_def ucast_of_byte push_bit_eq_mult del: of_nat_add) (simp add: algebra_simps)
next
  case (three x0 x1 x2)
  then show ?case
    by (simp add: readUTF8Sequence_def offsetsFromUTF8_def ucast_of_byte push_bit_eq_mult del: of_nat_add) (simp add: algebra_simps)
next
  case (four x0 x1 x2 x3)
  then show ?case
    by (simp add: readUTF8Sequence_def offsetsFromUTF8_def ucast_of_byte push_bit_eq_mult del: of_nat_add) (simp add: algebra_simps)
qed

lemma byte_numberE:
  fixes b :: u8
  assumes "lo \<le> unat b" "unat b < lo + n"
  obtains x where "x < n" "b = of_nat (lo + x)"
proof
  show "unat b - lo < n" "b = of_nat (lo + (unat b - lo))" using assms by simp_all
qed

text \<open>
  \<open>isLegalUTF8\<close> does not test the lower bound of the byte behind \<open>0xED\<close> and \<open>0xF4\<close>; a source is \<open>trailed\<close>
  if no ASCII character stands there.
\<close>

definition open_lead :: "u8 \<Rightarrow> bool" where
  "open_lead b \<longleftrightarrow> b = 0xED \<or> b = 0xF4"

fun trailed :: "u8 list \<Rightarrow> bool" where
  "trailed (a # b # bs) \<longleftrightarrow> (open_lead a \<longrightarrow> 0x80 \<le> b) \<and> trailed (b # bs)"
| "trailed _ \<longleftrightarrow> True"

lemma trailed_tl: "trailed bs \<Longrightarrow> trailed (tl bs)"
  by (cases bs rule: trailed.cases) simp_all

lemma trailed_drop: "trailed bs \<Longrightarrow> trailed (drop n bs)"
  by (induction n arbitrary: bs) (simp_all add: drop_Suc trailed_tl)

lemma legal_utf8_char:
  assumes "isLegalUTF8 source n" "n = inlineUTF8SequenceLength (hd source)" "source \<noteq> []" "n \<le> length source"
    "n \<ge> 2 \<longrightarrow> open_lead (source ! 0) \<longrightarrow> 0x80 \<le> source ! 1"
  obtains c where "utf8_char c (take n source)"
proof -
  let ?u = "\<lambda>i. unat (source ! i)"
  have hd: "hd source = source ! 0" using assms(3) by (simp add: hd_conv_nth)
  have n: "n = (if ?u 0 < 0x80 then 1 else if ?u 0 < 0xC0 then 0 else if ?u 0 < 0xE0 then 2 else if ?u 0 < 0xF0 then 3 else if ?u 0 < 0xF8 then 4 else 0)"
    unfolding assms(2) hd by (simp add: inlineUTF8SequenceLength_def isASCII_def sequence_length)
  have trail: "?u 0 = 0xED \<or> ?u 0 = 0xF4 \<longrightarrow> 0x80 \<le> ?u 1" if "n \<ge> 2"
    using that assms(5) by (auto simp: open_lead_def byte_order)
  note legal = assms(1) [unfolded isLegalUTF8_def Let_def byte_order, simplified]
  consider "n = 1" "?u 0 < 0x80" | "n = 2" "0xC0 \<le> ?u 0" "?u 0 < 0xE0" | "n = 3" "0xE0 \<le> ?u 0" "?u 0 < 0xF0"
    | "n = 4" "0xF0 \<le> ?u 0" "?u 0 < 0xF8"
    using n isLegalUTF8_length [OF assms(1)] by (auto split: if_splits)
  then show ?thesis
  proof cases
    case 1
    then have "take n source = [of_nat (?u 0)]" using assms(3) by (cases source) simp_all
    then show ?thesis using that utf8_char.one [OF 1(2)] by simp
  next
    case 2
    have b: "0xC2 \<le> ?u 0" "0x80 \<le> ?u 1" "?u 1 < 0x80 + 64" using legal 2 by (auto split: if_splits)
    obtain x0 where x0: "x0 < 32" "source ! 0 = of_nat (0xC0 + x0)" by (rule byte_numberE [of "0xC0" "source ! 0" 32]) (use 2 in auto)
    obtain x1 where x1: "x1 < 64" "source ! 1 = of_nat (0x80 + x1)" by (rule byte_numberE [OF b(2,3)])
    have "take n source = [source ! 0, source ! 1]" using 2 assms(4) by (intro nth_equalityI) (auto simp: nth_Cons less_Suc_eq numeral_2_eq_2 split: nat.splits)
    moreover have "2 \<le> x0" using b(1) x0 by (simp del: of_nat_add)
    ultimately show ?thesis using that utf8_char.two [of x0 x1] x0 x1 by simp
  next
    case 3
    have b: "0x80 \<le> ?u 1" "?u 1 < 0x80 + 64" "0x80 \<le> ?u 2" "?u 2 < 0x80 + 64"
      "?u 0 = 0xE0 \<longrightarrow> 0xA0 \<le> ?u 1" "?u 0 = 0xED \<longrightarrow> ?u 1 < 0xA0" using legal trail 3 by (auto split: if_splits)
    obtain x0 where x0: "x0 < 16" "source ! 0 = of_nat (0xE0 + x0)" by (rule byte_numberE [of "0xE0" "source ! 0" 16]) (use 3 in auto)
    obtain x1 where x1: "x1 < 64" "source ! 1 = of_nat (0x80 + x1)" by (rule byte_numberE [OF b(1,2)])
    obtain x2 where x2: "x2 < 64" "source ! 2 = of_nat (0x80 + x2)" by (rule byte_numberE [OF b(3,4)])
    have "take n source = [source ! 0, source ! 1, source ! 2]"
      using 3 assms(4) by (intro nth_equalityI) (auto simp: nth_Cons less_Suc_eq numeral_3_eq_3 numeral_2_eq_2 split: nat.splits)
    moreover have "x0 = 0 \<longrightarrow> 32 \<le> x1" "x0 = 13 \<longrightarrow> x1 < 32" using b(5,6) x0 x1 by (simp_all del: of_nat_add)
    ultimately show ?thesis using that utf8_char.three [of x0 x1 x2] x0 x1 x2 by simp
  next
    case 4
    have b: "0x80 \<le> ?u 1" "?u 1 < 0x80 + 64" "0x80 \<le> ?u 2" "?u 2 < 0x80 + 64" "0x80 \<le> ?u 3" "?u 3 < 0x80 + 64"
      "?u 0 = 0xF0 \<longrightarrow> 0x90 \<le> ?u 1" "?u 0 = 0xF4 \<longrightarrow> ?u 1 < 0x90" "?u 0 < 0xF0 + 5" using legal trail 4 by (auto split: if_splits)
    obtain x0 where x0: "x0 < 5" "source ! 0 = of_nat (0xF0 + x0)" by (rule byte_numberE [OF 4(2) b(9)])
    obtain x1 where x1: "x1 < 64" "source ! 1 = of_nat (0x80 + x1)" by (rule byte_numberE [OF b(1,2)])
    obtain x2 where x2: "x2 < 64" "source ! 2 = of_nat (0x80 + x2)" by (rule byte_numberE [OF b(3,4)])
    obtain x3 where x3: "x3 < 64" "source ! 3 = of_nat (0x80 + x3)" by (rule byte_numberE [OF b(5,6)])
    have "take n source = [source ! 0, source ! 1, source ! 2, source ! 3]"
      using 4 assms(4) by (intro nth_equalityI) (auto simp: nth_Cons less_Suc_eq numeral_eq_Suc split: nat.splits)
    moreover have "x0 = 0 \<longrightarrow> 16 \<le> x1" "x0 = 4 \<longrightarrow> x1 < 16" using b(7,8) x0 x1 by (simp_all del: of_nat_add)
    ultimately show ?thesis using that utf8_char.four [of x0 x1 x2 x3] x0 x1 x2 x3 by simp
  qed
qed

text \<open>The sequences that slip through, and the numbers read from them.\<close>

inductive utf8_slip :: "nat \<Rightarrow> u8 list \<Rightarrow> bool" where
  slip_three: "x1 < 128 \<Longrightarrow> x2 < 64 \<Longrightarrow> utf8_slip (0xB000 + x1 * 64 + x2) [0xED, of_nat x1, of_nat (0x80 + x2)]"
| slip_four: "x1 < 128 \<Longrightarrow> x2 < 64 \<Longrightarrow> x3 < 64 \<Longrightarrow>
    utf8_slip (0x80000 + (x1 * 64 + x2) * 64 + x3) [0xF4, of_nat x1, of_nat (0x80 + x2), of_nat (0x80 + x3)]"

lemma utf8_slip_legal:
  "utf8_slip c bs \<Longrightarrow> bs \<noteq> [] \<and> inlineUTF8SequenceLength (hd bs) = length bs \<and> isLegalUTF8 (bs @ more_bytes) (length bs)"
  by (induction rule: utf8_slip.induct)
    (simp_all add: isLegalUTF8_def byte_order unat_byte nth_append Let_def inlineUTF8SequenceLength_def isASCII_def sequence_length del: of_nat_add)

lemma utf8_slip_read: "utf8_slip c bs \<Longrightarrow> readUTF8Sequence (bs @ more_bytes) (length bs) = of_nat c"
proof (induction rule: utf8_slip.induct)
  case (slip_three x1 x2)
  then show ?case
    by (simp add: readUTF8Sequence_def offsetsFromUTF8_def ucast_of_byte push_bit_eq_mult del: of_nat_add) (simp add: algebra_simps)
next
  case (slip_four x1 x2 x3)
  then show ?case
    by (simp add: readUTF8Sequence_def offsetsFromUTF8_def ucast_of_byte push_bit_eq_mult del: of_nat_add) (simp add: algebra_simps)
qed

lemma utf8_slip_scalar: "utf8_slip c bs \<Longrightarrow> scalar_value c"
  by (induction rule: utf8_slip.induct) (simp_all add: scalar_value_def)

lemma legal_utf8_slip:
  assumes "isLegalUTF8 source n" "n = inlineUTF8SequenceLength (hd source)" "source \<noteq> []" "n \<le> length source"
    "n \<ge> 2" "open_lead (source ! 0)" "source ! 1 < 0x80"
  obtains c where "utf8_slip c (take n source)"
proof -
  let ?u = "\<lambda>i. unat (source ! i)"
  note legal = assms(1) [unfolded isLegalUTF8_def Let_def byte_order, simplified]
  have hd: "hd source = source ! 0" using assms(3) by (simp add: hd_conv_nth)
  obtain x1 where x1: "x1 < 128" "source ! 1 = of_nat x1"
    using byte_numberE [of 0 "source ! 1" 128] assms(7) by (auto simp: byte_order)
  consider "source ! 0 = 0xED" | "source ! 0 = 0xF4" using assms(6) by (auto simp: open_lead_def)
  then show ?thesis
  proof cases
    case 1
    then have n: "n = 3" using assms(2) hd by (simp add: inlineUTF8SequenceLength_def isASCII_def sequence_length)
    have b: "0x80 \<le> ?u 2" "?u 2 < 0x80 + 64" using legal n by (auto split: if_splits)
    obtain x2 where x2: "x2 < 64" "source ! 2 = of_nat (0x80 + x2)" by (rule byte_numberE [OF b])
    have "take n source = [source ! 0, source ! 1, source ! 2]"
      using n assms(4) by (intro nth_equalityI) (auto simp: nth_Cons less_Suc_eq numeral_3_eq_3 numeral_2_eq_2 split: nat.splits)
    then show ?thesis using that utf8_slip.slip_three [of x1 x2] 1 x1 x2 by simp
  next
    case 2
    then have n: "n = 4" using assms(2) hd by (simp add: inlineUTF8SequenceLength_def isASCII_def sequence_length)
    have b: "0x80 \<le> ?u 2" "?u 2 < 0x80 + 64" "0x80 \<le> ?u 3" "?u 3 < 0x80 + 64" using legal n by (auto split: if_splits)
    obtain x2 where x2: "x2 < 64" "source ! 2 = of_nat (0x80 + x2)" by (rule byte_numberE [OF b(1,2)])
    obtain x3 where x3: "x3 < 64" "source ! 3 = of_nat (0x80 + x3)" by (rule byte_numberE [OF b(3,4)])
    have "take n source = [source ! 0, source ! 1, source ! 2, source ! 3]"
      using n assms(4) by (intro nth_equalityI) (auto simp: nth_Cons less_Suc_eq numeral_eq_Suc split: nat.splits)
    then show ?thesis using that utf8_slip.slip_four [of x1 x2 x3] 2 x1 x2 x3 by simp
  qed
qed

lemma legal_cases:
  assumes "isLegalUTF8 source n" "n = inlineUTF8SequenceLength (hd source)" "source \<noteq> []" "n \<le> length source"
  obtains (char) c where "utf8_char c (take n source)" | (slip) c where "utf8_slip c (take n source)" "n \<ge> 2" "open_lead (source ! 0)" "source ! 1 < 0x80"
  using legal_utf8_char [OF assms] legal_utf8_slip [OF assms] by (meson not_le)

lemma legal_reads_scalar:
  assumes "isLegalUTF8 source n" "n = inlineUTF8SequenceLength (hd source)" "source \<noteq> []" "n \<le> length source"
  shows "\<exists>c. scalar_value c \<and> readUTF8Sequence source n = of_nat c"
proof -
  have s: "take n source @ drop n source = source" "length (take n source) = n" using assms(4) by simp_all
  show ?thesis using assms
  proof (cases rule: legal_cases)
    case (char c)
    then show ?thesis using utf8_char_utf8 [of c] utf8_char_read [of c "take n source" "drop n source"] s by metis
  next
    case (slip c)
    then show ?thesis using utf8_slip_scalar [of c] utf8_slip_read [of c "take n source" "drop n source"] s by metis
  qed
qed

lemma legal_trailed:
  assumes "isLegalUTF8 source n" "n = inlineUTF8SequenceLength (hd source)" "source \<noteq> []" "n \<le> length source" "trailed source"
  shows "\<exists>c. scalar_value c \<and> take n source = utf8 c"
  using assms(1-4)
proof (cases rule: legal_cases)
  case (char c)
  then show ?thesis using utf8_char_utf8 by blast
next
  case (slip c)
  then have False using assms(4,5) by (cases source rule: trailed.cases) (auto simp: byte_order)
  then show ?thesis ..
qed

section \<open>Writing a character\<close>

lemma ucast_u8_of_nat: "(ucast (of_nat c :: u32) :: u8) = of_nat c"
  by (rule word_unat_eq_iff [THEN iffD2]) (simp add: unsigned_ucast_eq unsigned_of_nat)

lemma ucast_u8_ucast: "(ucast (ucast m :: u32) :: u8) = m" for m :: u8
  by (rule bit_word_eqI) (simp add: bit_simps)

lemma unat_u8_of_nat: "unat (of_nat c :: u8) = c mod 256"
  by (simp add: unsigned_of_nat take_bit_eq_mod)

lemma continuation_of_nat: "continuation_byte (of_nat c) = of_nat (0x80 + c mod 64)"
proof -
  have "list_all (\<lambda>b. (b OR 0x80) AND 0xBF = (word_of_int (0x80 + uint b mod 64) :: u8)) (map word_of_int [0..255])" by code_simp
  then have "(b OR 0x80) AND 0xBF = (word_of_int (0x80 + uint b mod 64) :: u8)" for b by (rule all_u8)
  then have b: "(b OR 0x80) AND 0xBF = (of_nat (0x80 + unat b mod 64) :: u8)" for b
    by (simp add: byte_payload)
  have "continuation_byte (of_nat c) = (of_nat c OR 0x80) AND 0xBF"
    by (simp add: continuation_byte_def unsigned_and_eq unsigned_or_eq ucast_u8_of_nat)
  then show ?thesis by (simp add: b unat_u8_of_nat mod_mod_cancel)
qed

lemma lead_of_nat:
  "c < 128 \<Longrightarrow> ucast (of_nat c OR ucast (0x00 :: u8) :: u32) = (of_nat c :: u8)"
  "c < 32 \<Longrightarrow> ucast (of_nat c OR ucast (0xC0 :: u8) :: u32) = (of_nat (0xC0 + c) :: u8)"
  "c < 16 \<Longrightarrow> ucast (of_nat c OR ucast (0xE0 :: u8) :: u32) = (of_nat (0xE0 + c) :: u8)"
  "c < 8 \<Longrightarrow> ucast (of_nat c OR ucast (0xF0 :: u8) :: u32) = (of_nat (0xF0 + c) :: u8)"
proof -
  have "list_all (\<lambda>b. (uint b < 32 \<longrightarrow> b OR 0xC0 = (word_of_int (0xC0 + uint b) :: u8)) \<and> (uint b < 16 \<longrightarrow> b OR 0xE0 = (word_of_int (0xE0 + uint b) :: u8)) \<and>
    (uint b < 8 \<longrightarrow> b OR 0xF0 = (word_of_int (0xF0 + uint b) :: u8))) (map word_of_int [0..255])" by code_simp
  then have "(uint b < 32 \<longrightarrow> b OR 0xC0 = (word_of_int (0xC0 + uint b) :: u8)) \<and> (uint b < 16 \<longrightarrow> b OR 0xE0 = (word_of_int (0xE0 + uint b) :: u8)) \<and>
    (uint b < 8 \<longrightarrow> b OR 0xF0 = (word_of_int (0xF0 + uint b) :: u8))" for b by (rule all_u8)
  then have b: "(unat b < 32 \<longrightarrow> b OR 0xC0 = (of_nat (0xC0 + unat b) :: u8)) \<and> (unat b < 16 \<longrightarrow> b OR 0xE0 = (of_nat (0xE0 + unat b) :: u8)) \<and>
    (unat b < 8 \<longrightarrow> b OR 0xF0 = (of_nat (0xF0 + unat b) :: u8))" for b by (simp add: byte_compare)
  have e: "ucast (of_nat c OR ucast m :: u32) = (of_nat c OR m :: u8)" for m :: u8
    by (simp add: unsigned_or_eq ucast_u8_of_nat ucast_u8_ucast)
  show "c < 128 \<Longrightarrow> ucast (of_nat c OR ucast (0x00 :: u8) :: u32) = (of_nat c :: u8)" unfolding e by simp
  show "c < 32 \<Longrightarrow> ucast (of_nat c OR ucast (0xC0 :: u8) :: u32) = (of_nat (0xC0 + c) :: u8)" unfolding e using b [of "of_nat c"] by simp
  show "c < 16 \<Longrightarrow> ucast (of_nat c OR ucast (0xE0 :: u8) :: u32) = (of_nat (0xE0 + c) :: u8)" unfolding e using b [of "of_nat c"] by simp
  show "c < 8 \<Longrightarrow> ucast (of_nat c OR ucast (0xF0 :: u8) :: u32) = (of_nat (0xF0 + c) :: u8)" unfolding e using b [of "of_nat c"] by simp
qed

lemma drop_bit_of_nat_u32: "c < 2 ^ 32 \<Longrightarrow> drop_bit n (of_nat c :: u32) = of_nat (c div 2 ^ n)"
proof -
  assume c: "c < 2 ^ 32"
  have "c div 2 ^ n \<le> c" by simp
  then have "c div 2 ^ n < 2 ^ 32" using c by linarith
  then have "c div 2 ^ n < 4294967296" by simp
  then have "unat (of_nat (c div 2 ^ n) :: u32) = c div 2 ^ n" by (rule unat_of_nat_sizes(3))
  moreover have "unat (drop_bit n (of_nat c :: u32)) = c div 2 ^ n" using c by (simp only: unat_drop_bit_eq) (simp add: drop_bit_eq_div)
  ultimately show ?thesis by (simp only: word_unat_eq_iff)
qed

lemma write_bytes_unfold:
  "write_bytes k 4 ch bs = write_bytes k 3 (drop_bit 6 ch) (continuation_byte ch # bs)"
  "write_bytes k 3 ch bs = write_bytes k 2 (drop_bit 6 ch) (continuation_byte ch # bs)"
  "write_bytes k 2 ch bs = write_bytes k 1 (drop_bit 6 ch) (continuation_byte ch # bs)"
  "write_bytes k 1 ch bs = ucast (ch OR ucast (firstByteMark ! k)) # bs"
  by (simp_all add: numeral_eq_Suc)

lemma first_byte_marks:
  "firstByteMark ! 1 = 0x00" "firstByteMark ! 2 = 0xC0" "firstByteMark ! 3 = 0xE0" "firstByteMark ! 4 = 0xF0"
  by (simp_all add: firstByteMark_def)

lemma write_utf8:
  assumes "c < 0x110000"
  shows "bytes_to_write (of_nat c) = (length (utf8 c), of_nat c)" "write_bytes (length (utf8 c)) (length (utf8 c)) (of_nat c) [] = utf8 c"
proof -
  show "bytes_to_write (of_nat c) = (length (utf8 c), of_nat c)" using assms by (simp add: bytes_to_write_def utf8_def byte_order)
  have shift: "drop_bit 6 (of_nat d :: u32) = of_nat (d div 64)" if "d \<le> c" for d using drop_bit_of_nat_u32 [of d 6] assms that by simp
  have "c div 64 \<le> c" "c div 64 div 64 \<le> c" by (simp_all add: div_le_dividend order.trans)
  note s = shift [OF order.refl] shift [OF this(1)] shift [OF this(2)]
  consider "c < 0x80" | "0x80 \<le> c" "c < 0x800" | "0x800 \<le> c" "c < 0x10000" | "0x10000 \<le> c" by linarith
  then show "write_bytes (length (utf8 c)) (length (utf8 c)) (of_nat c) [] = utf8 c"
  proof cases
    case 1
    then have e: "utf8 c = [of_nat c]" by (simp add: utf8_def)
    have "c < 128" "length [x] = 1" for x :: u8 using 1 by simp_all
    then show ?thesis by (simp only: e write_bytes_unfold first_byte_marks lead_of_nat)
  next
    case 2
    then have "c div 64 < 32" "utf8 c = [of_nat (0xC0 + c div 64), of_nat (0x80 + c mod 64)]" by (simp_all add: utf8_def)
    moreover have "length [x, y] = 2" for x y :: u8 by simp
    ultimately show ?thesis
      by (simp only: write_bytes_unfold first_byte_marks continuation_of_nat s lead_of_nat)
  next
    case 3
    then have "c div 64 div 64 < 16"
      "utf8 c = [of_nat (0xE0 + c div 64 div 64), of_nat (0x80 + c div 64 mod 64), of_nat (0x80 + c mod 64)]" by (simp_all add: utf8_def)
    moreover have "length [x, y, z] = 3" for x y z :: u8 by simp
    ultimately show ?thesis
      by (simp only: write_bytes_unfold first_byte_marks continuation_of_nat s lead_of_nat)
  next
    case 4
    then have "c div 64 div 64 div 64 < 8" "utf8 c = [of_nat (0xF0 + c div 64 div 64 div 64), of_nat (0x80 + c div 64 div 64 mod 64),
            of_nat (0x80 + c div 64 mod 64), of_nat (0x80 + c mod 64)]" using assms by (simp_all add: utf8_def)
    moreover have "length [x, y, z, t] = 4" for x y z t :: u8 by simp
    ultimately show ?thesis
      by (simp only: write_bytes_unfold first_byte_marks continuation_of_nat s lead_of_nat)
  qed
qed

end
