(* ===== verification/WTF_UTF16_Forms.thy ===== *)
theory WTF_UTF16_Forms
  imports WTF_UTF8_Forms
begin

text \<open>
  One character of UTF-16: what is read from it, and the units that are written for it.
\<close>

section \<open>The macros\<close>

lemma bmp_of_nat: "c < 2 ^ 32 \<Longrightarrow> U_IS_BMP (of_nat c) \<longleftrightarrow> c < 0x10000"
  by (auto simp: U_IS_BMP_def byte_order)

lemma supplementary_of_nat: "0x10000 \<le> c \<Longrightarrow> c < 0x110000 \<Longrightarrow> U_IS_SUPPLEMENTARY (of_nat c)"
proof -
  assume c: "0x10000 \<le> c" "c < 0x110000"
  then have "(of_nat c - 0x10000 :: u32) = of_nat (c - 0x10000)" by (simp add: of_nat_diff)
  then show ?thesis using c by (simp add: U_IS_SUPPLEMENTARY_def byte_order del: of_nat_diff)
qed

lemma high_bits: "x AND 0xfffff800 = push_bit 11 (drop_bit 11 x)" for x :: u32
proof -
  have m: "(0xfffff800 :: u32) = NOT (mask 11)" by (simp add: mask_eq_exp_minus_1)
  show ?thesis unfolding m by (rule bit_word_eqI) (auto simp: bit_simps)
qed

lemma surrogate_of_nat: "c < 0x10000 \<Longrightarrow> U_IS_SURROGATE (of_nat c) \<longleftrightarrow> 0xD800 \<le> c \<and> c < 0xE000"
proof -
  assume c: "c < 0x10000"
  have "drop_bit 11 (of_nat c :: u32) = of_nat (c div 2 ^ 11)" using drop_bit_of_nat_u32 [of c 11] c by simp
  then have "of_nat c AND 0xfffff800 = (of_nat (c div 2048 * 2048) :: u32)" by (simp add: high_bits push_bit_eq_mult mult.commute)
  moreover have "c div 2048 * 2048 < 4294967296" using c by (simp add: order.strict_trans1 [OF times_div_less_eq_dividend])
  ultimately have "U_IS_SURROGATE (of_nat c) \<longleftrightarrow> c div 2048 * 2048 = 0xd800" by (simp add: U_IS_SURROGATE_def byte_order del: of_nat_mult)
  also have "\<dots> \<longleftrightarrow> c div 2048 = 27" by auto
  also have "\<dots> \<longleftrightarrow> 0xD800 \<le> c \<and> c < 0xE000"
  proof -
    have "c = c div 2048 * 2048 + c mod 2048" "c mod 2048 < 2048" by simp_all
    then show ?thesis by linarith
  qed
  finally show ?thesis .
qed

lemma trail_or: "x < 1024 \<Longrightarrow> (of_nat x OR 0xdc00 :: u32) = of_nat (0xDC00 + x)"
proof -
  assume x: "x < 1024"
  have "of_nat x AND (0xdc00 :: u32) = 0"
  proof (rule bit_word_eqI)
    fix n
    have m: "(0xdc00 :: u32) = push_bit 10 55" by simp
    have "\<not> bit (0xdc00 :: u32) n" if "n < 10" using that unfolding m by (simp only: bit_push_bit_iff) simp
    moreover have "\<not> bit (of_nat x :: u32) n" if "n \<ge> 10"
    proof -
      have "take_bit 10 (of_nat x :: u32) = of_nat x" using x by (simp add: take_bit_of_nat take_bit_nat_eq_self)
      then show ?thesis using that by (metis bit_take_bit_iff not_le)
    qed
    ultimately show "bit (of_nat x AND (0xdc00 :: u32)) n = bit (0 :: u32) n" by (cases "n < 10") (simp_all add: bit_and_iff)
  qed
  then have "of_nat x OR (0xdc00 :: u32) = of_nat x + 0xdc00" by (rule disjunctive_add_eq_or [symmetric])
  then show ?thesis by simp
qed

lemma u16_of_u32: "(ucast (of_nat c :: u32) :: u16) = of_nat c"
  by (rule word_unat_eq_iff [THEN iffD2]) (simp add: unsigned_ucast_eq unsigned_of_nat)

lemma pair_of_nat:
  assumes "c < 0x110000"
  shows "U16_LEAD (of_nat c) = of_nat (0xD7C0 + c div 1024)" "U16_TRAIL (of_nat c) = of_nat (0xDC00 + c mod 1024)"
proof -
  have "drop_bit 10 (of_nat c :: u32) = of_nat (c div 1024)" using drop_bit_of_nat_u32 [of c 10] assms by simp
  then have "drop_bit 10 (of_nat c :: u32) + 0xd7c0 = of_nat (0xD7C0 + c div 1024)" by simp
  then show "U16_LEAD (of_nat c) = of_nat (0xD7C0 + c div 1024)" unfolding U16_LEAD_def by (simp only: u16_of_u32)
  have "(0x3ff :: u32) = mask 10" by (simp add: mask_eq_exp_minus_1)
  then have "of_nat c AND (0x3ff :: u32) = of_nat (c mod 1024)"
    using take_bit_of_nat [of 10 c, where 'a = "32 word"] take_bit_eq_mod [of 10 c] by (simp only: take_bit_eq_mask [symmetric]) simp
  then have "(of_nat c AND 0x3ff) OR 0xdc00 = (of_nat (0xDC00 + c mod 1024) :: u32)" using trail_or [of "c mod 1024"] by simp
  then show "U16_TRAIL (of_nat c) = of_nat (0xDC00 + c mod 1024)" unfolding U16_TRAIL_def by (simp only: u16_of_u32)
qed

section \<open>Reading\<close>

lemma ucast_of_unit: "(ucast (of_nat x :: u16) :: u32) = of_nat x" if "x < 65536"
  using that by (intro word_unat_eq_iff [THEN iffD2]) (simp add: unsigned_ucast_eq unsigned_of_nat take_bit_nat_eq_self)

lemma ucast_unit: "(ucast (u :: u16) :: u32) = of_nat (unat u)"
  by (rule word_unat_eq_iff [THEN iffD2]) (use unsigned_less [of u] in \<open>simp add: unsigned_ucast_eq unsigned_of_nat take_bit_nat_eq_self\<close>)

lemma unit_bound: "unat (u :: u16) < 65536"
  using unsigned_less [of u] by simp

lemma unit_order:
  assumes "x < 65536"
  shows "((of_nat x :: u32) \<ge> 0xD800) = (x \<ge> 0xD800)" "((of_nat x :: u32) \<le> 0xDBFF) = (x \<le> 0xDBFF)"
    "((of_nat x :: u32) \<ge> 0xDC00) = (x \<ge> 0xDC00)" "((of_nat x :: u32) \<le> 0xDFFF) = (x \<le> 0xDFFF)"
  using assms by (simp_all add: byte_order)

lemma pair_value:
  assumes "0xD800 \<le> h" "0xDC00 \<le> l"
  shows "push_bit 10 (of_nat h - 0xD800) + (of_nat l - 0xDC00) + 0x0010000 = (of_nat ((h - 0xD800) * 1024 + (l - 0xDC00) + 0x10000) :: u32)"
proof -
  have "(of_nat h - 0xD800 :: u32) = of_nat (h - 0xD800)" "(of_nat l - 0xDC00 :: u32) = of_nat (l - 0xDC00)"
    using assms by (simp_all add: of_nat_diff)
  then show ?thesis by (simp add: push_bit_eq_mult)
qed

text \<open>Reading a character in terms of numbers.\<close>

lemma read_utf16_nat:
  "read_utf16 strict u source =
    (if 0xD800 \<le> unat u \<and> unat u \<le> 0xDBFF then
       case source of
         [] \<Rightarrow> Inl sourceExhausted
       | u2 # _ \<Rightarrow>
           if 0xDC00 \<le> unat u2 \<and> unat u2 \<le> 0xDFFF then
             Inr (of_nat ((unat u - 0xD800) * 1024 + (unat u2 - 0xDC00) + 0x10000), 1)
           else if strict then Inl sourceIllegal else Inr (of_nat (unat u), 0)
     else if strict \<and> 0xDC00 \<le> unat u \<and> unat u \<le> 0xDFFF then Inl sourceIllegal
     else Inr (of_nat (unat u), 0))"
  unfolding read_utf16_def Let_def ucast_unit unit_order [OF unit_bound]
  by (simp add: pair_value del: of_nat_unat of_nat_add of_nat_mult split: list.split)

lemma read_utf16_scalar:
  assumes "scalar_value c"
  shows "\<exists>u us. utf16 c = u # us \<and> read_utf16 strict u (us @ source) = Inr (of_nat c, length us)"
proof (cases "c < 0x10000")
  case True
  then have "unat (of_nat c :: u16) = c" by simp
  then show ?thesis using True assms by (auto simp: utf16_def read_utf16_nat scalar_value_def simp del: of_nat_unat)
next
  case False
  then have c: "0x10000 \<le> c" "c < 0x110000" using assms by (auto simp: scalar_value_def)
  have d: "64 \<le> c div 1024" "c div 1024 < 1088" "c mod 1024 < 1024" "c = c div 1024 * 1024 + c mod 1024" using c by auto
  have u: "unat (of_nat (0xD7C0 + c div 1024) :: u16) = 0xD7C0 + c div 1024" "unat (of_nat (0xDC00 + c mod 1024) :: u16) = 0xDC00 + c mod 1024"
    by (rule unat_of_nat_sizes(2), use d in linarith)+
  have e: "(0xD7C0 + c div 1024 - 0xD800) * 1024 + (0xDC00 + c mod 1024 - 0xDC00) + 0x10000 = c"
    using d by (simp add: diff_mult_distrib)
  have r: "0xD800 \<le> 0xD7C0 + c div 1024 \<and> 0xD7C0 + c div 1024 \<le> 0xDBFF" "0xDC00 \<le> 0xDC00 + c mod 1024 \<and> 0xDC00 + c mod 1024 \<le> 0xDFFF"
    using d by simp_all
  have "read_utf16 strict (of_nat (0xD7C0 + c div 1024)) (of_nat (0xDC00 + c mod 1024) # source) = Inr (of_nat c, 1)"
    unfolding read_utf16_nat u list.case e if_P [OF r(1)] if_P [OF r(2)] ..
  then show ?thesis using False by (simp add: utf16_def del: of_nat_add)
qed

lemma read_utf16_strict:
  assumes "read_utf16 True u source = Inr (ch, k)"
  shows "\<exists>c. scalar_value c \<and> ch = of_nat c \<and> u # take k source = utf16 c \<and> k \<le> length source"
proof -
  consider "0xD800 \<le> unat u" "unat u \<le> 0xDBFF" | "unat u < 0xD800 \<or> 0xDC00 \<le> unat u" by linarith
  then show ?thesis
  proof cases
    case 1
    then obtain u2 us where s: "source = u2 # us" "0xDC00 \<le> unat u2" "unat u2 \<le> 0xDFFF" and k: "k = 1"
      and ch: "ch = of_nat ((unat u - 0xD800) * 1024 + (unat u2 - 0xDC00) + 0x10000)"
      using assms unfolding read_utf16_nat by (auto simp del: of_nat_add of_nat_mult of_nat_unat split: list.splits if_splits)
    define h l where "h = unat u - 0xD800" and "l = unat u2 - 0xDC00"
    have hl: "h < 1024" "l < 1024" "unat u = 0xD800 + h" "unat u2 = 0xDC00 + l" using 1 s by (auto simp: h_def l_def)
    let ?c = "h * 1024 + l + 0x10000"
    have "?c = (h + 64) * 1024 + l" by simp
    then have "?c div 1024 = h + 64" "?c mod 1024 = l" using hl(2) by (simp_all only: div_mult_self3 mod_mult_self3) simp_all
    moreover have "of_nat (unat u) = u" "of_nat (unat u2) = u2" by simp_all
    then have "of_nat (0xD800 + h) = u" "of_nat (0xDC00 + l) = u2" unfolding hl(3,4) .
    moreover have "scalar_value ?c" using hl(1,2) by (simp add: scalar_value_def)
    moreover have "0xD7C0 + (h + 64) = 0xD800 + h" by simp
    ultimately have "scalar_value ?c \<and> u # take k source = utf16 ?c" using s k unfolding utf16_def by (simp del: of_nat_add)
    then show ?thesis using ch s k unfolding h_def l_def by (intro exI [of _ "(unat u - 0xD800) * 1024 + (unat u2 - 0xDC00) + 0x10000"]) simp
  next
    case 2
    then have "ch = of_nat (unat u)" "k = 0" "\<not> (0xDC00 \<le> unat u \<and> unat u \<le> 0xDFFF)"
      using assms unfolding read_utf16_nat by (auto simp del: of_nat_unat split: if_splits)
    then show ?thesis using 2 unit_bound [of u] by (intro exI [of _ "unat u"]) (auto simp: scalar_value_def utf16_def)
  qed
qed

section \<open>Writing\<close>

lemma utf16_of_scalar:
  assumes "scalar_value c"
  shows "utf16_of_character strict (of_nat c) room orAllData =
    (if room < length (utf16 c) then Inl targetExhausted
     else Inr (utf16 c, if c < 0x10000 then orAllData OR of_nat c else 0xffff))"
proof (cases "c < 0x10000")
  case True
  then have "\<not> (0xD800 \<le> c \<and> c < 0xE000)" using assms by (auto simp: scalar_value_def)
  then show ?thesis using True bmp_of_nat [of c] surrogate_of_nat [OF True]
    by (auto simp: utf16_of_character_def utf16_def u16_of_u32)
next
  case False
  then have c: "0x10000 \<le> c" "c < 0x110000" using assms by (auto simp: scalar_value_def)
  then have "\<not> U_IS_BMP (of_nat c)" using bmp_of_nat [of c] by simp
  then show ?thesis using supplementary_of_nat [OF c] pair_of_nat [OF c(2)] False
    by (auto simp: utf16_of_character_def utf16_def simp del: of_nat_add)
qed

lemma and_or_zero: "(a OR b) AND m = 0 \<longleftrightarrow> a AND m = 0 \<and> b AND m = 0" for a b m :: "'a :: len word"
  by (auto simp: bit_eq_iff bit_simps)

lemma beyond_ascii: "x AND NOT 0x7f = 0 \<longleftrightarrow> unat x < 0x80" for x :: u16
proof -
  have m: "(0x7f :: u16) = mask 7" by (simp add: mask_eq_exp_minus_1)
  have "x AND NOT 0x7f = push_bit 7 (drop_bit 7 x)" unfolding m by (rule bit_word_eqI) (auto simp: bit_simps)
  moreover have "push_bit 7 (drop_bit 7 x) = 0 \<longleftrightarrow> drop_bit 7 x = 0"
  proof
    assume z: "push_bit 7 (drop_bit 7 x) = 0"
    show "drop_bit 7 x = 0"
    proof (rule bit_word_eqI)
      fix n
      have "\<not> bit (push_bit 7 (drop_bit 7 x)) (n + 7)" unfolding z by simp
      then show "bit (drop_bit 7 x) n = bit 0 n" by (auto simp: bit_simps dest: bit_imp_le_length)
    qed
  qed simp
  moreover have "drop_bit 7 x = 0 \<longleftrightarrow> unat x div 2 ^ 7 = 0" by (simp only: word_unat_eq_iff unat_drop_bit_eq) (simp add: drop_bit_eq_div)
  ultimately show ?thesis by (simp add: div_eq_0_iff)
qed

lemma ascii_data:
  assumes "scalar_value c"
  shows "(if c < 0x10000 then orAllData OR of_nat c else 0xffff) AND NOT 0x7f = (0 :: u16) \<longleftrightarrow> orAllData AND NOT 0x7f = 0 \<and> c < 0x80"
proof (cases "c < 0x10000")
  case True
  then show ?thesis unfolding if_P [OF True] and_or_zero unfolding beyond_ascii by simp
next
  case False
  have "\<not> unat (0xffff :: u16) < 0x80" by simp
  then show ?thesis using False by (simp only: if_False beyond_ascii) simp
qed

end
