(* ===== verification/WTF_UTF8_Convert.thy ===== *)
theory WTF_UTF8_Convert
  imports WTF_UTF16_Forms
begin

text \<open>
  The conversions on whole strings: how far they get, what they write, and which result they give.
\<close>

section \<open>Well-formed strings\<close>

definition utf8s :: "nat list \<Rightarrow> u8 list" where
  "utf8s cs = concat (map utf8 cs)"

definition utf16s :: "nat list \<Rightarrow> u16 list" where
  "utf16s cs = concat (map utf16 cs)"

lemma utf8s_simps [simp]: "utf8s [] = []" "utf8s (c # cs) = utf8 c @ utf8s cs" "utf8s (cs @ ds) = utf8s cs @ utf8s ds"
  by (simp_all add: utf8s_def)

lemma utf16s_simps [simp]: "utf16s [] = []" "utf16s (c # cs) = utf16 c @ utf16s cs" "utf16s (cs @ ds) = utf16s cs @ utf16s ds"
  by (simp_all add: utf16s_def)

lemma scalar_bound: "scalar_value c \<Longrightarrow> c < 0x110000"
  by (auto simp: scalar_value_def)

lemma utf8_nonempty [simp]: "utf8 c \<noteq> []" "utf16 c \<noteq> []"
  by (auto simp: utf8_def utf16_def)

text \<open>No encoding of a character is a prefix of another one, and characters differ in their encodings.\<close>

lemma utf8_head:
  assumes "scalar_value c"
  shows "inlineUTF8SequenceLength (hd (utf8 c @ bs)) = length (utf8 c)" "isLegalUTF8 (utf8 c @ bs) (length (utf8 c))"
    "readUTF8Sequence (utf8 c @ bs) (length (utf8 c)) = of_nat c"
  using utf8_char_length [OF utf8_is_char [OF assms]] utf8_char_legal [OF utf8_is_char [OF assms]] utf8_char_read [OF utf8_is_char [OF assms]]
  by simp_all

lemma utf8_unique:
  assumes "scalar_value c" "scalar_value d" "utf8 c @ bs = utf8 d @ es"
  shows "c = d \<and> bs = es"
proof -
  have l: "length (utf8 c) = length (utf8 d)" using utf8_head(1) [OF assms(1), of bs] utf8_head(1) [OF assms(2), of es] assms(3) by simp
  have "(of_nat c :: u32) = of_nat d"
    using utf8_head(3) [OF assms(1), of bs] utf8_head(3) [OF assms(2), of es] assms(3) l by simp
  then have "c = d" using scalar_bound [OF assms(1)] scalar_bound [OF assms(2)] by (simp add: byte_order)
  then show ?thesis using assms(3) by simp
qed

lemma utf16_unique:
  assumes "scalar_value c" "scalar_value d" "utf16 c @ us = utf16 d @ vs"
  shows "c = d \<and> us = vs"
proof -
  obtain u ps v qs where u: "utf16 c = u # ps" "read_utf16 True u (ps @ us) = Inr (of_nat c, length ps)"
    and v: "utf16 d = v # qs" "read_utf16 True v (qs @ vs) = Inr (of_nat d, length qs)"
    using read_utf16_scalar [OF assms(1)] read_utf16_scalar [OF assms(2)] by meson
  have "(of_nat c :: u32) = of_nat d" using u v assms(3) by simp
  then have "c = d" using scalar_bound [OF assms(1)] scalar_bound [OF assms(2)] by (simp add: byte_order)
  then show ?thesis using assms(3) by simp
qed

lemma utf8s_inj:
  assumes "list_all scalar_value cs" "list_all scalar_value ds" "utf8s cs = utf8s ds"
  shows "cs = ds"
  using assms
proof (induction cs arbitrary: ds)
  case Nil
  then show ?case by (cases ds) simp_all
next
  case (Cons c cs)
  then obtain d es where ds: "ds = d # es" by (cases ds) simp_all
  then have u: "c = d \<and> utf8s cs = utf8s es" using Cons.prems by (intro utf8_unique) simp_all
  then have "cs = es" using Cons.prems ds by (intro Cons.IH) simp_all
  then show ?case using u ds by simp
qed

lemma utf16s_inj:
  assumes "list_all scalar_value cs" "list_all scalar_value ds" "utf16s cs = utf16s ds"
  shows "cs = ds"
  using assms
proof (induction cs arbitrary: ds)
  case Nil
  then show ?case by (cases ds) simp_all
next
  case (Cons c cs)
  then obtain d es where ds: "ds = d # es" by (cases ds) simp_all
  then have u: "c = d \<and> utf16s cs = utf16s es" using Cons.prems by (intro utf16_unique) simp_all
  then have "cs = es" using Cons.prems ds by (intro Cons.IH) simp_all
  then show ?case using u ds by simp
qed

section \<open>From UTF-16\<close>

lemma convertUTF16_step:
  assumes "scalar_value c"
  shows "convertUTF16ToUTF8 strict (utf16 c @ source) room =
    (if length (utf8 c) > room then (targetExhausted, utf16 c @ source, [])
     else let (result, rest, written) = convertUTF16ToUTF8 strict source (room - length (utf8 c)) in (result, rest, utf8 c @ written))"
proof -
  obtain u us where u: "utf16 c = u # us" "read_utf16 strict u (us @ source) = Inr (of_nat c, length us)"
    using read_utf16_scalar [OF assms] by meson
  show ?thesis using write_utf8 [OF scalar_bound [OF assms]] by (simp add: u)
qed

lemma convertUTF16_well_formed:
  assumes "list_all scalar_value cs" "length (utf8s cs) \<le> room"
  shows "convertUTF16ToUTF8 strict (utf16s cs) room = (conversionOK, [], utf8s cs)"
  using assms
proof (induction cs arbitrary: room)
  case Nil
  then show ?case by simp
next
  case (Cons c cs)
  then show ?case using convertUTF16_step [of c strict "utf16s cs" room] Cons.IH [of "room - length (utf8 c)"] by simp
qed

text \<open>
  What a strict conversion from UTF-16 means: it converts well-formed characters, writes no more
  than there is room, and stops for the reason it gives.
\<close>

definition starts_scalar16 :: "u16 list \<Rightarrow> bool" where
  "starts_scalar16 source \<longleftrightarrow> (\<exists>c us. scalar_value c \<and> source = utf16 c @ us)"

definition converts16 :: "u16 list \<Rightarrow> nat \<Rightarrow> ConversionResult \<times> u16 list \<times> u8 list \<Rightarrow> bool" where
  "converts16 source room = (\<lambda>(result, rest, written). \<exists>cs. list_all scalar_value cs \<and> source = utf16s cs @ rest \<and> written = utf8s cs \<and>
     length written \<le> room \<and>
     (case result of
        conversionOK \<Rightarrow> rest = []
      | sourceExhausted \<Rightarrow> (\<exists>u. rest = [u] \<and> 0xD800 \<le> unat u \<and> unat u \<le> 0xDBFF)
      | targetExhausted \<Rightarrow> (\<exists>c us. scalar_value c \<and> rest = utf16 c @ us \<and> length written + length (utf8 c) > room)
      | sourceIllegal \<Rightarrow> rest \<noteq> [] \<and> \<not> starts_scalar16 rest))"

lemma read_utf16_error:
  assumes "read_utf16 True u source = Inl result"
  shows "\<not> starts_scalar16 (u # source) \<and> (result = sourceIllegal \<or>
    result = sourceExhausted \<and> source = [] \<and> 0xD800 \<le> unat u \<and> unat u \<le> 0xDBFF)"
proof
  show "\<not> starts_scalar16 (u # source)"
  proof
    assume "starts_scalar16 (u # source)"
    then obtain c us where c: "scalar_value c" "u # source = utf16 c @ us" by (auto simp: starts_scalar16_def)
    obtain v vs where "utf16 c = v # vs" "read_utf16 True v (vs @ us) = Inr (of_nat c, length vs)" using read_utf16_scalar [OF c(1)] by meson
    then show False using c(2) assms by simp
  qed
  show "result = sourceIllegal \<or> result = sourceExhausted \<and> source = [] \<and> 0xD800 \<le> unat u \<and> unat u \<le> 0xDBFF"
    using assms unfolding read_utf16_nat by (auto split: if_splits list.splits)
qed

lemma convertUTF16_strict: "converts16 source room (convertUTF16ToUTF8 True source room)"
proof (induction "length source" arbitrary: source room rule: less_induct)
  case less
  show ?case
  proof (cases source)
    case Nil
    then show ?thesis by (auto simp: converts16_def intro!: exI [of _ "[]"])
  next
    case (Cons u us)
    show ?thesis
    proof (cases "read_utf16 True u us")
      case (Inl result)
      then show ?thesis using read_utf16_error [OF Inl] Cons by (auto simp: converts16_def intro!: exI [of _ "[]"])
    next
      case (Inr p)
      obtain ch k where "p = (ch, k)" by (cases p)
      then obtain c where c: "scalar_value c" "u # take k us = utf16 c" using read_utf16_strict [of u us ch k] Inr by auto
      then have s: "source = utf16 c @ drop k us" using Cons by (metis append_Cons append_take_drop_id)
      show ?thesis
      proof (cases "length (utf8 c) > room")
        case True
        then have "convertUTF16ToUTF8 True source room = (targetExhausted, source, [])"
          using convertUTF16_step [OF c(1), of True "drop k us" room] by (simp add: s)
        moreover have "\<exists>c us. scalar_value c \<and> source = utf16 c @ us \<and> length (utf8 c) > room" using s c(1) True by blast
        ultimately show ?thesis by (auto simp: converts16_def intro!: exI [of _ "[]"])
      next
        case False
        obtain result rest written where r: "convertUTF16ToUTF8 True (drop k us) (room - length (utf8 c)) = (result, rest, written)"
          by (cases "convertUTF16ToUTF8 True (drop k us) (room - length (utf8 c))")
        have "length (drop k us) < length source" using Cons by simp
        then obtain cs where cs: "list_all scalar_value cs" "drop k us = utf16s cs @ rest" "written = utf8s cs" "length written \<le> room - length (utf8 c)"
          "case result of
            conversionOK \<Rightarrow> rest = []
          | sourceExhausted \<Rightarrow> (\<exists>u. rest = [u] \<and> 0xD800 \<le> unat u \<and> unat u \<le> 0xDBFF)
          | targetExhausted \<Rightarrow> (\<exists>d us. scalar_value d \<and> rest = utf16 d @ us \<and> length written + length (utf8 d) > room - length (utf8 c))
          | sourceIllegal \<Rightarrow> rest \<noteq> [] \<and> \<not> starts_scalar16 rest"
          using less.hyps [of "drop k us" "room - length (utf8 c)"] unfolding r converts16_def by blast
        have "convertUTF16ToUTF8 True source room = (result, rest, utf8 c @ written)"
          using False r convertUTF16_step [OF c(1), of True "drop k us" room] by (simp add: s)
        moreover have "length (utf8 c @ written) \<le> room" using cs(4) False by simp
        moreover have "length written + n > room - length (utf8 c) \<longleftrightarrow> length (utf8 c @ written) + n > room" for n using False by auto
        ultimately show ?thesis using cs s c(1) unfolding converts16_def
          by (auto intro!: exI [of _ "c # cs"] split: ConversionResult.splits)
      qed
    qed
  qed
qed

end
