(* ===== verification/WTF_UTF8_Decode.thy ===== *)
theory WTF_UTF8_Decode
  imports WTF_UTF8_Convert
begin

text \<open>
  The conversion from UTF-8 on whole strings, the conversion of Latin-1, the hash of a string in
  UTF-8, and the comparisons.
\<close>

section \<open>From UTF-8\<close>

definition starts_scalar8 :: "u8 list \<Rightarrow> bool" where
  "starts_scalar8 source \<longleftrightarrow> (\<exists>c bs. scalar_value c \<and> source = utf8 c @ bs)"

definition converts8 :: "u8 list \<Rightarrow> nat \<Rightarrow> ConversionResult \<times> u8 list \<times> u16 list \<times> bool \<Rightarrow> bool" where
  "converts8 source room = (\<lambda>(result, rest, written, allASCII). \<exists>cs. list_all scalar_value cs \<and> source = utf8s cs @ rest \<and> written = utf16s cs \<and>
     length written \<le> room \<and> (allASCII \<longleftrightarrow> list_all (\<lambda>c. c < 0x80) cs) \<and>
     (case result of
        conversionOK \<Rightarrow> rest = []
      | sourceExhausted \<Rightarrow> rest \<noteq> [] \<and> length rest < inlineUTF8SequenceLength (hd rest)
      | targetExhausted \<Rightarrow> (\<exists>c bs. scalar_value c \<and> rest = utf8 c @ bs \<and> length written + length (utf16 c) > room)
      | sourceIllegal \<Rightarrow> rest \<noteq> [] \<and> \<not> starts_scalar8 rest))"

lemma loop_Nil [simp]: "convertUTF8ToUTF16_loop strict [] room orAllData = (conversionOK, [], [], orAllData)"
  by (simp add: convertUTF8ToUTF16_loop.simps)

lemma loop_step:
  assumes "source \<noteq> []" "n = inlineUTF8SequenceLength (hd source)" "n \<le> length source" "isLegalUTF8 source n"
    "readUTF8Sequence source n = of_nat c" "scalar_value c"
  shows "convertUTF8ToUTF16_loop strict source room orAllData =
    (if room < length (utf16 c) then (targetExhausted, source, [], orAllData)
     else let (result, rest, written, orAllData) =
         convertUTF8ToUTF16_loop strict (drop n source) (room - length (utf16 c)) (if c < 0x10000 then orAllData OR of_nat c else 0xffff)
       in (result, rest, utf16 c @ written, orAllData))"
  using assms(1,3,4) utf16_of_scalar [OF assms(6), of strict room orAllData]
  by (subst convertUTF8ToUTF16_loop.simps) (simp add: assms(2) [symmetric] assms(5) Let_def not_less)

lemma loop_scalar:
  assumes "scalar_value c"
  shows "convertUTF8ToUTF16_loop strict (utf8 c @ source) room orAllData =
    (if room < length (utf16 c) then (targetExhausted, utf8 c @ source, [], orAllData)
     else let (result, rest, written, orAllData) =
         convertUTF8ToUTF16_loop strict source (room - length (utf16 c)) (if c < 0x10000 then orAllData OR of_nat c else 0xffff)
       in (result, rest, utf16 c @ written, orAllData))"
  using loop_step [of "utf8 c @ source" "length (utf8 c)" c strict room orAllData] utf8_head [OF assms, of source] assms by simp

lemma loop_stop:
  assumes "source \<noteq> []" "n = inlineUTF8SequenceLength (hd source)" "\<not> (n \<le> length source \<and> isLegalUTF8 source n)"
  shows "convertUTF8ToUTF16_loop strict source room orAllData =
    (if length source < n then sourceExhausted else sourceIllegal, source, [], orAllData)"
  using assms(1,3) by (subst convertUTF8ToUTF16_loop.simps) (auto simp: assms(2) [symmetric] Let_def)

lemma not_legal_no_scalar:
  assumes "n = inlineUTF8SequenceLength (hd source)" "\<not> (n \<le> length source \<and> isLegalUTF8 source n)"
  shows "\<not> starts_scalar8 source"
proof
  assume "starts_scalar8 source"
  then obtain c bs where "scalar_value c" "source = utf8 c @ bs" by (auto simp: starts_scalar8_def)
  then show False using utf8_head [of c bs] assms by simp
qed

text \<open>Strict or not makes no difference, as every legal sequence encodes a scalar value.\<close>

lemma loop_lenient: "convertUTF8ToUTF16_loop False source room orAllData = convertUTF8ToUTF16_loop True source room orAllData"
proof (induction "length source" arbitrary: source room orAllData rule: less_induct)
  case less
  show ?case
  proof (cases "source = []")
    case False
    define n where "n = inlineUTF8SequenceLength (hd source)"
    show ?thesis
    proof (cases "n \<le> length source \<and> isLegalUTF8 source n")
      case True
      then obtain c where c: "scalar_value c" "readUTF8Sequence source n = of_nat c"
        using legal_reads_scalar [of source n] False n_def by auto
      have "length (drop n source) < length source" using True False isLegalUTF8_length [of source n] by auto
      then show ?thesis using loop_step [OF False n_def _ _ c(2,1)] True less.hyps by simp
    next
      case False
      then show ?thesis using loop_stop [OF \<open>source \<noteq> []\<close> n_def] by simp
    qed
  qed simp
qed

lemma loop_strict: "convertUTF8ToUTF16_loop strict source room orAllData = convertUTF8ToUTF16_loop True source room orAllData"
  using loop_lenient by (cases strict) simp_all

lemma loop_well_formed:
  assumes "list_all scalar_value cs" "length (utf16s cs) \<le> room"
  shows "\<exists>orAllData'. convertUTF8ToUTF16_loop strict (utf8s cs) room orAllData = (conversionOK, [], utf16s cs, orAllData') \<and>
    (orAllData' AND NOT 0x7f = 0 \<longleftrightarrow> orAllData AND NOT 0x7f = 0 \<and> list_all (\<lambda>c. c < 0x80) cs)"
  using assms
proof (induction cs arbitrary: room orAllData)
  case Nil
  then show ?case by simp
next
  case (Cons c cs)
  let ?or = "if c < 0x10000 then orAllData OR of_nat c else 0xffff"
  have c: "scalar_value c" "length (utf16s cs) \<le> room - length (utf16 c)" "\<not> room < length (utf16 c)" using Cons.prems by simp_all
  obtain orAllData' where o: "convertUTF8ToUTF16_loop strict (utf8s cs) (room - length (utf16 c)) ?or = (conversionOK, [], utf16s cs, orAllData')"
    "orAllData' AND NOT 0x7f = 0 \<longleftrightarrow> ?or AND NOT 0x7f = 0 \<and> list_all (\<lambda>c. c < 0x80) cs"
    using Cons.IH [OF _ c(2), of ?or] Cons.prems by auto
  then have "convertUTF8ToUTF16_loop strict (utf8s (c # cs)) room orAllData = (conversionOK, [], utf16s (c # cs), orAllData')"
    using loop_scalar [OF c(1)] c(3) by simp
  moreover have "orAllData' AND NOT 0x7f = 0 \<longleftrightarrow> orAllData AND NOT 0x7f = 0 \<and> list_all (\<lambda>c. c < 0x80) (c # cs)"
    unfolding o(2) ascii_data [OF c(1)] by simp
  ultimately show ?case by blast
qed

lemma convertUTF8_well_formed:
  assumes "list_all scalar_value cs" "length (utf16s cs) \<le> room"
  shows "convertUTF8ToUTF16 strict (utf8s cs) room = (conversionOK, [], utf16s cs, list_all (\<lambda>c. c < 0x80) cs)"
proof -
  obtain data where o: "convertUTF8ToUTF16_loop strict (utf8s cs) room 0 = (conversionOK, [], utf16s cs, data)"
    "data AND NOT 0x7f = 0 \<longleftrightarrow> (0 :: u16) AND NOT 0x7f = 0 \<and> list_all (\<lambda>c. c < 0x80) cs"
    using loop_well_formed [OF assms, of strict 0] by auto
  have "(data AND NOT 0x7f = 0) = list_all (\<lambda>c. c < 0x80) cs" using o(2) by simp
  then show ?thesis unfolding convertUTF8ToUTF16_def o(1) by simp
qed

lemma loop_converts:
  assumes "trailed source" "convertUTF8ToUTF16_loop strict source room orAllData = (result, rest, written, orAllData')"
  shows "\<exists>cs. list_all scalar_value cs \<and> source = utf8s cs @ rest \<and> written = utf16s cs \<and> length written \<le> room \<and>
     (orAllData' AND NOT 0x7f = 0 \<longleftrightarrow> orAllData AND NOT 0x7f = 0 \<and> list_all (\<lambda>c. c < 0x80) cs) \<and>
     (case result of
        conversionOK \<Rightarrow> rest = []
      | sourceExhausted \<Rightarrow> rest \<noteq> [] \<and> length rest < inlineUTF8SequenceLength (hd rest)
      | targetExhausted \<Rightarrow> (\<exists>c bs. scalar_value c \<and> rest = utf8 c @ bs \<and> length written + length (utf16 c) > room)
      | sourceIllegal \<Rightarrow> rest \<noteq> [] \<and> \<not> starts_scalar8 rest)"
  using assms
proof (induction "length source" arbitrary: source room orAllData written rule: less_induct)
  case less
  define n where "n = inlineUTF8SequenceLength (hd source)"
  show ?case
  proof (cases "source = []")
    case True
    then show ?thesis using less.prems by (intro exI [of _ "[]"]) auto
  next
    case nonempty: False
    show ?thesis
    proof (cases "n \<le> length source \<and> isLegalUTF8 source n")
      case False
      then show ?thesis using loop_stop [OF nonempty n_def False, of strict room orAllData] less.prems(2) nonempty not_legal_no_scalar [OF n_def]
        by (intro exI [of _ "[]"]) (auto simp: n_def split: if_splits)
    next
      case True
      then obtain c where c: "scalar_value c" "take n source = utf8 c"
        using legal_trailed [of source n] nonempty n_def less.prems(1) by auto
      then have s: "source = utf8 c @ drop n source" by (metis append_take_drop_id)
      note step = loop_scalar [OF c(1), of strict "drop n source" room orAllData, folded s]
      show ?thesis
      proof (cases "room < length (utf16 c)")
        case True
        then show ?thesis using step less.prems(2) c(1) s by (intro exI [of _ "[]"]) auto
      next
        case False
        let ?or = "if c < 0x10000 then orAllData OR of_nat c else 0xffff"
        let ?r = "convertUTF8ToUTF16_loop strict (drop n source) (room - length (utf16 c)) ?or"
        obtain w where w: "?r = (result, rest, w, orAllData')" "written = utf16 c @ w"
          using step less.prems(2) False by (auto split: prod.splits)
        have "length (drop n source) < length source" using True nonempty isLegalUTF8_length [of source n] by auto
        then obtain cs where cs: "list_all scalar_value cs" "drop n source = utf8s cs @ rest" "w = utf16s cs" "length w \<le> room - length (utf16 c)"
          "orAllData' AND NOT 0x7f = 0 \<longleftrightarrow> ?or AND NOT 0x7f = 0 \<and> list_all (\<lambda>c. c < 0x80) cs"
          "case result of
            conversionOK \<Rightarrow> rest = []
          | sourceExhausted \<Rightarrow> rest \<noteq> [] \<and> length rest < inlineUTF8SequenceLength (hd rest)
          | targetExhausted \<Rightarrow> (\<exists>d bs. scalar_value d \<and> rest = utf8 d @ bs \<and> length w + length (utf16 d) > room - length (utf16 c))
          | sourceIllegal \<Rightarrow> rest \<noteq> [] \<and> \<not> starts_scalar8 rest"
          using less.hyps [OF _ trailed_drop [OF less.prems(1)] w(1)] by blast
        have "length written \<le> room" using cs(4) w(2) False by simp
        moreover have "length w + k > room - length (utf16 c) \<longleftrightarrow> length written + k > room" for k using False w(2) by auto
        moreover have "orAllData' AND NOT 0x7f = 0 \<longleftrightarrow> orAllData AND NOT 0x7f = 0 \<and> list_all (\<lambda>c. c < 0x80) (c # cs)"
          unfolding cs(5) ascii_data [OF c(1)] by simp
        moreover have "source = utf8s (c # cs) @ rest" using s cs(2) by simp
        ultimately show ?thesis using cs(1,3,6) w(2) c(1) by (intro exI [of _ "c # cs"]) (auto split: ConversionResult.splits)
      qed
    qed
  qed
qed

lemma convertUTF8_converts:
  assumes "trailed source"
  shows "converts8 source room (convertUTF8ToUTF16 strict source room)"
proof -
  obtain result rest written data where r: "convertUTF8ToUTF16_loop strict source room 0 = (result, rest, written, data)"
    by (metis prod_cases4)
  have "(0 :: u16) AND NOT 0x7f = 0" by simp
  then show ?thesis using loop_converts [OF assms r] unfolding convertUTF8ToUTF16_def r converts8_def by simp
qed

section \<open>From Latin-1\<close>

lemma byte_bound: "unat (b :: u8) < 256"
  using unsigned_less [of b] by simp

lemma latin1_units: "unat (ucast (c :: u8) :: u32) = unat c" "unat (ucast (c :: u8) :: u16) = unat c"
proof -
  have "take_bit 32 (unat c) = unat c" "take_bit 16 (unat c) = unat c"
    by (rule take_bit_nat_eq_self, rule order.strict_trans [OF byte_bound], simp)+
  then show "unat (ucast c :: u32) = unat c" "unat (ucast c :: u16) = unat c" by (simp_all add: unsigned_ucast_eq)
qed

lemma latin1_write:
  "bytes_to_write (ucast (c :: u8)) = (if (ucast c :: u32) < 0x80 then 1 else 2, ucast c)" "\<not> 0xD800 \<le> unat (ucast c :: u16)"
proof -
  show "bytes_to_write (ucast c) = (if (ucast c :: u32) < 0x80 then 1 else 2, ucast c)"
    using byte_bound [of c] by (simp add: bytes_to_write_def byte_order latin1_units)
  show "\<not> 0xD800 \<le> unat (ucast c :: u16)" using byte_bound [of c] by (simp add: latin1_units)
qed

lemma latin1_is_utf16:
  "(case convertLatin1ToUTF8 source room of (result, rest, written) \<Rightarrow> (result, map ucast rest, written)) =
    convertUTF16ToUTF8 strict (map ucast source) room"
proof (induction source arbitrary: room)
  case Nil
  then show ?case by simp
next
  case (Cons c source)
  have "(ucast (ucast c :: u16) :: u32) = ucast c"
    by (simp add: ucast_unit latin1_units)
  then have "read_utf16 strict (ucast c) (map ucast source) = Inr (ucast c, 0)"
    unfolding read_utf16_nat using latin1_write(2) [of c] by (simp add: ucast_unit [symmetric])
  then show ?case using latin1_write(1) [of c] Cons.IH [of "room - (if (ucast c :: u32) < 0x80 then 1 else 2)"]
    by (auto simp: Let_def split: prod.splits)
qed

end
