(* ===== verification/WTF_UTF8_Compare.thy ===== *)
theory WTF_UTF8_Compare
  imports WTF_UTF8_Decode WTF_Strings
begin

text \<open>
  The hash of a string in UTF-8, the comparisons with UTF-16 and Latin-1, and how the table of atomic
  strings uses them (\<open>src/Source/WTF/wtf/text/AtomicString.cpp\<close>).
\<close>

section \<open>Characters of the loops\<close>

lemma utf8_ascii: "c < 0x80 \<Longrightarrow> utf8 c = [of_nat c]" "c < 0x80 \<Longrightarrow> utf16 c = [of_nat c]"
  by (simp_all add: utf8_def utf16_def)

lemma byte_of_ascii: "(ucast (of_nat c :: u8) :: u16) = of_nat c" if "c < 0x80"
  using that by (simp add: word_unat_eq_iff latin1_units)

lemma first_byte:
  assumes "scalar_value c" "\<not> c < 0x80"
  shows "\<not> isASCII (unat (hd (utf8 c @ bs)))" "inlineUTF8SequenceLengthNonASCII (hd (utf8 c @ bs)) = length (utf8 c)"
proof -
  have "length (utf8 c) \<noteq> 1" using assms(2) by (simp add: utf8_def)
  then show a: "\<not> isASCII (unat (hd (utf8 c @ bs)))" using utf8_head(1) [OF assms(1), of bs] by (auto simp: inlineUTF8SequenceLength_def)
  then show "inlineUTF8SequenceLengthNonASCII (hd (utf8 c @ bs)) = length (utf8 c)"
    using utf8_head(1) [OF assms(1), of bs] by (simp add: inlineUTF8SequenceLength_def)
qed

text \<open>What a loop does with a character that is not ASCII.\<close>

lemma scalar_kind:
  assumes "scalar_value c"
  shows "c < 0x10000 \<Longrightarrow> U_IS_BMP (of_nat c) \<and> \<not> U_IS_SURROGATE (of_nat c)"
    "\<not> c < 0x10000 \<Longrightarrow> \<not> U_IS_BMP (of_nat c) \<and> U_IS_SUPPLEMENTARY (of_nat c)"
  using assms scalar_bound [OF assms] bmp_of_nat [of c] surrogate_of_nat [of c] supplementary_of_nat [of c]
  by (auto simp: scalar_value_def)

lemma unit_number: "unat (ucast (u :: u16) :: u32) = unat u"
proof -
  have "take_bit 32 (unat u) = unat u" by (rule take_bit_nat_eq_self, rule order.strict_trans [OF unit_bound], simp)
  then show ?thesis by (simp add: unsigned_ucast_eq)
qed

lemma utf16_pair: "scalar_value c \<Longrightarrow> \<not> c < 0x10000 \<Longrightarrow> utf16 c = [U16_LEAD (of_nat c), U16_TRAIL (of_nat c)]"
  by (simp add: utf16_def pair_of_nat scalar_bound)

lemma trailing_byte: "utf8_char c bs \<Longrightarrow> 0 < i \<Longrightarrow> i < length bs \<Longrightarrow> 0x80 \<le> unat (bs ! i)"
  by (induction rule: utf8_char.induct) (auto simp: nth_Cons less_Suc_eq unat_byte simp del: of_nat_add split: nat.splits)

section \<open>The hash\<close>

lemma hash_step:
  assumes "scalar_value c" "bounded \<or> c \<noteq> 0"
  shows "\<exists>h'. utf8_hash_loop bounded (utf8 c @ data) h dataLength utf16Length =
      utf8_hash_loop bounded data h' (dataLength + length (utf8 c)) (utf16Length + length (utf16 c)) \<and>
    same_hasher h' (fold hasher_addCharacter (utf16 c) h)"
proof (cases "c < 0x80")
  case True
  have "(of_nat c :: u8) = 0 \<longleftrightarrow> c = 0" using True by (simp add: word_unat_eq_iff)
  then show ?thesis using True assms(2)
    by (subst utf8_hash_loop.simps) (auto simp: utf8_ascii isASCII_def byte_of_ascii)
next
  case False
  note f = first_byte [OF assms(1) False, of data] and k = scalar_kind [OF assms(1)]
  have ne: "hd (utf8 c @ data) \<noteq> 0" using f(1) by (auto simp: isASCII_def)
  have room: "\<not> length (utf8 c @ data) < length (utf8 c)" by simp
  have zeros: "list_all (\<lambda>i. or_zero (utf8 c @ data) i \<noteq> 0) [1..<length (utf8 c)]"
  proof -
    have "utf8 c ! i \<noteq> 0" if "0 < i" "i < length (utf8 c)" for i
      using trailing_byte [OF utf8_is_char [OF assms(1)] that] by auto
    then show ?thesis by (auto simp: list_all_iff or_zero_def nth_append)
  qed
  show ?thesis
  proof (cases "c < 0x10000")
    case True
    have "utf8_hash_loop bounded (utf8 c @ data) h dataLength utf16Length =
      utf8_hash_loop bounded data (hasher_addCharacter (of_nat c) h) (dataLength + length (utf8 c)) (utf16Length + 1)"
      using f k(1) [OF True] ne zeros utf8_head [OF assms(1), of data] by (subst utf8_hash_loop.simps) (simp add: Let_def u16_of_u32)
    then show ?thesis using True by (intro exI [of _ "hasher_addCharacter (of_nat c) h"]) (simp add: utf16_def)
  next
    case big: False
    let ?h = "addCharacters_pair (U16_LEAD (of_nat c)) (U16_TRAIL (of_nat c)) h"
    have "utf8_hash_loop bounded (utf8 c @ data) h dataLength utf16Length =
      utf8_hash_loop bounded data ?h (dataLength + length (utf8 c)) (utf16Length + 2)"
      using f k(2) [OF big] ne zeros utf8_head [OF assms(1), of data] by (subst utf8_hash_loop.simps) (simp add: Let_def)
    then show ?thesis using utf16_pair [OF assms(1) big] by (intro exI [of _ ?h]) (simp add: pair_is_fold)
  qed
qed

lemma hash_well_formed:
  assumes "list_all scalar_value cs" "bounded \<or> 0 \<notin> set cs" "same_hasher h (fold hasher_addCharacter us new_StringHasher)"
  shows "utf8_hash_loop bounded (utf8s cs) h dataLength utf16Length =
    (computeHashAndMaskTop8Bits (us @ utf16s cs), dataLength + length (utf8s cs), utf16Length + length (utf16s cs))"
  using assms
proof (induction cs arbitrary: h us dataLength utf16Length)
  case Nil
  then show ?case using same_hasher_hash(2) [OF Nil(3)] by (subst utf8_hash_loop.simps) (simp add: computed_is_fold)
next
  case (Cons c cs)
  have c: "scalar_value c" "bounded \<or> c \<noteq> 0" using Cons.prems by auto
  obtain h' where h': "utf8_hash_loop bounded (utf8 c @ utf8s cs) h dataLength utf16Length =
      utf8_hash_loop bounded (utf8s cs) h' (dataLength + length (utf8 c)) (utf16Length + length (utf16 c))"
    "same_hasher h' (fold hasher_addCharacter (utf16 c) h)"
    using hash_step [OF c] by blast
  have "same_hasher h' (fold hasher_addCharacter (us @ utf16 c) new_StringHasher)"
    using same_hasher_trans [OF h'(2) same_fold [OF Cons.prems(3)]] by simp
  then have "utf8_hash_loop bounded (utf8s cs) h' (dataLength + length (utf8 c)) (utf16Length + length (utf16 c)) =
    (computeHashAndMaskTop8Bits ((us @ utf16 c) @ utf16s cs), dataLength + length (utf8 c) + length (utf8s cs),
      utf16Length + length (utf16 c) + length (utf16s cs))"
    using Cons.prems by (intro Cons.IH) auto
  then show ?case using h'(1) by (simp add: add.assoc)
qed

lemma hash_malformed:
  assumes "trailed data" "\<nexists>cs. list_all scalar_value cs \<and> data = utf8s cs"
  shows "fst (utf8_hash_loop True data h dataLength utf16Length) = 0"
  using assms
proof (induction "length data" arbitrary: data h dataLength utf16Length rule: less_induct)
  case less
  define n where "n = inlineUTF8SequenceLength (hd data)"
  have "list_all scalar_value [] \<and> [] = utf8s []" by simp
  then have ne: "data \<noteq> []" using less.prems(2) by blast
  show ?case
  proof (cases "n \<le> length data \<and> isLegalUTF8 data n")
    case False
    then have "\<not> isASCII (unat (hd data))" using ne
      by (auto simp: n_def inlineUTF8SequenceLength_def isLegalUTF8_def isASCII_def hd_conv_nth byte_order Suc_le_eq)
    then show ?thesis using False ne by (subst utf8_hash_loop.simps) (auto simp: n_def inlineUTF8SequenceLength_def Let_def)
  next
    case True
    then obtain c where c: "scalar_value c" "take n data = utf8 c" using legal_trailed [of data n] ne n_def less.prems(1) by auto
    then have s: "data = utf8 c @ drop n data" by (metis append_take_drop_id)
    have len: "length (drop n data) < length data" using True ne isLegalUTF8_length [of data n] by auto
    have "\<nexists>cs. list_all scalar_value cs \<and> drop n data = utf8s cs"
    proof
      assume "\<exists>cs. list_all scalar_value cs \<and> drop n data = utf8s cs"
      then obtain cs where "list_all scalar_value cs" "drop n data = utf8s cs" by blast
      then have "list_all scalar_value (c # cs) \<and> data = utf8s (c # cs)" using c s by simp
      then show False using less.prems(2) by blast
    qed
    then show ?thesis using less.hyps [OF len trailed_drop [OF less.prems(1)]] hash_step [OF c(1), of True "drop n data" h dataLength utf16Length] s
      by auto
  qed
qed

section \<open>Comparison with UTF-16\<close>

lemma equalUTF16_step:
  assumes "scalar_value c" "length (utf16 c) \<le> length a"
  shows "equalUTF16WithUTF8 a (utf8 c @ b) =
    (if take (length (utf16 c)) a = utf16 c then equalUTF16WithUTF8 (drop (length (utf16 c)) a) b else Some False)"
proof -
  obtain a0 a1 where a: "a = a0 # a1" using assms(2) by (cases a) auto
  show ?thesis
  proof (cases "c < 0x80")
    case True
    then show ?thesis by (subst equalUTF16WithUTF8.simps) (auto simp: a utf8_ascii isASCII_def byte_of_ascii)
  next
    case False
    note f = first_byte [OF assms(1) False, of b] and k = scalar_kind [OF assms(1)] and h = utf8_head [OF assms(1), of b]
    show ?thesis
    proof (cases "isASCII (unat a0)")
      case True
      have "a0 \<noteq> ucast (hd (utf8 c @ b))" using True f(1) by (auto simp: isASCII_def latin1_units)
      moreover have "take (length (utf16 c)) a \<noteq> utf16 c"
      proof -
        have "isASCII (unat a0) \<Longrightarrow> a0 \<noteq> hd (utf16 c)"
        proof (cases "c < 0x10000")
          case True
          then show "isASCII (unat a0) \<Longrightarrow> a0 \<noteq> hd (utf16 c)" using False by (auto simp: utf16_def isASCII_def)
        next
          case big: False
          have "unat (of_nat (0xD7C0 + c div 1024) :: u16) = 0xD7C0 + c div 1024"
            by (rule unat_of_nat_sizes(2)) (use scalar_bound [OF assms(1)] in linarith)
          then show "isASCII (unat a0) \<Longrightarrow> a0 \<noteq> hd (utf16 c)" using big by (auto simp: utf16_def isASCII_def simp del: of_nat_add)
        qed
        then show ?thesis using True by (auto simp: a) (metis hd_append2 list.sel(1) take_Cons' utf8_nonempty(2) length_greater_0_conv neq0_conv)
      qed
      ultimately show ?thesis using True by (subst equalUTF16WithUTF8.simps) (simp add: a)
    next
      case high: False
      show ?thesis
      proof (cases "c < 0x10000")
        case True
        have "(ucast a0 :: u32) = of_nat c \<longleftrightarrow> a0 = of_nat c"
          using True by (simp add: word_unat_eq_iff unit_number)
        then show ?thesis using f k(1) h high True False
          by (subst equalUTF16WithUTF8.simps) (auto simp: a utf16_def Let_def)
      next
        case big: False
        then obtain a2 a3 where a1: "a1 = a2 # a3" using assms(2) a by (cases a1) (auto simp: utf16_def)
        have "equalUTF16WithUTF8 a (utf8 c @ b) =
          (if a0 \<noteq> U16_LEAD (of_nat c) then Some False else if a2 \<noteq> U16_TRAIL (of_nat c) then Some False else equalUTF16WithUTF8 a3 b)"
          using f k(2) [OF big] h high by (subst equalUTF16WithUTF8.simps) (simp add: a a1 Let_def)
        then show ?thesis by (simp add: utf16_pair [OF assms(1) big] a a1)
      qed
    qed
  qed
qed

lemma equalUTF16_well_formed:
  assumes "list_all scalar_value cs" "length a = length (utf16s cs)"
  shows "equalUTF16WithUTF8 a (utf8s cs) = Some (a = utf16s cs)"
  using assms
proof (induction cs arbitrary: a)
  case Nil
  then show ?case by (subst equalUTF16WithUTF8.simps) simp
next
  case (Cons c cs)
  then have "equalUTF16WithUTF8 a (utf8s (c # cs)) =
    (if take (length (utf16 c)) a = utf16 c then equalUTF16WithUTF8 (drop (length (utf16 c)) a) (utf8s cs) else Some False)"
    using equalUTF16_step [of c a "utf8s cs"] by simp
  moreover have "equalUTF16WithUTF8 (drop (length (utf16 c)) a) (utf8s cs) = Some (drop (length (utf16 c)) a = utf16s cs)"
    using Cons by simp
  moreover have "a = utf16 c @ utf16s cs \<longleftrightarrow> take (length (utf16 c)) a = utf16 c \<and> drop (length (utf16 c)) a = utf16s cs"
    by (metis append_take_drop_id append_eq_conv_conj)
  ultimately show ?case by simp
qed

end
