(* ===== verification/WTF_StringUTF8.thy ===== *)
theory WTF_StringUTF8
  imports WTF_UTF8_Compare
begin

text \<open>
  Strings to UTF-8 and back: \<open>StringImpl::utf8\<close> in its three modes
  (\<open>src/Source/WTF/wtf/text/StringImpl.cpp\<close>) and \<open>String::fromUTF8\<close> (\<open>WTFString.cpp\<close>) with the test for
  ASCII by machine words (\<open>ASCIIFastPath.h\<close>).

  The assertions of the code are part of the model: an outer \<open>None\<close> is a failed one. Where there can
  be a null string, an option is within.
\<close>

section \<open>To UTF-8\<close>

datatype ConversionMode = LenientConversion | StrictConversion | StrictConversionReplacingUnpairedSurrogatesWithFFFD

definition putUTF8Triple :: "u16 \<Rightarrow> u8 list option" where
  "putUTF8Triple ch =
     (if ch \<ge> 0x0800 then
        Some [ucast ((drop_bit 12 ch AND 0x0F) OR 0xE0), ucast ((drop_bit 6 ch AND 0x3F) OR 0x80), ucast ((ch AND 0x3F) OR 0x80)]
      else None)"

lemma convertUTF16_rest: "length (fst (snd (convertUTF16ToUTF8 strict source room))) \<le> length source"
proof (induction strict source room rule: convertUTF16ToUTF8.induct)
  case (2 strict u source room)
  show ?case
  proof (cases "read_utf16 strict u source")
    case (Inr p)
    obtain ch follow where p: "p = (ch, follow)" by (cases p)
    obtain n ch' where n: "bytes_to_write ch = (n, ch')" by (cases "bytes_to_write ch")
    have "length (fst (snd (convertUTF16ToUTF8 strict (drop follow source) (room - n)))) \<le> length (drop follow source)" if "\<not> n > room"
      using "2.IH" [OF Inr p [symmetric] n [symmetric] refl that] .
    then show ?thesis using Inr p n by (auto simp: split_beta le_diff_conv)
  qed simp
qed simp

text \<open>
  The mode that replaces unpaired surrogates: strict conversions with a replacement in between.
  \<open>conversionOK\<close> is only returned at the end of the source, where the loop ends.
\<close>

function utf8_replacing :: "u16 list \<Rightarrow> nat \<Rightarrow> u8 list option" where
  "utf8_replacing source room =
     (if source = [] then Some []
      else
        let (result, rest, written) = convertUTF16ToUTF8 True source room;
            room = room - length written
        in if result = targetExhausted then None
           else if result \<noteq> conversionOK then
             if rest \<noteq> [] \<and> 0xD800 \<le> hd rest \<and> hd rest \<le> 0xDFFF \<and> 3 \<le> room then
               case putUTF8Triple replacementCharacter of
                 None \<Rightarrow> None
               | Some triple \<Rightarrow> map_option (\<lambda>others. written @ triple @ others) (utf8_replacing (tl rest) (room - 3))
             else None
           else Some written)"
  by pat_completeness auto
termination
proof (relation "measure (\<lambda>(source, _). length source)", simp)
  fix source :: "u16 list" and room r result rest written p q and triple :: "u8 list"
  assume "source \<noteq> []" "p = convertUTF16ToUTF8 True source room" "(result, q) = p" "(rest, written) = q"
  then have "length rest \<le> length source" using convertUTF16_rest [of True source room] by (metis fst_conv snd_conv)
  then show "((tl rest, r - 3), source, room) \<in> measure (\<lambda>(source, _). length source)" using \<open>source \<noteq> []\<close> by (cases rest) auto
qed

declare utf8_replacing.simps [simp del]

text \<open>
  The assertion before the last three bytes compares pointers that have both moved, so the code only
  tests that the whole buffer has three bytes. The model fails whenever the bytes would be written
  behind the buffer.
\<close>

definition utf8Impl :: "u16 list \<Rightarrow> nat \<Rightarrow> ConversionMode \<Rightarrow> (bool \<times> u8 list) option" where
  "utf8Impl source bufferSize mode =
     (if mode = StrictConversionReplacingUnpairedSurrogatesWithFFFD then
        map_option (\<lambda>written. (True, written)) (utf8_replacing source bufferSize)
      else
        let strict = (mode = StrictConversion);
            (result, rest, written) = convertUTF16ToUTF8 strict source bufferSize
        in if result = targetExhausted then None
           else if result = sourceIllegal then if strict then Some (False, written) else None
           else if result = sourceExhausted then
             if strict then Some (False, written)
             else if length rest = 1 \<and> 0xD800 \<le> hd rest \<and> hd rest \<le> 0xDBFF \<and> length written + 3 \<le> bufferSize then
               map_option (\<lambda>triple. (True, written @ triple)) (putUTF8Triple (hd rest))
             else None
           else Some (True, written))"

definition utf8ForCharacters :: "u16 list \<Rightarrow> ConversionMode \<Rightarrow> u8 list option option" where
  "utf8ForCharacters source mode =
     (if source = [] then Some (Some [])
      else if int (length source) > 4294967295 div 3 then Some None
      else case utf8Impl source (length source * 3) mode of
        None \<Rightarrow> None
      | Some (converted, written) \<Rightarrow> Some (if converted then Some written else None))"

definition utf8ForRange :: "WString \<Rightarrow> nat \<Rightarrow> nat \<Rightarrow> ConversionMode \<Rightarrow> u8 list option option" where
  "utf8ForRange s offset len mode =
     (if \<not> (offset \<le> string_length s \<and> offset + len \<le> string_length s) then None
      else if len = 0 then Some (Some [])
      else if int len > 4294967295 div 3 then Some None
      else
        let range = take len (drop offset (characters s))
        in if is8Bit s then
             let (result, rest, written) = convertLatin1ToUTF8 (map of_nat range) (len * 3)
             in if result = targetExhausted then None else Some (Some written)
           else case utf8Impl (map of_nat range) (len * 3) mode of
             None \<Rightarrow> None
           | Some (converted, written) \<Rightarrow> Some (if converted then Some written else None))"

definition string_utf8 :: "WString \<Rightarrow> ConversionMode \<Rightarrow> u8 list option option" where
  "string_utf8 s mode = (if s = NullString then Some (Some []) else utf8ForRange s 0 (string_length s) mode)"

section \<open>From UTF-8\<close>

text \<open>
  \<open>charactersAreAllASCII\<close> reads bytes up to an address divisible by the size of a machine word, then
  words, then the bytes that are left, and tests the disjunction of all once.
\<close>

type_synonym MachineWord = u64

fun word_of_bytes :: "u8 list \<Rightarrow> MachineWord" where
  "word_of_bytes [] = 0"
| "word_of_bytes (b # bs) = ucast b OR push_bit 8 (word_of_bytes bs)"

fun ascii_prologue :: "nat \<Rightarrow> u8 list \<Rightarrow> MachineWord \<Rightarrow> nat \<times> u8 list \<times> MachineWord" where
  "ascii_prologue address [] allCharBits = (address, [], allCharBits)"
| "ascii_prologue address (c # cs) allCharBits =
     (if address mod 8 \<noteq> 0 then ascii_prologue (address + 1) cs (allCharBits OR ucast c)
      else (address, c # cs, allCharBits))"

function ascii_words :: "nat \<Rightarrow> nat \<Rightarrow> u8 list \<Rightarrow> MachineWord \<Rightarrow> u8 list \<times> MachineWord" where
  "ascii_words wordEnd address cs allCharBits =
     (if address < wordEnd then ascii_words wordEnd (address + 8) (drop 8 cs) (allCharBits OR word_of_bytes (take 8 cs))
      else (cs, allCharBits))"
  by pat_completeness auto
termination
  by (relation "measure (\<lambda>(wordEnd, address, _). wordEnd - address)") auto

declare ascii_words.simps [simp del]

definition charactersAreAllASCII :: "nat \<Rightarrow> u8 list \<Rightarrow> bool" where
  "charactersAreAllASCII address cs =
     (let end_address = address + length cs;
          (address, cs, allCharBits) = ascii_prologue address cs 0;
          wordEnd = end_address - end_address mod 8;
          (cs, allCharBits) = ascii_words wordEnd address cs allCharBits;
          allCharBits = fold (\<lambda>c allCharBits. allCharBits OR ucast c) cs allCharBits
      in allCharBits AND 0x8080808080808080 = 0)"

definition fromUTF8 :: "nat \<Rightarrow> u8 list option \<Rightarrow> WString option" where
  "fromUTF8 address string =
     (case string of
        None \<Rightarrow> Some NullString
      | Some bytes \<Rightarrow>
          if int (length bytes) > 4294967295 then None
          else if bytes = [] then Some (WString True [])
          else if charactersAreAllASCII address bytes then Some (WString True (map unat bytes))
          else
            let (result, rest, written, allASCII) = convertUTF8ToUTF16 True bytes (length bytes)
            in if result \<noteq> conversionOK then Some NullString
               else if length written < length bytes then Some (WString False (map unat written))
               else None)"

end
