(* ===== verification/WTF_StringUTF8_Correct.thy ===== *)
theory WTF_StringUTF8_Correct
  imports WTF_StringUTF8
begin

text \<open>
  The three modes of the conversion of a string against one reference, the code points of a string
  with its unpaired surrogates; the test for ASCII; and the way back.
\<close>

section \<open>Code points\<close>

definition high_surrogate :: "u16 \<Rightarrow> bool" where
  "high_surrogate u \<longleftrightarrow> 0xD800 \<le> unat u \<and> unat u \<le> 0xDBFF"

definition low_surrogate :: "u16 \<Rightarrow> bool" where
  "low_surrogate u \<longleftrightarrow> 0xDC00 \<le> unat u \<and> unat u \<le> 0xDFFF"

definition single :: "(nat \<Rightarrow> nat) \<Rightarrow> u16 \<Rightarrow> nat" where
  "single f u = (if high_surrogate u \<or> low_surrogate u then f (unat u) else unat u)"

definition pair :: "u16 \<Rightarrow> u16 \<Rightarrow> nat" where
  "pair u v = (unat u - 0xD800) * 1024 + (unat v - 0xDC00) + 0x10000"

text \<open>\<open>f\<close> says what an unpaired surrogate becomes.\<close>

fun code_points :: "(nat \<Rightarrow> nat) \<Rightarrow> u16 list \<Rightarrow> nat list" where
  "code_points f [] = []"
| "code_points f [u] = [single f u]"
| "code_points f (u # v # us) =
     (if high_surrogate u \<and> low_surrogate v then pair u v # code_points f us
      else single f u # code_points f (v # us))"

lemma code_points_Cons:
  "\<not> (high_surrogate u \<and> us \<noteq> [] \<and> low_surrogate (hd us)) \<Longrightarrow> code_points f (u # us) = single f u # code_points f us"
  by (cases us) auto

lemma read_surrogates:
  "read_utf16 strict u source =
    (if high_surrogate u then
       case source of
         [] \<Rightarrow> Inl sourceExhausted
       | v # _ \<Rightarrow> if low_surrogate v then Inr (of_nat (pair u v), 1) else if strict then Inl sourceIllegal else Inr (of_nat (unat u), 0)
     else if strict \<and> low_surrogate u then Inl sourceIllegal
     else Inr (of_nat (unat u), 0))"
  unfolding read_utf16_nat high_surrogate_def low_surrogate_def pair_def by (simp del: of_nat_unat of_nat_add of_nat_mult split: list.split)

lemma utf16_head:
  assumes "scalar_value c"
  shows "\<exists>u us. utf16 c = u # us \<and>
    (us = [] \<and> \<not> high_surrogate u \<and> \<not> low_surrogate u \<and> unat u = c \<or> (\<exists>v. us = [v] \<and> high_surrogate u \<and> low_surrogate v \<and> pair u v = c))"
proof -
  obtain u us where u: "utf16 c = u # us" "read_utf16 True u (us @ []) = Inr (of_nat c, length us)" using read_utf16_scalar [OF assms, of True "[]"] by blast
  show ?thesis
  proof (cases "high_surrogate u")
    case True
    then obtain v vs where v: "us = v # vs" "low_surrogate v" "length us = 1" "(of_nat (pair u v) :: u32) = of_nat c"
      using u(2) unfolding read_surrogates by (auto split: list.splits if_splits)
    have "pair u v < 0x110000" using True v(2) by (auto simp: pair_def high_surrogate_def low_surrogate_def)
    then have "pair u v = c" using v(4) scalar_bound [OF assms] by (simp add: byte_order)
    then show ?thesis using True v u(1) by auto
  next
    case False
    then have l: "\<not> low_surrogate u" "(of_nat (unat u) :: u32) = of_nat c" "us = []"
      using u(2) unfolding read_surrogates by (auto simp del: of_nat_unat split: if_splits)
    then have "unat u = c" using unit_bound [of u] scalar_bound [OF assms] by (simp add: byte_order unit_number)
    then show ?thesis using False l u(1) by auto
  qed
qed

lemma code_points_utf16:
  assumes "list_all scalar_value cs"
  shows "code_points f (utf16s cs @ source) = cs @ code_points f source"
  using assms
proof (induction cs)
  case (Cons c cs)
  then show ?case using utf16_head [of c] by (auto simp: code_points_Cons single_def)
qed simp

lemma not_scalar16:
  assumes "\<not> starts_scalar16 (u # us)"
  shows "(high_surrogate u \<or> low_surrogate u) \<and> \<not> (high_surrogate u \<and> us \<noteq> [] \<and> low_surrogate (hd us))"
proof -
  have "\<exists>result. read_utf16 True u us = Inl result"
  proof (cases "read_utf16 True u us")
    case (Inr p)
    obtain ch k where "p = (ch, k)" by (cases p)
    then obtain c where "scalar_value c" "u # take k us = utf16 c" using read_utf16_strict [of u us ch k] Inr by auto
    then have "starts_scalar16 (u # us)" unfolding starts_scalar16_def by (metis append_Cons append_take_drop_id)
    then show ?thesis using assms by blast
  qed simp
  then show ?thesis unfolding read_surrogates by (auto split: if_splits list.splits)
qed

lemma unpaired_code_points:
  assumes "\<not> starts_scalar16 (u # us)"
  shows "code_points f (u # us) = f (unat u) # code_points f us"
  using not_scalar16 [OF assms] code_points_Cons [of u us f] by (auto simp: single_def)

section \<open>Room\<close>

lemma utf8_room: "length (utf8 c) \<le> 3 * length (utf16 c)"
  by (simp add: utf8_def utf16_def)

lemma utf8s_room: "length (utf8s cs) \<le> 3 * length (utf16s cs)"
  by (induction cs) (use utf8_room in \<open>auto intro: add_mono simp: algebra_simps\<close>)

lemma utf16_room: "length (utf16 c) \<le> length (utf8 c)"
  by (simp add: utf8_def utf16_def)

lemma utf16s_room: "length (utf16s cs) \<le> length (utf8s cs)"
  by (induction cs) (use utf16_room in \<open>auto intro: add_mono\<close>)

lemma utf16s_less: "\<not> list_all (\<lambda>c. c < 0x80) cs \<Longrightarrow> length (utf16s cs) < length (utf8s cs)"
proof (induction cs)
  case (Cons c cs)
  show ?case
  proof (cases "c < 0x80")
    case True
    then show ?thesis using Cons utf16_room [of c] by (simp add: add_le_less_mono)
  next
    case False
    then have "length (utf16 c) < length (utf8 c)" by (simp add: utf8_def utf16_def)
    then show ?thesis using utf16s_room [of cs] by (simp add: add_less_le_mono)
  qed
qed simp

lemma enough_room:
  assumes "source = utf16s cs @ rest" "3 * length source \<le> room" "rest \<noteq> []"
  shows "length (utf8s cs) + 3 \<le> room" "rest = utf16 c @ us \<Longrightarrow> length (utf8s cs) + length (utf8 c) \<le> room"
    "3 * length (tl rest) \<le> room - length (utf8s cs) - 3"
proof -
  have r: "length rest = Suc (length (tl rest))" using assms(3) by (cases rest) auto
  have l: "length source = length (utf16s cs) + length rest" using assms(1) by simp
  show "length (utf8s cs) + 3 \<le> room" "3 * length (tl rest) \<le> room - length (utf8s cs) - 3"
    using utf8s_room [of cs] assms(2) r l by linarith+
  assume "rest = utf16 c @ us"
  then have "length rest = length (utf16 c) + length us" by simp
  then show "length (utf8s cs) + length (utf8 c) \<le> room"
    using utf8s_room [of cs] utf8_room [of c] assms(2) l by linarith
qed

section \<open>Strict conversion with and without replacement\<close>

lemma u8_of_shifted: "(ucast (drop_bit n u) :: u8) = of_nat (unat u div 2 ^ n)" for u :: u16
  by (rule word_unat_eq_iff [THEN iffD2], simp only: unsigned_ucast_eq unsigned_of_nat unat_drop_bit_eq) (simp add: drop_bit_eq_div)

lemma u8_of_unit: "(ucast u :: u8) = of_nat (unat u)" for u :: u16
  using u8_of_shifted [of 0 u] by (simp del: of_nat_unat)

lemma triple_utf8:
  assumes "0x800 \<le> unat u"
  shows "putUTF8Triple u = Some (utf8 (unat u))"
proof -
  have "list_all (\<lambda>b. (uint b < 16 \<longrightarrow> (b AND 0x0F) OR 0xE0 = (word_of_int (0xE0 + uint b) :: u8))) (map word_of_int [0..255])" by code_simp
  then have "uint b < 16 \<longrightarrow> (b AND 0x0F) OR 0xE0 = (word_of_int (0xE0 + uint b) :: u8)" for b by (rule all_u8)
  then have lead: "unat b < 16 \<longrightarrow> (b AND 0x0F) OR 0xE0 = (of_nat (0xE0 + unat b) :: u8)" for b by (simp add: byte_compare)
  have "list_all (\<lambda>b. (b AND 0x3F) OR 0x80 = (word_of_int (0x80 + uint b mod 64) :: u8)) (map word_of_int [0..255])" by code_simp
  then have "(b AND 0x3F) OR 0x80 = (word_of_int (0x80 + uint b mod 64) :: u8)" for b by (rule all_u8)
  then have trail: "(b AND 0x3F) OR 0x80 = (of_nat (0x80 + unat b mod 64) :: u8)" for b by (simp add: byte_payload)
  have u: "unat u div 4096 < 16" using unit_bound [of u] by linarith
  have "(ucast ((drop_bit 12 u AND 0x0F) OR 0xE0) :: u8) = of_nat (0xE0 + unat u div 64 div 64)"
    using lead [of "of_nat (unat u div 4096)"] u u8_of_shifted [of 12 u]
    by (simp add: unsigned_or_eq unsigned_and_eq div_mult2_eq [symmetric])
  moreover have "(ucast ((drop_bit 6 u AND 0x3F) OR 0x80) :: u8) = of_nat (0x80 + unat u div 64 mod 64)"
    using u8_of_shifted [of 6 u] by (simp add: unsigned_or_eq unsigned_and_eq trail unat_u8_of_nat mod_mod_cancel)
  moreover have "(ucast ((u AND 0x3F) OR 0x80) :: u8) = of_nat (0x80 + unat u mod 64)"
  proof -
    have "(ucast ((u AND 0x3F) OR 0x80) :: u8) = (ucast u AND 0x3F) OR 0x80" by (simp add: unsigned_or_eq unsigned_and_eq)
    then show ?thesis unfolding trail u8_of_unit unat_u8_of_nat by (simp add: mod_mod_cancel del: of_nat_unat)
  qed
  ultimately show ?thesis using assms unit_bound [of u] by (simp add: putUTF8Triple_def utf8_def byte_order del: of_nat_add)
qed

lemma replacing_correct:
  assumes "3 * length source \<le> room"
  shows "utf8_replacing source room = Some (utf8s (code_points (\<lambda>_. 0xFFFD) source))"
  using assms
proof (induction "length source" arbitrary: source room rule: less_induct)
  case less
  show ?case
  proof (cases "source = []")
    case True
    then show ?thesis by (simp add: utf8_replacing.simps)
  next
    case False
    obtain result rest written where r: "convertUTF16ToUTF8 True source room = (result, rest, written)"
      by (cases "convertUTF16ToUTF8 True source room")
    obtain cs where cs: "list_all scalar_value cs" "source = utf16s cs @ rest" "written = utf8s cs"
      "case result of
        conversionOK \<Rightarrow> rest = []
      | sourceExhausted \<Rightarrow> (\<exists>u. rest = [u] \<and> 0xD800 \<le> unat u \<and> unat u \<le> 0xDBFF)
      | targetExhausted \<Rightarrow> (\<exists>c us. scalar_value c \<and> rest = utf16 c @ us \<and> length written + length (utf8 c) > room)
      | sourceIllegal \<Rightarrow> rest \<noteq> [] \<and> \<not> starts_scalar16 rest"
      using convertUTF16_strict [of source room] unfolding r converts16_def by blast
    show ?thesis
    proof (cases "result = conversionOK")
      case True
      then show ?thesis using cs code_points_utf16 [OF cs(1), of "\<lambda>_. 0xFFFD" "[]"] r False by (subst utf8_replacing.simps) (simp add: Let_def)
    next
      case stopped: False
      have nt: "result \<noteq> targetExhausted"
      proof
        assume "result = targetExhausted"
        then obtain c us where "rest = utf16 c @ us" "length written + length (utf8 c) > room" using cs(4) by auto
        then show False using enough_room(2) [OF cs(2) less.prems, of c us] cs(3) by simp
      qed
      have ill: "rest \<noteq> [] \<and> \<not> starts_scalar16 rest"
      proof (cases "result = sourceIllegal")
        case True
        then show ?thesis using cs(4) by simp
      next
        case False
        then have "\<exists>u. rest = [u] \<and> high_surrogate u" using cs(4) stopped nt by (cases result) (auto simp: high_surrogate_def)
        then show ?thesis using utf16_head by (fastforce simp: starts_scalar16_def)
      qed
      then obtain u us where u: "rest = u # us" by (cases rest) auto
      have sur: "0xD800 \<le> u \<and> u \<le> 0xDFFF" using not_scalar16 [of u us] ill u by (auto simp: high_surrogate_def low_surrogate_def byte_order)
      have room: "3 \<le> room - length written" "3 * length us \<le> room - length written - 3"
        using enough_room(1,3) [OF cs(2) less.prems] ill u cs(3) by auto
      have "utf8_replacing us (room - length written - 3) = Some (utf8s (code_points (\<lambda>_. 0xFFFD) us))"
        using less.hyps [OF _ room(2)] cs(2) u by simp
      moreover have "putUTF8Triple replacementCharacter = Some (utf8 0xFFFD)"
        using triple_utf8 [of replacementCharacter] by (simp add: replacementCharacter_def)
      moreover have "code_points (\<lambda>_. 0xFFFD) source = cs @ 0xFFFD # code_points (\<lambda>_. 0xFFFD) us"
        unfolding cs(2) code_points_utf16 [OF cs(1)] u using unpaired_code_points ill u by simp
      ultimately show ?thesis using r False stopped nt sur room(1) u cs(3) by (subst utf8_replacing.simps) (simp add: Let_def)
    qed
  qed
qed

section \<open>Lenient conversion\<close>

lemma convertUTF16_lenient_step:
  assumes "read_utf16 False u us = Inr (of_nat c, k)" "c < 0x110000" "length (utf8 c) \<le> room"
  shows "convertUTF16ToUTF8 False (u # us) room =
    (let (result, rest, written) = convertUTF16ToUTF8 False (drop k us) (room - length (utf8 c)) in (result, rest, utf8 c @ written))"
  using assms(1,3) write_utf8 [OF assms(2)] by simp

lemma single_bound: "single (\<lambda>c. c) u < 0x10000"
  using unit_bound [of u] by (simp add: single_def)

lemma utf8_unit_room: "c < 0x10000 \<Longrightarrow> length (utf8 c) \<le> 3"
  by (simp add: utf8_def)

lemma lenient_correct:
  assumes "3 * length source \<le> room" "convertUTF16ToUTF8 False source room = (result, rest, written)"
  shows "result = conversionOK \<and> rest = [] \<and> written = utf8s (code_points (\<lambda>c. c) source) \<or>
    (\<exists>u. result = sourceExhausted \<and> rest = [u] \<and> high_surrogate u \<and> utf8s (code_points (\<lambda>c. c) source) = written @ utf8 (unat u) \<and>
      length written + 3 \<le> room)"
  using assms
proof (induction "\<lambda>c :: nat. c" source arbitrary: room written rule: code_points.induct)
  case 1
  then show ?case by simp
next
  case (2 u)
  show ?case
  proof (cases "high_surrogate u")
    case True
    then have "read_utf16 False u [] = Inl sourceExhausted" unfolding read_surrogates by simp
    then show ?thesis using 2 True by (auto simp: single_def)
  next
    case False
    then have "read_utf16 False u [] = Inr (of_nat (unat u), 0)" unfolding read_surrogates by simp
    then have "convertUTF16ToUTF8 False [u] room = (conversionOK, [], utf8 (unat u))"
      using convertUTF16_lenient_step [of u "[]" "unat u" 0 room] unit_bound [of u] utf8_unit_room [OF unit_bound [of u]] 2 by simp
    then show ?thesis using 2 by (auto simp: single_def)
  qed
next
  case (3 u v us)
  show ?case
  proof (cases "high_surrogate u \<and> low_surrogate v")
    case True
    let ?c = "pair u v"
    have c: "?c < 0x110000" "0x10000 \<le> ?c" using True by (auto simp: pair_def high_surrogate_def low_surrogate_def)
    then have l: "length (utf8 ?c) = 4" by (simp add: utf8_def)
    have "read_utf16 False u (v # us) = Inr (of_nat ?c, 1)" unfolding read_surrogates using True by simp
    then have e: "convertUTF16ToUTF8 False (u # v # us) room =
      (let (result, rest, written) = convertUTF16ToUTF8 False us (room - 4) in (result, rest, utf8 ?c @ written))"
      using convertUTF16_lenient_step [of u "v # us" ?c 1 room] c l 3(3) by simp
    then obtain w where w: "convertUTF16ToUTF8 False us (room - 4) = (result, rest, w)" "written = utf8 ?c @ w"
      using 3(4) by (auto split: prod.splits)
    have "3 * length us \<le> room - 4" "4 \<le> room" using 3(3) by auto
    then show ?thesis using 3(1) [OF True _ w(1)] True w(2) l by auto
  next
    case False
    let ?c = "unat u"
    have c: "?c < 0x110000" "length (utf8 ?c) \<le> 3" using unit_bound [of u] utf8_unit_room by auto
    have "read_utf16 False u (v # us) = Inr (of_nat ?c, 0)" unfolding read_surrogates using False by auto
    then have e: "convertUTF16ToUTF8 False (u # v # us) room =
      (let (result, rest, written) = convertUTF16ToUTF8 False (v # us) (room - length (utf8 ?c)) in (result, rest, utf8 ?c @ written))"
      using convertUTF16_lenient_step [of u "v # us" ?c 0 room] c 3(3) by simp
    then obtain w where w: "convertUTF16ToUTF8 False (v # us) (room - length (utf8 ?c)) = (result, rest, w)" "written = utf8 ?c @ w"
      using 3(4) by (auto split: prod.splits)
    have "3 * length (v # us) \<le> room - length (utf8 ?c)" "length (utf8 ?c) \<le> room" using 3(3) c(2) by auto
    then show ?thesis using 3(2) [OF False _ w(1)] False w(2) by (auto simp: single_def)
  qed
qed

section \<open>The modes\<close>

definition well_formed16 :: "u16 list \<Rightarrow> bool" where
  "well_formed16 source \<longleftrightarrow> (\<exists>cs. list_all scalar_value cs \<and> source = utf16s cs)"

lemma replacing_mode:
  "3 * length source \<le> room \<Longrightarrow> utf8Impl source room StrictConversionReplacingUnpairedSurrogatesWithFFFD =
    Some (True, utf8s (code_points (\<lambda>_. 0xFFFD) source))"
  by (simp add: utf8Impl_def replacing_correct)

lemma lenient_mode:
  assumes "3 * length source \<le> room"
  shows "utf8Impl source room LenientConversion = Some (True, utf8s (code_points (\<lambda>c. c) source))"
proof -
  obtain result rest written where r: "convertUTF16ToUTF8 False source room = (result, rest, written)"
    by (cases "convertUTF16ToUTF8 False source room")
  show ?thesis using lenient_correct [OF assms r] r triple_utf8
    by (auto simp: utf8Impl_def Let_def high_surrogate_def byte_order)
qed

lemma strict_mode:
  assumes "3 * length source \<le> room"
  shows "\<exists>written. utf8Impl source room StrictConversion = Some (well_formed16 source, written) \<and>
    (well_formed16 source \<longrightarrow> written = utf8s (code_points (\<lambda>c. c) source))"
proof (cases "well_formed16 source")
  case True
  then obtain cs where cs: "list_all scalar_value cs" "source = utf16s cs" by (auto simp: well_formed16_def)
  have "length (utf8s cs) \<le> room" using utf8s_room [of cs] assms cs(2) by simp
  then show ?thesis using convertUTF16_well_formed [OF cs(1), of room True] True cs(2) code_points_utf16 [OF cs(1), of "\<lambda>c. c" "[]"]
    by (simp add: utf8Impl_def)
next
  case False
  obtain result rest written where r: "convertUTF16ToUTF8 True source room = (result, rest, written)"
    by (cases "convertUTF16ToUTF8 True source room")
  obtain cs where cs: "list_all scalar_value cs" "source = utf16s cs @ rest" "written = utf8s cs"
    "case result of
      conversionOK \<Rightarrow> rest = []
    | sourceExhausted \<Rightarrow> (\<exists>u. rest = [u] \<and> 0xD800 \<le> unat u \<and> unat u \<le> 0xDBFF)
    | targetExhausted \<Rightarrow> (\<exists>c us. scalar_value c \<and> rest = utf16 c @ us \<and> length written + length (utf8 c) > room)
    | sourceIllegal \<Rightarrow> rest \<noteq> [] \<and> \<not> starts_scalar16 rest"
    using convertUTF16_strict [of source room] unfolding r converts16_def by blast
  have "result \<noteq> conversionOK" using cs(1,2,4) False by (auto simp: well_formed16_def)
  moreover have "result \<noteq> targetExhausted"
  proof
    assume "result = targetExhausted"
    then obtain c us where "rest = utf16 c @ us" "length written + length (utf8 c) > room" using cs(4) by auto
    then show False using enough_room(2) [OF cs(2) assms, of c us] cs(3) by simp
  qed
  ultimately show ?thesis using r False by (cases result) (simp_all add: utf8Impl_def)
qed

lemma utf8ForCharacters_modes:
  assumes "int (length source) \<le> 4294967295 div 3"
  shows "utf8ForCharacters source StrictConversionReplacingUnpairedSurrogatesWithFFFD = Some (Some (utf8s (code_points (\<lambda>_. 0xFFFD) source)))"
    "utf8ForCharacters source LenientConversion = Some (Some (utf8s (code_points (\<lambda>c. c) source)))"
    "utf8ForCharacters source StrictConversion =
      Some (if well_formed16 source then Some (utf8s (code_points (\<lambda>c. c) source)) else None)"
proof -
  have "well_formed16 []" unfolding well_formed16_def by (rule exI [of _ "[]"]) simp
  moreover have "3 * length source \<le> length source * 3" by simp
  ultimately show "utf8ForCharacters source StrictConversionReplacingUnpairedSurrogatesWithFFFD = Some (Some (utf8s (code_points (\<lambda>_. 0xFFFD) source)))"
    "utf8ForCharacters source LenientConversion = Some (Some (utf8s (code_points (\<lambda>c. c) source)))"
    "utf8ForCharacters source StrictConversion =
      Some (if well_formed16 source then Some (utf8s (code_points (\<lambda>c. c) source)) else None)"
    using assms replacing_mode [of source "length source * 3"] lenient_mode [of source "length source * 3"] strict_mode [of source "length source * 3"]
    by (auto simp: utf8ForCharacters_def)
qed

end
