(* ===== verification/WTF_StringUTF8_Back.thy ===== *)
theory WTF_StringUTF8_Back
  imports WTF_StringUTF8_Correct
begin

text \<open>
  The way back: \<open>charactersAreAllASCII\<close> by words is the test of every byte, wherever the bytes are in
  memory, and \<open>String::fromUTF8\<close> undoes \<open>StringImpl::utf8\<close>.
\<close>

section \<open>The test for ASCII\<close>

lemma mask_bit: "n < 64 \<Longrightarrow> bit (0x8080808080808080 :: u64) n \<longleftrightarrow> n mod 8 = 7"
proof -
  have "list_all (\<lambda>n. bit (0x8080808080808080 :: u64) n = (n mod 8 = 7)) [0..<64]" by code_simp
  then show "n < 64 \<Longrightarrow> bit (0x8080808080808080 :: u64) n \<longleftrightarrow> n mod 8 = 7" by (simp add: list_all_iff)
qed

lemma top_bit: "bit b 7 \<longleftrightarrow> \<not> unat b < 128" for b :: u8
proof -
  have "list_all (\<lambda>b. bit (b :: u8) 7 = (\<not> uint b < 128)) (map word_of_int [0..255])" by code_simp
  then have "bit b 7 = (\<not> uint b < 128)" by (rule all_u8)
  then show ?thesis by (simp add: byte_compare)
qed

lemma bit_word_of_bytes:
  "n < 64 \<Longrightarrow> bit (word_of_bytes bs) n \<longleftrightarrow> n div 8 < length bs \<and> bit (bs ! (n div 8)) (n mod 8)"
proof (induction bs arbitrary: n)
  case Nil
  then show ?case by simp
next
  case (Cons b bs)
  show ?case
  proof (cases "n < 8")
    case True
    then show ?thesis using Cons.prems by (simp add: bit_simps)
  next
    case False
    then have "n div 8 = Suc ((n - 8) div 8)" "n mod 8 = (n - 8) mod 8" by (simp_all add: le_div_geq le_mod_geq)
    moreover have "\<not> bit b n" using False by (auto dest: bit_imp_le_length)
    ultimately show ?thesis using Cons False by (simp add: bit_simps)
  qed
qed

lemma masked_word:
  assumes "length bs \<le> 8"
  shows "word_of_bytes bs AND 0x8080808080808080 = 0 \<longleftrightarrow> list_all (\<lambda>b. unat b < 128) bs"
proof -
  have "word_of_bytes bs AND 0x8080808080808080 = 0 \<longleftrightarrow> (\<forall>n < 64. \<not> (bit (word_of_bytes bs) n \<and> bit (0x8080808080808080 :: u64) n))"
  proof
    assume z: "word_of_bytes bs AND 0x8080808080808080 = 0"
    show "\<forall>n < 64. \<not> (bit (word_of_bytes bs) n \<and> bit (0x8080808080808080 :: u64) n)"
      unfolding bit_and_iff [symmetric] z by simp
  next
    assume "\<forall>n < 64. \<not> (bit (word_of_bytes bs) n \<and> bit (0x8080808080808080 :: u64) n)"
    then show "word_of_bytes bs AND 0x8080808080808080 = 0" unfolding bit_and_iff [symmetric] by (intro bit_word_eqI) simp
  qed
  also have "\<dots> \<longleftrightarrow> (\<forall>n < 64. n mod 8 = 7 \<longrightarrow> n div 8 < length bs \<longrightarrow> \<not> bit (bs ! (n div 8)) 7)"
    by (auto simp only: mask_bit bit_word_of_bytes)
  also have "\<dots> \<longleftrightarrow> (\<forall>i < length bs. \<not> bit (bs ! i) 7)"
  proof (intro iffI allI impI)
    fix i assume a: "\<forall>n < 64. n mod 8 = 7 \<longrightarrow> n div 8 < length bs \<longrightarrow> \<not> bit (bs ! (n div 8)) 7" "i < length bs"
    have "(8 * i + 7) mod 8 = 7" "(8 * i + 7) div 8 = i" "8 * i + 7 < 64" using a(2) assms by simp_all
    then show "\<not> bit (bs ! i) 7" using a by metis
  qed simp
  finally show ?thesis by (simp add: list_all_length top_bit)
qed

definition no_high :: "MachineWord \<Rightarrow> bool" where
  "no_high w \<longleftrightarrow> w AND 0x8080808080808080 = 0"

definition ascii_bytes :: "u8 list \<Rightarrow> bool" where
  "ascii_bytes bs \<longleftrightarrow> list_all (\<lambda>b. unat b < 128) bs"

lemma ascii_bytes_simps [simp]:
  "ascii_bytes []" "ascii_bytes (b # bs) \<longleftrightarrow> unat b < 128 \<and> ascii_bytes bs" "ascii_bytes (bs @ cs) \<longleftrightarrow> ascii_bytes bs \<and> ascii_bytes cs"
  by (simp_all add: ascii_bytes_def)

lemma no_high_simps [simp]:
  "no_high 0" "no_high (v OR w) \<longleftrightarrow> no_high v \<and> no_high w" "no_high (ucast (b :: u8)) \<longleftrightarrow> unat b < 128"
  using masked_word [of "[b]"] by (simp_all add: no_high_def and_or_zero)

lemma no_high_word: "length bs \<le> 8 \<Longrightarrow> no_high (word_of_bytes bs) \<longleftrightarrow> ascii_bytes bs"
  by (simp add: no_high_def ascii_bytes_def masked_word)

lemma prologue_correct:
  assumes "ascii_prologue address cs allCharBits = (address', cs', allCharBits')"
  shows "\<exists>pre. cs = pre @ cs' \<and> address' = address + length pre \<and> (cs' = [] \<or> 8 dvd address') \<and>
    (no_high allCharBits' \<longleftrightarrow> no_high allCharBits \<and> ascii_bytes pre)"
  using assms
proof (induction address cs allCharBits rule: ascii_prologue.induct)
  case (1 address allCharBits)
  then show ?case by simp
next
  case (2 address c cs allCharBits)
  show ?case
  proof (cases "address mod 8 = 0")
    case True
    then show ?thesis using 2(2) by (intro exI [of _ "[]"]) auto
  next
    case False
    then have "ascii_prologue (address + 1) cs (allCharBits OR ucast c) = (address', cs', allCharBits')" using 2(2) by simp
    then obtain pre where "cs = pre @ cs'" "address' = address + 1 + length pre" "cs' = [] \<or> 8 dvd address'"
      "no_high allCharBits' \<longleftrightarrow> no_high (allCharBits OR ucast c) \<and> ascii_bytes pre"
      using 2(1) [OF False] by blast
    then show ?thesis by (intro exI [of _ "c # pre"]) simp
  qed
qed

lemma words_correct:
  assumes "ascii_words wordEnd address cs allCharBits = (cs', allCharBits')" "wordEnd \<le> address + length cs"
    "address < wordEnd \<longrightarrow> 8 dvd wordEnd - address"
  shows "\<exists>pre. cs = pre @ cs' \<and> (no_high allCharBits' \<longleftrightarrow> no_high allCharBits \<and> ascii_bytes pre)"
  using assms
proof (induction wordEnd address cs allCharBits rule: ascii_words.induct)
  case (1 wordEnd address cs allCharBits)
  show ?case
  proof (cases "address < wordEnd")
    case True
    then have d: "8 dvd wordEnd - address" using "1.prems"(3) by blast
    then have eight: "8 \<le> wordEnd - address" using True by (intro dvd_imp_le) simp_all
    have "ascii_words wordEnd (address + 8) (drop 8 cs) (allCharBits OR word_of_bytes (take 8 cs)) = (cs', allCharBits')"
      using True "1.prems"(1) by (subst (asm) ascii_words.simps) simp
    moreover have "wordEnd \<le> address + 8 + length (drop 8 cs)" using eight "1.prems"(2) by auto
    moreover have "address + 8 < wordEnd \<longrightarrow> 8 dvd wordEnd - (address + 8)"
      using dvd_diff_nat [OF d, of 8] by (simp add: diff_diff_left)
    ultimately obtain pre where "drop 8 cs = pre @ cs'" "no_high allCharBits' \<longleftrightarrow> no_high (allCharBits OR word_of_bytes (take 8 cs)) \<and> ascii_bytes pre"
      using "1.IH" [OF True] by blast
    moreover have "cs = (take 8 cs @ pre) @ cs'" using calculation(1) by (metis append.assoc append_take_drop_id)
    ultimately show ?thesis by (intro exI [of _ "take 8 cs @ pre"]) (simp add: no_high_word)
  next
    case False
    then show ?thesis using "1.prems"(1) by (intro exI [of _ "[]"]) (simp add: ascii_words.simps)
  qed
qed

lemma fold_bits: "no_high (fold (\<lambda>c allCharBits. allCharBits OR ucast c) cs bits) \<longleftrightarrow> no_high bits \<and> ascii_bytes cs"
  by (induction cs arbitrary: bits) simp_all

lemma charactersAreAllASCII_correct: "charactersAreAllASCII address cs \<longleftrightarrow> list_all (\<lambda>b. unat b < 128) cs"
proof -
  let ?stop = "address + length cs"
  let ?words = "?stop - ?stop mod 8"
  obtain address1 cs1 bits1 where p: "ascii_prologue address cs 0 = (address1, cs1, bits1)" by (cases "ascii_prologue address cs 0")
  obtain cs2 bits2 where w: "ascii_words ?words address1 cs1 bits1 = (cs2, bits2)" by (cases "ascii_words ?words address1 cs1 bits1")
  obtain pre where pre: "cs = pre @ cs1" "address1 = address + length pre" "cs1 = [] \<or> 8 dvd address1" "no_high bits1 \<longleftrightarrow> ascii_bytes pre"
    using prologue_correct [OF p] by auto
  have e: "?stop = address1 + length cs1" using pre by simp
  have le: "?words \<le> address1 + length cs1" unfolding e by simp
  have aligned: "address1 < ?words \<longrightarrow> 8 dvd ?words - address1"
  proof
    assume less: "address1 < ?words"
    then have "cs1 \<noteq> []" unfolding e by auto
    then have "8 dvd address1" using pre(3) by auto
    moreover have "8 dvd ?words" by (rule dvd_minus_mod)
    ultimately show "8 dvd ?words - address1" by (rule dvd_diff_nat [rotated])
  qed
  obtain mid where mid: "cs1 = mid @ cs2" "no_high bits2 \<longleftrightarrow> no_high bits1 \<and> ascii_bytes mid"
    using words_correct [OF w le aligned] by blast
  have "charactersAreAllASCII address cs \<longleftrightarrow> no_high (fold (\<lambda>c allCharBits. allCharBits OR ucast c) cs2 bits2)"
    unfolding charactersAreAllASCII_def Let_def p split_conv w no_high_def ..
  also have "\<dots> \<longleftrightarrow> ascii_bytes cs" using mid pre by (simp add: fold_bits)
  finally show ?thesis by (simp add: ascii_bytes_def)
qed

section \<open>Strings and back\<close>

lemma utf8_high: "scalar_value c \<Longrightarrow> list_all (\<lambda>b. unat b < 128) (utf8 c) \<longleftrightarrow> c < 0x80"
proof
  assume c: "scalar_value c" "list_all (\<lambda>b. unat b < 128) (utf8 c)"
  then have "unat (hd (utf8 c)) < 128" by (cases "utf8 c") auto
  then show "c < 0x80" using first_byte(1) [OF c(1), of "[]"] by (auto simp: isASCII_def)
qed (simp add: utf8_ascii)

lemma utf8s_high: "list_all scalar_value cs \<Longrightarrow> list_all (\<lambda>b. unat b < 128) (utf8s cs) \<longleftrightarrow> list_all (\<lambda>c. c < 0x80) cs"
  by (induction cs) (simp_all add: utf8_high)

lemma ascii_units: "list_all (\<lambda>c. c < 0x80) cs \<Longrightarrow> map unat (utf8s cs) = cs \<and> map unat (utf16s cs) = cs"
  by (induction cs) (simp_all add: utf8_ascii)

lemma fromUTF8_well_formed:
  assumes "list_all scalar_value cs" "int (length (utf8s cs)) \<le> 4294967295"
  shows "\<exists>b. fromUTF8 address (Some (utf8s cs)) = Some (WString b (map unat (utf16s cs)))"
proof (cases "list_all (\<lambda>c. c < 0x80) cs")
  case True
  then show ?thesis using assms ascii_units [OF True] utf8s_high [OF assms(1)]
    by (cases cs) (auto simp: fromUTF8_def charactersAreAllASCII_correct)
next
  case False
  then have "utf8s cs \<noteq> []" by (cases cs) auto
  then show ?thesis using assms False utf8s_high [OF assms(1)] utf16s_less [OF False]
      convertUTF8_well_formed [OF assms(1), of "length (utf8s cs)" True] utf16s_room [of cs]
    by (intro exI [of _ False]) (simp add: fromUTF8_def charactersAreAllASCII_correct)
qed

lemma latin1_chars:
  assumes "list_all (\<lambda>c. c < 256) cs" "2 * length cs \<le> room"
  shows "convertLatin1ToUTF8 (map of_nat cs) room = (conversionOK, [], utf8s cs)" "map of_nat cs = utf16s cs" "list_all scalar_value cs"
proof -
  show s: "list_all scalar_value cs" using assms(1) by (induction cs) (auto simp: scalar_value_def)
  show u: "map of_nat cs = utf16s cs" using assms(1) by (induction cs) (simp_all add: utf16_def)
  have "map ucast (map of_nat cs :: u8 list) = (map of_nat cs :: u16 list)"
    using assms(1) by (induction cs) (simp_all add: word_unat_eq_iff latin1_units)
  moreover have "length (utf8s cs) \<le> 2 * length cs" using assms(1) by (induction cs) (auto simp: utf8_def)
  ultimately have "convertUTF16ToUTF8 True (map ucast (map of_nat cs :: u8 list)) room = (conversionOK, [], utf8s cs)"
    using convertUTF16_well_formed [OF s, of room True] assms(2) u by simp
  then show "convertLatin1ToUTF8 (map of_nat cs) room = (conversionOK, [], utf8s cs)"
    unfolding latin1_is_utf16 [of "map of_nat cs" room True, symmetric] by (auto split: prod.splits)
qed

lemma string_utf8_strict:
  assumes "string_ok s" "s \<noteq> NullString" "int (string_length s) \<le> 4294967295 div 3"
    "is8Bit s \<or> well_formed16 (map of_nat (characters s))"
  shows "\<exists>cs. list_all scalar_value cs \<and> string_utf8 s StrictConversion = Some (Some (utf8s cs)) \<and> characters s = map unat (utf16s cs) \<and>
    length (utf8s cs) \<le> 3 * string_length s"
proof (cases "is8Bit s")
  case True
  then have c: "list_all (\<lambda>c. c < 256) (characters s)" using assms(1) by (simp add: string_ok_def)
  note l = latin1_chars [OF c, of "length (characters s) * 3"]
  have "map unat (utf16s (characters s)) = characters s" unfolding l(2) [simplified, symmetric] using c
    by (auto simp: list_all_iff intro!: map_idI)
  moreover have "string_utf8 s StrictConversion = Some (Some (utf8s (characters s)))"
    using l(1) assms(2,3) True by (auto simp: string_utf8_def utf8ForRange_def string_length_def)
  moreover have "length (utf8s (characters s)) \<le> 3 * length (utf16s (characters s))" by (rule utf8s_room)
  moreover have "length (utf16s (characters s)) = length (characters s)" using l(2) [simplified] by (metis length_map)
  moreover have "list_all scalar_value (characters s)" by (rule l(3)) simp
  ultimately show ?thesis by (intro exI [of _ "characters s"]) (simp add: string_length_def)
next
  case False
  then obtain cs where cs: "list_all scalar_value cs" "map of_nat (characters s) = utf16s cs" using assms(4) by (auto simp: well_formed16_def)
  have c: "list_all (\<lambda>c. c < 65536) (characters s)" using assms(1) False by (simp add: string_ok_def)
  then have chars: "map unat (map of_nat (characters s) :: u16 list) = characters s" by (auto simp: list_all_iff intro: map_idI)
  have w: "well_formed16 (map of_nat (characters s))" using cs unfolding well_formed16_def by blast
  have "string_utf8 s StrictConversion = Some (Some (utf8s (code_points (\<lambda>c. c) (map of_nat (characters s)))))"
    using strict_mode [of "map of_nat (characters s)" "length (characters s) * 3"] w False assms(2,3)
    by (auto simp: string_utf8_def utf8ForRange_def string_length_def)
  also have "code_points (\<lambda>c. c) (map of_nat (characters s)) = cs" using code_points_utf16 [OF cs(1), of "\<lambda>c. c" "[]"] cs(2) by simp
  finally have "string_utf8 s StrictConversion = Some (Some (utf8s cs))" .
  moreover have "length (utf16s cs) = length (characters s)" using cs(2) by (metis length_map)
  ultimately show ?thesis using cs chars utf8s_room [of cs] by (intro exI [of _ cs]) (simp add: string_length_def)
qed

end
