(* ===== verification/WTF_UTF8_Sequence.thy ===== *)
theory WTF_UTF8_Sequence
  imports WTF_UTF8_Compare
begin

text \<open>
  Two places that put the bits of a sequence together themselves: \<open>decodeUTF8Sequence\<close>, and the
  comparison with Latin-1.
\<close>

section \<open>Bits of a character\<close>

lemma or_is_add: "x < 2 ^ n \<Longrightarrow> push_bit n v OR of_nat x = push_bit n v + (of_nat x :: u32)"
proof -
  assume x: "x < 2 ^ n"
  have "push_bit n v AND of_nat x = (0 :: u32)"
  proof (rule bit_word_eqI)
    fix m
    have "take_bit n (of_nat x :: u32) = of_nat x" using x by (simp add: take_bit_of_nat take_bit_nat_eq_self)
    then have "bit (of_nat x :: u32) m \<Longrightarrow> m < n" by (metis bit_take_bit_iff)
    then show "bit (push_bit n v AND of_nat x) m = bit (0 :: u32) m" by (auto simp: bit_simps)
  qed
  then show ?thesis by (rule disjunctive_add_eq_or [symmetric])
qed

lemma bits_at_payload:
  "x < 32 \<Longrightarrow> bits_at n (of_nat (0xC0 + x) AND 0x1F) = of_nat (x * 2 ^ n)"
  "x < 16 \<Longrightarrow> bits_at n (of_nat (0xE0 + x) AND 0xF) = of_nat (x * 2 ^ n)"
  "x < 8 \<Longrightarrow> bits_at n (of_nat (0xF0 + x) AND 0x7) = of_nat (x * 2 ^ n)"
  "x < 64 \<Longrightarrow> bits_at n (of_nat (0x80 + x) AND 0x3F) = of_nat (x * 2 ^ n)"
proof -
  have e: "bits_at n b = of_nat (unat b * 2 ^ n)" for b :: u8
  proof -
    have "(ucast b :: u32) = of_nat (unat b)" by simp
    then show ?thesis unfolding bits_at_def by (simp only: push_bit_of_nat_word)
  qed
  show "x < 32 \<Longrightarrow> bits_at n (of_nat (0xC0 + x) AND 0x1F) = of_nat (x * 2 ^ n)"
    "x < 16 \<Longrightarrow> bits_at n (of_nat (0xE0 + x) AND 0xF) = of_nat (x * 2 ^ n)"
    "x < 8 \<Longrightarrow> bits_at n (of_nat (0xF0 + x) AND 0x7) = of_nat (x * 2 ^ n)"
    "x < 64 \<Longrightarrow> bits_at n (of_nat (0x80 + x) AND 0x3F) = of_nat (x * 2 ^ n)"
  proof -
    have m: "(0xC0 + x) mod 32 = x" if "x < 32" using that by (simp add: mod_add_left_eq [symmetric, of "0xC0"])
    have m2: "(0xE0 + x) mod 16 = x" if "x < 16" using that by (simp add: mod_add_left_eq [symmetric, of "0xE0"])
    have m3: "(0xF0 + x) mod 8 = x" if "x < 8" using that by (simp add: mod_add_left_eq [symmetric, of "0xF0"])
    have m4: "(0x80 + x) mod 64 = x" if "x < 64" using that by (simp add: mod_add_left_eq [symmetric, of "0x80"])
    show "x < 32 \<Longrightarrow> bits_at n (of_nat (0xC0 + x) AND 0x1F) = of_nat (x * 2 ^ n)" unfolding e byte_masks by (simp add: m unat_byte del: of_nat_add of_nat_mult)
    show "x < 16 \<Longrightarrow> bits_at n (of_nat (0xE0 + x) AND 0xF) = of_nat (x * 2 ^ n)" unfolding e byte_masks by (simp add: m2 unat_byte del: of_nat_add of_nat_mult)
    show "x < 8 \<Longrightarrow> bits_at n (of_nat (0xF0 + x) AND 0x7) = of_nat (x * 2 ^ n)" unfolding e byte_masks by (simp add: m3 unat_byte del: of_nat_add of_nat_mult)
    show "x < 64 \<Longrightarrow> bits_at n (of_nat (0x80 + x) AND 0x3F) = of_nat (x * 2 ^ n)" unfolding e byte_masks by (simp add: m4 unat_byte del: of_nat_add of_nat_mult)
  qed
qed

lemma or_join: "x < 64 \<Longrightarrow> (of_nat (y * 64 * 2 ^ n) :: u32) OR of_nat (x * 2 ^ n) = of_nat ((y * 64 + x) * 2 ^ n)"
proof -
  assume "x < 64"
  then have "x * 2 ^ n < 2 ^ (n + 6)" by (simp add: power_add)
  then have "push_bit (n + 6) (of_nat y) OR of_nat (x * 2 ^ n) = (push_bit (n + 6) (of_nat y) + of_nat (x * 2 ^ n) :: u32)" by (rule or_is_add)
  moreover have "push_bit (n + 6) (of_nat y) = (of_nat (y * 64 * 2 ^ n) :: u32)" by (simp only: push_bit_of_nat_word) (simp add: power_add mult.assoc)
  ultimately show ?thesis by (simp add: algebra_simps)
qed

lemma join_payloads:
  "x1 < 64 \<Longrightarrow> (of_nat (x0 * 2 ^ 6) :: u32) OR of_nat (x1 * 2 ^ 0) = of_nat (x0 * 64 + x1)"
  "x1 < 64 \<Longrightarrow> x2 < 64 \<Longrightarrow> (of_nat (x0 * 2 ^ 12) :: u32) OR of_nat (x1 * 2 ^ 6) OR of_nat (x2 * 2 ^ 0) = of_nat ((x0 * 64 + x1) * 64 + x2)"
  "x1 < 64 \<Longrightarrow> x2 < 64 \<Longrightarrow> x3 < 64 \<Longrightarrow> (of_nat (x0 * 2 ^ 18) :: u32) OR of_nat (x1 * 2 ^ 12) OR of_nat (x2 * 2 ^ 6) OR of_nat (x3 * 2 ^ 0) =
    of_nat (((x0 * 64 + x1) * 64 + x2) * 64 + x3)"
proof -
  note j = or_join [of _ _ 0] or_join [of _ _ 6] or_join [of _ _ 12]
  show one: "x1 < 64 \<Longrightarrow> (of_nat (x0 * 2 ^ 6) :: u32) OR of_nat (x1 * 2 ^ 0) = of_nat (x0 * 64 + x1)" for x0 x1
    using j(1) [of x1 x0] by simp
  show two: "x1 < 64 \<Longrightarrow> x2 < 64 \<Longrightarrow> (of_nat (x0 * 2 ^ 12) :: u32) OR of_nat (x1 * 2 ^ 6) OR of_nat (x2 * 2 ^ 0) = of_nat ((x0 * 64 + x1) * 64 + x2)" for x0 x1 x2
  proof -
    assume a: "x1 < 64" "x2 < 64"
    have "(of_nat (x0 * 2 ^ 12) :: u32) OR of_nat (x1 * 2 ^ 6) = of_nat ((x0 * 64 + x1) * 2 ^ 6)" 
    proof -
      have "x0 * 64 * 2 ^ 6 = x0 * 2 ^ 12" by simp
      then show ?thesis using j(2) [OF a(1), of x0] by (simp only:)
    qed
    then show "(of_nat (x0 * 2 ^ 12) :: u32) OR of_nat (x1 * 2 ^ 6) OR of_nat (x2 * 2 ^ 0) = of_nat ((x0 * 64 + x1) * 64 + x2)"
      using one [OF a(2), of "x0 * 64 + x1"] by (simp only: or.assoc [symmetric])
  qed
  assume a: "x1 < 64" "x2 < 64" "x3 < 64"
  have "(of_nat (x0 * 2 ^ 18) :: u32) OR of_nat (x1 * 2 ^ 12) = of_nat ((x0 * 64 + x1) * 2 ^ 12)" 
  proof -
    have "x0 * 64 * 2 ^ 12 = x0 * 2 ^ 18" by simp
    then show ?thesis using j(3) [OF a(1), of x0] by (simp only:)
  qed
  then show "(of_nat (x0 * 2 ^ 18) :: u32) OR of_nat (x1 * 2 ^ 12) OR of_nat (x2 * 2 ^ 6) OR of_nat (x3 * 2 ^ 0) =
    of_nat (((x0 * 64 + x1) * 64 + x2) * 64 + x3)"
    using two [OF a(2,3), of "x0 * 64 + x1"] by (simp only: or.assoc [symmetric])
qed

section \<open>Comparison with Latin-1\<close>

text \<open>The comparison cuts the character of two bytes to eight bits.\<close>

lemma equalLatin1_step:
  assumes "0x80 \<le> c" "c < 0x800" "0x80 \<le> unat a0"
  shows "equalLatin1WithUTF8 (a0 # a) (utf8 c @ b) = (if unat a0 = c mod 256 then equalLatin1WithUTF8 a b else Some False)"
proof -
  let ?x0 = "c div 64" and ?x1 = "c mod 64"
  have x: "?x0 < 32" "2 \<le> ?x0" "?x1 < 64" using assms(1,2) by auto
  have u: "utf8 c = [of_nat (0xC0 + ?x0), of_nat (0x80 + ?x1)]" using assms(1,2) by (simp add: utf8_def)
  have n: "unat (of_nat (0xC0 + ?x0) :: u8) = 0xC0 + ?x0" "unat (of_nat (0x80 + ?x1) :: u8) = 0x80 + ?x1"
    by (rule unat_byte, use x in linarith)+
  have m: "of_nat (0xC0 + ?x0) AND 0xE0 = (0xC0 :: u8)" "of_nat (0x80 + ?x1) AND 0xC0 = (0x80 :: u8)"
    unfolding byte_ranges n using x by simp_all
  have "bits_at 6 (of_nat (0xC0 + ?x0) AND 0x1F) OR bits_at 0 (of_nat (0x80 + ?x1) AND 0x3F) = of_nat c"
    unfolding bits_at_payload(1) [OF x(1)] bits_at_payload(4) [OF x(3)] join_payloads(1) [OF x(3)] by simp
  then have "ucast (bits_at 6 (of_nat (0xC0 + ?x0) AND 0x1F) OR bits_at 0 (of_nat (0x80 + ?x1) AND 0x3F)) = (of_nat c :: u8)"
    by (simp only: ucast_u8_of_nat)
  moreover have "a0 = of_nat c \<longleftrightarrow> unat a0 = c mod 256" by (simp add: word_unat_eq_iff unat_u8_of_nat)
  moreover have "\<not> isASCII (unat a0)" "\<not> isASCII (unat (of_nat (0xC0 + ?x0) :: u8))" unfolding n using assms(3) by (simp_all add: isASCII_def)
  ultimately show ?thesis unfolding u using m by (simp add: Let_def del: of_nat_add)
qed

lemma equalLatin1_below_256:
  assumes "list_all (\<lambda>c. c < 256) cs" "length a = length cs"
  shows "equalLatin1WithUTF8 a (utf8s cs) = Some (map unat a = cs)"
  using assms
proof (induction cs arbitrary: a)
  case Nil
  then show ?case by simp
next
  case (Cons c cs)
  then obtain a0 a1 where a: "a = a0 # a1" by (cases a) auto
  have ih: "equalLatin1WithUTF8 a1 (utf8s cs) = Some (map unat a1 = cs)" using Cons a by simp
  show ?case
  proof (cases "c < 0x80")
    case True
    then have "a0 = of_nat c \<longleftrightarrow> unat a0 = c" by (auto simp: word_unat_eq_iff)
    then show ?thesis using True ih by (simp add: a utf8_ascii isASCII_def)
  next
    case False
    show ?thesis
    proof (cases "0x80 \<le> unat a0")
      case True
      then show ?thesis using equalLatin1_step [of c a0 a1 "utf8s cs"] False Cons.prems ih by (simp add: a)
    next
      case low: False
      obtain b0 b where b: "utf8 c = b0 # b" by (cases "utf8 c") auto
      have "scalar_value c" using Cons.prems(1) by (simp add: scalar_value_def)
      then have "\<not> isASCII (unat b0)" using first_byte(1) [of c "[]"] False b by simp
      then have "a0 \<noteq> b0" using low by (auto simp: isASCII_def)
      then show ?thesis using low False b by (auto simp: a isASCII_def)
    qed
  qed
qed

section \<open>Decoding one sequence\<close>

lemma byte_at_terminated:
  "byte_at (bs @ [0]) i = (if i < length bs then Some (bs ! i) else if i = length bs then Some 0 else None)"
  by (auto simp: byte_at_def nth_append)

lemma uint_of_number: "x < 0x110000 \<Longrightarrow> uint (of_nat x :: u32) = int x"
  by (simp add: uint_nat)

lemma number_of_byte: "uint (of_nat x :: u8) = int x" if "x < 256"
proof -
  have "uint (of_nat x :: u8) = int (unat (of_nat x :: u8))" by simp
  then show ?thesis using that by (simp only: unat_byte)
qed

lemma continuation_mask: "x < 64 \<Longrightarrow> of_nat (0x80 + x) AND 0xC0 = (0x80 :: u8)"
proof -
  assume x: "x < 64"
  have "unat (of_nat (0x80 + x) :: u8) = 0x80 + x" by (rule unat_byte) (use x in simp)
  then show ?thesis unfolding byte_ranges using x by simp
qed

lemma sequence_length_char:
  "x < 32 \<Longrightarrow> inlineUTF8SequenceLength (of_nat (0xC0 + x)) = 2"
  "x < 16 \<Longrightarrow> inlineUTF8SequenceLength (of_nat (0xE0 + x)) = 3"
  "x < 8 \<Longrightarrow> inlineUTF8SequenceLength (of_nat (0xF0 + x)) = 4"
  by (simp_all add: inlineUTF8SequenceLength_def isASCII_def sequence_length unat_byte del: of_nat_add)

lemma decode_char:
  assumes "utf8_char c bs" "0 \<notin> set bs"
  shows "decodeUTF8Sequence (bs @ [0]) = Some (int c)"
  using assms
proof (cases rule: utf8_char.cases)
  case (one)
  then show ?thesis unfolding decodeUTF8Sequence_def byte_at_terminated
    by (simp add: inlineUTF8SequenceLength_def isASCII_def number_of_byte)
next
  case (two x0 x1)
  have v: "bits_at 6 (of_nat (0xC0 + x0) AND 0x1F) OR bits_at 0 (of_nat (0x80 + x1) AND 0x3F) = of_nat (x0 * 64 + x1)"
    using two by (simp only: bits_at_payload join_payloads)
  have c: "x0 * 64 + x1 < 0x800" "0x80 \<le> x0 * 64 + x1" using two by linarith+
  then have "\<not> (of_nat (x0 * 64 + x1) :: u32) < 0x80" by (simp add: byte_order del: of_nat_add of_nat_mult)
  then show ?thesis using two c v continuation_mask [of x1] sequence_length_char(1) [of x0] uint_of_number [of "x0 * 64 + x1"]
    unfolding decodeUTF8Sequence_def byte_at_terminated by (simp add: Let_def del: of_nat_add of_nat_mult)
next
  case (three x0 x1 x2)
  let ?c = "(x0 * 64 + x1) * 64 + x2"
  have v: "bits_at 12 (of_nat (0xE0 + x0) AND 0xF) OR bits_at 6 (of_nat (0x80 + x1) AND 0x3F) OR bits_at 0 (of_nat (0x80 + x2) AND 0x3F) = of_nat ?c"
    using three by (simp only: bits_at_payload join_payloads(2))
  have s: "scalar_value ?c" "?c < 0x10000" "0x800 \<le> ?c"
    using utf8_char_utf8 [OF assms(1)] three by (auto simp: utf8_def)
  then have "\<not> (of_nat ?c :: u32) < 0x800" "\<not> (0xD800 \<le> (of_nat ?c :: u32) \<and> (of_nat ?c :: u32) \<le> 0xDFFF)"
    by (auto simp: byte_order scalar_value_def simp del: of_nat_add of_nat_mult)
  then show ?thesis using three s v continuation_mask [of x1] continuation_mask [of x2] sequence_length_char(2) [of x0] uint_of_number [of ?c]
    unfolding decodeUTF8Sequence_def byte_at_terminated by (simp add: Let_def nth_Cons' del: of_nat_add of_nat_mult)
next
  case (four x0 x1 x2 x3)
  let ?c = "((x0 * 64 + x1) * 64 + x2) * 64 + x3"
  have v: "bits_at 18 (of_nat (0xF0 + x0) AND 0x7) OR bits_at 12 (of_nat (0x80 + x1) AND 0x3F) OR bits_at 6 (of_nat (0x80 + x2) AND 0x3F) OR
      bits_at 0 (of_nat (0x80 + x3) AND 0x3F) = of_nat ?c"
  proof -
    have "x0 < 8" using four by simp
    then show ?thesis using four by (simp only: bits_at_payload join_payloads(3))
  qed
  have s: "scalar_value ?c" "?c < 0x110000" "0x10000 \<le> ?c"
    using utf8_char_utf8 [OF assms(1)] four scalar_bound by (auto simp: utf8_def)
  then have "\<not> ((of_nat ?c :: u32) < 0x10000 \<or> (of_nat ?c :: u32) > 0x10FFFF)"
    by (simp add: byte_order del: of_nat_add of_nat_mult)
  then show ?thesis using four s v continuation_mask [of x1] continuation_mask [of x2] continuation_mask [of x3] sequence_length_char(3) [of x0] uint_of_number [of ?c]
    unfolding decodeUTF8Sequence_def byte_at_terminated by (simp add: Let_def nth_Cons' del: of_nat_add of_nat_mult)
qed

text \<open>Everything else is refused, and nothing is read behind the terminating zero.\<close>

lemma trailing_payload:
  assumes "b AND 0xC0 = (0x80 :: u8)"
  obtains x where "x < 64" "b = of_nat (0x80 + x)"
  using assms byte_numberE [of "0x80" b 64] by (auto simp: byte_ranges)

definition decodes_well :: "u8 list \<Rightarrow> bool" where
  "decodes_well bs \<longleftrightarrow> (\<exists>r. decodeUTF8Sequence (bs @ [0]) = Some r \<and> (r = - 1 \<or> (\<exists>c. utf8_char c bs)))"

lemma decodes_well_error: "decodeUTF8Sequence (bs @ [0]) = Some (- 1) \<Longrightarrow> decodes_well bs"
  by (simp add: decodes_well_def)

lemma decodes_well_char: "utf8_char c bs \<Longrightarrow> 0 \<notin> set bs \<Longrightarrow> decodes_well bs"
  unfolding decodes_well_def using decode_char by blast

lemma four_bytes: "length bs = 4 \<Longrightarrow> bs = [bs ! 0, bs ! 1, bs ! 2, bs ! 3]"
  by (auto simp: length_Suc_conv numeral_eq_Suc)

lemma decode_two:
  assumes "inlineUTF8SequenceLength (bs ! 0) = 2" "bs \<noteq> []" "0 \<notin> set bs"
  shows "decodes_well bs"
proof -
  have z: "i < length bs \<Longrightarrow> bs ! i \<noteq> 0" for i using assms(3) nth_mem by metis
  consider "length bs = 1" | "length bs > 1" "bs ! 1 AND 0xC0 \<noteq> 0x80" | "length bs > 2" | "length bs = 2" "bs ! 1 AND 0xC0 = 0x80"
    using assms(2) by (cases "length bs") (auto, linarith)
  then show ?thesis
  proof cases
    case 4
    have u: "0xC0 \<le> unat (bs ! 0)" "unat (bs ! 0) < 0xC0 + 32"
      using assms(1) by (auto simp: inlineUTF8SequenceLength_def isASCII_def sequence_length split: if_splits)
    obtain x0 where x0: "x0 < 32" "bs ! 0 = of_nat (0xC0 + x0)" by (rule byte_numberE [OF u])
    obtain x1 where x1: "x1 < 64" "bs ! 1 = of_nat (0x80 + x1)" by (rule trailing_payload [OF 4(2)])
    have bs: "bs = [of_nat (0xC0 + x0), of_nat (0x80 + x1)]"
      using 4(1) x0 x1 by (intro nth_equalityI) (auto simp: less_Suc_eq numeral_2_eq_2 nth_Cons' simp del: of_nat_add)
    show ?thesis
    proof (cases "2 \<le> x0")
      case True
      then show ?thesis using utf8_char.two [OF True x0(1) x1(1)] decodes_well_char assms(3) bs by metis
    next
      case False
      then have c: "x0 * 64 + x1 < 0x80" using x1(1) by auto
      have v: "bits_at 6 (bs ! 0 AND 0x1F) OR bits_at 0 (bs ! 1 AND 0x3F) = of_nat (x0 * 64 + x1)"
        unfolding x0(2) x1(2) using x0(1) x1(1) by (simp only: bits_at_payload join_payloads)
      have "(of_nat (x0 * 64 + x1) :: u32) < 0x80" using c by (simp add: byte_order del: of_nat_add of_nat_mult)
      then show ?thesis using 4 v assms(1)
        by (intro decodes_well_error) (unfold decodeUTF8Sequence_def byte_at_terminated, simp add: Let_def del: of_nat_add of_nat_mult)
    qed
  qed (intro decodes_well_error, unfold decodeUTF8Sequence_def byte_at_terminated, use assms z in \<open>simp add: Let_def\<close>)+
qed

lemma decode_three:
  assumes "inlineUTF8SequenceLength (bs ! 0) = 3" "bs \<noteq> []" "0 \<notin> set bs"
  shows "decodes_well bs"
proof -
  have z: "i < length bs \<Longrightarrow> bs ! i \<noteq> 0" for i using assms(3) nth_mem by metis
  consider "length bs = 1" | "length bs > 1" "bs ! 1 AND 0xC0 \<noteq> 0x80" | "length bs = 2" "bs ! 1 AND 0xC0 = 0x80"
    | "length bs > 2" "bs ! 1 AND 0xC0 = 0x80" "bs ! 2 AND 0xC0 \<noteq> 0x80"
    | "length bs > 3" "bs ! 1 AND 0xC0 = 0x80" "bs ! 2 AND 0xC0 = 0x80"
    | "length bs = 3" "bs ! 1 AND 0xC0 = 0x80" "bs ! 2 AND 0xC0 = 0x80"
    using assms(2) by (cases "length bs") (auto, linarith)
  then show ?thesis
  proof cases
    case 6
    have u: "0xE0 \<le> unat (bs ! 0)" "unat (bs ! 0) < 0xE0 + 16"
      using assms(1) by (auto simp: inlineUTF8SequenceLength_def isASCII_def sequence_length split: if_splits)
    obtain x0 where x0: "x0 < 16" "bs ! 0 = of_nat (0xE0 + x0)" by (rule byte_numberE [OF u])
    obtain x1 where x1: "x1 < 64" "bs ! 1 = of_nat (0x80 + x1)" by (rule trailing_payload [OF 6(2)])
    obtain x2 where x2: "x2 < 64" "bs ! 2 = of_nat (0x80 + x2)" by (rule trailing_payload [OF 6(3)])
    have bs: "bs = [of_nat (0xE0 + x0), of_nat (0x80 + x1), of_nat (0x80 + x2)]"
      using 6(1) x0 x1 x2 by (intro nth_equalityI) (auto simp: less_Suc_eq numeral_2_eq_2 numeral_3_eq_3 nth_Cons' simp del: of_nat_add)
    let ?c = "(x0 * 64 + x1) * 64 + x2"
    have v: "bits_at 12 (bs ! 0 AND 0xF) OR bits_at 6 (bs ! 1 AND 0x3F) OR bits_at 0 (bs ! 2 AND 0x3F) = of_nat ?c"
      unfolding x0(2) x1(2) x2(2) using x0(1) x1(1) x2(1) by (simp only: bits_at_payload join_payloads(2))
    show ?thesis
    proof (cases "(x0 = 0 \<longrightarrow> 32 \<le> x1) \<and> (x0 = 13 \<longrightarrow> x1 < 32)")
      case True
      then show ?thesis using utf8_char.three [OF x0(1) x1(1) x2(1)] decodes_well_char assms(3) bs by metis
    next
      case False
      then have "?c < 0x800 \<or> 0xD800 \<le> ?c \<and> ?c \<le> 0xDFFF" using x1(1) x2(1) by auto
      then have "(of_nat ?c :: u32) < 0x800 \<or> 0xD800 \<le> (of_nat ?c :: u32) \<and> (of_nat ?c :: u32) \<le> 0xDFFF"
        by (auto simp: byte_order simp del: of_nat_add of_nat_mult)
      then show ?thesis using 6 v assms(1)
        by (intro decodes_well_error) (unfold decodeUTF8Sequence_def byte_at_terminated, auto simp: Let_def simp del: of_nat_add of_nat_mult)
    qed
  qed (intro decodes_well_error, unfold decodeUTF8Sequence_def byte_at_terminated, use assms z in \<open>simp add: Let_def\<close>)+
qed

lemma decode_four:
  assumes "inlineUTF8SequenceLength (bs ! 0) = 4" "bs \<noteq> []" "0 \<notin> set bs"
  shows "decodes_well bs"
proof -
  have z: "i < length bs \<Longrightarrow> bs ! i \<noteq> 0" for i using assms(3) nth_mem by metis
  consider "length bs = 1" | "length bs > 1" "bs ! 1 AND 0xC0 \<noteq> 0x80" | "length bs = 2" "bs ! 1 AND 0xC0 = 0x80"
    | "length bs > 2" "bs ! 1 AND 0xC0 = 0x80" "bs ! 2 AND 0xC0 \<noteq> 0x80"
    | "length bs = 3" "bs ! 1 AND 0xC0 = 0x80" "bs ! 2 AND 0xC0 = 0x80"
    | "length bs > 3" "bs ! 1 AND 0xC0 = 0x80" "bs ! 2 AND 0xC0 = 0x80" "bs ! 3 AND 0xC0 \<noteq> 0x80"
    | "length bs > 4" "bs ! 1 AND 0xC0 = 0x80" "bs ! 2 AND 0xC0 = 0x80" "bs ! 3 AND 0xC0 = 0x80"
    | "length bs = 4" "bs ! 1 AND 0xC0 = 0x80" "bs ! 2 AND 0xC0 = 0x80" "bs ! 3 AND 0xC0 = 0x80"
    using assms(2) by (cases "length bs") (auto, linarith)
  then show ?thesis
  proof cases
    case 8
    have u: "0xF0 \<le> unat (bs ! 0)" "unat (bs ! 0) < 0xF0 + 8"
      using assms(1) by (auto simp: inlineUTF8SequenceLength_def isASCII_def sequence_length split: if_splits)
    obtain x0 where x0: "x0 < 8" "bs ! 0 = of_nat (0xF0 + x0)" by (rule byte_numberE [OF u])
    obtain x1 where x1: "x1 < 64" "bs ! 1 = of_nat (0x80 + x1)" by (rule trailing_payload [OF 8(2)])
    obtain x2 where x2: "x2 < 64" "bs ! 2 = of_nat (0x80 + x2)" by (rule trailing_payload [OF 8(3)])
    obtain x3 where x3: "x3 < 64" "bs ! 3 = of_nat (0x80 + x3)" by (rule trailing_payload [OF 8(4)])
    have bs: "bs = [of_nat (0xF0 + x0), of_nat (0x80 + x1), of_nat (0x80 + x2), of_nat (0x80 + x3)]"
      using four_bytes [OF 8(1)] unfolding x0(2) x1(2) x2(2) x3(2) .
    let ?c = "((x0 * 64 + x1) * 64 + x2) * 64 + x3"
    have v: "bits_at 18 (bs ! 0 AND 0x7) OR bits_at 12 (bs ! 1 AND 0x3F) OR bits_at 6 (bs ! 2 AND 0x3F) OR bits_at 0 (bs ! 3 AND 0x3F) = of_nat ?c"
      unfolding x0(2) x1(2) x2(2) x3(2) using x0(1) x1(1) x2(1) x3(1) by (simp only: bits_at_payload join_payloads(3))
    show ?thesis
    proof (cases "x0 < 5 \<and> (x0 = 0 \<longrightarrow> 16 \<le> x1) \<and> (x0 = 4 \<longrightarrow> x1 < 16)")
      case True
      then show ?thesis using utf8_char.four [OF _ x1(1) x2(1) x3(1), of x0] decodes_well_char assms(3) bs by metis
    next
      case False
      then have "?c < 0x10000 \<or> 0x10FFFF < ?c" "?c < 2097152" using x0(1) x1(1) x2(1) x3(1) by auto
      then have "(of_nat ?c :: u32) < 0x10000 \<or> 0x10FFFF < (of_nat ?c :: u32)"
        by (auto simp: byte_order simp del: of_nat_add of_nat_mult)
      then show ?thesis using 8 v assms(1)
        by (intro decodes_well_error) (unfold decodeUTF8Sequence_def byte_at_terminated, auto simp: Let_def simp del: of_nat_add of_nat_mult)
    qed
  qed (intro decodes_well_error, unfold decodeUTF8Sequence_def byte_at_terminated, use assms z in \<open>simp add: Let_def\<close>)+
qed

lemma decode_all:
  assumes "bs \<noteq> []" "0 \<notin> set bs"
  shows "decodes_well bs"
proof -
  have z: "i < length bs \<Longrightarrow> bs ! i \<noteq> 0" for i using assms(2) nth_mem by metis
  consider "inlineUTF8SequenceLength (bs ! 0) = 0" | "inlineUTF8SequenceLength (bs ! 0) = 1" | "inlineUTF8SequenceLength (bs ! 0) = 2"
    | "inlineUTF8SequenceLength (bs ! 0) = 3" | "inlineUTF8SequenceLength (bs ! 0) = 4"
    using sequence_length [of "bs ! 0"] by (cases "isASCII (unat (bs ! 0))") (auto simp: inlineUTF8SequenceLength_def split: if_splits)
  then show ?thesis
  proof cases
    case 1
    have "byte_at (bs @ [0]) 0 = Some (bs ! 0)" using assms(1) by (simp add: byte_at_terminated)
    then show ?thesis using 1 by (intro decodes_well_error) (unfold decodeUTF8Sequence_def, simp)
  next
    case 2
    then have u: "unat (bs ! 0) < 128"
      by (auto simp: inlineUTF8SequenceLength_def isASCII_def sequence_length split: if_splits)
    show ?thesis
    proof (cases "length bs = 1")
      case True
      then have "bs = [of_nat (unat (bs ! 0))]" by (cases bs) simp_all
      then show ?thesis using utf8_char.one [OF u] decodes_well_char assms(2) by metis
    next
      case False
      then have "length bs > 1" using assms(1) by (cases bs) auto
      then have "byte_at (bs @ [0]) 0 = Some (bs ! 0)" "byte_at (bs @ [0]) 1 = Some (bs ! 1)" "bs ! 1 \<noteq> 0"
        using z [of 1] assms(1) by (simp_all add: byte_at_terminated)
      then show ?thesis using 2 by (intro decodes_well_error) (unfold decodeUTF8Sequence_def, simp)
    qed
  qed (use assms decode_two decode_three decode_four in blast)+
qed

end
