(* ===== verification/WTF_AtomicString.thy ===== *)
theory WTF_AtomicString
  imports WTF_StringUTF8_Back WTF_UTF8_Sequence
begin

text \<open>
  How the table of atomic strings looks up and makes a string from UTF-8
  (\<open>src/Source/WTF/wtf/text/AtomicString.cpp\<close>): the hash and the lengths of the bytes, the comparison
  with an entry of the table, and the string made when there is none. The hash table itself is an
  argument: it is given the hash and the comparison, and answers with the entry it found.
\<close>

record HashAndUTF8Characters =
  buffer_hash :: u32
  buffer_characters :: "u8 list"
  buffer_length :: nat
  buffer_utf16Length :: nat

text \<open>The loops that compare ASCII characters, up to the first difference; \<open>None\<close> is a failed assertion.\<close>

fun ascii_equal :: "nat list \<Rightarrow> u8 list \<Rightarrow> bool option" where
  "ascii_equal _ [] = Some True"
| "ascii_equal [] (b # bs) = None"
| "ascii_equal (c # cs) (b # bs) =
     (if \<not> isASCII (unat b) then None else if c \<noteq> unat b then Some False else ascii_equal cs bs)"

definition HashAndUTF8CharactersTranslator_equal :: "WString \<Rightarrow> HashAndUTF8Characters \<Rightarrow> bool option" where
  "HashAndUTF8CharactersTranslator_equal string buffer =
     (let bytes = take (buffer_length buffer) (buffer_characters buffer)
      in if buffer_utf16Length buffer \<noteq> string_length string then Some False
         else if buffer_utf16Length buffer \<noteq> buffer_length buffer then
           if is8Bit string then equalLatin1WithUTF8 (map of_nat (characters string)) bytes
           else equalUTF16WithUTF8 (map of_nat (characters string)) bytes
         else ascii_equal (characters string) bytes)"

definition HashAndUTF8CharactersTranslator_translate :: "HashAndUTF8Characters \<Rightarrow> WString option" where
  "HashAndUTF8CharactersTranslator_translate buffer =
     (let bytes = take (buffer_length buffer) (buffer_characters buffer);
          (result, rest, written, isAllASCII) = convertUTF8ToUTF16 True bytes (buffer_utf16Length buffer)
      in if result \<noteq> conversionOK then None
         else if isAllASCII then Some (WString True (map unat bytes))
         else Some (WString False (map unat written)))"

text \<open>
  \<open>table\<close> stands for the lookup in the table of atomic strings; the result is the null atom if the
  bytes are not UTF-8, and otherwise the entry, or the new string. With \<open>bounded = False\<close> the bytes
  are those before the terminating zero.
\<close>

definition fromUTF8Internal ::
  "(u32 \<Rightarrow> (WString \<Rightarrow> bool option) \<Rightarrow> WString option) \<Rightarrow> u8 list option \<Rightarrow> bool \<Rightarrow> nat \<Rightarrow> nat \<Rightarrow> WString option" where
  "fromUTF8Internal table chars bounded len8 len16 =
     (let (hash, dataLength, utf16Length) = calculateStringHashAndLengthFromUTF8MaskingTop8Bits chars bounded len8 len16;
          buffer = \<lparr>buffer_hash = hash, buffer_characters = the chars, buffer_length = dataLength, buffer_utf16Length = utf16Length\<rparr>
      in if hash = 0 then Some NullString
         else case table hash (\<lambda>s. HashAndUTF8CharactersTranslator_equal s buffer) of
           Some s \<Rightarrow> Some s
         | None \<Rightarrow> HashAndUTF8CharactersTranslator_translate buffer)"

section \<open>The buffer of well-formed bytes\<close>

definition buffer_of :: "nat list \<Rightarrow> HashAndUTF8Characters" where
  "buffer_of cs = \<lparr>buffer_hash = computeHashAndMaskTop8Bits (utf16s cs), buffer_characters = utf8s cs,
     buffer_length = length (utf8s cs), buffer_utf16Length = length (utf16s cs)\<rparr>"

lemma calculated:
  assumes "list_all scalar_value cs" "bounded \<or> 0 \<notin> set cs"
  shows "calculateStringHashAndLengthFromUTF8MaskingTop8Bits (Some (utf8s cs)) bounded len8 len16 =
    (computeHashAndMaskTop8Bits (utf16s cs), length (utf8s cs), length (utf16s cs))"
  using hash_well_formed [OF assms, of new_StringHasher "[]" 0 0]
  by (simp add: calculateStringHashAndLengthFromUTF8MaskingTop8Bits_def)

lemma hash_not_zero: "computeHashAndMaskTop8Bits us \<noteq> 0"
  unfolding computeHashAndMaskTop8Bits_def hashWithTop8BitsMasked_def flagCount_def Let_def by (simp add: drop_bit_eq_div)

lemma ascii_lengths:
  assumes "list_all scalar_value cs"
  shows "length (utf16s cs) = length (utf8s cs) \<longleftrightarrow> list_all (\<lambda>c. c < 0x80) cs"
proof
  show "length (utf16s cs) = length (utf8s cs) \<Longrightarrow> list_all (\<lambda>c. c < 0x80) cs" using utf16s_less [of cs] by fastforce
  show "list_all (\<lambda>c. c < 0x80) cs \<Longrightarrow> length (utf16s cs) = length (utf8s cs)" using ascii_units [of cs] by (metis length_map)
qed

lemma ascii_equal_correct:
  assumes "list_all (\<lambda>b. unat b < 128) bs" "length cs = length bs"
  shows "ascii_equal cs bs = Some (cs = map unat bs)"
  using assms by (induction cs bs rule: ascii_equal.induct) (auto simp: isASCII_def)

text \<open>The comparison is right for strings of 16 bits, and for those of 8 bits if the characters are Latin-1.\<close>

lemma equal_correct:
  assumes "list_all scalar_value cs" "string_ok s" "is8Bit s \<longrightarrow> list_all (\<lambda>c. c < 256) cs"
  shows "HashAndUTF8CharactersTranslator_equal s (buffer_of cs) = Some (characters s = map unat (utf16s cs))"
proof (cases "length (utf16s cs) = string_length s")
  case False
  then have "characters s \<noteq> map unat (utf16s cs)" by (auto simp: string_length_def)
  then show ?thesis using False by (simp add: HashAndUTF8CharactersTranslator_equal_def buffer_of_def)
next
  case len: True
  show ?thesis
  proof (cases "list_all (\<lambda>c. c < 0x80) cs")
    case True
    have "list_all (\<lambda>b. unat b < 128) (utf8s cs)" using True utf8s_high [OF assms(1)] by simp
    moreover have "length (characters s) = length (utf8s cs)" using len ascii_lengths [OF assms(1)] True by (simp add: string_length_def)
    moreover have "map unat (utf8s cs) = map unat (utf16s cs)" using ascii_units [OF True] by simp
    ultimately have "ascii_equal (characters s) (utf8s cs) = Some (characters s = map unat (utf16s cs))"
      using ascii_equal_correct [of "utf8s cs" "characters s"] by metis
    then show ?thesis using len True ascii_lengths [OF assms(1)]
      by (simp add: HashAndUTF8CharactersTranslator_equal_def buffer_of_def)
  next
    case False
    then have ne: "length (utf16s cs) \<noteq> length (utf8s cs)" using ascii_lengths [OF assms(1)] by simp
    show ?thesis
    proof (cases "is8Bit s")
      case True
      then have c: "list_all (\<lambda>c. c < 256) cs" "list_all (\<lambda>c. c < 256) (characters s)" using assms(2,3) by (simp_all add: string_ok_def)
      note l = latin1_chars [OF c(1) order.refl]
      have "map unat (map of_nat (characters s) :: u8 list) = characters s" using c(2) by (auto simp: list_all_iff intro!: map_idI)
      moreover have "map unat (utf16s cs) = cs" unfolding l(2) [symmetric] using c(1) by (auto simp: list_all_iff intro!: map_idI)
      moreover have "length (utf16s cs) = length cs" using l(2) by (metis length_map)
      ultimately show ?thesis using equalLatin1_below_256 [OF c(1), of "map of_nat (characters s)"] len ne True
        by (simp add: HashAndUTF8CharactersTranslator_equal_def buffer_of_def string_length_def)
    next
      case wide: False
      then have c: "list_all (\<lambda>c. c < 65536) (characters s)" using assms(2) by (simp add: string_ok_def)
      have "map of_nat (characters s) = utf16s cs \<longleftrightarrow> characters s = map unat (utf16s cs)"
      proof
        have "map unat (map of_nat (characters s) :: u16 list) = characters s" using c by (auto simp: list_all_iff intro!: map_idI)
        then show "map of_nat (characters s) = utf16s cs \<Longrightarrow> characters s = map unat (utf16s cs)" by metis
        show "characters s = map unat (utf16s cs) \<Longrightarrow> map of_nat (characters s) = utf16s cs" by (simp add: map_idI)
      qed
      then show ?thesis using equalUTF16_well_formed [OF assms(1), of "map of_nat (characters s)"] len ne wide
        by (simp add: HashAndUTF8CharactersTranslator_equal_def buffer_of_def string_length_def)
    qed
  qed
qed

lemma translate_correct:
  assumes "list_all scalar_value cs"
  shows "\<exists>b. HashAndUTF8CharactersTranslator_translate (buffer_of cs) = Some (WString b (map unat (utf16s cs)))"
  using convertUTF8_well_formed [OF assms order.refl, of True] ascii_units [of cs]
  by (auto simp: HashAndUTF8CharactersTranslator_translate_def buffer_of_def)

end
