(* ===== verification/WTF_UTF8_Props.thy ===== *)
theory WTF_UTF8_Props
  imports WTF_AtomicString
begin

text \<open>
  The properties of the conversions to and from UTF-8: exactness, round trip, and what goes wrong with
  malformed bytes and with the comparison of Latin-1.
\<close>

section \<open>Conversions\<close>

text \<open>
  C20. The strict conversion from UTF-16 converts well-formed characters, one by one, never writes more
  than there is room for, and stops for the reason it gives: at the end, before a high surrogate that
  is the last unit, before a character that does not fit, or before an unpaired surrogate. Latin-1 is
  converted like the same characters in UTF-16.
\<close>

theorem convertUTF16ToUTF8_exact:
  "converts16 source room (convertUTF16ToUTF8 True source room) \<and>
   (case convertLatin1ToUTF8 latin1 room of (result, rest, written) \<Rightarrow> (result, map ucast rest, written)) =
     convertUTF16ToUTF8 strict (map ucast latin1) room"
  using convertUTF16_strict latin1_is_utf16 by blast

text \<open>
  C19. The conversion from UTF-8 converts well-formed characters, one by one, never writes more than
  there is room for, reports whether all were ASCII, and stops for the reason it gives: at the end, in
  the middle of a sequence, before a character that does not fit, or before bytes that are no character.
  The bytes must have no ASCII character right behind \<open>0xED\<close> or \<open>0xF4\<close>.
\<close>

theorem convertUTF8ToUTF16_exact:
  assumes "trailed source"
  shows "converts8 source room (convertUTF8ToUTF16 strict source room)"
  by (rule convertUTF8_converts [OF assms])

lemma convertUTF8ToUTF16_exact_witness:
  "converts8 [0xE2, 0x82, 0xAC, 0xC0] 5 (convertUTF8ToUTF16 True [0xE2, 0x82, 0xAC, 0xC0] 5)"
  by (rule convertUTF8ToUTF16_exact) (simp add: open_lead_def)

text \<open>
  C32. The bytes that pass for a sequence are the well-formed ones and, because the second byte is not
  tested against its lower bound behind \<open>0xED\<close> and \<open>0xF4\<close>, those with an ASCII character there. So the
  three bytes of \<open>0xED\<close>, a quotation mark and \<open>0x80\<close> become one character, and the mark is lost.
\<close>

theorem malformed_sequences_pass:
  "(source \<noteq> [] \<and> n = inlineUTF8SequenceLength (hd source) \<and> n \<le> length source \<longrightarrow>
     (isLegalUTF8 source n \<longleftrightarrow> (\<exists>c. utf8_char c (take n source) \<or> utf8_slip c (take n source)))) \<and>
   convertUTF8ToUTF16 True [0xED, 0x22, 0x80] 3 = (conversionOK, [], [0xB880], False) \<and>
   (\<nexists>cs. list_all scalar_value cs \<and> [0xED, 0x22, 0x80] = utf8s cs)"
proof (intro conjI)
  show "source \<noteq> [] \<and> n = inlineUTF8SequenceLength (hd source) \<and> n \<le> length source \<longrightarrow>
     (isLegalUTF8 source n \<longleftrightarrow> (\<exists>c. utf8_char c (take n source) \<or> utf8_slip c (take n source)))"
  proof (intro impI iffI)
    assume a: "source \<noteq> [] \<and> n = inlineUTF8SequenceLength (hd source) \<and> n \<le> length source" and l: "isLegalUTF8 source n"
    show "\<exists>c. utf8_char c (take n source) \<or> utf8_slip c (take n source)"
      by (rule legal_cases [OF l]) (use a in blast)+
  next
    assume a: "source \<noteq> [] \<and> n = inlineUTF8SequenceLength (hd source) \<and> n \<le> length source"
      and "\<exists>c. utf8_char c (take n source) \<or> utf8_slip c (take n source)"
    then obtain c where c: "utf8_char c (take n source) \<or> utf8_slip c (take n source)" by blast
    have "take n source @ drop n source = source" "length (take n source) = n" using a by simp_all
    then show "isLegalUTF8 source n"
      using c utf8_char_legal [of c "take n source" "drop n source"] utf8_slip_legal [of c "take n source" "drop n source"] by metis
  qed
  show "convertUTF8ToUTF16 True [0xED, 0x22, 0x80] 3 = (conversionOK, [], [0xB880], False)" by code_simp
  show "\<nexists>cs. list_all scalar_value cs \<and> [0xED, 0x22, 0x80] = utf8s cs"
  proof
    assume "\<exists>cs. list_all scalar_value cs \<and> [0xED, 0x22, 0x80] = utf8s cs"
    then obtain c cs where c: "scalar_value c" "[0xED, 0x22, 0x80] = utf8 c @ utf8s cs"
      by (metis list.distinct(1) list.exhaust list.pred_inject(2) utf8s_simps(1,2))
    have "inlineUTF8SequenceLength 0xED = 3" by code_simp
    moreover have "hd (utf8 c @ utf8s cs) = 0xED" by (simp add: c(2) [symmetric])
    ultimately have "length (utf8 c) = 3" using utf8_head(1) [OF c(1), of "utf8s cs"] by simp
    then have "utf8 c = take 3 (utf8 c @ utf8s cs)" by simp
    also have "\<dots> = [0xED, 0x22, 0x80]" by (simp add: c(2) [symmetric])
    finally have "utf8_char c [0xED, 0x22, 0x80]" using utf8_is_char [OF c(1)] by simp
    then have "0x80 \<le> unat ([0xED, 0x22, 0x80 :: u8] ! 1)" by (rule trailing_byte) simp_all
    then show False by simp
  qed
qed

lemma malformed_sequences_pass_witness:
  "isLegalUTF8 [0xC3, 0xA9] 2 \<longleftrightarrow> (\<exists>c. utf8_char c [0xC3, 0xA9] \<or> utf8_slip c [0xC3, 0xA9])"
proof -
  have "inlineUTF8SequenceLength 0xC3 = 2" by code_simp
  then show ?thesis using malformed_sequences_pass [of "[0xC3, 0xA9]" 2] by simp
qed

text \<open>
  C33. The conversion from UTF-8 does the same whether it is strict or lenient, for all bytes, although
  the lenient one should convert isolated surrogates, and the lenient conversion from UTF-16 writes them.
\<close>

theorem lenient_is_strict:
  "convertUTF8ToUTF16 False source room = convertUTF8ToUTF16 True source room \<and>
   convertUTF16ToUTF8 False [0xD800, 0x41] 6 = (conversionOK, [], [0xED, 0xA0, 0x80, 0x41]) \<and>
   convertUTF8ToUTF16 False [0xED, 0xA0, 0x80, 0x41] 4 = (sourceIllegal, [0xED, 0xA0, 0x80, 0x41], [], True)"
proof (intro conjI)
  show "convertUTF8ToUTF16 False source room = convertUTF8ToUTF16 True source room"
    by (simp add: convertUTF8ToUTF16_def loop_lenient)
  show "convertUTF16ToUTF8 False [0xD800, 0x41] 6 = (conversionOK, [], [0xED, 0xA0, 0x80, 0x41])" by code_simp
  show "convertUTF8ToUTF16 False [0xED, 0xA0, 0x80, 0x41] 4 = (sourceIllegal, [0xED, 0xA0, 0x80, 0x41], [], True)" by code_simp
qed

text \<open>
  C24. \<open>decodeUTF8Sequence\<close> returns the character of a well-formed sequence, and \<open>- 1\<close> for every other
  one that is not empty, without a read behind the terminating zero.
\<close>

theorem decodeUTF8Sequence_exact:
  assumes "bytes \<noteq> []" "0 \<notin> set bytes"
  shows "(\<exists>c. scalar_value c \<and> bytes = utf8 c \<and> decodeUTF8Sequence (bytes @ [0]) = Some (int c)) \<or>
    (\<nexists>c. scalar_value c \<and> bytes = utf8 c) \<and> decodeUTF8Sequence (bytes @ [0]) = Some (- 1)"
proof (cases "\<exists>c. utf8_char c bytes")
  case True
  then obtain c where c: "utf8_char c bytes" by blast
  then show ?thesis using utf8_char_utf8 [OF c] decode_char [OF c assms(2)] by blast
next
  case False
  then have "\<nexists>c. scalar_value c \<and> bytes = utf8 c" using utf8_is_char by blast
  then show ?thesis using False decode_all [OF assms] unfolding decodes_well_def by blast
qed

lemma decodeUTF8Sequence_exact_witness:
  "(\<exists>c. scalar_value c \<and> [0xC0, 0x80] = utf8 c \<and> decodeUTF8Sequence [0xC0, 0x80, 0] = Some (int c)) \<or>
    (\<nexists>c. scalar_value c \<and> [0xC0, 0x80] = utf8 c) \<and> decodeUTF8Sequence [0xC0, 0x80, 0] = Some (- 1)"
  using decodeUTF8Sequence_exact [of "[0xC0, 0x80]"] by simp

section \<open>Strings\<close>

text \<open>
  C18. The three modes of \<open>StringImpl::utf8\<close> never fail an assertion, so the buffer of three bytes for
  each unit is enough, and encode the code points of the string: with unpaired surrogates replaced by
  U+FFFD, with unpaired surrogates as they are, or, strictly, only if there are none.
\<close>

theorem utf8_modes:
  assumes "int (length source) \<le> 4294967295 div 3"
  shows "utf8ForCharacters source StrictConversionReplacingUnpairedSurrogatesWithFFFD = Some (Some (utf8s (code_points (\<lambda>_. 0xFFFD) source))) \<and>
    utf8ForCharacters source LenientConversion = Some (Some (utf8s (code_points (\<lambda>c. c) source))) \<and>
    utf8ForCharacters source StrictConversion = Some (if well_formed16 source then Some (utf8s (code_points (\<lambda>c. c) source)) else None)"
  using utf8ForCharacters_modes [OF assms] by blast

lemma utf8_modes_witness:
  "utf8ForCharacters [0x61, 0xD800, 0x62] StrictConversionReplacingUnpairedSurrogatesWithFFFD = Some (Some (utf8s [0x61, 0xFFFD, 0x62]))"
  using utf8_modes [of "[0x61, 0xD800, 0x62]"] by (simp add: single_def high_surrogate_def low_surrogate_def)

text \<open>
  C17. A string without unpaired surrogates, in 8 or 16 bits, is converted to UTF-8, and
  \<open>String::fromUTF8\<close> makes an equal string of the bytes, wherever they are in memory.
\<close>

theorem utf8_roundtrip:
  assumes "string_ok s" "s \<noteq> NullString" "int (string_length s) \<le> 4294967295 div 3"
    and "is8Bit s \<or> well_formed16 (map of_nat (characters s))"
  shows "\<exists>bytes t. string_utf8 s StrictConversion = Some (Some bytes) \<and> fromUTF8 address (Some bytes) = Some t \<and> string_equal t s"
proof -
  obtain cs where cs: "list_all scalar_value cs" "string_utf8 s StrictConversion = Some (Some (utf8s cs))" "characters s = map unat (utf16s cs)"
    "length (utf8s cs) \<le> 3 * string_length s"
    using string_utf8_strict [OF assms] by blast
  have "int (length (utf8s cs)) \<le> 4294967295" using cs(4) assms(3) by linarith
  then obtain b where "fromUTF8 address (Some (utf8s cs)) = Some (WString b (map unat (utf16s cs)))"
    using fromUTF8_well_formed [OF cs(1)] by blast
  moreover have "string_equal (WString b (map unat (utf16s cs))) s" using cs(3) assms(2) by (cases s) auto
  ultimately show ?thesis using cs(2) by blast
qed

lemma utf8_roundtrip_witness:
  "\<exists>bytes t. string_utf8 (WString True [0x63, 0xE9]) StrictConversion = Some (Some bytes) \<and>
    fromUTF8 3 (Some bytes) = Some t \<and> string_equal t (WString True [0x63, 0xE9])"
  by (rule utf8_roundtrip) (simp_all add: string_ok_def string_length_def)

section \<open>Hash and table of atomic strings\<close>

text \<open>
  C22. The hash of bytes is not zero if and only if they are well-formed, given that no ASCII character
  is behind \<open>0xED\<close> or \<open>0xF4\<close>, and then it is the hash of the string in UTF-16, with its length and
  that of the bytes.
\<close>

theorem utf8_hash_exact:
  assumes "trailed data"
  shows "(\<exists>cs. list_all scalar_value cs \<and> data = utf8s cs \<and>
      calculateStringHashAndLengthFromUTF8MaskingTop8Bits (Some data) True len8 len16 =
        (computeHashAndMaskTop8Bits (utf16s cs), length data, length (utf16s cs)) \<and> computeHashAndMaskTop8Bits (utf16s cs) \<noteq> 0) \<or>
    (\<nexists>cs. list_all scalar_value cs \<and> data = utf8s cs) \<and>
      fst (calculateStringHashAndLengthFromUTF8MaskingTop8Bits (Some data) True len8 len16) = 0"
proof (cases "\<exists>cs. list_all scalar_value cs \<and> data = utf8s cs")
  case True
  then show ?thesis using calculated hash_not_zero by blast
next
  case False
  then show ?thesis using hash_malformed [OF assms False, of new_StringHasher 0 0]
    by (simp add: calculateStringHashAndLengthFromUTF8MaskingTop8Bits_def)
qed

lemma utf8_hash_exact_witness:
  "(\<exists>cs. list_all scalar_value cs \<and> [0x61] = utf8s cs \<and>
      calculateStringHashAndLengthFromUTF8MaskingTop8Bits (Some [0x61]) True 0 0 =
        (computeHashAndMaskTop8Bits (utf16s cs), 1, length (utf16s cs)) \<and> computeHashAndMaskTop8Bits (utf16s cs) \<noteq> 0) \<or>
    (\<nexists>cs. list_all scalar_value cs \<and> [0x61] = utf8s cs) \<and>
      fst (calculateStringHashAndLengthFromUTF8MaskingTop8Bits (Some [0x61]) True 0 0) = 0"
proof -
  have "trailed [0x61]" by code_simp
  then show ?thesis using utf8_hash_exact [of "[0x61]" 0 0] by simp
qed

text \<open>
  C21. \<open>AtomicString::fromUTF8\<close> gives the string of well-formed bytes, if the table only answers with
  entries that the comparison accepts, and these are of 16 bits, or the characters are Latin-1.
\<close>

theorem atomic_string_from_utf8:
  assumes "list_all scalar_value cs"
    and "\<forall>h equal s. table h equal = Some s \<longrightarrow> equal s = Some True \<and> string_ok s \<and> (is8Bit s \<longrightarrow> list_all (\<lambda>c. c < 256) cs)"
  shows "\<exists>s. fromUTF8Internal table (Some (utf8s cs)) True len8 len16 = Some s \<and> characters s = map unat (utf16s cs)"
proof -
  let ?equal = "\<lambda>s. HashAndUTF8CharactersTranslator_equal s (buffer_of cs)"
  let ?h = "computeHashAndMaskTop8Bits (utf16s cs)"
  have e: "fromUTF8Internal table (Some (utf8s cs)) True len8 len16 =
    (case table ?h ?equal of Some s \<Rightarrow> Some s | None \<Rightarrow> HashAndUTF8CharactersTranslator_translate (buffer_of cs))"
    using calculated [OF assms(1), of True len8 len16] hash_not_zero
    by (simp add: fromUTF8Internal_def buffer_of_def Let_def split: option.split)
  show ?thesis
  proof (cases "table ?h ?equal")
    case None
    then show ?thesis using translate_correct [OF assms(1)] e by auto
  next
    case (Some s)
    then have "?equal s = Some True" "string_ok s" "is8Bit s \<longrightarrow> list_all (\<lambda>c. c < 256) cs" using assms(2) by blast+
    then show ?thesis using equal_correct [OF assms(1), of s] Some e by auto
  qed
qed

lemma atomic_string_from_utf8_witness:
  "\<exists>s. fromUTF8Internal (\<lambda>_ _. None) (Some (utf8s [0x1A9])) True 0 0 = Some s \<and> characters s = map unat (utf16s [0x1A9])"
  by (rule atomic_string_from_utf8) (simp_all add: scalar_value_def)

text \<open>
  C31. The comparison with a string of 8 bits cuts the characters to eight bits: the letter U+01A9 is
  taken for U+00A9, so if the lookup meets the entry of the copyright sign, the string from the UTF-8
  of the letter is the copyright sign.
\<close>

theorem latin1_comparison_truncates:
  assumes "0x100 \<le> c" "c < 0x800" "0x80 \<le> c mod 256"
  shows "fromUTF8Internal (\<lambda>_ equal. if equal (WString True [c mod 256]) = Some True then Some (WString True [c mod 256]) else None)
    (Some (utf8 c)) True len8 len16 = Some (WString True [c mod 256])"
proof -
  have c: "list_all scalar_value [c]" using assms(2) by (simp add: scalar_value_def)
  have "unat (of_nat (c mod 256) :: u8) = c mod 256" by simp
  then have "equalLatin1WithUTF8 [of_nat (c mod 256)] (utf8 c @ []) = Some True"
    using equalLatin1_step [of c "of_nat (c mod 256)" "[]" "[]"] assms by simp
  moreover have "length (utf16 c) = 1" "length (utf8 c) = 2" using assms(1,2) by (simp_all add: utf16_def utf8_def)
  ultimately have "HashAndUTF8CharactersTranslator_equal (WString True [c mod 256]) (buffer_of [c]) = Some True"
    by (simp add: HashAndUTF8CharactersTranslator_equal_def buffer_of_def string_length_def)
  then show ?thesis using calculated [OF c, of True len8 len16] hash_not_zero by (simp add: fromUTF8Internal_def buffer_of_def Let_def)
qed

lemma latin1_comparison_truncates_witness:
  "fromUTF8Internal (\<lambda>_ equal. if equal (WString True [0xA9]) = Some True then Some (WString True [0xA9]) else None)
    (Some (utf8 0x1A9)) True 0 0 = Some (WString True [0xA9])"
proof -
  have "(0x1A9::nat) mod 256 = 0xA9" by simp
  then show ?thesis using latin1_comparison_truncates [of "0x1A9" 0 0, unfolded \<open>0x1A9 mod 256 = 0xA9\<close>] by simp
qed

end
