(* ===== verification/WTF_HashTable.thy ===== *)
theory WTF_HashTable
  imports CE_Prelude
begin

text \<open>
  The hash table behind all sets and maps of the engine (\<open>src/Source/WTF/wtf/HashTable.h\<close>): open
  addressing with double hashing. A bucket holds the empty value, the deleted value or an entry; what
  these are, and how keys are hashed and compared, comes from the template parameters, here the record
  \<open>HashTraits\<close>. An address of a bucket is its index, the null pointer is \<open>None\<close>.

  \<open>None\<close> as the result of an operation is a failed assertion, an access outside the table, or a loop
  that does not end. Iterators are checked only in debug builds and that is not modelled.
\<close>

section \<open>Template parameters\<close>

record ('k, 'v) HashTraits =
  extractKey :: "'v \<Rightarrow> 'k"
  hashOf :: "'k \<Rightarrow> u32"
  keysEqual :: "'k \<Rightarrow> 'k \<Rightarrow> bool"
  safeToCompareToEmptyOrDeleted :: bool
  emptyValue :: 'v
  isEmptyValue :: "'k \<Rightarrow> bool"
  deletedValue :: 'v
  isDeletedValue :: "'k \<Rightarrow> bool"
  minimumTableSize :: u32

text \<open>
  A translator finds entries by something else than their key. Those that \<open>add\<close> uses have no argument
  for the hash code, and ignore it here.
\<close>

record ('k, 'v, 't, 'e) HashTranslator =
  translatorHash :: "'t \<Rightarrow> u32"
  translatorEqual :: "'k \<Rightarrow> 't \<Rightarrow> bool"
  translate :: "'t \<Rightarrow> 'e \<Rightarrow> u32 \<Rightarrow> 'v"

definition IdentityHashTranslator :: "('k, 'v) HashTraits \<Rightarrow> ('k, 'v, 'k, 'v) HashTranslator" where
  "IdentityHashTranslator T =
     \<lparr>translatorHash = hashOf T, translatorEqual = keysEqual T, translate = (\<lambda>_ value _. value)\<rparr>"

section \<open>The table\<close>

record 'v HashTable =
  m_table :: "'v list option"
  m_tableSize :: u32
  m_tableSizeMask :: u32
  m_keyCount :: u32
  m_deletedCount :: u32

definition new_HashTable :: "'v HashTable" where
  "new_HashTable = \<lparr>m_table = None, m_tableSize = 0, m_tableSizeMask = 0, m_keyCount = 0, m_deletedCount = 0\<rparr>"

definition m_maxLoad :: u32 where
  "m_maxLoad = 2"

definition m_minLoad :: u32 where
  "m_minLoad = 6"

definition isEmptyBucket :: "('k, 'v) HashTraits \<Rightarrow> 'v \<Rightarrow> bool" where
  "isEmptyBucket T value = isEmptyValue T (extractKey T value)"

definition isDeletedBucket :: "('k, 'v) HashTraits \<Rightarrow> 'v \<Rightarrow> bool" where
  "isDeletedBucket T value = isDeletedValue T (extractKey T value)"

definition isEmptyOrDeletedBucket :: "('k, 'v) HashTraits \<Rightarrow> 'v \<Rightarrow> bool" where
  "isEmptyOrDeletedBucket T value \<longleftrightarrow> isEmptyBucket T value \<or> isDeletedBucket T value"

definition shouldExpand :: "'v HashTable \<Rightarrow> bool" where
  "shouldExpand t \<longleftrightarrow> (m_keyCount t + m_deletedCount t) * m_maxLoad \<ge> m_tableSize t"

definition mustRehashInPlace :: "'v HashTable \<Rightarrow> bool" where
  "mustRehashInPlace t \<longleftrightarrow> m_keyCount t * m_minLoad < m_tableSize t * 2"

definition shouldShrink :: "('k, 'v) HashTraits \<Rightarrow> 'v HashTable \<Rightarrow> bool" where
  "shouldShrink T t \<longleftrightarrow> m_keyCount t * m_minLoad < m_tableSize t \<and> m_tableSize t > minimumTableSize T"

definition doubleHash :: "u32 \<Rightarrow> u32" where
  "doubleHash key =
     (let key = NOT key + drop_bit 23 key;
          key = key XOR push_bit 12 key;
          key = key XOR drop_bit 7 key;
          key = key XOR push_bit 2 key
      in key XOR drop_bit 20 key)"

definition next_step :: "u32 \<Rightarrow> u32 \<Rightarrow> u32" where
  "next_step h k = (if k = 0 then 1 OR doubleHash h else k)"

text \<open>The assertions on keys that are looked up.\<close>

definition checkKey :: "('k, 'v) HashTraits \<Rightarrow> ('k, 'v, 't, 'e) HashTranslator \<Rightarrow> 't \<Rightarrow> bool" where
  "checkKey T tr key \<longleftrightarrow> safeToCompareToEmptyOrDeleted T \<longrightarrow>
     \<not> translatorEqual tr (extractKey T (emptyValue T)) key \<and> \<not> translatorEqual tr (extractKey T (deletedValue T)) key"

section \<open>Looking up\<close>

definition bucket :: "'v list \<Rightarrow> u32 \<Rightarrow> 'v option" where
  "bucket table i = (if unat i < length table then Some (table ! unat i) else None)"

partial_function (option) lookup_loop ::
  "('k, 'v) HashTraits \<Rightarrow> ('k, 'v, 't, 'e) HashTranslator \<Rightarrow> 't \<Rightarrow> 'v list \<Rightarrow> u32 \<Rightarrow> u32 \<Rightarrow> u32 \<Rightarrow> u32 \<Rightarrow> u32 option option" where
  "lookup_loop T tr key table sizeMask h i k =
     (case bucket table i of None \<Rightarrow> None | Some entry \<Rightarrow>
      if (if safeToCompareToEmptyOrDeleted T then translatorEqual tr (extractKey T entry) key
          else \<not> isEmptyBucket T entry \<and> \<not> isDeletedBucket T entry \<and> translatorEqual tr (extractKey T entry) key)
      then Some (Some i)
      else if isEmptyBucket T entry then Some None
      else lookup_loop T tr key table sizeMask h ((i + next_step h k) AND sizeMask) (next_step h k))"

definition HashTable_lookup ::
  "('k, 'v) HashTraits \<Rightarrow> ('k, 'v, 't, 'e) HashTranslator \<Rightarrow> 't \<Rightarrow> 'v HashTable \<Rightarrow> u32 option option" where
  "HashTable_lookup T tr key t =
     (if \<not> checkKey T tr key then None
      else let h = translatorHash tr key
      in case m_table t of
           None \<Rightarrow> Some None
         | Some table \<Rightarrow> lookup_loop T tr key table (m_tableSizeMask t) h (h AND m_tableSizeMask t) 0)"

text \<open>
  The loop of the three functions that look for a place to write: where it stopped, whether the key
  was found there, and the last deleted bucket it has met.
\<close>

partial_function (option) write_loop ::
  "('k, 'v) HashTraits \<Rightarrow> ('k, 'v, 't, 'e) HashTranslator \<Rightarrow> 't \<Rightarrow> 'v list \<Rightarrow> u32 \<Rightarrow> u32 \<Rightarrow> u32 \<Rightarrow> u32 \<Rightarrow> u32 option
    \<Rightarrow> (u32 \<times> bool \<times> u32 option) option" where
  "write_loop T tr key table sizeMask h i k deletedEntry =
     (case bucket table i of None \<Rightarrow> None | Some entry \<Rightarrow>
      if isEmptyBucket T entry then Some (i, False, deletedEntry)
      else if (if safeToCompareToEmptyOrDeleted T then translatorEqual tr (extractKey T entry) key
               else \<not> isDeletedBucket T entry \<and> translatorEqual tr (extractKey T entry) key)
      then Some (i, True, deletedEntry)
      else write_loop T tr key table sizeMask h ((i + next_step h k) AND sizeMask) (next_step h k)
        (if isDeletedBucket T entry then Some i else deletedEntry))"

definition or_deleted :: "u32 \<times> bool \<times> u32 option \<Rightarrow> u32 \<times> bool" where
  "or_deleted r = (case r of (i, found, deletedEntry) \<Rightarrow>
     if found then (i, True) else (case deletedEntry of Some d \<Rightarrow> (d, False) | None \<Rightarrow> (i, False)))"

definition lookupForWriting ::
  "('k, 'v) HashTraits \<Rightarrow> ('k, 'v, 't, 'e) HashTranslator \<Rightarrow> 't \<Rightarrow> 'v HashTable \<Rightarrow> (u32 \<times> bool) option" where
  "lookupForWriting T tr key t =
     (case m_table t of None \<Rightarrow> None | Some table \<Rightarrow>
      if \<not> checkKey T tr key then None
      else let h = translatorHash tr key
      in map_option or_deleted (write_loop T tr key table (m_tableSizeMask t) h (h AND m_tableSizeMask t) 0 None))"

definition fullLookupForWriting ::
  "('k, 'v) HashTraits \<Rightarrow> ('k, 'v, 't, 'e) HashTranslator \<Rightarrow> 't \<Rightarrow> 'v HashTable \<Rightarrow> ((u32 \<times> bool) \<times> u32) option" where
  "fullLookupForWriting T tr key t =
     (case m_table t of None \<Rightarrow> None | Some table \<Rightarrow>
      if \<not> checkKey T tr key then None
      else let h = translatorHash tr key
      in map_option (\<lambda>r. (or_deleted r, h)) (write_loop T tr key table (m_tableSizeMask t) h (h AND m_tableSizeMask t) 0 None))"

text \<open>An iterator is the index of an entry, or that of the end.\<close>

definition HashTable_end :: "'v HashTable \<Rightarrow> u32" where
  "HashTable_end t = m_tableSize t"

definition HashTable_find ::
  "('k, 'v) HashTraits \<Rightarrow> ('k, 'v, 't, 'e) HashTranslator \<Rightarrow> 't \<Rightarrow> 'v HashTable \<Rightarrow> u32 option" where
  "HashTable_find T tr key t =
     (if m_table t = None then Some (HashTable_end t)
      else map_option (\<lambda>entry. case entry of None \<Rightarrow> HashTable_end t | Some i \<Rightarrow> i) (HashTable_lookup T tr key t))"

definition HashTable_contains ::
  "('k, 'v) HashTraits \<Rightarrow> ('k, 'v, 't, 'e) HashTranslator \<Rightarrow> 't \<Rightarrow> 'v HashTable \<Rightarrow> bool option" where
  "HashTable_contains T tr key t =
     (if m_table t = None then Some False else map_option (\<lambda>entry. entry \<noteq> None) (HashTable_lookup T tr key t))"

section \<open>Rehashing\<close>

definition allocateTable :: "('k, 'v) HashTraits \<Rightarrow> u32 \<Rightarrow> 'v list" where
  "allocateTable T newSize = replicate (unat newSize) (emptyValue T)"

definition set_bucket :: "u32 \<Rightarrow> 'v \<Rightarrow> 'v HashTable \<Rightarrow> 'v HashTable" where
  "set_bucket i value t = t\<lparr>m_table := map_option (\<lambda>table. table[unat i := value]) (m_table t)\<rparr>"

definition get_bucket :: "u32 \<Rightarrow> 'v HashTable \<Rightarrow> 'v option" where
  "get_bucket i t = (case m_table t of None \<Rightarrow> None | Some table \<Rightarrow> bucket table i)"

definition reinsert :: "('k, 'v) HashTraits \<Rightarrow> 'v \<Rightarrow> 'v HashTable \<Rightarrow> ('v HashTable \<times> u32) option" where
  "reinsert T entry t =
     (case lookupForWriting T (IdentityHashTranslator T) (extractKey T entry) t of
        None \<Rightarrow> None
      | Some (newEntry, found) \<Rightarrow>
          if found then None
          else case get_bucket newEntry t of
            None \<Rightarrow> None
          | Some old \<Rightarrow> if isDeletedBucket T old then None else Some (set_bucket newEntry entry t, newEntry))"

text \<open>The loop over the old table; \<open>i\<close> is the index of the first bucket of the rest.\<close>

fun rehash_loop :: "('k, 'v) HashTraits \<Rightarrow> u32 option \<Rightarrow> u32 \<Rightarrow> 'v list \<Rightarrow> 'v HashTable \<times> u32 option \<Rightarrow> ('v HashTable \<times> u32 option) option" where
  "rehash_loop T entry i [] (t, newEntry) = Some (t, newEntry)"
| "rehash_loop T entry i (old # rest) (t, newEntry) =
     (if isEmptyOrDeletedBucket T old then
        if entry = Some i then None else rehash_loop T entry (i + 1) rest (t, newEntry)
      else case reinsert T old t of
        None \<Rightarrow> None
      | Some (t, reinsertedEntry) \<Rightarrow>
          if entry = Some i then
            if newEntry \<noteq> None then None else rehash_loop T entry (i + 1) rest (t, Some reinsertedEntry)
          else rehash_loop T entry (i + 1) rest (t, newEntry))"

definition rehash :: "('k, 'v) HashTraits \<Rightarrow> u32 \<Rightarrow> u32 option \<Rightarrow> 'v HashTable \<Rightarrow> ('v HashTable \<times> u32 option) option" where
  "rehash T newTableSize entry t =
     (let oldTable = (case m_table t of None \<Rightarrow> [] | Some table \<Rightarrow> table);
          t = t\<lparr>m_tableSize := newTableSize, m_tableSizeMask := newTableSize - 1, m_table := Some (allocateTable T newTableSize)\<rparr>
      in map_option (\<lambda>(t, newEntry). (t\<lparr>m_deletedCount := 0\<rparr>, newEntry)) (rehash_loop T entry 0 oldTable (t, None)))"

definition HashTable_expand :: "('k, 'v) HashTraits \<Rightarrow> u32 option \<Rightarrow> 'v HashTable \<Rightarrow> ('v HashTable \<times> u32 option) option" where
  "HashTable_expand T entry t =
     (let newSize =
        (if m_tableSize t = 0 then minimumTableSize T
         else if mustRehashInPlace t then m_tableSize t
         else m_tableSize t * 2)
      in rehash T newSize entry t)"

definition HashTable_shrink :: "('k, 'v) HashTraits \<Rightarrow> 'v HashTable \<Rightarrow> 'v HashTable option" where
  "HashTable_shrink T t = map_option fst (rehash T (m_tableSize t div 2) None t)"

section \<open>Adding and removing\<close>

text \<open>What \<open>add\<close> does first, and what it does with the bucket it has found.\<close>

definition expand_null :: "('k, 'v) HashTraits \<Rightarrow> 'v HashTable \<Rightarrow> 'v HashTable option" where
  "expand_null T t = (if m_table t = None then map_option fst (HashTable_expand T None t) else Some t)"

definition finish_add :: "('k, 'v) HashTraits \<Rightarrow> u32 \<Rightarrow> 'v HashTable \<Rightarrow> ('v HashTable \<times> u32 option \<times> bool) option" where
  "finish_add T entry t =
     (let t = t\<lparr>m_keyCount := m_keyCount t + 1\<rparr>
      in if shouldExpand t then map_option (\<lambda>(t, entry). (t, entry, True)) (HashTable_expand T (Some entry) t)
         else Some (t, Some entry, True))"

definition HashTable_add ::
  "('k, 'v) HashTraits \<Rightarrow> ('k, 'v, 't, 'e) HashTranslator \<Rightarrow> 't \<Rightarrow> 'e \<Rightarrow> 'v HashTable \<Rightarrow> ('v HashTable \<times> u32 option \<times> bool) option" where
  "HashTable_add T tr key extra t =
     (if \<not> checkKey T tr key then None
      else case expand_null T t of None \<Rightarrow> None | Some t \<Rightarrow>
      case m_table t of None \<Rightarrow> None | Some table \<Rightarrow>
      let h = translatorHash tr key
      in case write_loop T tr key table (m_tableSizeMask t) h (h AND m_tableSizeMask t) 0 None of
           None \<Rightarrow> None
         | Some (entry, found, deletedEntry) \<Rightarrow>
             if found then Some (t, Some entry, False)
             else
               let (entry, t) = (case deletedEntry of
                     Some d \<Rightarrow> (d, (set_bucket d (emptyValue T) t)\<lparr>m_deletedCount := m_deletedCount t - 1\<rparr>)
                   | None \<Rightarrow> (entry, t))
               in finish_add T entry (set_bucket entry (translate tr key extra h) t))"

definition HashTable_addPassingHashCode ::
  "('k, 'v) HashTraits \<Rightarrow> ('k, 'v, 't, 'e) HashTranslator \<Rightarrow> 't \<Rightarrow> 'e \<Rightarrow> 'v HashTable \<Rightarrow> ('v HashTable \<times> u32 option \<times> bool) option" where
  "HashTable_addPassingHashCode T tr key extra t =
     (if \<not> checkKey T tr key then None
      else case expand_null T t of None \<Rightarrow> None | Some t \<Rightarrow>
      case fullLookupForWriting T tr key t of None \<Rightarrow> None | Some ((entry, found), h) \<Rightarrow>
      if found then Some (t, Some entry, False)
      else case get_bucket entry t of None \<Rightarrow> None | Some old \<Rightarrow>
        let t = (if isDeletedBucket T old
                 then (set_bucket entry (emptyValue T) t)\<lparr>m_deletedCount := m_deletedCount t - 1\<rparr> else t)
        in finish_add T entry (set_bucket entry (translate tr key extra h) t))"

definition delete_at :: "('k, 'v) HashTraits \<Rightarrow> u32 \<Rightarrow> 'v HashTable \<Rightarrow> 'v HashTable" where
  "delete_at T pos t =
     (set_bucket pos (deletedValue T) t)\<lparr>m_deletedCount := m_deletedCount t + 1, m_keyCount := m_keyCount t - 1\<rparr>"

definition shrink_if_needed :: "('k, 'v) HashTraits \<Rightarrow> 'v HashTable \<Rightarrow> 'v HashTable option" where
  "shrink_if_needed T t = (if shouldShrink T t then HashTable_shrink T t else Some t)"

definition HashTable_removeAt :: "('k, 'v) HashTraits \<Rightarrow> u32 \<Rightarrow> 'v HashTable \<Rightarrow> 'v HashTable option" where
  "HashTable_removeAt T pos t =
     (if get_bucket pos t = None then None else shrink_if_needed T (delete_at T pos t))"

definition HashTable_removeIterator :: "('k, 'v) HashTraits \<Rightarrow> u32 \<Rightarrow> 'v HashTable \<Rightarrow> 'v HashTable option" where
  "HashTable_removeIterator T it t = (if it = HashTable_end t then Some t else HashTable_removeAt T it t)"

definition HashTable_remove :: "('k, 'v) HashTraits \<Rightarrow> 'k \<Rightarrow> 'v HashTable \<Rightarrow> 'v HashTable option" where
  "HashTable_remove T key t =
     (case HashTable_find T (IdentityHashTranslator T) key t of
        None \<Rightarrow> None
      | Some it \<Rightarrow> HashTable_removeIterator T it t)"

text \<open>\<open>removeIf\<close> goes from the last bucket to the first.\<close>

fun removeIf_loop :: "('k, 'v) HashTraits \<Rightarrow> ('v \<Rightarrow> bool) \<Rightarrow> nat \<Rightarrow> 'v HashTable \<Rightarrow> 'v HashTable option" where
  "removeIf_loop T functor 0 t = Some t"
| "removeIf_loop T functor (Suc i) t =
     (case get_bucket (of_nat i) t of None \<Rightarrow> None | Some value \<Rightarrow>
      if isEmptyOrDeletedBucket T value \<or> \<not> functor value then removeIf_loop T functor i t
      else removeIf_loop T functor i (delete_at T (of_nat i) t))"

definition HashTable_removeIf :: "('k, 'v) HashTraits \<Rightarrow> ('v \<Rightarrow> bool) \<Rightarrow> 'v HashTable \<Rightarrow> 'v HashTable option" where
  "HashTable_removeIf T functor t =
     (case removeIf_loop T functor (unat (m_tableSize t)) t of None \<Rightarrow> None | Some t \<Rightarrow> shrink_if_needed T t)"

definition HashTable_clear :: "'v HashTable \<Rightarrow> 'v HashTable" where
  "HashTable_clear t =
     (if m_table t = None then t
      else t\<lparr>m_table := None, m_tableSize := 0, m_tableSizeMask := 0, m_keyCount := 0, m_deletedCount := 0\<rparr>)"

section \<open>Iterating, copying, checking\<close>

fun skipEmptyBuckets :: "('k, 'v) HashTraits \<Rightarrow> 'v list \<Rightarrow> u32 \<Rightarrow> u32" where
  "skipEmptyBuckets T [] position = position"
| "skipEmptyBuckets T (value # rest) position =
     (if isEmptyOrDeletedBucket T value then skipEmptyBuckets T rest (position + 1) else position)"

definition HashTable_begin :: "('k, 'v) HashTraits \<Rightarrow> 'v HashTable \<Rightarrow> u32" where
  "HashTable_begin T t =
     (if m_keyCount t = 0 then HashTable_end t
      else skipEmptyBuckets T (case m_table t of None \<Rightarrow> [] | Some table \<Rightarrow> table) 0)"

definition HashTable_next :: "('k, 'v) HashTraits \<Rightarrow> 'v HashTable \<Rightarrow> u32 \<Rightarrow> u32" where
  "HashTable_next T t position =
     skipEmptyBuckets T (case m_table t of None \<Rightarrow> [] | Some table \<Rightarrow> drop (Suc (unat position)) table) (position + 1)"

function copy_loop :: "('k, 'v) HashTraits \<Rightarrow> 'v HashTable \<Rightarrow> nat \<Rightarrow> u32 \<Rightarrow> 'v HashTable \<Rightarrow> 'v HashTable option" where
  "copy_loop T other fuel it t =
     (if it = HashTable_end other then Some t
      else if fuel = 0 then None
      else case get_bucket it other of None \<Rightarrow> None | Some value \<Rightarrow>
        case HashTable_add T (IdentityHashTranslator T) (extractKey T value) value t of
          None \<Rightarrow> None
        | Some (t, _) \<Rightarrow> copy_loop T other (fuel - 1) (HashTable_next T other it) t)"
  by pat_completeness auto
termination
  by (relation "measure (\<lambda>(_, _, fuel, _). fuel)") auto

declare copy_loop.simps [simp del]

definition HashTable_copy :: "('k, 'v) HashTraits \<Rightarrow> 'v HashTable \<Rightarrow> 'v HashTable option" where
  "HashTable_copy T other = copy_loop T other (unat (m_tableSize other)) (HashTable_begin T other) new_HashTable"

text \<open>The consistency check of debug builds: \<open>True\<close> if no assertion fails.\<close>

fun consistency_loop :: "('k, 'v) HashTraits \<Rightarrow> 'v HashTable \<Rightarrow> 'v list \<Rightarrow> u32 \<Rightarrow> u32 \<times> u32 \<Rightarrow> (u32 \<times> u32) option" where
  "consistency_loop T t [] j counts = Some counts"
| "consistency_loop T t (entry # rest) j (count, deletedCount) =
     (if isEmptyBucket T entry then consistency_loop T t rest (j + 1) (count, deletedCount)
      else if isDeletedBucket T entry then consistency_loop T t rest (j + 1) (count, deletedCount + 1)
      else if HashTable_find T (IdentityHashTranslator T) (extractKey T entry) t = Some j
      then consistency_loop T t rest (j + 1) (count + 1, deletedCount)
      else None)"

definition checkTableConsistencyExceptSize :: "('k, 'v) HashTraits \<Rightarrow> 'v HashTable \<Rightarrow> bool" where
  "checkTableConsistencyExceptSize T t \<longleftrightarrow>
     (case m_table t of
        None \<Rightarrow> True
      | Some table \<Rightarrow>
          consistency_loop T t table 0 (0, 0) = Some (m_keyCount t, m_deletedCount t) \<and>
          m_tableSize t \<ge> minimumTableSize T \<and> m_tableSizeMask t \<noteq> 0 \<and> m_tableSize t = m_tableSizeMask t + 1)"

definition checkTableConsistency :: "('k, 'v) HashTraits \<Rightarrow> 'v HashTable \<Rightarrow> bool" where
  "checkTableConsistency T t \<longleftrightarrow>
     checkTableConsistencyExceptSize T t \<and> (m_table t = None \<or> \<not> shouldExpand t) \<and> \<not> shouldShrink T t"

end
