(* ===== verification/WTF_HashTable_Probe.thy ===== *)
theory WTF_HashTable_Probe
  imports WTF_HashTable
begin

text \<open>
  The probe sequence of the hash table: its step is odd and the size of the table a power of two, so
  it meets every bucket. This is why the loops of the table end, and what they find.
\<close>

section \<open>The sequence\<close>

definition probe :: "nat \<Rightarrow> u32 \<Rightarrow> nat \<Rightarrow> nat" where
  "probe n h j = (unat h + j * unat (next_step h 0)) mod 2 ^ n"

lemma probe_less [simp]: "probe n h j < 2 ^ n"
  by (simp add: probe_def)

lemma next_step_odd: "odd (unat (next_step h 0))"
proof -
  have "bit (unat (1 OR doubleHash h)) 0" by (simp add: bit_unsigned_iff bit_or_iff)
  then show ?thesis by (simp only: bit_0 next_step_def if_True simp_thms)
qed

lemma next_step_not_zero [simp]: "next_step h k \<noteq> 0" "next_step h (next_step h 0) = next_step h 0"
proof -
  have "next_step h 0 \<noteq> 0" using next_step_odd [of h] by (metis even_zero unsigned_0)
  then show "next_step h k \<noteq> 0" "next_step h (next_step h 0) = next_step h 0" by (auto simp: next_step_def split: if_splits)
qed

lemma odd_steps_inj:
  fixes a :: nat
  assumes "odd a" "(c + i * a) mod 2 ^ n = (c + j * a) mod 2 ^ n" "i < 2 ^ n" "j < 2 ^ n" "i \<le> j"
  shows "i = j"
proof -
  have "2 ^ n dvd (c + j * a) - (c + i * a)" using assms(2,5) by (metis add_le_mono mod_eq_dvd_iff_nat mult_le_mono1 order_refl)
  then have "2 ^ n dvd (j - i) * a" by (simp add: diff_mult_distrib)
  moreover have "coprime (2 ^ n) a" using assms(1) by simp
  ultimately have "2 ^ n dvd j - i" by (simp add: coprime_dvd_mult_left_iff)
  then have "j - i = 0 \<or> 2 ^ n \<le> j - i" by (meson dvd_imp_le neq0_conv)
  then show ?thesis using assms(3-5) by linarith
qed

lemma probe_inj: "inj_on (probe n h) {..<2 ^ n}"
proof (rule inj_onI)
  fix i j
  assume a: "i \<in> {..<2 ^ n}" "j \<in> {..<2 ^ n}" "probe n h i = probe n h j"
  show "i = j"
    using odd_steps_inj [OF next_step_odd, of "unat h" i h n j] odd_steps_inj [OF next_step_odd, of "unat h" j h n i] a
    by (cases "i \<le> j") (auto simp: probe_def)
qed

lemma probe_reaches: "p < 2 ^ n \<Longrightarrow> \<exists>j<2 ^ n. probe n h j = p"
proof -
  assume p: "p < 2 ^ n"
  have "probe n h ` {..<2 ^ n} = {..<2 ^ n}"
    by (rule endo_inj_surj [OF _ _ probe_inj]) auto
  then show ?thesis using p by (metis (mono_tags) image_iff lessThan_iff)
qed

section \<open>The loops follow it\<close>

definition mask_ok :: "nat \<Rightarrow> u32 \<Rightarrow> bool" where
  "mask_ok n m \<longleftrightarrow> n < 32 \<and> m = mask n"

definition step_at :: "u32 \<Rightarrow> nat \<Rightarrow> u32" where
  "step_at h j = (if j = 0 then 0 else next_step h 0)"

lemma next_step_at [simp]: "next_step h (step_at h j) = step_at h (Suc j)"
  by (simp add: step_at_def)

lemma unat_mask_and: "mask_ok n m \<Longrightarrow> unat (i AND m) = unat i mod 2 ^ n"
proof -
  assume "mask_ok n m"
  then have "unat (i AND m) = unat (take_bit n i)" by (simp add: mask_ok_def take_bit_eq_mask)
  also have "\<dots> = take_bit n (unat i)" by (rule unsigned_take_bit_eq)
  finally show ?thesis by (simp only: take_bit_eq_mod)
qed

lemma small_power: "n < 32 \<Longrightarrow> (2::nat) ^ n dvd 2 ^ 32"
  by (rule le_imp_power_dvd) simp

lemma unat_small: "m < 2 ^ 32 \<Longrightarrow> unat (of_nat m :: u32) = m"
  by (simp add: unsigned_of_nat take_bit_nat_eq_self)

lemma unat_probe: "n < 32 \<Longrightarrow> unat (of_nat (probe n h j) :: u32) = probe n h j"
proof -
  assume "n < 32"
  then have "(2::nat) ^ n < 2 ^ 32" by (rule power_strict_increasing) simp
  then have "probe n h j < 2 ^ 32" using probe_less [of n h j] by linarith
  then show ?thesis by (simp add: unsigned_of_nat take_bit_nat_eq_self)
qed

lemma first_probe: "mask_ok n m \<Longrightarrow> h AND m = of_nat (probe n h 0)"
proof -
  assume m: "mask_ok n m"
  then have "unat (h AND m) = unat (of_nat (probe n h 0) :: u32)"
    using unat_mask_and [OF m] unat_probe [of n h 0] by (simp add: mask_ok_def) (simp add: probe_def)
  then show ?thesis by (simp only: word_unat_eq_iff)
qed

lemma mod_dvd_plus: "(d::nat) dvd e \<Longrightarrow> ((a mod e + b) mod d) = (a + b) mod d"
  by (metis mod_add_left_eq mod_mod_cancel)

lemma next_probe: "mask_ok n m \<Longrightarrow> (of_nat (probe n h j) + step_at h (Suc j)) AND m = of_nat (probe n h (Suc j))"
proof -
  assume m: "mask_ok n m"
  then have n: "n < 32" by (simp add: mask_ok_def)
  have "unat (of_nat (probe n h j) + next_step h 0) = (probe n h j + unat (next_step h 0)) mod 2 ^ 32"
    using unat_probe [OF n] by (simp add: unat_word_ariths)
  then have "unat ((of_nat (probe n h j) + next_step h 0) AND m) = (probe n h j + unat (next_step h 0)) mod 2 ^ n"
    using unat_mask_and [OF m] small_power [OF n] by (simp add: mod_mod_cancel)
  also have "\<dots> = (unat h + j * unat (next_step h 0) + unat (next_step h 0)) mod 2 ^ n"
    unfolding probe_def by (rule mod_add_left_eq)
  also have "\<dots> = probe n h (Suc j)" by (simp add: probe_def add.assoc add.commute add.left_commute)
  finally have "unat ((of_nat (probe n h j) + next_step h 0) AND m) = unat (of_nat (probe n h (Suc j)) :: u32)"
    using unat_probe [OF n] by simp
  then show ?thesis by (simp only: word_unat_eq_iff step_at_def) simp
qed

end
