(* ===== verification/WTF_HashTable_Loops.thy ===== *)
theory WTF_HashTable_Loops
  imports WTF_HashTable_Probe
begin

text \<open>
  What the template parameters of a hash table must satisfy (the locale \<open>hash_traits\<close>), when a
  translator finds what it should, and what the loops over the probe sequence find.
\<close>

section \<open>The contract of the parameters\<close>

definition valid_key :: "('k, 'v) HashTraits \<Rightarrow> 'k \<Rightarrow> bool" where
  "valid_key T k \<longleftrightarrow> \<not> isEmptyValue T k \<and> \<not> isDeletedValue T k"

definition full :: "('k, 'v) HashTraits \<Rightarrow> 'v \<Rightarrow> bool" where
  "full T v \<longleftrightarrow> valid_key T (extractKey T v)"

lemma full_bucket: "full T v \<longleftrightarrow> \<not> isEmptyBucket T v \<and> \<not> isDeletedBucket T v" "isEmptyOrDeletedBucket T v \<longleftrightarrow> \<not> full T v"
  by (simp_all add: full_def valid_key_def isEmptyBucket_def isDeletedBucket_def isEmptyOrDeletedBucket_def)

text \<open>The key of \<open>tr\<close> is looked up like the key \<open>q\<close> in a table with the entries \<open>V\<close>.\<close>

definition denotes :: "('k, 'v) HashTraits \<Rightarrow> ('k, 'v, 't, 'e) HashTranslator \<Rightarrow> 't \<Rightarrow> 'k \<Rightarrow> 'v set \<Rightarrow> bool" where
  "denotes T tr key q V \<longleftrightarrow> valid_key T q \<and> translatorHash tr key = hashOf T q \<and>
     (\<forall>v\<in>V. full T v \<longrightarrow> (translatorEqual tr (extractKey T v) key \<longleftrightarrow> keysEqual T (extractKey T v) q)) \<and>
     (safeToCompareToEmptyOrDeleted T \<longrightarrow> (\<forall>k. \<not> valid_key T k \<longrightarrow> \<not> translatorEqual tr k key))"

lemma denotes_subset: "denotes T tr key q V \<Longrightarrow> (\<And>v. v \<in> W \<Longrightarrow> full T v \<Longrightarrow> v \<in> V) \<Longrightarrow> denotes T tr key q W"
  unfolding denotes_def by blast

locale hash_traits =
  fixes T :: "('k, 'v) HashTraits"
  assumes empty_value: "isEmptyValue T (extractKey T (emptyValue T))"
    and deleted_value: "isDeletedValue T (extractKey T (deletedValue T))"
    and exclusive: "\<not> (isEmptyValue T k \<and> isDeletedValue T k)"
    and equal_refl: "valid_key T k \<Longrightarrow> keysEqual T k k"
    and equal_sym: "valid_key T j \<Longrightarrow> valid_key T k \<Longrightarrow> keysEqual T j k \<Longrightarrow> keysEqual T k j"
    and equal_trans: "valid_key T i \<Longrightarrow> valid_key T j \<Longrightarrow> valid_key T k \<Longrightarrow> keysEqual T i j \<Longrightarrow> keysEqual T j k \<Longrightarrow> keysEqual T i k"
    and equal_hash: "valid_key T j \<Longrightarrow> valid_key T k \<Longrightarrow> keysEqual T j k \<Longrightarrow> hashOf T j = hashOf T k"
    and safe: "safeToCompareToEmptyOrDeleted T \<Longrightarrow> valid_key T k \<Longrightarrow> \<not> valid_key T j \<Longrightarrow> \<not> keysEqual T j k"
    and minimum: "\<exists>n. 2 \<le> n \<and> n \<le> 30 \<and> minimumTableSize T = 2 ^ n"
begin

lemma identity_denotes: "valid_key T q \<Longrightarrow> denotes T (IdentityHashTranslator T) q q V"
  using safe by (auto simp: denotes_def IdentityHashTranslator_def)

lemma buckets [simp]:
  "isEmptyBucket T (emptyValue T)" "\<not> isDeletedBucket T (emptyValue T)" "isDeletedBucket T (deletedValue T)"
  "\<not> isEmptyBucket T (deletedValue T)" "\<not> full T (emptyValue T)" "\<not> full T (deletedValue T)"
  using empty_value deleted_value exclusive by (auto simp: isEmptyBucket_def isDeletedBucket_def full_bucket)

lemma denotes_checked: "denotes T tr key q V \<Longrightarrow> checkKey T tr key"
  using empty_value deleted_value by (auto simp: denotes_def checkKey_def valid_key_def)

end

section \<open>The loops\<close>

definition stops :: "('k, 'v) HashTraits \<Rightarrow> 'k \<Rightarrow> 'v \<Rightarrow> bool" where
  "stops T q v \<longleftrightarrow> isEmptyBucket T v \<or> full T v \<and> keysEqual T (extractKey T v) q"

lemma bucket_probe: "n < 32 \<Longrightarrow> length table = 2 ^ n \<Longrightarrow> bucket table (of_nat (probe n h j)) = Some (table ! probe n h j)"
  by (simp add: bucket_def unat_probe)

lemma write_compare:
  assumes "denotes T tr key q V" "v \<in> V" "\<not> isEmptyBucket T v"
  shows "(if safeToCompareToEmptyOrDeleted T then translatorEqual tr (extractKey T v) key
     else \<not> isDeletedBucket T v \<and> translatorEqual tr (extractKey T v) key) \<longleftrightarrow> stops T q v"
  using assms unfolding denotes_def stops_def full_def [symmetric] full_bucket
  by (auto simp: full_bucket full_def valid_key_def isEmptyBucket_def isDeletedBucket_def)

lemma lookup_compare:
  assumes "denotes T tr key q V" "v \<in> V"
  shows "(if safeToCompareToEmptyOrDeleted T then translatorEqual tr (extractKey T v) key
     else \<not> isEmptyBucket T v \<and> \<not> isDeletedBucket T v \<and> translatorEqual tr (extractKey T v) key) \<longleftrightarrow> \<not> isEmptyBucket T v \<and> stops T q v"
  using assms unfolding denotes_def stops_def
  by (auto simp: full_bucket full_def valid_key_def isEmptyBucket_def isDeletedBucket_def)

lemma lookup_loop_unfold:
  assumes "denotes T tr key q V" "v \<in> V" "bucket table i = Some v"
  shows "lookup_loop T tr key table m h i k =
    (if isEmptyBucket T v then Some None
     else if stops T q v then Some (Some i)
     else lookup_loop T tr key table m h ((i + next_step h k) AND m) (next_step h k))"
  by (subst lookup_loop.simps, unfold assms(3) option.case lookup_compare [OF assms(1,2)]) simp

lemma write_loop_unfold:
  assumes "denotes T tr key q V" "v \<in> V" "bucket table i = Some v"
  shows "write_loop T tr key table m h i k d =
    (if isEmptyBucket T v then Some (i, False, d)
     else if stops T q v then Some (i, True, d)
     else write_loop T tr key table m h ((i + next_step h k) AND m) (next_step h k) (if isDeletedBucket T v then Some i else d))"
  by (subst write_loop.simps) (simp add: assms(3) write_compare [OF assms(1,2)] cong: if_cong)

lemma lookup_loop_probe:
  assumes m: "mask_ok n m" "length table = 2 ^ n" and d: "denotes T tr key q (set table)"
    and j: "j \<le> J" "\<And>i. j \<le> i \<Longrightarrow> i < J \<Longrightarrow> \<not> stops T q (table ! probe n h i)" "stops T q (table ! probe n h J)"
  shows "lookup_loop T tr key table m h (of_nat (probe n h j)) (step_at h j) =
    Some (if isEmptyBucket T (table ! probe n h J) then None else Some (of_nat (probe n h J)))"
  using j(1)
proof (induction rule: inc_induct)
  case base
  then show ?case using lookup_loop_unfold [OF d _ bucket_probe] m j(3) by (simp add: mask_ok_def)
next
  case (step i)
  have "\<not> isEmptyBucket T (table ! probe n h i)" using j(2) [OF step(1,2)] by (simp add: stops_def)
  then show ?case using lookup_loop_unfold [OF d _ bucket_probe [of n table h i], of m h "step_at h i"] m step(3) j(2) [OF step(1,2)] next_probe [OF m(1), of h i]
    by (simp add: mask_ok_def)
qed

lemma write_loop_probe:
  assumes m: "mask_ok n m" "length table = 2 ^ n" and d: "denotes T tr key q (set table)"
    and j: "j \<le> J" "\<And>i. j \<le> i \<Longrightarrow> i < J \<Longrightarrow> \<not> stops T q (table ! probe n h i)" "stops T q (table ! probe n h J)"
  shows "\<exists>d. write_loop T tr key table m h (of_nat (probe n h j)) (step_at h j) d0 =
      Some (of_nat (probe n h J), \<not> isEmptyBucket T (table ! probe n h J), d) \<and>
    (d = d0 \<or> (\<exists>i<J. d = Some (of_nat (probe n h i)) \<and> isDeletedBucket T (table ! probe n h i)))"
  using j(1)
proof (induction arbitrary: d0 rule: inc_induct)
  case base
  then show ?case using write_loop_unfold [OF d _ bucket_probe] m j(3) by (simp add: mask_ok_def)
next
  case (step i)
  let ?v = "table ! probe n h i" and ?d = "if isDeletedBucket T (table ! probe n h i) then Some (of_nat (probe n h i)) else d0"
  have "\<not> isEmptyBucket T ?v" using j(2) [OF step(1,2)] by (simp add: stops_def)
  then have "write_loop T tr key table m h (of_nat (probe n h i)) (step_at h i) d0 =
      write_loop T tr key table m h (of_nat (probe n h (Suc i))) (step_at h (Suc i)) ?d"
    using write_loop_unfold [OF d _ bucket_probe [of n table h i], of m h "step_at h i" d0] m j(2) [OF step(1,2)] next_probe [OF m(1), of h i]
    by (simp add: mask_ok_def)
  moreover obtain d where "write_loop T tr key table m h (of_nat (probe n h (Suc i))) (step_at h (Suc i)) ?d =
      Some (of_nat (probe n h J), \<not> isEmptyBucket T (table ! probe n h J), d)"
    "d = ?d \<or> (\<exists>i<J. d = Some (of_nat (probe n h i)) \<and> isDeletedBucket T (table ! probe n h i))"
    using step(3) [of ?d] by blast
  ultimately show ?case using step(2) by (auto split: if_splits)
qed

end
