(* ===== verification/WTF_HashTable_Inv.thy ===== *)
theory WTF_HashTable_Inv
  imports WTF_HashTable_Loops
begin

text \<open>
  The invariant of the buckets: every entry can be reached along the probe sequence of its key without
  an empty bucket before it, and no two entries have equal keys. Looking up finds exactly the entry of
  a key, and a write goes to a bucket where the invariant is kept.
\<close>

section \<open>Entries and counts\<close>

definition entries :: "('k, 'v) HashTraits \<Rightarrow> 'v list \<Rightarrow> 'v set" where
  "entries T table = {v \<in> set table. full T v}"

definition key_count :: "('k, 'v) HashTraits \<Rightarrow> 'v list \<Rightarrow> nat" where
  "key_count T table = length (filter (full T) table)"

definition deleted_count :: "('k, 'v) HashTraits \<Rightarrow> 'v list \<Rightarrow> nat" where
  "deleted_count T table = length (filter (isDeletedBucket T) table)"

lemma filter_update:
  "i < length xs \<Longrightarrow> length (filter P (xs[i := v])) + of_bool (P (xs ! i)) = length (filter P xs) + of_bool (P v)"
proof (induction xs arbitrary: i)
  case (Cons x xs)
  then show ?case by (cases i) auto
qed simp

lemma key_count_update:
  "i < length xs \<Longrightarrow> key_count T (xs[i := v]) + of_bool (full T (xs ! i)) = key_count T xs + of_bool (full T v)"
  unfolding key_count_def by (rule filter_update)

lemma deleted_count_update:
  "i < length xs \<Longrightarrow> deleted_count T (xs[i := v]) + of_bool (isDeletedBucket T (xs ! i)) = deleted_count T xs + of_bool (isDeletedBucket T v)"
  unfolding deleted_count_def by (rule filter_update)

lemma entries_update:
  assumes "i < length xs"
  shows "entries T (xs[i := v]) = {xs ! j |j. j < length xs \<and> j \<noteq> i \<and> full T (xs ! j)} \<union> (if full T v then {v} else {})"
    (is "?l = ?r")
proof
  show "?l \<subseteq> ?r" using assms by (auto simp: entries_def in_set_conv_nth nth_list_update)
  have "xs ! j \<in> set (xs[i := v])" if "j < length xs" "j \<noteq> i" for j
    using that by (metis length_list_update nth_list_update_neq nth_mem)
  then show "?r \<subseteq> ?l" using set_update_memI [OF assms, of v] by (auto simp: entries_def split: if_splits)
qed

lemma entries_nth: "entries T xs = {xs ! j |j. j < length xs \<and> full T (xs ! j)}"
  by (auto simp: entries_def in_set_conv_nth)

lemma some_empty:
  assumes "key_count T table + deleted_count T table < length table"
  shows "\<exists>p<length table. isEmptyBucket T (table ! p)"
proof (rule ccontr)
  assume "\<not> ?thesis"
  then have "\<forall>v\<in>set table. full T v \<or> isDeletedBucket T v" by (auto simp: in_set_conv_nth full_bucket)
  then have "filter (\<lambda>v. full T v \<or> isDeletedBucket T v) table = table" by (simp add: filter_id_conv)
  moreover have "length (filter (\<lambda>v. full T v \<or> isDeletedBucket T v) xs) \<le> key_count T xs + deleted_count T xs" for xs
    unfolding key_count_def deleted_count_def by (induction xs) auto
  ultimately show False using assms by (metis leD)
qed

section \<open>The invariant of the buckets\<close>

definition path_free :: "('k, 'v) HashTraits \<Rightarrow> nat \<Rightarrow> 'v list \<Rightarrow> u32 \<Rightarrow> nat \<Rightarrow> bool" where
  "path_free T n table h p \<longleftrightarrow>
     (\<exists>j. probe n h j = p \<and> (\<forall>i<j. \<not> isEmptyBucket T (table ! probe n h i)))"

definition matches :: "('k, 'v) HashTraits \<Rightarrow> 'k \<Rightarrow> 'v \<Rightarrow> bool" where
  "matches T q v \<longleftrightarrow> full T v \<and> keysEqual T (extractKey T v) q"

definition distinct_keys :: "('k, 'v) HashTraits \<Rightarrow> 'v list \<Rightarrow> bool" where
  "distinct_keys T table \<longleftrightarrow>
     (\<forall>p<length table. \<forall>r<length table. p \<noteq> r \<longrightarrow> full T (table ! r) \<longrightarrow> \<not> matches T (extractKey T (table ! r)) (table ! p))"

definition well_placed :: "('k, 'v) HashTraits \<Rightarrow> nat \<Rightarrow> 'v list \<Rightarrow> bool" where
  "well_placed T n table \<longleftrightarrow> n < 32 \<and> length table = 2 ^ n \<and> distinct_keys T table \<and>
     (\<forall>p<2 ^ n. full T (table ! p) \<longrightarrow> path_free T n table (hashOf T (extractKey T (table ! p))) p)"

lemma well_placed_length: "well_placed T n table \<Longrightarrow> length table = 2 ^ n \<and> n < 32"
  by (simp add: well_placed_def)

text \<open>The answer to a search for \<open>q\<close>.\<close>

definition located :: "('k, 'v) HashTraits \<Rightarrow> 'k \<Rightarrow> 'v list \<Rightarrow> u32 option \<Rightarrow> bool" where
  "located T q table r \<longleftrightarrow>
     (case r of
        None \<Rightarrow> \<forall>p<length table. \<not> matches T q (table ! p)
      | Some i \<Rightarrow> unat i < length table \<and> matches T q (table ! unat i))"

definition vacant :: "('k, 'v) HashTraits \<Rightarrow> nat \<Rightarrow> 'v list \<Rightarrow> u32 \<Rightarrow> u32 \<Rightarrow> bool" where
  "vacant T n table h e \<longleftrightarrow> unat e < 2 ^ n \<and> \<not> full T (table ! unat e) \<and> path_free T n table h (unat e)"

lemma distinct_keys_values:
  assumes "distinct_keys T table" "\<And>k. valid_key T k \<Longrightarrow> keysEqual T k k"
  shows "card (entries T table) = key_count T table"
proof -
  have "distinct (filter (full T) table)"
    using assms
  proof (induction table)
    case (Cons x xs)
    have "distinct_keys T xs"
      unfolding distinct_keys_def
    proof (intro allI impI)
      fix p r assume "p < length xs" "r < length xs" "p \<noteq> r" "full T (xs ! r)"
      then show "\<not> matches T (extractKey T (xs ! r)) (xs ! p)"
        using Cons.prems(1) [unfolded distinct_keys_def, rule_format, of "Suc p" "Suc r"] by simp
    qed
    moreover have "full T x \<Longrightarrow> x \<notin> set xs"
    proof
      assume x: "full T x" "x \<in> set xs"
      then obtain i where "i < length xs" "xs ! i = x" by (auto simp: in_set_conv_nth)
      then show False using Cons.prems(1) [unfolded distinct_keys_def, rule_format, of "Suc i" 0] x(1) Cons.prems(2)
        by (simp add: matches_def full_def)
    qed
    ultimately show ?case using Cons by simp
  qed simp
  moreover have "entries T table = set (filter (full T) table)" by (auto simp: entries_def)
  ultimately show ?thesis using distinct_card [of "filter (full T) table"] unfolding key_count_def by metis
qed

context hash_traits
begin

lemma matches_same:
  assumes "distinct_keys T table" "valid_key T q" "p < length table" "r < length table" "matches T q (table ! p)" "matches T q (table ! r)"
  shows "p = r"
proof (rule ccontr)
  assume "p \<noteq> r"
  then have "\<not> matches T (extractKey T (table ! r)) (table ! p)" using assms by (auto simp: distinct_keys_def matches_def)
  moreover have "valid_key T (extractKey T (table ! p))" "valid_key T (extractKey T (table ! r))" using assms(5,6) by (simp_all add: matches_def full_def)
  ultimately show False using assms(2,5,6) equal_sym equal_trans unfolding matches_def by blast
qed

lemma first_stop:
  assumes w: "well_placed T n table" and q: "valid_key T q" and e: "\<exists>p<length table. isEmptyBucket T (table ! p)"
  obtains J where "stops T q (table ! probe n (hashOf T q) J)" "\<And>i. i < J \<Longrightarrow> \<not> stops T q (table ! probe n (hashOf T q) i)"
    "located T q table (if isEmptyBucket T (table ! probe n (hashOf T q) J) then None else Some (of_nat (probe n (hashOf T q) J)))"
proof -
  let ?p = "probe n (hashOf T q)"
  have len: "length table = 2 ^ n" "n < 32" using w by (simp_all add: well_placed_def)
  obtain j0 where "isEmptyBucket T (table ! ?p j0)" using e probe_reaches [of _ n "hashOf T q"] len by metis
  then have "\<exists>j. stops T q (table ! ?p j)" by (auto simp: stops_def)
  then obtain J where J: "stops T q (table ! ?p J)" "\<And>i. i < J \<Longrightarrow> \<not> stops T q (table ! ?p i)"
    using exists_least_iff [of "\<lambda>j. stops T q (table ! ?p j)"] by blast
  have "\<not> isEmptyBucket T (table ! ?p J)" if p: "p < length table" "matches T q (table ! p)" for p
  proof -
    have "valid_key T (extractKey T (table ! p))" using p(2) by (simp add: matches_def full_def)
    then have "hashOf T (extractKey T (table ! p)) = hashOf T q" using p(2) q equal_hash by (simp add: matches_def)
    then obtain j where j: "?p j = p" "\<forall>i<j. \<not> isEmptyBucket T (table ! ?p i)"
      using w p len by (auto simp: well_placed_def matches_def path_free_def)
    then have "J \<le> j" using J(2) [of j] p(2) by (metis matches_def not_le stops_def)
    then show ?thesis using j p(2) by (metis full_bucket(1) le_neq_implies_less matches_def)
  qed
  then have "located T q table (if isEmptyBucket T (table ! ?p J) then None else Some (of_nat (?p J)))"
    using J(1) len by (auto simp: located_def unat_probe stops_def matches_def)
  then show thesis using J that by blast
qed

text \<open>What the two loops return.\<close>

lemma lookup_located:
  assumes w: "well_placed T n table" and m: "m = mask n" and e: "\<exists>p<length table. isEmptyBucket T (table ! p)"
    and d: "denotes T tr key q (set table)"
  shows "\<exists>r. lookup_loop T tr key table m (translatorHash tr key) (translatorHash tr key AND m) 0 = Some r \<and> located T q table r"
proof -
  have q: "valid_key T q" "translatorHash tr key = hashOf T q" using d by (simp_all add: denotes_def)
  have mo: "mask_ok n m" using w m by (simp add: mask_ok_def well_placed_def)
  obtain J where J: "stops T q (table ! probe n (hashOf T q) J)" "\<And>i. i < J \<Longrightarrow> \<not> stops T q (table ! probe n (hashOf T q) i)"
    "located T q table (if isEmptyBucket T (table ! probe n (hashOf T q) J) then None else Some (of_nat (probe n (hashOf T q) J)))"
    using first_stop [OF w q(1) e] by blast
  show ?thesis
    using lookup_loop_probe [OF mo _ d, of 0 J "hashOf T q"] w J first_probe [OF mo, of "hashOf T q"] q(2)
    by (simp add: well_placed_def step_at_def)
qed

lemma write_located:
  assumes w: "well_placed T n table" and m: "m = mask n" and e: "\<exists>p<length table. isEmptyBucket T (table ! p)"
    and d: "denotes T tr key q (set table)"
  obtains (found) i d' where "write_loop T tr key table m (translatorHash tr key) (translatorHash tr key AND m) 0 None = Some (i, True, d')"
      "located T q table (Some i)"
  | (empty) i where "write_loop T tr key table m (translatorHash tr key) (translatorHash tr key AND m) 0 None = Some (i, False, None)"
      "located T q table None" "vacant T n table (hashOf T q) i" "isEmptyBucket T (table ! unat i)"
  | (deleted) i d' where "write_loop T tr key table m (translatorHash tr key) (translatorHash tr key AND m) 0 None = Some (i, False, Some d')"
      "located T q table None" "vacant T n table (hashOf T q) d'" "isDeletedBucket T (table ! unat d')"
proof -
  let ?p = "probe n (hashOf T q)"
  have q: "valid_key T q" "translatorHash tr key = hashOf T q" using d by (simp_all add: denotes_def)
  have len: "length table = 2 ^ n" "n < 32" using w by (simp_all add: well_placed_def)
  have mo: "mask_ok n m" using len m by (simp add: mask_ok_def)
  obtain J where J: "stops T q (table ! ?p J)" "\<And>i. i < J \<Longrightarrow> \<not> stops T q (table ! ?p i)"
    "located T q table (if isEmptyBucket T (table ! ?p J) then None else Some (of_nat (?p J)))"
    using first_stop [OF w q(1) e] by blast
  obtain d' where w': "write_loop T tr key table m (hashOf T q) (hashOf T q AND m) 0 None = Some (of_nat (?p J), \<not> isEmptyBucket T (table ! ?p J), d')"
    and d': "d' = None \<or> (\<exists>i<J. d' = Some (of_nat (?p i)) \<and> isDeletedBucket T (table ! ?p i))"
    using write_loop_probe [OF mo len(1) d, of 0 J "hashOf T q" None] J first_probe [OF mo, of "hashOf T q"] by (auto simp: step_at_def)
  have free: "path_free T n table (hashOf T q) (?p i)" if "i \<le> J" for i
    using J(2) that unfolding path_free_def stops_def by (metis order_less_le_trans)
  have vac: "vacant T n table (hashOf T q) (of_nat (?p i))" if "i \<le> J" "\<not> full T (table ! ?p i)" for i
    using free [OF that(1)] that(2) len by (simp add: vacant_def unat_probe)
  show thesis
  proof (cases "isEmptyBucket T (table ! ?p J)")
    case False
    then show thesis using found [of "of_nat (?p J)" d'] w' J(3) q(2) by simp
  next
    case True
    then have l: "located T q table None" using J(3) by simp
    show thesis
    proof (cases d')
      case None
      then show thesis using empty [of "of_nat (?p J)"] True w' l vac [of J] q(2) len by (simp add: full_bucket unat_probe)
    next
      case (Some e)
      then obtain i where i: "i < J" "e = of_nat (?p i)" "isDeletedBucket T (table ! ?p i)" using d' by auto
      then show thesis using deleted [of "of_nat (?p J)" e] Some True w' l vac [of i] q(2) len by (simp add: full_bucket unat_probe)
    qed
  qed
qed

text \<open>Writing an entry to a vacant bucket, and deleting one.\<close>

lemma path_free_update:
  assumes "path_free T n table h p" "e < length table" "isEmptyBucket T v \<longrightarrow> isEmptyBucket T (table ! e)"
  shows "path_free T n (table[e := v]) h p"
  using assms unfolding path_free_def by (metis nth_list_update_eq nth_list_update_neq)

lemma write_placed:
  assumes w: "well_placed T n table" and v: "vacant T n table (hashOf T (extractKey T v)) e" "full T v"
    and l: "located T (extractKey T v) table None"
  shows "well_placed T n (table[unat e := v])" "entries T (table[unat e := v]) = insert v (entries T table)"
proof -
  have len: "length table = 2 ^ n" "unat e < length table" using w v(1) by (simp_all add: well_placed_def vacant_def)
  have ne: "\<not> isEmptyBucket T v" using v(2) by (simp add: full_bucket)
  have vk: "valid_key T (extractKey T v)" using v(2) by (simp add: full_def)
  have "distinct_keys T (table[unat e := v])"
    unfolding distinct_keys_def
  proof (intro allI impI)
    fix p r
    assume p: "p < length (table[unat e := v])" "r < length (table[unat e := v])" "p \<noteq> r" "full T (table[unat e := v] ! r)"
    have no: "\<not> matches T (extractKey T v) (table ! i)" if "i < length table" for i using l that by (simp add: located_def)
    consider "p = unat e" | "r = unat e" | "p \<noteq> unat e" "r \<noteq> unat e" by blast
    then show "\<not> matches T (extractKey T (table[unat e := v] ! r)) (table[unat e := v] ! p)"
    proof cases
      case 1
      then have "\<not> keysEqual T (extractKey T (table ! r)) (extractKey T v)" "valid_key T (extractKey T (table ! r))"
        using p no [of r] by (simp_all add: matches_def full_def)
      then show ?thesis using 1 p equal_sym [OF vk] by (auto simp: matches_def)
    next
      case 2
      then show ?thesis using p no [of p] by simp
    next
      case 3
      then show ?thesis using p w by (simp add: well_placed_def distinct_keys_def)
    qed
  qed
  moreover have "path_free T n (table[unat e := v]) (hashOf T (extractKey T (table[unat e := v] ! p))) p"
    if p: "p < 2 ^ n" "full T (table[unat e := v] ! p)" for p
  proof (cases "p = unat e")
    case True
    then show ?thesis using path_free_update v(1) len ne by (simp add: vacant_def)
  next
    case False
    then show ?thesis using path_free_update [of n table _ p "unat e" v] w p len ne by (simp add: well_placed_def)
  qed
  ultimately show "well_placed T n (table[unat e := v])" using w by (simp add: well_placed_def)
  have "\<not> full T (table ! unat e)" using v(1) by (simp add: vacant_def)
  then show "entries T (table[unat e := v]) = insert v (entries T table)"
    using v(2) unfolding entries_update [OF len(2)] entries_nth [of T table] by auto
qed

lemma delete_placed:
  assumes w: "well_placed T n table" and e: "e < length table"
  shows "well_placed T n (table[e := deletedValue T])"
proof -
  have len: "length table = 2 ^ n" using w by (simp add: well_placed_def)
  have "distinct_keys T (table[e := deletedValue T])"
    using w e unfolding well_placed_def distinct_keys_def matches_def
    by (metis buckets(6) length_list_update nth_list_update_eq nth_list_update_neq)
  moreover have "path_free T n (table[e := deletedValue T]) (hashOf T (extractKey T (table[e := deletedValue T] ! p))) p"
    if p: "p < 2 ^ n" "full T (table[e := deletedValue T] ! p)" for p
    using path_free_update [of n table _ p e "deletedValue T"] w p len e
    by (cases "p = e") (simp_all add: well_placed_def)
  ultimately show ?thesis using w by (simp add: well_placed_def)
qed

lemma delete_entries:
  assumes w: "distinct_keys T table" and e: "e < length table" "full T (table ! e)"
  shows "entries T (table[e := deletedValue T]) = entries T table - {table ! e}"
proof -
  have "table ! i \<noteq> table ! e" if "i < length table" "i \<noteq> e" "full T (table ! i)" for i
    using w e that equal_refl unfolding distinct_keys_def matches_def full_def by metis
  then show ?thesis using e(2) unfolding entries_update [OF e(1)] entries_nth [of T table] by auto
qed

lemma empty_table:
  assumes "n < 32"
  shows "well_placed T n (replicate (2 ^ n) (emptyValue T))" "entries T (replicate k (emptyValue T)) = {}"
    "key_count T (replicate k (emptyValue T)) = 0" "deleted_count T (replicate k (emptyValue T)) = 0"
  using assms by (auto simp: well_placed_def distinct_keys_def entries_def key_count_def deleted_count_def filter_replicate)

end

end
