(* ===== verification/WTF_HashTable_Rehash.thy ===== *)
theory WTF_HashTable_Rehash
  imports WTF_HashTable_Inv
begin

text \<open>
  Rehashing: every entry of the old table is inserted into the new one, no assertion fails, and the
  address that is passed along becomes that of the same entry in the new table.
\<close>

lemma no_deleted: "deleted_count T table = 0 \<Longrightarrow> v \<in> set table \<Longrightarrow> \<not> isDeletedBucket T v"
  by (auto simp: deleted_count_def filter_empty_conv)

lemma minus_one_mask: "unat s = 2 ^ n \<Longrightarrow> n < 32 \<Longrightarrow> s - 1 = mask n"
proof -
  assume s: "unat s = 2 ^ n" "n < 32"
  have "s = of_nat (unat s)" by simp
  then have "s = 2 ^ n" by (simp add: s(1))
  then show ?thesis by (simp add: mask_eq_exp_minus_1)
qed

lemma set_bucket_simps [simp]:
  "m_table (set_bucket i v t) = map_option (\<lambda>table. table[unat i := v]) (m_table t)" "m_tableSize (set_bucket i v t) = m_tableSize t"
  "m_tableSizeMask (set_bucket i v t) = m_tableSizeMask t" "m_keyCount (set_bucket i v t) = m_keyCount t"
  "m_deletedCount (set_bucket i v t) = m_deletedCount t"
  by (simp_all add: set_bucket_def)

context hash_traits
begin

lemma reinsert_vacant:
  assumes t: "m_table t = Some table" "m_tableSizeMask t = mask n" "well_placed T n table"
    and c: "deleted_count T table = 0" "key_count T table < 2 ^ n"
    and v: "full T v" "located T (extractKey T v) table None"
  obtains e where "reinsert T v t = Some (set_bucket e v t, e)" "vacant T n table (hashOf T (extractKey T v)) e"
    "isEmptyBucket T (table ! unat e)"
proof -
  have len: "length table = 2 ^ n" using t(3) by (simp add: well_placed_def)
  have vk: "valid_key T (extractKey T v)" using v(1) by (simp add: full_def)
  note id = identity_denotes [OF vk, of "set table"]
  have h: "translatorHash (IdentityHashTranslator T) (extractKey T v) = hashOf T (extractKey T v)" by (simp add: IdentityHashTranslator_def)
  have e: "\<exists>p<length table. isEmptyBucket T (table ! p)" by (rule some_empty) (use c len in simp)
  show thesis
  proof (rule write_located [OF t(3) refl e id], goal_cases)
    case (1 i d)
    then show ?case using v(2) by (auto simp: located_def)
  next
    case (2 i)
    then have "unat i < length table" using len by (simp add: vacant_def)
    then have "get_bucket i t = Some (table ! unat i)" "\<not> isDeletedBucket T (table ! unat i)"
      using t(1) no_deleted [OF c(1)] by (simp_all add: get_bucket_def bucket_def)
    then have "reinsert T v t = Some (set_bucket i v t, i)"
      using 2(1) t(1,2) denotes_checked [OF id] h by (simp add: reinsert_def lookupForWriting_def or_deleted_def Let_def)
    then show ?case using that 2(3,4) by blast
  next
    case (3 i d)
    then have "table ! unat d \<in> set table" using len by (simp add: vacant_def)
    then show ?case using 3(4) no_deleted [OF c(1)] by blast
  qed
qed

lemma distinct_keys_Cons:
  assumes "distinct_keys T (v # rest)"
  shows "distinct_keys T rest" "full T v \<Longrightarrow> w \<in> entries T rest \<Longrightarrow> \<not> keysEqual T (extractKey T v) (extractKey T w)"
proof -
  show "distinct_keys T rest"
    unfolding distinct_keys_def
  proof (intro allI impI)
    fix p r assume "p < length rest" "r < length rest" "p \<noteq> r" "full T (rest ! r)"
    then show "\<not> matches T (extractKey T (rest ! r)) (rest ! p)"
      using assms [unfolded distinct_keys_def, rule_format, of "Suc p" "Suc r"] by simp
  qed
  assume f: "full T v" "w \<in> entries T rest"
  then obtain r where "r < length rest" "rest ! r = w" "full T w" by (auto simp: entries_nth)
  then show "\<not> keysEqual T (extractKey T v) (extractKey T w)"
    using assms [unfolded distinct_keys_def, rule_format, of 0 "Suc r"] f(1) by (simp add: matches_def)
qed

lemma located_after_write:
  assumes "located T q table None" "\<not> keysEqual T (extractKey T v) q"
  shows "located T q (table[e := v]) None"
  using assms by (cases "e < length table") (auto simp: located_def matches_def nth_list_update)

text \<open>What the loop makes of a table and of the address it passes along.\<close>

definition in_rest :: "nat \<Rightarrow> 'v list \<Rightarrow> u32 option \<Rightarrow> bool" where
  "in_rest i rest entry \<longleftrightarrow> (case entry of None \<Rightarrow> False | Some e \<Rightarrow> i \<le> unat e \<and> unat e < i + length rest)"

definition rehashed :: "nat \<Rightarrow> 'v list \<Rightarrow> nat \<Rightarrow> 'v list \<Rightarrow> u32 option \<Rightarrow> u32 option \<Rightarrow> 'v list \<Rightarrow> u32 option \<Rightarrow> bool" where
  "rehashed n table i rest entry new table' new' \<longleftrightarrow> well_placed T n table' \<and> deleted_count T table' = 0 \<and>
     key_count T table' = key_count T table + key_count T rest \<and> entries T table' = entries T table \<union> entries T rest \<and>
     (\<forall>p<2 ^ n. full T (table ! p) \<longrightarrow> table' ! p = table ! p) \<and>
     (if in_rest i rest entry then \<exists>x. new' = Some x \<and> unat x < 2 ^ n \<and> table' ! unat x = rest ! (unat (the entry) - i) else new' = new)"

lemma rehash_loop_inserts:
  assumes t: "m_table t = Some table" "m_tableSizeMask t = mask n" "well_placed T n table"
    and c: "deleted_count T table = 0" "key_count T table + key_count T rest < 2 ^ n"
    and r: "distinct_keys T rest" "\<forall>v\<in>entries T rest. located T (extractKey T v) table None"
    and i: "i + length rest < 2 ^ 32"
    and e: "in_rest i rest entry \<longrightarrow> full T (rest ! (unat (the entry) - i)) \<and> new = None"
  shows "\<exists>table' new'. rehash_loop T entry (of_nat i) rest (t, new) = Some (t\<lparr>m_table := Some table'\<rparr>, new') \<and>
    rehashed n table i rest entry new table' new'"
  using assms
proof (induction rest arbitrary: i table t new)
  case Nil
  have "t\<lparr>m_table := Some table\<rparr> = t" using Nil.prems(1) by (cases t) simp
  moreover have "rehashed n table i [] entry new table new"
    using Nil.prems(3,4) by (auto simp: entries_def key_count_def rehashed_def in_rest_def split: option.split)
  ultimately show ?case by (metis rehash_loop.simps(1))
next
  case (Cons v rest)
  have idx: "unat (of_nat i :: u32) = i" using Cons.prems(8) by (simp add: unsigned_of_nat take_bit_nat_eq_self)
  have here: "entry = Some (of_nat i) \<longleftrightarrow> in_rest i (v # rest) entry \<and> \<not> in_rest (Suc i) rest entry"
    using idx by (cases entry) (auto simp: in_rest_def word_unat_eq_iff)
  have later: "in_rest (Suc i) rest entry \<Longrightarrow> in_rest i (v # rest) entry \<and> (v # rest) ! (unat (the entry) - i) = rest ! (unat (the entry) - Suc i)"
    by (cases entry) (auto simp: in_rest_def nth_Cons' intro: arg_cong [where f = "(!) rest"])
  have suc: "(of_nat i + 1 :: u32) = of_nat (Suc i)" by simp
  note d = distinct_keys_Cons [OF Cons.prems(6)]
  show ?case
  proof (cases "full T v")
    case False
    then have ne: "entry \<noteq> Some (of_nat i)" using Cons.prems(9) idx by (auto simp: in_rest_def)
    then have range: "in_rest i (v # rest) entry \<longleftrightarrow> in_rest (Suc i) rest entry" using here later by blast
    have ent: "entries T (v # rest) = entries T rest" "key_count T (v # rest) = key_count T rest"
      using False by (auto simp: entries_def key_count_def)
    have "\<exists>table' new'. rehash_loop T entry (of_nat (Suc i)) rest (t, new) = Some (t\<lparr>m_table := Some table'\<rparr>, new') \<and>
        rehashed n table (Suc i) rest entry new table' new'"
      by (rule Cons.IH [OF Cons.prems(1-4)]) (use Cons.prems ent d(1) later range in \<open>simp_all\<close>)
    then show ?thesis using False ne ent range later unfolding rehashed_def by (auto simp: full_bucket suc)
  next
    case True
    have loc: "located T (extractKey T v) table None" using Cons.prems(7) True by (simp add: entries_def)
    have ent: "entries T (v # rest) = insert v (entries T rest)" "key_count T (v # rest) = Suc (key_count T rest)"
      using True by (auto simp: entries_def key_count_def)
    obtain x where x: "reinsert T v t = Some (set_bucket x v t, x)" "vacant T n table (hashOf T (extractKey T v)) x" "isEmptyBucket T (table ! unat x)"
      using reinsert_vacant [OF Cons.prems(1-4) _ True loc] Cons.prems(5) ent(2) by auto
    let ?table = "table[unat x := v]" and ?new = "if entry = Some (of_nat i) then Some x else new"
    have len: "length table = 2 ^ n" "unat x < length table" using Cons.prems(3) x(2) by (simp_all add: well_placed_def vacant_def)
    note p = write_placed [OF Cons.prems(3) x(2) True loc]
    have cnt: "key_count T ?table = Suc (key_count T table)" "deleted_count T ?table = 0"
      using key_count_update [OF len(2), of T v] deleted_count_update [OF len(2), of T v] True x(3) Cons.prems(4)
      by (simp_all add: full_bucket)
    have "\<forall>w\<in>entries T rest. located T (extractKey T w) ?table None"
      using Cons.prems(7) located_after_write d(2) [OF True] ent(1) by blast
    moreover have "in_rest (Suc i) rest entry \<longrightarrow> full T (rest ! (unat (the entry) - Suc i)) \<and> ?new = None"
      using Cons.prems(9) later here by auto
    moreover have "m_table (set_bucket x v t) = Some ?table" using Cons.prems(1) by simp
    ultimately have "\<exists>table' new'. rehash_loop T entry (of_nat (Suc i)) rest (set_bucket x v t, ?new) =
        Some ((set_bucket x v t)\<lparr>m_table := Some table'\<rparr>, new') \<and> rehashed n ?table (Suc i) rest entry ?new table' new'"
      by (intro Cons.IH) (use Cons.prems p(1) cnt ent(2) d(1) in simp_all)
    then obtain table' new' where ih: "rehash_loop T entry (of_nat (Suc i)) rest (set_bucket x v t, ?new) = Some (t\<lparr>m_table := Some table'\<rparr>, new')"
      "rehashed n ?table (Suc i) rest entry ?new table' new'"
      by (auto simp: set_bucket_def)
    have none: "entry = Some (of_nat i) \<Longrightarrow> new = None" using Cons.prems(9) here by blast
    have kept: "table' ! unat x = v" using ih(2) len True unfolding rehashed_def by simp
    have "\<forall>q<2 ^ n. full T (table ! q) \<longrightarrow> q \<noteq> unat x" using x(3) by (auto simp: full_bucket)
    then have old: "\<forall>q<2 ^ n. full T (table ! q) \<longrightarrow> table' ! q = table ! q"
      using ih(2) unfolding rehashed_def by (metis nth_list_update_neq)
    have moved: "if in_rest i (v # rest) entry then \<exists>y. new' = Some y \<and> unat y < 2 ^ n \<and> table' ! unat y = (v # rest) ! (unat (the entry) - i) else new' = new"
    proof (cases "entry = Some (of_nat i)")
      case True
      then have "new' = Some x" using ih(2) here unfolding rehashed_def by simp
      then show ?thesis using True here kept len idx by simp
    next
      case False
      then have "in_rest i (v # rest) entry \<longleftrightarrow> in_rest (Suc i) rest entry" using here later by blast
      then show ?thesis using ih(2) False later unfolding rehashed_def by simp
    qed
    have "rehashed n table i (v # rest) entry new table' new'"
      unfolding rehashed_def using moved old ih(2) [unfolded rehashed_def] p(2) cnt ent by (simp del: nth_Cons_Suc)
    moreover have "rehash_loop T entry (of_nat i) (v # rest) (t, new) = Some (t\<lparr>m_table := Some table'\<rparr>, new')"
      using ih(1) x(1) True none by (cases "entry = Some (of_nat i)") (simp_all add: full_bucket suc)
    ultimately show ?thesis by blast
  qed
qed

lemma rehash_correct:
  assumes old: "old = (case m_table t of None \<Rightarrow> [] | Some table \<Rightarrow> table)" "length old < 2 ^ 32" "distinct_keys T old"
    and s: "unat newSize = 2 ^ n" "n < 32" "key_count T old < 2 ^ n"
    and e: "\<forall>e. entry = Some e \<longrightarrow> unat e < length old \<and> full T (old ! unat e)"
  obtains table' new' where
    "rehash T newSize entry t = Some (t\<lparr>m_tableSize := newSize, m_tableSizeMask := mask n, m_table := Some table', m_deletedCount := 0\<rparr>, new')"
    "well_placed T n table'" "deleted_count T table' = 0" "key_count T table' = key_count T old" "entries T table' = entries T old"
    "\<forall>e. entry = Some e \<longrightarrow> (\<exists>x. new' = Some x \<and> unat x < 2 ^ n \<and> table' ! unat x = old ! unat e)"
proof -
  let ?t = "t\<lparr>m_tableSize := newSize, m_tableSizeMask := mask n, m_table := Some (allocateTable T newSize)\<rparr>"
  have a: "allocateTable T newSize = replicate (2 ^ n) (emptyValue T)" using s(1) by (simp add: allocateTable_def)
  note new = empty_table [OF s(2)]
  have "\<exists>table' new'. rehash_loop T entry (of_nat 0) old (?t, None) = Some (?t\<lparr>m_table := Some table'\<rparr>, new') \<and>
      rehashed n (allocateTable T newSize) 0 old entry None table' new'"
  proof (rule rehash_loop_inserts)
    show "\<forall>v\<in>entries T old. located T (extractKey T v) (allocateTable T newSize) None"
      by (simp add: a located_def matches_def)
    show "in_rest 0 old entry \<longrightarrow> full T (old ! (unat (the entry) - 0)) \<and> None = None"
      using e by (auto simp: in_rest_def split: option.splits)
  qed (use a new s old in \<open>simp_all\<close>)
  then obtain table' new' where l: "rehash_loop T entry 0 old (?t, None) = Some (?t\<lparr>m_table := Some table'\<rparr>, new')"
    "rehashed n (allocateTable T newSize) 0 old entry None table' new'" by auto
  have "rehash T newSize entry t = Some (t\<lparr>m_tableSize := newSize, m_tableSizeMask := mask n, m_table := Some table', m_deletedCount := 0\<rparr>, new')"
    using l(1) minus_one_mask [OF s(1,2)] unfolding rehash_def old(1) [symmetric] by simp
  moreover have "\<forall>e. entry = Some e \<longrightarrow> (\<exists>x. new' = Some x \<and> unat x < 2 ^ n \<and> table' ! unat x = old ! unat e)"
    using l(2) e by (auto simp: rehashed_def in_rest_def)
  ultimately show thesis using l(2) that unfolding rehashed_def a using new by auto
qed

end

end
