(* ===== verification/WTF_HashTable_Add.thy ===== *)
theory WTF_HashTable_Add
  imports WTF_HashTable_Rehash
begin

text \<open>
  The invariant of a hash table and what adding does: it returns, keeps the invariant and the load
  factors, and either finds the entry of the key or makes one, whose new address it returns, also when
  the table was expanded.
\<close>

section \<open>The invariant of the table\<close>

definition buckets_of :: "'v HashTable \<Rightarrow> 'v list" where
  "buckets_of t = (case m_table t of None \<Rightarrow> [] | Some table \<Rightarrow> table)"

definition table_entries :: "('k, 'v) HashTraits \<Rightarrow> 'v HashTable \<Rightarrow> 'v set" where
  "table_entries T t = entries T (buckets_of t)"

definition allocated :: "('k, 'v) HashTraits \<Rightarrow> nat \<Rightarrow> 'v list \<Rightarrow> 'v HashTable \<Rightarrow> bool" where
  "allocated T n table t \<longleftrightarrow> m_table t = Some table \<and> well_placed T n table \<and> n \<le> 30 \<and> unat (m_tableSize t) = 2 ^ n \<and>
     m_tableSizeMask t = mask n \<and> unat (m_keyCount t) = key_count T table \<and> unat (m_deletedCount t) = deleted_count T table \<and>
     minimumTableSize T \<le> m_tableSize t"

definition loaded :: "('k, 'v) HashTraits \<Rightarrow> 'v list \<Rightarrow> nat" where
  "loaded T table = 2 * (key_count T table + deleted_count T table)"

definition table_inv :: "('k, 'v) HashTraits \<Rightarrow> 'v HashTable \<Rightarrow> bool" where
  "table_inv T t \<longleftrightarrow> t = new_HashTable \<or> (\<exists>n table. allocated T n table t \<and> loaded T table < 2 ^ n)"

lemma allocated_entries: "allocated T n table t \<Longrightarrow> table_entries T t = entries T table"
  by (simp add: allocated_def table_entries_def buckets_of_def)

lemma new_entries [simp]: "table_entries T new_HashTable = {}"
  by (simp add: table_entries_def buckets_of_def new_HashTable_def entries_def)

lemma power_bound: "n \<le> 30 \<Longrightarrow> (2::nat) ^ n \<le> 1073741824"
  using power_increasing [of n 30 "2::nat"] by simp

lemma expand_iff:
  assumes "allocated T n table t" "loaded T table \<le> 2 ^ n"
  shows "shouldExpand t \<longleftrightarrow> loaded T table = 2 ^ n"
proof -
  have "loaded T table \<le> 1073741824" using assms power_bound [of n] by (simp add: allocated_def)
  then have "unat ((m_keyCount t + m_deletedCount t) * m_maxLoad) = loaded T table"
    using assms(1) by (simp add: allocated_def loaded_def m_maxLoad_def unat_word_ariths)
  then show ?thesis using assms by (auto simp: shouldExpand_def word_le_nat_alt allocated_def)
qed

lemma in_place_iff:
  assumes "allocated T n table t" "loaded T table \<le> 2 ^ n"
  shows "mustRehashInPlace t \<longleftrightarrow> 6 * key_count T table < 2 * 2 ^ n"
proof -
  have "6 * key_count T table < 4294967296" "2 * (2::nat) ^ n < 4294967296"
    using assms power_bound [of n] by (simp_all add: allocated_def loaded_def)
  then have "unat (m_keyCount t * m_minLoad) = 6 * key_count T table" "unat (m_tableSize t * 2) = 2 * 2 ^ n"
    using assms(1) by (simp_all add: allocated_def m_minLoad_def unat_word_ariths)
  then show ?thesis by (simp add: mustRehashInPlace_def word_less_nat_alt)
qed

lemma shrink_iff:
  assumes "allocated T n table t" "loaded T table \<le> 2 ^ n"
  shows "shouldShrink T t \<longleftrightarrow> 6 * key_count T table < 2 ^ n \<and> unat (minimumTableSize T) < 2 ^ n"
proof -
  have "6 * key_count T table < 4294967296" using assms power_bound [of n] by (simp add: allocated_def loaded_def)
  then have "unat (m_keyCount t * m_minLoad) = 6 * key_count T table"
    using assms(1) by (simp add: allocated_def m_minLoad_def unat_word_ariths)
  then show ?thesis using assms(1) by (simp add: shouldShrink_def word_less_nat_alt allocated_def)
qed

lemma new_not_shrink [simp]: "\<not> shouldShrink T new_HashTable"
  by (simp add: shouldShrink_def new_HashTable_def m_minLoad_def)

lemma even_load: "0 < n \<Longrightarrow> loaded T table < 2 ^ n \<Longrightarrow> loaded T table + 2 \<le> 2 ^ n"
proof -
  assume "0 < n" "loaded T table < 2 ^ n"
  then obtain m where m: "n = Suc m" "2 * (key_count T table + deleted_count T table) < 2 * 2 ^ m" by (cases n) (simp_all add: loaded_def)
  then have "key_count T table + deleted_count T table < 2 ^ m" by (simp only: nat_mult_less_cancel_disj)
  then show ?thesis using m(1) by (simp add: loaded_def)
qed

lemma has_empty: "allocated T n table t \<Longrightarrow> loaded T table < 2 ^ n \<Longrightarrow> \<exists>p<length table. isEmptyBucket T (table ! p)"
  by (rule some_empty) (auto simp: loaded_def allocated_def well_placed_def)

section \<open>Expanding\<close>

text \<open>The bound keeps the size of the table within 32 bits.\<close>

definition key_bound :: nat where
  "key_bound = 2 ^ 28"

context hash_traits
begin

lemma minimum_exponent: obtains n where "2 \<le> n" "n \<le> 30" "unat (minimumTableSize T) = 2 ^ n"
proof -
  obtain n where n: "2 \<le> n" "n \<le> 30" "minimumTableSize T = 2 ^ n" using minimum by blast
  have "unat (of_nat (2 ^ n) :: u32) = 2 ^ n" by (rule unat_small, rule le_less_trans [OF power_bound [OF n(2)]]) simp
  then have "unat (2 ^ n :: u32) = 2 ^ n" by simp
  then show thesis using n that by simp
qed

lemma allocated_exponent: "allocated T n table t \<Longrightarrow> 2 \<le> n"
proof -
  assume a: "allocated T n table t"
  obtain m where m: "2 \<le> m" "unat (minimumTableSize T) = 2 ^ m" using minimum_exponent by blast
  moreover have "unat (minimumTableSize T) \<le> unat (m_tableSize t)" "unat (m_tableSize t) = 2 ^ n"
    using a by (simp_all add: allocated_def word_le_nat_alt)
  ultimately have "(2::nat) ^ m \<le> 2 ^ n" by simp
  then show ?thesis using m(1) by simp
qed

lemma rehash_allocated:
  assumes old: "length (buckets_of t) < 2 ^ 32" "distinct_keys T (buckets_of t)" "unat (m_keyCount t) = key_count T (buckets_of t)"
    and s: "unat newSize = 2 ^ n" "n \<le> 30" "key_count T (buckets_of t) < 2 ^ n" "minimumTableSize T \<le> newSize"
    and e: "\<forall>e. entry = Some e \<longrightarrow> unat e < length (buckets_of t) \<and> full T (buckets_of t ! unat e)"
  obtains t' table' new' where "rehash T newSize entry t = Some (t', new')" "allocated T n table' t'" "deleted_count T table' = 0"
    "key_count T table' = key_count T (buckets_of t)" "entries T table' = table_entries T t"
    "\<forall>e. entry = Some e \<longrightarrow> (\<exists>x. new' = Some x \<and> get_bucket x t' = Some (buckets_of t ! unat e))"
proof -
  obtain table' new' where r:
    "rehash T newSize entry t = Some (t\<lparr>m_tableSize := newSize, m_tableSizeMask := mask n, m_table := Some table', m_deletedCount := 0\<rparr>, new')"
    "well_placed T n table'" "deleted_count T table' = 0" "key_count T table' = key_count T (buckets_of t)"
    "entries T table' = entries T (buckets_of t)"
    "\<forall>e. entry = Some e \<longrightarrow> (\<exists>x. new' = Some x \<and> unat x < 2 ^ n \<and> table' ! unat x = buckets_of t ! unat e)"
    by (rule rehash_correct [of "buckets_of t" t newSize n entry]) (use old s e in \<open>simp_all add: buckets_of_def\<close>)
  have "length table' = 2 ^ n" using r(2) by (simp add: well_placed_def)
  then have addr: "\<forall>e. entry = Some e \<longrightarrow> (\<exists>x. new' = Some x \<and>
      get_bucket x (t\<lparr>m_tableSize := newSize, m_tableSizeMask := mask n, m_table := Some table', m_deletedCount := 0\<rparr>) = Some (buckets_of t ! unat e))"
    using r(6) by (fastforce simp: get_bucket_def bucket_def)
  have al: "allocated T n table' (t\<lparr>m_tableSize := newSize, m_tableSizeMask := mask n, m_table := Some table', m_deletedCount := 0\<rparr>)"
    using r(2-4) s old(3) by (simp add: allocated_def)
  show thesis by (rule that [OF r(1) al r(3,4) _ addr]) (use r(5) in \<open>simp add: table_entries_def\<close>)
qed

lemma new_simps [simp]: "buckets_of new_HashTable = []" "m_keyCount new_HashTable = 0" "m_tableSize new_HashTable = 0"
  by (simp_all add: buckets_of_def new_HashTable_def)

lemma distinct_Nil [simp]: "distinct_keys T []" "key_count T [] = 0"
  by (simp_all add: distinct_keys_def key_count_def)

lemma first_table:
  obtains t n table where "map_option fst (HashTable_expand T None new_HashTable) = Some t" "allocated T n table t" "loaded T table = 0"
    "entries T table = {}" "\<not> shouldShrink T t"
proof -
  obtain n where n: "2 \<le> n" "n \<le> 30" "unat (minimumTableSize T) = 2 ^ n" using minimum_exponent by blast
  obtain t table new' where r: "rehash T (minimumTableSize T) None new_HashTable = Some (t, new')" "allocated T n table t"
    "deleted_count T table = 0" "key_count T table = key_count T []" "entries T table = {}"
    by (rule rehash_allocated [of new_HashTable "minimumTableSize T" n None])
      (use n in \<open>simp_all\<close>)
  have l: "loaded T table = 0" using r(3,4) by (simp add: loaded_def)
  have "map_option fst (HashTable_expand T None new_HashTable) = Some t" using r(1) by (simp add: HashTable_expand_def)
  moreover have "\<not> shouldShrink T t" using shrink_iff [OF r(2)] l n(3) r(2) by (simp add: allocated_def shouldShrink_def)
  ultimately show thesis using that r(2,5) l by blast
qed

lemma expand_null_ok:
  assumes "table_inv T t"
  obtains t' n table where "expand_null T t = Some t'" "allocated T n table t'" "loaded T table < 2 ^ n" "entries T table = table_entries T t"
    "\<not> shouldShrink T t \<longrightarrow> \<not> shouldShrink T t'" "t \<noteq> new_HashTable \<longrightarrow> t' = t" "key_count T table = unat (m_keyCount t)"
proof (cases "t = new_HashTable")
  case True
  obtain t' n table where "map_option fst (HashTable_expand T None new_HashTable) = Some t'" "allocated T n table t'" "loaded T table = 0"
    "entries T table = {}" "\<not> shouldShrink T t'" by (rule first_table)
  moreover have "m_table t = None" using True by (simp add: new_HashTable_def)
  ultimately show thesis using that [of t' n table] True by (simp add: expand_null_def loaded_def)
next
  case False
  then obtain n table where a: "allocated T n table t" "loaded T table < 2 ^ n" using assms by (auto simp: table_inv_def)
  then have "expand_null T t = Some t" by (simp add: expand_null_def allocated_def)
  moreover have "key_count T table = unat (m_keyCount t)" using a(1) by (simp add: allocated_def)
  ultimately show thesis using that a allocated_entries [OF a(1)] by metis
qed

lemma expand_allocated:
  assumes a: "allocated T n table t" and l: "loaded T table = 2 ^ n" and k: "key_count T table \<le> key_bound"
    and e: "unat e < 2 ^ n" "full T (table ! unat e)"
  obtains t' n' table' x where "HashTable_expand T (Some e) t = Some (t', Some x)" "allocated T n' table' t'" "loaded T table' < 2 ^ n'"
    "entries T table' = entries T table" "get_bucket x t' = Some (table ! unat e)" "\<not> shouldShrink T t \<longrightarrow> \<not> shouldShrink T t'"
proof -
  have len: "length table = 2 ^ n" "n \<le> 30" using a by (simp_all add: allocated_def well_placed_def)
  have b: "buckets_of t = table" using a by (simp add: allocated_def buckets_of_def)
  have p: "0 < (2::nat) ^ n" "(2::nat) ^ n \<le> 1073741824" using power_bound [OF len(2)] by simp_all
  have nz: "m_tableSize t \<noteq> 0" using a p(1) by (auto simp: allocated_def)
  have min: "unat (minimumTableSize T) \<le> 2 ^ n" using a by (simp add: allocated_def word_le_nat_alt)
  define n' where "n' = (if mustRehashInPlace t then n else Suc n)"
  define newSize where "newSize = (if mustRehashInPlace t then m_tableSize t else m_tableSize t * 2)"
  have k2: "2 * key_count T table \<le> 2 ^ n" using l by (simp add: loaded_def)
  have in_place: "mustRehashInPlace t \<longleftrightarrow> 6 * key_count T table < 2 * 2 ^ n" using in_place_iff [OF a] l by simp
  have n': "n' \<le> 30"
  proof (cases "mustRehashInPlace t")
    case False
    then have "(2::nat) ^ Suc n \<le> 6 * 2 ^ 28" using in_place k by (simp add: key_bound_def)
    also have "\<dots> < 2 ^ 31" by simp
    finally have "Suc n < 31" by (simp only: power_strict_increasing_iff)
    then show ?thesis using False by (simp add: n'_def)
  qed (simp add: n'_def len)
  have size: "unat newSize = 2 ^ n'" using a p(2) by (simp add: newSize_def n'_def allocated_def unat_word_ariths)
  have keys2: "2 * key_count T table < 2 ^ n'" 
  proof (cases "mustRehashInPlace t")
    case True
    then have "2 * key_count T table < 2 ^ n" using in_place p(1) by linarith
    then show ?thesis using True by (simp add: n'_def)
  next
    case False
    have "2 * key_count T table < 2 * 2 ^ n" using k2 p(1) by linarith
    then show ?thesis using False by (simp add: n'_def)
  qed
  then have keys: "key_count T table < 2 ^ n'" by linarith
  have old: "length (buckets_of t) < 2 ^ 32" "distinct_keys T (buckets_of t)" "unat (m_keyCount t) = key_count T (buckets_of t)"
    using a b len p(2) by (simp_all add: allocated_def well_placed_def)
  have ms: "minimumTableSize T \<le> newSize" using min size by (simp add: word_le_nat_alt n'_def)
  obtain t' table' new' where r: "rehash T newSize (Some e) t = Some (t', new')" "allocated T n' table' t'" "deleted_count T table' = 0"
    "key_count T table' = key_count T table" "entries T table' = table_entries T t"
    "\<exists>x. new' = Some x \<and> get_bucket x t' = Some (table ! unat e)"
    by (rule rehash_allocated [of t newSize n' "Some e"])
      (use old size n' keys ms b e len in \<open>simp_all\<close>)
  have "loaded T table' < 2 ^ n'" using keys2 r(3,4) by (simp add: loaded_def)
  moreover have "\<not> shouldShrink T t \<longrightarrow> \<not> shouldShrink T t'"
    using shrink_iff [OF a] shrink_iff [OF r(2)] l r(4) calculation in_place min by (auto simp: n'_def split: if_splits)
  moreover have "HashTable_expand T (Some e) t = rehash T newSize (Some e) t" using nz by (simp add: HashTable_expand_def newSize_def)
  ultimately show thesis using that r allocated_entries [OF a] by metis
qed

text \<open>The end of adding: the entry is in its bucket, but the number of keys is still the old one.\<close>

lemma finish_add_ok:
  assumes a: "allocated T n table (t\<lparr>m_keyCount := m_keyCount t + 1\<rparr>)" and l: "loaded T table \<le> 2 ^ n" and k: "key_count T table \<le> key_bound"
    and e: "unat e < 2 ^ n" "full T (table ! unat e)"
    and c: "compact \<longrightarrow> 2 ^ n \<le> 6 * key_count T table \<or> 2 ^ n \<le> unat (minimumTableSize T)"
  obtains t' x where "finish_add T e t = Some (t', Some x, True)" "table_inv T t'" "table_entries T t' = entries T table"
    "get_bucket x t' = Some (table ! unat e)" "compact \<longrightarrow> \<not> shouldShrink T t'"
proof (cases "shouldExpand (t\<lparr>m_keyCount := m_keyCount t + 1\<rparr>)")
  case False
  then have "loaded T table < 2 ^ n" using expand_iff [OF a l] l by simp
  moreover have "finish_add T e t = Some (t\<lparr>m_keyCount := m_keyCount t + 1\<rparr>, Some e, True)" using False by (simp add: finish_add_def)
  moreover have "compact \<longrightarrow> \<not> shouldShrink T (t\<lparr>m_keyCount := m_keyCount t + 1\<rparr>)" using c shrink_iff [OF a l] by auto
  moreover have "get_bucket e (t\<lparr>m_keyCount := m_keyCount t + 1\<rparr>) = Some (table ! unat e)"
    using a e by (simp add: get_bucket_def bucket_def allocated_def well_placed_def)
  ultimately show thesis using that [of "t\<lparr>m_keyCount := m_keyCount t + 1\<rparr>" e] a allocated_entries [OF a] unfolding table_inv_def by blast
next
  case True
  then have full_load: "loaded T table = 2 ^ n" using expand_iff [OF a l] by simp
  obtain t' n' table' x where r: "HashTable_expand T (Some e) (t\<lparr>m_keyCount := m_keyCount t + 1\<rparr>) = Some (t', Some x)"
    "allocated T n' table' t'" "loaded T table' < 2 ^ n'" "entries T table' = entries T table" "get_bucket x t' = Some (table ! unat e)"
    "\<not> shouldShrink T (t\<lparr>m_keyCount := m_keyCount t + 1\<rparr>) \<longrightarrow> \<not> shouldShrink T t'"
    by (rule expand_allocated [OF a full_load k e])
  have "compact \<longrightarrow> \<not> shouldShrink T t'" using r(6) c shrink_iff [OF a l] by auto
  moreover have "finish_add T e t = Some (t', Some x, True)" using True r(1) by (simp add: finish_add_def)
  ultimately show thesis using that r(2-5) allocated_entries [OF r(2)] unfolding table_inv_def by metis
qed

text \<open>Writing an entry to the bucket that the loop has found.\<close>

lemma write_entry:
  assumes a: "allocated T n table t" and l: "loaded T table < 2 ^ n" and k: "key_count T table < key_bound"
    and v: "vacant T n table (hashOf T (extractKey T v)) e" "full T v" "located T (extractKey T v) table None"
    and d: "t2 = (if isDeletedBucket T (table ! unat e) then (set_bucket e (emptyValue T) t)\<lparr>m_deletedCount := m_deletedCount t - 1\<rparr> else t)"
  obtains t' x where "finish_add T e (set_bucket e v t2) = Some (t', Some x, True)" "table_inv T t'"
    "table_entries T t' = insert v (entries T table)" "get_bucket x t' = Some v" "\<not> shouldShrink T t \<longrightarrow> \<not> shouldShrink T t'"
proof -
  let ?table = "table[unat e := v]" and ?t = "(set_bucket e v t2)\<lparr>m_keyCount := m_keyCount (set_bucket e v t2) + 1\<rparr>"
  have w: "well_placed T n table" "unat e < length table" "length table = 2 ^ n" "n \<le> 30"
    using a v(1) by (simp_all add: allocated_def well_placed_def vacant_def)
  note p = write_placed [OF w(1) v]
  have old: "\<not> full T (table ! unat e)" using v(1) by (simp add: vacant_def)
  have nd: "\<not> isDeletedBucket T v" using v(2) by (simp add: full_bucket)
  have kc: "key_count T ?table = Suc (key_count T table)" using key_count_update [OF w(2), of T v] old v(2) by simp
  have dc: "deleted_count T ?table + of_bool (isDeletedBucket T (table ! unat e)) = deleted_count T table"
    using deleted_count_update [OF w(2), of T v] nd by simp
  have load: "loaded T ?table \<le> 2 ^ n"
    using even_load [OF _ l] allocated_exponent [OF a] kc dc by (simp add: loaded_def)
  have bound: "2 * key_count T table < 1073741824" using l power_bound [OF w(4)] by (simp add: loaded_def)
  have "unat (m_deletedCount t2) = deleted_count T ?table"
  proof (cases "isDeletedBucket T (table ! unat e)")
    case True
    then have "unat (m_deletedCount t) = Suc (deleted_count T ?table)" using dc a by (simp add: allocated_def)
    moreover from this have "unat (m_deletedCount t - 1) = unat (m_deletedCount t) - 1" by (metis nat.distinct(1) unat_minus_one unsigned_0)
    ultimately show ?thesis using True d by simp
  next
    case False
    then show ?thesis using dc d a by (simp add: allocated_def)
  qed
  moreover have "unat (m_keyCount t + 1) = Suc (key_count T table)" using a bound by (simp add: allocated_def unat_word_ariths)
  moreover have "m_table (set_bucket e v t2) = Some ?table" "m_keyCount t2 = m_keyCount t" "m_tableSize t2 = m_tableSize t" "m_tableSizeMask t2 = m_tableSizeMask t"
    using d a by (simp_all add: allocated_def)
  ultimately have al: "allocated T n ?table ?t" using a kc p(1) by (simp add: allocated_def)
  have c: "\<not> shouldShrink T t \<longrightarrow> 2 ^ n \<le> 6 * key_count T ?table \<or> 2 ^ n \<le> unat (minimumTableSize T)"
    using shrink_iff [OF a] l kc by auto
  show thesis
    by (rule finish_add_ok [OF al load, of e "\<not> shouldShrink T t"]) (use k kc w v(2) p(2) c that in \<open>auto simp: key_bound_def\<close>)
qed

section \<open>Adding\<close>

lemma add_ok:
  assumes inv: "table_inv T t" and k: "unat (m_keyCount t) < key_bound" and d: "denotes T tr key q (table_entries T t)"
    and v: "v = translate tr key extra (hashOf T q)" "full T v" "keysEqual T (extractKey T v) q"
  obtains (found) x u where "HashTable_add T tr key extra t = Some (t, Some x, False)"
      "HashTable_addPassingHashCode T tr key extra t = Some (t, Some x, False)"
      "u \<in> table_entries T t" "matches T q u" "get_bucket x t = Some u"
  | (added) t' x where "HashTable_add T tr key extra t = Some (t', Some x, True)"
      "HashTable_addPassingHashCode T tr key extra t = Some (t', Some x, True)"
      "\<forall>u\<in>table_entries T t. \<not> matches T q u" "table_inv T t'" "table_entries T t' = insert v (table_entries T t)"
      "get_bucket x t' = Some v" "\<not> shouldShrink T t \<longrightarrow> \<not> shouldShrink T t'"
proof -
  obtain t1 n table where t1: "expand_null T t = Some t1" "allocated T n table t1" "loaded T table < 2 ^ n" "entries T table = table_entries T t"
    "\<not> shouldShrink T t \<longrightarrow> \<not> shouldShrink T t1" "t \<noteq> new_HashTable \<longrightarrow> t1 = t" "key_count T table = unat (m_keyCount t)"
    by (rule expand_null_ok [OF inv])
  have q: "valid_key T q" "translatorHash tr key = hashOf T q" using d by (simp_all add: denotes_def)
  have vk: "valid_key T (extractKey T v)" using v(2) by (simp add: full_def)
  have vh: "hashOf T (extractKey T v) = hashOf T q" by (rule equal_hash [OF vk q(1) v(3)])
  have w: "well_placed T n table" "length table = 2 ^ n" "m_table t1 = Some table" "m_tableSizeMask t1 = mask n"
    using t1(2) by (simp_all add: allocated_def well_placed_def)
  have d': "denotes T tr key q (set table)" using denotes_subset [OF d] t1(4) by (auto simp: entries_def)
  have ck: "checkKey T tr key" by (rule denotes_checked [OF d])
  note e = has_empty [OF t1(2,3)]
  have none: "located T (extractKey T v) table None" if "located T q table None"
    using that equal_trans [OF _ vk q(1) _ v(3)] by (auto simp: located_def matches_def full_def)
  have kb: "key_count T table < key_bound" using k t1(7) by simp
  have absent: "\<forall>u\<in>table_entries T t. \<not> matches T q u" if "located T q table None"
    using that unfolding t1(4) [symmetric] by (auto simp: located_def entries_nth)
  show thesis
  proof (rule write_located [OF w(1) refl e d'], goal_cases)
    case (1 i d2)
    let ?u = "table ! unat i"
    have u: "unat i < length table" "matches T q ?u" using 1(2) by (simp_all add: located_def)
    then have m: "?u \<in> table_entries T t" unfolding t1(4) [symmetric] by (simp add: entries_def matches_def)
    then have eq: "t1 = t" using t1(6) by auto
    have "get_bucket i t = Some ?u" using u(1) w(3) eq by (simp add: get_bucket_def bucket_def)
    moreover have "HashTable_add T tr key extra t = Some (t, Some i, False)"
      using 1(1) ck t1(1) eq w(3,4) by (simp add: HashTable_add_def Let_def)
    moreover have "HashTable_addPassingHashCode T tr key extra t = Some (t, Some i, False)"
      using 1(1) ck t1(1) eq w(3,4) by (simp add: HashTable_addPassingHashCode_def fullLookupForWriting_def or_deleted_def Let_def)
    ultimately show thesis using found u(2) m by blast
  next
    case (2 i)
    have nd: "\<not> isDeletedBucket T (table ! unat i)" using 2(4) exclusive by (auto simp: isEmptyBucket_def isDeletedBucket_def)
    have gb: "get_bucket i t1 = Some (table ! unat i)" using 2(3) w by (simp add: get_bucket_def bucket_def vacant_def)
    obtain t' x where r: "finish_add T i (set_bucket i v t1) = Some (t', Some x, True)" "table_inv T t'"
      "table_entries T t' = insert v (entries T table)" "get_bucket x t' = Some v" "\<not> shouldShrink T t1 \<longrightarrow> \<not> shouldShrink T t'"
      using write_entry [OF t1(2,3) kb 2(3) [folded vh] v(2) none [OF 2(2)] refl] nd by (auto simp: if_not_P)
    have "HashTable_add T tr key extra t = Some (t', Some x, True)"
      using 2(1) ck t1(1) w(3,4) r(1) v(1) q(2) by (simp add: HashTable_add_def Let_def)
    moreover have "HashTable_addPassingHashCode T tr key extra t = Some (t', Some x, True)"
      using 2(1) ck t1(1) w(3,4) r(1) v(1) q(2) nd gb by (simp add: HashTable_addPassingHashCode_def fullLookupForWriting_def or_deleted_def Let_def)
    ultimately show thesis using added absent [OF 2(2)] r(2-5) t1(4,5) by metis
  next
    case (3 i d2)
    have gb: "get_bucket d2 t1 = Some (table ! unat d2)" using 3(3) w by (simp add: get_bucket_def bucket_def vacant_def)
    obtain t' x where r: "finish_add T d2 (set_bucket d2 v ((set_bucket d2 (emptyValue T) t1)\<lparr>m_deletedCount := m_deletedCount t1 - 1\<rparr>)) = Some (t', Some x, True)"
      "table_inv T t'" "table_entries T t' = insert v (entries T table)" "get_bucket x t' = Some v" "\<not> shouldShrink T t1 \<longrightarrow> \<not> shouldShrink T t'"
      using write_entry [OF t1(2,3) kb 3(3) [folded vh] v(2) none [OF 3(2)] refl] 3(4) by (auto simp: if_P)
    have "HashTable_add T tr key extra t = Some (t', Some x, True)"
      using 3(1) ck t1(1) w(3,4) r(1) v(1) q(2) by (simp add: HashTable_add_def Let_def)
    moreover have "HashTable_addPassingHashCode T tr key extra t = Some (t', Some x, True)"
      using 3(1,4) ck t1(1) w(3,4) r(1) v(1) q(2) gb by (simp add: HashTable_addPassingHashCode_def fullLookupForWriting_def or_deleted_def Let_def)
    ultimately show thesis using added absent [OF 3(2)] r(2-5) t1(4,5) by metis
  qed
qed

end

end
