(* ===== verification/WTF_HashTable_Remove.thy ===== *)
theory WTF_HashTable_Remove
  imports WTF_HashTable_Add
begin

text \<open>
  Finding, removing one or all entries with a property, clearing, and the consistency check that the
  debug build has for its tables.
\<close>

context hash_traits
begin

section \<open>Finding\<close>

lemma find_ok:
  assumes inv: "table_inv T t" and d: "denotes T tr key q (table_entries T t)"
  obtains (absent) "HashTable_find T tr key t = Some (HashTable_end t)" "HashTable_contains T tr key t = Some False"
      "HashTable_lookup T tr key t = Some None" "\<forall>u\<in>table_entries T t. \<not> matches T q u"
  | (present) x u where "HashTable_find T tr key t = Some x" "HashTable_contains T tr key t = Some True"
      "HashTable_lookup T tr key t = Some (Some x)" "x \<noteq> HashTable_end t" "get_bucket x t = Some u" "u \<in> table_entries T t" "matches T q u"
proof (cases "t = new_HashTable")
  case True
  then have "m_table t = None" by (simp add: new_HashTable_def)
  then show thesis using absent True denotes_checked [OF d]
    by (simp add: HashTable_find_def HashTable_contains_def HashTable_lookup_def)
next
  case False
  then obtain n table where a: "allocated T n table t" "loaded T table < 2 ^ n" using inv by (auto simp: table_inv_def)
  then have w: "well_placed T n table" "length table = 2 ^ n" "m_table t = Some table" "m_tableSizeMask t = mask n" "unat (m_tableSize t) = 2 ^ n"
    by (simp_all add: allocated_def well_placed_def)
  note ent = allocated_entries [OF a(1)]
  have d': "denotes T tr key q (set table)" using denotes_subset [OF d] ent by (auto simp: entries_def)
  obtain r where r: "lookup_loop T tr key table (mask n) (translatorHash tr key) (translatorHash tr key AND mask n) 0 = Some r" "located T q table r"
    using lookup_located [OF w(1) refl has_empty [OF a] d'] by blast
  then have l: "HashTable_lookup T tr key t = Some r" using denotes_checked [OF d] w(3,4) by (simp add: HashTable_lookup_def Let_def)
  show thesis
  proof (cases r)
    case None
    then have "\<forall>u\<in>table_entries T t. \<not> matches T q u" using r(2) ent by (auto simp: located_def entries_nth)
    then show thesis using absent None l w(3) by (simp add: HashTable_find_def HashTable_contains_def)
  next
    case (Some x)
    then have x: "unat x < length table" "matches T q (table ! unat x)" using r(2) by (simp_all add: located_def)
    then have "x \<noteq> HashTable_end t" using w(2,5) by (auto simp: HashTable_end_def)
    moreover have "get_bucket x t = Some (table ! unat x)" using x(1) w(3) by (simp add: get_bucket_def bucket_def)
    moreover have "table ! unat x \<in> table_entries T t" using x ent by (simp add: entries_def matches_def)
    ultimately show thesis using present Some l w(3) x(2) by (simp add: HashTable_find_def HashTable_contains_def)
  qed
qed

section \<open>Removing\<close>

lemma shrink_ok:
  assumes a: "allocated T n table t" and l: "loaded T table < 2 ^ n"
  obtains t' where "shrink_if_needed T t = Some t'" "table_inv T t'" "table_entries T t' = entries T table"
    "2 ^ n \<le> 6 * key_count T table + 6 \<or> 2 ^ n \<le> unat (minimumTableSize T) \<longrightarrow> \<not> shouldShrink T t'"
proof (cases "shouldShrink T t")
  case False
  then show thesis using that [of t] a l allocated_entries [OF a] by (auto simp: shrink_if_needed_def table_inv_def)
next
  case True
  then have s: "6 * key_count T table < 2 ^ n" "unat (minimumTableSize T) < 2 ^ n" using shrink_iff [OF a] l by simp_all
  obtain m where m: "2 \<le> m" "unat (minimumTableSize T) = 2 ^ m" using minimum_exponent by blast
  have "m < n" using s(2) m(2) by simp
  then obtain n' where n: "n = Suc n'" "m \<le> n'" by (cases n) auto
  have p: "n \<le> 30" "length table = 2 ^ n" "buckets_of t = table" using a by (simp_all add: allocated_def well_placed_def buckets_of_def)
  have size: "unat (m_tableSize t div 2) = 2 ^ n'" using a n by (simp add: allocated_def unat_div)
  have old: "length (buckets_of t) < 2 ^ 32" "distinct_keys T (buckets_of t)" "unat (m_keyCount t) = key_count T (buckets_of t)"
    using a p power_bound [OF p(1)] by (simp_all add: allocated_def well_placed_def)
  have mn: "(2::nat) ^ m \<le> 2 ^ n'" using n(2) by simp
  then have ms: "minimumTableSize T \<le> m_tableSize t div 2" using size m(2) by (simp add: word_le_nat_alt)
  have "(4::nat) \<le> 2 ^ m" using m(1) power_increasing [of 2 m "2::nat"] by simp
  then have four: "(4::nat) \<le> 2 ^ n'" using mn by (rule order.trans)
  have keys: "2 * key_count T table < 2 ^ n'" using s(1) n(1) four by (simp only: power_Suc)
  obtain t' table' new' where r: "rehash T (m_tableSize t div 2) None t = Some (t', new')" "allocated T n' table' t'" "deleted_count T table' = 0"
    "key_count T table' = key_count T table" "entries T table' = table_entries T t"
    by (rule rehash_allocated [of t "m_tableSize t div 2" n' None]) (use old size n p keys ms in \<open>simp_all\<close>)
  have l': "loaded T table' < 2 ^ n'" using keys r(3,4) by (simp add: loaded_def)
  have "\<not> shouldShrink T t'" if c: "2 ^ n \<le> 6 * key_count T table + 6"
  proof
    assume "shouldShrink T t'"
    then have x: "6 * key_count T table < 2 ^ n'" "2 ^ m < (2::nat) ^ n'" using shrink_iff [OF r(2)] l' r(4) m(2) by simp_all
    then have "Suc m \<le> n'" by simp
    then have "(2::nat) ^ 3 \<le> 2 ^ n'" using m(1) by (intro power_increasing) simp_all
    then show False using x c n(1) by (simp only: power_Suc) simp
  qed
  moreover have "\<not> 2 ^ n \<le> unat (minimumTableSize T)" using s(2) by simp
  moreover have "shrink_if_needed T t = Some t'" using True r(1) by (simp add: shrink_if_needed_def HashTable_shrink_def)
  moreover have "table_inv T t'" using r(2) l' by (auto simp: table_inv_def)
  moreover have "table_entries T t' = entries T table" using allocated_entries [OF r(2)] r(5) allocated_entries [OF a] by simp
  ultimately show thesis using that by metis
qed

lemma delete_allocated:
  assumes a: "allocated T n table t" and l: "loaded T table < 2 ^ n" and e: "unat e < length table" "full T (table ! unat e)"
  shows "allocated T n (table[unat e := deletedValue T]) (delete_at T e t)"
    "loaded T (table[unat e := deletedValue T]) = loaded T table" "Suc (key_count T (table[unat e := deletedValue T])) = key_count T table"
    "entries T (table[unat e := deletedValue T]) = entries T table - {table ! unat e}"
proof -
  have w: "well_placed T n table" "n \<le> 30" using a by (simp_all add: allocated_def)
  have nd: "\<not> isDeletedBucket T (table ! unat e)" using e(2) by (simp add: full_bucket)
  show k: "Suc (key_count T (table[unat e := deletedValue T])) = key_count T table"
    using key_count_update [OF e(1), of T "deletedValue T"] e(2) by simp
  have d: "deleted_count T (table[unat e := deletedValue T]) = Suc (deleted_count T table)"
    using deleted_count_update [OF e(1), of T "deletedValue T"] nd by simp
  show "loaded T (table[unat e := deletedValue T]) = loaded T table" using k d by (simp add: loaded_def)
  show "entries T (table[unat e := deletedValue T]) = entries T table - {table ! unat e}"
    by (rule delete_entries) (use w e in \<open>simp_all add: well_placed_def\<close>)
  have "2 * deleted_count T table < 1073741824" using l power_bound [OF w(2)] by (simp add: loaded_def)
  then have "unat (m_deletedCount t + 1) = Suc (deleted_count T table)" using a by (simp add: allocated_def unat_word_ariths)
  moreover have "m_keyCount t \<noteq> 0" using a k by (auto simp: allocated_def)
  then have "unat (m_keyCount t - 1) = unat (m_keyCount t) - 1" by (rule unat_minus_one)
  ultimately show "allocated T n (table[unat e := deletedValue T]) (delete_at T e t)"
    using a k d delete_placed [OF w(1) e(1)] by (simp add: allocated_def delete_at_def)
qed

lemma removeAt_ok:
  assumes inv: "table_inv T t" and u: "get_bucket x t = Some u" "full T u"
  obtains t' where "HashTable_removeAt T x t = Some t'" "table_inv T t'" "table_entries T t' = table_entries T t - {u}"
    "\<not> shouldShrink T t \<longrightarrow> \<not> shouldShrink T t'"
proof -
  have "m_table t \<noteq> None" using u(1) by (auto simp: get_bucket_def split: option.splits)
  then obtain n table where a: "allocated T n table t" "loaded T table < 2 ^ n" using inv by (auto simp: table_inv_def new_HashTable_def)
  then have x: "unat x < length table" "table ! unat x = u" using u(1) by (auto simp: get_bucket_def bucket_def allocated_def split: if_splits)
  note d = delete_allocated [OF a x(1)]
  obtain t' where t': "shrink_if_needed T (delete_at T x t) = Some t'" "table_inv T t'"
    "table_entries T t' = entries T (table[unat x := deletedValue T])"
    "2 ^ n \<le> 6 * key_count T (table[unat x := deletedValue T]) + 6 \<or> 2 ^ n \<le> unat (minimumTableSize T) \<longrightarrow> \<not> shouldShrink T t'"
    by (rule shrink_ok [OF d(1)]) (use d a u x in simp_all)
  have "\<not> shouldShrink T t \<longrightarrow> \<not> shouldShrink T t'" using t'(4) shrink_iff [OF a(1)] a(2) d(3) u(2) x(2) by auto
  moreover have "HashTable_removeAt T x t = Some t'" using t'(1) u(1) by (simp add: HashTable_removeAt_def)
  ultimately show thesis using that t' d(4) u(2) x(2) allocated_entries [OF a(1)] by metis
qed

lemma entries_unique:
  assumes inv: "table_inv T t" and q: "valid_key T q"
    and u: "u \<in> table_entries T t" "v \<in> table_entries T t" "matches T q u" "matches T q v"
  shows "u = v"
proof -
  obtain n table where a: "allocated T n table t" using inv u(1) by (auto simp: table_inv_def)
  then have "distinct_keys T table" "u \<in> entries T table" "v \<in> entries T table"
    using u(1,2) allocated_entries [OF a] by (simp_all add: allocated_def well_placed_def)
  then show ?thesis using matches_same [OF _ q] u(3,4) by (auto simp: entries_nth)
qed

lemma remove_ok:
  assumes inv: "table_inv T t" and q: "valid_key T q"
  obtains t' where "HashTable_remove T q t = Some t'" "table_inv T t'" "table_entries T t' = {u \<in> table_entries T t. \<not> matches T q u}"
    "\<not> shouldShrink T t \<longrightarrow> \<not> shouldShrink T t'"
proof -
  show thesis
  proof (rule find_ok [OF inv identity_denotes [OF q]], goal_cases)
    case 1
    then have "HashTable_remove T q t = Some t" by (simp add: HashTable_remove_def HashTable_removeIterator_def)
    moreover have "table_entries T t = {u \<in> table_entries T t. \<not> matches T q u}" using 1(4) by blast
    ultimately show ?case using that inv by metis
  next
    case (2 x u)
    have f: "full T u" using 2(7) by (simp add: matches_def)
    obtain t' where t': "HashTable_removeAt T x t = Some t'" "table_inv T t'" "table_entries T t' = table_entries T t - {u}"
      "\<not> shouldShrink T t \<longrightarrow> \<not> shouldShrink T t'" by (rule removeAt_ok [OF inv 2(5) f])
    have "v = u" if "v \<in> table_entries T t" "matches T q v" for v
      by (rule entries_unique [OF inv q that(1) 2(6) that(2) 2(7)])
    then have "table_entries T t - {u} = {u \<in> table_entries T t. \<not> matches T q u}" using 2(6,7) by blast
    then show ?case using that t' 2(1,4) by (simp add: HashTable_remove_def HashTable_removeIterator_def)
  qed
qed

end

end
