(* ===== verification/WTF_HashTable_Check.thy ===== *)
theory WTF_HashTable_Check
  imports WTF_HashTable_Remove
begin

text \<open>
  Removing all entries with a property, the consistency check of debug builds, iterating, and copying.
\<close>

context hash_traits
begin

section \<open>Clearing and removing with a predicate\<close>

lemma clear_ok: "table_inv T t \<Longrightarrow> HashTable_clear t = new_HashTable"
  by (cases t) (auto simp: HashTable_clear_def table_inv_def new_HashTable_def allocated_def)

lemma removeIf_loop_ok:
  assumes "allocated T n table t" "loaded T table < 2 ^ n" "i \<le> 2 ^ n"
  obtains t' table' where "removeIf_loop T functor i t = Some t'" "allocated T n table' t'" "loaded T table' < 2 ^ n"
    "entries T table' = entries T table - {table ! j |j. j < i \<and> full T (table ! j) \<and> functor (table ! j)}"
  using assms
proof (induction i arbitrary: t table thesis)
  case 0
  then show ?case by simp
next
  case (Suc i)
  have w: "length table = 2 ^ n" "n \<le> 30" "m_table t = Some table" using Suc.prems(2) by (simp_all add: allocated_def well_placed_def)
  have i: "unat (of_nat i :: u32) = i" by (rule unat_small) (use Suc.prems(4) power_bound [OF w(2)] in simp)
  then have g: "get_bucket (of_nat i) t = Some (table ! i)" using w Suc.prems(4) by (simp add: get_bucket_def bucket_def)
  show ?case
  proof (cases "full T (table ! i) \<and> functor (table ! i)")
    case False
    then have s: "removeIf_loop T functor (Suc i) t = removeIf_loop T functor i t" using g by (simp add: full_bucket)
    obtain t' table' where r: "removeIf_loop T functor i t = Some t'" "allocated T n table' t'" "loaded T table' < 2 ^ n"
      "entries T table' = entries T table - {table ! j |j. j < i \<and> full T (table ! j) \<and> functor (table ! j)}"
      by (rule Suc.IH [OF _ Suc.prems(2,3)]) (use Suc.prems(4) in \<open>blast, simp\<close>)
    moreover have "{table ! j |j. j < Suc i \<and> full T (table ! j) \<and> functor (table ! j)} = {table ! j |j. j < i \<and> full T (table ! j) \<and> functor (table ! j)}"
      using False less_Suc_eq by auto
    ultimately show thesis using Suc.prems(1) s by metis
  next
    case True
    let ?table = "table[unat (of_nat i :: u32) := deletedValue T]"
    have l: "unat (of_nat i :: u32) < length table" using i w Suc.prems(4) by simp
    note d = delete_allocated [OF Suc.prems(2,3) l]
    have f: "full T (table ! unat (of_nat i :: u32))" using True i by simp
    obtain t' table' where r: "removeIf_loop T functor i (delete_at T (of_nat i) t) = Some t'" "allocated T n table' t'" "loaded T table' < 2 ^ n"
      "entries T table' = entries T ?table - {?table ! j |j. j < i \<and> full T (?table ! j) \<and> functor (?table ! j)}"
      by (rule Suc.IH [OF _ d(1) [OF f]]) (use d(2) [OF f] Suc.prems(3,4) in \<open>blast, simp, simp\<close>)
    have "{?table ! j |j. j < i \<and> full T (?table ! j) \<and> functor (?table ! j)} = {table ! j |j. j < i \<and> full T (table ! j) \<and> functor (table ! j)}"
      by (rule Collect_cong, rule iff_exI) (use i in auto)
    moreover have "{table ! j |j. j < Suc i \<and> full T (table ! j) \<and> functor (table ! j)} =
        insert (table ! i) {table ! j |j. j < i \<and> full T (table ! j) \<and> functor (table ! j)}"
      using True less_Suc_eq by auto
    ultimately have "entries T table' = entries T table - {table ! j |j. j < Suc i \<and> full T (table ! j) \<and> functor (table ! j)}"
      using r(4) d(4) [OF f] i by auto
    moreover have "removeIf_loop T functor (Suc i) t = Some t'" using g True r(1) by (simp add: full_bucket)
    ultimately show thesis using Suc.prems(1) r(2,3) by blast
  qed
qed

lemma removeIf_ok:
  assumes "table_inv T t"
  obtains t' where "HashTable_removeIf T functor t = Some t'" "table_inv T t'" "table_entries T t' = {v \<in> table_entries T t. \<not> functor v}"
proof (cases "t = new_HashTable")
  case True
  then show thesis using that [of t] assms by (simp add: HashTable_removeIf_def shrink_if_needed_def)
next
  case False
  then obtain n table where a: "allocated T n table t" "loaded T table < 2 ^ n" using assms by (auto simp: table_inv_def)
  then have w: "length table = 2 ^ n" "unat (m_tableSize t) = 2 ^ n" by (simp_all add: allocated_def well_placed_def)
  obtain t1 table' where r: "removeIf_loop T functor (2 ^ n) t = Some t1" "allocated T n table' t1" "loaded T table' < 2 ^ n"
    "entries T table' = entries T table - {table ! j |j. j < 2 ^ n \<and> full T (table ! j) \<and> functor (table ! j)}"
    by (rule removeIf_loop_ok [OF a order.refl])
  obtain t' where t': "shrink_if_needed T t1 = Some t'" "table_inv T t'" "table_entries T t' = entries T table'"
    by (rule shrink_ok [OF r(2,3)])
  have "entries T table' = {v \<in> table_entries T t. \<not> functor v}"
    unfolding r(4) allocated_entries [OF a(1)] entries_nth [of T table] using w(1) by auto
  then show thesis using that t' r(1) w(2) by (simp add: HashTable_removeIf_def)
qed

section \<open>The consistency check\<close>

lemma consistency_loop_ok:
  assumes a: "allocated T n table t" "loaded T table < 2 ^ n" and p: "table = pre @ rest"
  shows "consistency_loop T t rest (of_nat (length pre)) (of_nat c, of_nat d) =
    Some (of_nat (c + key_count T rest), of_nat (d + deleted_count T rest))"
  using p
proof (induction rest arbitrary: pre c d)
  case Nil
  then show ?case by (simp add: key_count_def deleted_count_def)
next
  case (Cons v rest)
  have w: "well_placed T n table" "length table = 2 ^ n" "m_table t = Some table" "n \<le> 30"
    using a(1) by (simp_all add: allocated_def well_placed_def)
  have j: "length pre < length table" "table ! length pre = v" using Cons.prems by simp_all
  have u: "unat (of_nat (length pre) :: u32) = length pre"
    by (rule unat_small) (use j(1) w(2) power_bound [OF w(4)] in simp)
  have ih: "consistency_loop T t rest (of_nat (length pre) + 1) (of_nat c', of_nat d') = Some (of_nat (c' + key_count T rest), of_nat (d' + deleted_count T rest))" for c' d'
    using Cons.IH [of "pre @ [v]" c' d'] Cons.prems by (simp add: add.commute)
  have found: "HashTable_find T (IdentityHashTranslator T) (extractKey T v) t = Some (of_nat (length pre))" if f: "full T v"
  proof -
    have vk: "valid_key T (extractKey T v)" using f by (simp add: full_def)
    have inv: "table_inv T t" using a by (auto simp: table_inv_def)
    have m: "matches T (extractKey T v) v" using f vk equal_refl by (simp add: matches_def)
    have here: "v \<in> table_entries T t" using f j allocated_entries [OF a(1)] by (metis (mono_tags, lifting) CollectI entries_def nth_mem)
    show ?thesis
    proof (rule find_ok [OF inv identity_denotes [OF vk]], goal_cases)
      case 1
      then show ?case using m here by blast
    next
      case (2 x y)
      then have x: "unat x < length table" "table ! unat x = y" using w(3) by (auto simp: get_bucket_def bucket_def split: if_splits)
      then have "unat x = length pre" using matches_same [of table, OF _ vk _ j(1)] w(1) m j(2) 2(7) by (simp add: well_placed_def)
      then have "x = of_nat (length pre)" using u by (simp add: word_unat_eq_iff)
      then show ?case using 2(1) by simp
    qed
  qed
  consider "isEmptyBucket T v" "\<not> isDeletedBucket T v" "\<not> full T v" | "\<not> isEmptyBucket T v" "isDeletedBucket T v" "\<not> full T v"
    | "\<not> isEmptyBucket T v" "\<not> isDeletedBucket T v" "full T v"
    using exclusive by (auto simp: full_bucket isEmptyBucket_def isDeletedBucket_def)
  then show ?case
  proof cases
    case 1
    then show ?thesis using ih by (simp add: key_count_def deleted_count_def)
  next
    case 2
    then show ?thesis using ih [of c "Suc d"] by (simp add: key_count_def deleted_count_def add.commute)
  next
    case 3
    then show ?thesis using ih [of "Suc c" d] found by (simp add: key_count_def deleted_count_def add.commute)
  qed
qed

lemma consistency_ok:
  assumes "table_inv T t"
  shows "checkTableConsistencyExceptSize T t" "checkTableConsistency T t \<longleftrightarrow> \<not> shouldShrink T t"
proof -
  have "checkTableConsistencyExceptSize T t \<and> (m_table t = None \<or> \<not> shouldExpand t)"
  proof (cases "t = new_HashTable")
    case True
    then show ?thesis by (simp add: checkTableConsistencyExceptSize_def new_HashTable_def)
  next
    case False
    then obtain n table where a: "allocated T n table t" "loaded T table < 2 ^ n" using assms by (auto simp: table_inv_def)
    then have w: "m_table t = Some table" "unat (m_keyCount t) = key_count T table" "unat (m_deletedCount t) = deleted_count T table"
      "unat (m_tableSize t) = 2 ^ n" "m_tableSizeMask t = mask n" "minimumTableSize T \<le> m_tableSize t" "n \<le> 30"
      by (simp_all add: allocated_def)
    have n: "2 \<le> n" by (rule allocated_exponent [OF a(1)])
    have "of_nat (key_count T table) = m_keyCount t" "of_nat (deleted_count T table) = m_deletedCount t" by (simp_all flip: w(2,3))
    then have "consistency_loop T t table 0 (0, 0) = Some (m_keyCount t, m_deletedCount t)"
      using consistency_loop_ok [OF a, of "[]" table 0 0] by simp
    moreover have m: "m_tableSizeMask t = m_tableSize t - 1" using minus_one_mask [OF w(4)] w(5,7) by simp
    moreover have "m_tableSizeMask t \<noteq> 0"
    proof
      assume "m_tableSizeMask t = 0"
      then have "m_tableSize t = 1" using m by simp
      then have "(2::nat) ^ n = 1" using w(4) by simp
      then show False using n by simp
    qed
    moreover have "\<not> shouldExpand t" using expand_iff [OF a(1)] a(2) by simp
    ultimately show ?thesis using w(1,6) by (simp add: checkTableConsistencyExceptSize_def)
  qed
  then show "checkTableConsistencyExceptSize T t" "checkTableConsistency T t \<longleftrightarrow> \<not> shouldShrink T t" by (auto simp: checkTableConsistency_def)
qed

lemma size_ok: "table_inv T t \<Longrightarrow> unat (m_keyCount t) = card (table_entries T t)"
proof -
  assume inv: "table_inv T t"
  show ?thesis
  proof (cases "t = new_HashTable")
    case False
    then obtain n table where a: "allocated T n table t" using inv by (auto simp: table_inv_def)
    then have "card (entries T table) = key_count T table"
      by (intro distinct_keys_values equal_refl) (simp_all add: allocated_def well_placed_def)
    then show ?thesis using a allocated_entries [OF a] by (simp add: allocated_def)
  qed simp
qed

section \<open>Iterating and copying\<close>

lemma skip_ok:
  "\<exists>k\<le>length rest. skipEmptyBuckets T rest p = p + of_nat k \<and> (\<forall>j<k. \<not> full T (rest ! j)) \<and> (k < length rest \<longrightarrow> full T (rest ! k))"
proof (induction rest arbitrary: p)
  case (Cons v rest)
  show ?case
  proof (cases "full T v")
    case False
    obtain k where k: "k \<le> length rest" "skipEmptyBuckets T rest (p + 1) = p + 1 + of_nat k" "\<forall>j<k. \<not> full T (rest ! j)" "k < length rest \<longrightarrow> full T (rest ! k)"
      using Cons.IH by blast
    have "\<forall>j<Suc k. \<not> full T ((v # rest) ! j)" using False k(3) by (auto simp: less_Suc_eq_0_disj)
    then show ?thesis using False k by (intro exI [of _ "Suc k"]) (simp add: full_bucket)
  qed (auto simp: full_bucket)
qed simp

lemma identity_simps [simp]:
  "translate (IdentityHashTranslator T) k v h = v" "translatorHash (IdentityHashTranslator T) k = hashOf T k"
  by (simp_all add: IdentityHashTranslator_def)

lemma skip_to:
  assumes "p \<le> length table"
  obtains r where "p \<le> r" "r \<le> length table" "skipEmptyBuckets T (drop p table) (of_nat p) = of_nat r"
    "r < length table \<longrightarrow> full T (table ! r)" "entries T (drop r table) = entries T (drop p table)"
    "key_count T (drop r table) = key_count T (drop p table)"
proof -
  obtain k where k: "k \<le> length (drop p table)" "skipEmptyBuckets T (drop p table) (of_nat p) = of_nat p + of_nat k"
    "\<forall>j<k. \<not> full T (drop p table ! j)" "k < length (drop p table) \<longrightarrow> full T (drop p table ! k)"
    using skip_ok by blast
  have "drop p table = take k (drop p table) @ drop (p + k) table" by (simp add: add.commute flip: drop_drop)
  moreover have "filter (full T) (take k (drop p table)) = []" using k(1,3) by (auto simp: filter_empty_conv in_set_conv_nth)
  ultimately have f: "filter (full T) (drop p table) = filter (full T) (drop (p + k) table)" by (metis append_Nil filter_append)
  have "entries T xs = set (filter (full T) xs)" for xs by (auto simp: entries_def)
  then have "entries T (drop (p + k) table) = entries T (drop p table)" using f by metis
  then show thesis using that [of "p + k"] k assms f by (simp add: key_count_def)
qed

lemma copy_loop_ok:
  assumes a: "allocated T n table other" and p: "p \<le> 2 ^ n" "p < 2 ^ n \<longrightarrow> full T (table ! p)" "2 ^ n - p \<le> fuel"
    and t: "table_inv T t" "\<not> shouldShrink T t" "card (table_entries T t) + key_count T (drop p table) \<le> key_bound"
    and d: "\<forall>v\<in>entries T (drop p table). \<forall>u\<in>table_entries T t. \<not> matches T (extractKey T v) u"
  shows "\<exists>t'. copy_loop T other fuel (of_nat p) t = Some t' \<and> table_inv T t' \<and> \<not> shouldShrink T t' \<and>
    table_entries T t' = table_entries T t \<union> entries T (drop p table)"
  using p t d
proof (induction fuel arbitrary: p t)
  case 0
  then have "p = 2 ^ n" by simp
  moreover have "of_nat (2 ^ n) = m_tableSize other" using a by (metis allocated_def of_nat_unat ucast_id)
  ultimately show ?case using 0 a by (subst copy_loop.simps) (simp add: HashTable_end_def allocated_def well_placed_def entries_def)
next
  case (Suc fuel)
  have w: "well_placed T n table" "length table = 2 ^ n" "m_table other = Some table" "n \<le> 30" "unat (m_tableSize other) = 2 ^ n"
    using a by (simp_all add: allocated_def well_placed_def)
  have pn: "unat (of_nat p :: u32) = p" by (rule unat_small) (use Suc.prems(1) power_bound [OF w(4)] in simp)
  have e: "HashTable_end other = of_nat p \<longleftrightarrow> p = 2 ^ n" using pn w(5) by (auto simp: HashTable_end_def word_unat_eq_iff)
  show ?case
  proof (cases "p = 2 ^ n")
    case True
    then show ?thesis using Suc.prems e w(2) by (subst copy_loop.simps) (simp add: entries_def)
  next
    case False
    let ?v = "table ! p"
    have p: "p < 2 ^ n" "full T ?v" using False Suc.prems(1,2) by simp_all
    then have vk: "valid_key T (extractKey T ?v)" by (simp add: full_def)
    have dr: "drop p table = ?v # drop (Suc p) table" using p(1) w(2) by (simp add: Cons_nth_drop_Suc)
    have ent: "entries T (drop p table) = insert ?v (entries T (drop (Suc p) table))" "key_count T (drop p table) = Suc (key_count T (drop (Suc p) table))"
      using p(2) unfolding dr by (auto simp: entries_def key_count_def)
    have kb: "unat (m_keyCount t) < key_bound" using Suc.prems(6) ent(2) size_ok [OF Suc.prems(4)] by simp
    have refl: "keysEqual T (extractKey T ?v) (extractKey T ?v)" by (rule equal_refl [OF vk])
    note id = identity_denotes [OF vk, of "table_entries T t"]
    have none: "\<not> (u \<in> table_entries T t \<and> matches T (extractKey T ?v) u)" for u using Suc.prems(7) ent(1) by blast
    obtain t1 x where t1: "HashTable_add T (IdentityHashTranslator T) (extractKey T ?v) ?v t = Some (t1, Some x, True)"
      "table_inv T t1" "table_entries T t1 = insert ?v (table_entries T t)" "\<not> shouldShrink T t \<longrightarrow> \<not> shouldShrink T t1"
      by (rule add_ok [OF Suc.prems(4) kb id _ p(2) refl]) (use none in \<open>simp, blast, blast\<close>)
    obtain r where r: "Suc p \<le> r" "r \<le> length table" "skipEmptyBuckets T (drop (Suc p) table) (of_nat (Suc p)) = of_nat r"
      "r < length table \<longrightarrow> full T (table ! r)" "entries T (drop r table) = entries T (drop (Suc p) table)"
      "key_count T (drop r table) = key_count T (drop (Suc p) table)"
      by (rule skip_to [of "Suc p" table]) (use p(1) w(2) in simp_all)
    have nx: "HashTable_next T other (of_nat p) = of_nat r" using r(3) w(3) pn by (simp add: HashTable_next_def add.commute)
    have fin: "finite (table_entries T t)" by (simp add: table_entries_def entries_def)
    have dist: "\<not> keysEqual T (extractKey T ?v) (extractKey T v)" if v: "v \<in> entries T (drop (Suc p) table)" for v
    proof -
      obtain j where j: "j < length (drop (Suc p) table)" "v = drop (Suc p) table ! j" "full T v" using v by (auto simp: entries_nth)
      then have "\<not> matches T (extractKey T (table ! (Suc p + j))) (table ! p)"
        using w(1,2) p(1) by (simp add: well_placed_def distinct_keys_def)
      then show ?thesis using j p(2) w(2) by (simp add: matches_def)
    qed
    have "\<exists>t'. copy_loop T other fuel (of_nat r) t1 = Some t' \<and> table_inv T t' \<and> \<not> shouldShrink T t' \<and>
        table_entries T t' = table_entries T t1 \<union> entries T (drop r table)"
    proof (rule Suc.IH)
      show "card (table_entries T t1) + key_count T (drop r table) \<le> key_bound"
        using Suc.prems(6) ent(2) r(6) card_insert_le_m1 [of "Suc (card (table_entries T t))" "table_entries T t" ?v] fin by (simp add: t1(3) card_insert_if)
      show "\<forall>v\<in>entries T (drop r table). \<forall>u\<in>table_entries T t1. \<not> matches T (extractKey T v) u"
        using Suc.prems(7) dist ent(1) r(5) t1(3) by (auto simp: matches_def)
    qed (use r t1(2,4) Suc.prems(3,5) w(2) in simp_all)
    moreover have "copy_loop T other (Suc fuel) (of_nat p) t = copy_loop T other fuel (of_nat r) t1"
      using e False t1(1) nx pn w(2,3) p(1) by (subst copy_loop.simps) (auto simp: get_bucket_def bucket_def)
    ultimately show ?thesis using t1(3) r(5) ent(1) by auto
  qed
qed

lemma copy_ok:
  assumes inv: "table_inv T other" and k: "card (table_entries T other) \<le> key_bound"
  obtains t where "HashTable_copy T other = Some t" "table_inv T t" "\<not> shouldShrink T t" "table_entries T t = table_entries T other"
proof (cases "m_keyCount other = 0")
  case True
  then have "card (table_entries T other) = 0" using size_ok [OF inv] by simp
  then have "table_entries T other = {}" by (simp add: table_entries_def entries_def)
  moreover have "HashTable_copy T other = Some new_HashTable" using True by (subst HashTable_copy_def, subst copy_loop.simps) (simp add: HashTable_begin_def)
  ultimately show thesis using that [of new_HashTable] by (simp add: table_inv_def)
next
  case False
  then obtain n table where a: "allocated T n table other" using inv by (auto simp: table_inv_def)
  then have w: "length table = 2 ^ n" "m_table other = Some table" "unat (m_tableSize other) = 2 ^ n" by (simp_all add: allocated_def well_placed_def)
  obtain r where r: "0 \<le> r" "r \<le> length table" "skipEmptyBuckets T (drop 0 table) (of_nat 0) = of_nat r"
    "r < length table \<longrightarrow> full T (table ! r)" "entries T (drop r table) = entries T (drop 0 table)" "key_count T (drop r table) = key_count T (drop 0 table)"
    by (rule skip_to [of 0 table]) simp_all
  have b: "HashTable_begin T other = of_nat r" using r(3) w(2) False by (simp add: HashTable_begin_def)
  have kc: "key_count T table \<le> key_bound" using k size_ok [OF inv] a by (simp add: allocated_def)
  have "\<exists>t. copy_loop T other (2 ^ n) (of_nat r) new_HashTable = Some t \<and> table_inv T t \<and> \<not> shouldShrink T t \<and>
      table_entries T t = table_entries T new_HashTable \<union> entries T (drop r table)"
    by (rule copy_loop_ok [OF a]) (use r w kc in \<open>simp_all add: table_inv_def\<close>)
  then show thesis using that b w(3) r(5) allocated_entries [OF a] by (auto simp: HashTable_copy_def)
qed

end

end
