(* ===== verification/WTF_HashMap.thy ===== *)
theory WTF_HashMap
  imports WTF_HashTable_Check
begin

text \<open>
  Maps and sets over the hash table (\<open>src/Source/WTF/wtf/HashMap.h\<close>, \<open>HashSet.h\<close>, \<open>HashTraits.h\<close>).
  The parameters of a map come from those of its keys: a bucket is a pair of a key and a value, whose
  key decides if it is empty or deleted. \<open>K\<close> are the parameters of a table of keys alone, and
  \<open>emptyMapped\<close> is the empty value of the type of values. A deleted pair keeps a destroyed value in the
  code, which nothing reads; here it is \<open>emptyMapped\<close>.
\<close>

section \<open>Maps\<close>

record ('k, 'm) KeyValuePair =
  pairKey :: 'k
  pairValue :: 'm

definition KeyValuePairTraits :: "('k, 'k) HashTraits \<Rightarrow> 'm \<Rightarrow> ('k, ('k, 'm) KeyValuePair) HashTraits" where
  "KeyValuePairTraits K emptyMapped =
     \<lparr>extractKey = pairKey, hashOf = hashOf K, keysEqual = keysEqual K,
      safeToCompareToEmptyOrDeleted = safeToCompareToEmptyOrDeleted K,
      emptyValue = \<lparr>pairKey = emptyValue K, pairValue = emptyMapped\<rparr>, isEmptyValue = isEmptyValue K,
      deletedValue = \<lparr>pairKey = deletedValue K, pairValue = emptyMapped\<rparr>, isDeletedValue = isDeletedValue K,
      minimumTableSize = minimumTableSize K\<rparr>"

definition HashMapTranslator :: "('k, 'k) HashTraits \<Rightarrow> ('k, ('k, 'm) KeyValuePair, 'k, 'm) HashTranslator" where
  "HashMapTranslator K =
     \<lparr>translatorHash = hashOf K, translatorEqual = keysEqual K,
      translate = (\<lambda>key mapped _. \<lparr>pairKey = key, pairValue = mapped\<rparr>)\<rparr>"

definition inlineAdd ::
  "('k, 'k) HashTraits \<Rightarrow> 'm \<Rightarrow> 'k \<Rightarrow> 'm \<Rightarrow> ('k, 'm) KeyValuePair HashTable \<Rightarrow> (('k, 'm) KeyValuePair HashTable \<times> u32 option \<times> bool) option" where
  "inlineAdd K emptyMapped key value t = HashTable_add (KeyValuePairTraits K emptyMapped) (HashMapTranslator K) key value t"

definition inlineSet ::
  "('k, 'k) HashTraits \<Rightarrow> 'm \<Rightarrow> 'k \<Rightarrow> 'm \<Rightarrow> ('k, 'm) KeyValuePair HashTable \<Rightarrow> (('k, 'm) KeyValuePair HashTable \<times> u32 option \<times> bool) option" where
  "inlineSet K emptyMapped key value t =
     (case inlineAdd K emptyMapped key value t of
        None \<Rightarrow> None
      | Some (t, it, isNewEntry) \<Rightarrow>
          if isNewEntry then Some (t, it, True)
          else case it of None \<Rightarrow> None | Some x \<Rightarrow>
            (case get_bucket x t of
               None \<Rightarrow> None
             | Some entry \<Rightarrow> Some (set_bucket x (entry\<lparr>pairValue := value\<rparr>) t, it, False)))"

definition HashMap_get :: "('k, 'k) HashTraits \<Rightarrow> 'm \<Rightarrow> 'k \<Rightarrow> ('k, 'm) KeyValuePair HashTable \<Rightarrow> 'm option" where
  "HashMap_get K emptyMapped key t =
     (let T = KeyValuePairTraits K emptyMapped
      in case HashTable_lookup T (IdentityHashTranslator T) key t of
           None \<Rightarrow> None
         | Some None \<Rightarrow> Some emptyMapped
         | Some (Some x) \<Rightarrow> map_option pairValue (get_bucket x t))"

definition HashMap_contains :: "('k, 'k) HashTraits \<Rightarrow> 'm \<Rightarrow> 'k \<Rightarrow> ('k, 'm) KeyValuePair HashTable \<Rightarrow> bool option" where
  "HashMap_contains K emptyMapped key t =
     (let T = KeyValuePairTraits K emptyMapped in HashTable_contains T (IdentityHashTranslator T) key t)"

text \<open>Removing through an iterator, for maps and for sets.\<close>

definition remove_found :: "('k, 'v) HashTraits \<Rightarrow> u32 \<Rightarrow> 'v HashTable \<Rightarrow> ('v HashTable \<times> bool) option" where
  "remove_found T it t =
     (if it = HashTable_end t then Some (t, False)
      else map_option (\<lambda>t. (t, True)) (HashTable_removeIterator T it t))"

definition HashMap_remove :: "('k, 'k) HashTraits \<Rightarrow> 'm \<Rightarrow> 'k \<Rightarrow> ('k, 'm) KeyValuePair HashTable \<Rightarrow> (('k, 'm) KeyValuePair HashTable \<times> bool) option" where
  "HashMap_remove K emptyMapped key t =
     (let T = KeyValuePairTraits K emptyMapped
      in case HashTable_find T (IdentityHashTranslator T) key t of None \<Rightarrow> None | Some it \<Rightarrow> remove_found T it t)"

definition HashMap_take :: "('k, 'k) HashTraits \<Rightarrow> 'm \<Rightarrow> 'k \<Rightarrow> ('k, 'm) KeyValuePair HashTable \<Rightarrow> (('k, 'm) KeyValuePair HashTable \<times> 'm) option" where
  "HashMap_take K emptyMapped key t =
     (let T = KeyValuePairTraits K emptyMapped
      in case HashTable_find T (IdentityHashTranslator T) key t of None \<Rightarrow> None | Some it \<Rightarrow>
         if it = HashTable_end t then Some (t, emptyMapped)
         else case get_bucket it t of None \<Rightarrow> None | Some entry \<Rightarrow>
           map_option (\<lambda>(t, _). (t, pairValue entry)) (remove_found T it t))"

definition HashMap_removeIf ::
  "('k, 'k) HashTraits \<Rightarrow> 'm \<Rightarrow> (('k, 'm) KeyValuePair \<Rightarrow> bool) \<Rightarrow> ('k, 'm) KeyValuePair HashTable \<Rightarrow> ('k, 'm) KeyValuePair HashTable option" where
  "HashMap_removeIf K emptyMapped functor t = HashTable_removeIf (KeyValuePairTraits K emptyMapped) functor t"

definition isValidKey :: "('k, 'k) HashTraits \<Rightarrow> 'k \<Rightarrow> bool" where
  "isValidKey K key \<longleftrightarrow> \<not> isDeletedValue K key \<and>
     \<not> (if safeToCompareToEmptyOrDeleted K then key = emptyValue K else isEmptyValue K key)"

section \<open>Sets\<close>

definition HashSet_add :: "('k, 'k) HashTraits \<Rightarrow> 'k \<Rightarrow> 'k HashTable \<Rightarrow> ('k HashTable \<times> u32 option \<times> bool) option" where
  "HashSet_add K value t = HashTable_add K (IdentityHashTranslator K) (extractKey K value) value t"

definition HashSet_contains :: "('k, 'k) HashTraits \<Rightarrow> 'k \<Rightarrow> 'k HashTable \<Rightarrow> bool option" where
  "HashSet_contains K value t = HashTable_contains K (IdentityHashTranslator K) value t"

definition HashSet_addTranslated ::
  "('k, 'k) HashTraits \<Rightarrow> ('k, 'k, 't, 't) HashTranslator \<Rightarrow> 't \<Rightarrow> 'k HashTable \<Rightarrow> ('k HashTable \<times> u32 option \<times> bool) option" where
  "HashSet_addTranslated K tr value t = HashTable_addPassingHashCode K tr value value t"

definition HashSet_remove :: "('k, 'k) HashTraits \<Rightarrow> 'k \<Rightarrow> 'k HashTable \<Rightarrow> ('k HashTable \<times> bool) option" where
  "HashSet_remove K value t =
     (case HashTable_find K (IdentityHashTranslator K) value t of None \<Rightarrow> None | Some it \<Rightarrow> remove_found K it t)"

definition HashSet_takeIterator :: "('k, 'k) HashTraits \<Rightarrow> u32 \<Rightarrow> 'k HashTable \<Rightarrow> ('k HashTable \<times> 'k) option" where
  "HashSet_takeIterator K it t =
     (if it = HashTable_end t then Some (t, emptyValue K)
      else case get_bucket it t of None \<Rightarrow> None | Some result \<Rightarrow>
        map_option (\<lambda>(t, _). (t, result)) (remove_found K it t))"

definition HashSet_take :: "('k, 'k) HashTraits \<Rightarrow> 'k \<Rightarrow> 'k HashTable \<Rightarrow> ('k HashTable \<times> 'k) option" where
  "HashSet_take K value t =
     (case HashTable_find K (IdentityHashTranslator K) value t of None \<Rightarrow> None | Some it \<Rightarrow> HashSet_takeIterator K it t)"

definition HashSet_takeAny :: "('k, 'k) HashTraits \<Rightarrow> 'k HashTable \<Rightarrow> ('k HashTable \<times> 'k) option" where
  "HashSet_takeAny K t = HashSet_takeIterator K (HashTable_begin K t) t"

section \<open>Integers as keys\<close>

text \<open>The parameters of \<open>HashSet<unsigned>\<close>: zero is the empty value and the largest number the deleted one.\<close>

definition intHash :: "u32 \<Rightarrow> u32" where
  "intHash key =
     (let key = key + NOT (push_bit 15 key);
          key = key XOR drop_bit 10 key;
          key = key + push_bit 3 key;
          key = key XOR drop_bit 6 key;
          key = key + NOT (push_bit 11 key)
      in key XOR drop_bit 16 key)"

definition UnsignedTraits :: "(u32, u32) HashTraits" where
  "UnsignedTraits =
     \<lparr>extractKey = (\<lambda>key. key), hashOf = intHash, keysEqual = (=), safeToCompareToEmptyOrDeleted = True,
      emptyValue = 0, isEmptyValue = (\<lambda>key. key = 0), deletedValue = - 1, isDeletedValue = (\<lambda>key. key = - 1),
      minimumTableSize = 8\<rparr>"

section \<open>Their contracts\<close>

lemma unsigned_simps [simp]:
  "extractKey UnsignedTraits = (\<lambda>key. key)" "hashOf UnsignedTraits = intHash" "keysEqual UnsignedTraits = (=)"
  "safeToCompareToEmptyOrDeleted UnsignedTraits" "emptyValue UnsignedTraits = 0" "isEmptyValue UnsignedTraits = (\<lambda>key. key = 0)"
  "deletedValue UnsignedTraits = - 1" "isDeletedValue UnsignedTraits = (\<lambda>key. key = - 1)" "minimumTableSize UnsignedTraits = 8"
  by (simp_all add: UnsignedTraits_def)

interpretation unsigned_keys: hash_traits UnsignedTraits
proof unfold_locales
  show "\<exists>n. 2 \<le> n \<and> n \<le> 30 \<and> minimumTableSize UnsignedTraits = 2 ^ n"
    by (rule exI [of _ 3]) simp
  show "\<not> (isEmptyValue UnsignedTraits k \<and> isDeletedValue UnsignedTraits k)" for k
    by simp
  show "safeToCompareToEmptyOrDeleted UnsignedTraits \<Longrightarrow> valid_key UnsignedTraits k \<Longrightarrow> \<not> valid_key UnsignedTraits j \<Longrightarrow>
      \<not> keysEqual UnsignedTraits j k" for j k
    by auto
qed simp_all

text \<open>The parameters of keys alone give those of pairs.\<close>

locale key_traits = hash_traits K for K :: "('k, 'k) HashTraits" +
  assumes extract_id: "extractKey K = (\<lambda>key. key)"
begin

lemma pair_simps [simp]:
  "extractKey (KeyValuePairTraits K m) = pairKey" "hashOf (KeyValuePairTraits K m) = hashOf K"
  "keysEqual (KeyValuePairTraits K m) = keysEqual K" "valid_key (KeyValuePairTraits K m) = valid_key K"
  "safeToCompareToEmptyOrDeleted (KeyValuePairTraits K m) = safeToCompareToEmptyOrDeleted K"
  by (simp_all add: KeyValuePairTraits_def valid_key_def fun_eq_iff)

lemma pair_traits: "hash_traits (KeyValuePairTraits K m)"
proof unfold_locales
  show "isEmptyValue (KeyValuePairTraits K m) (extractKey (KeyValuePairTraits K m) (emptyValue (KeyValuePairTraits K m)))"
    "isDeletedValue (KeyValuePairTraits K m) (extractKey (KeyValuePairTraits K m) (deletedValue (KeyValuePairTraits K m)))"
    using empty_value deleted_value by (simp_all add: KeyValuePairTraits_def extract_id)
  show "\<not> (isEmptyValue (KeyValuePairTraits K m) k \<and> isDeletedValue (KeyValuePairTraits K m) k)" for k
    using exclusive by (simp add: KeyValuePairTraits_def)
  show "\<exists>n. 2 \<le> n \<and> n \<le> 30 \<and> minimumTableSize (KeyValuePairTraits K m) = 2 ^ n"
    using minimum by (simp add: KeyValuePairTraits_def)
  show "valid_key (KeyValuePairTraits K m) k \<Longrightarrow> keysEqual (KeyValuePairTraits K m) k k" for k
    using equal_refl by simp
  show "keysEqual (KeyValuePairTraits K m) k j"
    if "valid_key (KeyValuePairTraits K m) j" "valid_key (KeyValuePairTraits K m) k" "keysEqual (KeyValuePairTraits K m) j k" for j k
    using equal_sym that by simp
  show "keysEqual (KeyValuePairTraits K m) i k"
    if "valid_key (KeyValuePairTraits K m) i" "valid_key (KeyValuePairTraits K m) j" "valid_key (KeyValuePairTraits K m) k"
      "keysEqual (KeyValuePairTraits K m) i j" "keysEqual (KeyValuePairTraits K m) j k" for i j k
    using equal_trans [of i j k] that by simp
  show "hashOf (KeyValuePairTraits K m) j = hashOf (KeyValuePairTraits K m) k"
    if "valid_key (KeyValuePairTraits K m) j" "valid_key (KeyValuePairTraits K m) k" "keysEqual (KeyValuePairTraits K m) j k" for j k
    using equal_hash that by simp
  show "\<not> keysEqual (KeyValuePairTraits K m) j k"
    if "safeToCompareToEmptyOrDeleted (KeyValuePairTraits K m)" "valid_key (KeyValuePairTraits K m) k" "\<not> valid_key (KeyValuePairTraits K m) j" for j k
    using safe that by simp
qed

sublocale pair: hash_traits "KeyValuePairTraits K m" for m
  by (rule pair_traits)

end

interpretation unsigned_map: key_traits UnsignedTraits
  by unfold_locales simp

end
