(* ===== verification/WTF_HashMap_Refine.thy ===== *)
theory WTF_HashMap_Refine
  imports WTF_HashMap
begin

text \<open>
  A map over the hash table refines a partial function: what \<open>get\<close>, \<open>contains\<close> and \<open>size\<close> answer after
  any sequence of operations is what the partial function says, and no operation fails. Keys are
  taken up to the comparison of the table.
\<close>

section \<open>Replacing a value\<close>

lemma same_keys:
  assumes "length table' = length table" "\<And>p. p < length table \<Longrightarrow> extractKey T (table' ! p) = extractKey T (table ! p)"
  shows "well_placed T n table' \<longleftrightarrow> well_placed T n table" "key_count T table' = key_count T table" "deleted_count T table' = deleted_count T table"
proof -
  have k: "map (extractKey T) table' = map (extractKey T) table" using assms by (auto intro: nth_equalityI)
  have c: "length (filter (\<lambda>v. P (extractKey T v)) xs) = length (filter P (map (extractKey T) xs))" for P xs
    by (simp add: filter_map comp_def)
  show "key_count T table' = key_count T table" "deleted_count T table' = deleted_count T table"
    unfolding key_count_def deleted_count_def full_def isDeletedBucket_def [abs_def] c k by simp_all
  have len: "\<And>i. length table = 2 ^ n \<Longrightarrow> extractKey T (table' ! probe n h i) = extractKey T (table ! probe n h i)" for h
    using assms(2) by simp
  show "well_placed T n table' \<longleftrightarrow> well_placed T n table"
    using assms len unfolding well_placed_def distinct_keys_def path_free_def matches_def full_def isEmptyBucket_def by auto
qed

context hash_traits
begin

lemma replace_ok:
  assumes inv: "table_inv T t" and u: "get_bucket x t = Some u" "full T u" "extractKey T v = extractKey T u"
  shows "table_inv T (set_bucket x v t)" "table_entries T (set_bucket x v t) = insert v (table_entries T t - {u})"
    "shouldShrink T (set_bucket x v t) = shouldShrink T t"
proof -
  have "m_table t \<noteq> None" using u(1) by (auto simp: get_bucket_def split: option.splits)
  then obtain n table where a: "allocated T n table t" "loaded T table < 2 ^ n" using inv by (auto simp: table_inv_def new_HashTable_def)
  then have x: "unat x < length table" "table ! unat x = u" using u(1) by (auto simp: get_bucket_def bucket_def allocated_def split: if_splits)
  note k = same_keys [of "table[unat x := v]" table T]
  have keys: "\<And>p. p < length table \<Longrightarrow> extractKey T (table[unat x := v] ! p) = extractKey T (table ! p)"
    using u(3) x by (auto simp: nth_list_update)
  have a': "allocated T n (table[unat x := v]) (set_bucket x v t)" using a(1) k keys by (simp add: allocated_def)
  then show "table_inv T (set_bucket x v t)" using a(2) k(2,3) keys unfolding table_inv_def loaded_def by (metis length_list_update)
  have fv: "full T v" using u(2,3) by (simp add: full_def)
  have "table ! i \<noteq> u" if "i < length table" "i \<noteq> unat x" "full T (table ! i)" for i
  proof
    assume "table ! i = u"
    then have "matches T (extractKey T u) (table ! i)" "matches T (extractKey T u) (table ! unat x)"
      using x(2) u(2) equal_refl by (simp_all add: matches_def full_def)
    then show False using matches_same [of table "extractKey T u" i "unat x"] a(1) that x(1) u(2)
      by (simp add: allocated_def well_placed_def full_def)
  qed
  then show "table_entries T (set_bucket x v t) = insert v (table_entries T t - {u})"
    unfolding allocated_entries [OF a'] allocated_entries [OF a(1)] entries_update [OF x(1)] entries_nth [of T table]
    using fv x(2) by auto
  show "shouldShrink T (set_bucket x v t) = shouldShrink T t" by (simp add: shouldShrink_def)
qed

end

section \<open>Operations and their specification\<close>

datatype ('k, 'm) MapOp = OpSet 'k 'm | OpAdd 'k 'm | OpRemove 'k | OpTake 'k | OpRemoveIf "'m \<Rightarrow> bool" | OpClear

fun valid_op :: "('k, 'k) HashTraits \<Rightarrow> ('k, 'm) MapOp \<Rightarrow> bool" where
  "valid_op K (OpSet k v) = valid_key K k"
| "valid_op K (OpAdd k v) = valid_key K k"
| "valid_op K (OpRemove k) = valid_key K k"
| "valid_op K (OpTake k) = valid_key K k"
| "valid_op K (OpRemoveIf p) = True"
| "valid_op K OpClear = True"

definition is_removeIf :: "('k, 'm) MapOp \<Rightarrow> bool" where
  "is_removeIf op \<longleftrightarrow> (\<exists>p. op = OpRemoveIf p)"

text \<open>An operation gives the table and what it answers.\<close>

datatype 'm OpResult = IsNewEntry bool | Removed bool | Taken 'm | Nothing

fun apply_op :: "('k, 'k) HashTraits \<Rightarrow> 'm \<Rightarrow> ('k, 'm) MapOp \<Rightarrow> ('k, 'm) KeyValuePair HashTable \<Rightarrow>
    (('k, 'm) KeyValuePair HashTable \<times> 'm OpResult) option" where
  "apply_op K e (OpSet k v) t = map_option (\<lambda>(t, it, isNewEntry). (t, IsNewEntry isNewEntry)) (inlineSet K e k v t)"
| "apply_op K e (OpAdd k v) t = map_option (\<lambda>(t, it, isNewEntry). (t, IsNewEntry isNewEntry)) (inlineAdd K e k v t)"
| "apply_op K e (OpRemove k) t = map_option (\<lambda>(t, removed). (t, Removed removed)) (HashMap_remove K e k t)"
| "apply_op K e (OpTake k) t = map_option (\<lambda>(t, value). (t, Taken value)) (HashMap_take K e k t)"
| "apply_op K e (OpRemoveIf p) t = map_option (\<lambda>t. (t, Nothing)) (HashMap_removeIf K e (\<lambda>pair. p (pairValue pair)) t)"
| "apply_op K e OpClear t = Some (HashTable_clear t, Nothing)"

fun apply_ops :: "('k, 'k) HashTraits \<Rightarrow> 'm \<Rightarrow> ('k, 'm) MapOp list \<Rightarrow> ('k, 'm) KeyValuePair HashTable \<Rightarrow>
    (('k, 'm) KeyValuePair HashTable \<times> 'm OpResult list) option" where
  "apply_ops K e [] t = Some (t, [])"
| "apply_ops K e (op # ops) t =
     (case apply_op K e op t of None \<Rightarrow> None | Some (t, r) \<Rightarrow> map_option (\<lambda>(t, rs). (t, r # rs)) (apply_ops K e ops t))"

fun spec_op :: "('k, 'k) HashTraits \<Rightarrow> ('k, 'm) MapOp \<Rightarrow> ('k \<Rightarrow> 'm option) \<Rightarrow> 'k \<Rightarrow> 'm option" where
  "spec_op K (OpSet k v) f = (\<lambda>j. if keysEqual K k j then Some v else f j)"
| "spec_op K (OpAdd k v) f = (\<lambda>j. if keysEqual K k j \<and> f j = None then Some v else f j)"
| "spec_op K (OpRemove k) f = (\<lambda>j. if keysEqual K k j then None else f j)"
| "spec_op K (OpTake k) f = (\<lambda>j. if keysEqual K k j then None else f j)"
| "spec_op K (OpRemoveIf p) f = (\<lambda>j. case f j of None \<Rightarrow> None | Some v \<Rightarrow> if p v then None else Some v)"
| "spec_op K OpClear f = (\<lambda>_. None)"

definition the_value :: "'m \<Rightarrow> 'm option \<Rightarrow> 'm" where
  "the_value e r = (case r of None \<Rightarrow> e | Some v \<Rightarrow> v)"

fun spec_result :: "'m \<Rightarrow> ('k, 'm) MapOp \<Rightarrow> ('k \<Rightarrow> 'm option) \<Rightarrow> 'm OpResult" where
  "spec_result e (OpSet k v) f = IsNewEntry (f k = None)"
| "spec_result e (OpAdd k v) f = IsNewEntry (f k = None)"
| "spec_result e (OpRemove k) f = Removed (f k \<noteq> None)"
| "spec_result e (OpTake k) f = Taken (the_value e (f k))"
| "spec_result e (OpRemoveIf p) f = Nothing"
| "spec_result e OpClear f = Nothing"

fun spec_ops :: "('k, 'k) HashTraits \<Rightarrow> 'm \<Rightarrow> ('k, 'm) MapOp list \<Rightarrow> ('k \<Rightarrow> 'm option) \<Rightarrow> ('k \<Rightarrow> 'm option) \<times> 'm OpResult list" where
  "spec_ops K e [] f = (f, [])"
| "spec_ops K e (op # ops) f = (let (g, rs) = spec_ops K e ops (spec_op K op f) in (g, spec_result e op f # rs))"

definition represents :: "('k, 'k) HashTraits \<Rightarrow> 'm \<Rightarrow> ('k, 'm) KeyValuePair HashTable \<Rightarrow> ('k \<Rightarrow> 'm option) \<Rightarrow> bool" where
  "represents K e t f \<longleftrightarrow> (\<forall>k v. valid_key K k \<longrightarrow>
     (f k = Some v \<longleftrightarrow> (\<exists>p\<in>table_entries (KeyValuePairTraits K e) t. keysEqual K (pairKey p) k \<and> pairValue p = v)))"

text \<open>What a table answers is what a partial function says.\<close>

definition answers :: "('k, 'k) HashTraits \<Rightarrow> 'm \<Rightarrow> ('k, 'm) KeyValuePair HashTable \<Rightarrow> ('k \<Rightarrow> 'm option) \<Rightarrow> bool" where
  "answers K e t f \<longleftrightarrow> (\<forall>k. valid_key K k \<longrightarrow>
     HashMap_get K e k t = Some (the_value e (f k)) \<and> HashMap_contains K e k t = Some (f k \<noteq> None))"

section \<open>One operation\<close>

context key_traits
begin

lemma equal_right: "valid_key K i \<Longrightarrow> valid_key K j \<Longrightarrow> valid_key K k \<Longrightarrow> keysEqual K j k \<Longrightarrow> keysEqual K i j \<longleftrightarrow> keysEqual K i k"
  using equal_sym equal_trans by blast

lemma entry_keys: "p \<in> table_entries (KeyValuePairTraits K e) t \<Longrightarrow> valid_key K (pairKey p)"
  by (simp add: table_entries_def entries_def full_def)

lemma pair_matches: "p \<in> table_entries (KeyValuePairTraits K e) t \<Longrightarrow> matches (KeyValuePairTraits K e) k p \<longleftrightarrow> keysEqual K (pairKey p) k"
  using entry_keys [of p e t] by (simp add: matches_def full_def)

lemma map_denotes: "valid_key K k \<Longrightarrow> denotes (KeyValuePairTraits K e) (HashMapTranslator K) k k V"
  using safe by (simp add: denotes_def HashMapTranslator_def)

lemma represents_remove:
  assumes r: "represents K e t f" and k: "valid_key K k"
    and t': "table_entries (KeyValuePairTraits K e) t' = {p \<in> table_entries (KeyValuePairTraits K e) t. \<not> matches (KeyValuePairTraits K e) k p}"
  shows "represents K e t' (\<lambda>j. if keysEqual K k j then None else f j)"
  unfolding represents_def
proof (intro allI impI)
  fix j w assume j: "valid_key K j"
  have "keysEqual K k j \<Longrightarrow> keysEqual K (pairKey p) j \<longleftrightarrow> keysEqual K (pairKey p) k" if "p \<in> table_entries (KeyValuePairTraits K e) t" for p
    using equal_right [OF entry_keys [OF that] k j] by blast
  moreover have "\<not> keysEqual K k j \<Longrightarrow> keysEqual K (pairKey p) j \<Longrightarrow> \<not> keysEqual K (pairKey p) k"
    if "p \<in> table_entries (KeyValuePairTraits K e) t" for p
    using equal_sym [OF entry_keys [OF that] k] equal_trans [OF k entry_keys [OF that] j] by blast
  ultimately show "(if keysEqual K k j then None else f j) = Some w \<longleftrightarrow>
      (\<exists>p\<in>table_entries (KeyValuePairTraits K e) t'. keysEqual K (pairKey p) j \<and> pairValue p = w)"
    using r j unfolding represents_def t' by (auto simp: pair_matches)
qed

lemma represents_set:
  assumes r: "represents K e t f" and k: "valid_key K k" "keysEqual K (pairKey n) k" "valid_key K (pairKey n)"
    and t': "table_entries (KeyValuePairTraits K e) t' = insert n {p \<in> table_entries (KeyValuePairTraits K e) t. \<not> matches (KeyValuePairTraits K e) k p}"
  shows "represents K e t' (\<lambda>j. if keysEqual K k j then Some (pairValue n) else f j)"
  unfolding represents_def
proof (intro allI impI)
  fix j w assume j: "valid_key K j"
  have "keysEqual K (pairKey n) j \<longleftrightarrow> keysEqual K k j"
    using equal_right [OF k(3,1) j] equal_sym equal_trans k j by metis
  moreover have "keysEqual K k j \<Longrightarrow> keysEqual K (pairKey p) j \<longleftrightarrow> keysEqual K (pairKey p) k" if "p \<in> table_entries (KeyValuePairTraits K e) t" for p
    using equal_right [OF entry_keys [OF that] k(1) j] by blast
  moreover have "\<not> keysEqual K k j \<Longrightarrow> keysEqual K (pairKey p) j \<Longrightarrow> \<not> keysEqual K (pairKey p) k"
    if "p \<in> table_entries (KeyValuePairTraits K e) t" for p
    using equal_sym [OF entry_keys [OF that] k(1)] equal_trans [OF k(1) entry_keys [OF that] j] by blast
  ultimately show "(if keysEqual K k j then Some (pairValue n) else f j) = Some w \<longleftrightarrow>
      (\<exists>p\<in>table_entries (KeyValuePairTraits K e) t'. keysEqual K (pairKey p) j \<and> pairValue p = w)"
    using r j unfolding represents_def t' by (auto simp: pair_matches)
qed

lemma represents_cong: "represents K e t f \<Longrightarrow> (\<And>j. valid_key K j \<Longrightarrow> g j = f j) \<Longrightarrow> represents K e t g"
  by (simp add: represents_def)

lemma represents_present:
  assumes "represents K e t f" "valid_key K k" "u \<in> table_entries (KeyValuePairTraits K e) t" "matches (KeyValuePairTraits K e) k u"
  shows "f k = Some (pairValue u)"
  using assms unfolding represents_def by (auto simp: pair_matches)

lemma represents_absent:
  assumes "represents K e t f" "valid_key K k" "\<forall>u\<in>table_entries (KeyValuePairTraits K e) t. \<not> matches (KeyValuePairTraits K e) k u"
  shows "f k = None"
  using assms unfolding represents_def by (metis not_None_eq pair_matches)

text \<open>What every operation keeps.\<close>

definition step_ok :: "'m \<Rightarrow> bool \<Rightarrow> ('k, 'm) KeyValuePair HashTable \<Rightarrow> ('k, 'm) KeyValuePair HashTable option \<Rightarrow> ('k \<Rightarrow> 'm option) \<Rightarrow> bool" where
  "step_ok e once t result f \<longleftrightarrow> (\<exists>t'. result = Some t' \<and> table_inv (KeyValuePairTraits K e) t' \<and> represents K e t' f \<and>
     card (table_entries (KeyValuePairTraits K e) t') \<le> Suc (card (table_entries (KeyValuePairTraits K e) t)) \<and>
     (once \<longrightarrow> \<not> shouldShrink (KeyValuePairTraits K e) t \<longrightarrow> \<not> shouldShrink (KeyValuePairTraits K e) t'))"

lemma step_okI:
  assumes "result = Some t'" "table_inv (KeyValuePairTraits K e) t'" "represents K e t' f"
    "card (table_entries (KeyValuePairTraits K e) t') \<le> Suc (card (table_entries (KeyValuePairTraits K e) t))"
    "once \<longrightarrow> \<not> shouldShrink (KeyValuePairTraits K e) t \<longrightarrow> \<not> shouldShrink (KeyValuePairTraits K e) t'"
  shows "step_ok e once t result f"
  using assms unfolding step_ok_def by blast

lemma finite_entries [simp]: "finite (table_entries T t)"
  by (simp add: table_entries_def entries_def)

lemma card_less: "A \<subseteq> table_entries T t \<Longrightarrow> card A \<le> Suc (card (table_entries T t))"
  using card_mono [OF finite_entries] by (metis le_SucI)

lemma set_step:
  assumes inv: "table_inv (KeyValuePairTraits K e) t" and r: "represents K e t f" and k: "valid_key K k"
    and b: "unat (m_keyCount t) < key_bound"
  shows "step_ok e True t (map_option fst (inlineSet K e k v t)) (\<lambda>j. if keysEqual K k j then Some v else f j)"
    "step_ok e True t (map_option fst (inlineAdd K e k v t)) (\<lambda>j. if keysEqual K k j \<and> f j = None then Some v else f j)"
proof -
  let ?T = "KeyValuePairTraits K e" and ?n = "\<lparr>pairKey = k, pairValue = v\<rparr>"
  have tr: "translate (HashMapTranslator K) k v (hashOf ?T k) = ?n" by (simp add: HashMapTranslator_def)
  have n: "full ?T ?n" "keysEqual ?T (extractKey ?T ?n) k" using k equal_refl by (simp_all add: full_def)
  have "step_ok e True t (map_option fst (inlineSet K e k v t)) (\<lambda>j. if keysEqual K k j then Some v else f j) \<and>
    step_ok e True t (map_option fst (inlineAdd K e k v t)) (\<lambda>j. if keysEqual K k j \<and> f j = None then Some v else f j)"
  proof (rule pair.add_ok [OF inv b map_denotes [OF k] tr [symmetric] n], goal_cases)
    case (1 x u)
    let ?u = "u\<lparr>pairValue := v\<rparr>"
    have f: "full ?T u" using 1(4) by (simp add: matches_def)
    have uk: "valid_key K (pairKey u)" "keysEqual K (pairKey u) k" using entry_keys [OF 1(3)] pair_matches [OF 1(3)] 1(4) by simp_all
    note rp = pair.replace_ok [OF inv 1(5) f, of ?u, simplified]
    have "p = u" if "p \<in> table_entries ?T t" "matches ?T k p" for p
      by (rule pair.entries_unique [OF inv _ that(1) 1(3) that(2) 1(4)]) (simp add: k)
    then have "{p \<in> table_entries ?T t. \<not> matches ?T k p} = table_entries ?T t - {u}" using 1(4) by blast
    then have "represents K e (set_bucket x ?u t) (\<lambda>j. if keysEqual K k j then Some (pairValue ?u) else f j)"
      by (intro represents_set [OF r k]) (use uk rp(2) in simp_all)
    moreover have "card (table_entries ?T (set_bucket x ?u t)) \<le> Suc (card (table_entries ?T t))"
      using card_mono [of "table_entries ?T t" "table_entries ?T t - {u}"] unfolding rp(2) by (auto simp: card_insert_if)
    moreover have "map_option fst (inlineSet K e k v t) = Some (set_bucket x ?u t)"
      using 1(1,5) by (simp add: inlineSet_def inlineAdd_def)
    ultimately have s: "step_ok e True t (map_option fst (inlineSet K e k v t)) (\<lambda>j. if keysEqual K k j then Some v else f j)"
      using rp(1,3) by (intro step_okI [of _ "set_bucket x ?u t"]) (simp_all cong: if_cong)
    have "\<exists>w. f j = Some w" if "keysEqual K k j" "valid_key K j" for j
      using r 1(3) uk that equal_trans [OF uk(1) k that(2) uk(2)] unfolding represents_def by blast
    then have "represents K e t (\<lambda>j. if keysEqual K k j \<and> f j = None then Some v else f j)"
      by (intro represents_cong [OF r]) auto
    moreover have "map_option fst (inlineAdd K e k v t) = Some t" using 1(1) by (simp add: inlineAdd_def)
    ultimately have "step_ok e True t (map_option fst (inlineAdd K e k v t)) (\<lambda>j. if keysEqual K k j \<and> f j = None then Some v else f j)"
      using inv by (intro step_okI [of _ t]) simp_all
    then show ?case using s by blast
  next
    case (2 t' x)
    have "{p \<in> table_entries ?T t. \<not> matches ?T k p} = table_entries ?T t" using 2(3) by blast
    then have rep: "represents K e t' (\<lambda>j. if keysEqual K k j then Some (pairValue ?n) else f j)"
      by (intro represents_set [OF r k]) (use k equal_refl 2(5) in simp_all)
    have none: "f j = None" if "keysEqual K k j" "valid_key K j" for j
    proof (rule represents_absent [OF r that(2)])
      show "\<forall>u\<in>table_entries ?T t. \<not> matches ?T j u"
      proof
        fix u assume u: "u \<in> table_entries ?T t"
        then have "\<not> keysEqual K (pairKey u) k" using 2(3) pair_matches [OF u] by blast
        then show "\<not> matches ?T j u" using equal_right [OF entry_keys [OF u] k that(2) that(1)] pair_matches [OF u] by blast
      qed
    qed
    then have "represents K e t' (\<lambda>j. if keysEqual K k j \<and> f j = None then Some v else f j)"
      by (intro represents_cong [OF rep]) simp
    moreover have "map_option fst (inlineSet K e k v t) = Some t'" "map_option fst (inlineAdd K e k v t) = Some t'"
      using 2(1) by (simp_all add: inlineSet_def inlineAdd_def)
    moreover have "card (table_entries ?T t') \<le> Suc (card (table_entries ?T t))" unfolding 2(5) by (simp add: card_insert_if)
    ultimately show ?case using rep 2(4,7) by (intro conjI step_okI [of _ t']) (simp_all cong: if_cong)
  qed
  then show "step_ok e True t (map_option fst (inlineSet K e k v t)) (\<lambda>j. if keysEqual K k j then Some v else f j)"
    "step_ok e True t (map_option fst (inlineAdd K e k v t)) (\<lambda>j. if keysEqual K k j \<and> f j = None then Some v else f j)"
    by blast+
qed

lemma set_result:
  assumes inv: "table_inv (KeyValuePairTraits K e) t" and r: "represents K e t f" and k: "valid_key K k"
    and b: "unat (m_keyCount t) < key_bound"
  shows "\<exists>t' x. inlineSet K e k v t = Some (t', x, f k = None)" "\<exists>t' x. inlineAdd K e k v t = Some (t', x, f k = None)"
proof -
  let ?T = "KeyValuePairTraits K e" and ?n = "\<lparr>pairKey = k, pairValue = v\<rparr>"
  have tr: "translate (HashMapTranslator K) k v (hashOf ?T k) = ?n" by (simp add: HashMapTranslator_def)
  have n: "full ?T ?n" "keysEqual ?T (extractKey ?T ?n) k" using k equal_refl by (simp_all add: full_def)
  have "(\<exists>t' x. inlineSet K e k v t = Some (t', x, f k = None)) \<and> (\<exists>t' x. inlineAdd K e k v t = Some (t', x, f k = None))"
  proof (rule pair.add_ok [OF inv b map_denotes [OF k] tr [symmetric] n], goal_cases)
    case (1 x u)
    have "f k = Some (pairValue u)" by (rule represents_present [OF r k 1(3,4)])
    then show ?case using 1(1,5) by (simp add: inlineSet_def inlineAdd_def)
  next
    case (2 t' x)
    have "f k = None" by (rule represents_absent [OF r k]) (use 2(3) in blast)
    then show ?case using 2(1) by (simp add: inlineSet_def inlineAdd_def)
  qed
  then show "\<exists>t' x. inlineSet K e k v t = Some (t', x, f k = None)" "\<exists>t' x. inlineAdd K e k v t = Some (t', x, f k = None)" by blast+
qed

lemma remove_step:
  assumes inv: "table_inv (KeyValuePairTraits K e) t" and r: "represents K e t f" and k: "valid_key K k"
  shows "step_ok e True t (map_option fst (HashMap_remove K e k t)) (\<lambda>j. if keysEqual K k j then None else f j)"
    "step_ok e True t (map_option fst (HashMap_take K e k t)) (\<lambda>j. if keysEqual K k j then None else f j)"
    "map_option snd (HashMap_take K e k t) = Some (the_value e (f k))"
    "map_option snd (HashMap_remove K e k t) = Some (f k \<noteq> None)"
proof -
  let ?T = "KeyValuePairTraits K e" and ?g = "\<lambda>j. if keysEqual K k j then None else f j"
  have vk: "valid_key ?T k" using k by simp
  have "step_ok e True t (map_option fst (HashMap_remove K e k t)) ?g \<and> step_ok e True t (map_option fst (HashMap_take K e k t)) ?g \<and>
    map_option snd (HashMap_take K e k t) = Some (the_value e (f k)) \<and>
    map_option snd (HashMap_remove K e k t) = Some (f k \<noteq> None)"
  proof (rule pair.find_ok [OF inv pair.identity_denotes [OF vk]], goal_cases)
    case 1
    then have "{p \<in> table_entries ?T t. \<not> matches ?T k p} = table_entries ?T t" by blast
    then have "represents K e t ?g" using represents_remove [OF r k, of t] by simp
    then have s: "step_ok e True t (Some t) ?g" using inv by (intro step_okI [of _ t]) simp_all
    have "f k = None" by (rule represents_absent [OF r k 1(4)])
    then show ?case using s 1(1) by (simp add: HashMap_remove_def HashMap_take_def remove_found_def Let_def the_value_def)
  next
    case (2 x u)
    have f: "full ?T u" using 2(7) by (simp add: matches_def)
    obtain t' where t': "HashTable_removeAt ?T x t = Some t'" "table_inv ?T t'" "table_entries ?T t' = table_entries ?T t - {u}"
      "\<not> shouldShrink ?T t \<longrightarrow> \<not> shouldShrink ?T t'" by (rule pair.removeAt_ok [OF inv 2(5) f])
    have "p = u" if "p \<in> table_entries ?T t" "matches ?T k p" for p
      by (rule pair.entries_unique [OF inv vk that(1) 2(6) that(2) 2(7)])
    then have "table_entries ?T t' = {p \<in> table_entries ?T t. \<not> matches ?T k p}" using t'(3) 2(7) by blast
    then have rep: "represents K e t' ?g" by (rule represents_remove [OF r k])
    have "card (table_entries ?T t') \<le> Suc (card (table_entries ?T t))" unfolding t'(3) by (rule card_less) blast
    then have s: "step_ok e True t (Some t') ?g" using t'(2,4) rep by (intro step_okI [of _ t']) simp_all
    have "f k = Some (pairValue u)" by (rule represents_present [OF r k 2(6,7)])
    then show ?case using s 2(1,4,5) t'(1)
      by (simp add: HashMap_remove_def HashMap_take_def remove_found_def HashTable_removeIterator_def Let_def the_value_def)
  qed
  then show "step_ok e True t (map_option fst (HashMap_remove K e k t)) ?g" "step_ok e True t (map_option fst (HashMap_take K e k t)) ?g"
    "map_option snd (HashMap_take K e k t) = Some (the_value e (f k))"
    "map_option snd (HashMap_remove K e k t) = Some (f k \<noteq> None)"
    by blast+
qed

lemma removeIf_step:
  assumes inv: "table_inv (KeyValuePairTraits K e) t" and r: "represents K e t f"
  shows "step_ok e False t (HashMap_removeIf K e (\<lambda>pair. p (pairValue pair)) t)
    (\<lambda>j. case f j of None \<Rightarrow> None | Some v \<Rightarrow> if p v then None else Some v)"
proof -
  let ?T = "KeyValuePairTraits K e"
  obtain t' where t': "HashTable_removeIf ?T (\<lambda>pair. p (pairValue pair)) t = Some t'" "table_inv ?T t'"
    "table_entries ?T t' = {v \<in> table_entries ?T t. \<not> p (pairValue v)}" by (rule pair.removeIf_ok [OF inv])
  have "represents K e t' (\<lambda>j. case f j of None \<Rightarrow> None | Some v \<Rightarrow> if p v then None else Some v)"
    unfolding represents_def t'(3)
  proof (intro allI impI)
    fix j w assume j: "valid_key K j"
    have iff: "f j = Some w \<longleftrightarrow> (\<exists>p\<in>table_entries ?T t. keysEqual K (pairKey p) j \<and> pairValue p = w)"
      using r j unfolding represents_def by blast
    have "(case f j of None \<Rightarrow> None | Some v \<Rightarrow> if p v then None else Some v) = Some w \<longleftrightarrow> f j = Some w \<and> \<not> p w"
      by (auto split: option.splits if_splits)
    also have "\<dots> \<longleftrightarrow> (\<exists>q\<in>{v \<in> table_entries ?T t. \<not> p (pairValue v)}. keysEqual K (pairKey q) j \<and> pairValue q = w)"
      unfolding iff by blast
    finally show "(case f j of None \<Rightarrow> None | Some v \<Rightarrow> if p v then None else Some v) = Some w \<longleftrightarrow>
        (\<exists>q\<in>{v \<in> table_entries ?T t. \<not> p (pairValue v)}. keysEqual K (pairKey q) j \<and> pairValue q = w)" .
  qed
  moreover have "card (table_entries ?T t') \<le> Suc (card (table_entries ?T t))" unfolding t'(3) by (rule card_less) blast
  ultimately show ?thesis using t'(1,2) by (intro step_okI [of _ t']) (simp_all add: HashMap_removeIf_def)
qed

lemma clear_step:
  assumes inv: "table_inv (KeyValuePairTraits K e) t"
  shows "step_ok e True t (Some (HashTable_clear t)) (\<lambda>_. None)"
  by (rule step_okI [of _ new_HashTable]) (simp_all add: pair.clear_ok [OF inv] table_inv_def represents_def)

lemma op_fst: "map_option fst (apply_op K e op t) =
    (case op of OpSet k v \<Rightarrow> map_option fst (inlineSet K e k v t) | OpAdd k v \<Rightarrow> map_option fst (inlineAdd K e k v t)
     | OpRemove k \<Rightarrow> map_option fst (HashMap_remove K e k t) | OpTake k \<Rightarrow> map_option fst (HashMap_take K e k t)
     | OpRemoveIf p \<Rightarrow> HashMap_removeIf K e (\<lambda>pair. p (pairValue pair)) t | OpClear \<Rightarrow> Some (HashTable_clear t))"
  by (cases op) (simp_all add: option.map_comp comp_def case_prod_beta option.map_id id_def [symmetric])

lemma op_step:
  assumes inv: "table_inv (KeyValuePairTraits K e) t" and r: "represents K e t f" and v: "valid_op K op" and b: "unat (m_keyCount t) < key_bound"
  shows "step_ok e (\<not> is_removeIf op) t (map_option fst (apply_op K e op t)) (spec_op K op f)"
  using v set_step [OF inv r _ b] remove_step(1,2) [OF inv r] removeIf_step [OF inv r] clear_step [OF inv]
  unfolding op_fst by (cases op) (simp_all add: is_removeIf_def)

lemma op_result:
  assumes inv: "table_inv (KeyValuePairTraits K e) t" and r: "represents K e t f" and v: "valid_op K op" and b: "unat (m_keyCount t) < key_bound"
  shows "apply_op K e op t = Some (t', x) \<Longrightarrow> x = spec_result e op f"
proof (cases op)
  case (OpSet k w)
  then show "apply_op K e op t = Some (t', x) \<Longrightarrow> ?thesis" using set_result(1) [OF inv r _ b, of k w] v by auto
next
  case (OpAdd k w)
  then show "apply_op K e op t = Some (t', x) \<Longrightarrow> ?thesis" using set_result(2) [OF inv r _ b, of k w] v by auto
next
  case (OpRemove k)
  then show "apply_op K e op t = Some (t', x) \<Longrightarrow> ?thesis" using remove_step(4) [OF inv r, of k] v by auto
next
  case (OpTake k)
  then show "apply_op K e op t = Some (t', x) \<Longrightarrow> ?thesis" using remove_step(3) [OF inv r, of k] v by auto
qed auto

section \<open>Sequences of operations\<close>

lemma ops_steps:
  assumes "table_inv (KeyValuePairTraits K e) t" "represents K e t f" "list_all (valid_op K) ops"
    and "card (table_entries (KeyValuePairTraits K e) t) + length ops \<le> key_bound"
  shows "\<exists>t'. apply_ops K e ops t = Some (t', snd (spec_ops K e ops f)) \<and> table_inv (KeyValuePairTraits K e) t' \<and>
    represents K e t' (fst (spec_ops K e ops f)) \<and> card (table_entries (KeyValuePairTraits K e) t') \<le> key_bound \<and>
    (list_all (\<lambda>op. \<not> is_removeIf op) ops \<longrightarrow> \<not> shouldShrink (KeyValuePairTraits K e) t \<longrightarrow> \<not> shouldShrink (KeyValuePairTraits K e) t')"
  using assms
proof (induction ops arbitrary: t f)
  case (Cons op ops)
  have b: "unat (m_keyCount t) < key_bound" using Cons.prems(4) pair.size_ok [OF Cons.prems(1)] by simp
  then have "step_ok e (\<not> is_removeIf op) t (map_option fst (apply_op K e op t)) (spec_op K op f)"
    using op_step [OF Cons.prems(1,2)] Cons.prems(3) by simp
  then obtain t1 x where t1: "apply_op K e op t = Some (t1, x)" "table_inv (KeyValuePairTraits K e) t1" "represents K e t1 (spec_op K op f)"
    "card (table_entries (KeyValuePairTraits K e) t1) \<le> Suc (card (table_entries (KeyValuePairTraits K e) t))"
    "\<not> is_removeIf op \<longrightarrow> \<not> shouldShrink (KeyValuePairTraits K e) t \<longrightarrow> \<not> shouldShrink (KeyValuePairTraits K e) t1"
    unfolding step_ok_def by auto
  have x: "x = spec_result e op f" by (rule op_result [OF Cons.prems(1,2) _ b t1(1)]) (use Cons.prems(3) in simp)
  have "\<exists>t'. apply_ops K e ops t1 = Some (t', snd (spec_ops K e ops (spec_op K op f))) \<and> table_inv (KeyValuePairTraits K e) t' \<and>
    represents K e t' (fst (spec_ops K e ops (spec_op K op f))) \<and> card (table_entries (KeyValuePairTraits K e) t') \<le> key_bound \<and>
    (list_all (\<lambda>op. \<not> is_removeIf op) ops \<longrightarrow> \<not> shouldShrink (KeyValuePairTraits K e) t1 \<longrightarrow> \<not> shouldShrink (KeyValuePairTraits K e) t')"
    by (rule Cons.IH [OF t1(2,3)]) (use Cons.prems(3,4) t1(4) in simp_all)
  then show ?case using t1(1,5) x by (auto simp: case_prod_beta)
qed simp

lemma get_represents:
  assumes inv: "table_inv (KeyValuePairTraits K e) t" and r: "represents K e t f" and k: "valid_key K k"
  shows "HashMap_get K e k t = Some (the_value e (f k))" "HashMap_contains K e k t = Some (f k \<noteq> None)"
proof -
  let ?T = "KeyValuePairTraits K e"
  have vk: "valid_key ?T k" using k by simp
  have "HashMap_get K e k t = Some (the_value e (f k)) \<and> HashMap_contains K e k t = Some (f k \<noteq> None)"
  proof (rule pair.find_ok [OF inv pair.identity_denotes [OF vk]], goal_cases)
    case 1
    then show ?case using represents_absent [OF r k 1(4)] by (simp add: HashMap_get_def HashMap_contains_def the_value_def)
  next
    case (2 x u)
    then show ?case using represents_present [OF r k 2(6,7)] by (simp add: HashMap_get_def HashMap_contains_def the_value_def)
  qed
  then show "HashMap_get K e k t = Some (the_value e (f k))" "HashMap_contains K e k t = Some (f k \<noteq> None)" by blast+
qed

lemma map_from_new:
  assumes "list_all (valid_op K) ops" "length ops \<le> key_bound" "spec_ops K e ops (\<lambda>_. None) = (f, results)"
  shows "\<exists>t. apply_ops K e ops new_HashTable = Some (t, results) \<and> answers K e t f \<and>
    (\<exists>t'. HashTable_copy (KeyValuePairTraits K e) t = Some t' \<and> answers K e t' f) \<and>
    checkTableConsistencyExceptSize (KeyValuePairTraits K e) t \<and>
    (list_all (\<lambda>op. \<not> is_removeIf op) ops \<longrightarrow> checkTableConsistency (KeyValuePairTraits K e) t)"
proof -
  let ?T = "KeyValuePairTraits K e"
  have "table_inv ?T new_HashTable" "represents K e new_HashTable (\<lambda>_. None)"
    by (simp_all add: table_inv_def represents_def)
  then obtain t where t: "apply_ops K e ops new_HashTable = Some (t, results)" and inv: "table_inv ?T t"
    and rep: "represents K e t f" and card: "card (table_entries ?T t) \<le> key_bound"
    and sh: "list_all (\<lambda>op. \<not> is_removeIf op) ops \<longrightarrow> \<not> shouldShrink ?T t"
    using ops_steps [OF _ _ assms(1), of e new_HashTable "\<lambda>_. None"] assms(2,3) by auto
  obtain t' where t': "HashTable_copy ?T t = Some t'" "table_inv ?T t'" "table_entries ?T t' = table_entries ?T t"
    by (rule pair.copy_ok [OF inv card])
  have "represents K e t' f" using rep unfolding represents_def t'(3) .
  then have "answers K e t' f" "answers K e t f"
    using get_represents [OF t'(2)] get_represents [OF inv rep] unfolding answers_def by blast+
  moreover have "checkTableConsistencyExceptSize ?T t" by (rule pair.consistency_ok [OF inv])
  moreover have "list_all (\<lambda>op. \<not> is_removeIf op) ops \<longrightarrow> checkTableConsistency ?T t"
    using pair.consistency_ok [OF inv] sh by simp
  ultimately show ?thesis using t t'(1) by blast
qed

end

end
