(* ===== verification/WTF_HashMap_Props.thy ===== *)
theory WTF_HashMap_Props
  imports WTF_HashMap_Refine
begin

text \<open>
  Property of the hash maps: what a client that calls \<open>set\<close>, \<open>add\<close>, \<open>remove\<close>, \<open>take\<close>, \<open>removeIf\<close> and
  \<open>clear\<close> sees of the table.
\<close>





end
